(* ===== verification/Squid_Prelude.thy ===== *)
theory Squid_Prelude
  imports Main "HOL-Library.Word"
begin

text \<open>
  Shared vocabulary of the development: the failure values of the modelled code, the
  reachable states of an interleaved system, the locale that turns a one-step proof into
  an invariant of every reachable state, and the generic facts on counting list elements
  and on updating lists that the component theories use.
\<close>

section \<open>Failures of the program as values\<close>

text \<open>
  \<open>Assertion\<close> is a failed \<^verbatim>\<open>assert()\<close>, \<open>MustFailed\<close> a failed \<^verbatim>\<open>Must()\<close>
  (an exception), \<open>Thrown s\<close> a \<^verbatim>\<open>TexcHere(s)\<close>, \<open>Full\<close> and \<open>ItemTooLarge\<close> the
  exceptions of \<^verbatim>\<open>Ipc::OneToOneUniQueue\<close>; \<open>OutOfBounds\<close> is an access outside an array,
  \<open>Dangling\<close> an access through a pointer to no live object. \<open>OutOfFuel\<close> ends a loop that ran
  longer than its bound; the theorems about such a loop show that this does not happen.
\<close>

datatype squid_error = Assertion | MustFailed | Thrown string | Full | ItemTooLarge | OutOfBounds
  | Dangling | OutOfFuel

type_synonym 'a res = "squid_error + 'a"

text \<open>Sequencing: the first failure ends the computation.\<close>

definition res_bind :: "'a res \<Rightarrow> ('a \<Rightarrow> 'b res) \<Rightarrow> 'b res" where
  "res_bind m f = (case m of Inl e \<Rightarrow> Inl e | Inr x \<Rightarrow> f x)"

lemma res_bind_simps [simp]: "res_bind (Inl e) f = Inl e" "res_bind (Inr x) f = f x"
  by (simp_all add: res_bind_def)

lemma res_bind_Inr_iff: "res_bind m f = Inr y \<longleftrightarrow> (\<exists>x. m = Inr x \<and> f x = Inr y)"
  by (cases m) simp_all

lemma res_bind_cong [fundef_cong]:
  "m = m' \<Longrightarrow> (\<And>x. m' = Inr x \<Longrightarrow> f x = f' x) \<Longrightarrow> res_bind m f = res_bind m' f'"
  by (cases m') auto

definition res_guard :: "bool \<Rightarrow> squid_error \<Rightarrow> unit res" where
  "res_guard b e = (if b then Inr () else Inl e)"

lemma res_guard_simps [simp]: "res_guard True e = Inr ()" "res_guard False e = Inl e"
  by (simp_all add: res_guard_def)

section \<open>Allocation\<close>

text \<open>What is relied on of an allocator: the address it returns is none of those in use, and not \<^verbatim>\<open>NULL\<close>.\<close>

definition fresh_alloc :: "(nat set \<Rightarrow> nat) \<Rightarrow> bool" where
  "fresh_alloc alloc \<longleftrightarrow> (\<forall>D. finite D \<longrightarrow> alloc D \<notin> D \<and> alloc D \<noteq> 0)"

lemma fresh_alloc_Max: "fresh_alloc (\<lambda>D. Max (insert 0 D) + 1)"
proof -
  have "Max (insert 0 D) + 1 \<notin> D" if "finite D" for D :: "nat set"
  proof
    assume "Max (insert 0 D) + 1 \<in> D"
    then have "Max (insert 0 D) + 1 \<le> Max (insert 0 D)" using that by (intro Max_ge) auto
    then show False by simp
  qed
  then show ?thesis by (simp add: fresh_alloc_def)
qed

section \<open>Narrowing conversions\<close>

text \<open>
  \<open>to_int32 x\<close> is the value of \<open>x\<close> after a conversion to a 32-bit \<^verbatim>\<open>int\<close>, \<open>to_int64 x\<close>
  after a conversion to \<^verbatim>\<open>int64_t\<close> (two's complement).
\<close>

definition to_int32 :: "int \<Rightarrow> int" where
  "to_int32 x = signed_take_bit 31 x"

definition to_int64 :: "int \<Rightarrow> int" where
  "to_int64 x = signed_take_bit 63 x"

lemma to_int32_id [simp]: "- (2 ^ 31) \<le> x \<Longrightarrow> x < 2 ^ 31 \<Longrightarrow> to_int32 x = x"
  unfolding to_int32_def by (rule signed_take_bit_int_eq_self) auto

lemma to_int64_id [simp]: "- (2 ^ 63) \<le> x \<Longrightarrow> x < 2 ^ 63 \<Longrightarrow> to_int64 x = x"
  unfolding to_int64_def by (rule signed_take_bit_int_eq_self) auto

section \<open>Counting list elements\<close>

definition cnt :: "('a \<Rightarrow> bool) \<Rightarrow> 'a list \<Rightarrow> nat" where
  "cnt P xs = length (filter P xs)"

lemma cnt_Nil [simp]: "cnt P [] = 0"
  by (simp add: cnt_def)

lemma cnt_Cons [simp]: "cnt P (x # xs) = (if P x then 1 else 0) + cnt P xs"
  by (simp add: cnt_def)

lemma cnt_append [simp]: "cnt P (xs @ ys) = cnt P xs + cnt P ys"
  by (simp add: cnt_def)

lemma cnt_replicate [simp]: "cnt P (replicate n x) = (if P x then n else 0)"
  by (induction n) auto

lemma cnt_le_length: "cnt P xs \<le> length xs"
  by (simp add: cnt_def)

lemma cnt_mono: "(\<And>x. P x \<Longrightarrow> Q x) \<Longrightarrow> cnt P xs \<le> cnt Q xs"
  by (induction xs) auto

lemma cnt_0_iff: "cnt P xs = 0 \<longleftrightarrow> (\<forall>x \<in> set xs. \<not> P x)"
  by (induction xs) auto

lemma cnt_pos_nth: "i < length xs \<Longrightarrow> P (xs ! i) \<Longrightarrow> 0 < cnt P xs"
  using cnt_0_iff [of P xs] by force

lemma cnt_update:
  assumes "i < length xs"
  shows "int (cnt P (xs[i := x])) = int (cnt P xs) - of_bool (P (xs ! i)) + of_bool (P x)"
  using assms
proof (induction xs arbitrary: i)
  case Nil
  then show ?case by simp
next
  case (Cons y ys)
  then show ?case by (cases i) auto
qed

lemma cnt_update_le:
  assumes "i < length xs" and "\<not> P x"
  shows "cnt P (xs[i := x]) \<le> cnt P xs"
  using cnt_update [OF assms(1), of P x] assms(2) by (cases "P (xs ! i)") auto

lemma cnt_two:
  assumes "i < length xs" and "j < length xs" and "i \<noteq> j" and "P (xs ! i)" and "P (xs ! j)"
  shows "2 \<le> cnt P xs"
proof -
  have "{i, j} \<subseteq> {k. k < length xs \<and> P (xs ! k)}" using assms by auto
  then have "card {i, j} \<le> card {k. k < length xs \<and> P (xs ! k)}"
    by (intro card_mono) auto
  then show ?thesis using assms(3) by (simp add: cnt_def length_filter_conv_card)
qed

section \<open>Reachable states and invariants\<close>

text \<open>The states reachable from \<open>init\<close> by steps of an interleaved system.\<close>

inductive reach :: "('s \<Rightarrow> bool) \<Rightarrow> ('s \<Rightarrow> 's \<Rightarrow> bool) \<Rightarrow> 's \<Rightarrow> bool"
  for init :: "'s \<Rightarrow> bool" and step :: "'s \<Rightarrow> 's \<Rightarrow> bool"
where
  reach_init: "init s \<Longrightarrow> reach init step s"
| reach_step: "reach init step s \<Longrightarrow> step s t \<Longrightarrow> reach init step t"

lemma reach_steps: "step\<^sup>*\<^sup>* s t \<Longrightarrow> reach init step s \<Longrightarrow> reach init step t"
  by (induction rule: rtranclp_induct) (auto intro: reach_step)

text \<open>
  The contract between a step relation and an invariant. A component discharges the two
  laws once, for its own steps; every state its clients can reach then satisfies the
  invariant.
\<close>

locale inductive_invariant =
  fixes init :: "'s \<Rightarrow> bool" and step :: "'s \<Rightarrow> 's \<Rightarrow> bool" and inv :: "'s \<Rightarrow> bool"
  assumes inv_init: "init s \<Longrightarrow> inv s"
    and inv_step: "inv s \<Longrightarrow> step s t \<Longrightarrow> inv t"
begin

lemma reach_inv: "reach init step s \<Longrightarrow> inv s"
  by (induction rule: reach.induct) (auto intro: inv_init inv_step)

lemma steps_inv: "step\<^sup>*\<^sup>* s t \<Longrightarrow> inv s \<Longrightarrow> inv t"
  by (induction rule: rtranclp_induct) (auto intro: inv_step)

end

end
