(* ===== verification/Ipc_ReadWriteLock.thy ===== *)
theory Ipc_ReadWriteLock
  imports Squid_Prelude
begin

text \<open>
  \<^verbatim>\<open>Ipc::ReadWriteLock\<close> (src/ipc/ReadWriteLock.cc): the atomic shared/exclusive lock that
  protects every slot of the shared-memory maps.

  Two views of the same code are given. The first makes each method one function on the two
  counters; it is what a single process sees, and what \<open>Ipc_StoreMap\<close> calls. The second,
  \<open>rw_step\<close>, lets any number of clients run the methods concurrently: one rule per atomic
  operation of \<^verbatim>\<open>Atomic::Word\<close> (an increment, a decrement, a read), so that the clients
  interleave between any two of them. \<^verbatim>\<open>Atomic::Word\<close> is an \<^verbatim>\<open>int\<close>; the invariant shows
  that both counters stay between 0 and the number of clients, so they never wrap.
\<close>

section \<open>The lock and its methods\<close>

record rw_lock =
  readers :: int
  writers :: int

definition rw_free :: rw_lock where
  "rw_free = \<lparr>readers = 0, writers = 0\<rparr>"

definition lockShared :: "rw_lock \<Rightarrow> bool \<times> rw_lock" where
  "lockShared l =
     (let l1 = l\<lparr>readers := readers l + 1\<rparr>
      in if writers l1 = 0 then (True, l1)
         else (False, l1\<lparr>readers := readers l1 - 1\<rparr>))"

definition lockExclusive :: "rw_lock \<Rightarrow> bool \<times> rw_lock" where
  "lockExclusive l =
     (let old = writers l; l1 = l\<lparr>writers := writers l + 1\<rparr>
      in if old = 0 \<and> readers l1 = 0 then (True, l1)
         else (False, l1\<lparr>writers := writers l1 - 1\<rparr>))"

definition unlockShared :: "rw_lock \<Rightarrow> rw_lock res" where
  "unlockShared l =
     (if readers l > 0 then Inr (l\<lparr>readers := readers l - 1\<rparr>) else Inl Assertion)"

definition unlockExclusive :: "rw_lock \<Rightarrow> rw_lock res" where
  "unlockExclusive l =
     (if writers l > 0 then Inr (l\<lparr>writers := writers l - 1\<rparr>) else Inl Assertion)"

definition switchExclusiveToShared :: "rw_lock \<Rightarrow> rw_lock res" where
  "switchExclusiveToShared l = unlockExclusive (l\<lparr>readers := readers l + 1\<rparr>)"

record rw_stats =
  st_count :: int
  st_readable :: int
  st_writeable :: int
  st_idle :: int
  st_readers :: int
  st_writers :: int

definition rw_updateStats :: "rw_lock \<Rightarrow> rw_stats \<Rightarrow> rw_stats" where
  "rw_updateStats l st =
     (let st1 = (if readers l \<noteq> 0 then
                   st\<lparr>st_readable := st_readable st + 1, st_readers := st_readers st + readers l\<rparr>
                 else if writers l \<noteq> 0 then
                   st\<lparr>st_writeable := st_writeable st + 1, st_writers := st_writers st + writers l\<rparr>
                 else st\<lparr>st_idle := st_idle st + 1\<rparr>)
      in st1\<lparr>st_count := st_count st1 + 1\<rparr>)"

section \<open>Interleaved clients\<close>

text \<open>
  Where a client stands between two atomic operations of a method: \<open>RTest\<close> has incremented
  \<^verbatim>\<open>readers\<close> and is about to read \<^verbatim>\<open>writers\<close>; \<open>RUndo\<close> found a writer and is about to
  decrement; \<open>WTest\<close> incremented \<^verbatim>\<open>writers\<close> from zero and is about to read \<^verbatim>\<open>readers\<close>;
  \<open>WUndo\<close> is about to take its increment back; \<open>WDown\<close> is between the two halves of
  \<^verbatim>\<open>switchExclusiveToShared\<close>. \<open>RHeld\<close> and \<open>WHeld\<close> hold the lock.
\<close>

datatype rw_pc = Idle | RTest | RUndo | RHeld | WTest | WUndo | WHeld | WDown

record rw_sys =
  rw_lk :: rw_lock
  rw_pcs :: "rw_pc list"

definition rw_goto :: "rw_sys \<Rightarrow> nat \<Rightarrow> rw_pc \<Rightarrow> int \<Rightarrow> int \<Rightarrow> rw_sys" where
  "rw_goto s i pc dr dw =
     \<lparr>rw_lk = \<lparr>readers = readers (rw_lk s) + dr, writers = writers (rw_lk s) + dw\<rparr>,
      rw_pcs = (rw_pcs s)[i := pc]\<rparr>"

definition rw_at :: "rw_sys \<Rightarrow> nat \<Rightarrow> rw_pc \<Rightarrow> bool" where
  "rw_at s i pc \<longleftrightarrow> i < length (rw_pcs s) \<and> rw_pcs s ! i = pc"

inductive rw_step :: "rw_sys \<Rightarrow> rw_sys \<Rightarrow> bool" where
  shared_inc: "rw_at s i Idle \<Longrightarrow> rw_step s (rw_goto s i RTest 1 0)"
| shared_ok: "rw_at s i RTest \<Longrightarrow> writers (rw_lk s) = 0 \<Longrightarrow> rw_step s (rw_goto s i RHeld 0 0)"
| shared_busy: "rw_at s i RTest \<Longrightarrow> writers (rw_lk s) \<noteq> 0 \<Longrightarrow> rw_step s (rw_goto s i RUndo 0 0)"
| shared_undo: "rw_at s i RUndo \<Longrightarrow> rw_step s (rw_goto s i Idle (-1) 0)"
| shared_release: "rw_at s i RHeld \<Longrightarrow> rw_step s (rw_goto s i Idle (-1) 0)"
| excl_first: "rw_at s i Idle \<Longrightarrow> writers (rw_lk s) = 0 \<Longrightarrow> rw_step s (rw_goto s i WTest 0 1)"
| excl_later: "rw_at s i Idle \<Longrightarrow> writers (rw_lk s) \<noteq> 0 \<Longrightarrow> rw_step s (rw_goto s i WUndo 0 1)"
| excl_ok: "rw_at s i WTest \<Longrightarrow> readers (rw_lk s) = 0 \<Longrightarrow> rw_step s (rw_goto s i WHeld 0 0)"
| excl_busy: "rw_at s i WTest \<Longrightarrow> readers (rw_lk s) \<noteq> 0 \<Longrightarrow> rw_step s (rw_goto s i WUndo 0 0)"
| excl_undo: "rw_at s i WUndo \<Longrightarrow> rw_step s (rw_goto s i Idle 0 (-1))"
| excl_release: "rw_at s i WHeld \<Longrightarrow> rw_step s (rw_goto s i Idle 0 (-1))"
| switch_inc: "rw_at s i WHeld \<Longrightarrow> rw_step s (rw_goto s i WDown 1 0)"
| switch_release: "rw_at s i WDown \<Longrightarrow> rw_step s (rw_goto s i RHeld 0 (-1))"

definition rw_init :: "rw_sys \<Rightarrow> bool" where
  "rw_init s \<longleftrightarrow> rw_lk s = rw_free \<and> (\<exists>n. rw_pcs s = replicate n Idle)"

text \<open>Which clients contribute to a counter, and which have exclusive or shared rights.\<close>

definition counts_reader :: "rw_pc \<Rightarrow> bool" where
  "counts_reader pc \<longleftrightarrow> pc \<in> {RTest, RUndo, RHeld, WDown}"

definition counts_writer :: "rw_pc \<Rightarrow> bool" where
  "counts_writer pc \<longleftrightarrow> pc \<in> {WTest, WUndo, WHeld, WDown}"

definition first_writer :: "rw_pc \<Rightarrow> bool" where
  "first_writer pc \<longleftrightarrow> pc \<in> {WTest, WHeld, WDown}"

definition has_exclusive :: "rw_pc \<Rightarrow> bool" where
  "has_exclusive pc \<longleftrightarrow> pc \<in> {WHeld, WDown}"

definition has_shared :: "rw_pc \<Rightarrow> bool" where
  "has_shared pc \<longleftrightarrow> pc = RHeld"

lemmas rw_classes =
  counts_reader_def counts_writer_def first_writer_def has_exclusive_def has_shared_def

definition rw_inv :: "rw_sys \<Rightarrow> bool" where
  "rw_inv s \<longleftrightarrow>
     readers (rw_lk s) = int (cnt counts_reader (rw_pcs s)) \<and>
     writers (rw_lk s) = int (cnt counts_writer (rw_pcs s)) \<and>
     cnt first_writer (rw_pcs s) \<le> 1 \<and>
     (cnt has_exclusive (rw_pcs s) = 0 \<or> cnt has_shared (rw_pcs s) = 0)"

section \<open>The invariant\<close>

lemma rw_init_inv: "rw_init s \<Longrightarrow> rw_inv s"
  by (auto simp: rw_init_def rw_inv_def rw_free_def rw_classes)

lemma cnt_shared_le: "cnt has_shared xs \<le> cnt counts_reader xs"
  by (rule cnt_mono) (auto simp: rw_classes)

lemma cnt_exclusive_le: "cnt has_exclusive xs \<le> cnt first_writer xs"
  by (rule cnt_mono) (auto simp: rw_classes)

lemma cnt_first_le: "cnt first_writer xs \<le> cnt counts_writer xs"
  by (rule cnt_mono) (auto simp: rw_classes)

lemmas rw_cnt_le = cnt_shared_le cnt_exclusive_le cnt_first_le

text \<open>
  How moving one client changes the four counts; every step of the invariant proof is then
  linear arithmetic over them.
\<close>

lemma rw_goto_inv:
  assumes inv: "rw_inv s" and at: "rw_at s i old"
    and dr: "dr = of_bool (counts_reader new) - of_bool (counts_reader old)"
    and dw: "dw = of_bool (counts_writer new) - of_bool (counts_writer old)"
    and first: "first_writer new \<Longrightarrow> first_writer old \<or> writers (rw_lk s) = 0"
    and ex: "has_exclusive new \<Longrightarrow> has_exclusive old \<or> readers (rw_lk s) = 0"
    and sh: "has_shared new \<Longrightarrow> has_shared old \<or> writers (rw_lk s) = 0 \<or> old = WDown"
  shows "rw_inv (rw_goto s i new dr dw)"
proof -
  let ?ps = "rw_pcs s" and ?qs = "(rw_pcs s)[i := new]"
  from at have i: "i < length ?ps" and old: "?ps ! i = old" by (auto simp: rw_at_def)
  have upd: "int (cnt P ?qs) = int (cnt P ?ps) - of_bool (P old) + of_bool (P new)" for P
    using cnt_update [OF i, of P new] old by simp
  note le = rw_cnt_le [of ?ps] rw_cnt_le [of ?qs]
  have pos: "P old \<Longrightarrow> 0 < cnt P ?ps" for P
    using cnt_pos_nth [OF i, of P] old by simp
  have r: "readers (rw_lk s) = int (cnt counts_reader ?ps)"
    and w: "writers (rw_lk s) = int (cnt counts_writer ?ps)"
    and one: "cnt first_writer ?ps \<le> 1"
    and ex_sh: "cnt has_exclusive ?ps = 0 \<or> cnt has_shared ?ps = 0"
    using inv by (auto simp: rw_inv_def)
  have 1: "cnt first_writer ?qs \<le> 1"
    using upd [of first_writer] first w one le
    by (cases "first_writer new"; cases "first_writer old") auto
  have 2: "cnt has_exclusive ?qs = 0 \<or> cnt has_shared ?qs = 0"
  proof (cases "has_exclusive new")
    case True
    then have ns: "\<not> has_shared new" by (auto simp: rw_classes)
    have "cnt has_shared ?ps = 0"
      using ex [OF True] ex_sh r le pos [of has_exclusive] by auto
    then show ?thesis using cnt_update_le [OF i, of has_shared new] ns by simp
  next
    case False
    show ?thesis
    proof (cases "has_shared new")
      case True
      have wd: "has_exclusive WDown" and ws: "has_shared old \<Longrightarrow> old \<noteq> WDown"
        by (auto simp: rw_classes)
      show ?thesis
      proof (cases "old = WDown")
        case True
        then show ?thesis using le one upd [of has_exclusive] False wd by auto
      next
        case ndown: False
        have "cnt has_exclusive ?ps = 0"
          using sh [OF True] ndown ex_sh pos [of has_shared] w le by auto
        then show ?thesis using cnt_update_le [OF i, of has_exclusive new] False by simp
      qed
    next
      assume "\<not> has_shared new"
      then show ?thesis
        using cnt_update_le [OF i] False ex_sh by (metis le_zero_eq)
    qed
  qed
  show ?thesis
    using 1 2 r w upd [of counts_reader] upd [of counts_writer] dr dw
    by (simp add: rw_inv_def rw_goto_def)
qed

lemma rw_step_inv: "rw_inv s \<Longrightarrow> rw_step s t \<Longrightarrow> rw_inv t"
  by (erule rw_step.cases) (auto intro!: rw_goto_inv simp: rw_classes)

interpretation rwl: inductive_invariant rw_init rw_step rw_inv
  by unfold_locales (auto intro: rw_init_inv rw_step_inv)


inductive_cases rw_stepE: "rw_step s t"

section \<open>The contract of the lock\<close>

text \<open>
  What a client of the lock relies on, stated over the number of shared and exclusive
  holders \<open>sh\<close> and \<open>ex\<close> of a lock state.
\<close>

locale shared_exclusive_lock =
  fixes try_shared :: "'l \<Rightarrow> bool \<times> 'l" and try_exclusive :: "'l \<Rightarrow> bool \<times> 'l"
    and drop_shared :: "'l \<Rightarrow> 'e + 'l" and drop_exclusive :: "'l \<Rightarrow> 'e + 'l"
    and downgrade :: "'l \<Rightarrow> 'e + 'l" and sh :: "'l \<Rightarrow> int" and ex :: "'l \<Rightarrow> int"
  assumes try_shared: "try_shared l = (b, l') \<Longrightarrow>
      (b \<longleftrightarrow> ex l = 0) \<and> sh l' = sh l + of_bool b \<and> ex l' = ex l"
    and try_exclusive: "try_exclusive l = (b, l') \<Longrightarrow>
      (b \<longleftrightarrow> sh l = 0 \<and> ex l = 0) \<and> sh l' = sh l \<and> ex l' = ex l + of_bool b"
    and drop_shared: "drop_shared l = Inr l' \<longleftrightarrow> 0 < sh l \<and> sh l' = sh l - 1 \<and> ex l' = ex l"
    and drop_exclusive:
      "drop_exclusive l = Inr l' \<longleftrightarrow> 0 < ex l \<and> sh l' = sh l \<and> ex l' = ex l - 1"
    and downgrade: "downgrade l = Inr l' \<longleftrightarrow> 0 < ex l \<and> sh l' = sh l + 1 \<and> ex l' = ex l - 1"
begin

text \<open>A lock is sound when nobody shares it while somebody owns it, and one client owns it.\<close>

definition lock_sound :: "'l \<Rightarrow> bool" where
  "lock_sound l \<longleftrightarrow> 0 \<le> sh l \<and> (ex l = 0 \<or> ex l = 1 \<and> sh l = 0)"

lemma sound_try_shared: "lock_sound l \<Longrightarrow> try_shared l = (b, l') \<Longrightarrow> lock_sound l'"
  using try_shared [of l b l'] by (auto simp: lock_sound_def)

lemma sound_try_exclusive: "lock_sound l \<Longrightarrow> try_exclusive l = (b, l') \<Longrightarrow> lock_sound l'"
  using try_exclusive [of l b l'] by (auto simp: lock_sound_def)

lemma sound_drop_shared: "lock_sound l \<Longrightarrow> drop_shared l = Inr l' \<Longrightarrow> lock_sound l'"
  by (auto simp: lock_sound_def drop_shared)

lemma sound_drop_exclusive: "lock_sound l \<Longrightarrow> drop_exclusive l = Inr l' \<Longrightarrow> lock_sound l'"
  by (auto simp: lock_sound_def drop_exclusive)

lemma sound_downgrade: "lock_sound l \<Longrightarrow> downgrade l = Inr l' \<Longrightarrow> lock_sound l'"
  by (auto simp: lock_sound_def downgrade)

lemma failed_try_shared: "try_shared l = (False, l') \<Longrightarrow> sh l' = sh l \<and> ex l' = ex l"
  using try_shared [of l False l'] by simp

lemma failed_try_exclusive: "try_exclusive l = (False, l') \<Longrightarrow> sh l' = sh l \<and> ex l' = ex l"
  using try_exclusive [of l False l'] by simp

end

lemmas rw_methods = lockShared_def lockExclusive_def unlockShared_def unlockExclusive_def
  switchExclusiveToShared_def

lemma rw_lock_eq_iff: "(l::rw_lock) = l' \<longleftrightarrow> readers l = readers l' \<and> writers l = writers l'"
  by (cases l; cases l') auto

lemma rw_lock_upds:
  "l\<lparr>readers := r\<rparr> = \<lparr>readers = r, writers = writers l\<rparr>"
  "l\<lparr>writers := w\<rparr> = \<lparr>readers = readers l, writers = w\<rparr>"
  "\<lparr>readers = readers l, writers = writers l\<rparr> = l"
  by (simp_all add: rw_lock_eq_iff)

lemma lockShared_eq:
  "lockShared l = (if writers l = 0 then (True, l\<lparr>readers := readers l + 1\<rparr>) else (False, l))"
  by (auto simp: lockShared_def Let_def)

lemma lockExclusive_eq:
  "lockExclusive l =
     (if readers l = 0 \<and> writers l = 0 then (True, \<lparr>readers = 0, writers = 1\<rparr>) else (False, l))"
  by (auto simp: lockExclusive_def Let_def rw_lock_eq_iff)

interpretation rw: shared_exclusive_lock
  lockShared lockExclusive unlockShared unlockExclusive switchExclusiveToShared readers writers
  by unfold_locales (auto simp: rw_methods Let_def rw_lock_eq_iff split: if_splits)

section \<open>Properties\<close>

lemma rw_inv_one_exclusive:
  assumes "rw_inv s" and "rw_at s i pc" and "rw_at s j pc'" and "i \<noteq> j"
    and "first_writer pc" and "first_writer pc'"
  shows False
  using assms cnt_two [of i "rw_pcs s" j first_writer] by (auto simp: rw_inv_def rw_at_def)

lemma rw_inv_no_mix:
  assumes "rw_inv s" and "rw_at s i pc" and "rw_at s j pc'"
    and "has_exclusive pc" and "has_shared pc'"
  shows False
  using assms cnt_pos_nth [of i "rw_pcs s" has_exclusive] cnt_pos_nth [of j "rw_pcs s" has_shared]
  by (auto simp: rw_inv_def rw_at_def)

lemma rw_inv_release:
  assumes "rw_inv s"
  shows "(\<forall>i. rw_at s i RHeld \<longrightarrow> unlockShared (rw_lk s) \<noteq> Inl Assertion) \<and>
    (\<forall>i. rw_at s i WHeld \<or> rw_at s i WDown \<longrightarrow> unlockExclusive (rw_lk s) \<noteq> Inl Assertion)"
  using assms cnt_pos_nth [of _ "rw_pcs s" counts_reader] cnt_pos_nth [of _ "rw_pcs s" counts_writer]
  by (fastforce simp: rw_inv_def rw_at_def rw_methods rw_classes)

lemma rw_goto_at: "rw_at s i pc \<Longrightarrow> rw_at (rw_goto s i pc' dr dw) i pc'"
  by (simp add: rw_at_def rw_goto_def)

lemma lockShared_run:
  assumes "rw_at s i Idle" and "lockShared (rw_lk s) = (b, l)"
  shows "rw_step\<^sup>*\<^sup>* s \<lparr>rw_lk = l, rw_pcs = (rw_pcs s)[i := if b then RHeld else Idle]\<rparr>"
proof -
  let ?s1 = "rw_goto s i RTest 1 0"
  have 1: "rw_step s ?s1" by (rule rw_step.shared_inc [OF assms(1)])
  have at: "rw_at ?s1 i RTest" by (rule rw_goto_at [OF assms(1)])
  show ?thesis
  proof (cases "writers (rw_lk s) = 0")
    case True
    then have "rw_step ?s1 (rw_goto ?s1 i RHeld 0 0)"
      by (intro rw_step.shared_ok [OF at]) (simp add: rw_goto_def)
    with 1 have "rw_step\<^sup>*\<^sup>* s (rw_goto ?s1 i RHeld 0 0)"
      by (meson converse_rtranclp_into_rtranclp r_into_rtranclp)
    with True assms(2) show ?thesis by (auto simp: rw_goto_def lockShared_def rw_lock_upds)
  next
    case False
    let ?s2 = "rw_goto ?s1 i RUndo 0 0"
    from False have 2: "rw_step ?s1 ?s2"
      by (intro rw_step.shared_busy [OF at]) (simp add: rw_goto_def)
    have "rw_step ?s2 (rw_goto ?s2 i Idle (-1) 0)"
      by (rule rw_step.shared_undo [OF rw_goto_at [OF at]])
    with 1 2 have "rw_step\<^sup>*\<^sup>* s (rw_goto ?s2 i Idle (-1) 0)"
      by (meson converse_rtranclp_into_rtranclp r_into_rtranclp)
    with False assms(2) show ?thesis
      by (auto simp: rw_goto_def lockShared_def rw_lock_upds)
  qed
qed

lemma lockExclusive_run:
  assumes "rw_at s i Idle" and "lockExclusive (rw_lk s) = (b, l)"
  shows "rw_step\<^sup>*\<^sup>* s \<lparr>rw_lk = l, rw_pcs = (rw_pcs s)[i := if b then WHeld else Idle]\<rparr>"
proof (cases "writers (rw_lk s) = 0")
  case True
  let ?s1 = "rw_goto s i WTest 0 1"
  have 1: "rw_step s ?s1" by (rule rw_step.excl_first [OF assms(1) True])
  have at: "rw_at ?s1 i WTest" by (rule rw_goto_at [OF assms(1)])
  show ?thesis
  proof (cases "readers (rw_lk s) = 0")
    case r: True
    then have "rw_step ?s1 (rw_goto ?s1 i WHeld 0 0)"
      by (intro rw_step.excl_ok [OF at]) (simp add: rw_goto_def)
    with 1 have "rw_step\<^sup>*\<^sup>* s (rw_goto ?s1 i WHeld 0 0)"
      by (meson converse_rtranclp_into_rtranclp r_into_rtranclp)
    with r True assms(2) show ?thesis
      by (auto simp: rw_goto_def lockExclusive_def rw_lock_upds)
  next
    case r: False
    let ?s2 = "rw_goto ?s1 i WUndo 0 0"
    from r have 2: "rw_step ?s1 ?s2"
      by (intro rw_step.excl_busy [OF at]) (simp add: rw_goto_def)
    have "rw_step ?s2 (rw_goto ?s2 i Idle 0 (-1))"
      by (rule rw_step.excl_undo [OF rw_goto_at [OF at]])
    with 1 2 have "rw_step\<^sup>*\<^sup>* s (rw_goto ?s2 i Idle 0 (-1))"
      by (meson converse_rtranclp_into_rtranclp r_into_rtranclp)
    with r True assms(2) show ?thesis by (auto simp: rw_goto_def lockExclusive_def rw_lock_upds)
  qed
next
  case False
  let ?s1 = "rw_goto s i WUndo 0 1"
  have 1: "rw_step s ?s1" by (rule rw_step.excl_later [OF assms(1) False])
  have "rw_step ?s1 (rw_goto ?s1 i Idle 0 (-1))"
    by (rule rw_step.excl_undo [OF rw_goto_at [OF assms(1)]])
  with 1 have "rw_step\<^sup>*\<^sup>* s (rw_goto ?s1 i Idle 0 (-1))"
    by (meson converse_rtranclp_into_rtranclp r_into_rtranclp)
  with False assms(2) show ?thesis by (auto simp: rw_goto_def lockExclusive_def rw_lock_upds)
qed

text \<open>
  C1. Mutual exclusion under every interleaving of the atomic operations: in every reachable
  state, while one client holds the lock exclusively no other client holds it, shared or
  exclusively, or is downgrading it.
\<close>

theorem rw_mutual_exclusion:
  assumes "reach rw_init rw_step s" and "rw_at s i WHeld" and "rw_at s j pc" and "i \<noteq> j"
  shows "pc \<notin> {RHeld, WHeld, WDown}"
proof -
  from assms(1) have inv: "rw_inv s" by (rule rwl.reach_inv)
  show ?thesis
    using rw_inv_one_exclusive [OF inv assms(2,3,4)] rw_inv_no_mix [OF inv assms(2,3)]
    by (auto simp: rw_classes)
qed

definition rw_example :: rw_sys where
  "rw_example = \<lparr>rw_lk = \<lparr>readers = 1, writers = 1\<rparr>, rw_pcs = [WHeld, RTest]\<rparr>"

lemma rw_example_reachable: "reach rw_init rw_step rw_example"
proof -
  let ?s0 = "\<lparr>rw_lk = rw_free, rw_pcs = [Idle, Idle]\<rparr>"
  let ?s1 = "rw_goto ?s0 0 WTest 0 1"
  let ?s2 = "rw_goto ?s1 0 WHeld 0 0"
  have "rw_init ?s0" by (auto simp: rw_init_def intro!: exI [of _ "Suc (Suc 0)"])
  then have 0: "reach rw_init rw_step ?s0" by (rule reach_init)
  have 1: "reach rw_init rw_step ?s1"
    by (rule reach_step [OF 0], rule rw_step.excl_first) (auto simp: rw_at_def rw_free_def)
  have 2: "reach rw_init rw_step ?s2"
    by (rule reach_step [OF 1], rule rw_step.excl_ok) (auto simp: rw_at_def rw_free_def rw_goto_def)
  have "reach rw_init rw_step (rw_goto ?s2 1 RTest 1 0)"
    by (rule reach_step [OF 2], rule rw_step.shared_inc) (auto simp: rw_at_def rw_goto_def)
  then show ?thesis by (simp add: rw_example_def rw_goto_def rw_free_def)
qed

theorem rw_mutual_exclusion_witness:
  "rw_at rw_example 0 WHeld \<and> rw_at rw_example 1 RTest \<and> RTest \<notin> {RHeld, WHeld, WDown}"
proof -
  have at: "rw_at rw_example 0 WHeld" "rw_at rw_example 1 RTest"
    by (simp_all add: rw_at_def rw_example_def)
  show ?thesis using at rw_mutual_exclusion [OF rw_example_reachable at] by simp
qed

text \<open>
  C2. The counters count the clients that use the lock, and the release assertions never fire: in every reachable state \<^verbatim>\<open>readers\<close> is the number of
  clients between its increment and its decrement, and so is \<^verbatim>\<open>writers\<close>, hence neither exceeds the number of clients; whoever is about to release a shared
  or an exclusive lock, also inside \<^verbatim>\<open>switchExclusiveToShared\<close>, finds the counter positive; and once every client is idle the lock is free again.
\<close>

theorem rw_counters_sound:
  assumes "reach rw_init rw_step s"
  shows "readers (rw_lk s) = int (cnt (\<lambda>pc. pc \<in> {RTest, RUndo, RHeld, WDown}) (rw_pcs s)) \<and> readers (rw_lk s) \<le> int (length (rw_pcs s)) \<and>
    writers (rw_lk s) = int (cnt (\<lambda>pc. pc \<in> {WTest, WUndo, WHeld, WDown}) (rw_pcs s)) \<and> writers (rw_lk s) \<le> int (length (rw_pcs s)) \<and>
    (\<forall>i. rw_at s i RHeld \<longrightarrow> unlockShared (rw_lk s) \<noteq> Inl Assertion) \<and>
    (\<forall>i. rw_at s i WHeld \<or> rw_at s i WDown \<longrightarrow> unlockExclusive (rw_lk s) \<noteq> Inl Assertion) \<and>
    ((\<forall>pc \<in> set (rw_pcs s). pc = Idle) \<longrightarrow> rw_lk s = rw_free)"
proof -
  from assms have inv: "rw_inv s" by (rule rwl.reach_inv)
  have eq: "counts_reader = (\<lambda>pc. pc \<in> {RTest, RUndo, RHeld, WDown})" "counts_writer = (\<lambda>pc. pc \<in> {WTest, WUndo, WHeld, WDown})"
    by (simp_all add: rw_classes fun_eq_iff)
  have count: "readers (rw_lk s) = int (cnt counts_reader (rw_pcs s))" "writers (rw_lk s) = int (cnt counts_writer (rw_pcs s))"
    using inv by (simp_all add: rw_inv_def)
  have "(\<forall>pc \<in> set (rw_pcs s). pc = Idle) \<Longrightarrow> cnt counts_reader (rw_pcs s) = 0 \<and> cnt counts_writer (rw_pcs s) = 0"
    by (auto simp: cnt_0_iff rw_classes)
  then have "(\<forall>pc \<in> set (rw_pcs s). pc = Idle) \<longrightarrow> rw_lk s = rw_free" using count by (simp add: rw_free_def rw_lock_eq_iff)
  then show ?thesis
    using count cnt_le_length [of counts_reader "rw_pcs s"] cnt_le_length [of counts_writer "rw_pcs s"] rw_inv_release [OF inv] unfolding eq by simp
qed

theorem rw_counters_sound_witness:
  "readers (rw_lk rw_example) = 1 \<and> writers (rw_lk rw_example) = 1 \<and> rw_at rw_example 0 WHeld \<and> unlockExclusive (rw_lk rw_example) \<noteq> Inl Assertion"
proof -
  have at: "rw_at rw_example 0 WHeld" and pcs: "rw_pcs rw_example = [WHeld, RTest]" by (simp_all add: rw_at_def rw_example_def)
  note sound = rw_counters_sound [OF rw_example_reachable]
  from sound have "unlockExclusive (rw_lk rw_example) \<noteq> Inl Assertion" using at by blast
  with sound at show ?thesis by (simp add: pcs)
qed

end
