(* ===== verification/Store_Entry.thy ===== *)
theory Store_Entry
  imports Squid_Prelude
begin

text \<open>
  The fields of a \<^verbatim>\<open>StoreEntry\<close> (src/Store.h) that the modelled components read: the cache
  key (16 bytes of MD5, read as two 64-bit words), the four times, the stored size, the
  reference count and the flags. \<^verbatim>\<open>time_t\<close> is a signed 64-bit integer and is modelled as
  \<^typ>\<open>int\<close>.
\<close>

type_synonym cache_key = "64 word \<times> 64 word"

record store_entry =
  se_key :: cache_key
  se_timestamp :: int
  se_lastref :: int
  se_expires :: int
  se_lastmod :: int
  se_swap_file_sz :: "64 word"
  se_refcount :: "16 word"
  se_flags :: "16 word"

end
