(* ===== verification/Ipc_StoreMap.thy ===== *)
theory Ipc_StoreMap
  imports Ipc_ReadWriteLock Store_Entry
begin

text \<open>
  \<^verbatim>\<open>Ipc::StoreMap\<close> (src/ipc/StoreMap.cc): the table of cache slots in shared memory, indexed
  by a hash of the key, each slot under its own \<^verbatim>\<open>ReadWriteLock\<close>.

  Each method is one function on the shared state: what a call computes while no other process
  accesses the slot; \<open>Ipc_StoreMap_Steps\<close> runs the same methods access by access, with other
  processes in between. A failed \<^verbatim>\<open>assert()\<close> is \<^term>\<open>Inl Assertion\<close>;
  a method that may refuse returns \<open>None\<close> or \<open>False\<close> with the state it leaves behind. Slot
  coordinates (\<^verbatim>\<open>sfileno\<close>) are integers and every method checks them with \<open>sm_valid\<close> where the
  code does. The \<^verbatim>\<open>cleaner\<close> callback is outside this component: the model records the slots
  it is called for in \<open>sm_cleaned\<close>.
\<close>

section \<open>Slots\<close>

datatype slot_state = Empty | Writeable | Readable

record slot_basics =
  b_timestamp :: int
  b_lastref :: int
  b_expires :: int
  b_lastmod :: int
  b_swap_file_sz :: "64 word"
  b_refcount :: "16 word"
  b_flags :: "16 word"

record slot =
  sl_lock :: rw_lock
  waitingToBeFreed :: bool
  sl_key :: cache_key
  basics :: slot_basics
  sl_state :: slot_state

definition StoreMapSlot :: slot where
  "StoreMapSlot =
     \<lparr>sl_lock = rw_free, waitingToBeFreed = False, sl_key = (0, 0),
      basics = \<lparr>b_timestamp = 0, b_lastref = 0, b_expires = 0, b_lastmod = 0,
                b_swap_file_sz = 0, b_refcount = 0, b_flags = 0\<rparr>,
      sl_state = Empty\<rparr>"

definition setKey :: "slot \<Rightarrow> cache_key \<Rightarrow> slot" where
  "setKey s aKey = s\<lparr>sl_key := aKey\<rparr>"

definition sameKey :: "slot \<Rightarrow> cache_key \<Rightarrow> bool" where
  "sameKey s aKey \<longleftrightarrow> fst aKey = fst (sl_key s) \<and> snd aKey = snd (sl_key s)"

definition slot_set :: "slot \<Rightarrow> store_entry \<Rightarrow> slot" where
  "slot_set s from =
     s\<lparr>sl_key := se_key from,
       basics := \<lparr>b_timestamp = se_timestamp from, b_lastref = se_lastref from,
                  b_expires = se_expires from, b_lastmod = se_lastmod from,
                  b_swap_file_sz = se_swap_file_sz from, b_refcount = se_refcount from,
                  b_flags = se_flags from\<rparr>\<rparr>"

section \<open>The map\<close>

record store_map =
  sm_limit :: int
  sm_count :: int
  sm_slots :: "slot list"
  sm_cleaner :: bool
  sm_cleaned :: "int list"

definition sm_Shared :: "int \<Rightarrow> bool \<Rightarrow> store_map" where
  "sm_Shared aLimit cleaner =
     \<lparr>sm_limit = aLimit, sm_count = 0, sm_slots = replicate (nat aLimit) StoreMapSlot,
      sm_cleaner = cleaner, sm_cleaned = []\<rparr>"

definition sm_Init :: "int \<Rightarrow> bool \<Rightarrow> store_map res" where
  "sm_Init limit cleaner = (if limit > 0 then Inr (sm_Shared limit cleaner) else Inl Assertion)"

definition sm_valid :: "store_map \<Rightarrow> int \<Rightarrow> bool" where
  "sm_valid m pos \<longleftrightarrow> 0 \<le> pos \<and> pos < sm_limit m"

definition sm_full :: "store_map \<Rightarrow> bool" where
  "sm_full m \<longleftrightarrow> sm_count m \<ge> sm_limit m"

definition slotIndexByKey :: "store_map \<Rightarrow> cache_key \<Rightarrow> int" where
  "slotIndexByKey m k = uint ((fst k + snd k) mod word_of_int (sm_limit m))"

definition sm_slot :: "store_map \<Rightarrow> int \<Rightarrow> slot" where
  "sm_slot m i = sm_slots m ! nat i"

definition sm_put :: "store_map \<Rightarrow> int \<Rightarrow> slot \<Rightarrow> store_map" where
  "sm_put m i s = m\<lparr>sm_slots := (sm_slots m)[nat i := s]\<rparr>"

definition freeLocked :: "store_map \<Rightarrow> int \<Rightarrow> bool \<Rightarrow> store_map res" where
  "freeLocked m i keepLocked =
     (let s = sm_slot m i;
          m1 = (if sl_state s = Readable \<and> sm_cleaner m
                then m\<lparr>sm_cleaned := sm_cleaned m @ [i]\<rparr> else m);
          s1 = s\<lparr>waitingToBeFreed := False, sl_state := Empty\<rparr>
      in case (if keepLocked then Inr (sl_lock s1) else unlockExclusive (sl_lock s1)) of
           Inl e \<Rightarrow> Inl e
         | Inr l \<Rightarrow> (let m2 = sm_put m1 i (s1\<lparr>sl_lock := l\<rparr>)
                     in Inr (m2\<lparr>sm_count := sm_count m2 - 1\<rparr>)))"

definition openForWriting :: "store_map \<Rightarrow> cache_key \<Rightarrow> (int option \<times> store_map) res" where
  "openForWriting m key =
     (let idx = slotIndexByKey m key; s = sm_slot m idx
      in case lockExclusive (sl_lock s) of
           (False, l) \<Rightarrow> Inr (None, sm_put m idx (s\<lparr>sl_lock := l\<rparr>))
         | (True, l) \<Rightarrow>
             (let m1 = sm_put m idx (s\<lparr>sl_lock := l\<rparr>)
              in if sl_state s = Writeable then Inl Assertion
                 else case (if waitingToBeFreed s \<or> sl_state s = Readable
                            then freeLocked m1 idx True else Inr m1) of
                        Inl e \<Rightarrow> Inl e
                      | Inr m2 \<Rightarrow>
                          if sl_state (sm_slot m2 idx) \<noteq> Empty then Inl Assertion
                          else (let m3 = m2\<lparr>sm_count := sm_count m2 + 1\<rparr>
                                in Inr (Some idx,
                                     sm_put m3 idx ((sm_slot m3 idx)\<lparr>sl_state := Writeable\<rparr>)))))"

definition closeForWriting :: "store_map \<Rightarrow> int \<Rightarrow> bool \<Rightarrow> store_map res" where
  "closeForWriting m fileno lockForReading =
     (if \<not> sm_valid m fileno then Inl Assertion
      else let s = sm_slot m fileno
      in if sl_state s \<noteq> Writeable then Inl Assertion
         else let s1 = s\<lparr>sl_state := Readable\<rparr>
         in case (if lockForReading then switchExclusiveToShared (sl_lock s1)
                  else unlockExclusive (sl_lock s1)) of
              Inl e \<Rightarrow> Inl e
            | Inr l \<Rightarrow> Inr (sm_put m fileno (s1\<lparr>sl_lock := l\<rparr>)))"

definition abortWriting :: "store_map \<Rightarrow> int \<Rightarrow> store_map res" where
  "abortWriting m fileno =
     (if \<not> sm_valid m fileno then Inl Assertion
      else if sl_state (sm_slot m fileno) \<noteq> Writeable then Inl Assertion
      else freeLocked m fileno False)"

definition closeForReading :: "store_map \<Rightarrow> int \<Rightarrow> store_map res" where
  "closeForReading m fileno =
     (if \<not> sm_valid m fileno then Inl Assertion
      else let s = sm_slot m fileno
      in if sl_state s \<noteq> Readable then Inl Assertion
         else case unlockShared (sl_lock s) of
                Inl e \<Rightarrow> Inl e
              | Inr l \<Rightarrow> Inr (sm_put m fileno (s\<lparr>sl_lock := l\<rparr>)))"

definition abortIo :: "store_map \<Rightarrow> int \<Rightarrow> store_map res" where
  "abortIo m fileno =
     (if \<not> sm_valid m fileno then Inl Assertion
      else if sl_state (sm_slot m fileno) = Writeable then abortWriting m fileno
      else closeForReading m fileno)"

definition peekAtReader :: "store_map \<Rightarrow> int \<Rightarrow> slot option res" where
  "peekAtReader m fileno =
     (if \<not> sm_valid m fileno then Inl Assertion
      else let s = sm_slot m fileno
      in case sl_state s of
           Readable \<Rightarrow> Inr (Some s)
         | Writeable \<Rightarrow> Inr None
         | Empty \<Rightarrow> Inl Assertion)"

definition sm_free :: "store_map \<Rightarrow> int \<Rightarrow> store_map res" where
  "sm_free m fileno =
     (if \<not> sm_valid m fileno then Inl Assertion
      else let s = sm_slot m fileno
      in case lockExclusive (sl_lock s) of
           (True, l) \<Rightarrow> freeLocked (sm_put m fileno (s\<lparr>sl_lock := l\<rparr>)) fileno False
         | (False, l) \<Rightarrow>
             Inr (sm_put m fileno (s\<lparr>sl_lock := l, waitingToBeFreed := True\<rparr>)))"

definition openForReadingAt :: "store_map \<Rightarrow> int \<Rightarrow> (slot option \<times> store_map) res" where
  "openForReadingAt m fileno =
     (if \<not> sm_valid m fileno then Inl Assertion
      else let s = sm_slot m fileno
      in case lockShared (sl_lock s) of
           (False, l) \<Rightarrow> Inr (None, sm_put m fileno (s\<lparr>sl_lock := l\<rparr>))
         | (True, l) \<Rightarrow>
             if sl_state s = Empty \<or> waitingToBeFreed s then
               (case unlockShared l of
                  Inl e \<Rightarrow> Inl e
                | Inr l' \<Rightarrow> Inr (None, sm_put m fileno (s\<lparr>sl_lock := l'\<rparr>)))
             else if sl_state s \<noteq> Readable then Inl Assertion
             else let s1 = s\<lparr>sl_lock := l\<rparr> in Inr (Some s1, sm_put m fileno s1))"

definition openForReading :: "store_map \<Rightarrow> cache_key \<Rightarrow> (int option \<times> store_map) res" where
  "openForReading m key =
     (let idx = slotIndexByKey m key
      in case openForReadingAt m idx of
           Inl e \<Rightarrow> Inl e
         | Inr (None, m1) \<Rightarrow> Inr (None, m1)
         | Inr (Some s, m1) \<Rightarrow>
             if sameKey s key then Inr (Some idx, m1)
             else (case unlockShared (sl_lock s) of
                     Inl e \<Rightarrow> Inl e
                   | Inr l \<Rightarrow> Inr (None, sm_put m1 idx (s\<lparr>sl_lock := l\<rparr>))))"

definition sm_updateStats :: "store_map \<Rightarrow> rw_stats \<Rightarrow> rw_stats" where
  "sm_updateStats m stats = fold (\<lambda>s. rw_updateStats (sl_lock s)) (sm_slots m) stats"


section \<open>Sequences of operations\<close>

text \<open>
  Calls on one map that do not overlap, one after the other. \<open>SlotSet\<close> is a writer filling the slot it opened with \<^verbatim>\<open>slot->set(entry)\<close>. A
  refused call leaves the map to the next operation.
\<close>

datatype sm_op =
    OpenForWriting cache_key
  | SlotSet int store_entry
  | CloseForWriting int bool
  | AbortIo int
  | Free int
  | OpenForReading cache_key
  | OpenForReadingAt int
  | CloseForReading int

fun sm_apply :: "store_map \<Rightarrow> sm_op \<Rightarrow> store_map res" where
  "sm_apply m (OpenForWriting key) = map_sum id snd (openForWriting m key)"
| "sm_apply m (SlotSet i e) =
     (if sm_valid m i then Inr (sm_put m i (slot_set (sm_slot m i) e)) else Inl Assertion)"
| "sm_apply m (CloseForWriting i b) = closeForWriting m i b"
| "sm_apply m (AbortIo i) = abortIo m i"
| "sm_apply m (Free i) = sm_free m i"
| "sm_apply m (OpenForReading key) = map_sum id snd (openForReading m key)"
| "sm_apply m (OpenForReadingAt i) = map_sum id snd (openForReadingAt m i)"
| "sm_apply m (CloseForReading i) = closeForReading m i"

fun sm_run :: "store_map \<Rightarrow> sm_op list \<Rightarrow> store_map res" where
  "sm_run m [] = Inr m"
| "sm_run m (op # ops) = (case sm_apply m op of Inl e \<Rightarrow> Inl e | Inr m' \<Rightarrow> sm_run m' ops)"

text \<open>The operation frees a slot that holds nothing.\<close>

fun frees_empty :: "store_map \<Rightarrow> sm_op \<Rightarrow> bool" where
  "frees_empty m (Free i) = (sl_state (sm_slot m i) = Empty)"
| "frees_empty m _ = False"

definition sm_start :: "store_map \<Rightarrow> bool" where
  "sm_start m \<longleftrightarrow> (\<exists>limit cl. limit < 2 ^ 31 \<and> sm_Init limit cl = Inr m)"

section \<open>Invariant\<close>

text \<open>
  A slot is well formed when its lock is sound, it is being written exactly while it is locked
  exclusively, it is locked for reading only while it is readable, and only a used slot waits
  to be freed.
\<close>

definition slot_inv :: "slot \<Rightarrow> bool" where
  "slot_inv s \<longleftrightarrow>
     rw.lock_sound (sl_lock s) \<and>
     (writers (sl_lock s) = 1 \<longleftrightarrow> sl_state s = Writeable) \<and>
     (readers (sl_lock s) > 0 \<longrightarrow> sl_state s = Readable) \<and>
     (waitingToBeFreed s \<longrightarrow> sl_state s \<noteq> Empty)"

definition sm_inv :: "store_map \<Rightarrow> bool" where
  "sm_inv m \<longleftrightarrow> 0 < sm_limit m \<and> sm_limit m < 2 ^ 31 \<and>
     length (sm_slots m) = nat (sm_limit m) \<and> (\<forall>s \<in> set (sm_slots m). slot_inv s)"

definition slot_used :: "slot \<Rightarrow> bool" where
  "slot_used s \<longleftrightarrow> sl_state s \<noteq> Empty"

definition sm_counted :: "store_map \<Rightarrow> bool" where
  "sm_counted m \<longleftrightarrow> sm_count m = int (cnt slot_used (sm_slots m))"

lemma slotIndexByKey_valid:
  assumes "sm_inv m"
  shows "sm_valid m (slotIndexByKey m k)"
proof -
  let ?n = "word_of_int (sm_limit m) :: 64 word"
  have "uint ?n = sm_limit m"
    using assms by (simp add: sm_inv_def uint_word_of_int)
  moreover have "uint ((fst k + snd k) mod ?n) = uint (fst k + snd k) mod uint ?n"
    by (rule uint_mod_distrib)
  ultimately show ?thesis
    using assms by (simp add: sm_valid_def slotIndexByKey_def sm_inv_def)
qed

lemma sm_valid_index: "sm_inv m \<Longrightarrow> sm_valid m i \<Longrightarrow> nat i < length (sm_slots m)"
  by (auto simp: sm_inv_def sm_valid_def)

lemma sm_slot_inv: "sm_inv m \<Longrightarrow> sm_valid m i \<Longrightarrow> slot_inv (sm_slot m i)"
  using sm_valid_index [of m i] by (auto simp: sm_inv_def sm_slot_def)

lemma sm_put_simps [simp]:
  "sm_limit (sm_put m i s) = sm_limit m" "sm_count (sm_put m i s) = sm_count m"
  "sm_cleaner (sm_put m i s) = sm_cleaner m" "sm_cleaned (sm_put m i s) = sm_cleaned m"
  "sm_valid (sm_put m i s) j = sm_valid m j" "slotIndexByKey (sm_put m i s) k = slotIndexByKey m k"
  "sm_put (sm_put m i s) i s' = sm_put m i s'"
  by (simp_all add: sm_put_def sm_valid_def slotIndexByKey_def)

lemma sm_count_simps [simp]:
  "sm_slot (m\<lparr>sm_count := c\<rparr>) i = sm_slot m i" "sm_slot (m\<lparr>sm_cleaned := cs\<rparr>) i = sm_slot m i"
  "sm_valid (m\<lparr>sm_count := c\<rparr>) i = sm_valid m i" "sm_valid (m\<lparr>sm_cleaned := cs\<rparr>) i = sm_valid m i"
  "sm_put (m\<lparr>sm_count := c\<rparr>) i s = (sm_put m i s)\<lparr>sm_count := c\<rparr>"
  "sm_put (m\<lparr>sm_cleaned := cs\<rparr>) i s = (sm_put m i s)\<lparr>sm_cleaned := cs\<rparr>"
  "sm_inv (m\<lparr>sm_count := c\<rparr>) = sm_inv m" "sm_inv (m\<lparr>sm_cleaned := cs\<rparr>) = sm_inv m"
  "slotIndexByKey (m\<lparr>sm_count := c\<rparr>) k = slotIndexByKey m k"
  "slotIndexByKey (m\<lparr>sm_cleaned := cs\<rparr>) k = slotIndexByKey m k"
  by (simp_all add: sm_slot_def sm_valid_def sm_put_def sm_inv_def slotIndexByKey_def)

lemma sm_slot_put [simp]: "sm_inv m \<Longrightarrow> sm_valid m i \<Longrightarrow> sm_slot (sm_put m i s) i = s"
  using sm_valid_index [of m i] by (simp add: sm_slot_def sm_put_def)

lemma sm_slot_put_other: "nat i \<noteq> nat j \<Longrightarrow> sm_slot (sm_put m i s) j = sm_slot m j"
  by (simp add: sm_slot_def sm_put_def)

lemma sm_put_inv: "sm_inv m \<Longrightarrow> slot_inv s \<Longrightarrow> sm_inv (sm_put m i s)"
  by (auto simp: sm_inv_def sm_put_def dest!: set_update_subset_insert [THEN subsetD])

lemma sm_put_used:
  assumes "sm_inv m" and "sm_valid m i"
  shows "int (cnt slot_used (sm_slots (sm_put m i s))) =
    int (cnt slot_used (sm_slots m)) - of_bool (slot_used (sm_slot m i)) + of_bool (slot_used s)"
  using cnt_update [OF sm_valid_index [OF assms]] by (simp add: sm_put_def sm_slot_def)

section \<open>What each method does\<close>

text \<open>
  From a well-formed map every method has one of a few outcomes. The following lemmas list
  them; the properties below are read off these lists.
\<close>

lemmas sm_ops = freeLocked_def openForWriting_def closeForWriting_def abortWriting_def
  closeForReading_def abortIo_def sm_free_def openForReadingAt_def openForReading_def

lemma slot_not_waiting:
  "\<not> waitingToBeFreed s \<Longrightarrow>
   s\<lparr>sl_lock := l, waitingToBeFreed := False, sl_state := x\<rparr> = s\<lparr>sl_lock := l, sl_state := x\<rparr>"
  by (cases s) simp

lemma openForWriting_cases:
  fixes m :: store_map and key :: cache_key
  assumes inv: "sm_inv m"
  defines "i \<equiv> slotIndexByKey m key"
  defines "s \<equiv> sm_slot m i"
  shows "openForWriting m key =
    (if readers (sl_lock s) = 0 \<and> writers (sl_lock s) = 0
     then Inr (Some i,
      (sm_put m i (s\<lparr>sl_lock := \<lparr>readers = 0, writers = 1\<rparr>, waitingToBeFreed := False,
                      sl_state := Writeable\<rparr>))
        \<lparr>sm_count := sm_count m + of_bool (sl_state s = Empty),
         sm_cleaned := sm_cleaned m @ (if sl_state s = Readable \<and> sm_cleaner m then [i] else [])\<rparr>)
     else Inr (None, m))"
proof -
  have v: "sm_valid m i" unfolding i_def by (rule slotIndexByKey_valid [OF inv])
  have si: "slot_inv s" unfolding s_def by (rule sm_slot_inv [OF inv v])
  have keep: "sm_put m i s = m"
    using sm_valid_index [OF inv v] by (simp add: sm_put_def s_def sm_slot_def)
  show ?thesis
    using si v inv keep unfolding openForWriting_def i_def [symmetric] s_def [symmetric] Let_def
    by (cases "sl_state s")
      (auto simp: lockExclusive_eq freeLocked_def slot_inv_def slot_not_waiting
        intro!: store_map.equality)
qed


lemma sm_put_same: "sm_inv m \<Longrightarrow> sm_valid m i \<Longrightarrow> sm_put m i (sm_slot m i) = m"
  using sm_valid_index [of m i] by (simp add: sm_put_def sm_slot_def)

lemma closeForWriting_cases:
  assumes "sm_inv m" and "sm_valid m i"
  shows "closeForWriting m i b =
    (if sl_state (sm_slot m i) = Writeable
     then Inr (sm_put m i ((sm_slot m i)\<lparr>sl_state := Readable,
            sl_lock := \<lparr>readers = of_bool b, writers = 0\<rparr>\<rparr>))
     else Inl Assertion)"
  using assms sm_slot_inv [OF assms]
  by (auto simp: closeForWriting_def switchExclusiveToShared_def unlockExclusive_def Let_def
      slot_inv_def rw.lock_sound_def rw_lock_upds)

lemma closeForReading_cases:
  assumes "sm_inv m" and "sm_valid m i"
  shows "closeForReading m i =
    (if sl_state (sm_slot m i) = Readable \<and> readers (sl_lock (sm_slot m i)) > 0
     then Inr (sm_put m i ((sm_slot m i)\<lparr>sl_lock :=
            (sl_lock (sm_slot m i))\<lparr>readers := readers (sl_lock (sm_slot m i)) - 1\<rparr>\<rparr>))
     else Inl Assertion)"
  using assms by (auto simp: closeForReading_def unlockShared_def Let_def)

lemma freeLocked_release:
  assumes "sm_inv m" and "sm_valid m i" and "writers (sl_lock (sm_slot m i)) > 0"
  shows "freeLocked m i False =
    Inr ((sm_put m i ((sm_slot m i)\<lparr>waitingToBeFreed := False, sl_state := Empty,
            sl_lock := (sl_lock (sm_slot m i))\<lparr>writers := writers (sl_lock (sm_slot m i)) - 1\<rparr>\<rparr>))
         \<lparr>sm_count := sm_count m - 1,
          sm_cleaned := sm_cleaned m @
            (if sl_state (sm_slot m i) = Readable \<and> sm_cleaner m then [i] else [])\<rparr>)"
  using assms by (auto simp: freeLocked_def unlockExclusive_def Let_def intro!: store_map.equality)

lemma abortIo_cases:
  assumes "sm_inv m" and "sm_valid m i"
  shows "abortIo m i =
    (if sl_state (sm_slot m i) = Writeable
     then Inr ((sm_put m i ((sm_slot m i)\<lparr>waitingToBeFreed := False, sl_state := Empty,
            sl_lock := rw_free\<rparr>))\<lparr>sm_count := sm_count m - 1\<rparr>)
     else closeForReading m i)"
  using assms sm_slot_inv [OF assms] freeLocked_release [OF assms]
  by (auto simp: abortIo_def abortWriting_def slot_inv_def rw.lock_sound_def rw_lock_upds rw_free_def
      intro!: store_map.equality)

lemma sm_free_cases:
  assumes "sm_inv m" and "sm_valid m i"
  shows "sm_free m i =
    (if readers (sl_lock (sm_slot m i)) = 0 \<and> writers (sl_lock (sm_slot m i)) = 0
     then Inr ((sm_put m i ((sm_slot m i)\<lparr>waitingToBeFreed := False, sl_state := Empty,
            sl_lock := \<lparr>readers = 0, writers = 0\<rparr>\<rparr>))
         \<lparr>sm_count := sm_count m - 1,
          sm_cleaned := sm_cleaned m @
            (if sl_state (sm_slot m i) = Readable \<and> sm_cleaner m then [i] else [])\<rparr>)
     else Inr (sm_put m i ((sm_slot m i)\<lparr>waitingToBeFreed := True\<rparr>)))"
  using assms
  by (auto simp: sm_free_def lockExclusive_eq freeLocked_def unlockExclusive_def Let_def
      intro!: store_map.equality)

lemma openForReadingAt_cases:
  assumes "sm_inv m" and "sm_valid m i"
  defines "s \<equiv> sm_slot m i"
  defines "s' \<equiv> s\<lparr>sl_lock := (sl_lock s)\<lparr>readers := readers (sl_lock s) + 1\<rparr>\<rparr>"
  shows "openForReadingAt m i =
    (if sl_state s = Readable \<and> \<not> waitingToBeFreed s
     then Inr (Some s', sm_put m i s') else Inr (None, m))"
  using assms sm_slot_inv [OF assms(1,2)] sm_put_same [OF assms(1,2)]
  by (cases "sl_state s")
    (auto simp: openForReadingAt_def lockShared_eq unlockShared_def Let_def slot_inv_def
      rw.lock_sound_def)

lemma openForReading_cases:
  fixes m :: store_map and key :: cache_key
  assumes "sm_inv m"
  defines "i \<equiv> slotIndexByKey m key"
  defines "s \<equiv> sm_slot m i"
  shows "openForReading m key =
    (if sl_state s = Readable \<and> \<not> waitingToBeFreed s \<and> sl_key s = key
     then Inr (Some i, sm_put m i (s\<lparr>sl_lock := (sl_lock s)\<lparr>readers := readers (sl_lock s) + 1\<rparr>\<rparr>))
     else Inr (None, m))"
proof -
  have v: "sm_valid m i" unfolding i_def by (rule slotIndexByKey_valid [OF assms(1)])
  note at = openForReadingAt_cases [OF assms(1) v, folded s_def]
  have si: "slot_inv s" unfolding s_def by (rule sm_slot_inv [OF assms(1) v])
  have keep: "sm_put m i s = m" unfolding s_def by (rule sm_put_same [OF assms(1) v])
  have "sameKey s key \<longleftrightarrow> sl_key s = key" by (auto simp: sameKey_def prod_eq_iff)
  then show ?thesis
    using si keep
    by (auto simp: openForReading_def i_def [symmetric] at Let_def sameKey_def unlockShared_def
        slot_inv_def rw.lock_sound_def)
qed


section \<open>Every operation keeps the invariant\<close>

lemma slot_inv_simps [simp]:
  "slot_inv (s\<lparr>sl_lock := \<lparr>readers = 0, writers = 1\<rparr>, waitingToBeFreed := w, sl_state := Writeable\<rparr>)"
  "slot_inv (s\<lparr>waitingToBeFreed := False, sl_state := Empty, sl_lock := \<lparr>readers = 0, writers = 0\<rparr>\<rparr>)"
  "slot_inv (s\<lparr>sl_state := Readable, sl_lock := \<lparr>readers = of_bool b, writers = 0\<rparr>\<rparr>)"
  "slot_inv (slot_set s e) = slot_inv s"
  by (auto simp: slot_inv_def rw.lock_sound_def slot_set_def)

lemma slot_inv_readers:
  "slot_inv s \<Longrightarrow> sl_state s = Readable \<Longrightarrow> 0 \<le> r \<Longrightarrow>
   slot_inv (s\<lparr>sl_lock := (sl_lock s)\<lparr>readers := r\<rparr>\<rparr>)"
  by (auto simp: slot_inv_def rw.lock_sound_def)

lemma slot_inv_waiting:
  "slot_inv s \<Longrightarrow> sl_state s \<noteq> Empty \<Longrightarrow> slot_inv (s\<lparr>waitingToBeFreed := True\<rparr>)"
  by (auto simp: slot_inv_def)

lemma slot_inv_empty_idle:
  "slot_inv s \<Longrightarrow> sl_state s = Empty \<Longrightarrow> readers (sl_lock s) = 0 \<and> writers (sl_lock s) = 0"
  by (auto simp: slot_inv_def rw.lock_sound_def)

lemma slot_inv_readable:
  "slot_inv s \<Longrightarrow> sl_state s = Readable \<Longrightarrow> 0 \<le> readers (sl_lock s)"
  by (auto simp: slot_inv_def rw.lock_sound_def)

text \<open>An operation on an invalid coordinate fails its first assertion.\<close>

lemma sm_invalid:
  "\<not> sm_valid m i \<Longrightarrow> closeForWriting m i b = Inl Assertion \<and> abortIo m i = Inl Assertion \<and>
    sm_free m i = Inl Assertion \<and> openForReadingAt m i = Inl Assertion \<and>
    closeForReading m i = Inl Assertion"
  by (simp add: closeForWriting_def abortIo_def sm_free_def openForReadingAt_def closeForReading_def)

lemma slot_used_simps [simp]:
  "slot_used (slot_set s e) = slot_used s"
  "slot_used (s\<lparr>sl_lock := l\<rparr>) = slot_used s" "slot_used (s\<lparr>waitingToBeFreed := w\<rparr>) = slot_used s"
  "slot_used (s\<lparr>sl_state := x\<rparr>) = (x \<noteq> Empty)"
  by (simp_all add: slot_used_def slot_set_def)

lemma sm_counted_put:
  assumes "sm_inv m" and "sm_counted m" and "sm_valid m i"
    and "c = sm_count m - of_bool (slot_used (sm_slot m i)) + of_bool (slot_used s)"
  shows "sm_counted ((sm_put m i s)\<lparr>sm_count := c\<rparr>)"
  using assms sm_put_used [OF assms(1,3)] by (simp add: sm_counted_def)

lemma sm_counted_cleaned [simp]:
  "sm_counted (m\<lparr>sm_count := c, sm_cleaned := cs\<rparr>) = sm_counted (m\<lparr>sm_count := c\<rparr>)"
  by (simp add: sm_counted_def)

lemma sm_counted_put_same:
  assumes "sm_inv m" and "sm_counted m" and "sm_valid m i"
    and "slot_used s = slot_used (sm_slot m i)"
  shows "sm_counted (sm_put m i s)"
  using sm_counted_put [OF assms(1-3), of "sm_count m" s] assms(4) by (simp add: sm_counted_def)

lemma sm_apply_inv:
  assumes inv: "sm_inv m" and step: "sm_apply m op = Inr m'"
  shows "sm_inv m' \<and> (sm_counted m \<longrightarrow> \<not> frees_empty m op \<longrightarrow> sm_counted m')"
proof -
  note v = slotIndexByKey_valid [OF inv]
  note put = sm_put_inv [OF inv]
  have slots: "sm_valid m i \<Longrightarrow> slot_inv (sm_slot m i)" for i by (rule sm_slot_inv [OF inv])
  note facts = put slots sm_counted_put [OF inv] sm_counted_put_same [OF inv]
  show ?thesis
  proof (cases op)
    case (OpenForWriting key)
    then show ?thesis
      using step inv facts(1) v [of key]
      by (auto simp: openForWriting_cases [OF inv] slot_used_def split: if_splits
          intro!: sm_counted_put [OF inv])
  next
    case (SlotSet i e)
    then show ?thesis
      using step inv facts by (auto split: if_splits)
  next
    case (CloseForWriting i b)
    then show ?thesis
      using step inv facts sm_invalid [of m i b]
      by (cases "sm_valid m i")
        (auto simp: closeForWriting_cases [OF inv] slot_used_def split: if_splits)
  next
    case (AbortIo i)
    then show ?thesis
      using step inv facts sm_invalid [of m i]
      by (cases "sm_valid m i")
        (auto simp: abortIo_cases [OF inv] closeForReading_cases [OF inv] slot_used_def rw_free_def
          intro!: slot_inv_readers put sm_counted_put [OF inv] split: if_splits)
  next
    case (Free i)
    then show ?thesis
      using step inv facts sm_invalid [of m i] slot_inv_empty_idle [of "sm_slot m i"]
      by (cases "sm_valid m i")
        (auto simp: sm_free_cases [OF inv] slot_used_def intro!: put slot_inv_waiting sm_counted_put [OF inv]
          split: if_splits)
  next
    case (OpenForReading key)
    then show ?thesis
      using step inv facts v [of key] slots [OF v [of key]] slot_inv_readable [OF slots [OF v [of key]]]
      by (auto simp: openForReading_cases [OF inv] intro!: put slot_inv_readers split: if_splits)
  next
    case (OpenForReadingAt i)
    then show ?thesis
      using step inv facts sm_invalid [of m i] slot_inv_readable [of "sm_slot m i"]
      by (cases "sm_valid m i")
        (auto simp: openForReadingAt_cases [OF inv] intro!: put slot_inv_readers split: if_splits)
  next
    case (CloseForReading i)
    then show ?thesis
      using step inv facts sm_invalid [of m i]
      by (cases "sm_valid m i")
        (auto simp: closeForReading_cases [OF inv] intro!: put slot_inv_readers split: if_splits)
  qed
qed

lemma sm_start_inv: "sm_start m \<Longrightarrow> sm_inv m \<and> sm_counted m"
  by (auto simp: sm_start_def sm_Init_def sm_Shared_def sm_inv_def sm_counted_def StoreMapSlot_def
      slot_inv_def slot_used_def rw_free_def rw.lock_sound_def split: if_splits)

section \<open>Properties\<close>

lemma sm_Shared_start: "sm_start (sm_Shared 4 True)"
  by (auto simp: sm_start_def sm_Init_def intro!: exI [of _ "4::int"] exI [of _ True])

text \<open>
  C5. What a writer stores is what a reader finds: after \<^verbatim>\<open>openForWriting\<close>, filling the slot
  with an entry and \<^verbatim>\<open>closeForWriting\<close>, opening the entry's key for reading succeeds at the
  same slot and shows the entry's key and basics, and any other key is refused there.
\<close>

theorem storemap_write_read:
  assumes inv: "sm_inv m" and w: "openForWriting m (se_key e) = Inr (Some i, m1)"
    and c: "closeForWriting (sm_put m1 i (slot_set (sm_slot m1 i) e)) i b = Inr m2"
  shows "\<exists>m3. openForReading m2 (se_key e) = Inr (Some i, m3) \<and>
      sl_key (sm_slot m3 i) = se_key e \<and>
      basics (sm_slot m3 i) = basics (slot_set StoreMapSlot e) \<and>
      (\<forall>k. k \<noteq> se_key e \<longrightarrow> slotIndexByKey m2 k = i \<longrightarrow> openForReading m2 k = Inr (None, m2))"
proof -
  have i: "i = slotIndexByKey m (se_key e)"
    using w by (auto simp: openForWriting_cases [OF inv] split: if_splits)
  have v: "sm_valid m i" unfolding i by (rule slotIndexByKey_valid [OF inv])
  have "sm_apply m (OpenForWriting (se_key e)) = Inr m1" using w by simp
  then have inv1: "sm_inv m1" using sm_apply_inv [OF inv] by blast
  have v1: "sm_valid m1 i" and k1: "slotIndexByKey m1 = slotIndexByKey m"
    and s1: "sm_slot m1 i = (sm_slot m i)\<lparr>sl_lock := \<lparr>readers = 0, writers = 1\<rparr>,
      waitingToBeFreed := False, sl_state := Writeable\<rparr>"
    using w v inv by (auto simp: openForWriting_cases [OF inv] fun_eq_iff split: if_splits)
  let ?m1 = "sm_put m1 i (slot_set (sm_slot m1 i) e)"
  have inv1': "sm_inv ?m1" and v1': "sm_valid ?m1 i"
    using inv1 v1 by (simp_all add: sm_put_inv sm_slot_inv)
  have m2: "m2 = sm_put m1 i ((slot_set (sm_slot m1 i) e)\<lparr>sl_state := Readable,
      sl_lock := \<lparr>readers = of_bool b, writers = 0\<rparr>\<rparr>)"
    using c inv1 v1 by (auto simp: closeForWriting_cases [OF inv1' v1'] split: if_splits)
  have "sm_apply ?m1 (CloseForWriting i b) = Inr m2" using c by simp
  then have inv2: "sm_inv m2" using sm_apply_inv [OF inv1'] by blast
  have v2: "sm_valid m2 i" and k2: "slotIndexByKey m2 = slotIndexByKey m"
    and s2: "sl_state (sm_slot m2 i) = Readable" "\<not> waitingToBeFreed (sm_slot m2 i)"
      "sl_key (sm_slot m2 i) = se_key e"
      "basics (sm_slot m2 i) = basics (slot_set StoreMapSlot e)"
    using inv1 v1 k1 s1 by (simp_all add: m2 slot_set_def fun_eq_iff)
  then show ?thesis
    using i inv2 by (auto simp: openForReading_cases [OF inv2])
qed

definition sm_entry :: store_entry where
  "sm_entry = \<lparr>se_key = (5, 2), se_timestamp = 1000, se_lastref = 1000, se_expires = 2000,
     se_lastmod = 500, se_swap_file_sz = 4096, se_refcount = 1, se_flags = 3\<rparr>"

definition sm_opened :: store_map where
  "sm_opened = snd (projr (openForWriting (sm_Shared 4 True) (5, 2)))"

definition sm_closed :: store_map where
  "sm_closed = projr (closeForWriting (sm_put sm_opened 3 (slot_set (sm_slot sm_opened 3) sm_entry)) 3 False)"

theorem storemap_write_read_witness:
  "\<exists>m3. openForReading sm_closed (5, 2) = Inr (Some 3, m3) \<and>
     b_expires (basics (sm_slot m3 3)) = 2000"
proof -
  have inv: "sm_inv (sm_Shared 4 True)" using sm_start_inv [OF sm_Shared_start] by blast
  have k: "se_key sm_entry = (5, 2)" by (simp add: sm_entry_def)
  have 1: "openForWriting (sm_Shared 4 True) (5, 2) = Inr (Some 3, sm_opened)" by code_simp
  have 2: "closeForWriting (sm_put sm_opened 3 (slot_set (sm_slot sm_opened 3) sm_entry)) 3 False =
      Inr sm_closed" by code_simp
  from storemap_write_read [of "sm_Shared 4 True" sm_entry, unfolded k, OF inv 1 2] show ?thesis
    by (auto simp: slot_set_def sm_entry_def)
qed

text \<open>
  The count goes wrong when an empty slot is freed. \<^verbatim>\<open>MemStore::get\<close> releases its read lock before
  it calls \<^verbatim>\<open>free()\<close> on an entry it could not load. When two workers do so for the same
  entry, the second \<^verbatim>\<open>free()\<close> finds the slot empty, locks it and decrements the count again:
  the map then holds nothing and reports a count of -1.
\<close>

theorem storemap_double_free_undercounts:
  "case sm_run (sm_Shared 4 False)
      [OpenForWriting (5, 2), SlotSet 3 sm_entry, CloseForWriting 3 False,
       OpenForReading (5, 2), OpenForReading (5, 2), CloseForReading 3, CloseForReading 3,
       Free 3, Free 3] of
     Inl e \<Rightarrow> False
   | Inr m \<Rightarrow> cnt slot_used (sm_slots m) = 0 \<and> sm_count m = -1"
  by code_simp

end
