(* ===== verification/Ipc_StoreMap_Steps.thy ===== *)
theory Ipc_StoreMap_Steps
  imports Ipc_StoreMap
begin

text \<open>
  The cache index of \<open>Ipc_StoreMap\<close> used by several processes at once. A client is one use of a slot by a process (a process that uses several slots,
  or frees a slot it holds, is several clients); between two accesses to shared memory it stands at a position of the code of its method. \<open>sc_act\<close>
  does the next access: an atomic operation on the lock, on \<^verbatim>\<open>waitingToBeFreed\<close> or on \<^verbatim>\<open>count\<close>, or a read or write of \<^verbatim>\<open>state\<close>; the clients
  interleave between any two of them. The content of a slot is only accessed by those who hold its lock, in one step.
\<close>

section \<open>Positions\<close>

text \<open>What the exclusive lock is wanted for.\<close>

datatype sc_goal = Opening | Freeing

datatype sc_pc =
    SIdle
  | WInc sc_goal | WTest_readers sc_goal | WBack sc_goal | FreeMark
  | OpenAssert | OpenWaiting | OpenReadable | OpenEmpty | OpenCount | OpenState
  | FreeClean bool | FreeUnmark bool | FreeState bool | FreeUnlock | FreeCount bool
  | Writing | SetData store_entry | CloseAssert bool | CloseState bool | CloseUnlock bool | CloseSwitch
  | AbortTest bool | AbortAssert
  | RInc "cache_key option" | RTest_writers "cache_key option" | RBack
  | ROpenEmpty "cache_key option" | ROpenWaiting "cache_key option" | ROpenAssert "cache_key option" | ROpenKey cache_key
  | Reading | RCloseAssert | RUnlock

text \<open>
  The next access of a client at a position, on slot \<open>i\<close>. \<open>WInc\<close> to \<open>WBack\<close> are \<^verbatim>\<open>lockExclusive\<close>, \<open>RInc\<close> to \<open>RBack\<close> are \<^verbatim>\<open>lockShared\<close>; \<open>FreeClean\<close> to
  \<open>FreeCount\<close> are \<^verbatim>\<open>freeLocked\<close>, with the flag \<^verbatim>\<open>keepLocked\<close>. The flag of \<open>AbortTest\<close> records whether the caller of \<^verbatim>\<open>abortIo\<close> holds the slot for
  writing; the code does not look at it. Clients at \<open>SIdle\<close>, \<open>Writing\<close> and \<open>Reading\<close> are outside any method.
\<close>

fun sc_act :: "store_map \<Rightarrow> int \<Rightarrow> sc_pc \<Rightarrow> (store_map \<times> sc_pc) res" where
  "sc_act m i (WInc g) =
     (let s = sm_slot m i; l = sl_lock s
      in Inr (sm_put m i (s\<lparr>sl_lock := l\<lparr>writers := writers l + 1\<rparr>\<rparr>), if writers l = 0 then WTest_readers g else WBack g))"
| "sc_act m i (WTest_readers g) =
     Inr (m, if readers (sl_lock (sm_slot m i)) = 0 then (case g of Opening \<Rightarrow> OpenAssert | Freeing \<Rightarrow> FreeClean False) else WBack g)"
| "sc_act m i (WBack g) =
     (let s = sm_slot m i; l = sl_lock s
      in Inr (sm_put m i (s\<lparr>sl_lock := l\<lparr>writers := writers l - 1\<rparr>\<rparr>), case g of Opening \<Rightarrow> SIdle | Freeing \<Rightarrow> FreeMark))"
| "sc_act m i FreeMark = Inr (sm_put m i ((sm_slot m i)\<lparr>waitingToBeFreed := True\<rparr>), SIdle)"
| "sc_act m i OpenAssert = (if sl_state (sm_slot m i) = Writeable then Inl Assertion else Inr (m, OpenWaiting))"
| "sc_act m i OpenWaiting = Inr (m, if waitingToBeFreed (sm_slot m i) then FreeClean True else OpenReadable)"
| "sc_act m i OpenReadable = Inr (m, if sl_state (sm_slot m i) = Readable then FreeClean True else OpenEmpty)"
| "sc_act m i OpenEmpty = (if sl_state (sm_slot m i) \<noteq> Empty then Inl Assertion else Inr (m, OpenCount))"
| "sc_act m i OpenCount = Inr (m\<lparr>sm_count := sm_count m + 1\<rparr>, OpenState)"
| "sc_act m i OpenState = Inr (sm_put m i ((sm_slot m i)\<lparr>sl_state := Writeable\<rparr>), Writing)"
| "sc_act m i (FreeClean keep) =
     Inr (if sl_state (sm_slot m i) = Readable \<and> sm_cleaner m then m\<lparr>sm_cleaned := sm_cleaned m @ [i]\<rparr> else m, FreeUnmark keep)"
| "sc_act m i (FreeUnmark keep) = Inr (sm_put m i ((sm_slot m i)\<lparr>waitingToBeFreed := False\<rparr>), FreeState keep)"
| "sc_act m i (FreeState keep) = Inr (sm_put m i ((sm_slot m i)\<lparr>sl_state := Empty\<rparr>), if keep then FreeCount True else FreeUnlock)"
| "sc_act m i FreeUnlock =
     (let s = sm_slot m i in res_bind (unlockExclusive (sl_lock s)) (\<lambda>l. Inr (sm_put m i (s\<lparr>sl_lock := l\<rparr>), FreeCount False)))"
| "sc_act m i (FreeCount keep) = Inr (m\<lparr>sm_count := sm_count m - 1\<rparr>, if keep then OpenEmpty else SIdle)"
| "sc_act m i (SetData e) = Inr (sm_put m i (slot_set (sm_slot m i) e), Writing)"
| "sc_act m i (CloseAssert b) = (if sl_state (sm_slot m i) \<noteq> Writeable then Inl Assertion else Inr (m, CloseState b))"
| "sc_act m i (CloseState b) = Inr (sm_put m i ((sm_slot m i)\<lparr>sl_state := Readable\<rparr>), CloseUnlock b)"
| "sc_act m i (CloseUnlock b) =
     (let s = sm_slot m i; l = sl_lock s
      in if b then Inr (sm_put m i (s\<lparr>sl_lock := l\<lparr>readers := readers l + 1\<rparr>\<rparr>), CloseSwitch)
         else res_bind (unlockExclusive l) (\<lambda>l. Inr (sm_put m i (s\<lparr>sl_lock := l\<rparr>), SIdle)))"
| "sc_act m i CloseSwitch =
     (let s = sm_slot m i in res_bind (unlockExclusive (sl_lock s)) (\<lambda>l. Inr (sm_put m i (s\<lparr>sl_lock := l\<rparr>), Reading)))"
| "sc_act m i (AbortTest w) = Inr (m, if sl_state (sm_slot m i) = Writeable then AbortAssert else RCloseAssert)"
| "sc_act m i AbortAssert = (if sl_state (sm_slot m i) \<noteq> Writeable then Inl Assertion else Inr (m, FreeClean False))"
| "sc_act m i (RInc k) =
     (let s = sm_slot m i; l = sl_lock s in Inr (sm_put m i (s\<lparr>sl_lock := l\<lparr>readers := readers l + 1\<rparr>\<rparr>), RTest_writers k))"
| "sc_act m i (RTest_writers k) = Inr (m, if writers (sl_lock (sm_slot m i)) = 0 then ROpenEmpty k else RBack)"
| "sc_act m i RBack =
     (let s = sm_slot m i; l = sl_lock s in Inr (sm_put m i (s\<lparr>sl_lock := l\<lparr>readers := readers l - 1\<rparr>\<rparr>), SIdle))"
| "sc_act m i (ROpenEmpty k) = Inr (m, if sl_state (sm_slot m i) = Empty then RUnlock else ROpenWaiting k)"
| "sc_act m i (ROpenWaiting k) = Inr (m, if waitingToBeFreed (sm_slot m i) then RUnlock else ROpenAssert k)"
| "sc_act m i (ROpenAssert k) =
     (if sl_state (sm_slot m i) \<noteq> Readable then Inl Assertion else Inr (m, case k of None \<Rightarrow> Reading | Some key \<Rightarrow> ROpenKey key))"
| "sc_act m i (ROpenKey key) = Inr (m, if sameKey (sm_slot m i) key then Reading else RUnlock)"
| "sc_act m i RCloseAssert = (if sl_state (sm_slot m i) \<noteq> Readable then Inl Assertion else Inr (m, RUnlock))"
| "sc_act m i RUnlock =
     (let s = sm_slot m i in res_bind (unlockShared (sl_lock s)) (\<lambda>l. Inr (sm_put m i (s\<lparr>sl_lock := l\<rparr>), SIdle)))"
| "sc_act m i pc = Inr (m, pc)"

definition sc_outside :: "sc_pc \<Rightarrow> bool" where
  "sc_outside pc \<longleftrightarrow> pc = SIdle \<or> pc = Writing \<or> pc = Reading"

text \<open>
  The calls a client may make: to open or free any valid slot while it has none, and to fill, close or abort the slot it holds.
\<close>

fun sc_call :: "store_map \<Rightarrow> int \<Rightarrow> sc_pc \<Rightarrow> sm_op \<Rightarrow> (int \<times> sc_pc) option" where
  "sc_call m i pc (OpenForWriting key) = (if pc = SIdle then Some (slotIndexByKey m key, WInc Opening) else None)"
| "sc_call m i pc (Free j) = (if pc = SIdle \<and> sm_valid m j then Some (j, WInc Freeing) else None)"
| "sc_call m i pc (OpenForReading key) = (if pc = SIdle then Some (slotIndexByKey m key, RInc (Some key)) else None)"
| "sc_call m i pc (OpenForReadingAt j) = (if pc = SIdle \<and> sm_valid m j then Some (j, RInc None) else None)"
| "sc_call m i pc (SlotSet j e) = (if pc = Writing \<and> j = i then Some (i, SetData e) else None)"
| "sc_call m i pc (CloseForWriting j b) = (if pc = Writing \<and> j = i then Some (i, CloseAssert b) else None)"
| "sc_call m i pc (CloseForReading j) = (if pc = Reading \<and> j = i then Some (i, RCloseAssert) else None)"
| "sc_call m i pc (AbortIo j) = (if (pc = Writing \<or> pc = Reading) \<and> j = i then Some (i, AbortTest (pc = Writing)) else None)"

section \<open>Interleaved clients\<close>

text \<open>
  \<open>sc_lost\<close> is no state of the program: it counts how often \<^verbatim>\<open>freeLocked\<close> emptied a slot that was empty already.
\<close>

record sc_sys =
  sc_map :: store_map
  sc_clients :: "(int \<times> sc_pc) list"
  sc_lost :: int

definition sc_at :: "sc_sys \<Rightarrow> nat \<Rightarrow> int \<Rightarrow> sc_pc \<Rightarrow> bool" where
  "sc_at s j i pc \<longleftrightarrow> j < length (sc_clients s) \<and> sc_clients s ! j = (i, pc)"

fun frees_nothing :: "store_map \<Rightarrow> int \<Rightarrow> sc_pc \<Rightarrow> bool" where
  "frees_nothing m i (FreeState keep) = (sl_state (sm_slot m i) = Empty)"
| "frees_nothing m i pc = False"

definition sc_moved :: "sc_sys \<Rightarrow> nat \<Rightarrow> int \<Rightarrow> sc_pc \<Rightarrow> store_map \<Rightarrow> sc_pc \<Rightarrow> sc_sys" where
  "sc_moved s j i pc m pc' = \<lparr>sc_map = m, sc_clients = (sc_clients s)[j := (i, pc')], sc_lost = sc_lost s + of_bool (frees_nothing (sc_map s) i pc)\<rparr>"

inductive sc_step :: "sc_sys \<Rightarrow> sc_sys \<Rightarrow> bool" where
  sc_calls: "sc_at s j i pc \<Longrightarrow> sc_call (sc_map s) i pc op = Some c \<Longrightarrow> sc_step s (s\<lparr>sc_clients := (sc_clients s)[j := c]\<rparr>)"
| sc_acts: "sc_at s j i pc \<Longrightarrow> \<not> sc_outside pc \<Longrightarrow> sc_act (sc_map s) i pc = Inr (m, pc') \<Longrightarrow> sc_step s (sc_moved s j i pc m pc')"

definition sc_init :: "sc_sys \<Rightarrow> bool" where
  "sc_init s \<longleftrightarrow> sm_start (sc_map s) \<and> (\<exists>n. sc_clients s = replicate n (0, SIdle)) \<and> sc_lost s = 0"

section \<open>The lock of a slot\<close>

text \<open>How a position of the index looks to the lock: each slot with its clients is a system of \<open>Ipc_ReadWriteLock\<close>.\<close>

fun lock_pc :: "sc_pc \<Rightarrow> rw_pc" where
  "lock_pc SIdle = Idle"
| "lock_pc (WInc g) = Idle"
| "lock_pc (WTest_readers g) = WTest"
| "lock_pc (WBack g) = WUndo"
| "lock_pc FreeMark = Idle"
| "lock_pc (FreeCount keep) = (if keep then WHeld else Idle)"
| "lock_pc CloseSwitch = WDown"
| "lock_pc (AbortTest w) = (if w then WHeld else RHeld)"
| "lock_pc (RInc k) = Idle"
| "lock_pc (RTest_writers k) = RTest"
| "lock_pc RBack = RUndo"
| "lock_pc (ROpenEmpty k) = RHeld"
| "lock_pc (ROpenWaiting k) = RHeld"
| "lock_pc (ROpenAssert k) = RHeld"
| "lock_pc (ROpenKey key) = RHeld"
| "lock_pc Reading = RHeld"
| "lock_pc RCloseAssert = RHeld"
| "lock_pc RUnlock = RHeld"
| "lock_pc pc = WHeld"

definition sc_lock :: "sc_sys \<Rightarrow> int \<Rightarrow> rw_sys" where
  "sc_lock s k = \<lparr>rw_lk = sl_lock (sm_slot (sc_map s) k), rw_pcs = map (\<lambda>(i, pc). if i = k then lock_pc pc else Idle) (sc_clients s)\<rparr>"

text \<open>What a client knows of the state of its slot.\<close>

fun pc_ok :: "slot_state \<Rightarrow> sc_pc \<Rightarrow> bool" where
  "pc_ok st OpenAssert = (st \<noteq> Writeable)"
| "pc_ok st OpenWaiting = (st \<noteq> Writeable)"
| "pc_ok st OpenReadable = (st \<noteq> Writeable)"
| "pc_ok st OpenEmpty = (st = Empty)"
| "pc_ok st OpenCount = (st = Empty)"
| "pc_ok st OpenState = (st = Empty)"
| "pc_ok st FreeUnlock = (st = Empty)"
| "pc_ok st (FreeCount keep) = (keep \<longrightarrow> st = Empty)"
| "pc_ok st Writing = (st = Writeable)"
| "pc_ok st (SetData e) = (st = Writeable)"
| "pc_ok st (CloseAssert b) = (st = Writeable)"
| "pc_ok st (CloseState b) = (st = Writeable)"
| "pc_ok st (CloseUnlock b) = (st = Readable)"
| "pc_ok st CloseSwitch = (st = Readable)"
| "pc_ok st (AbortTest w) = (if w then st = Writeable else st = Readable)"
| "pc_ok st AbortAssert = (st = Writeable)"
| "pc_ok st (ROpenEmpty k) = (st \<noteq> Writeable)"
| "pc_ok st (ROpenWaiting k) = (st = Readable)"
| "pc_ok st (ROpenAssert k) = (st = Readable)"
| "pc_ok st (ROpenKey key) = (st = Readable)"
| "pc_ok st Reading = (st = Readable)"
| "pc_ok st RCloseAssert = (st = Readable)"
| "pc_ok st pc = True"

section \<open>One access\<close>

definition map_ok :: "store_map \<Rightarrow> bool" where
  "map_ok m \<longleftrightarrow> 0 < sm_limit m \<and> sm_limit m < 2 ^ 31 \<and> length (sm_slots m) = nat (sm_limit m)"

lemma slot_put_same: "map_ok m \<Longrightarrow> sm_valid m i \<Longrightarrow> sm_slot (sm_put m i s) i = s"
  by (auto simp: map_ok_def sm_valid_def sm_slot_def sm_put_def)

lemma slot_put_other: "sm_valid m i \<Longrightarrow> sm_valid m k \<Longrightarrow> k \<noteq> i \<Longrightarrow> sm_slot (sm_put m i s) k = sm_slot m k"
  by (auto simp: sm_valid_def sm_slot_def sm_put_def nth_list_update)

lemma map_ok_simps [simp]: "map_ok (sm_put m i s) = map_ok m" "map_ok (m\<lparr>sm_count := c\<rparr>) = map_ok m" "map_ok (m\<lparr>sm_cleaned := cs\<rparr>) = map_ok m"
  by (simp_all add: map_ok_def sm_put_def)

lemma index_valid: "map_ok m \<Longrightarrow> sm_valid m (slotIndexByKey m k)"
proof -
  assume ok: "map_ok m"
  let ?n = "word_of_int (sm_limit m) :: 64 word"
  have "uint ?n = sm_limit m" using ok by (simp add: map_ok_def uint_word_of_int)
  moreover have "uint ((fst k + snd k) mod ?n) = uint (fst k + snd k) mod uint ?n" by (rule uint_mod_distrib)
  ultimately show ?thesis using ok by (simp add: sm_valid_def slotIndexByKey_def map_ok_def)
qed

lemmas act_split = Let_def res_bind_Inr_iff unlockExclusive_def unlockShared_def

lemma act_frame:
  assumes "sc_act m i pc = Inr (m', pc')" and "map_ok m" and "sm_valid m i"
  shows "map_ok m'" and "sm_valid m' k = sm_valid m k" and "sm_valid m k \<Longrightarrow> k \<noteq> i \<Longrightarrow> sm_slot m' k = sm_slot m k"
proof -
  have "map_ok m' \<and> (\<forall>k. sm_valid m' k = sm_valid m k) \<and> (\<forall>k. sm_valid m k \<longrightarrow> k \<noteq> i \<longrightarrow> sm_slot m' k = sm_slot m k)"
    using assms by (cases pc) (auto simp: act_split slot_put_other split: if_splits)
  then show "map_ok m'" "sm_valid m' k = sm_valid m k" "sm_valid m k \<Longrightarrow> k \<noteq> i \<Longrightarrow> sm_slot m' k = sm_slot m k" by blast+
qed

text \<open>What an access does to the lock is a step of the lock, or nothing.\<close>

definition lock_move :: "rw_lock \<Rightarrow> rw_pc \<Rightarrow> rw_pc \<Rightarrow> int \<Rightarrow> int \<Rightarrow> bool" where
  "lock_move l p q dr dw \<longleftrightarrow> p = q \<and> dr = 0 \<and> dw = 0 \<or>
     (p, q, dr, dw) \<in> {(Idle, RTest, 1, 0), (RUndo, Idle, - 1, 0), (RHeld, Idle, - 1, 0), (WUndo, Idle, 0, - 1), (WHeld, Idle, 0, - 1), (WHeld, WDown, 1, 0), (WDown, RHeld, 0, - 1)} \<or>
     (p, q, dr, dw) \<in> {(RTest, RHeld, 0, 0), (Idle, WTest, 0, 1)} \<and> writers l = 0 \<or>
     (p, q, dr, dw) \<in> {(RTest, RUndo, 0, 0), (Idle, WUndo, 0, 1)} \<and> writers l \<noteq> 0 \<or>
     (p, q, dr, dw) = (WTest, WHeld, 0, 0) \<and> readers l = 0 \<or>
     (p, q, dr, dw) = (WTest, WUndo, 0, 0) \<and> readers l \<noteq> 0"

lemma lock_move_step:
  assumes "lock_move (rw_lk s) p q dr dw" and at: "rw_at s j p"
  shows "rw_goto s j q dr dw = s \<or> rw_step s (rw_goto s j q dr dw)"
proof (cases "p = q \<and> dr = 0 \<and> dw = 0")
  case True
  then show ?thesis using at by (auto simp: rw_goto_def rw_at_def rw_lock_eq_iff)
next
  case False
  then show ?thesis using assms rw_step.intros [of s j] by (auto simp: lock_move_def)
qed

lemma act_lock:
  assumes "sc_act m i pc = Inr (m', pc')" and "map_ok m" and "sm_valid m i" and "pc_ok (sl_state (sm_slot m i)) pc" and "\<not> sc_outside pc"
  shows "lock_move (sl_lock (sm_slot m i)) (lock_pc pc) (lock_pc pc')
    (readers (sl_lock (sm_slot m' i)) - readers (sl_lock (sm_slot m i))) (writers (sl_lock (sm_slot m' i)) - writers (sl_lock (sm_slot m i)))"
  using assms
  by (cases pc) (auto simp: act_split slot_put_same slot_set_def lock_move_def sc_outside_def split: if_splits sc_goal.splits option.splits)

lemma state_Empty: "st = Empty \<longleftrightarrow> st \<noteq> Writeable \<and> st \<noteq> Readable"
  by (cases st) simp_all

lemma act_known:
  assumes "sc_act m i pc = Inr (m', pc')" and "map_ok m" and "sm_valid m i" and "pc_ok (sl_state (sm_slot m i)) pc"
    and "\<And>g. pc = WTest_readers g \<Longrightarrow> sl_state (sm_slot m i) \<noteq> Writeable"
    and "\<And>k. pc = RTest_writers k \<Longrightarrow> writers (sl_lock (sm_slot m i)) = 0 \<Longrightarrow> sl_state (sm_slot m i) \<noteq> Writeable"
  shows "pc_ok (sl_state (sm_slot m' i)) pc'"
  using assms
  by (cases pc) (auto simp: act_split slot_put_same slot_set_def state_Empty split: if_splits sc_goal.splits option.splits)

text \<open>Only who holds the slot exclusively changes its state or content.\<close>

lemma act_state:
  assumes "sc_act m i pc = Inr (m', pc')" and "map_ok m" and "sm_valid m i" and "\<not> has_exclusive (lock_pc pc)"
  shows "sl_state (sm_slot m' i) = sl_state (sm_slot m i) \<and> sl_key (sm_slot m' i) = sl_key (sm_slot m i) \<and> basics (sm_slot m' i) = basics (sm_slot m i)"
  using assms by (cases pc) (auto simp: act_split slot_put_same has_exclusive_def split: if_splits)

lemma act_writeable:
  assumes "sc_act m i pc = Inr (m', pc')" and "map_ok m" and "sm_valid m i" and "pc_ok (sl_state (sm_slot m i)) pc"
    and "sl_state (sm_slot m' i) = Writeable"
  shows "has_exclusive (lock_pc pc') \<or> sl_state (sm_slot m i) = Writeable \<and> \<not> has_exclusive (lock_pc pc)"
  using assms by (cases pc) (auto simp: act_split slot_put_same slot_set_def has_exclusive_def split: if_splits sc_goal.splits option.splits)

lemma nonholder_ok: "\<not> has_exclusive (lock_pc pc) \<Longrightarrow> \<not> has_shared (lock_pc pc) \<Longrightarrow> pc_ok st pc"
  by (cases pc) (auto simp: has_exclusive_def has_shared_def split: if_splits)

lemma lock_pc_Idle: "\<not> has_exclusive (lock_pc SIdle)" "\<not> has_exclusive Idle" "\<not> has_shared Idle"
  by (simp_all add: has_exclusive_def has_shared_def)

text \<open>No access fails an assertion when the lock and the state are as the position says.\<close>

lemma act_asserts:
  assumes "pc_ok (sl_state (sm_slot m i)) pc" and "counts_reader (lock_pc pc) \<Longrightarrow> 0 < readers (sl_lock (sm_slot m i))"
    and "counts_writer (lock_pc pc) \<Longrightarrow> 0 < writers (sl_lock (sm_slot m i))"
  shows "\<exists>r. sc_act m i pc = Inr r"
  using assms by (cases pc) (auto simp: Let_def unlockExclusive_def unlockShared_def counts_reader_def counts_writer_def split: if_splits)

section \<open>The invariant\<close>

definition sc_inv :: "sc_sys \<Rightarrow> bool" where
  "sc_inv s \<longleftrightarrow> map_ok (sc_map s) \<and>
     (\<forall>j i pc. sc_at s j i pc \<longrightarrow> sm_valid (sc_map s) i \<and> pc_ok (sl_state (sm_slot (sc_map s) i)) pc) \<and>
     (\<forall>k. sm_valid (sc_map s) k \<longrightarrow> rw_inv (sc_lock s k) \<and>
       (sl_state (sm_slot (sc_map s) k) = Writeable \<longrightarrow> (\<exists>j pc. sc_at s j k pc \<and> has_exclusive (lock_pc pc))))"

lemma sc_invD:
  assumes "sc_inv s"
  shows "map_ok (sc_map s)" and "sc_at s j i pc \<Longrightarrow> sm_valid (sc_map s) i" and "sc_at s j i pc \<Longrightarrow> pc_ok (sl_state (sm_slot (sc_map s) i)) pc"
    and "sm_valid (sc_map s) k \<Longrightarrow> rw_inv (sc_lock s k)"
    and "sm_valid (sc_map s) k \<Longrightarrow> sl_state (sm_slot (sc_map s) k) = Writeable \<Longrightarrow> \<exists>j pc. sc_at s j k pc \<and> has_exclusive (lock_pc pc)"
  using assms unfolding sc_inv_def by blast+

lemma lock_at: "sc_at s j i pc \<Longrightarrow> rw_at (sc_lock s i) j (lock_pc pc)"
  by (simp add: sc_at_def rw_at_def sc_lock_def)

lemma sc_at_same: "sc_at s j i pc \<Longrightarrow> sc_at s j i' pc' \<Longrightarrow> i' = i \<and> pc' = pc"
  by (simp add: sc_at_def)

text \<open>Who holds a slot exclusively excludes all other holders of it.\<close>

lemma holder_alone:
  assumes inv: "sc_inv s" and at: "sc_at s j i pc" "sc_at s j' i pc'" "j' \<noteq> j" and ex: "has_exclusive (lock_pc pc)"
  shows "\<not> has_exclusive (lock_pc pc') \<and> \<not> has_shared (lock_pc pc') \<and> \<not> first_writer (lock_pc pc')"
proof -
  note rw = sc_invD(4) [OF inv sc_invD(2) [OF inv at(1)]]
  have "first_writer (lock_pc pc)" "has_exclusive (lock_pc pc') \<Longrightarrow> first_writer (lock_pc pc')" using ex by (auto simp: first_writer_def has_exclusive_def)
  then show ?thesis
    using rw_inv_one_exclusive [OF rw lock_at [OF at(1)] lock_at [OF at(2)]] rw_inv_no_mix [OF rw lock_at [OF at(1)] lock_at [OF at(2)] ex] at(3) by blast
qed

lemma counters_positive:
  assumes inv: "sc_inv s" and at: "sc_at s j i pc"
  shows "counts_reader (lock_pc pc) \<Longrightarrow> 0 < readers (sl_lock (sm_slot (sc_map s) i))" and "counts_writer (lock_pc pc) \<Longrightarrow> 0 < writers (sl_lock (sm_slot (sc_map s) i))"
proof -
  note rw = sc_invD(4) [OF inv sc_invD(2) [OF inv at]]
  have l: "j < length (rw_pcs (sc_lock s i))" "rw_pcs (sc_lock s i) ! j = lock_pc pc" "rw_lk (sc_lock s i) = sl_lock (sm_slot (sc_map s) i)"
    using lock_at [OF at] by (auto simp: rw_at_def sc_lock_def)
  show "counts_reader (lock_pc pc) \<Longrightarrow> 0 < readers (sl_lock (sm_slot (sc_map s) i))" "counts_writer (lock_pc pc) \<Longrightarrow> 0 < writers (sl_lock (sm_slot (sc_map s) i))"
    using rw cnt_pos_nth [OF l(1), of counts_reader] cnt_pos_nth [OF l(1), of counts_writer] l(2,3) unfolding rw_inv_def by auto
qed

lemma unlocked_not_writeable:
  assumes inv: "sc_inv s" and "sm_valid (sc_map s) i" and "writers (sl_lock (sm_slot (sc_map s) i)) = 0"
  shows "sl_state (sm_slot (sc_map s) i) \<noteq> Writeable"
proof
  assume "sl_state (sm_slot (sc_map s) i) = Writeable"
  then obtain j pc where "sc_at s j i pc" "has_exclusive (lock_pc pc)" using sc_invD(5) [OF inv assms(2)] by blast
  then show False using counters_positive(2) [OF inv, of j i pc] assms(3) by (auto simp: has_exclusive_def counts_writer_def)
qed

lemma sc_lock_clients:
  assumes "sc_at s j i pc" and "i' = i \<or> lock_pc pc = Idle" and "lock_pc pc' = lock_pc pc"
  shows "sc_lock (s\<lparr>sc_clients := (sc_clients s)[j := (i', pc')]\<rparr>) k = sc_lock s k"
proof -
  let ?f = "\<lambda>(i, pc). if i = k then lock_pc pc else Idle"
  have "?f (i', pc') = map ?f (sc_clients s) ! j" using assms by (auto simp: sc_at_def)
  then have "map ?f ((sc_clients s)[j := (i', pc')]) = map ?f (sc_clients s)" by (simp only: map_update list_update_id)
  then show ?thesis by (simp add: sc_lock_def)
qed

lemma sc_at_update: "j < length (sc_clients s) \<Longrightarrow> sc_at (s\<lparr>sc_clients := (sc_clients s)[j := c]\<rparr>) j' i' pc' \<longleftrightarrow> (if j' = j then c = (i', pc') else sc_at s j' i' pc')"
  by (auto simp: sc_at_def nth_list_update)

lemma call_shape:
  assumes "sc_call m i pc op = Some (i', pc')" and "map_ok m" and "sm_valid m i" and "pc_ok (sl_state (sm_slot m i)) pc"
  shows "lock_pc pc' = lock_pc pc \<and> (i' = i \<or> lock_pc pc = Idle) \<and> sm_valid m i' \<and> pc_ok (sl_state (sm_slot m i')) pc'"
  using assms index_valid [OF assms(2)] by (cases op) (auto split: if_splits)

lemma calls_inv:
  assumes inv: "sc_inv s" and at: "sc_at s j i pc" and call: "sc_call (sc_map s) i pc op = Some (i', pc')"
  shows "sc_inv (s\<lparr>sc_clients := (sc_clients s)[j := (i', pc')]\<rparr>)"
proof -
  let ?t = "s\<lparr>sc_clients := (sc_clients s)[j := (i', pc')]\<rparr>"
  note sh = call_shape [OF call sc_invD(1) [OF inv] sc_invD(2,3) [OF inv at]]
  have j: "j < length (sc_clients s)" using at by (simp add: sc_at_def)
  have lk: "sc_lock ?t k = sc_lock s k" for k using sc_lock_clients [OF at] sh by blast
  have "\<exists>j pc. sc_at ?t j k pc \<and> has_exclusive (lock_pc pc)" if k: "sm_valid (sc_map s) k" "sl_state (sm_slot (sc_map s) k) = Writeable" for k
  proof -
    obtain j0 p where p: "sc_at s j0 k p" "has_exclusive (lock_pc p)" using sc_invD(5) [OF inv k] by blast
    show ?thesis
    proof (cases "j0 = j")
      case True
      then have "k = i" "p = pc" using sc_at_same [OF at] p(1) by auto
      moreover have "i' = i" using sh p(2) \<open>p = pc\<close> lock_pc_Idle(2) by auto
      ultimately show ?thesis using sh p(2) sc_at_update [OF j, of "(i', pc')" j] by (intro exI [of _ j] exI [of _ pc']) auto
    next
      case False
      then show ?thesis using p sc_at_update [OF j, of "(i', pc')" j0] by auto
    qed
  qed
  moreover have "sm_valid (sc_map s) i2 \<and> pc_ok (sl_state (sm_slot (sc_map s) i2)) pc2" if "sc_at ?t j2 i2 pc2" for j2 i2 pc2
    using that sc_at_update [OF j, of "(i', pc')" j2 i2 pc2] sh sc_invD(2,3) [OF inv, of j2 i2 pc2] by (auto split: if_splits)
  ultimately show ?thesis using sc_invD(1,4) [OF inv] unfolding sc_inv_def lk by simp
qed

lemma moved_simps [simp]: "sc_map (sc_moved s j i pc m pc') = m" "sc_clients (sc_moved s j i pc m pc') = (sc_clients s)[j := (i, pc')]"
  by (simp_all add: sc_moved_def)

lemma sc_at_moved: "sc_at s j i pc \<Longrightarrow> sc_at (sc_moved s j i pc m pc') j' i' p \<longleftrightarrow> (if j' = j then i' = i \<and> p = pc' else sc_at s j' i' p)"
  by (auto simp: sc_at_def nth_list_update)

lemma moved_lock_other:
  assumes "sc_at s j i pc" and "k \<noteq> i" and "sm_slot m k = sm_slot (sc_map s) k"
  shows "sc_lock (sc_moved s j i pc m pc') k = sc_lock s k"
proof -
  let ?f = "\<lambda>(i, pc). if i = k then lock_pc pc else Idle"
  have "?f (i, pc') = map ?f (sc_clients s) ! j" using assms(1,2) by (auto simp: sc_at_def)
  then have "map ?f ((sc_clients s)[j := (i, pc')]) = map ?f (sc_clients s)" by (simp only: map_update list_update_id)
  then show ?thesis using assms(3) by (simp add: sc_lock_def)
qed

lemma moved_lock_same:
  "sc_lock (sc_moved s j i pc m pc') i = rw_goto (sc_lock s i) j (lock_pc pc')
     (readers (sl_lock (sm_slot m i)) - readers (sl_lock (sm_slot (sc_map s) i))) (writers (sl_lock (sm_slot m i)) - writers (sl_lock (sm_slot (sc_map s) i)))"
  by (simp add: sc_lock_def rw_goto_def map_update)

text \<open>Every access is, for each slot, a step of its lock or none.\<close>

lemma acts_lock:
  assumes inv: "sc_inv s" and at: "sc_at s j i pc" and act: "\<not> sc_outside pc" "sc_act (sc_map s) i pc = Inr (m, pc')" and k: "sm_valid (sc_map s) k"
  shows "sc_lock (sc_moved s j i pc m pc') k = sc_lock s k \<or> rw_step (sc_lock s k) (sc_lock (sc_moved s j i pc m pc') k)"
proof (cases "k = i")
  case True
  have "rw_lk (sc_lock s i) = sl_lock (sm_slot (sc_map s) i)" by (simp add: sc_lock_def)
  then show ?thesis unfolding True moved_lock_same
    using lock_move_step [OF _ lock_at [OF at]] act_lock [OF act(2) sc_invD(1) [OF inv] sc_invD(2,3) [OF inv at] act(1)] by simp
next
  case False
  then show ?thesis using moved_lock_other [OF at False] act_frame(3) [OF act(2) sc_invD(1) [OF inv] sc_invD(2) [OF inv at] k] by simp
qed

lemma acts_inv:
  assumes inv: "sc_inv s" and at: "sc_at s j i pc" and act: "\<not> sc_outside pc" "sc_act (sc_map s) i pc = Inr (m, pc')"
  shows "sc_inv (sc_moved s j i pc m pc')"
proof -
  let ?t = "sc_moved s j i pc m pc'"
  note ok = sc_invD(1) [OF inv] and v = sc_invD(2) [OF inv at] and pok = sc_invD(3) [OF inv at]
  note fr = act_frame [OF act(2) ok v]
  have wt: "sl_state (sm_slot (sc_map s) i) \<noteq> Writeable" if "pc = WTest_readers g" for g
  proof
    assume "sl_state (sm_slot (sc_map s) i) = Writeable"
    then obtain j0 p where p: "sc_at s j0 i p" "has_exclusive (lock_pc p)" using sc_invD(5) [OF inv v] by blast
    moreover have "p \<noteq> pc" using p(2) that by (auto simp: has_exclusive_def)
    ultimately have "j \<noteq> j0" using at by (auto simp: sc_at_def)
    then show False using holder_alone [OF inv p(1) at _ p(2)] that by (simp add: first_writer_def)
  qed
  have new: "pc_ok (sl_state (sm_slot m i)) pc'"
    by (rule act_known [OF act(2) ok v pok]) (use wt unlocked_not_writeable [OF inv v] in auto)
  have others: "pc_ok (sl_state (sm_slot m i2)) p2 \<and> sm_valid (sc_map s) i2" if a2: "sc_at s j2 i2 p2" "j2 \<noteq> j" for j2 i2 p2
  proof (cases "i2 = i \<and> has_exclusive (lock_pc pc)")
    case True
    then show ?thesis using holder_alone [OF inv at _ a2(2)] a2(1) nonholder_ok v by auto
  next
    case False
    then have "sl_state (sm_slot m i2) = sl_state (sm_slot (sc_map s) i2)"
      using act_state [OF act(2) ok v] fr(3) [OF sc_invD(2) [OF inv a2(1)]] by (cases "i2 = i") auto
    then show ?thesis using sc_invD(2,3) [OF inv a2(1)] by simp
  qed
  have "\<exists>j pc. sc_at ?t j k pc \<and> has_exclusive (lock_pc pc)" if k: "sm_valid (sc_map s) k" "sl_state (sm_slot m k) = Writeable" for k
  proof (cases "k = i \<and> has_exclusive (lock_pc pc')")
    case True
    then show ?thesis using sc_at_moved [OF at, of m pc' j] by (intro exI [of _ j] exI [of _ pc']) simp
  next
    case False
    then have "sl_state (sm_slot (sc_map s) k) = Writeable" "k = i \<longrightarrow> \<not> has_exclusive (lock_pc pc)"
      using act_writeable [OF act(2) ok v pok] fr(3) [OF k(1)] k(2) by (cases "k = i"; auto)+
    moreover from this obtain j0 p where p: "sc_at s j0 k p" "has_exclusive (lock_pc p)" using sc_invD(5) [OF inv k(1)] by blast
    ultimately have "j0 \<noteq> j" using sc_at_same [OF at] by auto
    then show ?thesis using p sc_at_moved [OF at, of m pc' j0] by (intro exI [of _ j0] exI [of _ p]) simp
  qed
  moreover have "rw_inv (sc_lock ?t k)" if "sm_valid (sc_map s) k" for k
    using acts_lock [OF inv at act that] rw_step_inv sc_invD(4) [OF inv that] by metis
  moreover have "sm_valid m i2 \<and> pc_ok (sl_state (sm_slot m i2)) p2" if "sc_at ?t j2 i2 p2" for j2 i2 p2
    using that sc_at_moved [OF at, of m pc' j2] new others v fr(2) by (cases "j2 = j") auto
  ultimately show ?thesis using fr(1,2) unfolding sc_inv_def by simp
qed

lemma sc_initE:
  assumes "sc_init s"
  obtains limit cl n where "0 < limit" and "limit < 2 ^ 31" and "sc_map s = sm_Shared limit cl" and "sc_clients s = replicate n (0, SIdle)" and "sc_lost s = 0"
proof -
  obtain limit cl n where "sm_Init limit cl = Inr (sc_map s)" "limit < 2 ^ 31" "sc_clients s = replicate n (0, SIdle)" "sc_lost s = 0"
    using assms unfolding sc_init_def sm_start_def by blast
  then show thesis by (intro that [of limit cl n]) (simp_all add: sm_Init_def split: if_splits)
qed

lemma sc_init_inv: "sc_init s \<Longrightarrow> sc_inv s"
proof -
  assume "sc_init s"
  then obtain limit cl n where i: "0 < limit" "limit < 2 ^ 31" "sc_map s = sm_Shared limit cl" "sc_clients s = replicate n (0, SIdle)"
    by (rule sc_initE)
  have slot: "sm_slot (sc_map s) k = StoreMapSlot" if "sm_valid (sc_map s) k" for k
    using that i by (auto simp: sm_slot_def sm_valid_def sm_Shared_def)
  have "rw_init (sc_lock s k)" if "sm_valid (sc_map s) k" for k
    using slot [OF that] i(4) by (auto simp: rw_init_def sc_lock_def StoreMapSlot_def map_replicate_const intro!: exI [of _ n])
  then show ?thesis using i slot
    by (auto simp: sc_inv_def map_ok_def sc_at_def StoreMapSlot_def sm_valid_def sm_Shared_def intro!: rw_init_inv)
qed

lemma sc_step_inv: "sc_inv s \<Longrightarrow> sc_step s t \<Longrightarrow> sc_inv t"
proof (erule sc_step.cases, goal_cases)
  case (1 s' j i pc op c)
  then show ?case using calls_inv [of s j i pc op "fst c" "snd c"] by simp
next
  case (2 s' j i pc m pc')
  then show ?case using acts_inv [of s j i pc m pc'] by simp
qed

interpretation sci: inductive_invariant sc_init sc_step sc_inv
  by unfold_locales (auto intro: sc_init_inv sc_step_inv)

section \<open>The count\<close>

text \<open>Positions between a change of \<^verbatim>\<open>state\<close> and the change of \<^verbatim>\<open>count\<close> that goes with it.\<close>

fun sc_counting :: "sc_pc \<Rightarrow> bool" where
  "sc_counting OpenState = True"
| "sc_counting FreeUnlock = True"
| "sc_counting (FreeCount keep) = True"
| "sc_counting pc = False"

definition sc_counted :: "sc_sys \<Rightarrow> bool" where
  "sc_counted s \<longleftrightarrow> 0 \<le> sc_lost s \<and> sm_count (sc_map s) =
     int (cnt slot_used (sm_slots (sc_map s))) + int (cnt (\<lambda>c. sc_counting (snd c)) (sc_clients s)) - sc_lost s"

lemma used_put:
  assumes "map_ok m" and "sm_valid m i"
  shows "int (cnt slot_used (sm_slots (sm_put m i s))) = int (cnt slot_used (sm_slots m)) - of_bool (slot_used (sm_slot m i)) + of_bool (slot_used s)"
proof -
  have "nat i < length (sm_slots m)" using assms by (auto simp: map_ok_def sm_valid_def)
  from cnt_update [OF this, of slot_used s] show ?thesis by (simp add: sm_put_def sm_slot_def)
qed

lemma act_count:
  assumes "sc_act m i pc = Inr (m', pc')" and "map_ok m" and "sm_valid m i" and "pc_ok (sl_state (sm_slot m i)) pc" and "\<not> sc_outside pc"
  shows "sm_count m' = sm_count m + (int (cnt slot_used (sm_slots m')) - int (cnt slot_used (sm_slots m))) +
    (of_bool (sc_counting pc') - of_bool (sc_counting pc)) - of_bool (frees_nothing m i pc)"
  using assms
  by (cases pc) (auto simp: act_split used_put slot_used_def slot_set_def sc_outside_def split: if_splits sc_goal.splits option.splits)

lemma call_count: "sc_call m i pc op = Some (i', pc') \<Longrightarrow> \<not> sc_counting pc \<and> \<not> sc_counting pc'"
  by (cases op) (auto split: if_splits)

lemma counted_step:
  assumes inv: "sc_inv s" and c: "sc_counted s" and step: "sc_step s t"
  shows "sc_counted t"
  using step
proof (cases rule: sc_step.cases)
  case (sc_calls j i pc op cl)
  obtain i' pc' where cl: "cl = (i', pc')" by (cases cl)
  have j: "j < length (sc_clients s)" "sc_clients s ! j = (i, pc)" using sc_calls by (auto simp: sc_at_def)
  have "cnt (\<lambda>c. sc_counting (snd c)) ((sc_clients s)[j := cl]) = cnt (\<lambda>c. sc_counting (snd c)) (sc_clients s)"
    using cnt_update [OF j(1), of "\<lambda>c. sc_counting (snd c)" cl] call_count [of "sc_map s" i pc op i' pc'] sc_calls(3) cl j(2) by simp
  then show ?thesis using c unfolding sc_calls(1) sc_counted_def by simp
next
  case (sc_acts j i pc m pc')
  have j: "j < length (sc_clients s)" "sc_clients s ! j = (i, pc)" using sc_acts by (auto simp: sc_at_def)
  note ac = act_count [OF sc_acts(4) sc_invD(1) [OF inv] sc_invD(2,3) [OF inv sc_acts(2)] sc_acts(3)]
  have "int (cnt (\<lambda>c. sc_counting (snd c)) ((sc_clients s)[j := (i, pc')])) =
      int (cnt (\<lambda>c. sc_counting (snd c)) (sc_clients s)) - of_bool (sc_counting pc) + of_bool (sc_counting pc')"
    using cnt_update [OF j(1), of "\<lambda>c. sc_counting (snd c)" "(i, pc')"] j(2) by simp
  then show ?thesis using c ac unfolding sc_acts(1) sc_counted_def by (simp add: sc_moved_def)
qed

lemma counted_init: "sc_init s \<Longrightarrow> sc_counted s"
  by (erule sc_initE) (simp add: sm_Shared_def sc_counted_def StoreMapSlot_def slot_used_def)

interpretation scn: inductive_invariant sc_init sc_step "\<lambda>s. sc_inv s \<and> sc_counted s"
  by unfold_locales (auto intro: sc_init_inv sc_step_inv counted_init counted_step)

section \<open>Schedules\<close>

text \<open>The run of the clients in a given order, each with a call or with its next access.\<close>

fun sc_run :: "sc_sys \<Rightarrow> (nat \<times> sm_op option) list \<Rightarrow> sc_sys option" where
  "sc_run s [] = Some s"
| "sc_run s ((j, call) # es) =
     (if length (sc_clients s) \<le> j then None
      else let (i, pc) = sc_clients s ! j in
        case call of
          Some op \<Rightarrow> (case sc_call (sc_map s) i pc op of None \<Rightarrow> None | Some c \<Rightarrow> sc_run (s\<lparr>sc_clients := (sc_clients s)[j := c]\<rparr>) es)
        | None \<Rightarrow> if sc_outside pc then None
            else (case sc_act (sc_map s) i pc of Inl e \<Rightarrow> None | Inr (m, pc') \<Rightarrow> sc_run (sc_moved s j i pc m pc') es))"

lemma sc_run_reach: "sc_run s es = Some t \<Longrightarrow> reach sc_init sc_step s \<Longrightarrow> reach sc_init sc_step t"
proof (induction es arbitrary: s)
  case (Cons e es)
  obtain j call where e: "e = (j, call)" by (cases e)
  have j: "j < length (sc_clients s)" using Cons.prems(1) e by (auto split: if_splits)
  obtain i pc where ip: "sc_clients s ! j = (i, pc)" by (cases "sc_clients s ! j")
  have at: "sc_at s j i pc" using j ip by (simp add: sc_at_def)
  show ?case
  proof (cases call)
    case (Some op)
    then obtain c where "sc_call (sc_map s) i pc op = Some c" "sc_run (s\<lparr>sc_clients := (sc_clients s)[j := c]\<rparr>) es = Some t"
      using Cons.prems(1) e ip j by (auto split: option.splits)
    then show ?thesis using Cons.IH reach_step [OF Cons.prems(2)] sc_step.sc_calls [OF at] by blast
  next
    case None
    then obtain m pc' where "\<not> sc_outside pc" "sc_act (sc_map s) i pc = Inr (m, pc')" "sc_run (sc_moved s j i pc m pc') es = Some t"
      using Cons.prems(1) e ip j by (auto split: if_splits sum.splits)
    then show ?thesis using Cons.IH reach_step [OF Cons.prems(2)] sc_step.sc_acts [OF at] by blast
  qed
qed simp

definition sc_start :: sc_sys where
  "sc_start = \<lparr>sc_map = sm_Shared 4 True, sc_clients = [(0, SIdle), (0, SIdle)], sc_lost = 0\<rparr>"

lemma sc_start_reach: "reach sc_init sc_step sc_start"
proof (rule reach_init)
  have "sc_clients sc_start = replicate 2 (0, SIdle)" by (simp add: sc_start_def numeral_2_eq_2)
  then show "sc_init sc_start" using sm_Shared_start by (auto simp: sc_init_def sc_start_def)
qed

text \<open>Client 0 opens a slot for writing while client 1 tries to read it; then the entry is written and read, and client 1 tries to free it.\<close>

definition sc_to_writing :: "(nat \<times> sm_op option) list" where
  "sc_to_writing = (0, Some (OpenForWriting (5, 2))) # replicate 8 (0, None)"

definition sc_to_contended :: "(nat \<times> sm_op option) list" where
  "sc_to_contended = sc_to_writing @ [(1, Some (OpenForReading (5, 2))), (1, None)]"

definition sc_to_reading :: "(nat \<times> sm_op option) list" where
  "sc_to_reading = sc_to_writing @ (0, Some (SlotSet 3 sm_entry)) # (0, None) # (0, Some (CloseForWriting 3 False)) # replicate 3 (0, None) @
     (0, Some (OpenForReading (5, 2))) # replicate 6 (0, None) @ (1, Some (Free 3)) # replicate 2 (1, None)"

text \<open>Client 0 frees the entry itself before client 1, which could not lock it, marks it; then client 0 opens the slot again.\<close>

definition sc_to_race :: "(nat \<times> sm_op option) list" where
  "sc_to_race = sc_to_reading @ (1, None) # (0, Some (CloseForReading 3)) # replicate 2 (0, None) @ (0, Some (Free 3)) # replicate 7 (0, None) @
     (1, None) # (0, Some (OpenForWriting (5, 2))) # replicate 11 (0, None)"

definition sc_state :: "(nat \<times> sm_op option) list \<Rightarrow> sc_sys" where
  "sc_state es = the (sc_run sc_start es)"

lemma sc_state_reach: "sc_run sc_start es \<noteq> None \<Longrightarrow> reach sc_init sc_step (sc_state es)"
  using sc_run_reach [OF _ sc_start_reach, of es] by (auto simp: sc_state_def)

lemma contended_reach: "reach sc_init sc_step (sc_state sc_to_contended)"
  by (rule sc_state_reach) code_simp

lemma reading_reach: "reach sc_init sc_step (sc_state sc_to_reading)"
  by (rule sc_state_reach) code_simp

lemma race_reach: "reach sc_init sc_step (sc_state sc_to_race)"
  by (rule sc_state_reach) code_simp

section \<open>Properties\<close>

text \<open>
  C3. However the accesses of all processes to the cache index interleave, no assertion of its methods fails; the two counters of a slot's lock are the
  numbers of clients between locking and unlocking; a slot is \<^verbatim>\<open>Writeable\<close> only while exactly one client holds its lock exclusively;
  and a client that has opened a slot for writing or for reading finds it \<^verbatim>\<open>Writeable\<close> or \<^verbatim>\<open>Readable\<close>.
\<close>

theorem storemap_locks_match_states:
  assumes "reach sc_init sc_step s"
  shows "(\<forall>j i pc. sc_at s j i pc \<longrightarrow> (\<exists>r. sc_act (sc_map s) i pc = Inr r)) \<and>
    (\<forall>i. sm_valid (sc_map s) i \<longrightarrow>
      readers (sl_lock (sm_slot (sc_map s) i)) = int (cnt (\<lambda>(k, pc). k = i \<and> counts_reader (lock_pc pc)) (sc_clients s)) \<and>
      writers (sl_lock (sm_slot (sc_map s) i)) = int (cnt (\<lambda>(k, pc). k = i \<and> counts_writer (lock_pc pc)) (sc_clients s)) \<and>
      (sl_state (sm_slot (sc_map s) i) = Writeable \<longrightarrow> (\<exists>!j. \<exists>pc. sc_at s j i pc \<and> has_exclusive (lock_pc pc)))) \<and>
    (\<forall>j i. sc_at s j i Writing \<longrightarrow> sl_state (sm_slot (sc_map s) i) = Writeable) \<and>
    (\<forall>j i. sc_at s j i Reading \<longrightarrow> sl_state (sm_slot (sc_map s) i) = Readable)"
proof -
  from assms have inv: "sc_inv s" by (rule sci.reach_inv)
  have count: "cnt P (rw_pcs (sc_lock s i)) = cnt (\<lambda>(k, pc). k = i \<and> P (lock_pc pc)) (sc_clients s)" if "\<not> P Idle" for P i
    using that by (auto simp: sc_lock_def cnt_def filter_map comp_def split_beta intro!: arg_cong [of _ _ length] filter_cong)
  have "\<exists>!j. \<exists>pc. sc_at s j i pc \<and> has_exclusive (lock_pc pc)" if "sm_valid (sc_map s) i" "sl_state (sm_slot (sc_map s) i) = Writeable" for i
    using sc_invD(5) [OF inv that] holder_alone [OF inv] by metis
  moreover have "rw_lk (sc_lock s i) = sl_lock (sm_slot (sc_map s) i)" for i by (simp add: sc_lock_def)
  then have "readers (sl_lock (sm_slot (sc_map s) i)) = int (cnt (\<lambda>(k, pc). k = i \<and> counts_reader (lock_pc pc)) (sc_clients s)) \<and>
      writers (sl_lock (sm_slot (sc_map s) i)) = int (cnt (\<lambda>(k, pc). k = i \<and> counts_writer (lock_pc pc)) (sc_clients s))" if "sm_valid (sc_map s) i" for i
    using sc_invD(4) [OF inv that] count [of counts_reader i] count [of counts_writer i] unfolding rw_inv_def by (simp add: counts_reader_def counts_writer_def)
  moreover have "\<exists>r. sc_act (sc_map s) i pc = Inr r" if "sc_at s j i pc" for j i pc
    using act_asserts [OF sc_invD(3) [OF inv that] counters_positive [OF inv that]] .
  ultimately show ?thesis using sc_invD(3) [OF inv] by fastforce
qed

theorem storemap_locks_match_states_witness:
  "sc_clients (sc_state sc_to_race) = [(3, Writing), (3, SIdle)] \<and> sl_state (sm_slot (sc_map (sc_state sc_to_race)) 3) = Writeable \<and>
   sc_clients (sc_state sc_to_reading) = [(3, Reading), (3, WBack Freeing)] \<and> sl_state (sm_slot (sc_map (sc_state sc_to_reading)) 3) = Readable \<and>
   (\<exists>r. sc_act (sc_map (sc_state sc_to_reading)) 3 (WBack Freeing) = Inr r)"
proof -
  have c: "sc_clients (sc_state sc_to_race) = [(3, Writing), (3, SIdle)]" "sc_clients (sc_state sc_to_reading) = [(3, Reading), (3, WBack Freeing)]" by code_simp+
  then have at: "sc_at (sc_state sc_to_race) 0 3 Writing" "sc_at (sc_state sc_to_reading) 0 3 Reading" "sc_at (sc_state sc_to_reading) 1 3 (WBack Freeing)" by (simp_all add: sc_at_def)
  show ?thesis using c at storemap_locks_match_states [OF race_reach] storemap_locks_match_states [OF reading_reach] by blast
qed

text \<open>
  C4. While a client has a slot open for writing no other client holds it, for reading or exclusively; while a client has it open for reading no other
  holds it exclusively; and in both cases no access of another client changes the slot's state, key or basics, so a reader reads one entry.
\<close>

theorem storemap_exclusion:
  assumes "reach sc_init sc_step s" and "sc_at s j i pc" and "pc = Writing \<or> pc = Reading" and "sc_at s j' i pc'" and "j' \<noteq> j"
  shows "\<not> has_exclusive (lock_pc pc') \<and> (pc = Writing \<longrightarrow> \<not> has_shared (lock_pc pc')) \<and>
    (\<forall>m pc''. sc_act (sc_map s) i pc' = Inr (m, pc'') \<longrightarrow>
      sl_state (sm_slot m i) = sl_state (sm_slot (sc_map s) i) \<and> sl_key (sm_slot m i) = sl_key (sm_slot (sc_map s) i) \<and>
      basics (sm_slot m i) = basics (sm_slot (sc_map s) i))"
proof -
  from assms(1) have inv: "sc_inv s" by (rule sci.reach_inv)
  have h: "has_exclusive (lock_pc pc) \<or> has_shared (lock_pc pc)" and w: "pc = Writing \<Longrightarrow> has_exclusive (lock_pc pc)"
    using assms(3) by (auto simp: has_exclusive_def has_shared_def)
  have 1: "\<not> has_exclusive (lock_pc pc')" using holder_alone [OF inv assms(4,2)] assms(5) h by blast
  have 2: "pc = Writing \<Longrightarrow> \<not> has_shared (lock_pc pc')" using holder_alone [OF inv assms(2,4,5)] w by blast
  show ?thesis using 1 2 act_state [OF _ sc_invD(1) [OF inv] sc_invD(2) [OF inv assms(2)] 1] by blast
qed

theorem storemap_exclusion_witness:
  "sc_at (sc_state sc_to_reading) 0 3 Reading \<and> \<not> has_exclusive (lock_pc (WBack Freeing)) \<and>
   sc_at (sc_state sc_to_contended) 0 3 Writing \<and> \<not> has_shared (lock_pc (RTest_writers (Some (5, 2))))"
proof -
  have c: "sc_clients (sc_state sc_to_reading) = [(3, Reading), (3, WBack Freeing)]" "sc_clients (sc_state sc_to_contended) = [(3, Writing), (3, RTest_writers (Some (5, 2)))]"
    by code_simp+
  then have at: "sc_at (sc_state sc_to_reading) 0 3 Reading" "sc_at (sc_state sc_to_reading) 1 3 (WBack Freeing)"
      "sc_at (sc_state sc_to_contended) 0 3 Writing" "sc_at (sc_state sc_to_contended) 1 3 (RTest_writers (Some (5, 2)))" by (simp_all add: sc_at_def)
  show ?thesis
    using at storemap_exclusion [OF reading_reach at(1) _ at(2)] storemap_exclusion [OF contended_reach at(3) _ at(4)] by simp
qed

text \<open>
  C6. \<^verbatim>\<open>entryCount()\<close> accounted for exactly: it is the number of slots in use, plus the clients between a change of state and the change of the
  count that goes with it, less the times \<^verbatim>\<open>freeLocked\<close> emptied a slot that was empty already. Where that never happened and no client is inside a
  method, the map is full exactly if no slot is empty.
\<close>

theorem storemap_count_exact:
  assumes "reach sc_init sc_step s"
  shows "sm_count (sc_map s) = int (cnt slot_used (sm_slots (sc_map s))) + int (cnt (\<lambda>c. sc_counting (snd c)) (sc_clients s)) - sc_lost s \<and> 0 \<le> sc_lost s \<and>
    (sc_lost s = 0 \<and> (\<forall>c \<in> set (sc_clients s). sc_outside (snd c)) \<longrightarrow> (sm_full (sc_map s) \<longleftrightarrow> (\<forall>x \<in> set (sm_slots (sc_map s)). sl_state x \<noteq> Empty)))"
proof -
  from assms have inv: "sc_inv s" and c: "sc_counted s" using scn.reach_inv by blast+
  let ?m = "sc_map s"
  have "cnt (\<lambda>x. \<not> slot_used x) (sm_slots ?m) + cnt slot_used (sm_slots ?m) = length (sm_slots ?m)"
    using sum_length_filter_compl [of slot_used "sm_slots ?m"] by (simp add: cnt_def add.commute)
  moreover have "cnt (\<lambda>x. \<not> slot_used x) (sm_slots ?m) = 0 \<longleftrightarrow> (\<forall>x \<in> set (sm_slots ?m). sl_state x \<noteq> Empty)" by (simp add: cnt_0_iff slot_used_def)
  moreover have "length (sm_slots ?m) = nat (sm_limit ?m)" "0 < sm_limit ?m" using sc_invD(1) [OF inv] by (auto simp: map_ok_def)
  moreover have "cnt (\<lambda>c. sc_counting (snd c)) (sc_clients s) = 0" if "\<forall>c \<in> set (sc_clients s). sc_outside (snd c)"
    using that by (auto simp: cnt_0_iff sc_outside_def)
  ultimately show ?thesis using c unfolding sc_counted_def sm_full_def by auto
qed

theorem storemap_count_exact_witness:
  "sm_count (sc_map (sc_state sc_to_race)) = 0 \<and> cnt slot_used (sm_slots (sc_map (sc_state sc_to_race))) = 1 \<and> sc_lost (sc_state sc_to_race) = 1"
proof -
  have "cnt slot_used (sm_slots (sc_map (sc_state sc_to_race))) = 1" "cnt (\<lambda>c. sc_counting (snd c)) (sc_clients (sc_state sc_to_race)) = 0" "sc_lost (sc_state sc_to_race) = 1"
    by code_simp+
  then show ?thesis using storemap_count_exact [OF race_reach] by simp
qed

end
