(* ===== verification/Ipc_Queue.thy ===== *)
theory Ipc_Queue
  imports Squid_Prelude
begin

text \<open>
  The lock-free queues between Squid processes (src/ipc/Queue.h, src/ipc/Queue.cc):
  \<^verbatim>\<open>QueueReader\<close>, \<^verbatim>\<open>OneToOneUniQueue\<close> (one writer, one reader, a ring of fixed-size byte
  slots) and \<^verbatim>\<open>FewToFewBiQueue\<close> (a matrix of such queues between two groups of processes).

  A value is its bytes; \<^verbatim>\<open>sizeof(value)\<close> is the length of that list. The ring indices
  \<^verbatim>\<open>theIn\<close> and \<^verbatim>\<open>theOut\<close> are 32-bit unsigned words that wrap around; \<^verbatim>\<open>memcpy\<close> is written out
  on the byte buffer. \<open>uq_step\<close> is the concurrent view: the writer and the reader
  interleave between any two accesses to a shared word.
\<close>

type_synonym bytes = "8 word list"

section \<open>QueueReader\<close>

record queue_reader =
  popBlocked :: int
  popSignal :: int
  rateLimit :: int
  balance :: int

definition QueueReader :: queue_reader where
  "QueueReader = \<lparr>popBlocked = 1, popSignal = 0, rateLimit = 0, balance = 0\<rparr>"

definition qr_blocked :: "queue_reader \<Rightarrow> bool" where
  "qr_blocked r \<longleftrightarrow> popBlocked r = 1"

definition qr_block :: "queue_reader \<Rightarrow> queue_reader" where
  "qr_block r = (if popBlocked r = 0 then r\<lparr>popBlocked := 1\<rparr> else r)"

definition qr_unblock :: "queue_reader \<Rightarrow> queue_reader" where
  "qr_unblock r = (if popBlocked r = 1 then r\<lparr>popBlocked := 0\<rparr> else r)"

definition raiseSignal :: "queue_reader \<Rightarrow> bool \<times> queue_reader" where
  "raiseSignal r =
     (if qr_blocked r \<and> popSignal r = 0 then (True, r\<lparr>popSignal := 1\<rparr>) else (False, r))"

definition clearSignal :: "queue_reader \<Rightarrow> queue_reader" where
  "clearSignal r =
     (let r1 = qr_unblock r in if popSignal r1 = 1 then r1\<lparr>popSignal := 0\<rparr> else r1)"

section \<open>OneToOneUniQueue\<close>

record uni_queue =
  theIn :: "32 word"
  theOut :: "32 word"
  theSize :: int
  theMaxItemSize :: "32 word"
  theCapacity :: int
  theBuffer :: bytes

definition OneToOneUniQueue :: "32 word \<Rightarrow> int \<Rightarrow> uni_queue res" where
  "OneToOneUniQueue aMaxItemSize aCapacity =
     (if aMaxItemSize > 0 \<and> aCapacity > 0 then
        Inr \<lparr>theIn = 0, theOut = 0, theSize = 0, theMaxItemSize = aMaxItemSize,
             theCapacity = aCapacity,
             theBuffer = replicate (nat aCapacity * unat aMaxItemSize) 0\<rparr>
      else Inl MustFailed)"

definition Items2Bytes :: "int \<Rightarrow> 32 word \<Rightarrow> int \<Rightarrow> int res" where
  "Items2Bytes sizeofQueue maxItemSize items =
     (if items \<ge> 0 then Inr (to_int32 (sizeofQueue + uint (maxItemSize * word_of_int items)))
      else Inl Assertion)"

definition Bytes2Items :: "int \<Rightarrow> 32 word \<Rightarrow> int \<Rightarrow> int res" where
  "Bytes2Items sizeofQueue maxItemSize bytes =
     (if maxItemSize > 0 then
        let bytes' = to_int32 (bytes - sizeofQueue)
        in Inr (if bytes' \<ge> 0 then bytes' div uint maxItemSize else 0)
      else Inl Assertion)"

definition uq_empty :: "uni_queue \<Rightarrow> bool" where
  "uq_empty q \<longleftrightarrow> theSize q = 0"

definition uq_full :: "uni_queue \<Rightarrow> bool" where
  "uq_full q \<longleftrightarrow> theSize q = theCapacity q"

definition uq_pos :: "uni_queue \<Rightarrow> 32 word \<Rightarrow> nat" where
  "uq_pos q index = unat ((index mod word_of_int (theCapacity q)) * theMaxItemSize q)"

definition uq_store :: "uni_queue \<Rightarrow> bytes \<Rightarrow> uni_queue" where
  "uq_store q value =
     (let pos = uq_pos q (theIn q)
      in q\<lparr>theIn := theIn q + 1,
           theBuffer := take pos (theBuffer q) @ value @ drop (pos + length value) (theBuffer q)\<rparr>)"

definition uq_load :: "nat \<Rightarrow> uni_queue \<Rightarrow> bytes" where
  "uq_load sz q = take sz (drop (uq_pos q (theOut q)) (theBuffer q))"

definition uq_pop :: "nat \<Rightarrow> uni_queue \<Rightarrow> queue_reader option \<Rightarrow>
    (bytes option \<times> uni_queue \<times> queue_reader option) res" where
  "uq_pop sz q reader =
     (if sz > unat (theMaxItemSize q) then Inl ItemTooLarge
      else if uq_empty q \<and> reader = None then Inr (None, q, reader)
      else let reader1 = (if uq_empty q then map_option qr_block reader else reader)
      in if uq_empty q then Inr (None, q, reader1)
      else let reader2 = map_option qr_unblock reader1;
               value = uq_load sz q;
               q1 = q\<lparr>theOut := theOut q + 1, theSize := theSize q - 1\<rparr>
      in Inr (Some value, q1, reader2))"

definition uq_peek :: "nat \<Rightarrow> uni_queue \<Rightarrow> bytes option res" where
  "uq_peek sz q =
     (if sz > unat (theMaxItemSize q) then Inl ItemTooLarge
      else if uq_empty q then Inr None
      else Inr (Some (uq_load sz q)))"

definition uq_push :: "uni_queue \<Rightarrow> bytes \<Rightarrow> queue_reader option \<Rightarrow>
    (bool \<times> uni_queue \<times> queue_reader option) res" where
  "uq_push q value reader =
     (if length value > unat (theMaxItemSize q) then Inl ItemTooLarge
      else if uq_full q then Inl Full
      else let wasEmpty = uq_empty q;
               q1 = uq_store q value;
               q2 = q1\<lparr>theSize := theSize q1 + 1\<rparr>
      in if \<not> wasEmpty then Inr (False, q2, reader)
         else case reader of
           None \<Rightarrow> Inr (True, q2, None)
         | Some r \<Rightarrow> (let (raised, r1) = raiseSignal r in Inr (raised, q2, Some r1)))"

section \<open>The ring as a list\<close>

text \<open>
  \<open>uq_item sz q k\<close> is the item at distance \<open>k\<close> from the read index, \<open>uq_contents\<close> the queue
  from its oldest to its newest item. \<open>uq_wf\<close> is the representation invariant; it asks the
  capacity to divide \<open>2 ^ 32\<close>, as the only capacity in use (1024, IpcIoFile.cc) does.
\<close>

definition uq_geometry :: "uni_queue \<Rightarrow> bool" where
  "uq_geometry q \<longleftrightarrow> 0 < theMaxItemSize q \<and> 0 < theCapacity q \<and>
     theCapacity q * uint (theMaxItemSize q) < 2 ^ 31 \<and>
     length (theBuffer q) = nat (theCapacity q) * unat (theMaxItemSize q)"

definition uq_item :: "nat \<Rightarrow> uni_queue \<Rightarrow> nat \<Rightarrow> bytes" where
  "uq_item sz q k = uq_load sz (q\<lparr>theOut := theOut q + of_nat k\<rparr>)"

definition uq_contents :: "nat \<Rightarrow> uni_queue \<Rightarrow> bytes list" where
  "uq_contents sz q = map (uq_item sz q) [0..<nat (theSize q)]"

definition uq_wf :: "nat \<Rightarrow> uni_queue \<Rightarrow> bool" where
  "uq_wf sz q \<longleftrightarrow> uq_geometry q \<and> sz \<le> unat (theMaxItemSize q) \<and>
     theCapacity q dvd 2 ^ 32 \<and>
     0 \<le> theSize q \<and> theSize q \<le> theCapacity q \<and> theIn q = theOut q + word_of_int (theSize q)"

section \<open>Ring arithmetic\<close>

lemma uq_geometry_capacity:
  assumes "uq_geometry q"
  shows "theCapacity q < 2 ^ 31" and "uint (word_of_int (theCapacity q) :: 32 word) = theCapacity q"
proof -
  have "1 \<le> uint (theMaxItemSize q)" "0 < theCapacity q"
    "theCapacity q * uint (theMaxItemSize q) < 2 ^ 31"
    using assms by (auto simp: uq_geometry_def word_less_def)
  then have "theCapacity q * 1 \<le> theCapacity q * uint (theMaxItemSize q)"
    by (intro mult_left_mono) auto
  then show 1: "theCapacity q < 2 ^ 31"
    using \<open>theCapacity q * uint (theMaxItemSize q) < 2 ^ 31\<close> by simp
  show "uint (word_of_int (theCapacity q) :: 32 word) = theCapacity q"
    using 1 \<open>0 < theCapacity q\<close> by (simp add: uint_word_of_int)
qed

lemma uq_pos_eq:
  assumes "uq_geometry q"
  shows "uq_pos q i = (unat i mod nat (theCapacity q)) * unat (theMaxItemSize q)"
proof -
  let ?c = "word_of_int (theCapacity q) :: 32 word"
  have c: "unat ?c = nat (theCapacity q)"
    using uq_geometry_capacity [OF assms] by (simp add: unat_eq_nat_uint)
  have pos: "0 < nat (theCapacity q)" using assms by (simp add: uq_geometry_def)
  have m: "unat (i mod ?c) = unat i mod nat (theCapacity q)"
    by (simp add: unat_mod_distrib c)
  have "int (nat (theCapacity q) * unat (theMaxItemSize q)) < 2 ^ 31"
    using assms by (simp add: uq_geometry_def)
  moreover have "int n < 2 ^ 31 \<Longrightarrow> n < 2 ^ 31" for n by simp
  ultimately have "nat (theCapacity q) * unat (theMaxItemSize q) < 2 ^ 31" by blast
  moreover have "(unat i mod nat (theCapacity q)) * unat (theMaxItemSize q)
      \<le> nat (theCapacity q) * unat (theMaxItemSize q)"
    using pos by (intro mult_right_mono) (auto intro: less_imp_le)
  ultimately have "(unat i mod nat (theCapacity q)) * unat (theMaxItemSize q) < 2 ^ 31"
    by (rule le_less_trans [rotated])
  then have "unat (i mod ?c) * unat (theMaxItemSize q) < 2 ^ 32"
    unfolding m by (rule less_trans) simp
  then have "unat ((i mod ?c) * theMaxItemSize q) = unat (i mod ?c) * unat (theMaxItemSize q)"
    using unat_mult_lem [of "i mod ?c" "theMaxItemSize q"] by simp
  then show ?thesis by (simp only: uq_pos_def m)
qed


lemma uq_pos_add:
  assumes "uq_geometry q" and "theCapacity q dvd 2 ^ 32"
  shows "uq_pos q (i + of_nat k) = ((unat i + k) mod nat (theCapacity q)) * unat (theMaxItemSize q)"
proof -
  have "int (nat (theCapacity q)) dvd int (2 ^ 32)"
    using assms by (simp add: uq_geometry_def)
  then have d: "nat (theCapacity q) dvd 2 ^ 32" by (simp only: of_nat_dvd_iff)
  have "unat (i + of_nat k) = (unat i + k) mod 2 ^ 32"
    by (simp add: unat_word_ariths unat_of_nat mod_add_right_eq)
  then have "unat (i + of_nat k) mod nat (theCapacity q) = (unat i + k) mod nat (theCapacity q)"
    using d by (simp add: mod_mod_cancel)
  then show ?thesis by (simp add: uq_pos_eq [OF assms(1)])
qed

text \<open>Distinct slots of the ring do not overlap.\<close>

lemma slot_read_same:
  assumes "p + length v \<le> length buf"
  shows "take (length v) (drop p (take p buf @ v @ drop (p + length v) buf)) = v"
  using assms by simp

lemma slot_read_other:
  fixes a b M :: nat
  assumes "a \<noteq> b" and "sz \<le> M" and "length v \<le> M" and "b * M + length v \<le> length buf"
  shows "take sz (drop (a * M) (take (b * M) buf @ v @ drop (b * M + length v) buf)) =
    take sz (drop (a * M) buf)"
proof (cases "a < b")
  case True
  then have "Suc a * M \<le> b * M" by (intro mult_right_mono) auto
  moreover have "a * M \<le> b * M" using True by (intro mult_right_mono) auto
  ultimately have le: "sz \<le> b * M - a * M" "a * M \<le> b * M" using assms(2) by auto
  define xs where "xs = take (b * M) buf"
  have len: "length xs = b * M" using assms(4) by (simp add: xs_def)
  have "take sz (drop (a * M) (xs @ v @ drop (b * M + length v) buf)) = take sz (drop (a * M) xs)"
    using le by (simp add: len)
  also have "\<dots> = take sz (drop (a * M) buf)"
    using le by (simp add: xs_def drop_take min_absorb1)
  finally show ?thesis by (simp add: xs_def)
next
  case False
  with assms(1) have "Suc b * M \<le> a * M" by (intro mult_right_mono) auto
  then have le: "b * M + length v \<le> a * M" using assms(3) by simp
  then have "drop (a * M) (take (b * M) buf) = []" by simp
  moreover have "drop (a * M - b * M - length v) (drop (b * M + length v) buf) = drop (a * M) buf"
    using le by simp
  ultimately show ?thesis using assms(4) le by (simp add: min_absorb2 del: drop_eq_Nil)
qed

lemma mod_slots_distinct:
  fixes c :: nat
  assumes "j < n" and "n < c"
  shows "(x + j) mod c \<noteq> (x + n) mod c"
proof
  assume "(x + j) mod c = (x + n) mod c"
  then have "c dvd (x + n) - (x + j)"
    using assms(1) by (metis add_le_cancel_left less_imp_le mod_eq_dvd_iff_nat)
  then have "c dvd n - j" by simp
  then show False using assms by (auto dest: dvd_imp_le)
qed

lemma uq_pos_bound:
  assumes "uq_geometry q"
  shows "uq_pos q i + unat (theMaxItemSize q) \<le> length (theBuffer q)"
proof -
  have "Suc (unat i mod nat (theCapacity q)) * unat (theMaxItemSize q)
      \<le> nat (theCapacity q) * unat (theMaxItemSize q)"
    using assms by (intro mult_right_mono) (auto simp: uq_geometry_def Suc_le_eq)
  then show ?thesis using assms by (simp add: uq_pos_eq uq_geometry_def)
qed

lemma uq_store_simps [simp]:
  "theOut (uq_store q v) = theOut q" "theSize (uq_store q v) = theSize q"
  "theMaxItemSize (uq_store q v) = theMaxItemSize q" "theCapacity (uq_store q v) = theCapacity q"
  "theIn (uq_store q v) = theIn q + 1" "uq_pos (uq_store q v) i = uq_pos q i"
  by (simp_all add: uq_store_def uq_pos_def Let_def)

lemma uq_pos_simps [simp]:
  "uq_pos (q\<lparr>theOut := o1\<rparr>) i = uq_pos q i" "uq_pos (q\<lparr>theSize := n\<rparr>) i = uq_pos q i"
  by (simp_all add: uq_pos_def)

lemma uq_geometry_store:
  assumes "uq_geometry q" and "length v \<le> unat (theMaxItemSize q)"
  shows "uq_geometry (uq_store q v)"
  using assms uq_pos_bound [OF assms(1), of "theIn q"]
  by (simp add: uq_geometry_def uq_store_def Let_def)

lemma uq_geometry_simps [simp]:
  "uq_geometry (q\<lparr>theOut := o1\<rparr>) = uq_geometry q" "uq_geometry (q\<lparr>theSize := n\<rparr>) = uq_geometry q"
  by (simp_all add: uq_geometry_def)

lemma uq_item_eq: "uq_item sz q k = take sz (drop (uq_pos q (theOut q + of_nat k)) (theBuffer q))"
  by (simp add: uq_item_def uq_load_def)

lemma uq_store_buffer:
  "theBuffer (uq_store q v) = take (uq_pos q (theIn q)) (theBuffer q) @ v @
     drop (uq_pos q (theIn q) + length v) (theBuffer q)"
  by (simp add: uq_store_def Let_def)

lemma uq_load_store:
  assumes g: "uq_geometry q" and d: "theCapacity q dvd 2 ^ 32"
    and v: "length v = sz" "sz \<le> unat (theMaxItemSize q)"
    and ix: "theIn q = theOut q + of_nat n" "k \<le> n" "n < nat (theCapacity q)"
  shows "uq_item sz (uq_store q v) k = (if k = n then v else uq_item sz q k)"
proof -
  let ?M = "unat (theMaxItemSize q)" and ?c = "nat (theCapacity q)" and ?o = "unat (theOut q)"
  have p: "uq_pos q (theIn q) = ((?o + n) mod ?c) * ?M"
    unfolding ix(1) by (rule uq_pos_add [OF g d])
  have r: "uq_pos q (theOut q + of_nat k) = ((?o + k) mod ?c) * ?M"
    by (rule uq_pos_add [OF g d])
  have b: "((?o + n) mod ?c) * ?M + length v \<le> length (theBuffer q)"
    using uq_pos_bound [OF g, of "theIn q"] v p by simp
  have e: "uq_item sz (uq_store q v) k = take sz (drop (((?o + k) mod ?c) * ?M)
      (take (((?o + n) mod ?c) * ?M) (theBuffer q) @ v @
       drop (((?o + n) mod ?c) * ?M + length v) (theBuffer q)))"
    by (simp only: uq_item_eq uq_store_simps uq_store_buffer p r)
  show ?thesis
  proof (cases "k = n")
    case True
    note same = slot_read_same [OF b, unfolded v(1)]
    from e have "uq_item sz (uq_store q v) n = v" unfolding True v(1) by (simp only: same)
    with True show ?thesis by simp
  next
    case False
    then have "(?o + k) mod ?c \<noteq> (?o + n) mod ?c" using ix by (intro mod_slots_distinct) auto
    from slot_read_other [OF this v(2) _ b] v(2)
    have "uq_item sz (uq_store q v) k = take sz (drop (((?o + k) mod ?c) * ?M) (theBuffer q))"
      unfolding e by (simp only: v(1))
    then show ?thesis using False by (simp add: uq_item_eq r)
  qed
qed


section \<open>The contract of a bounded queue\<close>

text \<open>
  What the users of a queue rely on, over the list \<open>contents q\<close> of its items. \<open>is_item\<close> says
  which values may be pushed.
\<close>

locale bounded_fifo =
  fixes wf :: "'q \<Rightarrow> bool" and contents :: "'q \<Rightarrow> 'v list" and capacity :: "'q \<Rightarrow> nat"
    and is_item :: "'q \<Rightarrow> 'v \<Rightarrow> bool" and push :: "'q \<Rightarrow> 'v \<Rightarrow> 'q option"
    and pop :: "'q \<Rightarrow> ('v \<times> 'q) option"
  assumes bounded: "wf q \<Longrightarrow> length (contents q) \<le> capacity q"
    and push_some: "wf q \<Longrightarrow> is_item q v \<Longrightarrow> length (contents q) < capacity q \<Longrightarrow>
      \<exists>q'. push q v = Some q' \<and> wf q' \<and> contents q' = contents q @ [v] \<and>
        capacity q' = capacity q \<and> is_item q' = is_item q"
    and push_full: "wf q \<Longrightarrow> length (contents q) = capacity q \<Longrightarrow> push q v = None"
    and pop_some: "wf q \<Longrightarrow> contents q = v # vs \<Longrightarrow>
      \<exists>q'. pop q = Some (v, q') \<and> wf q' \<and> contents q' = vs \<and>
        capacity q' = capacity q \<and> is_item q' = is_item q"
    and pop_none: "wf q \<Longrightarrow> contents q = [] \<Longrightarrow> pop q = None"
begin

fun push_all :: "'q \<Rightarrow> 'v list \<Rightarrow> 'q option" where
  "push_all q [] = Some q"
| "push_all q (v # vs) = Option.bind (push q v) (\<lambda>q'. push_all q' vs)"

fun pop_all :: "nat \<Rightarrow> 'q \<Rightarrow> 'v list" where
  "pop_all 0 q = []"
| "pop_all (Suc n) q = (case pop q of None \<Rightarrow> [] | Some (v, q') \<Rightarrow> v # pop_all n q')"

lemma push_all_some:
  "wf q \<Longrightarrow> (\<forall>v \<in> set vs. is_item q v) \<Longrightarrow> length (contents q) + length vs \<le> capacity q \<Longrightarrow>
   \<exists>q'. push_all q vs = Some q' \<and> wf q' \<and> contents q' = contents q @ vs"
proof (induction vs arbitrary: q)
  case Nil
  then show ?case by simp
next
  case (Cons v vs)
  then obtain q1 where q1: "push q v = Some q1" "wf q1" "contents q1 = contents q @ [v]"
      "capacity q1 = capacity q" "is_item q1 = is_item q"
    using push_some [of q v] by auto
  with Cons.IH [of q1] Cons.prems show ?case by auto
qed

lemma pop_all_contents: "wf q \<Longrightarrow> pop_all n q = take n (contents q)"
proof (induction n arbitrary: q)
  case 0
  then show ?case by simp
next
  case (Suc n)
  show ?case
  proof (cases "contents q")
    case Nil
    with Suc.prems show ?thesis by (simp add: pop_none)
  next
    case (Cons v vs)
    from pop_some [OF Suc.prems Cons] Suc.IH Cons show ?thesis by auto
  qed
qed

text \<open>First in, first out: what is pushed comes out after what was there, in order.\<close>

lemma fifo:
  assumes "wf q" and "\<forall>v \<in> set vs. is_item q v" and "length (contents q) + length vs \<le> capacity q"
  shows "\<exists>q'. push_all q vs = Some q' \<and>
    pop_all (length (contents q) + length vs) q' = contents q @ vs"
proof -
  from push_all_some [OF assms] obtain q'
    where "push_all q vs = Some q'" "wf q'" "contents q' = contents q @ vs" by blast
  then show ?thesis using pop_all_contents [of q' "length (contents q) + length vs"] by simp
qed

end

lemma uq_wf_in:
  "uq_wf sz q \<Longrightarrow> theIn q = theOut q + of_nat (nat (theSize q))"
  by (simp add: uq_wf_def)

lemma uq_contents_length: "uq_wf sz q \<Longrightarrow> length (uq_contents sz q) = nat (theSize q)"
  by (simp add: uq_contents_def)

lemma uq_item_size [simp]: "uq_item sz (q\<lparr>theSize := n\<rparr>) k = uq_item sz q k"
  by (simp add: uq_item_eq)

lemma uq_push_contents:
  assumes wf: "uq_wf sz q" and v: "length v = sz" and room: "theSize q < theCapacity q"
  defines "q' \<equiv> (uq_store q v)\<lparr>theSize := theSize q + 1\<rparr>"
  shows "uq_wf sz q'" and "uq_contents sz q' = uq_contents sz q @ [v]"
proof -
  have g: "uq_geometry q" and d: "theCapacity q dvd 2 ^ 32" and sz: "sz \<le> unat (theMaxItemSize q)"
    and s0: "0 \<le> theSize q"
    using wf by (auto simp: uq_wf_def)
  show "uq_wf sz q'"
    using wf v room uq_geometry_store [OF g, of v]
    by (auto simp: uq_wf_def q'_def algebra_simps)
  have n: "nat (theSize q) < nat (theCapacity q)" using room s0 by simp
  have it: "k \<le> nat (theSize q) \<Longrightarrow>
      uq_item sz q' k = (if k = nat (theSize q) then v else uq_item sz q k)" for k
    unfolding q'_def
    using uq_load_store [OF g d v sz uq_wf_in [OF wf] _ n] by simp
  have "nat (theSize q') = Suc (nat (theSize q))" using s0 by (simp add: q'_def nat_add_distrib)
  then show "uq_contents sz q' = uq_contents sz q @ [v]"
    using it by (simp add: uq_contents_def)
qed

lemma uq_pop_contents:
  assumes wf: "uq_wf sz q" and ne: "theSize q \<noteq> 0"
  defines "q' \<equiv> q\<lparr>theOut := theOut q + 1, theSize := theSize q - 1\<rparr>"
  shows "uq_wf sz q'" and "uq_contents sz q = uq_load sz q # uq_contents sz q'"
proof -
  have s: "1 \<le> theSize q" using wf ne by (auto simp: uq_wf_def)
  show "uq_wf sz q'" using wf s by (auto simp: uq_wf_def q'_def)
  have it: "uq_item sz q' k = uq_item sz q (Suc k)" for k
    by (simp add: uq_item_eq q'_def add.assoc)
  have n: "nat (theSize q) = Suc (nat (theSize q'))" using s by (simp add: q'_def)
  show "uq_contents sz q = uq_load sz q # uq_contents sz q'"
    unfolding uq_contents_def n
    by (simp add: upt_conv_Cons map_Suc_upt [symmetric] it del: upt_Suc) (simp add: uq_item_def)
qed

text \<open>The queue without a reader, as the contract sees it.\<close>

definition uq_push_opt :: "uni_queue \<Rightarrow> bytes \<Rightarrow> uni_queue option" where
  "uq_push_opt q v = (case uq_push q v None of Inl _ \<Rightarrow> None | Inr (_, q', _) \<Rightarrow> Some q')"

definition uq_pop_opt :: "nat \<Rightarrow> uni_queue \<Rightarrow> (bytes \<times> uni_queue) option" where
  "uq_pop_opt sz q = (case uq_pop sz q None of
      Inr (Some v, q', _) \<Rightarrow> Some (v, q') | _ \<Rightarrow> None)"

interpretation uq: bounded_fifo "uq_wf sz" "uq_contents sz" "\<lambda>q. nat (theCapacity q)"
  "\<lambda>q v. length v = sz" uq_push_opt "uq_pop_opt sz" for sz
proof (unfold_locales, goal_cases)
  case (1 q)
  then show ?case by (auto simp: uq_contents_length uq_wf_def)
next
  case (2 q v)
  then have room: "theSize q < theCapacity q" by (simp add: uq_contents_length)
  from 2(1) have "length v \<le> unat (theMaxItemSize q)" using 2(2) by (simp add: uq_wf_def)
  with uq_push_contents [OF 2(1,2) room] room show ?case
    by (simp add: uq_push_opt_def uq_push_def uq_full_def Let_def)
next
  case (3 q v)
  then have "theSize q = theCapacity q" by (auto simp: uq_contents_length uq_wf_def)
  then show ?case by (simp add: uq_push_opt_def uq_push_def uq_full_def)
next
  case (4 q v vs)
  then have ne: "theSize q \<noteq> 0" by (auto simp: uq_contents_def)
  have "sz \<le> unat (theMaxItemSize q)" using 4(1) by (simp add: uq_wf_def)
  with uq_pop_contents [OF 4(1) ne] 4(2) ne show ?case
    by (simp add: uq_pop_opt_def uq_pop_def uq_empty_def Let_def)
next
  case (5 q)
  then have "theSize q = 0" by (auto simp: uq_contents_def uq_wf_def)
  then show ?case using 5(1) by (simp add: uq_pop_opt_def uq_pop_def uq_empty_def uq_wf_def)
qed


section \<open>Writer and reader interleaved\<close>

text \<open>
  One writer runs \<^verbatim>\<open>push(value, reader)\<close> in a loop, one reader runs \<^verbatim>\<open>pop(value, reader)\<close> until
  it fails, then waits for a notification and calls \<^verbatim>\<open>clearSignal()\<close>. Every rule is one access
  to a shared word (\<^verbatim>\<open>theSize\<close>, \<^verbatim>\<open>popBlocked\<close>, \<^verbatim>\<open>popSignal\<close>) or a private copy. \<open>us_notes\<close> counts
  the notifications in transit; \<open>us_log\<close> and \<open>us_popped\<close> record what was copied into the
  queue and what the reader got.

  Writer: \<open>WChk v\<close> found the queue not full, \<open>WCopy v e\<close> also read whether it was empty,
  \<open>WInc e\<close> copied the value, \<open>WSig\<close> is about to test \<^verbatim>\<open>blocked()\<close>, \<open>WRaise\<close> is about to set
  the signal. Reader: \<open>RBlock\<close> found the queue empty, \<open>RRetest\<close> has blocked and tests again,
  \<open>RUnblock\<close> found an item, \<open>RCopy\<close> is about to copy it, \<open>RDec v\<close> copied it, \<open>RWait\<close> has
  returned false, \<open>RClear\<close> is inside \<^verbatim>\<open>clearSignal()\<close> after unblocking.
\<close>

datatype uq_wpc = WIdle | WChk bytes | WCopy bytes bool | WInc bool | WSig | WRaise

datatype uq_rpc = RIdle | RBlock | RRetest | RUnblock | RCopy | RDec bytes | RWait | RClear

record uq_sys =
  us_q :: uni_queue
  us_reader :: queue_reader
  us_w :: uq_wpc
  us_r :: uq_rpc
  us_notes :: nat
  us_log :: "bytes list"
  us_popped :: "bytes list"

inductive uq_step :: "nat \<Rightarrow> uq_sys \<Rightarrow> uq_sys \<Rightarrow> bool" for sz :: nat where
  w_notfull: "us_w s = WIdle \<Longrightarrow> length v = sz \<Longrightarrow> \<not> uq_full (us_q s) \<Longrightarrow>
     uq_step sz s (s\<lparr>us_w := WChk v\<rparr>)"
| w_wasEmpty: "us_w s = WChk v \<Longrightarrow> uq_step sz s (s\<lparr>us_w := WCopy v (uq_empty (us_q s))\<rparr>)"
| w_copy: "us_w s = WCopy v e \<Longrightarrow>
     uq_step sz s (s\<lparr>us_w := WInc e, us_q := uq_store (us_q s) v, us_log := us_log s @ [v]\<rparr>)"
| w_inc: "us_w s = WInc e \<Longrightarrow>
     uq_step sz s (s\<lparr>us_w := if e then WSig else WIdle,
                      us_q := (us_q s)\<lparr>theSize := theSize (us_q s) + 1\<rparr>\<rparr>)"
| w_blocked: "us_w s = WSig \<Longrightarrow>
     uq_step sz s (s\<lparr>us_w := if qr_blocked (us_reader s) then WRaise else WIdle\<rparr>)"
| w_raise: "us_w s = WRaise \<Longrightarrow> popSignal (us_reader s) = 0 \<Longrightarrow>
     uq_step sz s (s\<lparr>us_w := WIdle, us_reader := (us_reader s)\<lparr>popSignal := 1\<rparr>,
                      us_notes := us_notes s + 1\<rparr>)"
| w_raised: "us_w s = WRaise \<Longrightarrow> popSignal (us_reader s) \<noteq> 0 \<Longrightarrow> uq_step sz s (s\<lparr>us_w := WIdle\<rparr>)"
| r_test: "us_r s = RIdle \<Longrightarrow>
     uq_step sz s (s\<lparr>us_r := if uq_empty (us_q s) then RBlock else RUnblock\<rparr>)"
| r_block: "us_r s = RBlock \<Longrightarrow>
     uq_step sz s (s\<lparr>us_r := RRetest, us_reader := qr_block (us_reader s)\<rparr>)"
| r_retest: "us_r s = RRetest \<Longrightarrow>
     uq_step sz s (s\<lparr>us_r := if uq_empty (us_q s) then RWait else RUnblock\<rparr>)"
| r_unblock: "us_r s = RUnblock \<Longrightarrow>
     uq_step sz s (s\<lparr>us_r := RCopy, us_reader := qr_unblock (us_reader s)\<rparr>)"
| r_copy: "us_r s = RCopy \<Longrightarrow>
     uq_step sz s (s\<lparr>us_r := RDec (uq_load sz (us_q s)),
                      us_q := (us_q s)\<lparr>theOut := theOut (us_q s) + 1\<rparr>\<rparr>)"
| r_dec: "us_r s = RDec v \<Longrightarrow>
     uq_step sz s (s\<lparr>us_r := RIdle, us_q := (us_q s)\<lparr>theSize := theSize (us_q s) - 1\<rparr>,
                      us_popped := us_popped s @ [v]\<rparr>)"
| r_notified: "us_r s = RWait \<Longrightarrow> 0 < us_notes s \<Longrightarrow>
     uq_step sz s (s\<lparr>us_r := RClear, us_notes := us_notes s - 1,
                      us_reader := qr_unblock (us_reader s)\<rparr>)"
| r_clear: "us_r s = RClear \<Longrightarrow>
     uq_step sz s (s\<lparr>us_r := RIdle, us_reader :=
        (if popSignal (us_reader s) = 1 then (us_reader s)\<lparr>popSignal := 0\<rparr> else us_reader s)\<rparr>)"

definition uq_start :: "nat \<Rightarrow> uq_sys \<Rightarrow> bool" where
  "uq_start sz s \<longleftrightarrow> (\<exists>M c q. OneToOneUniQueue M c = Inr q \<and> c * uint M < 2 ^ 31 \<and>
     c dvd 2 ^ 32 \<and> sz \<le> unat M \<and>
     s = \<lparr>us_q = q, us_reader = QueueReader, us_w = WIdle, us_r = RWait, us_notes = 0,
          us_log = [], us_popped = []\<rparr>)"

text \<open>
  The invariant ties the shared size to the two private indices: a copied but not yet counted
  item (\<open>WInc\<close>) and a read but not yet discounted one (\<open>RDec\<close>) make the difference.
\<close>

definition w_ahead :: "uq_wpc \<Rightarrow> nat" where
  "w_ahead w = (case w of WInc _ \<Rightarrow> 1 | _ \<Rightarrow> 0)"

definition r_ahead :: "uq_rpc \<Rightarrow> nat" where
  "r_ahead r = (case r of RDec _ \<Rightarrow> 1 | _ \<Rightarrow> 0)"

definition us_read :: "uq_sys \<Rightarrow> nat" where
  "us_read s = length (us_popped s) + r_ahead (us_r s)"

definition uq_sys_inv :: "nat \<Rightarrow> uq_sys \<Rightarrow> bool" where
  "uq_sys_inv sz s \<longleftrightarrow>
     (let q = us_q s; n = length (us_log s); k = us_read s in
      uq_geometry q \<and> theCapacity q dvd 2 ^ 32 \<and> sz \<le> unat (theMaxItemSize q) \<and>
      theOut q = of_nat k \<and> theIn q = of_nat n \<and> k \<le> n \<and>
      theSize q = int n - int (w_ahead (us_w s)) - int k + int (r_ahead (us_r s)) \<and>
      n - k + r_ahead (us_r s) \<le> nat (theCapacity q) \<and>
      (\<forall>v e. us_w s = WChk v \<or> us_w s = WCopy v e \<longrightarrow>
         length v = sz \<and> theSize q < theCapacity q) \<and>
      0 \<le> theSize q \<and>
      (\<forall>v. us_r s = RUnblock \<or> us_r s = RCopy \<or> us_r s = RDec v \<longrightarrow> 0 < theSize q) \<and>
      (\<forall>j < n - k. uq_item sz q j = us_log s ! (k + j)) \<and>
      take (length (us_popped s)) (us_log s) = us_popped s \<and>
      (\<forall>v. us_r s = RDec v \<longrightarrow> v = us_log s ! length (us_popped s)))"


lemma uq_start_inv: "uq_start sz s \<Longrightarrow> uq_sys_inv sz s"
  by (auto simp: uq_start_def OneToOneUniQueue_def uq_sys_inv_def us_read_def w_ahead_def r_ahead_def
      uq_geometry_def split: if_splits)

lemma uq_step_inv_copy:
  assumes inv: "uq_sys_inv sz s" and w: "us_w s = WCopy v e"
  shows "uq_sys_inv sz (s\<lparr>us_w := WInc e, us_q := uq_store (us_q s) v, us_log := us_log s @ [v]\<rparr>)"
proof -
  let ?q = "us_q s" and ?n = "length (us_log s)" and ?k = "us_read s"
  have g: "uq_geometry ?q" and d: "theCapacity ?q dvd 2 ^ 32" and sz: "sz \<le> unat (theMaxItemSize ?q)"
    and v: "length v = sz" and room: "theSize ?q < theCapacity ?q" and le: "?k \<le> ?n"
    and size: "theSize ?q = int ?n - int ?k + int (r_ahead (us_r s))"
    using inv w by (auto simp: uq_sys_inv_def Let_def w_ahead_def)
  have lt: "?n - ?k < nat (theCapacity ?q)" using room size le by linarith
  have "theIn ?q = theOut ?q + of_nat (?n - ?k)"
    using inv le by (auto simp: uq_sys_inv_def Let_def simp flip: of_nat_add)
  note it = uq_load_store [OF g d v sz this _ lt]
  have items: "\<forall>j < Suc ?n - ?k. uq_item sz (uq_store ?q v) j = (us_log s @ [v]) ! (?k + j)"
    using inv it le by (auto simp: uq_sys_inv_def Let_def nth_append)
  define q' where "q' = uq_store ?q v"
  have q': "uq_geometry q'" "theIn q' = of_nat (Suc ?n)" "theOut q' = theOut ?q"
    "theSize q' = theSize ?q" "theCapacity q' = theCapacity ?q" "theMaxItemSize q' = theMaxItemSize ?q"
    using inv uq_geometry_store [OF g, of v] v sz by (auto simp: q'_def uq_sys_inv_def Let_def)
  have dec: "\<forall>u. us_r s = RDec u \<longrightarrow> length (us_popped s) < ?n"
    using le by (auto simp: us_read_def r_ahead_def)
  show ?thesis
    using inv w items lt room size q' dec unfolding q'_def [symmetric]
    by (auto simp: uq_sys_inv_def Let_def w_ahead_def us_read_def nth_append)
qed

lemma uq_step_inv_load:
  assumes inv: "uq_sys_inv sz s" and r: "us_r s = RCopy"
  shows "uq_sys_inv sz (s\<lparr>us_r := RDec (uq_load sz (us_q s)),
           us_q := (us_q s)\<lparr>theOut := theOut (us_q s) + 1\<rparr>\<rparr>)"
proof -
  let ?q = "us_q s" and ?n = "length (us_log s)" and ?k = "us_read s"
  have k: "?k = length (us_popped s)" using r by (simp add: us_read_def r_ahead_def)
  have lt: "?k < ?n"
    using inv r by (auto simp: uq_sys_inv_def Let_def r_ahead_def)
  have items: "\<forall>j < ?n - ?k. uq_item sz ?q j = us_log s ! (?k + j)"
    using inv by (simp add: uq_sys_inv_def Let_def)
  then have "uq_item sz ?q 0 = us_log s ! ?k" using lt by simp
  then have v: "uq_load sz ?q = us_log s ! ?k" by (simp add: uq_item_def)
  define q' where "q' = ?q\<lparr>theOut := theOut ?q + 1\<rparr>"
  have "uq_item sz q' j = uq_item sz ?q (Suc j)" for j
    by (simp add: uq_item_eq q'_def add.assoc)
  then have q': "uq_geometry q' = uq_geometry ?q" "theIn q' = theIn ?q" "theOut q' = of_nat (Suc ?k)"
    "theSize q' = theSize ?q" "theCapacity q' = theCapacity ?q" "theMaxItemSize q' = theMaxItemSize ?q"
    "\<forall>j < ?n - Suc ?k. uq_item sz q' j = us_log s ! (Suc ?k + j)"
    using inv items by (auto simp: q'_def uq_sys_inv_def Let_def)
  show ?thesis
    using inv r lt v q' unfolding q'_def [symmetric]
    by (auto simp: uq_sys_inv_def Let_def us_read_def r_ahead_def)
qed

lemma uq_inv_size: "uq_sys_inv sz s \<Longrightarrow> theSize (us_q s) \<le> theCapacity (us_q s)"
  by (auto simp: uq_sys_inv_def Let_def uq_geometry_def)

lemma uq_step_inv: "uq_sys_inv sz s \<Longrightarrow> uq_step sz s t \<Longrightarrow> uq_sys_inv sz t"
proof (erule uq_step.cases)
  fix s' v
  assume "uq_sys_inv sz s" "s = s'" "us_w s' = WIdle" "length v = sz" "\<not> uq_full (us_q s')"
    "t = s'\<lparr>us_w := WChk v\<rparr>"
  then show ?thesis
    using uq_inv_size [of sz s]
    by (auto simp: uq_sys_inv_def Let_def us_read_def w_ahead_def uq_full_def)
next
  fix s' v e
  assume "uq_sys_inv sz s" "s = s'" "us_w s' = WCopy v e"
    "t = s'\<lparr>us_w := WInc e, us_q := uq_store (us_q s') v, us_log := us_log s' @ [v]\<rparr>"
  then show ?thesis by (simp add: uq_step_inv_copy)
next
  fix s'
  assume "uq_sys_inv sz s" "s = s'" "us_r s' = RCopy"
    "t = s'\<lparr>us_r := RDec (uq_load sz (us_q s')), us_q := (us_q s')\<lparr>theOut := theOut (us_q s') + 1\<rparr>\<rparr>"
  then show ?thesis by (simp add: uq_step_inv_load)
next
  fix s' v
  assume "uq_sys_inv sz s" "s = s'" "us_r s' = RDec v"
    "t = s'\<lparr>us_r := RIdle, us_q := (us_q s')\<lparr>theSize := theSize (us_q s') - 1\<rparr>,
      us_popped := us_popped s' @ [v]\<rparr>"
  then show ?thesis
    by (auto simp: uq_sys_inv_def Let_def us_read_def r_ahead_def take_Suc_conv_app_nth)
qed (auto simp: uq_sys_inv_def Let_def us_read_def w_ahead_def r_ahead_def uq_full_def uq_empty_def
    split: uq_wpc.splits uq_rpc.splits if_splits)

interpretation uqs: inductive_invariant "uq_start sz" "uq_step sz" "uq_sys_inv sz" for sz
  by unfold_locales (auto intro: uq_start_inv uq_step_inv)


text \<open>
  An executable schedule: given who moves next (the writer, with the value it pushes when it
  starts a new push, or the reader), the step is determined.
\<close>

fun uq_move :: "nat \<Rightarrow> uq_sys \<Rightarrow> bytes option \<Rightarrow> uq_sys option" where
  "uq_move sz s (Some v) =
     (case us_w s of
        WIdle \<Rightarrow> if length v = sz \<and> \<not> uq_full (us_q s) then Some (s\<lparr>us_w := WChk v\<rparr>) else None
      | WChk u \<Rightarrow> Some (s\<lparr>us_w := WCopy u (uq_empty (us_q s))\<rparr>)
      | WCopy u e \<Rightarrow>
          Some (s\<lparr>us_w := WInc e, us_q := uq_store (us_q s) u, us_log := us_log s @ [u]\<rparr>)
      | WInc e \<Rightarrow> Some (s\<lparr>us_w := if e then WSig else WIdle,
                          us_q := (us_q s)\<lparr>theSize := theSize (us_q s) + 1\<rparr>\<rparr>)
      | WSig \<Rightarrow> Some (s\<lparr>us_w := if qr_blocked (us_reader s) then WRaise else WIdle\<rparr>)
      | WRaise \<Rightarrow> if popSignal (us_reader s) = 0
          then Some (s\<lparr>us_w := WIdle, us_reader := (us_reader s)\<lparr>popSignal := 1\<rparr>,
                        us_notes := us_notes s + 1\<rparr>)
          else Some (s\<lparr>us_w := WIdle\<rparr>))"
| "uq_move sz s None =
     (case us_r s of
        RIdle \<Rightarrow> Some (s\<lparr>us_r := if uq_empty (us_q s) then RBlock else RUnblock\<rparr>)
      | RBlock \<Rightarrow> Some (s\<lparr>us_r := RRetest, us_reader := qr_block (us_reader s)\<rparr>)
      | RRetest \<Rightarrow> Some (s\<lparr>us_r := if uq_empty (us_q s) then RWait else RUnblock\<rparr>)
      | RUnblock \<Rightarrow> Some (s\<lparr>us_r := RCopy, us_reader := qr_unblock (us_reader s)\<rparr>)
      | RCopy \<Rightarrow> Some (s\<lparr>us_r := RDec (uq_load sz (us_q s)),
                          us_q := (us_q s)\<lparr>theOut := theOut (us_q s) + 1\<rparr>\<rparr>)
      | RDec v \<Rightarrow> Some (s\<lparr>us_r := RIdle, us_q := (us_q s)\<lparr>theSize := theSize (us_q s) - 1\<rparr>,
                           us_popped := us_popped s @ [v]\<rparr>)
      | RWait \<Rightarrow> if 0 < us_notes s
          then Some (s\<lparr>us_r := RClear, us_notes := us_notes s - 1,
                        us_reader := qr_unblock (us_reader s)\<rparr>)
          else None
      | RClear \<Rightarrow> Some (s\<lparr>us_r := RIdle, us_reader :=
          (if popSignal (us_reader s) = 1 then (us_reader s)\<lparr>popSignal := 0\<rparr> else us_reader s)\<rparr>))"

fun uq_schedule :: "nat \<Rightarrow> uq_sys \<Rightarrow> bytes option list \<Rightarrow> uq_sys option" where
  "uq_schedule sz s [] = Some s"
| "uq_schedule sz s (a # as) = Option.bind (uq_move sz s a) (\<lambda>t. uq_schedule sz t as)"

lemma uq_move_step: "uq_move sz s a = Some t \<Longrightarrow> uq_step sz s t"
proof (cases a)
  case None
  moreover assume "uq_move sz s a = Some t"
  ultimately show ?thesis
    by (cases "us_r s"; cases "0 < us_notes s")
      (auto split del: if_split intro: uq_step.intros simp del: One_nat_def)
next
  case (Some v)
  moreover assume "uq_move sz s a = Some t"
  ultimately show ?thesis
    by (cases "us_w s"; cases "popSignal (us_reader s) = 0"; cases "length v = sz \<and> \<not> uq_full (us_q s)")
      (auto split del: if_split intro: uq_step.intros simp del: One_nat_def)
qed

lemma uq_schedule_steps: "uq_schedule sz s as = Some t \<Longrightarrow> (uq_step sz)\<^sup>*\<^sup>* s t"
  by (induction as arbitrary: s)
    (auto simp: bind_eq_Some_conv dest: uq_move_step intro: converse_rtranclp_into_rtranclp)

section \<open>A wake-up that never comes\<close>

text \<open>
  The reader has blocked on a queue that is not empty, nobody has signalled it, and the writer
  is between two pushes.
\<close>

definition lost_wakeup :: "uq_sys \<Rightarrow> bool" where
  "lost_wakeup s \<longleftrightarrow> us_r s = RWait \<and> us_notes s = 0 \<and> 0 < theSize (us_q s) \<and>
     us_w s \<noteq> WSig \<and> us_w s \<noteq> WRaise \<and> (\<forall>e. us_w s = WInc e \<longrightarrow> \<not> e) \<and>
     (\<forall>v e. us_w s = WCopy v e \<longrightarrow> \<not> e)"

lemma lost_wakeup_step: "lost_wakeup s \<Longrightarrow> uq_step sz s t \<Longrightarrow> lost_wakeup t \<and> us_popped t = us_popped s"
  by (erule uq_step.cases) (auto simp: lost_wakeup_def uq_empty_def)

lemma lost_wakeup_forever:
  "(uq_step sz)\<^sup>*\<^sup>* s t \<Longrightarrow> lost_wakeup s \<Longrightarrow> lost_wakeup t \<and> us_popped t = us_popped s"
  by (induction rule: rtranclp_induct) (auto dest: lost_wakeup_step)

definition uq_boot :: uq_sys where
  "uq_boot = \<lparr>us_q = projr (OneToOneUniQueue 1 2), us_reader = QueueReader, us_w = WIdle,
     us_r = RWait, us_notes = 0, us_log = [], us_popped = []\<rparr>"

text \<open>
  The first push signals the reader, which clears the signal; the second push reads
  \<^verbatim>\<open>wasEmpty == false\<close> while the first item is still there; the reader then pops it, blocks and
  finds the queue empty twice; only now does the writer count its second item.
\<close>

definition uq_race :: "bytes option list" where
  "uq_race = replicate 6 (Some [1]) @ replicate 2 None @ replicate 2 (Some [2]) @
     replicate 7 None @ replicate 2 (Some [2])"

lemma uq_boot_reach: "reach (uq_start 1) (uq_step 1) uq_boot"
proof (rule reach_init)
  show "uq_start 1 uq_boot"
    unfolding uq_start_def uq_boot_def
    by (rule exI [of _ 1], rule exI [of _ 2], rule exI [of _ "projr (OneToOneUniQueue 1 2)"])
      (simp add: OneToOneUniQueue_def)
qed

definition uq_stuck :: uq_sys where
  "uq_stuck = the (uq_schedule 1 uq_boot uq_race)"

lemma uq_stuck_reach: "reach (uq_start 1) (uq_step 1) uq_stuck"
proof -
  have "uq_schedule 1 uq_boot uq_race \<noteq> None" by code_simp
  then have "uq_schedule 1 uq_boot uq_race = Some uq_stuck" by (auto simp: uq_stuck_def)
  then show ?thesis by (rule reach_steps [OF uq_schedule_steps uq_boot_reach])
qed

lemma uq_stuck_state:
  "us_r uq_stuck = RWait" "us_notes uq_stuck = 0" "0 < theSize (us_q uq_stuck)"
  "us_w uq_stuck = WIdle" "us_popped uq_stuck = [[1]]" "us_log uq_stuck = [[1], [2]]"
  by code_simp+

lemma uq_stuck_lost: "lost_wakeup uq_stuck"
  by (simp add: lost_wakeup_def uq_stuck_state)

section \<open>Wrap-around of the ring indices\<close>

text \<open>
  A queue of capacity 3 after \<open>2 ^ 32 - 1\<close> pushes and as many pops: the next two pushes use the
  slots of indices \<open>2 ^ 32 - 1\<close> and \<open>0\<close>, which are the same slot.
\<close>

fun uq_cycle :: "nat \<Rightarrow> bytes \<Rightarrow> uni_queue \<Rightarrow> uni_queue option" where
  "uq_cycle 0 v q = Some q"
| "uq_cycle (Suc n) v q =
     Option.bind (uq_push_opt q v) (\<lambda>q1. Option.bind (uq_pop_opt (length v) q1)
       (\<lambda>(_, q2). uq_cycle n v q2))"

definition uq_turned :: "32 word \<Rightarrow> uni_queue" where
  "uq_turned i = \<lparr>theIn = i, theOut = i, theSize = 0, theMaxItemSize = 1, theCapacity = 3,
     theBuffer = [0, 0, 0]\<rparr>"

lemma uq_turned_slot: "uq_pos (uq_turned i) i < 3"
proof -
  have "i mod 3 < 3" by (simp add: word_mod_less_divisor)
  then show ?thesis by (simp add: uq_pos_def uq_turned_def word_less_nat_alt)
qed

lemma uq_cycle_turned: "uq_cycle n [0] (uq_turned i) = Some (uq_turned (i + of_nat n))"
proof (induction n arbitrary: i)
  case 0
  then show ?case by simp
next
  case (Suc n)
  have p: "uq_pos (uq_turned i) i = 0 \<or> uq_pos (uq_turned i) i = 1 \<or> uq_pos (uq_turned i) i = 2"
    using uq_turned_slot [of i] by linarith
  have st: "uq_store (uq_turned i) [0] = (uq_turned i)\<lparr>theIn := i + 1\<rparr>"
    using p by (auto simp: uq_store_def uq_turned_def)
  have "uq_push_opt (uq_turned i) [0] = Some ((uq_turned i)\<lparr>theIn := i + 1, theSize := 1\<rparr>)"
    unfolding uq_push_opt_def uq_push_def st
    by (simp add: uq_turned_def uq_full_def uq_empty_def Let_def)
  moreover have "uq_pop_opt 1 ((uq_turned i)\<lparr>theIn := i + 1, theSize := 1\<rparr>) =
      Some (uq_load 1 ((uq_turned i)\<lparr>theIn := i + 1, theSize := 1\<rparr>), uq_turned (i + 1))"
    by (simp add: uq_turned_def uq_pop_opt_def uq_pop_def uq_empty_def)
  ultimately show ?case using Suc [of "i + 1"] by (simp add: add.assoc)
qed

section \<open>Properties\<close>

text \<open>
  C7. \<^verbatim>\<open>push\<close> and \<^verbatim>\<open>pop\<close> implement a bounded first-in first-out list: \<^verbatim>\<open>push\<close> throws \<^verbatim>\<open>Full\<close>
  exactly when the list has \<^verbatim>\<open>theCapacity\<close> items and else appends its value, asking for a
  notification iff the list was empty and the reader (if any) is blocked and not yet signalled;
  \<^verbatim>\<open>pop\<close> returns the oldest item and unblocks the reader, or blocks it when there is none.
\<close>

theorem uq_refines_fifo:
  assumes "uq_wf sz q" and "length v = sz"
  shows "(case uq_push q v reader of
       Inl e \<Rightarrow> e = Full \<and> length (uq_contents sz q) = nat (theCapacity q)
     | Inr (notify, q', reader') \<Rightarrow> length (uq_contents sz q) < nat (theCapacity q) \<and>
         uq_wf sz q' \<and> uq_contents sz q' = uq_contents sz q @ [v] \<and>
         notify = (uq_contents sz q = [] \<and>
           (case reader of None \<Rightarrow> True | Some r \<Rightarrow> qr_blocked r \<and> popSignal r = 0)) \<and>
         reader' = (if notify then map_option (popSignal_update (\<lambda>_. 1)) reader else reader)) \<and>
    (case uq_pop sz q reader of
       Inl e \<Rightarrow> False
     | Inr (None, q', reader') \<Rightarrow>
         uq_contents sz q = [] \<and> q' = q \<and> reader' = map_option qr_block reader
     | Inr (Some u, q', reader') \<Rightarrow> uq_wf sz q' \<and> uq_contents sz q = u # uq_contents sz q' \<and>
         reader' = map_option qr_unblock reader)"
proof -
  have fit: "\<not> length v > unat (theMaxItemSize q)" "\<not> sz > unat (theMaxItemSize q)"
    and cap: "theSize q \<le> theCapacity q" and s0: "0 \<le> theSize q"
    using assms by (auto simp: uq_wf_def)
  have len: "length (uq_contents sz q) = nat (theSize q)" using assms(1) by (rule uq_contents_length)
  have nil: "uq_contents sz q = [] \<longleftrightarrow> theSize q = 0" using len s0 by auto
  show ?thesis
    using uq_push_contents [OF assms] uq_pop_contents [OF assms(1)] fit cap s0 len nil
    by (auto simp: uq_push_def uq_pop_def uq_full_def uq_empty_def raiseSignal_def Let_def
        split: option.splits)
qed

definition uq_demo :: uni_queue where
  "uq_demo = \<lparr>theIn = 1, theOut = - 1, theSize = 2, theMaxItemSize = 2, theCapacity = 4,
     theBuffer = [5, 6, 0, 0, 0, 0, 3, 4]\<rparr>"

lemma uq_demo_wf: "uq_wf 2 uq_demo"
  by (simp add: uq_wf_def uq_geometry_def uq_demo_def)

theorem uq_refines_fifo_witness:
  "uq_contents 2 uq_demo = [[3, 4], [5, 6]] \<and>
   (case uq_push uq_demo [7, 8] None of Inl _ \<Rightarrow> False
    | Inr (_, q', _) \<Rightarrow> uq_contents 2 q' = uq_contents 2 uq_demo @ [[7, 8]])"
proof -
  have "uq_contents 2 uq_demo = [[3, 4], [5, 6]]" by code_simp
  moreover have "theCapacity uq_demo = 4" by (simp add: uq_demo_def)
  ultimately show ?thesis
    using uq_refines_fifo [OF uq_demo_wf, of "[7, 8]" None] by (auto split: sum.splits)
qed

text \<open>
  What is pushed into a new queue, up to its capacity, is popped in the same order; the
  contract \<open>bounded_fifo\<close> carries the proof.
\<close>

theorem uq_new_fifo:
  assumes "OneToOneUniQueue M c = Inr q" and "c * uint M < 2 ^ 31" and "c dvd 2 ^ 32"
    and "sz \<le> unat M" and "\<forall>v \<in> set vs. length v = sz" and "length vs \<le> nat c"
  shows "\<exists>q'. bounded_fifo.push_all uq_push_opt q vs = Some q' \<and>
    bounded_fifo.pop_all (uq_pop_opt sz) (length vs) q' = vs"
proof -
  have wf: "uq_wf sz q" and "theCapacity q = c" and "uq_contents sz q = []"
    using assms(1-4)
    by (auto simp: OneToOneUniQueue_def uq_wf_def uq_geometry_def uq_contents_def split: if_splits)
  with uq.fifo [OF wf, of vs] assms(5,6) show ?thesis by simp
qed

text \<open>
  C8. Under every interleaving of one writer and one reader of a queue whose capacity divides \<open>2 ^ 32\<close>, the
  reader has got a prefix of what the writer copied in, every item whole and in order, and the shared
  size stays between zero and the capacity.
\<close>

theorem uq_interleaved_fifo:
  assumes "reach (uq_start sz) (uq_step sz) s"
  shows "take (length (us_popped s)) (us_log s) = us_popped s \<and>
    0 \<le> theSize (us_q s) \<and> theSize (us_q s) \<le> theCapacity (us_q s)"
  using uqs.reach_inv [OF assms] uq_inv_size [of sz s] unfolding uq_sys_inv_def Let_def by blast

theorem uq_interleaved_fifo_witness:
  "take (length (us_popped uq_stuck)) (us_log uq_stuck) = us_popped uq_stuck \<and>
   us_popped uq_stuck = [[1]] \<and> us_log uq_stuck = [[1], [2]]"
  using uq_interleaved_fifo [OF uq_stuck_reach] by (simp add: uq_stuck_state)

text \<open>
  C9. \<^verbatim>\<open>push\<close> reads \<^verbatim>\<open>wasEmpty\<close> before it counts its item, so a wake-up can be lost: a reachable
  state has an item in the queue, the reader waiting for a notification and none on its way,
  and from there no run, however many items it pushes, makes the reader pop again.
\<close>

theorem uq_push_loses_wakeup:
  "\<exists>s. reach (uq_start 1) (uq_step 1) s \<and> 0 < theSize (us_q s) \<and> us_w s = WIdle \<and>
     Collect ((uq_step 1)\<^sup>*\<^sup>* s) \<subseteq> {t. us_r t = RWait \<and> us_popped t = us_popped s}"
proof (rule exI [of _ uq_stuck], intro conjI subsetI)
  fix t
  assume "t \<in> Collect ((uq_step 1)\<^sup>*\<^sup>* uq_stuck)"
  then show "t \<in> {t. us_r t = RWait \<and> us_popped t = us_popped uq_stuck}"
    using lost_wakeup_forever [OF _ uq_stuck_lost, of 1 t] unfolding lost_wakeup_def by blast
qed (fact uq_stuck_reach uq_stuck_state)+

text \<open>
  The capacity has to divide \<open>2 ^ 32\<close>: in a new queue of capacity 3, after \<open>2 ^ 32 - 1\<close>
  pushes each followed by a pop, the next two pushes share a slot, and the first pop returns the
  second value.
\<close>

theorem uq_wrap_overwrites:
  "OneToOneUniQueue 1 3 = Inr (uq_turned 0) \<and>
   uq_cycle (2 ^ 32 - 1) [0] (uq_turned 0) = Some (uq_turned (- 1)) \<and>
   (case Option.bind (uq_push_opt (uq_turned (- 1)) [1]) (\<lambda>q. uq_push_opt q [2]) of
      None \<Rightarrow> False
    | Some q \<Rightarrow> theSize q = 2 \<and> map_option fst (uq_pop_opt 1 q) = Some [2])"
proof (intro conjI)
  show "OneToOneUniQueue 1 3 = Inr (uq_turned 0)"
    by (simp add: OneToOneUniQueue_def uq_turned_def numeral_eq_Suc)
  show "uq_cycle (2 ^ 32 - 1) [0] (uq_turned 0) = Some (uq_turned (- 1))"
    unfolding uq_cycle_turned by (simp add: uq_turned_def)
  show "case Option.bind (uq_push_opt (uq_turned (- 1)) [1]) (\<lambda>q. uq_push_opt q [2]) of
      None \<Rightarrow> False
    | Some q \<Rightarrow> theSize q = 2 \<and> map_option fst (uq_pop_opt 1 q) = Some [2]"
    by code_simp
qed

end
