(* ===== verification/Ipc_FewToFew.thy ===== *)
theory Ipc_FewToFew
  imports Ipc_Queue
begin

text \<open>
  \<^verbatim>\<open>Ipc::FewToFewBiQueue\<close> (src/ipc/Queue.h, src/ipc/Queue.cc): the queues between two groups of
  processes, one \<^verbatim>\<open>OneToOneUniQueue\<close> per ordered pair of processes of different groups and one
  \<^verbatim>\<open>QueueReader\<close> per process.

  \<open>ftf_shared\<close> is what lives in shared memory, \<open>ftf_local\<close> what each process keeps for itself.
  The group sizes and offsets are numbers of Squid processes, far below the range of \<^verbatim>\<open>int\<close>, so
  they are unbounded integers here. Each operation is one function; the interleaving of the
  processes on one queue is the subject of \<open>Ipc_Queue\<close>.
\<close>

section \<open>Shared and local state\<close>

datatype ftf_group = groupA | groupB

record ftf_metadata =
  theGroupASize :: int
  theGroupAIdOffset :: int
  theGroupBSize :: int
  theGroupBIdOffset :: int

record ftf_shared =
  ftf_meta :: ftf_metadata
  ftf_queues :: "uni_queue list"
  ftf_readers :: "queue_reader list"

record ftf_local =
  theLocalGroup :: ftf_group
  theLocalProcessId :: int
  theLastPopProcessId :: int

definition Metadata :: "int \<Rightarrow> int \<Rightarrow> int \<Rightarrow> int \<Rightarrow> ftf_metadata res" where
  "Metadata aGroupASize aGroupAIdOffset aGroupBSize aGroupBIdOffset =
     res_bind (res_guard (aGroupASize > 0) MustFailed) (\<lambda>_.
     res_bind (res_guard (aGroupBSize > 0) MustFailed) (\<lambda>_.
     Inr \<lparr>theGroupASize = aGroupASize, theGroupAIdOffset = aGroupAIdOffset,
          theGroupBSize = aGroupBSize, theGroupBIdOffset = aGroupBIdOffset\<rparr>))"

definition QueueReaders :: "int \<Rightarrow> queue_reader list res" where
  "QueueReaders aCapacity =
     res_bind (res_guard (aCapacity > 0) MustFailed) (\<lambda>_. Inr (replicate (nat aCapacity) QueueReader))"

fun construct_queues :: "nat \<Rightarrow> 32 word \<Rightarrow> int \<Rightarrow> uni_queue list res" where
  "construct_queues 0 maxItemSize queueCapacity = Inr []"
| "construct_queues (Suc n) maxItemSize queueCapacity =
     res_bind (OneToOneUniQueue maxItemSize queueCapacity) (\<lambda>q.
     res_bind (construct_queues n maxItemSize queueCapacity) (\<lambda>qs. Inr (q # qs)))"

definition OneToOneUniQueues :: "int \<Rightarrow> 32 word \<Rightarrow> int \<Rightarrow> uni_queue list res" where
  "OneToOneUniQueues aCapacity maxItemSize queueCapacity =
     res_bind (res_guard (aCapacity > 0) MustFailed) (\<lambda>_.
     construct_queues (nat aCapacity) maxItemSize queueCapacity)"

definition ftf_Owner :: "int \<Rightarrow> int \<Rightarrow> int \<Rightarrow> int \<Rightarrow> 32 word \<Rightarrow> int \<Rightarrow> ftf_shared res" where
  "ftf_Owner groupASize groupAIdOffset groupBSize groupBIdOffset maxItemSize capacity =
     res_bind (Metadata groupASize groupAIdOffset groupBSize groupBIdOffset) (\<lambda>m.
     res_bind (OneToOneUniQueues (groupASize * groupBSize * 2) maxItemSize capacity) (\<lambda>qs.
     res_bind (QueueReaders (groupASize + groupBSize)) (\<lambda>rs.
     Inr \<lparr>ftf_meta = m, ftf_queues = qs, ftf_readers = rs\<rparr>)))"

definition MaxItemsCount :: "int \<Rightarrow> int \<Rightarrow> int \<Rightarrow> int" where
  "MaxItemsCount groupASize groupBSize capacity = capacity * groupASize * groupBSize * 2"

section \<open>Indices\<close>

definition remoteGroup :: "ftf_local \<Rightarrow> ftf_group" where
  "remoteGroup lc = (if theLocalGroup lc = groupA then groupB else groupA)"

definition remoteGroupSize :: "ftf_metadata \<Rightarrow> ftf_local \<Rightarrow> int" where
  "remoteGroupSize m lc = (if theLocalGroup lc = groupA then theGroupBSize m else theGroupASize m)"

definition remoteGroupIdOffset :: "ftf_metadata \<Rightarrow> ftf_local \<Rightarrow> int" where
  "remoteGroupIdOffset m lc =
     (if theLocalGroup lc = groupA then theGroupBIdOffset m else theGroupAIdOffset m)"

fun validProcessId :: "ftf_metadata \<Rightarrow> ftf_group \<Rightarrow> int \<Rightarrow> bool" where
  "validProcessId m groupA processId \<longleftrightarrow>
     theGroupAIdOffset m \<le> processId \<and> processId < theGroupAIdOffset m + theGroupASize m"
| "validProcessId m groupB processId \<longleftrightarrow>
     theGroupBIdOffset m \<le> processId \<and> processId < theGroupBIdOffset m + theGroupBSize m"

definition oneToOneQueueIndex ::
    "ftf_metadata \<Rightarrow> ftf_group \<Rightarrow> int \<Rightarrow> ftf_group \<Rightarrow> int \<Rightarrow> int res" where
  "oneToOneQueueIndex m fromGroup fromProcessId toGroup toProcessId =
     res_bind (res_guard (fromGroup \<noteq> toGroup) MustFailed) (\<lambda>_.
     res_bind (res_guard (validProcessId m fromGroup fromProcessId) Assertion) (\<lambda>_.
     res_bind (res_guard (validProcessId m toGroup toProcessId) Assertion) (\<lambda>_.
     let (index1, index2, offset) =
       (if fromGroup = groupA then
          (fromProcessId - theGroupAIdOffset m, toProcessId - theGroupBIdOffset m, 0)
        else (toProcessId - theGroupAIdOffset m, fromProcessId - theGroupBIdOffset m,
              theGroupASize m * theGroupBSize m))
     in Inr (offset + index1 * theGroupBSize m + index2))))"

text \<open>\<^verbatim>\<open>OneToOneUniQueues::operator []\<close>.\<close>

definition queues_at :: "uni_queue list \<Rightarrow> int \<Rightarrow> uni_queue res" where
  "queues_at qs index =
     (if 0 \<le> index \<and> index < int (length qs) then Inr (qs ! nat index) else Inl MustFailed)"

definition oneToOneQueue ::
    "ftf_shared \<Rightarrow> ftf_group \<Rightarrow> int \<Rightarrow> ftf_group \<Rightarrow> int \<Rightarrow> (nat \<times> uni_queue) res" where
  "oneToOneQueue sh fromGroup fromProcessId toGroup toProcessId =
     res_bind (oneToOneQueueIndex (ftf_meta sh) fromGroup fromProcessId toGroup toProcessId) (\<lambda>ix.
     res_bind (queues_at (ftf_queues sh) ix) (\<lambda>q. Inr (nat ix, q)))"

definition inQueue :: "ftf_shared \<Rightarrow> ftf_local \<Rightarrow> int \<Rightarrow> (nat \<times> uni_queue) res" where
  "inQueue sh lc remoteProcessId =
     oneToOneQueue sh (remoteGroup lc) remoteProcessId (theLocalGroup lc) (theLocalProcessId lc)"

definition outQueue :: "ftf_shared \<Rightarrow> ftf_local \<Rightarrow> int \<Rightarrow> (nat \<times> uni_queue) res" where
  "outQueue sh lc remoteProcessId =
     oneToOneQueue sh (theLocalGroup lc) (theLocalProcessId lc) (remoteGroup lc) remoteProcessId"

definition readerIndex :: "ftf_metadata \<Rightarrow> ftf_group \<Rightarrow> int \<Rightarrow> int res" where
  "readerIndex m grp processId =
     res_bind (res_guard (validProcessId m grp processId) MustFailed) (\<lambda>_.
     Inr (if grp = groupA then processId - theGroupAIdOffset m
          else theGroupASize m + processId - theGroupBIdOffset m))"

definition ftf_reader :: "ftf_shared \<Rightarrow> ftf_group \<Rightarrow> int \<Rightarrow> (nat \<times> queue_reader) res" where
  "ftf_reader sh grp processId =
     res_bind (readerIndex (ftf_meta sh) grp processId) (\<lambda>ix.
     Inr (nat ix, ftf_readers sh ! nat ix))"

definition FewToFewBiQueue :: "ftf_shared \<Rightarrow> ftf_group \<Rightarrow> int \<Rightarrow> ftf_local res" where
  "FewToFewBiQueue sh aLocalGroup aLocalProcessId =
     (let m = ftf_meta sh in
      res_bind (res_guard (int (length (ftf_queues sh)) = theGroupASize m * theGroupBSize m * 2)
        MustFailed) (\<lambda>_.
      res_bind (res_guard (int (length (ftf_readers sh)) = theGroupASize m + theGroupBSize m)
        MustFailed) (\<lambda>_.
      res_bind (ftf_reader sh aLocalGroup aLocalProcessId) (\<lambda>_.
      Inr \<lparr>theLocalGroup = aLocalGroup, theLocalProcessId = aLocalProcessId,
           theLastPopProcessId = int (length (ftf_readers sh))\<rparr>))))"

section \<open>Operations\<close>

definition clearReaderSignal :: "ftf_shared \<Rightarrow> ftf_local \<Rightarrow> int \<Rightarrow> ftf_shared res" where
  "clearReaderSignal sh lc remoteProcessId =
     res_bind (ftf_reader sh (theLocalGroup lc) (theLocalProcessId lc)) (\<lambda>(ri, r).
     res_bind (res_guard (validProcessId (ftf_meta sh) (remoteGroup lc) remoteProcessId) MustFailed)
       (\<lambda>_. Inr (sh\<lparr>ftf_readers := (ftf_readers sh)[ri := clearSignal r]\<rparr>)))"

text \<open>The iteration over the remote group, shared by \<^verbatim>\<open>pop()\<close> and \<^verbatim>\<open>peek()\<close>.\<close>

definition next_process :: "ftf_metadata \<Rightarrow> ftf_local \<Rightarrow> int \<Rightarrow> int" where
  "next_process m lc lastId =
     (if lastId + 1 \<ge> remoteGroupIdOffset m lc + remoteGroupSize m lc then remoteGroupIdOffset m lc
      else lastId + 1)"

fun ftf_pop_loop :: "nat \<Rightarrow> nat \<Rightarrow> nat \<Rightarrow> ftf_shared \<Rightarrow> ftf_local \<Rightarrow>
    ((int \<times> bytes) option \<times> ftf_shared \<times> ftf_local) res" where
  "ftf_pop_loop sz ri 0 sh lc = Inr (None, sh, lc)"
| "ftf_pop_loop sz ri (Suc n) sh lc =
     (let lastId = next_process (ftf_meta sh) lc (theLastPopProcessId lc);
          lc1 = lc\<lparr>theLastPopProcessId := lastId\<rparr>
      in res_bind (oneToOneQueue sh (remoteGroup lc) lastId (theLocalGroup lc) (theLocalProcessId lc))
        (\<lambda>(qi, q).
      res_bind (uq_pop sz q (Some (ftf_readers sh ! ri))) (\<lambda>(value, q1, r1).
      let sh1 = sh\<lparr>ftf_queues := (ftf_queues sh)[qi := q1],
                   ftf_readers := (ftf_readers sh)[ri := the r1]\<rparr>
      in case value of
           Some v \<Rightarrow> Inr (Some (lastId, v), sh1, lc1)
         | None \<Rightarrow> ftf_pop_loop sz ri n sh1 lc1)))"

definition ftf_pop :: "nat \<Rightarrow> ftf_shared \<Rightarrow> ftf_local \<Rightarrow>
    ((int \<times> bytes) option \<times> ftf_shared \<times> ftf_local) res" where
  "ftf_pop sz sh lc =
     res_bind (ftf_reader sh (theLocalGroup lc) (theLocalProcessId lc)) (\<lambda>(ri, _).
     ftf_pop_loop sz ri (nat (remoteGroupSize (ftf_meta sh) lc)) sh lc)"

definition ftf_push :: "ftf_shared \<Rightarrow> ftf_local \<Rightarrow> int \<Rightarrow> bytes \<Rightarrow> (bool \<times> ftf_shared) res" where
  "ftf_push sh lc remoteProcessId value =
     res_bind (oneToOneQueue sh (theLocalGroup lc) (theLocalProcessId lc) (remoteGroup lc)
       remoteProcessId) (\<lambda>(qi, q).
     res_bind (ftf_reader sh (remoteGroup lc) remoteProcessId) (\<lambda>(ri, r).
     res_bind (uq_push q value (Some r)) (\<lambda>(notify, q1, r1).
     Inr (notify, sh\<lparr>ftf_queues := (ftf_queues sh)[qi := q1],
                     ftf_readers := (ftf_readers sh)[ri := the r1]\<rparr>))))"

definition findOldest :: "nat \<Rightarrow> ftf_shared \<Rightarrow> ftf_local \<Rightarrow> int \<Rightarrow> bytes option res" where
  "findOldest sz sh lc remoteProcessId =
     (if \<not> validProcessId (ftf_meta sh) (remoteGroup lc) remoteProcessId then Inr None
      else res_bind (inQueue sh lc remoteProcessId) (\<lambda>(_, qin).
        res_bind (uq_peek sz qin) (\<lambda>value. case value of
          Some v \<Rightarrow> Inr (Some v)
        | None \<Rightarrow> res_bind (outQueue sh lc remoteProcessId) (\<lambda>(_, qout). uq_peek sz qout))))"

fun ftf_peek_loop :: "nat \<Rightarrow> nat \<Rightarrow> ftf_shared \<Rightarrow> ftf_local \<Rightarrow> int \<Rightarrow> (int \<times> bytes) option res" where
  "ftf_peek_loop sz 0 sh lc popProcessId = Inr None"
| "ftf_peek_loop sz (Suc n) sh lc popProcessId =
     (let p = next_process (ftf_meta sh) lc popProcessId
      in res_bind (oneToOneQueue sh (remoteGroup lc) p (theLocalGroup lc) (theLocalProcessId lc))
        (\<lambda>(_, q).
      res_bind (uq_peek sz q) (\<lambda>value.
      case value of Some v \<Rightarrow> Inr (Some (p, v)) | None \<Rightarrow> ftf_peek_loop sz n sh lc p)))"

definition ftf_peek :: "nat \<Rightarrow> ftf_shared \<Rightarrow> ftf_local \<Rightarrow> (int \<times> bytes) option res" where
  "ftf_peek sz sh lc =
     ftf_peek_loop sz (nat (remoteGroupSize (ftf_meta sh) lc)) sh lc (theLastPopProcessId lc)"

definition localBalance :: "ftf_shared \<Rightarrow> ftf_local \<Rightarrow> int res" where
  "localBalance sh lc =
     res_bind (ftf_reader sh (theLocalGroup lc) (theLocalProcessId lc)) (\<lambda>(_, r). Inr (balance r))"

definition remoteBalance :: "ftf_shared \<Rightarrow> ftf_local \<Rightarrow> int \<Rightarrow> int res" where
  "remoteBalance sh lc remoteProcessId =
     res_bind (ftf_reader sh (remoteGroup lc) remoteProcessId) (\<lambda>(_, r). Inr (balance r))"

definition localRateLimit :: "ftf_shared \<Rightarrow> ftf_local \<Rightarrow> int res" where
  "localRateLimit sh lc =
     res_bind (ftf_reader sh (theLocalGroup lc) (theLocalProcessId lc)) (\<lambda>(_, r). Inr (rateLimit r))"

definition remoteRateLimit :: "ftf_shared \<Rightarrow> ftf_local \<Rightarrow> int \<Rightarrow> int res" where
  "remoteRateLimit sh lc remoteProcessId =
     res_bind (ftf_reader sh (remoteGroup lc) remoteProcessId) (\<lambda>(_, r). Inr (rateLimit r))"

section \<open>Well-formed systems\<close>

definition ftf_wf :: "nat \<Rightarrow> ftf_shared \<Rightarrow> bool" where
  "ftf_wf sz sh \<longleftrightarrow>
     (let m = ftf_meta sh in
      0 < theGroupASize m \<and> 0 < theGroupBSize m \<and>
      int (length (ftf_queues sh)) = theGroupASize m * theGroupBSize m * 2 \<and>
      int (length (ftf_readers sh)) = theGroupASize m + theGroupBSize m \<and>
      (\<forall>q \<in> set (ftf_queues sh). uq_wf sz q) \<and>
      (\<forall>r \<in> set (ftf_readers sh). popBlocked r = 0 \<or> popBlocked r = 1))"

text \<open>
  A process is a valid member of its group, and its iterator is not below the remote group's
  range (the constructor sets it to the number of readers).
\<close>

definition ftf_client :: "ftf_shared \<Rightarrow> ftf_local \<Rightarrow> bool" where
  "ftf_client sh lc \<longleftrightarrow>
     validProcessId (ftf_meta sh) (theLocalGroup lc) (theLocalProcessId lc) \<and>
     remoteGroupIdOffset (ftf_meta sh) lc \<le> theLastPopProcessId lc + 1"

text \<open>The index of a queue, as a total function.\<close>

definition queue_index :: "ftf_metadata \<Rightarrow> ftf_group \<Rightarrow> int \<Rightarrow> int \<Rightarrow> int" where
  "queue_index m from p r =
     (if from = groupA then (p - theGroupAIdOffset m) * theGroupBSize m + (r - theGroupBIdOffset m)
      else theGroupASize m * theGroupBSize m +
        (r - theGroupAIdOffset m) * theGroupBSize m + (p - theGroupBIdOffset m))"

definition other_group :: "ftf_group \<Rightarrow> ftf_group" where
  "other_group g = (if g = groupA then groupB else groupA)"

lemma other_group_simps [simp]:
  "other_group groupA = groupB" "other_group groupB = groupA" "other_group g \<noteq> g" "g \<noteq> other_group g"
  "other_group (other_group g) = g"
  by (cases g; simp add: other_group_def)+

lemma remoteGroup_eq: "remoteGroup lc = other_group (theLocalGroup lc)"
  by (simp add: remoteGroup_def other_group_def)

lemma oneToOneQueueIndex_eq:
  "validProcessId m g p \<Longrightarrow> validProcessId m (other_group g) r \<Longrightarrow>
   oneToOneQueueIndex m g p (other_group g) r = Inr (queue_index m g p r)"
  by (cases g) (simp_all add: oneToOneQueueIndex_def queue_index_def)

text \<open>Row-major indices: a pair of a row and a column below the bounds is its index.\<close>

lemma row_major_inj:
  fixes a b c d n :: int
  assumes "a * n + b = c * n + d" and "0 \<le> b" "b < n" "0 \<le> d" "d < n"
  shows "a = c \<and> b = d"
proof -
  have "(a * n + b) div n = a" "(c * n + d) div n = c" using assms(2-) by simp_all
  with assms(1) have "a = c" by metis
  with assms(1) show ?thesis by simp
qed

lemma row_major_bound:
  fixes a b m n :: int
  assumes "0 \<le> a" "a < m" "0 \<le> b" "b < n"
  shows "0 \<le> a * n + b \<and> a * n + b < m * n"
proof -
  have "(a + 1) * n \<le> m * n" using assms by (intro mult_right_mono) auto
  then have "a * n + n \<le> m * n" by (simp add: distrib_right)
  moreover have "0 \<le> a * n" using assms by simp
  ultimately show ?thesis using assms(3,4) by linarith
qed

lemma queue_index_bound:
  assumes "validProcessId m g p" and "validProcessId m (other_group g) r"
  shows "0 \<le> queue_index m g p r \<and> queue_index m g p r < theGroupASize m * theGroupBSize m * 2 \<and>
    (g = groupA \<longleftrightarrow> queue_index m g p r < theGroupASize m * theGroupBSize m)"
proof (cases g)
  case groupA
  have "0 \<le> queue_index m g p r \<and> queue_index m g p r < theGroupASize m * theGroupBSize m"
    using assms groupA row_major_bound [of "p - theGroupAIdOffset m" "theGroupASize m"
        "r - theGroupBIdOffset m" "theGroupBSize m"]
    by (simp add: queue_index_def)
  with groupA show ?thesis by auto
next
  case groupB
  define x where "x = (r - theGroupAIdOffset m) * theGroupBSize m + (p - theGroupBIdOffset m)"
  have "0 \<le> x \<and> x < theGroupASize m * theGroupBSize m"
    unfolding x_def using assms groupB by (intro row_major_bound) auto
  moreover have "queue_index m g p r = theGroupASize m * theGroupBSize m + x"
    using groupB by (simp add: queue_index_def x_def)
  ultimately show ?thesis using groupB by auto
qed

lemma queue_index_inj:
  assumes "validProcessId m g p" and "validProcessId m (other_group g) r"
    and "validProcessId m h p'" and "validProcessId m (other_group h) r'"
    and "queue_index m g p r = queue_index m h p' r'"
  shows "g = h \<and> p = p' \<and> r = r'"
proof -
  have gh: "g = h"
    using queue_index_bound [OF assms(1,2)] queue_index_bound [OF assms(3,4)] assms(5)
    by (cases g; cases h) auto
  show ?thesis
  proof (cases g)
    case groupA
    then show ?thesis
      using assms gh row_major_inj [of "p - theGroupAIdOffset m" "theGroupBSize m"
          "r - theGroupBIdOffset m" "p' - theGroupAIdOffset m" "r' - theGroupBIdOffset m"]
      by (simp add: queue_index_def)
  next
    case groupB
    then show ?thesis
      using assms gh row_major_inj [of "r - theGroupAIdOffset m" "theGroupBSize m"
          "p - theGroupBIdOffset m" "r' - theGroupAIdOffset m" "p' - theGroupBIdOffset m"]
      by (simp add: queue_index_def)
  qed
qed

lemma readerIndex_eq:
  "0 < theGroupASize m \<Longrightarrow> 0 < theGroupBSize m \<Longrightarrow> validProcessId m g p \<Longrightarrow>
   \<exists>ix. readerIndex m g p = Inr ix \<and> 0 \<le> ix \<and> ix < theGroupASize m + theGroupBSize m"
  by (cases g) (auto simp: readerIndex_def)

lemma ftf_reader_eq:
  assumes "ftf_wf sz sh" and "validProcessId (ftf_meta sh) g p"
  shows "\<exists>ri < length (ftf_readers sh). ftf_reader sh g p = Inr (ri, ftf_readers sh ! ri)"
proof -
  from assms readerIndex_eq [of "ftf_meta sh" g p] obtain ix where
    ix: "readerIndex (ftf_meta sh) g p = Inr ix" "0 \<le> ix" "ix < int (length (ftf_readers sh))"
    by (auto simp: ftf_wf_def Let_def)
  then show ?thesis by (intro exI [of _ "nat ix"]) (auto simp: ftf_reader_def nat_less_iff)
qed

definition queue_pos :: "ftf_shared \<Rightarrow> ftf_group \<Rightarrow> int \<Rightarrow> int \<Rightarrow> nat" where
  "queue_pos sh g p r = nat (queue_index (ftf_meta sh) g p r)"

lemma queue_pos_bound:
  assumes "ftf_wf sz sh" and "validProcessId (ftf_meta sh) g p"
    and "validProcessId (ftf_meta sh) (other_group g) r"
  shows "queue_pos sh g p r < length (ftf_queues sh)"
  using assms queue_index_bound [OF assms(2,3)] by (auto simp: queue_pos_def ftf_wf_def Let_def)

lemma queue_pos_inj:
  assumes "validProcessId (ftf_meta sh) g p" and "validProcessId (ftf_meta sh) (other_group g) r"
    and "validProcessId (ftf_meta sh) h p'" and "validProcessId (ftf_meta sh) (other_group h) r'"
    and "queue_pos sh g p r = queue_pos sh h p' r'"
  shows "g = h \<and> p = p' \<and> r = r'"
  using queue_index_inj [OF assms(1-4)] queue_index_bound [OF assms(1,2)]
    queue_index_bound [OF assms(3,4)] assms(5)
  by (simp add: queue_pos_def eq_nat_nat_iff)

lemma oneToOneQueue_eq:
  assumes "ftf_wf sz sh" and "validProcessId (ftf_meta sh) g p"
    and "validProcessId (ftf_meta sh) (other_group g) r"
  shows "oneToOneQueue sh g p (other_group g) r =
    Inr (queue_pos sh g p r, ftf_queues sh ! queue_pos sh g p r)"
  using queue_index_bound [OF assms(2,3)] assms
  by (auto simp: oneToOneQueue_def oneToOneQueueIndex_eq queues_at_def queue_pos_def ftf_wf_def Let_def)

section \<open>One queue operation of a process\<close>

lemma uq_pop_empty:
  "uq_wf sz q \<Longrightarrow> uq_contents sz q = [] \<Longrightarrow> uq_pop sz q (Some r) = Inr (None, q, Some (qr_block r))"
  by (auto simp: uq_pop_def uq_empty_def uq_wf_def uq_contents_def)

lemma uq_pop_item:
  assumes "uq_wf sz q" and "uq_contents sz q \<noteq> []"
  obtains v q' where "uq_pop sz q (Some r) = Inr (Some v, q', Some (qr_unblock r))"
    and "uq_wf sz q'" and "uq_contents sz q = v # uq_contents sz q'"
    and "uq_peek sz q = Inr (Some v)"
proof -
  have ne: "theSize q \<noteq> 0" using assms(2) by (auto simp: uq_contents_def)
  have "sz \<le> unat (theMaxItemSize q)" using assms(1) by (simp add: uq_wf_def)
  with ne have "uq_pop sz q (Some r) = Inr (Some (uq_load sz q),
      q\<lparr>theOut := theOut q + 1, theSize := theSize q - 1\<rparr>, Some (qr_unblock r))"
    and "uq_peek sz q = Inr (Some (uq_load sz q))"
    by (simp_all add: uq_pop_def uq_peek_def uq_empty_def)
  with that uq_pop_contents [OF assms(1) ne] show ?thesis by blast
qed

lemma uq_peek_empty: "uq_wf sz q \<Longrightarrow> uq_contents sz q = [] \<Longrightarrow> uq_peek sz q = Inr None"
  by (auto simp: uq_peek_def uq_empty_def uq_wf_def uq_contents_def)

lemma qr_block_simps [simp]:
  "popBlocked r = 0 \<or> popBlocked r = 1 \<Longrightarrow> popBlocked (qr_block r) = 1"
  "popBlocked r = 0 \<or> popBlocked r = 1 \<Longrightarrow> popBlocked (qr_unblock r) = 0"
  by (auto simp: qr_block_def qr_unblock_def)

section \<open>The order of the visits\<close>

fun visits :: "nat \<Rightarrow> ('a \<Rightarrow> 'a) \<Rightarrow> 'a \<Rightarrow> 'a list" where
  "visits 0 f x = []"
| "visits (Suc n) f x = f x # visits n f (f x)"

lemma next_process_range:
  "0 < remoteGroupSize m lc \<Longrightarrow> remoteGroupIdOffset m lc \<le> p + 1 \<Longrightarrow>
   remoteGroupIdOffset m lc \<le> next_process m lc p \<and>
   next_process m lc p < remoteGroupIdOffset m lc + remoteGroupSize m lc"
  by (auto simp: next_process_def)

lemma next_process_mod:
  assumes "remoteGroupIdOffset m lc \<le> p" and "p < remoteGroupIdOffset m lc + remoteGroupSize m lc"
  shows "next_process m lc p = remoteGroupIdOffset m lc +
    (p + 1 - remoteGroupIdOffset m lc) mod remoteGroupSize m lc"
proof (cases "p + 1 = remoteGroupIdOffset m lc + remoteGroupSize m lc")
  case True
  then have "p + 1 - remoteGroupIdOffset m lc = remoteGroupSize m lc" by simp
  then show ?thesis using True by (simp add: next_process_def)
next
  case False
  with assms show ?thesis by (simp add: next_process_def)
qed

lemma visits_range:
  assumes "0 < remoteGroupSize m lc" and "remoteGroupIdOffset m lc \<le> p + 1"
  shows "set (visits n (next_process m lc) p) \<subseteq>
    {remoteGroupIdOffset m lc ..< remoteGroupIdOffset m lc + remoteGroupSize m lc}"
  using assms
proof (induction n arbitrary: p)
  case (Suc n)
  from next_process_range [OF Suc.prems] Suc.IH [of "next_process m lc p"] Suc.prems(1)
  show ?case by (auto simp del: atLeastLessThan_iff) (auto)
qed simp

lemma visits_nth:
  assumes "remoteGroupIdOffset m lc \<le> p" and "p < remoteGroupIdOffset m lc + remoteGroupSize m lc"
    and "i < n"
  shows "visits n (next_process m lc) p ! i = remoteGroupIdOffset m lc +
    (p + 1 + int i - remoteGroupIdOffset m lc) mod remoteGroupSize m lc"
  using assms
proof (induction n arbitrary: p i)
  case (Suc n)
  let ?o = "remoteGroupIdOffset m lc" and ?k = "remoteGroupSize m lc" and ?p = "next_process m lc p"
  have pos: "0 < ?k" using Suc.prems by simp
  note nx = next_process_mod [OF Suc.prems(1,2)]
  have r: "?o \<le> ?p" "?p < ?o + ?k" using next_process_range [OF pos] Suc.prems by auto
  show ?case
  proof (cases i)
    case 0
    then show ?thesis using nx by (simp add: algebra_simps)
  next
    case (Suc j)
    then have "visits (Suc n) (next_process m lc) p ! i = ?o + (?p + 1 + int j - ?o) mod ?k"
      using Suc.IH [OF r, of j] Suc.prems(3) by simp
    also have "\<dots> = ?o + ((p + 1 - ?o) mod ?k + (1 + int j)) mod ?k"
      by (simp add: nx algebra_simps)
    also have "\<dots> = ?o + (p + 1 - ?o + (1 + int j)) mod ?k" by (simp only: mod_add_left_eq)
    also have "\<dots> = ?o + (p + 1 + int i - ?o) mod ?k"
      by (simp add: Suc algebra_simps)
    finally show ?thesis .
  qed
qed simp

lemma visits_length [simp]: "length (visits n f x) = n"
  by (induction n arbitrary: x) auto

lemma visits_cover:
  assumes pos: "0 < remoteGroupSize m lc" and lo: "remoteGroupIdOffset m lc \<le> p + 1"
  shows "set (visits (nat (remoteGroupSize m lc)) (next_process m lc) p) =
    {remoteGroupIdOffset m lc ..< remoteGroupIdOffset m lc + remoteGroupSize m lc}"
proof (rule equalityI [OF visits_range [OF assms]], rule subsetI)
  let ?o = "remoteGroupIdOffset m lc" and ?k = "remoteGroupSize m lc" and ?p = "next_process m lc p"
  fix t
  assume t: "t \<in> {?o ..< ?o + ?k}"
  obtain n where n: "nat ?k = Suc n" using pos by (cases "nat ?k") auto
  have r: "?o \<le> ?p" "?p < ?o + ?k" using next_process_range [OF assms] by auto
  show "t \<in> set (visits (nat ?k) (next_process m lc) p)"
  proof (cases "t = ?p")
    case True
    then show ?thesis by (simp add: n)
  next
    case False
    define i where "i = (t - ?p - 1) mod ?k"
    have i: "0 \<le> i" "i < ?k" using pos by (simp_all add: i_def)
    have e: "(?p + 1 + i - ?o) mod ?k = t - ?o"
    proof -
      have "(?p + 1 + i - ?o) mod ?k = ((?p + 1 - ?o) + (t - ?p - 1) mod ?k) mod ?k"
        by (simp add: i_def algebra_simps)
      also have "\<dots> = (t - ?o) mod ?k" by (simp add: mod_add_right_eq)
      finally show ?thesis using t by simp
    qed
    have "i \<noteq> ?k - 1"
    proof
      assume "i = ?k - 1"
      with e have "(?p - ?o + ?k) mod ?k = t - ?o" by (simp add: algebra_simps)
      then show False using False r by simp
    qed
    with i have "nat i < n" using n by linarith
    with visits_nth [OF r this] e i have "visits n (next_process m lc) ?p ! nat i = t" by simp
    with \<open>nat i < n\<close> have "t \<in> set (visits n (next_process m lc) ?p)"
      by (metis nth_mem visits_length)
    then show ?thesis by (simp add: n)
  qed
qed

lemma valid_remote_iff:
  "validProcessId m (remoteGroup lc) p \<longleftrightarrow>
   p \<in> {remoteGroupIdOffset m lc ..< remoteGroupIdOffset m lc + remoteGroupSize m lc}"
  by (cases "theLocalGroup lc") (simp_all add: remoteGroup_def remoteGroupIdOffset_def remoteGroupSize_def)

section \<open>pop and peek over all remote processes\<close>

definition ftf_in :: "ftf_shared \<Rightarrow> ftf_local \<Rightarrow> int \<Rightarrow> uni_queue" where
  "ftf_in sh lc p =
     ftf_queues sh ! queue_pos sh (remoteGroup lc) p (theLocalProcessId lc)"

text \<open>
  What a scan of the visits \<open>ps\<close> may return: nothing when all their queues are empty, else
  the oldest item of the first one that is not.
\<close>

definition ftf_first :: "nat \<Rightarrow> ftf_shared \<Rightarrow> ftf_local \<Rightarrow> int list \<Rightarrow> (int \<times> bytes) option" where
  "ftf_first sz sh lc ps =
     map_option (\<lambda>p. (p, hd (uq_contents sz (ftf_in sh lc p))))
       (find (\<lambda>p. uq_contents sz (ftf_in sh lc p) \<noteq> []) ps)"

definition ftf_popped :: "nat \<Rightarrow> nat \<Rightarrow> ftf_shared \<Rightarrow> ftf_local \<Rightarrow> (int \<times> bytes) option \<Rightarrow>
    ftf_shared \<Rightarrow> ftf_local \<Rightarrow> bool" where
  "ftf_popped sz ri sh lc res sh' lc' \<longleftrightarrow>
     ftf_meta sh' = ftf_meta sh \<and> ftf_wf sz sh' \<and> ftf_client sh' lc' \<and>
     (case res of
        None \<Rightarrow> ftf_queues sh' = ftf_queues sh
      | Some (p, v) \<Rightarrow>
          uq_contents sz (ftf_in sh lc p) = v # uq_contents sz (ftf_in sh' lc p) \<and>
          ftf_queues sh' = (ftf_queues sh)
            [queue_pos sh (remoteGroup lc) p (theLocalProcessId lc) := ftf_in sh' lc p] \<and>
          popBlocked (ftf_readers sh' ! ri) = 0 \<and> theLastPopProcessId lc' = p) \<and>
     (\<forall>rj. rj \<noteq> ri \<longrightarrow> ftf_readers sh' ! rj = ftf_readers sh ! rj)"

lemma ftf_client_next:
  assumes "ftf_wf sz sh" and "ftf_client sh lc"
  defines "p \<equiv> next_process (ftf_meta sh) lc (theLastPopProcessId lc)"
  shows "validProcessId (ftf_meta sh) (remoteGroup lc) p"
    and "ftf_client sh (lc\<lparr>theLastPopProcessId := p\<rparr>)"
proof -
  have "0 < remoteGroupSize (ftf_meta sh) lc"
    using assms(1) by (auto simp: ftf_wf_def Let_def remoteGroupSize_def)
  note r = next_process_range [OF this, of "theLastPopProcessId lc"]
  show "validProcessId (ftf_meta sh) (remoteGroup lc) p"
    using r assms(2) by (simp add: valid_remote_iff p_def ftf_client_def)
  show "ftf_client sh (lc\<lparr>theLastPopProcessId := p\<rparr>)"
    using r assms(2) by (auto simp: p_def ftf_client_def remoteGroupIdOffset_def)
qed

lemma ftf_in_queue:
  assumes "ftf_wf sz sh" and "ftf_client sh lc" and "validProcessId (ftf_meta sh) (remoteGroup lc) p"
  shows "oneToOneQueue sh (remoteGroup lc) p (theLocalGroup lc) (theLocalProcessId lc) =
      Inr (queue_pos sh (remoteGroup lc) p (theLocalProcessId lc), ftf_in sh lc p)"
    and "uq_wf sz (ftf_in sh lc p)"
    and "queue_pos sh (remoteGroup lc) p (theLocalProcessId lc) < length (ftf_queues sh)"
proof -
  have v: "validProcessId (ftf_meta sh) (other_group (remoteGroup lc)) (theLocalProcessId lc)"
    using assms(2) by (simp add: ftf_client_def remoteGroup_eq)
  show 1: "queue_pos sh (remoteGroup lc) p (theLocalProcessId lc) < length (ftf_queues sh)"
    by (rule queue_pos_bound [OF assms(1,3) v])
  show "oneToOneQueue sh (remoteGroup lc) p (theLocalGroup lc) (theLocalProcessId lc) =
      Inr (queue_pos sh (remoteGroup lc) p (theLocalProcessId lc), ftf_in sh lc p)"
    using oneToOneQueue_eq [OF assms(1,3) v] by (simp add: ftf_in_def remoteGroup_eq)
  show "uq_wf sz (ftf_in sh lc p)"
    using assms(1) 1 by (auto simp: ftf_wf_def Let_def ftf_in_def)
qed

lemma ftf_wf_update:
  assumes "ftf_wf sz sh" and "uq_wf sz q" and "popBlocked r = 0 \<or> popBlocked r = 1"
  shows "ftf_wf sz (sh\<lparr>ftf_queues := (ftf_queues sh)[i := q], ftf_readers := (ftf_readers sh)[j := r]\<rparr>)"
  using assms set_update_subset_insert [of "ftf_queues sh" i q]
    set_update_subset_insert [of "ftf_readers sh" j r]
  unfolding ftf_wf_def Let_def by (simp, blast)

lemma ftf_local_simps [simp]:
  "remoteGroup (lc\<lparr>theLastPopProcessId := p\<rparr>) = remoteGroup lc"
  "ftf_in sh (lc\<lparr>theLastPopProcessId := p\<rparr>) = ftf_in sh lc"
  "next_process m (lc\<lparr>theLastPopProcessId := p\<rparr>) = next_process m lc"
  by (auto simp: remoteGroup_def ftf_in_def next_process_def remoteGroupIdOffset_def
      remoteGroupSize_def fun_eq_iff)

lemma ftf_shared_simps [simp]:
  "queue_pos (sh\<lparr>ftf_readers := rs\<rparr>) = queue_pos sh"
  "queue_pos (sh\<lparr>ftf_queues := qs\<rparr>) = queue_pos sh"
  "ftf_in (sh\<lparr>ftf_readers := rs\<rparr>) = ftf_in sh"
  "ftf_client (sh\<lparr>ftf_readers := rs\<rparr>) = ftf_client sh"
  "ftf_client (sh\<lparr>ftf_queues := qs\<rparr>) = ftf_client sh"
  by (simp_all add: queue_pos_def ftf_in_def ftf_client_def fun_eq_iff)

lemma ftf_first_readers [simp]: "ftf_first sz (sh\<lparr>ftf_readers := rs\<rparr>) lc = ftf_first sz sh lc"
  by (simp add: ftf_first_def fun_eq_iff)

lemma ftf_first_local [simp]: "ftf_first sz sh (lc\<lparr>theLastPopProcessId := p\<rparr>) = ftf_first sz sh lc"
  by (simp add: ftf_first_def fun_eq_iff)

lemma ftf_popped_blocked:
  "ftf_popped sz ri (sh\<lparr>ftf_readers := (ftf_readers sh)[ri := r]\<rparr>) (lc\<lparr>theLastPopProcessId := p\<rparr>)
     res sh' lc' \<Longrightarrow> ftf_popped sz ri sh lc res sh' lc'"
  by (auto simp: ftf_popped_def split: option.splits)

lemma ftf_pop_step_item:
  assumes wf: "ftf_wf sz sh" and cl: "ftf_client sh lc" and ri: "ri < length (ftf_readers sh)"
  defines "p \<equiv> next_process (ftf_meta sh) lc (theLastPopProcessId lc)"
  assumes item: "uq_contents sz (ftf_in sh lc p) \<noteq> []"
  shows "\<exists>sh' lc'. ftf_pop_loop sz ri (Suc n) sh lc =
      Inr (Some (p, hd (uq_contents sz (ftf_in sh lc p))), sh', lc') \<and>
    ftf_popped sz ri sh lc (Some (p, hd (uq_contents sz (ftf_in sh lc p)))) sh' lc'"
proof -
  let ?qi = "queue_pos sh (remoteGroup lc) p (theLocalProcessId lc)" and ?r = "ftf_readers sh ! ri"
  have nx: "validProcessId (ftf_meta sh) (remoteGroup lc) p"
    "ftf_client sh (lc\<lparr>theLastPopProcessId := p\<rparr>)"
    unfolding p_def by (rule ftf_client_next [OF wf cl])+
  note iq = ftf_in_queue [OF wf cl nx(1)]
  have r: "popBlocked ?r = 0 \<or> popBlocked ?r = 1" using wf ri by (auto simp: ftf_wf_def Let_def)
  obtain v q' where q': "uq_pop sz (ftf_in sh lc p) (Some ?r) = Inr (Some v, q', Some (qr_unblock ?r))"
    "uq_wf sz q'" "uq_contents sz (ftf_in sh lc p) = v # uq_contents sz q'"
    using uq_pop_item [OF iq(2) item] by metis
  let ?sh = "sh\<lparr>ftf_queues := (ftf_queues sh)[?qi := q'],
    ftf_readers := (ftf_readers sh)[ri := qr_unblock ?r]\<rparr>"
  have "ftf_wf sz ?sh" using ftf_wf_update [OF wf q'(2)] r by simp
  moreover have "ftf_in ?sh lc p = q'" using iq(3) by (simp add: ftf_in_def)
  ultimately have "ftf_popped sz ri sh lc (Some (p, v)) ?sh (lc\<lparr>theLastPopProcessId := p\<rparr>)"
    using nx q' r ri by (simp add: ftf_popped_def)
  then show ?thesis using iq(1) q' by (simp add: p_def [symmetric])
qed

lemma ftf_pop_loop_spec:
  fixes n :: nat
  assumes "ftf_wf sz sh" and "ftf_client sh lc" and "ri < length (ftf_readers sh)"
  defines "res \<equiv> ftf_first sz sh lc (visits n (next_process (ftf_meta sh) lc) (theLastPopProcessId lc))"
  shows "\<exists>sh' lc'. ftf_pop_loop sz ri n sh lc = Inr (res, sh', lc') \<and>
    ftf_popped sz ri sh lc res sh' lc' \<and>
    (res = None \<longrightarrow> 0 < n \<or> popBlocked (ftf_readers sh ! ri) = 1 \<longrightarrow>
      popBlocked (ftf_readers sh' ! ri) = 1)"
  using assms(1-3) unfolding res_def
proof (induction n arbitrary: sh lc)
  case 0
  then show ?case by (simp add: ftf_first_def ftf_popped_def)
next
  case (Suc n)
  let ?p = "next_process (ftf_meta sh) lc (theLastPopProcessId lc)" and ?r = "ftf_readers sh ! ri"
  note nx = ftf_client_next [OF Suc.prems(1,2)]
  note iq = ftf_in_queue [OF Suc.prems(1,2) nx(1)]
  show ?case
  proof (cases "uq_contents sz (ftf_in sh lc ?p) = []")
    case True
    let ?sh = "sh\<lparr>ftf_readers := (ftf_readers sh)[ri := qr_block ?r]\<rparr>"
    have r: "popBlocked (qr_block ?r) = 1"
      using Suc.prems(1,3) by (auto simp: ftf_wf_def Let_def)
    have wf: "ftf_wf sz ?sh"
      using ftf_wf_update [OF Suc.prems(1) iq(2), where j = ri and i = "queue_pos sh (remoteGroup lc)
        ?p (theLocalProcessId lc)" and r = "qr_block ?r"] r by (simp add: ftf_in_def)
    have "ftf_client ?sh (lc\<lparr>theLastPopProcessId := ?p\<rparr>)" using nx(2) by simp
    with Suc.IH [OF wf this] Suc.prems(3) r obtain sh' lc' where
      "ftf_pop_loop sz ri n ?sh (lc\<lparr>theLastPopProcessId := ?p\<rparr>) =
        Inr (ftf_first sz sh lc (visits n (next_process (ftf_meta sh) lc) ?p), sh', lc')"
      "ftf_popped sz ri sh lc (ftf_first sz sh lc (visits n (next_process (ftf_meta sh) lc) ?p)) sh' lc'"
      "ftf_first sz sh lc (visits n (next_process (ftf_meta sh) lc) ?p) = None \<Longrightarrow>
        popBlocked (ftf_readers sh' ! ri) = 1"
      by (auto dest: ftf_popped_blocked)
    moreover have "ftf_first sz sh lc (?p # ps) = ftf_first sz sh lc ps" for ps
      using True by (simp add: ftf_first_def)
    moreover have "(ftf_queues sh)[queue_pos sh (remoteGroup lc) ?p (theLocalProcessId lc) :=
        ftf_in sh lc ?p] = ftf_queues sh" by (simp add: ftf_in_def)
    ultimately show ?thesis
      using uq_pop_empty [OF iq(2) True] iq(1) by simp
  next
    case False
    with ftf_pop_step_item [OF Suc.prems, where n = n] show ?thesis by (simp add: ftf_first_def)
  qed
qed

lemma ftf_peek_loop_spec:
  assumes "ftf_wf sz sh" and "ftf_client sh (lc\<lparr>theLastPopProcessId := p\<rparr>)"
  shows "ftf_peek_loop sz n sh lc p =
    Inr (ftf_first sz sh lc (visits n (next_process (ftf_meta sh) lc) p))"
  using assms
proof (induction n arbitrary: p)
  case 0
  then show ?case by (simp add: ftf_first_def)
next
  case (Suc n)
  let ?p = "next_process (ftf_meta sh) lc p"
  have nx: "validProcessId (ftf_meta sh) (remoteGroup lc) ?p"
    "ftf_client sh (lc\<lparr>theLastPopProcessId := ?p\<rparr>)"
    using ftf_client_next [OF Suc.prems] by simp_all
  have iq: "oneToOneQueue sh (remoteGroup lc) ?p (theLocalGroup lc) (theLocalProcessId lc) =
      Inr (queue_pos sh (remoteGroup lc) ?p (theLocalProcessId lc), ftf_in sh lc ?p)"
    "uq_wf sz (ftf_in sh lc ?p)"
    using ftf_in_queue [OF Suc.prems, of ?p] nx by simp_all
  show ?case
  proof (cases "uq_contents sz (ftf_in sh lc ?p) = []")
    case True
    with Suc.IH [OF Suc.prems(1) nx(2)] uq_peek_empty [OF iq(2)] iq(1) show ?thesis
      by (simp add: ftf_first_def)
  next
    case False
    with uq_pop_item [OF iq(2)] have "uq_peek sz (ftf_in sh lc ?p) =
        Inr (Some (hd (uq_contents sz (ftf_in sh lc ?p))))"
      by (metis list.sel(1))
    with False iq(1) show ?thesis by (simp add: ftf_first_def Let_def)
  qed
qed

lemma find_unique: "x \<in> set xs \<Longrightarrow> P x \<Longrightarrow> (\<forall>y \<in> set xs. P y \<longrightarrow> y = x) \<Longrightarrow> find P xs = Some x"
proof (induction xs)
  case (Cons y ys)
  show ?case
  proof (cases "P y")
    case True
    with Cons.prems(3) have "y = x" by (meson list.set_intros(1))
    with True show ?thesis by simp
  next
    case False
    with Cons.prems(1,2) have "x \<in> set ys" by (metis set_ConsD)
    moreover have "\<forall>y \<in> set ys. P y \<longrightarrow> y = x" using Cons.prems(3) by (meson list.set_intros(2))
    ultimately have "find P ys = Some x" using Cons.IH Cons.prems(2) by blast
    with False show ?thesis by simp
  qed
qed simp

lemma ftf_first_None:
  "ftf_first sz sh lc ps = None \<longleftrightarrow> (\<forall>p \<in> set ps. uq_contents sz (ftf_in sh lc p) = [])"
  by (auto simp: ftf_first_def find_None_iff)

lemma ftf_visits_all:
  assumes "ftf_wf sz sh" and "ftf_client sh lc"
  shows "set (visits (nat (remoteGroupSize (ftf_meta sh) lc)) (next_process (ftf_meta sh) lc)
    (theLastPopProcessId lc)) = {p. validProcessId (ftf_meta sh) (remoteGroup lc) p}"
proof -
  have "0 < remoteGroupSize (ftf_meta sh) lc"
    using assms(1) by (auto simp: ftf_wf_def Let_def remoteGroupSize_def)
  moreover have "remoteGroupIdOffset (ftf_meta sh) lc \<le> theLastPopProcessId lc + 1"
    using assms(2) by (simp add: ftf_client_def)
  ultimately show ?thesis unfolding valid_remote_iff Collect_mem_eq by (rule visits_cover)
qed

section \<open>Construction and push\<close>

lemma construct_queues_eq:
  "construct_queues n M c = (case OneToOneUniQueue M c of
     Inr q \<Rightarrow> Inr (replicate n q) | Inl e \<Rightarrow> (if n = 0 then Inr [] else Inl e))"
  by (induction n) (auto split: sum.splits)

lemma new_queue_wf:
  assumes "OneToOneUniQueue M c = Inr q" and "c * uint M < 2 ^ 31" and "c dvd 2 ^ 32" and "sz \<le> unat M"
  shows "uq_wf sz q \<and> uq_contents sz q = []"
  using assms
  by (auto simp: OneToOneUniQueue_def uq_wf_def uq_geometry_def uq_contents_def split: if_splits)

lemma uq_push_room:
  assumes "uq_wf sz q" and "length v = sz" and "length (uq_contents sz q) < nat (theCapacity q)"
  obtains q' where "uq_push q v (Some r) =
      (let (raised, r1) = raiseSignal r in
       Inr (if uq_contents sz q = [] then (raised, q', Some r1) else (False, q', Some r)))"
    and "uq_wf sz q'" and "uq_contents sz q' = uq_contents sz q @ [v]"
proof -
  have len: "length (uq_contents sz q) = nat (theSize q)" using assms(1) by (rule uq_contents_length)
  have s: "0 \<le> theSize q" "theSize q < theCapacity q" "length v \<le> unat (theMaxItemSize q)"
    using assms len by (auto simp: uq_wf_def)
  have nil: "uq_contents sz q = [] \<longleftrightarrow> theSize q = 0" using len s by auto
  let ?q = "(uq_store q v)\<lparr>theSize := theSize q + 1\<rparr>"
  have "uq_push q v (Some r) = (let (raised, r1) = raiseSignal r in
       Inr (if uq_contents sz q = [] then (raised, ?q, Some r1) else (False, ?q, Some r)))"
    using s nil by (simp add: uq_push_def uq_full_def uq_empty_def Let_def split: prod.splits)
  with that uq_push_contents [OF assms(1,2) s(2)] show ?thesis by blast
qed

section \<open>Properties\<close>

text \<open>
  \<^verbatim>\<open>oneToOneQueueIndex\<close> is a bijection between the ordered pairs of processes of different
  groups and the indices \<open>0 ..< 2 * groupASize * groupBSize\<close> of the shared array: no two pairs
  share a queue, no queue is unused, and the checks of \<^verbatim>\<open>operator []\<close> never fail.
\<close>

theorem ftf_index_bijective:
  assumes "0 < theGroupASize m" and "0 < theGroupBSize m"
  shows "bij_betw (\<lambda>(g, p, r). oneToOneQueueIndex m g p (other_group g) r)
    {(g, p, r). validProcessId m g p \<and> validProcessId m (other_group g) r}
    (Inr ` {0 ..< theGroupASize m * theGroupBSize m * 2})"
proof -
  let ?a = "theGroupAIdOffset m" and ?b = "theGroupBIdOffset m"
  let ?n = "theGroupASize m" and ?k = "theGroupBSize m"
  let ?S = "{(g, p, r). validProcessId m g p \<and> validProcessId m (other_group g) r}"
  let ?f = "\<lambda>(g, p, r). queue_index m g p r"
  have S: "?S = {groupA} \<times> {?a ..< ?a + ?n} \<times> {?b ..< ?b + ?k} \<union>
      {groupB} \<times> {?b ..< ?b + ?k} \<times> {?a ..< ?a + ?n}" (is "_ = ?T")
  proof (rule set_eqI)
    fix x :: "ftf_group \<times> int \<times> int"
    obtain g p r where x: "x = (g, p, r)" by (cases x)
    show "x \<in> ?S \<longleftrightarrow> x \<in> ?T" unfolding x by (cases g) auto
  qed
  have "card ?T = nat ?n * nat ?k * 2"
    by (subst card_Un_disjoint) (auto simp: card_cartesian_product)
  also have "\<dots> = nat (?n * ?k * 2)"
    using assms by (simp add: nat_mult_distrib)
  finally have card: "card ?S = card {0 ..< ?n * ?k * 2}" unfolding S by simp
  have inj: "inj_on ?f ?S"
  proof (rule inj_onI)
    fix x y
    assume xy: "x \<in> ?S" "y \<in> ?S" "?f x = ?f y"
    obtain g p r g' p' r' where "x = (g, p, r)" "y = (g', p', r')" by (cases x; cases y)
    with xy queue_index_inj [of m g p r g' p' r'] show "x = y" by simp
  qed
  have sub: "?f ` ?S \<subseteq> {0 ..< ?n * ?k * 2}"
  proof (rule image_subsetI)
    fix x
    assume "x \<in> ?S"
    then show "?f x \<in> {0 ..< ?n * ?k * 2}"
      by (cases x) (use queue_index_bound in simp)
  qed
  have "?f ` ?S = {0 ..< ?n * ?k * 2}"
    using card card_image [OF inj] sub by (intro card_subset_eq) simp_all
  with inj have "bij_betw ?f ?S {0 ..< ?n * ?k * 2}" by (simp add: bij_betw_def)
  moreover have "bij_betw Inr {0 ..< ?n * ?k * 2} (Inr ` {0 ..< ?n * ?k * 2})"
    by (simp add: bij_betw_def)
  ultimately have "bij_betw (Inr \<circ> ?f) ?S (Inr ` {0 ..< ?n * ?k * 2})" by (rule bij_betw_trans)
  moreover have "(Inr \<circ> ?f) x = (\<lambda>(g, p, r). oneToOneQueueIndex m g p (other_group g) r) x"
    if "x \<in> ?S" for x
    using that by (cases x) (simp add: oneToOneQueueIndex_eq)
  ultimately show ?thesis by (rule bij_betw_cong [THEN iffD1, rotated])
qed

definition ftf_demo_meta :: ftf_metadata where
  "ftf_demo_meta = \<lparr>theGroupASize = 2, theGroupAIdOffset = 1, theGroupBSize = 3, theGroupBIdOffset = 3\<rparr>"

text \<open>
  C10. \<^verbatim>\<open>pop\<close> visits every remote process once, starting after the one visited last, and takes
  the oldest item of the first queue that is not empty; it fails exactly when all incoming queues
  are empty, and then has blocked the reader. It changes no other queue and no other reader,
  never fails a check, and \<^verbatim>\<open>peek\<close> predicts its result.
\<close>

theorem ftf_pop_round_robin:
  assumes "ftf_wf sz sh" and "ftf_client sh lc"
    and "ps = visits (nat (remoteGroupSize (ftf_meta sh) lc)) (next_process (ftf_meta sh) lc)
      (theLastPopProcessId lc)"
  shows "set ps = {p. validProcessId (ftf_meta sh) (remoteGroup lc) p} \<and>
    ftf_peek sz sh lc = Inr (ftf_first sz sh lc ps) \<and>
    (\<exists>ri sh' lc'. ftf_pop sz sh lc = Inr (ftf_first sz sh lc ps, sh', lc') \<and>
      ftf_popped sz ri sh lc (ftf_first sz sh lc ps) sh' lc' \<and>
      readerIndex (ftf_meta sh) (theLocalGroup lc) (theLocalProcessId lc) = Inr (int ri) \<and>
      (ftf_first sz sh lc ps = None \<longleftrightarrow>
        (\<forall>p. validProcessId (ftf_meta sh) (remoteGroup lc) p \<longrightarrow> uq_contents sz (ftf_in sh lc p) = [])) \<and>
      (ftf_first sz sh lc ps = None \<longrightarrow> popBlocked (ftf_readers sh' ! ri) = 1))"
proof -
  have set: "set ps = {p. validProcessId (ftf_meta sh) (remoteGroup lc) p}"
    unfolding assms(3) by (rule ftf_visits_all [OF assms(1,2)])
  have peek: "ftf_peek sz sh lc = Inr (ftf_first sz sh lc ps)"
    using ftf_peek_loop_spec [OF assms(1), where lc = lc and p = "theLastPopProcessId lc"] assms(2)
    by (simp add: ftf_peek_def assms(3))
  have v: "validProcessId (ftf_meta sh) (theLocalGroup lc) (theLocalProcessId lc)"
    using assms(2) by (simp add: ftf_client_def)
  have pos: "0 < nat (remoteGroupSize (ftf_meta sh) lc)"
    using assms(1) by (auto simp: ftf_wf_def Let_def remoteGroupSize_def)
  from ftf_reader_eq [OF assms(1) v] obtain ri where
    ri: "ri < length (ftf_readers sh)"
      "ftf_reader sh (theLocalGroup lc) (theLocalProcessId lc) = Inr (ri, ftf_readers sh ! ri)"
    by blast
  then have ix: "readerIndex (ftf_meta sh) (theLocalGroup lc) (theLocalProcessId lc) = Inr (int ri)"
    using readerIndex_eq [OF _ _ v] assms(1)
    by (auto simp: ftf_reader_def res_bind_Inr_iff ftf_wf_def Let_def)
  have none: "ftf_first sz sh lc ps = None \<longleftrightarrow> (\<forall>p. validProcessId (ftf_meta sh) (remoteGroup lc) p \<longrightarrow>
      uq_contents sz (ftf_in sh lc p) = [])"
    using set by (simp add: ftf_first_None)
  from ftf_pop_loop_spec [OF assms(1,2) ri(1), where n = "nat (remoteGroupSize (ftf_meta sh) lc)"]
  obtain sh' lc' where "ftf_pop sz sh lc = Inr (ftf_first sz sh lc ps, sh', lc')"
    "ftf_popped sz ri sh lc (ftf_first sz sh lc ps) sh' lc'"
    "ftf_first sz sh lc ps = None \<longrightarrow> popBlocked (ftf_readers sh' ! ri) = 1"
    using pos ri(2) unfolding ftf_pop_def assms(3) [symmetric] by auto
  with ix none set peek show ?thesis
    by (intro conjI exI [of _ ri] exI [of _ sh'] exI [of _ lc'])
qed

definition ftf_demo :: ftf_shared where
  "ftf_demo = projr (ftf_Owner 2 1 3 3 1 4)"

definition ftf_demo_local :: "ftf_group \<Rightarrow> int \<Rightarrow> ftf_local" where
  "ftf_demo_local g p = projr (FewToFewBiQueue ftf_demo g p)"

lemma ftf_setup:
  assumes own: "ftf_Owner a ao b bo M c = Inr sh" and "c * uint M < 2 ^ 31" and "c dvd 2 ^ 32"
    and "sz \<le> unat M" and "ao \<le> a + b + 1" and "bo \<le> a + b + 1"
  shows "ftf_wf sz sh"
    and "FewToFewBiQueue sh g p = Inr lc \<Longrightarrow> ftf_client sh lc"
    and "validProcessId (ftf_meta sh) g p \<Longrightarrow> \<exists>lc. FewToFewBiQueue sh g p = Inr lc \<and>
      theLocalGroup lc = g \<and> theLocalProcessId lc = p"
    and "q \<in> set (ftf_queues sh) \<Longrightarrow> uq_contents sz q = []"
proof -
  have ab: "a > 0" "b > 0"
    using own by (auto simp: ftf_Owner_def Metadata_def res_bind_Inr_iff res_guard_def split: if_splits)
  from own obtain q0 where q0: "OneToOneUniQueue M c = Inr q0"
    and sh: "sh = \<lparr>ftf_meta = \<lparr>theGroupASize = a, theGroupAIdOffset = ao, theGroupBSize = b,
        theGroupBIdOffset = bo\<rparr>, ftf_queues = replicate (nat (a * b * 2)) q0,
      ftf_readers = replicate (nat (a + b)) QueueReader\<rparr>"
    using ab by (auto simp: ftf_Owner_def Metadata_def OneToOneUniQueues_def QueueReaders_def
        construct_queues_eq res_bind_Inr_iff res_guard_def mult_le_0_iff split: if_splits sum.splits)
  note new = new_queue_wf [OF q0 assms(2-4)]
  show wf: "ftf_wf sz sh" using ab new by (simp add: sh ftf_wf_def QueueReader_def)
  show "uq_contents sz q = []" if "q \<in> set (ftf_queues sh)" using that new by (simp add: sh)
  show "ftf_client sh lc" if "FewToFewBiQueue sh g p = Inr lc"
    using that assms(5,6) ab
    by (auto simp: FewToFewBiQueue_def Let_def ftf_reader_def readerIndex_def res_bind_Inr_iff res_guard_def
        ftf_client_def remoteGroupIdOffset_def sh split: if_splits)
  show "\<exists>lc. FewToFewBiQueue sh g p = Inr lc \<and> theLocalGroup lc = g \<and> theLocalProcessId lc = p"
    if "validProcessId (ftf_meta sh) g p"
    using that ab by (simp add: FewToFewBiQueue_def ftf_reader_def readerIndex_def sh)
qed

lemma ftf_demo_owner: "ftf_Owner 2 1 3 3 1 4 = Inr ftf_demo"
  by (simp add: ftf_demo_def ftf_Owner_def Metadata_def OneToOneUniQueues_def QueueReaders_def
      construct_queues_eq OneToOneUniQueue_def)

lemma ftf_demo_wf: "ftf_wf 1 ftf_demo"
  by (rule ftf_setup(1) [OF ftf_demo_owner]) simp_all

lemma ftf_demo_meta: "ftf_meta ftf_demo = ftf_demo_meta"
  by code_simp

lemma ftf_demo_client:
  assumes "validProcessId ftf_demo_meta g p"
  shows "ftf_client ftf_demo (ftf_demo_local g p) \<and> theLocalGroup (ftf_demo_local g p) = g \<and>
    theLocalProcessId (ftf_demo_local g p) = p"
proof -
  obtain lc where "FewToFewBiQueue ftf_demo g p = Inr lc" "theLocalGroup lc = g" "theLocalProcessId lc = p"
    using ftf_setup(3) [OF ftf_demo_owner, where sz = 1 and g = g and p = p] assms ftf_demo_meta by auto
  then show ?thesis
    using ftf_setup(2) [OF ftf_demo_owner, where sz = 1 and g = g and p = p] by (simp add: ftf_demo_local_def)
qed

lemma ftf_demo_in:
  assumes "validProcessId ftf_demo_meta g r" and "theLocalGroup lc = g" and "theLocalProcessId lc = r"
    and "validProcessId ftf_demo_meta (remoteGroup lc) p"
  shows "uq_contents 1 (ftf_in ftf_demo lc p) = []"
proof -
  have "queue_pos ftf_demo (remoteGroup lc) p (theLocalProcessId lc) < length (ftf_queues ftf_demo)"
    by (rule queue_pos_bound [OF ftf_demo_wf]) (use assms ftf_demo_meta in \<open>auto simp: remoteGroup_eq\<close>)
  then show ?thesis
    using ftf_setup(4) [OF ftf_demo_owner, where sz = 1] by (simp add: ftf_in_def)
qed

theorem ftf_pop_round_robin_witness:
  "set (visits 3 (next_process ftf_demo_meta (ftf_demo_local groupA 2)) 5) = {3, 4, 5} \<and>
   ftf_peek 1 ftf_demo (ftf_demo_local groupA 2) = Inr None"
proof -
  have v: "validProcessId ftf_demo_meta groupA 2" by (simp add: ftf_demo_meta_def)
  note x = ftf_demo_client [OF v]
  have k: "remoteGroupSize ftf_demo_meta (ftf_demo_local groupA 2) = 3"
    "theLastPopProcessId (ftf_demo_local groupA 2) = 5" "remoteGroup (ftf_demo_local groupA 2) = groupB"
    by code_simp+
  have e: "\<forall>p. validProcessId ftf_demo_meta groupB p \<longrightarrow>
      uq_contents 1 (ftf_in ftf_demo (ftf_demo_local groupA 2) p) = []"
    using ftf_demo_in [OF v] x k by simp
  have g: "{p. validProcessId ftf_demo_meta groupB p} = {3, 4, 5}"
    by (auto simp: ftf_demo_meta_def)
  show ?thesis
    using ftf_pop_round_robin [OF ftf_demo_wf, of "ftf_demo_local groupA 2", OF _ refl] x k e g
    by (auto simp: ftf_demo_meta)
qed

lemma ftf_push_spec:
  assumes wf: "ftf_wf sz sh" and cl: "ftf_client sh lc"
    and v: "validProcessId (ftf_meta sh) (remoteGroup lc) p" and len: "length u = sz"
  defines "qi \<equiv> queue_pos sh (theLocalGroup lc) (theLocalProcessId lc) p"
  assumes room: "length (uq_contents sz (ftf_queues sh ! qi)) < nat (theCapacity (ftf_queues sh ! qi))"
  shows "\<exists>notify sh'. ftf_push sh lc p u = Inr (notify, sh') \<and> ftf_wf sz sh' \<and>
    ftf_meta sh' = ftf_meta sh \<and> qi < length (ftf_queues sh) \<and>
    (\<exists>q. ftf_queues sh' = (ftf_queues sh)[qi := q] \<and>
       uq_contents sz q = uq_contents sz (ftf_queues sh ! qi) @ [u])"
proof -
  have vl: "validProcessId (ftf_meta sh) (theLocalGroup lc) (theLocalProcessId lc)"
    using cl by (simp add: ftf_client_def)
  note v' = v [unfolded remoteGroup_eq]
  have qi: "qi < length (ftf_queues sh)" unfolding qi_def by (rule queue_pos_bound [OF wf vl v'])
  have q: "oneToOneQueue sh (theLocalGroup lc) (theLocalProcessId lc) (remoteGroup lc) p =
      Inr (qi, ftf_queues sh ! qi)"
    unfolding qi_def remoteGroup_eq by (rule oneToOneQueue_eq [OF wf vl v'])
  obtain ri where ri: "ri < length (ftf_readers sh)"
    "ftf_reader sh (remoteGroup lc) p = Inr (ri, ftf_readers sh ! ri)"
    using ftf_reader_eq [OF wf v] by blast
  let ?r = "ftf_readers sh ! ri"
  have wq: "uq_wf sz (ftf_queues sh ! qi)" and r: "popBlocked ?r = 0 \<or> popBlocked ?r = 1"
    using wf qi ri by (auto simp: ftf_wf_def Let_def)
  obtain n r1 where sig: "raiseSignal ?r = (n, r1)" by (cases "raiseSignal ?r")
  then have r1: "popBlocked r1 = 0 \<or> popBlocked r1 = 1"
    using r by (auto simp: raiseSignal_def split: if_splits)
  obtain q' where q': "uq_push (ftf_queues sh ! qi) u (Some ?r) =
      Inr (if uq_contents sz (ftf_queues sh ! qi) = [] then (n, q', Some r1) else (False, q', Some ?r))"
    "uq_wf sz q'" "uq_contents sz q' = uq_contents sz (ftf_queues sh ! qi) @ [u]"
    using uq_push_room [OF wq len room, of ?r] sig by auto
  show ?thesis
    using q ri(2) q' ftf_wf_update [OF wf q'(2) r, of ri qi]
      ftf_wf_update [OF wf q'(2) r1, of ri qi] qi
    by (auto simp: ftf_push_def)
qed

text \<open>
  A message travels: when process \<open>x\<close> pushes a value to process \<open>y\<close> of the other group
  whose incoming queues are empty, the push succeeds and the next pop of \<open>y\<close> returns that value
  with the id of \<open>x\<close>.
\<close>

theorem ftf_push_pop:
  assumes "ftf_wf sz sh" and "ftf_client sh x" and "ftf_client sh y"
    and "theLocalGroup y = remoteGroup x" and "length u = sz"
    and "\<forall>p. validProcessId (ftf_meta sh) (remoteGroup y) p \<longrightarrow> uq_contents sz (ftf_in sh y p) = []"
  shows "\<exists>notify sh1. ftf_push sh x (theLocalProcessId y) u = Inr (notify, sh1) \<and>
    (\<exists>sh2 y2. ftf_pop sz sh1 y = Inr (Some (theLocalProcessId x, u), sh2, y2))"
proof -
  have vy: "validProcessId (ftf_meta sh) (remoteGroup x) (theLocalProcessId y)"
    and vx: "validProcessId (ftf_meta sh) (remoteGroup y) (theLocalProcessId x)"
    using assms(2-4) by (simp_all add: ftf_client_def remoteGroup_eq)
  let ?qi = "queue_pos sh (theLocalGroup x) (theLocalProcessId x) (theLocalProcessId y)"
  have in_x: "ftf_in sh y (theLocalProcessId x) = ftf_queues sh ! ?qi"
    using assms(4) by (simp add: ftf_in_def remoteGroup_eq)
  have nil: "uq_contents sz (ftf_queues sh ! ?qi) = []" using assms(6) [rule_format, OF vx] in_x by simp
  have "uq_wf sz (ftf_queues sh ! ?qi)" using ftf_in_queue(2) [OF assms(1,3) vx] in_x by simp
  then have room: "length (uq_contents sz (ftf_queues sh ! ?qi)) < nat (theCapacity (ftf_queues sh ! ?qi))"
    using nil by (simp add: uq_wf_def uq_geometry_def)
  from ftf_push_spec [OF assms(1,2) vy assms(5) room] nil obtain notify sh1 q where
    push: "ftf_push sh x (theLocalProcessId y) u = Inr (notify, sh1)" and wf1: "ftf_wf sz sh1"
    and meta: "ftf_meta sh1 = ftf_meta sh" and qi: "?qi < length (ftf_queues sh)"
    and qs: "ftf_queues sh1 = (ftf_queues sh)[?qi := q]" and q: "uq_contents sz q = [u]"
    by auto
  have cl1: "ftf_client sh1 y" using assms(3) meta by (simp add: ftf_client_def)
  have cont: "uq_contents sz (ftf_in sh1 y p) = (if p = theLocalProcessId x then [u] else [])"
    if p: "validProcessId (ftf_meta sh) (remoteGroup y) p" for p
  proof -
    have pos: "queue_pos sh1 = queue_pos sh" using meta by (simp add: queue_pos_def fun_eq_iff)
    have "queue_pos sh (remoteGroup y) p (theLocalProcessId y) = ?qi \<longleftrightarrow> p = theLocalProcessId x"
      using queue_pos_inj [of sh "remoteGroup y" p "theLocalProcessId y" "theLocalGroup x"
          "theLocalProcessId x" "theLocalProcessId y"] p vx vy assms(3,4)
      by (auto simp: remoteGroup_eq ftf_client_def)
    then show ?thesis
      using qs q qi pos assms(6) [rule_format, OF p] by (auto simp: ftf_in_def)
  qed
  let ?ps = "visits (nat (remoteGroupSize (ftf_meta sh1) y)) (next_process (ftf_meta sh1) y)
    (theLastPopProcessId y)"
  have ps: "set ?ps = {p. validProcessId (ftf_meta sh) (remoteGroup y) p}"
    using ftf_visits_all [OF wf1 cl1] meta by simp
  have "find (\<lambda>p. uq_contents sz (ftf_in sh1 y p) \<noteq> []) ?ps = Some (theLocalProcessId x)"
    using vx cont ps by (intro find_unique) (auto split: if_splits)
  then have first: "ftf_first sz sh1 y ?ps = Some (theLocalProcessId x, u)"
    using cont [OF vx] by (simp add: ftf_first_def)
  obtain ri where ri: "ri < length (ftf_readers sh1)" "ftf_reader sh1 (theLocalGroup y) (theLocalProcessId y) =
      Inr (ri, ftf_readers sh1 ! ri)"
    using ftf_reader_eq [OF wf1] cl1 by (auto simp: ftf_client_def)
  from ftf_pop_loop_spec [OF wf1 cl1 ri(1), where n = "nat (remoteGroupSize (ftf_meta sh1) y)"] first
  have "\<exists>sh2 y2. ftf_pop sz sh1 y = Inr (Some (theLocalProcessId x, u), sh2, y2)"
    using ri(2) by (auto simp: ftf_pop_def)
  with push show ?thesis by blast
qed

text \<open>
  The iteration of \<^verbatim>\<open>pop\<close> starts at the number of readers, so it only works for groups whose
  ids start at most one above that number: with a remote group at offset 10, the first \<^verbatim>\<open>pop\<close> of a
  process fails the assertion in \<^verbatim>\<open>oneToOneQueueIndex\<close>.
\<close>

theorem ftf_far_offset_asserts:
  "(case ftf_Owner 1 1 1 10 1 4 of Inl _ \<Rightarrow> False
    | Inr sh \<Rightarrow> (case FewToFewBiQueue sh groupA 1 of Inl _ \<Rightarrow> False
      | Inr lc \<Rightarrow> validProcessId (ftf_meta sh) groupB 10 \<and> ftf_pop 1 sh lc = Inl Assertion))"
  by code_simp

end
