(* ===== verification/Ipc_Mem_Pages.thy ===== *)
theory Ipc_Mem_Pages
  imports Squid_Prelude "HOL-Library.Multiset"
begin

text \<open>
  Shared memory pages (src/ipc/mem/PageStack.cc, PagePool.cc, Pages.cc, Page.h): the lock-free
  stack of free page numbers, the pool that counts the pages in use by purpose, and the limits
  the callers of \<^verbatim>\<open>GetPage()\<close> obey.

  The stack is given twice, as the lock is in \<open>Ipc_ReadWriteLock\<close>: \<open>ps_pop\<close> and \<open>ps_push\<close> are the
  methods as one process runs them, \<open>ps_step\<close> has one rule per atomic operation of any number
  of processes. The loops of the methods have no bound of their own, so they take fuel; the
  capacity of the stack is shown to be enough.
\<close>

section \<open>PageId\<close>

datatype page_purpose = cachePage | ioPage | maxPurpose

record page_id =
  pi_pool :: "32 word"
  pi_number :: nat
  pi_purpose :: page_purpose

definition PageId :: page_id where
  "PageId = \<lparr>pi_pool = 0, pi_number = 0, pi_purpose = maxPurpose\<rparr>"

definition page_set :: "page_id \<Rightarrow> bool" where
  "page_set page \<longleftrightarrow> pi_pool page \<noteq> 0 \<and> pi_number page \<noteq> 0"

section \<open>PageStack\<close>

record page_stack =
  thePoolId :: "32 word"
  theCapacity :: int
  theSize :: int
  theLastReadable :: int
  theFirstWritable :: int
  theItems :: "nat list"

definition ps_next :: "int \<Rightarrow> int \<Rightarrow> int" where
  "ps_next capacity idx = (idx + 1) mod capacity"

definition ps_prev :: "int \<Rightarrow> int \<Rightarrow> int" where
  "ps_prev capacity idx = (capacity + idx - 1) mod capacity"

definition PageStack :: "32 word \<Rightarrow> int \<Rightarrow> page_stack" where
  "PageStack aPoolId aCapacity =
     (let lastReadable = ps_prev aCapacity aCapacity
      in \<lparr>thePoolId = aPoolId, theCapacity = aCapacity, theSize = aCapacity,
          theLastReadable = lastReadable, theFirstWritable = ps_next aCapacity lastReadable,
          theItems = map (\<lambda>i. i + 1) [0..<nat aCapacity]\<rparr>)"

definition ps_size :: "page_stack \<Rightarrow> int" where
  "ps_size k = max 0 (theSize k)"

definition pageIdIsValid :: "page_stack \<Rightarrow> page_id \<Rightarrow> bool" where
  "pageIdIsValid k page \<longleftrightarrow> pi_pool page = thePoolId k \<and> pi_number page \<noteq> 0 \<and>
     int (pi_number page) \<le> theCapacity k"

fun ps_pop_loop :: "nat \<Rightarrow> page_stack \<Rightarrow> (nat option \<times> page_stack) option" where
  "ps_pop_loop 0 k = None"
| "ps_pop_loop (Suc fuel) k =
     (if theSize k \<ge> 0 then
        let idx = theLastReadable k;
            value = theItems k ! nat idx;
            k1 = k\<lparr>theItems := (theItems k)[nat idx := 0]\<rparr>;
            k2 = k1\<lparr>theLastReadable := ps_prev (theCapacity k) idx\<rparr>
        in if value \<noteq> 0 then Some (Some value, k2\<lparr>theFirstWritable := idx\<rparr>)
           else ps_pop_loop fuel k2
      else Some (None, k\<lparr>theSize := theSize k + 1\<rparr>))"

definition ps_pop :: "nat \<Rightarrow> page_stack \<Rightarrow> page_id \<Rightarrow> (bool \<times> page_id \<times> page_stack) option res" where
  "ps_pop fuel k page =
     (if page_set page then Inl MustFailed
      else Inr (case ps_pop_loop fuel (k\<lparr>theSize := theSize k - 1\<rparr>) of
          None \<Rightarrow> None
        | Some (None, k1) \<Rightarrow> Some (False, page, k1)
        | Some (Some value, k1) \<Rightarrow>
            Some (True, page\<lparr>pi_pool := thePoolId k, pi_number := value\<rparr>, k1)))"

fun ps_push_loop :: "nat \<Rightarrow> page_stack \<Rightarrow> nat \<Rightarrow> page_stack option res" where
  "ps_push_loop 0 k number = Inr None"
| "ps_push_loop (Suc fuel) k number =
     (if theSize k < theCapacity k then
        let idx = theFirstWritable k;
            pushed = (theItems k ! nat idx = 0);
            k1 = (if pushed then k\<lparr>theItems := (theItems k)[nat idx := number]\<rparr> else k);
            k2 = k1\<lparr>theFirstWritable := ps_next (theCapacity k) idx\<rparr>
        in if pushed then Inr (Some (k2\<lparr>theLastReadable := idx, theSize := theSize k2 + 1\<rparr>))
           else ps_push_loop fuel k2 number
      else Inl MustFailed)"

definition ps_push :: "nat \<Rightarrow> page_stack \<Rightarrow> page_id \<Rightarrow> (page_id \<times> page_stack) option res" where
  "ps_push fuel k page =
     (if \<not> page_set page then Inr (Some (page, k))
      else if \<not> pageIdIsValid k page then Inl MustFailed
      else res_bind (ps_push_loop fuel k (pi_number page)) (\<lambda>r.
        Inr (map_option (\<lambda>k1. (PageId, k1)) r)))"

section \<open>One process: the loops end and the pages are conserved\<close>

definition ps_free :: "page_stack \<Rightarrow> nat multiset" where
  "ps_free k = filter_mset (\<lambda>v. v \<noteq> 0) (mset (theItems k))"

definition ps_shape :: "page_stack \<Rightarrow> bool" where
  "ps_shape k \<longleftrightarrow> 0 < theCapacity k \<and> int (length (theItems k)) = theCapacity k \<and>
     0 \<le> theLastReadable k \<and> theLastReadable k < theCapacity k \<and>
     0 \<le> theFirstWritable k \<and> theFirstWritable k < theCapacity k"

definition ps_inv :: "page_stack \<Rightarrow> bool" where
  "ps_inv k \<longleftrightarrow> ps_shape k \<and> theSize k = int (size (ps_free k))"

lemma ps_prev_range [simp]:
  "0 < c \<Longrightarrow> 0 \<le> ps_prev c i" "0 < c \<Longrightarrow> ps_prev c i < c"
  "0 < c \<Longrightarrow> 0 \<le> ps_next c i" "0 < c \<Longrightarrow> ps_next c i < c"
  by (simp_all add: ps_prev_def ps_next_def)

lemma ps_free_take:
  assumes "i < length (theItems k)"
  shows "ps_free (k\<lparr>theItems := (theItems k)[i := 0]\<rparr>) =
    (if theItems k ! i = 0 then ps_free k else ps_free k - {#theItems k ! i#})"
  using assms by (simp add: ps_free_def mset_update)

lemma ps_free_put:
  assumes "i < length (theItems k)" and "theItems k ! i = 0" and "v \<noteq> 0"
  shows "ps_free (k\<lparr>theItems := (theItems k)[i := v]\<rparr>) = add_mset v (ps_free k)"
  using assms by (simp add: ps_free_def mset_update)

lemma ps_free_upd [simp]:
  "ps_free (k\<lparr>theSize := n\<rparr>) = ps_free k" "ps_free (k\<lparr>theLastReadable := n\<rparr>) = ps_free k"
  "ps_free (k\<lparr>theFirstWritable := n\<rparr>) = ps_free k"
  by (simp_all add: ps_free_def)

lemma ps_free_mem: "i < length (theItems k) \<Longrightarrow> theItems k ! i \<noteq> 0 \<Longrightarrow> theItems k ! i \<in># ps_free k"
  by (simp add: ps_free_def)

lemma mod_step_left: "((c + i - 1) mod c - int d) mod c = (i - int (Suc d)) mod (c :: int)"
proof -
  have "((c + i - 1) mod c - int d) mod c = (c + i - 1 - int d) mod c" by (simp only: mod_diff_left_eq)
  also have "c + i - 1 - int d = c + (i - int (Suc d))" by simp
  finally show ?thesis by simp
qed

lemma mod_step_right: "((i + 1) mod c + int d) mod c = (i + int (Suc d)) mod (c :: int)"
proof -
  have "((i + 1) mod c + int d) mod c = (i + 1 + int d) mod c" by (simp only: mod_add_left_eq)
  also have "i + 1 + int d = i + int (Suc d)" by simp
  finally show ?thesis .
qed

lemma ps_pop_loop_ok:
  assumes "ps_shape k" and "0 \<le> theSize k" and "d < fuel"
    and "theItems k ! nat ((theLastReadable k - int d) mod theCapacity k) \<noteq> 0"
  shows "\<exists>v k'. ps_pop_loop fuel k = Some (Some v, k') \<and> v \<in># ps_free k \<and>
    ps_free k' = ps_free k - {#v#} \<and> ps_shape k' \<and> theSize k' = theSize k \<and>
    theCapacity k' = theCapacity k \<and> thePoolId k' = thePoolId k"
  using assms
proof (induction d arbitrary: fuel k)
  case 0
  then obtain f where f: "fuel = Suc f" by (cases fuel) auto
  let ?i = "nat (theLastReadable k)"
  have "theItems k ! ?i \<noteq> 0" using 0 by (simp add: ps_shape_def)
  moreover have i: "?i < length (theItems k)" using 0(1) by (auto simp: ps_shape_def)
  ultimately show ?case
    using 0 ps_free_mem [OF i] ps_free_take [OF i] by (auto simp: f Let_def ps_shape_def)
next
  case (Suc d)
  then obtain f where f: "fuel = Suc f" by (cases fuel) auto
  let ?i = "nat (theLastReadable k)"
  have i: "?i < length (theItems k)" using Suc.prems(1) by (auto simp: ps_shape_def)
  show ?case
  proof (cases "theItems k ! ?i = 0")
    case True
    let ?k = "k\<lparr>theLastReadable := ps_prev (theCapacity k) (theLastReadable k)\<rparr>"
    have "(theItems k)[?i := 0] = theItems k" using True by (metis list_update_id)
    then have "ps_pop_loop fuel k = ps_pop_loop f ?k" using Suc.prems(2) True by (simp add: f Let_def)
    moreover have "ps_shape ?k" using Suc.prems(1) by (simp add: ps_shape_def)
    moreover have "theItems ?k ! nat ((theLastReadable ?k - int d) mod theCapacity ?k) \<noteq> 0"
      using Suc.prems(4) by (simp add: ps_prev_def mod_step_left)
    ultimately show ?thesis using Suc.IH [of ?k f] Suc.prems(2,3) f by simp
  next
    case False
    then show ?thesis
      using Suc.prems ps_free_mem [OF i] ps_free_take [OF i] by (auto simp: f Let_def ps_shape_def)
  qed
qed

lemma ps_push_loop_ok:
  assumes "ps_shape k" and "theSize k < theCapacity k" and "d < fuel" and "v \<noteq> 0"
    and "theItems k ! nat ((theFirstWritable k + int d) mod theCapacity k) = 0"
  shows "\<exists>k'. ps_push_loop fuel k v = Inr (Some k') \<and> ps_free k' = add_mset v (ps_free k) \<and>
    ps_shape k' \<and> theSize k' = theSize k + 1 \<and> theCapacity k' = theCapacity k \<and>
    thePoolId k' = thePoolId k"
  using assms
proof (induction d arbitrary: fuel k)
  case 0
  then obtain f where f: "fuel = Suc f" by (cases fuel) auto
  let ?i = "nat (theFirstWritable k)"
  have z: "theItems k ! ?i = 0" using 0 by (simp add: ps_shape_def)
  have i: "?i < length (theItems k)" using 0(1) by (auto simp: ps_shape_def)
  show ?case using 0 ps_free_put [OF i z] by (auto simp: f Let_def ps_shape_def z)
next
  case (Suc d)
  then obtain f where f: "fuel = Suc f" by (cases fuel) auto
  let ?i = "nat (theFirstWritable k)"
  have i: "?i < length (theItems k)" using Suc.prems(1) by (auto simp: ps_shape_def)
  show ?case
  proof (cases "theItems k ! ?i = 0")
    case True
    then show ?thesis
      using Suc.prems ps_free_put [OF i True] by (auto simp: f Let_def ps_shape_def)
  next
    case False
    let ?k = "k\<lparr>theFirstWritable := ps_next (theCapacity k) (theFirstWritable k)\<rparr>"
    have "ps_push_loop fuel k v = ps_push_loop f ?k v"
      using Suc.prems(2) False by (simp add: f Let_def)
    moreover have "ps_shape ?k" using Suc.prems(1) by (simp add: ps_shape_def)
    moreover have "theItems ?k ! nat ((theFirstWritable ?k + int d) mod theCapacity ?k) = 0"
      using Suc.prems(5) by (simp add: ps_next_def mod_step_right)
    ultimately show ?thesis using Suc.IH [of ?k f] Suc.prems(2-4) f by simp
  qed
qed

text \<open>A slot is at some distance below the capacity, on either side of the hint.\<close>

lemma distance_left:
  assumes "0 < c" and "0 \<le> j" and "j < c"
  obtains d where "d < nat c" and "(i - int d) mod c = (j :: int)"
proof
  show "nat ((i - j) mod c) < nat c" using assms(1) by simp
  have "(i - (i - j) mod c) mod c = (i - (i - j)) mod c" by (simp only: mod_diff_right_eq)
  then show "(i - int (nat ((i - j) mod c))) mod c = j" using assms by simp
qed

lemma distance_right:
  assumes "0 < c" and "0 \<le> j" and "j < c"
  obtains d where "d < nat c" and "(i + int d) mod c = (j :: int)"
proof
  show "nat ((j - i) mod c) < nat c" using assms(1) by simp
  have "(i + (j - i) mod c) mod c = (i + (j - i)) mod c" by (simp only: mod_add_right_eq)
  then show "(i + int (nat ((j - i) mod c))) mod c = j" using assms by simp
qed

lemma ps_free_slot:
  assumes "ps_free k \<noteq> {#}"
  obtains j where "j < length (theItems k)" and "theItems k ! j \<noteq> 0"
proof -
  from assms have "\<exists>v \<in> set (theItems k). v \<noteq> 0"
    by (auto simp: ps_free_def multiset_nonemptyE filter_mset_eq_conv elim: multiset_nonemptyE)
  with that show ?thesis by (auto simp: in_set_conv_nth)
qed

lemma ps_full_slot:
  assumes "size (ps_free k) < length (theItems k)"
  obtains j where "j < length (theItems k)" and "theItems k ! j = 0"
proof -
  have "\<exists>v \<in> set (theItems k). v = 0"
  proof (rule ccontr)
    assume "\<not> ?thesis"
    then have "ps_free k = mset (theItems k)" by (auto simp: ps_free_def filter_mset_eq_conv intro!: gr0I)
    with assms show False by simp
  qed
  with that show ?thesis by (auto simp: in_set_conv_nth)
qed

lemma ps_pop_eq:
  assumes "ps_inv k" and "\<not> page_set page" and "nat (theCapacity k) \<le> fuel"
  shows "if ps_free k = {#} then ps_pop fuel k page = Inr (Some (False, page, k))
    else \<exists>v k'. ps_pop fuel k page =
        Inr (Some (True, page\<lparr>pi_pool := thePoolId k, pi_number := v\<rparr>, k')) \<and>
      v \<in># ps_free k \<and> ps_free k' = ps_free k - {#v#} \<and> ps_inv k' \<and>
      theCapacity k' = theCapacity k \<and> thePoolId k' = thePoolId k"
proof (cases "ps_free k = {#}")
  case True
  have "0 < fuel" using assms(1,3) by (auto simp: ps_inv_def ps_shape_def)
  then obtain f where "fuel = Suc f" by (cases fuel) auto
  then show ?thesis using True assms(1,2) by (simp add: ps_pop_def ps_inv_def)
next
  case False
  let ?k = "k\<lparr>theSize := theSize k - 1\<rparr>"
  obtain j where j: "j < length (theItems k)" "theItems k ! j \<noteq> 0" by (rule ps_free_slot [OF False])
  have c: "0 < theCapacity k" "int j < theCapacity k" using assms(1) j by (auto simp: ps_inv_def ps_shape_def)
  obtain d where d: "d < nat (theCapacity k)" "(theLastReadable k - int d) mod theCapacity k = int j"
    by (rule distance_left [OF c(1) _ c(2)]) auto
  have "0 < size (ps_free k)" using False by (simp add: nonempty_has_size)
  then have "ps_shape ?k" "0 \<le> theSize ?k" using assms(1) by (auto simp: ps_inv_def ps_shape_def)
  from ps_pop_loop_ok [OF this, of d fuel] d j assms(3) obtain v k' where
    r: "ps_pop_loop fuel ?k = Some (Some v, k')" "v \<in># ps_free k" "ps_free k' = ps_free k - {#v#}"
    "ps_shape k'" "theSize k' = theSize k - 1" "theCapacity k' = theCapacity k" "thePoolId k' = thePoolId k"
    by auto
  then have "ps_inv k'" using assms(1) \<open>0 < size (ps_free k)\<close>
    by (auto simp: ps_inv_def size_Diff_singleton of_nat_diff)
  with r False assms(2) show ?thesis by (simp add: ps_pop_def, blast)
qed

lemma ps_push_eq:
  assumes "ps_inv k" and "pageIdIsValid k page" and "page_set page" and "nat (theCapacity k) \<le> fuel"
    and "int (size (ps_free k)) < theCapacity k"
  shows "\<exists>k'. ps_push fuel k page = Inr (Some (PageId, k')) \<and>
    ps_free k' = add_mset (pi_number page) (ps_free k) \<and> ps_inv k' \<and>
    theCapacity k' = theCapacity k \<and> thePoolId k' = thePoolId k"
proof -
  have c: "0 < theCapacity k" "ps_shape k" and sz: "theSize k = int (size (ps_free k))"
    and len: "int (length (theItems k)) = theCapacity k"
    using assms(1) by (auto simp: ps_inv_def ps_shape_def)
  obtain j where j: "j < length (theItems k)" "theItems k ! j = 0"
    using ps_full_slot [of k] assms(5) len by auto
  obtain d where d: "d < nat (theCapacity k)" "(theFirstWritable k + int d) mod theCapacity k = int j"
    by (rule distance_right [OF c(1), of "int j"]) (use j len in auto)
  from ps_push_loop_ok [OF c(2), of d fuel "pi_number page"] d j assms(3-5) sz
  show ?thesis using assms(2,3) by (auto simp: ps_push_def page_set_def ps_inv_def)
qed

section \<open>Many processes: one rule per atomic operation\<close>

text \<open>
  The program counter of a process inside \<^verbatim>\<open>pop()\<close> or \<^verbatim>\<open>push()\<close>, named after the access it is
  about to make, with the local variables that are live there. \<open>PushFail\<close> is \<^verbatim>\<open>Must(false)\<close>.
\<close>

datatype ps_pc =
    PIdle
  | PopTest | PopRead | PopFetch int | PopSwap int nat | PopHint int nat | PopUndo
  | PushTest nat | PushRead nat | PushCas nat int | PushSwap nat int bool | PushHint int | PushInc
  | PushFail nat

record ps_client =
  cl_pc :: ps_pc
  cl_owned :: "nat list"

record ps_sys =
  psys_stack :: page_stack
  psys_clients :: "ps_client list"

definition ps_at :: "ps_sys \<Rightarrow> nat \<Rightarrow> ps_pc \<Rightarrow> bool" where
  "ps_at s i pc \<longleftrightarrow> i < length (psys_clients s) \<and> cl_pc (psys_clients s ! i) = pc"

definition ps_goto :: "ps_sys \<Rightarrow> nat \<Rightarrow> ps_pc \<Rightarrow> page_stack \<Rightarrow> ps_sys" where
  "ps_goto s i pc k =
     s\<lparr>psys_stack := k, psys_clients := (psys_clients s)[i := (psys_clients s ! i)\<lparr>cl_pc := pc\<rparr>]\<rparr>"

definition ps_goto_own :: "ps_sys \<Rightarrow> nat \<Rightarrow> ps_pc \<Rightarrow> nat list \<Rightarrow> page_stack \<Rightarrow> ps_sys" where
  "ps_goto_own s i pc owned k =
     s\<lparr>psys_stack := k, psys_clients := (psys_clients s)[i := \<lparr>cl_pc = pc, cl_owned = owned\<rparr>]\<rparr>"

inductive ps_step :: "ps_sys \<Rightarrow> ps_sys \<Rightarrow> bool" where
  pop_start: "ps_at s i PIdle \<Longrightarrow> k = psys_stack s \<Longrightarrow>
    ps_step s (ps_goto s i PopTest (k\<lparr>theSize := theSize k - 1\<rparr>))"
| pop_test: "ps_at s i PopTest \<Longrightarrow> k = psys_stack s \<Longrightarrow>
    ps_step s (ps_goto s i (if theSize k \<ge> 0 then PopRead else PopUndo) k)"
| pop_read: "ps_at s i PopRead \<Longrightarrow> k = psys_stack s \<Longrightarrow>
    ps_step s (ps_goto s i (PopFetch (theLastReadable k)) k)"
| pop_fetch: "ps_at s i (PopFetch idx) \<Longrightarrow> k = psys_stack s \<Longrightarrow>
    ps_step s (ps_goto s i (PopSwap idx (theItems k ! nat idx))
      (k\<lparr>theItems := (theItems k)[nat idx := 0]\<rparr>))"
| pop_swap: "ps_at s i (PopSwap idx v) \<Longrightarrow> k = psys_stack s \<Longrightarrow>
    ps_step s (ps_goto s i (if v \<noteq> 0 then PopHint idx v else PopTest)
      (k\<lparr>theLastReadable :=
         if theLastReadable k = idx then ps_prev (theCapacity k) idx else theLastReadable k\<rparr>))"
| pop_hint: "ps_at s i (PopHint idx v) \<Longrightarrow> k = psys_stack s \<Longrightarrow>
    ps_step s (ps_goto_own s i PIdle (v # cl_owned (psys_clients s ! i)) (k\<lparr>theFirstWritable := idx\<rparr>))"
| pop_undo: "ps_at s i PopUndo \<Longrightarrow> k = psys_stack s \<Longrightarrow>
    ps_step s (ps_goto s i PIdle (k\<lparr>theSize := theSize k + 1\<rparr>))"
| push_start: "ps_at s i PIdle \<Longrightarrow> k = psys_stack s \<Longrightarrow> p \<in> set (cl_owned (psys_clients s ! i)) \<Longrightarrow>
    ps_step s (ps_goto_own s i (PushTest p) (remove1 p (cl_owned (psys_clients s ! i))) k)"
| push_test: "ps_at s i (PushTest p) \<Longrightarrow> k = psys_stack s \<Longrightarrow>
    ps_step s (ps_goto s i (if theSize k < theCapacity k then PushRead p else PushFail p) k)"
| push_read: "ps_at s i (PushRead p) \<Longrightarrow> k = psys_stack s \<Longrightarrow>
    ps_step s (ps_goto s i (PushCas p (theFirstWritable k)) k)"
| push_cas: "ps_at s i (PushCas p idx) \<Longrightarrow> k = psys_stack s \<Longrightarrow>
    ps_step s (ps_goto s i (PushSwap p idx (theItems k ! nat idx = 0))
      (if theItems k ! nat idx = 0 then k\<lparr>theItems := (theItems k)[nat idx := p]\<rparr> else k))"
| push_swap: "ps_at s i (PushSwap p idx pushed) \<Longrightarrow> k = psys_stack s \<Longrightarrow>
    ps_step s (ps_goto s i (if pushed then PushHint idx else PushTest p)
      (k\<lparr>theFirstWritable :=
         if theFirstWritable k = idx then ps_next (theCapacity k) idx else theFirstWritable k\<rparr>))"
| push_hint: "ps_at s i (PushHint idx) \<Longrightarrow> k = psys_stack s \<Longrightarrow>
    ps_step s (ps_goto s i PushInc (k\<lparr>theLastReadable := idx\<rparr>))"
| push_inc: "ps_at s i PushInc \<Longrightarrow> k = psys_stack s \<Longrightarrow>
    ps_step s (ps_goto s i PIdle (k\<lparr>theSize := theSize k + 1\<rparr>))"

definition ps_init :: "int \<Rightarrow> ps_sys \<Rightarrow> bool" where
  "ps_init c s \<longleftrightarrow> 0 < c \<and> (\<exists>pool n. s = \<lparr>psys_stack = PageStack pool c,
     psys_clients = replicate n \<lparr>cl_pc = PIdle, cl_owned = []\<rparr>\<rparr>)"

text \<open>
  \<open>pc_pages\<close> are the page numbers a process carries in its local variables, \<open>pc_weight\<close> is what
  it has taken from \<^verbatim>\<open>theSize\<close> and not given back.
\<close>

fun pc_pages :: "ps_pc \<Rightarrow> nat multiset" where
  "pc_pages (PopSwap idx v) = (if v = 0 then {#} else {#v#})"
| "pc_pages (PopHint idx v) = {#v#}"
| "pc_pages (PushTest p) = {#p#}"
| "pc_pages (PushRead p) = {#p#}"
| "pc_pages (PushCas p idx) = {#p#}"
| "pc_pages (PushSwap p idx pushed) = (if pushed then {#} else {#p#})"
| "pc_pages (PushFail p) = {#p#}"
| "pc_pages pc = {#}"

fun pc_weight :: "ps_pc \<Rightarrow> int" where
  "pc_weight PIdle = 0"
| "pc_weight pc = 1"

fun pc_ok :: "int \<Rightarrow> ps_pc \<Rightarrow> bool" where
  "pc_ok c (PopFetch idx) \<longleftrightarrow> 0 \<le> idx \<and> idx < c"
| "pc_ok c (PopSwap idx v) \<longleftrightarrow> 0 \<le> idx \<and> idx < c"
| "pc_ok c (PopHint idx v) \<longleftrightarrow> 0 \<le> idx \<and> idx < c \<and> v \<noteq> 0"
| "pc_ok c (PushCas p idx) \<longleftrightarrow> 0 \<le> idx \<and> idx < c"
| "pc_ok c (PushSwap p idx pushed) \<longleftrightarrow> 0 \<le> idx \<and> idx < c"
| "pc_ok c (PushHint idx) \<longleftrightarrow> 0 \<le> idx \<and> idx < c"
| "pc_ok c (PushFail p) \<longleftrightarrow> False"
| "pc_ok c pc \<longleftrightarrow> True"

definition cl_pages :: "ps_client \<Rightarrow> nat multiset" where
  "cl_pages cl = pc_pages (cl_pc cl) + mset (cl_owned cl)"

definition cl_weight :: "ps_client \<Rightarrow> int" where
  "cl_weight cl = pc_weight (cl_pc cl) + int (length (cl_owned cl))"

definition all_pages :: "int \<Rightarrow> nat multiset" where
  "all_pages c = mset [1..<Suc (nat c)]"

definition ps_sys_inv :: "int \<Rightarrow> ps_sys \<Rightarrow> bool" where
  "ps_sys_inv c s \<longleftrightarrow> ps_shape (psys_stack s) \<and> theCapacity (psys_stack s) = c \<and>
     ps_free (psys_stack s) + sum_list (map cl_pages (psys_clients s)) = all_pages c \<and>
     theSize (psys_stack s) = c - sum_list (map cl_weight (psys_clients s)) \<and>
     (\<forall>cl \<in> set (psys_clients s). pc_ok c (cl_pc cl))"

lemma sum_list_split_nth:
  fixes f :: "'a \<Rightarrow> 'b :: comm_monoid_add"
  assumes "i < length xs"
  shows "\<exists>r. sum_list (map f xs) = f (xs ! i) + r \<and> (\<forall>x. sum_list (map f (xs[i := x])) = f x + r)"
  using assms
proof (induction xs arbitrary: i)
  case (Cons y ys)
  show ?case
  proof (cases i)
    case 0
    then show ?thesis by auto
  next
    case (Suc j)
    with Cons obtain r where "sum_list (map f ys) = f (ys ! j) + r"
      "\<forall>x. sum_list (map f (ys[j := x])) = f x + r" by fastforce
    then show ?thesis by (intro exI [of _ "f y + r"]) (simp add: Suc ac_simps)
  qed
qed simp

lemma ps_sys_inv_update:
  assumes inv: "ps_sys_inv c s" and i: "i < length (psys_clients s)"
    and k: "ps_shape k" "theCapacity k = c"
    and pages: "ps_free k + cl_pages cl = ps_free (psys_stack s) + cl_pages (psys_clients s ! i)"
    and weight: "theSize k + cl_weight cl = theSize (psys_stack s) + cl_weight (psys_clients s ! i)"
    and pc: "pc_ok c (cl_pc cl)"
  shows "ps_sys_inv c (s\<lparr>psys_stack := k, psys_clients := (psys_clients s)[i := cl]\<rparr>)"
proof -
  obtain r where r: "sum_list (map cl_pages (psys_clients s)) = cl_pages (psys_clients s ! i) + r"
    "sum_list (map cl_pages ((psys_clients s)[i := cl])) = cl_pages cl + r"
    using sum_list_split_nth [OF i, of cl_pages] by blast
  obtain w where w: "sum_list (map cl_weight (psys_clients s)) = cl_weight (psys_clients s ! i) + w"
    "sum_list (map cl_weight ((psys_clients s)[i := cl])) = cl_weight cl + w"
    using sum_list_split_nth [OF i, of cl_weight] by blast
  have "ps_free k + (cl_pages cl + r) = ps_free (psys_stack s) + (cl_pages (psys_clients s ! i) + r)"
    using pages by (simp only: add.assoc [symmetric])
  also have "\<dots> = all_pages c" using inv unfolding ps_sys_inv_def r(1) by blast
  finally have "ps_free k + (cl_pages cl + r) = all_pages c" .
  moreover have "\<forall>d \<in> set ((psys_clients s)[i := cl]). pc_ok c (cl_pc d)"
    using inv pc set_update_subset_insert [of "psys_clients s" i cl] by (auto simp: ps_sys_inv_def)
  ultimately show ?thesis
    using inv k weight by (simp add: ps_sys_inv_def r w)
qed

lemma cl_weight_nonneg: "0 \<le> cl_weight cl"
  by (cases "cl_pc cl") (simp_all add: cl_weight_def)

lemma ps_size_bound:
  assumes "ps_sys_inv c s" and i: "i < length (psys_clients s)"
  shows "theSize (psys_stack s) + cl_weight (psys_clients s ! i) \<le> c"
proof -
  let ?z = "\<lparr>cl_pc = PIdle, cl_owned = []\<rparr>"
  obtain w where w: "sum_list (map cl_weight (psys_clients s)) = cl_weight (psys_clients s ! i) + w"
    "sum_list (map cl_weight ((psys_clients s)[i := ?z])) = cl_weight ?z + w"
    using sum_list_split_nth [OF i, of cl_weight] by blast
  have "0 \<le> sum_list (map cl_weight ((psys_clients s)[i := ?z]))"
    by (rule sum_list_nonneg) (auto simp: cl_weight_nonneg)
  then have "0 \<le> w" using w(2) by (simp add: cl_weight_def)
  with w(1) assms(1) show ?thesis by (simp add: ps_sys_inv_def)
qed

lemma ps_page_pos:
  assumes "ps_sys_inv c s" and i: "i < length (psys_clients s)" and "p \<in># cl_pages (psys_clients s ! i)"
  shows "p \<noteq> 0"
proof -
  obtain r where "sum_list (map cl_pages (psys_clients s)) = cl_pages (psys_clients s ! i) + r"
    using sum_list_split_nth [OF i, of cl_pages] by blast
  then have "all_pages c = ps_free (psys_stack s) + (cl_pages (psys_clients s ! i) + r)"
    using assms(1) by (simp add: ps_sys_inv_def)
  then have "p \<in># all_pages c" using assms(3) by simp
  then show ?thesis by (simp add: all_pages_def del: upt_Suc)
qed

lemma ps_atD:
  assumes "ps_at s i pc"
  shows "i < length (psys_clients s)" "cl_pc (psys_clients s ! i) = pc"
  using assms by (auto simp: ps_at_def)

lemma ps_goto_inv:
  assumes "ps_sys_inv c s" and "ps_at s i pc" and "ps_shape k" "theCapacity k = c"
    and "ps_free k + pc_pages pc' = ps_free (psys_stack s) + pc_pages pc"
    and "theSize k + pc_weight pc' = theSize (psys_stack s) + pc_weight pc"
    and "pc_ok c pc'"
  shows "ps_sys_inv c (ps_goto s i pc' k)"
  unfolding ps_goto_def
  by (rule ps_sys_inv_update [OF assms(1) ps_atD(1) [OF assms(2)] assms(3,4)])
    (use assms(2,5-7) in \<open>auto simp: ps_at_def cl_pages_def cl_weight_def ac_simps\<close>)

lemma ps_goto_own_inv:
  assumes "ps_sys_inv c s" and "ps_at s i pc" and "ps_shape k" "theCapacity k = c"
    and "ps_free k = ps_free (psys_stack s)" and "theSize k = theSize (psys_stack s)"
    and "pc_pages pc' + mset owned = pc_pages pc + mset (cl_owned (psys_clients s ! i))"
    and "pc_weight pc' + int (length owned) = pc_weight pc + int (length (cl_owned (psys_clients s ! i)))"
    and "pc_ok c pc'"
  shows "ps_sys_inv c (ps_goto_own s i pc' owned k)"
  unfolding ps_goto_own_def
  by (rule ps_sys_inv_update [OF assms(1) ps_atD(1) [OF assms(2)] assms(3,4)])
    (use assms(2,5-9) in \<open>auto simp: ps_at_def cl_pages_def cl_weight_def\<close>)

lemma ps_client_ok: "ps_sys_inv c s \<Longrightarrow> ps_at s i pc \<Longrightarrow> pc_ok c pc"
  by (auto simp: ps_sys_inv_def ps_at_def)

lemma ps_stack_ok:
  "ps_sys_inv c s \<Longrightarrow> ps_shape (psys_stack s) \<and> theCapacity (psys_stack s) = c"
  by (simp add: ps_sys_inv_def)

lemma ps_step_inv: "ps_step s t \<Longrightarrow> ps_sys_inv c s \<Longrightarrow> ps_sys_inv c t"
proof (induction rule: ps_step.induct)
  case (pop_fetch s i idx k)
  note sh = ps_stack_ok [OF pop_fetch.prems] and ok = ps_client_ok [OF pop_fetch.prems pop_fetch.hyps(1)]
  have i: "nat idx < length (theItems k)" using sh ok pop_fetch.hyps(2) by (auto simp: ps_shape_def)
  show ?case
    by (rule ps_goto_inv [OF pop_fetch.prems pop_fetch.hyps(1)])
      (use sh ok pop_fetch.hyps(2) ps_free_take [OF i] ps_free_mem [OF i] in
        \<open>auto simp: ps_shape_def\<close>)
next
  case (push_cas s i p idx k)
  note sh = ps_stack_ok [OF push_cas.prems] and ok = ps_client_ok [OF push_cas.prems push_cas.hyps(1)]
  have i: "nat idx < length (theItems k)" using sh ok push_cas.hyps(2) by (auto simp: ps_shape_def)
  have "p \<noteq> 0"
    by (rule ps_page_pos [OF push_cas.prems ps_atD(1) [OF push_cas.hyps(1)]])
      (use ps_atD(2) [OF push_cas.hyps(1)] in \<open>simp add: cl_pages_def\<close>)
  then show ?case
    by (intro ps_goto_inv [OF push_cas.prems push_cas.hyps(1)])
      (use sh ok push_cas.hyps(2) ps_free_put [OF i] in \<open>auto simp: ps_shape_def\<close>)
next
  case (push_test s i p k)
  have "theSize k < theCapacity k"
    using ps_size_bound [OF push_test.prems ps_atD(1) [OF push_test.hyps(1)]]
      ps_atD(2) [OF push_test.hyps(1)] ps_stack_ok [OF push_test.prems] push_test.hyps(2)
    by (simp add: cl_weight_def)
  then show ?case
    by (intro ps_goto_inv [OF push_test.prems push_test.hyps(1)])
      (use push_test.hyps ps_stack_ok [OF push_test.prems] in auto)
next
  case (pop_hint s i idx v k)
  show ?case
    by (rule ps_goto_own_inv [OF pop_hint.prems pop_hint.hyps(1)])
      (use ps_stack_ok [OF pop_hint.prems] ps_client_ok [OF pop_hint.prems pop_hint.hyps(1)]
        pop_hint.hyps(2) in \<open>auto simp: ps_shape_def\<close>)
next
  case (push_start s i k p)
  then have "length (cl_owned (psys_clients s ! i)) > 0" by (auto intro: length_pos_if_in_set)
  then have len: "int (length (cl_owned (psys_clients s ! i)) - Suc 0) =
      int (length (cl_owned (psys_clients s ! i))) - 1"
    by (simp add: of_nat_diff Suc_le_eq)
  show ?case
    by (intro ps_goto_own_inv [OF push_start.prems push_start.hyps(1)])
      (use ps_stack_ok [OF push_start.prems] push_start.hyps(2,3) in
        \<open>auto simp: ps_shape_def length_remove1 len\<close>)
qed ((rule ps_goto_inv, assumption, assumption),
    (frule ps_stack_ok, frule (1) ps_client_ok, force simp: ps_shape_def)+)+

lemma all_pages_size [simp]: "size (all_pages c) = nat c"
  by (simp add: all_pages_def del: upt_Suc)

lemma all_pages_count: "count (all_pages c) p = (if 1 \<le> p \<and> int p \<le> c then 1 else 0)"
  by (auto simp: all_pages_def count_mset_set' simp del: upt_Suc)

lemma sum_list_replicate_empty [simp]: "sum_list (replicate n {#}) = {#}"
  by (induction n) simp_all

lemma ps_init_free: "0 < c \<Longrightarrow> ps_free (PageStack pool c) = all_pages c \<and> ps_inv (PageStack pool c) \<and>
    theCapacity (PageStack pool c) = c \<and> theSize (PageStack pool c) = c \<and> thePoolId (PageStack pool c) = pool"
proof -
  assume c: "0 < c"
  have "map (\<lambda>i. i + 1) [0..<nat c] = [1..<Suc (nat c)]"
    by (simp add: map_Suc_upt del: upt_Suc)
  then have free: "ps_free (PageStack pool c) = all_pages c"
    by (auto simp: ps_free_def all_pages_def PageStack_def Let_def filter_mset_eq_conv simp del: upt_Suc)
  moreover have "ps_shape (PageStack pool c)" using c by (simp add: ps_shape_def PageStack_def Let_def)
  ultimately show ?thesis using c by (simp add: ps_inv_def PageStack_def Let_def)
qed

lemma ps_init_inv: "ps_init c s \<Longrightarrow> ps_sys_inv c s"
  using ps_init_free [of c]
  by (auto simp: ps_init_def ps_sys_inv_def ps_inv_def cl_pages_def cl_weight_def sum_list_replicate)

interpretation pstack: inductive_invariant "ps_init c" ps_step "ps_sys_inv c" for c
  by unfold_locales (auto intro: ps_init_inv ps_step_inv)

section \<open>PagePool\<close>

record page_pool =
  pageIndex :: page_stack
  thePageSize :: int
  theLevels :: "int list"

fun purpose_index :: "page_purpose \<Rightarrow> nat" where
  "purpose_index cachePage = 0"
| "purpose_index ioPage = 1"
| "purpose_index maxPurpose = 2"

definition pool_Init :: "32 word \<Rightarrow> int \<Rightarrow> int \<Rightarrow> 32 word \<times> page_pool" where
  "pool_Init lastPagePoolId capacity pageSize =
     (let id1 = lastPagePoolId + 1; id2 = (if id1 = 0 then id1 + 1 else id1)
      in (id2, \<lparr>pageIndex = PageStack id2 capacity, thePageSize = pageSize, theLevels = [0, 0]\<rparr>))"

definition pool_total_level :: "page_pool \<Rightarrow> int" where
  "pool_total_level pl = theCapacity (pageIndex pl) - ps_size (pageIndex pl)"

definition pool_level :: "page_pool \<Rightarrow> int \<Rightarrow> int res" where
  "pool_level pl purpose =
     res_bind (res_guard (0 \<le> purpose \<and> purpose < 2) MustFailed) (\<lambda>_. Inr (theLevels pl ! nat purpose))"

definition pool_get :: "nat \<Rightarrow> page_pool \<Rightarrow> page_purpose \<Rightarrow> page_id \<Rightarrow>
    (bool \<times> page_id \<times> page_pool) option res" where
  "pool_get fuel pl purpose page =
     res_bind (res_guard (purpose \<noteq> maxPurpose) MustFailed) (\<lambda>_.
     res_bind (ps_pop fuel (pageIndex pl) page) (\<lambda>r. Inr (case r of
         None \<Rightarrow> None
       | Some (False, page1, k) \<Rightarrow> Some (False, page1, pl\<lparr>pageIndex := k\<rparr>)
       | Some (True, page1, k) \<Rightarrow>
           let ix = purpose_index purpose
           in Some (True, page1\<lparr>pi_purpose := purpose\<rparr>,
                pl\<lparr>pageIndex := k, theLevels := (theLevels pl)[ix := theLevels pl ! ix + 1]\<rparr>))))"

definition pool_put :: "nat \<Rightarrow> page_pool \<Rightarrow> page_id \<Rightarrow> (page_id \<times> page_pool) option res" where
  "pool_put fuel pl page =
     (if \<not> page_set page then Inr (Some (page, pl))
      else res_bind (res_guard (pi_purpose page \<noteq> maxPurpose) MustFailed) (\<lambda>_.
        let ix = purpose_index (pi_purpose page);
            pl1 = pl\<lparr>theLevels := (theLevels pl)[ix := theLevels pl ! ix - 1]\<rparr>
        in res_bind (ps_push fuel (pageIndex pl1) (page\<lparr>pi_purpose := maxPurpose\<rparr>)) (\<lambda>r.
             Inr (map_option (\<lambda>(page1, k). (page1, pl1\<lparr>pageIndex := k\<rparr>)) r))))"

text \<open>The offset of a page from \<^verbatim>\<open>theBuf\<close>.\<close>

definition pagePointer :: "page_pool \<Rightarrow> page_id \<Rightarrow> int res" where
  "pagePointer pl page =
     res_bind (res_guard (pageIdIsValid (pageIndex pl) page) MustFailed) (\<lambda>_.
     Inr (thePageSize pl * (int (pi_number page) - 1)))"

section \<open>Pages\<close>

record mem_pages =
  ThePagePool :: "page_pool option"
  TheLimits :: "int list"

definition array_get :: "'a list \<Rightarrow> int \<Rightarrow> 'a res" where
  "array_get xs i = (if 0 \<le> i \<and> i < int (length xs) then Inr (xs ! nat i) else Inl OutOfBounds)"

definition PageLimitFor :: "mem_pages \<Rightarrow> int \<Rightarrow> int res" where
  "PageLimitFor g purpose =
     res_bind (res_guard (0 \<le> purpose \<and> purpose \<le> 2) MustFailed) (\<lambda>_.
     array_get (TheLimits g) purpose)"

definition PageLimit :: "mem_pages \<Rightarrow> int res" where
  "PageLimit g = res_bind (PageLimitFor g 0) (\<lambda>a. res_bind (PageLimitFor g 1) (\<lambda>b. Inr (0 + a + b)))"

definition NotePageNeed :: "mem_pages \<Rightarrow> int \<Rightarrow> int \<Rightarrow> mem_pages res" where
  "NotePageNeed g purpose n =
     res_bind (res_guard (0 \<le> purpose \<and> purpose \<le> 2) MustFailed) (\<lambda>_.
     res_bind (res_guard (n \<ge> 0) MustFailed) (\<lambda>_.
     res_bind (array_get (TheLimits g) purpose) (\<lambda>l.
     Inr (g\<lparr>TheLimits := (TheLimits g)[nat purpose := l + n]\<rparr>))))"

definition PageLevel :: "mem_pages \<Rightarrow> int" where
  "PageLevel g = (case ThePagePool g of None \<Rightarrow> 0 | Some pl \<Rightarrow> pool_total_level pl)"

definition PageLevelFor :: "mem_pages \<Rightarrow> int \<Rightarrow> int res" where
  "PageLevelFor g purpose =
     (case ThePagePool g of None \<Rightarrow> Inr 0 | Some pl \<Rightarrow> pool_level pl purpose)"

definition PagesAvailable :: "mem_pages \<Rightarrow> int \<Rightarrow> 64 word res" where
  "PagesAvailable g purpose =
     res_bind (PageLimitFor g purpose) (\<lambda>limit.
     res_bind (PageLevelFor g purpose) (\<lambda>level.
     Inr (word_of_int limit - word_of_int level)))"

definition GetPage :: "nat \<Rightarrow> mem_pages \<Rightarrow> page_purpose \<Rightarrow> page_id \<Rightarrow>
    (bool \<times> page_id \<times> mem_pages) option res" where
  "GetPage fuel g purpose page =
     (case ThePagePool g of
        None \<Rightarrow> Inr (Some (False, page, g))
      | Some pl \<Rightarrow>
          res_bind (PagesAvailable g (int (purpose_index purpose))) (\<lambda>n.
          if n > 0 then
            res_bind (pool_get fuel pl purpose page) (\<lambda>r.
            Inr (map_option (\<lambda>(ok, page1, pl1). (ok, page1, g\<lparr>ThePagePool := Some pl1\<rparr>)) r))
          else Inr (Some (False, page, g))))"

definition PutPage :: "nat \<Rightarrow> mem_pages \<Rightarrow> page_id \<Rightarrow> (page_id \<times> mem_pages) option res" where
  "PutPage fuel g page =
     (case ThePagePool g of
        None \<Rightarrow> Inl MustFailed
      | Some pl \<Rightarrow> res_bind (pool_put fuel pl page) (\<lambda>r.
          Inr (map_option (\<lambda>(page1, pl1). (page1, g\<lparr>ThePagePool := Some pl1\<rparr>)) r)))"

text \<open>
  The accounts of a pool whose pages in use are \<open>held\<close>: free and held pages together are all
  pages, each once, and the levels count the held pages of each purpose.
\<close>

definition held_page :: "page_pool \<Rightarrow> page_id \<Rightarrow> bool" where
  "held_page pl page \<longleftrightarrow> pageIdIsValid (pageIndex pl) page \<and> pi_pool page \<noteq> 0 \<and> pi_purpose page \<noteq> maxPurpose"

definition pool_inv :: "page_pool \<Rightarrow> page_id list \<Rightarrow> bool" where
  "pool_inv pl held \<longleftrightarrow> ps_inv (pageIndex pl) \<and> thePoolId (pageIndex pl) \<noteq> 0 \<and>
     ps_free (pageIndex pl) + mset (map pi_number held) = all_pages (theCapacity (pageIndex pl)) \<and>
     (\<forall>page \<in> set held. held_page pl page) \<and>
     theLevels pl = [int (cnt (\<lambda>p. pi_purpose p = cachePage) held), int (cnt (\<lambda>p. pi_purpose p = ioPage) held)]"

lemma pool_total: "pool_inv pl held \<Longrightarrow>
    int (size (ps_free (pageIndex pl))) + int (length held) = theCapacity (pageIndex pl)"
proof -
  assume inv: "pool_inv pl held"
  then have "size (ps_free (pageIndex pl) + mset (map pi_number held)) = nat (theCapacity (pageIndex pl))"
    by (simp only: pool_inv_def all_pages_size)
  then have "size (ps_free (pageIndex pl)) + length held = nat (theCapacity (pageIndex pl))" by simp
  moreover have "0 < theCapacity (pageIndex pl)" using inv by (simp add: pool_inv_def ps_inv_def ps_shape_def)
  ultimately show ?thesis by linarith
qed

lemma pool_get_spec:
  assumes inv: "pool_inv pl held" and "purpose \<noteq> maxPurpose" and "\<not> page_set page"
    and "nat (theCapacity (pageIndex pl)) \<le> fuel"
  shows "if ps_free (pageIndex pl) = {#} then pool_get fuel pl purpose page = Inr (Some (False, page, pl))
    else \<exists>page' pl'. pool_get fuel pl purpose page = Inr (Some (True, page', pl')) \<and>
      pool_inv pl' (page' # held) \<and> pi_purpose page' = purpose \<and>
      pi_number page' \<notin> pi_number ` set held"
proof -
  have k: "ps_inv (pageIndex pl)" using inv by (simp add: pool_inv_def)
  note pop = ps_pop_eq [OF k assms(3,4)]
  show ?thesis
  proof (cases "ps_free (pageIndex pl) = {#}")
    case True
    then show ?thesis using pop assms(2) by (simp add: pool_get_def)
  next
    case False
    with pop obtain v k' where v: "ps_pop fuel (pageIndex pl) page = Inr (Some (True,
        page\<lparr>pi_pool := thePoolId (pageIndex pl), pi_number := v\<rparr>, k'))" "v \<in># ps_free (pageIndex pl)"
      "ps_free k' = ps_free (pageIndex pl) - {#v#}" "ps_inv k'"
      "theCapacity k' = theCapacity (pageIndex pl)" "thePoolId k' = thePoolId (pageIndex pl)"
      by auto
    define c where "c = theCapacity (pageIndex pl)"
    have all: "ps_free (pageIndex pl) + mset (map pi_number held) = all_pages c"
      using inv by (simp add: pool_inv_def c_def)
    have "count (ps_free (pageIndex pl)) v + count (mset (map pi_number held)) v = count (all_pages c) v"
      by (simp only: all [symmetric] count_union)
    moreover obtain n where "count (ps_free (pageIndex pl)) v = Suc n"
      using v(2) by (cases "count (ps_free (pageIndex pl)) v") (auto simp: count_eq_zero_iff)
    ultimately have one: "1 \<le> v \<and> int v \<le> c" "count (mset (map pi_number held)) v = 0"
      by (auto simp: all_pages_count split: if_splits)
    then have fresh: "v \<notin> pi_number ` set held" by (simp only: count_eq_zero_iff) simp
    have sum: "add_mset v (ps_free k') = ps_free (pageIndex pl)" using v(2,3) by simp
    have all': "ps_free k' + add_mset v (mset (map pi_number held)) = all_pages c"
      by (simp only: all [symmetric] sum [symmetric]) simp
    show ?thesis
      using False v(1,4-6) assms(2) fresh one(1) inv all'
      by (cases purpose)
        (auto simp: pool_get_def pool_inv_def held_page_def pageIdIsValid_def c_def Let_def)
  qed
qed

lemma pool_put_spec:
  assumes inv: "pool_inv pl held" and mem: "page \<in> set held" and fuel: "nat (theCapacity (pageIndex pl)) \<le> fuel"
  shows "\<exists>pl'. pool_put fuel pl page = Inr (Some (PageId, pl')) \<and> pool_inv pl' (remove1 page held)"
proof -
  let ?page = "page\<lparr>pi_purpose := maxPurpose\<rparr>" and ?k = "pageIndex pl"
  have hp: "held_page pl page" and k: "ps_inv ?k" using inv mem by (auto simp: pool_inv_def)
  then have set: "page_set page" "page_set ?page" "pageIdIsValid ?k ?page"
    by (auto simp: held_page_def page_set_def pageIdIsValid_def)
  have "0 < length held" using mem by (auto intro: length_pos_if_in_set)
  then have room: "int (size (ps_free ?k)) < theCapacity ?k" using pool_total [OF inv] by linarith
  from ps_push_eq [OF k set(3,2) fuel room] obtain k' where
    k': "ps_push fuel ?k ?page = Inr (Some (PageId, k'))" "ps_free k' = add_mset (pi_number page) (ps_free ?k)"
    "ps_inv k'" "theCapacity k' = theCapacity ?k" "thePoolId k' = thePoolId ?k"
    by auto
  let ?pl = "pl\<lparr>pageIndex := k', theLevels := (theLevels pl)[purpose_index (pi_purpose page) :=
    theLevels pl ! purpose_index (pi_purpose page) - 1]\<rparr>"
  have "add_mset (pi_number page) (mset (map pi_number (remove1 page held))) = mset (map pi_number held)"
    using mem by (simp add: image_mset_Diff)
  then have "ps_free k' + mset (map pi_number (remove1 page held)) = ps_free ?k + mset (map pi_number held)"
    by (simp only: k'(2)) (metis union_mset_add_mset_left union_mset_add_mset_right)
  then have all: "ps_free k' + mset (map pi_number (remove1 page held)) = all_pages (theCapacity k')"
    using inv k'(4) by (simp only: pool_inv_def)
  have cnt: "int (cnt P (remove1 page held)) = int (cnt P held) - of_bool (P page)" for P
    using mem by (induction held) auto
  have "pool_put fuel pl page = Inr (Some (PageId, ?pl))"
    using set(1) k'(1) hp by (simp add: pool_put_def held_page_def Let_def)
  moreover have "pool_inv ?pl (remove1 page held)"
    using inv k'(3-5) all hp cnt set_remove1_subset [of page held]
    by (cases "pi_purpose page") (auto simp: pool_inv_def held_page_def pageIdIsValid_def)
  ultimately show ?thesis by blast
qed

section \<open>Properties\<close>

text \<open>
  A process that runs \<^verbatim>\<open>pop()\<close> alone gets a free page whenever there is one and is refused
  only when there is none; \<^verbatim>\<open>push()\<close> of a page that is not free puts it back. Both loops end within
  as many iterations as the stack has slots, and the page numbers are conserved.
\<close>

theorem pagestack_sequential:
  assumes "ps_inv k" and "nat (theCapacity k) \<le> fuel" and "\<not> page_set page"
    and "pageIdIsValid k used" and "page_set used" and "int (size (ps_free k)) < theCapacity k"
  shows "(if ps_free k = {#} then ps_pop fuel k page = Inr (Some (False, page, k))
      else \<exists>v k'. ps_pop fuel k page =
          Inr (Some (True, page\<lparr>pi_pool := thePoolId k, pi_number := v\<rparr>, k')) \<and>
        v \<in># ps_free k \<and> ps_free k' = ps_free k - {#v#} \<and> ps_inv k') \<and>
    (\<exists>k'. ps_push fuel k used = Inr (Some (PageId, k')) \<and>
       ps_free k' = add_mset (pi_number used) (ps_free k) \<and> ps_inv k')"
  using ps_pop_eq [OF assms(1,3,2)] ps_push_eq [OF assms(1,4,5,2,6)] by (auto split: if_splits)

definition ps_demo :: page_stack where
  "ps_demo = \<lparr>thePoolId = 1, theCapacity = 3, theSize = 1, theLastReadable = 2, theFirstWritable = 0,
     theItems = [2, 0, 0]\<rparr>"

text \<open>
  C11. With any number of processes popping and pushing at the same time, every page number is
  at each moment in exactly one place: once on the stack, or with one process. So no page is lost
  or handed out twice; \<^verbatim>\<open>size()\<close> never exceeds the number of free pages, every index used is inside
  the array, and the \<^verbatim>\<open>Must(false)\<close> at the end of \<^verbatim>\<open>push()\<close> is not reached.
\<close>

theorem pagestack_pages_conserved:
  assumes "reach (ps_init c) ps_step s" and "1 \<le> p" and "int p \<le> c"
  shows "count (ps_free (psys_stack s)) p + sum_list (map (\<lambda>cl. count (cl_pages cl) p) (psys_clients s)) = 1 \<and>
    ps_size (psys_stack s) \<le> int (size (ps_free (psys_stack s))) \<and>
    list_all (\<lambda>cl. pc_ok c (cl_pc cl)) (psys_clients s)"
proof -
  have inv: "ps_sys_inv c s" by (rule pstack.reach_inv [OF assms(1)])
  have sum: "count (sum_list (map cl_pages cls)) p = sum_list (map (\<lambda>cl. count (cl_pages cl) p) cls)" for cls
    by (induction cls) auto
  have "count (ps_free (psys_stack s) + sum_list (map cl_pages (psys_clients s))) p = count (all_pages c) p"
    using inv by (simp add: ps_sys_inv_def)
  then have 1: "count (ps_free (psys_stack s)) p +
      sum_list (map (\<lambda>cl. count (cl_pages cl) p) (psys_clients s)) = 1"
    using assms(2,3) by (simp add: sum all_pages_count)
  have pw: "int (size (cl_pages cl)) \<le> cl_weight cl" for cl
    by (cases "cl_pc cl") (auto simp: cl_pages_def cl_weight_def)
  have held: "int (size (sum_list (map cl_pages cls))) \<le> sum_list (map cl_weight cls)" for cls
  proof (induction cls)
    case (Cons cl cls)
    with pw [of cl] show ?case by simp
  qed simp
  have "size (ps_free (psys_stack s) + sum_list (map cl_pages (psys_clients s))) = nat c"
    using inv by (simp add: ps_sys_inv_def)
  then have "size (ps_free (psys_stack s)) + size (sum_list (map cl_pages (psys_clients s))) = nat c"
    by simp
  moreover have "theSize (psys_stack s) = c - sum_list (map cl_weight (psys_clients s))"
    using inv by (simp add: ps_sys_inv_def)
  ultimately have "theSize (psys_stack s) \<le> int (size (ps_free (psys_stack s)))"
    using assms(2,3) held [of "psys_clients s"] by linarith
  with 1 inv show ?thesis by (simp add: ps_sys_inv_def ps_size_def list_all_iff)
qed

definition ps_race :: ps_sys where
  "ps_race = \<lparr>psys_stack = PageStack 1 2,
     psys_clients = replicate 2 \<lparr>cl_pc = PIdle, cl_owned = []\<rparr>\<rparr>"

theorem pagestack_pages_conserved_witness:
  "count (ps_free (psys_stack ps_race)) 2 = 1 \<and> ps_size (psys_stack ps_race) \<le> 2"
proof -
  have "reach (ps_init 2) ps_step ps_race"
    by (rule reach_init) (auto simp: ps_init_def ps_race_def)
  from pagestack_pages_conserved [OF this, of 2] show ?thesis
    by (simp add: ps_race_def cl_pages_def numeral_2_eq_2 ps_init_free)
qed

text \<open>
  \<^verbatim>\<open>PagePool::get\<close> hands out a page that nobody holds, and \<^verbatim>\<open>put\<close> takes back any page that
  is held: free and held pages together are always all pages, each once, and \<^verbatim>\<open>theLevels\<close> count
  the held pages of each purpose.
\<close>

theorem pagepool_accounts:
  assumes "pool_inv pl held" and "nat (theCapacity (pageIndex pl)) \<le> fuel"
  shows "(if purpose \<noteq> maxPurpose \<and> ps_free (pageIndex pl) \<noteq> {#} then
        \<exists>page' pl'. pool_get fuel pl purpose PageId = Inr (Some (True, page', pl')) \<and>
          pool_inv pl' (page' # held) \<and> pi_purpose page' = purpose \<and>
          pi_number page' \<notin> pi_number ` set held
      else pool_get fuel pl purpose PageId =
        (if purpose = maxPurpose then Inl MustFailed else Inr (Some (False, PageId, pl)))) \<and>
    (\<forall>page \<in> set held. \<exists>pl'. pool_put fuel pl page = Inr (Some (PageId, pl')) \<and>
       pool_inv pl' (remove1 page held))"
proof (rule conjI, goal_cases)
  case 1
  have "\<not> page_set PageId" by (simp add: page_set_def PageId_def)
  with pool_get_spec [OF assms(1) _ _ assms(2), of purpose PageId] show ?case
    by (cases "purpose = maxPurpose") (auto simp: pool_get_def)
next
  case 2
  then show ?case using pool_put_spec [OF assms(1) _ assms(2)] by blast
qed

text \<open>
  C12. \<^verbatim>\<open>GetPage()\<close> keeps the number of pages in use for a purpose within the limit for that
  purpose: it refuses at the limit, and otherwise serves a page and counts it, unless the pool
  itself is empty.
\<close>

theorem getpage_within_limit:
  assumes "ThePagePool g = Some pl" and "pool_inv pl held" and "nat (theCapacity (pageIndex pl)) \<le> fuel"
    and "purpose \<noteq> maxPurpose" and "length (TheLimits g) = 2"
    and "TheLimits g ! purpose_index purpose = limit" and "limit < 2 ^ 31"
    and "n = int (cnt (\<lambda>p. pi_purpose p = purpose) held)" and "n \<le> limit"
  shows "if n = limit \<or> ps_free (pageIndex pl) = {#} then
      GetPage fuel g purpose PageId = Inr (Some (False, PageId, g))
    else \<exists>page' pl'. GetPage fuel g purpose PageId = Inr (Some (True, page', g\<lparr>ThePagePool := Some pl'\<rparr>)) \<and>
      pool_inv pl' (page' # held) \<and> int (cnt (\<lambda>p. pi_purpose p = purpose) (page' # held)) \<le> limit"
proof -
  have ix: "purpose_index purpose < 2" using assms(4) by (cases purpose) simp_all
  have "theLevels pl ! purpose_index purpose = n"
    using assms(2,4,8) by (cases purpose) (simp_all add: pool_inv_def)
  then have av: "PagesAvailable g (int (purpose_index purpose)) = Inr (word_of_int limit - word_of_int n)"
    using assms(1,5,6) ix
    by (simp add: PagesAvailable_def PageLimitFor_def PageLevelFor_def pool_level_def array_get_def)
  have u: "uint (word_of_int (limit - n) :: 64 word) = limit - n"
    using assms(7-9) by (subst uint_word_of_int) (simp add: mod_pos_pos_trivial)
  have "(word_of_int limit - word_of_int n :: 64 word) = word_of_int (limit - n)" by simp
  then have pos: "(0 :: 64 word) < word_of_int limit - word_of_int n \<longleftrightarrow> n \<noteq> limit"
    unfolding word_less_def using u assms(9) by auto
  have "\<not> page_set PageId" by (simp add: page_set_def PageId_def)
  note get = pool_get_spec [OF assms(2,4) this assms(3)]
  show ?thesis
  proof (cases "n = limit \<or> ps_free (pageIndex pl) = {#}")
    case True
    then show ?thesis using get assms(1) pos av by (auto simp: GetPage_def)
  next
    case False
    with get obtain page' pl' where p: "pool_get fuel pl purpose PageId = Inr (Some (True, page', pl'))"
      "pool_inv pl' (page' # held)" "pi_purpose page' = purpose"
      by auto
    then have "GetPage fuel g purpose PageId = Inr (Some (True, page', g\<lparr>ThePagePool := Some pl'\<rparr>))"
      using False assms(1) pos av by (simp add: GetPage_def)
    with p False assms(8,9) show ?thesis by auto
  qed
qed

theorem getpage_within_limit_witness:
  "GetPage 2 \<lparr>ThePagePool = Some (snd (pool_Init 0 2 32768)), TheLimits = [2, 0]\<rparr> ioPage PageId =
     Inr (Some (False, PageId, \<lparr>ThePagePool = Some (snd (pool_Init 0 2 32768)), TheLimits = [2, 0]\<rparr>))"
proof -
  have i: "pageIndex (snd (pool_Init 0 2 32768)) = PageStack 1 2" "theLevels (snd (pool_Init 0 2 32768)) = [0, 0]"
    by (simp_all add: pool_Init_def Let_def)
  then have inv: "pool_inv (snd (pool_Init 0 2 32768)) []"
    by (simp add: pool_inv_def ps_init_free)
  show ?thesis
    using getpage_within_limit [OF _ inv, of "\<lparr>ThePagePool = Some (snd (pool_Init 0 2 32768)),
        TheLimits = [2, 0]\<rparr>" 2 ioPage 0 0]
    by (simp add: i ps_init_free)
qed

text \<open>
  The guard of \<^verbatim>\<open>PageLimit(purpose)\<close> and \<^verbatim>\<open>NotePageNeed()\<close> lets \<^verbatim>\<open>maxPurpose\<close> through, which is one
  past the end of \<^verbatim>\<open>TheLimits\<close>, while \<^verbatim>\<open>PagePool::level(purpose)\<close> refuses it.
\<close>

theorem page_limit_guard_off_by_one:
  "PageLimitFor \<lparr>ThePagePool = None, TheLimits = [a, b]\<rparr> 2 = Inl OutOfBounds \<and>
   NotePageNeed \<lparr>ThePagePool = None, TheLimits = [a, b]\<rparr> 2 1 = Inl OutOfBounds \<and>
   pool_level pl 2 = Inl MustFailed"
  by (simp add: PageLimitFor_def NotePageNeed_def array_get_def pool_level_def)

end
