(* ===== verification/C_Strings.thy ===== *)
theory C_Strings
  imports Squid_Prelude
begin

text \<open>
  The part of the C library the parsers use, on strings without their terminating zero byte:
  \<^verbatim>\<open>isspace\<close>, \<^verbatim>\<open>isdigit\<close>, \<^verbatim>\<open>strspn\<close>, \<^verbatim>\<open>strcspn\<close>, \<^verbatim>\<open>strchr\<close>, \<^verbatim>\<open>tolower\<close>, \<^verbatim>\<open>strncasecmp\<close>,
  \<^verbatim>\<open>strtoll\<close> and the \<^verbatim>\<open>%d\<close> conversion of \<^verbatim>\<open>printf\<close>, in the C locale. A pointer into a string is
  the suffix that starts there.
\<close>

section \<open>Characters\<close>

definition char_code :: "char \<Rightarrow> int" where
  "char_code c = of_char c"

definition c_isspace :: "char \<Rightarrow> bool" where
  "c_isspace c \<longleftrightarrow> char_code c = 32 \<or> (9 \<le> char_code c \<and> char_code c \<le> 13)"

definition c_isdigit :: "char \<Rightarrow> bool" where
  "c_isdigit c \<longleftrightarrow> 48 \<le> char_code c \<and> char_code c \<le> 57"

definition c_tolower :: "char \<Rightarrow> char" where
  "c_tolower c = (if 65 \<le> char_code c \<and> char_code c \<le> 90 then char_of (char_code c + 32) else c)"

section \<open>Searching\<close>

definition c_strspn :: "string \<Rightarrow> string \<Rightarrow> nat" where
  "c_strspn s accept = length (takeWhile (\<lambda>c. c \<in> set accept) s)"

definition c_strcspn :: "string \<Rightarrow> string \<Rightarrow> nat" where
  "c_strcspn s reject = length (takeWhile (\<lambda>c. c \<notin> set reject) s)"

definition c_strchr :: "string \<Rightarrow> char \<Rightarrow> nat option" where
  "c_strchr s c = (let n = length (takeWhile (\<lambda>d. d \<noteq> c) s) in if n < length s then Some n else None)"

text \<open>\<^verbatim>\<open>strncasecmp(s, t, n) == 0\<close>.\<close>

fun c_strncaseeq :: "string \<Rightarrow> string \<Rightarrow> nat \<Rightarrow> bool" where
  "c_strncaseeq s t 0 = True"
| "c_strncaseeq [] [] (Suc n) = True"
| "c_strncaseeq (a # s) (b # t) (Suc n) = (c_tolower a = c_tolower b \<and> c_strncaseeq s t n)"
| "c_strncaseeq s t (Suc n) = False"

section \<open>Numbers\<close>

definition digit_value :: "char \<Rightarrow> int" where
  "digit_value c = char_code c - 48"

fun digits_value :: "int \<Rightarrow> string \<Rightarrow> int" where
  "digits_value acc [] = acc"
| "digits_value acc (c # cs) = digits_value (10 * acc + digit_value c) cs"

definition int64_max :: int where
  "int64_max = 9223372036854775807"

definition int64_min :: int where
  "int64_min = - 9223372036854775808"

definition clamp64 :: "int \<Rightarrow> int" where
  "clamp64 x = (if x > int64_max then int64_max else if x < int64_min then int64_min else x)"

text \<open>
  \<^verbatim>\<open>strtoll(s, &end, 10)\<close>: the value and, when digits were found, where they end. Without digits
  the value is 0.
\<close>

definition c_sign :: "string \<Rightarrow> bool \<times> string" where
  "c_sign s = (case s of [] \<Rightarrow> (False, s)
     | c # r \<Rightarrow> if c = CHR ''-'' then (True, r) else if c = CHR ''+'' then (False, r) else (False, s))"

definition c_strtoll :: "string \<Rightarrow> int \<times> string option" where
  "c_strtoll s =
     (let (neg, s1) = c_sign (dropWhile c_isspace s);
          ds = takeWhile c_isdigit s1;
          n = digits_value 0 ds
      in if ds = [] then (0, None)
         else (clamp64 (if neg then - n else n), Some (dropWhile c_isdigit s1)))"

text \<open>\<^verbatim>\<open>strtoll(s, &end, 16)\<close>, with its optional \<^verbatim>\<open>0x\<close> prefix.\<close>

definition c_isxdigit :: "char \<Rightarrow> bool" where
  "c_isxdigit c \<longleftrightarrow> c_isdigit c \<or> (65 \<le> char_code c \<and> char_code c \<le> 70) \<or> (97 \<le> char_code c \<and> char_code c \<le> 102)"

definition xdigit_value :: "char \<Rightarrow> int" where
  "xdigit_value c =
     (if c_isdigit c then char_code c - 48
      else if char_code c \<le> 70 then char_code c - 55 else char_code c - 87)"

fun xdigits_value :: "int \<Rightarrow> string \<Rightarrow> int" where
  "xdigits_value acc [] = acc"
| "xdigits_value acc (c # cs) = xdigits_value (16 * acc + xdigit_value c) cs"

definition c_skip_0x :: "string \<Rightarrow> string" where
  "c_skip_0x s = (case s of
      z # x # d # r \<Rightarrow> if z = CHR ''0'' \<and> (x = CHR ''x'' \<or> x = CHR ''X'') \<and> c_isxdigit d then d # r else s
    | _ \<Rightarrow> s)"

definition c_strtoll16 :: "string \<Rightarrow> int \<times> string option" where
  "c_strtoll16 s =
     (let (neg, s1) = c_sign (dropWhile c_isspace s);
          s2 = c_skip_0x s1;
          ds = takeWhile c_isxdigit s2;
          n = xdigits_value 0 ds
      in if ds = [] then (0, None)
         else (clamp64 (if neg then - n else n), Some (dropWhile c_isxdigit s2)))"

fun show_nat :: "nat \<Rightarrow> string" where
  "show_nat n = (if n < 10 then [char_of (n + 48)] else show_nat (n div 10) @ [char_of (n mod 10 + 48)])"

declare show_nat.simps [simp del]

definition show_int :: "int \<Rightarrow> string" where
  "show_int x = (if x < 0 then CHR ''-'' # show_nat (nat (- x)) else show_nat (nat x))"

section \<open>Facts\<close>

lemma c_strspn_le: "c_strspn s a \<le> length s"
  by (simp add: c_strspn_def length_takeWhile_le)

lemma c_strcspn_le: "c_strcspn s a \<le> length s"
  by (simp add: c_strcspn_def length_takeWhile_le)

lemma char_code_digit [simp]: "d < 10 \<Longrightarrow> char_code (char_of (d + 48 :: nat)) = int d + 48"
proof -
  assume "d < 10"
  have "char_code (char_of (d + 48 :: nat)) = int (of_char (char_of (d + 48 :: nat) :: char))"
    by (simp only: char_code_def of_nat_of_char)
  also have "\<dots> = int (d + 48)" using \<open>d < 10\<close> by (simp only: of_char_of) simp
  finally show ?thesis by simp
qed

lemma digit_char [simp]: "d < 10 \<Longrightarrow> c_isdigit (char_of (d + 48 :: nat))"
  "d < 10 \<Longrightarrow> digit_value (char_of (d + 48 :: nat)) = int d"
  by (simp_all add: c_isdigit_def digit_value_def)

lemma digits_value_append: "digits_value a (s @ t) = digits_value (digits_value a s) t"
  by (induction s arbitrary: a) auto

lemma show_nat_digits: "\<forall>c \<in> set (show_nat n). c_isdigit c"
proof (induction n rule: show_nat.induct)
  case (1 n)
  show ?case
    using 1 by (subst show_nat.simps) (auto)
qed

lemma show_nat_nonempty [simp]: "show_nat n \<noteq> []"
  by (subst show_nat.simps) simp

lemma show_nat_value: "digits_value 0 (show_nat n) = int n"
proof (induction n rule: show_nat.induct)
  case (1 n)
  have "10 * int (n div 10) + int (n mod 10) = int n"
    by (simp only: of_nat_div of_nat_mod of_nat_numeral mult_div_mod_eq)
  then show ?case
    using 1 by (subst show_nat.simps) (auto simp: digits_value_append)
qed

lemma c_isdigit_not_space: "c_isdigit c \<Longrightarrow> \<not> c_isspace c"
  by (auto simp: c_isdigit_def c_isspace_def)

lemma c_isdigit_not_sign: "c_isdigit c \<Longrightarrow> c \<noteq> CHR ''-'' \<and> c \<noteq> CHR ''+''"
  by (auto simp: c_isdigit_def char_code_def)

lemma c_strchr_append: "c \<notin> set s \<Longrightarrow> c_strchr (s @ c # t) c = Some (length s)"
proof -
  assume "c \<notin> set s"
  then have "takeWhile (\<lambda>d. d \<noteq> c) (s @ c # t) = s" by (induction s) auto
  then show ?thesis unfolding c_strchr_def by simp
qed

lemma c_strchr_none: "c \<notin> set s \<Longrightarrow> c_strchr s c = None"
proof -
  assume "c \<notin> set s"
  then have "takeWhile (\<lambda>d. d \<noteq> c) s = s" by (induction s) auto
  then show ?thesis unfolding c_strchr_def Let_def by (simp del: takeWhile_eq_all_conv)
qed

text \<open>A printed number is read back, whatever follows it, if that does not start with a digit.\<close>

lemma c_strtoll_show:
  assumes "rest = [] \<or> \<not> c_isdigit (hd rest)" and "int n \<le> int64_max"
  shows "c_strtoll (show_nat n @ rest) = (int n, Some rest)"
proof -
  obtain d ds where s: "show_nat n = d # ds" by (cases "show_nat n") auto
  have dig: "\<forall>c \<in> set (show_nat n). c_isdigit c" by (rule show_nat_digits)
  then have d: "c_isdigit d" using s by simp
  have "dropWhile c_isspace (show_nat n @ rest) = show_nat n @ rest"
    using c_isdigit_not_space [OF d] by (simp add: s)
  moreover have "c_sign (show_nat n @ rest) = (False, show_nat n @ rest)"
    using c_isdigit_not_sign [OF d] by (simp add: s c_sign_def)
  moreover have "takeWhile c_isdigit rest = []" "dropWhile c_isdigit rest = rest"
    using assms(1) by (cases rest; simp)+
  then have "takeWhile c_isdigit (show_nat n @ rest) = show_nat n" "dropWhile c_isdigit (show_nat n @ rest) = rest"
    using dig by (simp_all add: takeWhile_append2 dropWhile_append2)
  ultimately show ?thesis
    using assms(2) by (simp add: c_strtoll_def show_nat_value clamp64_def int64_min_def)
qed

section \<open>Hexadecimal\<close>

definition xdigit_char :: "nat \<Rightarrow> char" where
  "xdigit_char d = (if d < 10 then char_of (d + 48) else char_of (d + 87))"

fun show_hex :: "nat \<Rightarrow> string" where
  "show_hex n = (if n < 16 then [xdigit_char n] else show_hex (n div 16) @ [xdigit_char (n mod 16)])"

declare show_hex.simps [simp del]

lemma char_code_of_nat: "n < 256 \<Longrightarrow> char_code (char_of (n :: nat)) = int n"
proof -
  assume "n < 256"
  have "char_code (char_of n) = int (of_char (char_of n :: char))" by (simp only: char_code_def of_nat_of_char)
  also have "\<dots> = int n" using \<open>n < 256\<close> by (simp only: of_char_of) simp
  finally show ?thesis .
qed

lemma xdigit_char_code: "d < 16 \<Longrightarrow> char_code (xdigit_char d) = (if d < 10 then int d + 48 else int d + 87)"
  by (simp add: xdigit_char_def char_code_of_nat)

lemma xdigit_char_simps [simp]:
  assumes "d < 16"
  shows "c_isxdigit (xdigit_char d)" and "xdigit_value (xdigit_char d) = int d"
  using assms by (auto simp: c_isxdigit_def xdigit_value_def c_isdigit_def xdigit_char_code)

lemma xdigits_value_append: "xdigits_value a (s @ t) = xdigits_value (xdigits_value a s) t"
  by (induction s arbitrary: a) auto

lemma show_hex_digits: "\<forall>c \<in> set (show_hex n). c_isxdigit c"
proof (induction n rule: show_hex.induct)
  case (1 n)
  then show ?case by (subst show_hex.simps) auto
qed

lemma show_hex_nonempty [simp]: "show_hex n \<noteq> []"
  by (subst show_hex.simps) simp

lemma show_hex_value: "xdigits_value 0 (show_hex n) = int n"
proof (induction n rule: show_hex.induct)
  case (1 n)
  have "16 * int (n div 16) + int (n mod 16) = int n"
    by (simp only: of_nat_div of_nat_mod of_nat_numeral mult_div_mod_eq)
  then show ?case using 1 by (subst show_hex.simps) (auto simp: xdigits_value_append)
qed

lemma c_isxdigit_plain:
  "c_isxdigit c \<Longrightarrow> \<not> c_isspace c \<and> c \<noteq> CHR ''-'' \<and> c \<noteq> CHR ''+'' \<and> c \<noteq> CHR ''x'' \<and> c \<noteq> CHR ''X'' \<and>
     c \<noteq> CHR 0x0A \<and> c \<noteq> CHR 0x22"
  by (auto simp: c_isxdigit_def c_isdigit_def c_isspace_def char_code_def)

lemma c_strtoll16_show:
  assumes "rest = [] \<or> (\<not> c_isxdigit (hd rest) \<and> hd rest \<noteq> CHR ''x'' \<and> hd rest \<noteq> CHR ''X'')"
    and "int n \<le> int64_max"
  shows "c_strtoll16 (show_hex n @ rest) = (int n, Some rest)"
proof -
  obtain d ds where s: "show_hex n = d # ds" by (cases "show_hex n") auto
  have dig: "\<forall>c \<in> set (show_hex n). c_isxdigit c" by (rule show_hex_digits)
  then have d: "c_isxdigit d" "\<forall>c \<in> set ds. c_isxdigit c" using s by simp_all
  have "dropWhile c_isspace (show_hex n @ rest) = show_hex n @ rest"
    using c_isxdigit_plain [OF d(1)] by (simp add: s)
  moreover have "c_sign (show_hex n @ rest) = (False, show_hex n @ rest)"
    using c_isxdigit_plain [OF d(1)] by (simp add: s c_sign_def)
  moreover have "c_skip_0x (show_hex n @ rest) = show_hex n @ rest"
    using d(2) assms(1) c_isxdigit_plain by (cases ds; cases rest) (auto simp: s c_skip_0x_def split: list.splits)
  moreover have "takeWhile c_isxdigit rest = []" "dropWhile c_isxdigit rest = rest"
    using assms(1) by (cases rest; simp)+
  then have "takeWhile c_isxdigit (show_hex n @ rest) = show_hex n" "dropWhile c_isxdigit (show_hex n @ rest) = rest"
    using dig by (simp_all add: takeWhile_append2 dropWhile_append2)
  ultimately show ?thesis
    using assms(2) by (simp add: c_strtoll16_def show_hex_value clamp64_def int64_min_def)
qed

end
