(* ===== verification/Str_List.thy ===== *)
theory Str_List
  imports C_Strings "HOL-Library.Sublist"
begin

text \<open>
  Lists inside header fields (src/StrList.cc): \<^verbatim>\<open>strListGetItem\<close>, the iteration all field
  parsers use, and the operations built on it. An item is the suffix of the field where it starts
  and its length, since the callers read on past the end of an item.
\<close>

definition sl_delim :: "char \<Rightarrow> bool \<Rightarrow> string" where
  "sl_delim del quoted = (if quoted then [CHR 0x22, CHR 0x5C] else [CHR 0x22, del, CHR '','']) "

definition sl_skip :: "char \<Rightarrow> string" where
  "sl_skip del = [CHR '' '', del, CHR '','', CHR 0x09, CHR 0x0D, CHR 0x0A]"

text \<open>The \<^verbatim>\<open>do\<close> loop that finds the next delimiter outside quotes.\<close>

function sl_find :: "char \<Rightarrow> bool \<Rightarrow> string \<Rightarrow> string" where
  "sl_find del quoted pos =
     (case drop (c_strcspn pos (sl_delim del quoted)) pos of
        [] \<Rightarrow> []
      | c # r \<Rightarrow>
          if c = CHR 0x22 then (if r = [] then [] else sl_find del (\<not> quoted) r)
          else if quoted \<and> c = CHR 0x5C then
            (case r of [] \<Rightarrow> [] | _ # r1 \<Rightarrow> if r1 = [] then [] else sl_find del quoted r1)
          else c # r)"
  by pat_completeness auto
termination
proof (relation "measure (\<lambda>(_, _, pos). length pos)")
  show "wf (measure (\<lambda>(_, _, pos). length pos))" by simp
next
  fix del :: char and quoted :: bool and pos :: string and x21 x22
  assume "drop (c_strcspn pos (sl_delim del quoted)) pos = x21 # x22"
  then have "length (x21 # x22) \<le> length pos" by (metis length_drop diff_le_self)
  then show "((del, \<not> quoted, x22), del, quoted, pos) \<in> measure (\<lambda>(_, _, pos). length pos)" by simp
next
  fix del :: char and quoted :: bool and pos :: string and x21 x22 x21a x22a
  assume "drop (c_strcspn pos (sl_delim del quoted)) pos = x21 # x22" and "x22 = x21a # x22a"
  then have "length (x21 # x21a # x22a) \<le> length pos" by (metis length_drop diff_le_self)
  then show "((del, quoted, x22a), del, quoted, pos) \<in> measure (\<lambda>(_, _, pos). length pos)" by simp
qed

declare sl_find.simps [simp del]

definition rtrim_length :: "string \<Rightarrow> nat" where
  "rtrim_length s = length (dropWhile c_isspace (rev s))"

definition strListGetItem :: "char \<Rightarrow> string \<Rightarrow> (string \<times> nat) option \<times> string" where
  "strListGetItem del pos =
     (let item = drop (c_strspn pos (sl_skip del)) pos;
          pos1 = sl_find del False item;
          len = rtrim_length (take (length item - length pos1) item)
      in (if len > 0 then Some (item, len) else None, pos1))"

definition strListAdd :: "string \<Rightarrow> string \<Rightarrow> char \<Rightarrow> string" where
  "strListAdd str item del = (if str \<noteq> [] then str @ [del, CHR '' ''] else str) @ item"

lemma sl_find_suffix: "suffix (sl_find del q pos) pos"
proof (induction del q pos rule: sl_find.induct)
  case (1 del q pos)
  let ?n = "c_strcspn pos (sl_delim del q)"
  show ?case
  proof (cases "drop ?n pos")
    case Nil
    then show ?thesis by (subst sl_find.simps) simp
  next
    case (Cons c r)
    then have s: "suffix (c # r) pos" using suffix_drop [of ?n pos] by simp
    then have r: "suffix r pos" by (rule suffix_ConsD)
    have r1: "r = d # r1 \<Longrightarrow> suffix r1 pos" for d r1 using r by (simp add: suffix_ConsD)
    have q: "suffix (sl_find del (\<not> q) r) pos" if "c = CHR 0x22" "r \<noteq> []"
      using 1(1) [OF Cons that] r by (rule suffix_order.trans)
    have e: "suffix (sl_find del q r1) pos"
      if "c \<noteq> CHR 0x22" "q \<and> c = CHR 0x5C" "r = d # r1" "r1 \<noteq> []" for d r1
      using 1(2) [OF Cons that] r1 [OF that(3)] by (rule suffix_order.trans)
    show ?thesis
    proof (cases r)
      case Nil
      then show ?thesis using s Cons by (subst sl_find.simps) auto
    next
      case (Cons d r2)
      then show ?thesis
        using \<open>drop ?n pos = c # r\<close> s q e [OF _ _ Cons] by (subst sl_find.simps) simp
    qed
  qed
qed

lemma strListGetItem_progress:
  assumes "strListGetItem del pos = (Some (item, len), pos1)"
  shows "length pos1 < length pos" and "len \<le> length item"
proof -
  let ?i = "drop (c_strspn pos (sl_skip del)) pos"
  have i: "item = ?i" "pos1 = sl_find del False ?i" "len = rtrim_length (take (length ?i - length pos1) ?i)" "0 < len"
    using assms by (auto simp: strListGetItem_def Let_def split: if_splits)
  have "rtrim_length s \<le> length s" for s
    by (simp add: rtrim_length_def) (metis length_dropWhile_le length_rev)
  then have le: "len \<le> length ?i - length pos1" using i(3) by (metis length_take min.cobounded2 order_trans)
  with i(4) have "length pos1 < length ?i" by simp
  then show "length pos1 < length pos" by (metis length_drop diff_le_self order_less_le_trans)
  show "len \<le> length item" using le i(1) by simp
qed

text \<open>Iterating over a whole field.\<close>

function sl_items :: "char \<Rightarrow> string \<Rightarrow> (string \<times> nat) list" where
  "sl_items del pos = (case strListGetItem del pos of
      (None, _) \<Rightarrow> [] | (Some it, pos1) \<Rightarrow> it # sl_items del pos1)"
  by pat_completeness auto
termination
  by (relation "measure (\<lambda>(_, pos). length pos)") (auto dest: strListGetItem_progress [OF sym])

declare sl_items.simps [simp del]

definition strListIsMember :: "string \<Rightarrow> string \<Rightarrow> char \<Rightarrow> bool" where
  "strListIsMember lst m del \<longleftrightarrow>
     list_ex (\<lambda>(item, ilen). length m = ilen \<and> c_strncaseeq item m ilen) (sl_items del lst)"

section \<open>Reading a plain list\<close>

text \<open>
  A token has no quotes, delimiters or white space; a field of tokens joined by the delimiter is
  read back token by token, each with the rest of the field behind it.
\<close>

definition sl_token :: "char \<Rightarrow> string \<Rightarrow> bool" where
  "sl_token del s \<longleftrightarrow> s \<noteq> [] \<and>
     (\<forall>c \<in> set s. c \<noteq> CHR 0x22 \<and> c \<noteq> CHR 0x5C \<and> c \<notin> set (sl_skip del) \<and> \<not> c_isspace c)"

lemma sl_find_token:
  assumes "sl_token del s" and "rest = [] \<or> hd rest = del" and "del \<noteq> CHR 0x22"
  shows "sl_find del False (s @ rest) = rest"
proof -
  let ?P = "\<lambda>c. c \<notin> set (sl_delim del False)"
  have s: "\<forall>c \<in> set s. ?P c" using assms(1) by (auto simp: sl_token_def sl_delim_def sl_skip_def)
  have "takeWhile ?P rest = []" using assms(2) by (cases rest) (auto simp: sl_delim_def)
  then have "takeWhile ?P (s @ rest) = s" using s by (simp add: takeWhile_append2)
  then have "c_strcspn (s @ rest) (sl_delim del False) = length s" by (simp add: c_strcspn_def)
  then show ?thesis
    using assms(2,3) by (subst sl_find.simps) (cases rest, auto)
qed

lemma rtrim_token: "sl_token del s \<Longrightarrow> rtrim_length s = length s"
proof -
  assume "sl_token del s"
  then obtain t c where "s = t @ [c]" "\<not> c_isspace c"
    by (cases s rule: rev_cases) (auto simp: sl_token_def)
  then show ?thesis by (simp add: rtrim_length_def)
qed

lemma strListGetItem_token:
  assumes tok: "sl_token del s" and rest: "rest = [] \<or> hd rest = del" and del: "del \<noteq> CHR 0x22"
    and skip: "set lead \<subseteq> set (sl_skip del)"
  shows "strListGetItem del (lead @ s @ rest) = (Some (s @ rest, length s), rest)"
proof -
  have s: "s \<noteq> []" "hd s \<notin> set (sl_skip del)" using tok by (cases s; auto simp: sl_token_def)+
  have "takeWhile (\<lambda>c. c \<in> set (sl_skip del)) (s @ rest) = []" using s by (cases s) auto
  then have "c_strspn (lead @ s @ rest) (sl_skip del) = length lead"
    using skip by (auto simp: c_strspn_def takeWhile_append2 subset_iff)
  then show ?thesis
    using sl_find_token [OF tok rest del] rtrim_token [OF tok] s(1)
    by (simp add: strListGetItem_def Let_def)
qed

lemma strListGetItem_Nil [simp]: "strListGetItem del [] = (None, [])"
  by (simp add: strListGetItem_def rtrim_length_def sl_find.simps Let_def)

section \<open>Lengths of the items\<close>

lemma sl_find_hd: "sl_find del q pos = [] \<or> hd (sl_find del q pos) \<in> {del, CHR '',''}"
proof (induction del q pos rule: sl_find.induct)
  case (1 del q pos)
  let ?d = "drop (c_strcspn pos (sl_delim del q)) pos" and ?ok = "\<lambda>s. s = [] \<or> hd s \<in> {del, CHR '',''}"
  show ?case
  proof (cases ?d)
    case Nil
    then show ?thesis by (subst sl_find.simps) simp
  next
    case (Cons c r)
    have "?d = dropWhile (\<lambda>c. c \<notin> set (sl_delim del q)) pos" by (simp add: c_strcspn_def dropWhile_eq_drop)
    then have c: "c \<in> set (sl_delim del q)" using Cons by (metis dropWhile_eq_Cons_conv)
    consider "c = CHR 0x22" | "c \<noteq> CHR 0x22" "q \<and> c = CHR 0x5C" | "c \<noteq> CHR 0x22" "\<not> (q \<and> c = CHR 0x5C)" by blast
    then show ?thesis
    proof cases
      case 1
      then have "sl_find del q pos = (if r = [] then [] else sl_find del (\<not> q) r)" using Cons by (subst sl_find.simps) simp
      then show ?thesis using "1.IH"(1) [OF Cons 1] by simp
    next
      case 2
      then have "sl_find del q pos = (if tl r = [] then [] else sl_find del q (tl r))" using Cons
        by (subst sl_find.simps) (cases r; simp)
      then show ?thesis using "1.IH"(2) [OF Cons 2] by (cases r) auto
    next
      case 3
      then have "sl_find del q pos = c # r" using Cons by (subst sl_find.simps) auto
      then show ?thesis using c 3 by (auto simp: sl_delim_def split: if_splits)
    qed
  qed
qed

lemma strListGetItem_length:
  assumes "strListGetItem del pos = (Some (item, len), pos1)"
  shows "0 < len" and "len \<le> length item" and "length item = length pos - c_strspn pos (sl_skip del)"
    and "len + length pos1 \<le> length item" and "pos1 = [] \<or> hd pos1 \<in> {del, CHR '',''}"
proof -
  let ?i = "drop (c_strspn pos (sl_skip del)) pos"
  have i: "item = ?i" "pos1 = sl_find del False ?i" "len = rtrim_length (take (length ?i - length pos1) ?i)" "0 < len"
    using assms by (auto simp: strListGetItem_def Let_def split: if_splits)
  have "rtrim_length s \<le> length s" for s
    by (simp add: rtrim_length_def) (metis length_dropWhile_le length_rev)
  then have "len \<le> length ?i - length pos1" using i(3) by (metis length_take min.cobounded2 order_trans)
  then show "0 < len" "len \<le> length item" "len + length pos1 \<le> length item" using i by auto
  show "length item = length pos - c_strspn pos (sl_skip del)" using i(1) by simp
  show "pos1 = [] \<or> hd pos1 \<in> {del, CHR '',''}" using sl_find_hd [of del False ?i] i(2) by auto
qed

lemma sl_items_total:
  "(\<Sum>(item, len) \<leftarrow> sl_items del pos. len + 1) + of_bool (pos \<noteq> [] \<and> hd pos \<in> {del, CHR '',''}) \<le> length pos + 1"
proof (induction del pos rule: sl_items.induct)
  case (1 del pos)
  show ?case
  proof (cases "strListGetItem del pos")
    case (Pair r pos1)
    show ?thesis
    proof (cases r)
      case None
      then show ?thesis using Pair by (subst sl_items.simps) (cases pos, auto)
    next
      case (Some it)
      obtain item len where it: "it = (item, len)" by (cases it)
      note g = strListGetItem_length [OF Pair [unfolded Some it]]
      have "(\<Sum>(item, len) \<leftarrow> sl_items del pos1. len + 1) \<le> length pos1"
        using 1 [OF Pair [symmetric] Some] g(5)
        by (cases pos1) (auto simp: sl_items.simps [of del "[]"])
      moreover have "of_bool (pos \<noteq> [] \<and> hd pos \<in> {del, CHR '',''}) \<le> c_strspn pos (sl_skip del)"
        by (cases pos) (auto simp: c_strspn_def sl_skip_def)
      moreover have "c_strspn pos (sl_skip del) \<le> length pos" by (rule c_strspn_le)
      ultimately show ?thesis using Pair Some it g(3,4) by (subst sl_items.simps) simp
    qed
  qed
qed

lemma sl_items_lengths: "(item, len) \<in> set (sl_items del pos) \<Longrightarrow> 0 < len \<and> len \<le> length item"
proof (induction del pos rule: sl_items.induct)
  case (1 del pos)
  show ?case
  proof (cases "strListGetItem del pos")
    case (Pair r pos1)
    then show ?thesis using 1 strListGetItem_length(1,2) [of del pos item len pos1]
      by (cases r) (auto simp: sl_items.simps [of del pos])
  qed
qed


lemma sl_items_more:
  assumes "strListGetItem del pos = (Some it, pos1)"
  shows "sl_items del pos = it # sl_items del pos1"
  using assms by (subst sl_items.simps) simp

end
