(* ===== verification/Http_Range.thy ===== *)
theory Http_Range
  imports Str_List
begin

text \<open>
  Byte ranges (src/HttpHdrRange.cc, src/HttpHeaderRange.h, include/Range.h and
  \<^verbatim>\<open>httpHeaderParseOffset\<close> of src/HttpHeaderTools.cc): parsing and printing of the Range field,
  canonization against the length of the object, and the questions Squid asks about a set of
  ranges.

  Positions are \<^verbatim>\<open>int64_t\<close>: sums are reduced by \<open>to_int64\<close>. The parameter \<open>einval\<close> says whether
  \<^verbatim>\<open>strtoll\<close> sets \<^verbatim>\<open>errno\<close> to \<^verbatim>\<open>EINVAL\<close> when it finds no digits, which POSIX leaves open.
  \<^verbatim>\<open>MERGING_BREAKS_NOTHING\<close> is not defined anywhere, so \<^verbatim>\<open>mergeWith\<close> never merges.
\<close>

section \<open>Range\<close>

record http_range =
  r_start :: int
  r_end :: int

definition http_range_of :: "int \<Rightarrow> int \<Rightarrow> http_range" where
  "http_range_of a b = \<lparr>r_start = a, r_end = b\<rparr>"

definition range_intersection :: "http_range \<Rightarrow> http_range \<Rightarrow> http_range" where
  "range_intersection r rhs = http_range_of (max (r_start r) (r_start rhs)) (min (r_end r) (r_end rhs))"

definition range_size :: "http_range \<Rightarrow> int" where
  "range_size r = (if r_end r > r_start r then (r_end r - r_start r) mod 2 ^ 64 else 0)"

section \<open>HttpHdrRangeSpec\<close>

record range_spec =
  rs_offset :: int
  rs_length :: int

definition UnknownPosition :: int where
  "UnknownPosition = - 1"

definition known_spec :: "int \<Rightarrow> bool" where
  "known_spec s \<longleftrightarrow> s > UnknownPosition"

definition HttpHdrRangeSpec :: range_spec where
  "HttpHdrRangeSpec = \<lparr>rs_offset = UnknownPosition, rs_length = UnknownPosition\<rparr>"

definition httpHeaderParseOffset :: "bool \<Rightarrow> string \<Rightarrow> int option" where
  "httpHeaderParseOffset einval start =
     (case c_strtoll start of
        (res, e) \<Rightarrow> if res = 0 \<and> e = None \<and> einval then None else Some res)"

definition spec_parseInit :: "bool \<Rightarrow> string \<Rightarrow> nat \<Rightarrow> range_spec option" where
  "spec_parseInit einval field flen =
     (if flen < 2 then None
      else if take 1 field = ''-'' then
        map_option (\<lambda>len. HttpHdrRangeSpec\<lparr>rs_length := len\<rparr>) (httpHeaderParseOffset einval (drop 1 field))
      else case c_strchr field CHR ''-'' of
        None \<Rightarrow> None
      | Some p \<Rightarrow>
          if \<not> p < flen then None
          else Option.bind (httpHeaderParseOffset einval field) (\<lambda>offset.
            if p + 1 < flen then
              Option.bind (httpHeaderParseOffset einval (drop (p + 1) field)) (\<lambda>last_pos.
              if last_pos < offset then None
              else let aSpec = http_range_of offset (to_int64 (last_pos + 1))
                   in Some \<lparr>rs_offset = offset, rs_length = to_int64 (range_size aSpec)\<rparr>)
            else Some (HttpHdrRangeSpec\<lparr>rs_offset := offset\<rparr>)))"

definition spec_packInto :: "range_spec \<Rightarrow> string" where
  "spec_packInto s =
     (if \<not> known_spec (rs_offset s) then ''-'' @ show_int (rs_length s)
      else if \<not> known_spec (rs_length s) then show_int (rs_offset s) @ ''-''
      else show_int (rs_offset s) @ ''-'' @ show_int (to_int64 (rs_offset s + rs_length s - 1)))"

definition spec_canonize :: "int \<Rightarrow> range_spec \<Rightarrow> (bool \<times> range_spec) res" where
  "spec_canonize clen s =
     (let object = http_range_of 0 clen in
      res_bind
        (if \<not> known_spec (rs_offset s) then
           res_bind (res_guard (known_spec (rs_length s)) Assertion) (\<lambda>_.
           Inr (s\<lparr>rs_offset := r_start (range_intersection object
                   (http_range_of (to_int64 (clen - rs_length s)) clen))\<rparr>))
         else if \<not> known_spec (rs_length s) then
           res_bind (res_guard (known_spec (rs_offset s)) Assertion) (\<lambda>_.
           Inr (s\<lparr>rs_length := to_int64 (range_size (range_intersection object
                   (http_range_of (rs_offset s) clen)))\<rparr>))
         else Inr s) (\<lambda>s1.
      res_bind (res_guard (known_spec (rs_length s1)) Assertion) (\<lambda>_.
      res_bind (res_guard (known_spec (rs_offset s1)) Assertion) (\<lambda>_.
      let newRange = range_intersection object
            (http_range_of (rs_offset s1) (to_int64 (rs_offset s1 + rs_length s1)));
          s2 = s1\<lparr>rs_length := to_int64 (range_size newRange)\<rparr>
      in Inr (rs_length s2 > 0, s2)))))"

definition spec_mergeWith :: "range_spec \<Rightarrow> range_spec \<Rightarrow> bool \<times> range_spec" where
  "spec_mergeWith s donor = (False, s)"

section \<open>HttpHdrRange\<close>

record hdr_range =
  hr_specs :: "range_spec list"
  hr_clen :: int

fun parse_specs :: "bool \<Rightarrow> range_spec list \<Rightarrow> (string \<times> nat) list \<Rightarrow> range_spec list" where
  "parse_specs einval specs [] = specs"
| "parse_specs einval specs ((item, ilen) # items) =
     (case spec_parseInit einval item ilen of
        None \<Rightarrow> []
      | Some spec \<Rightarrow> parse_specs einval (specs @ [spec]) items)"

definition range_ParseCreate :: "bool \<Rightarrow> string \<Rightarrow> hdr_range option" where
  "range_ParseCreate einval range_spec =
     (if \<not> c_strncaseeq range_spec ''bytes='' 6 then None
      else let specs = parse_specs einval [] (sl_items CHR '','' (drop 6 range_spec))
      in if specs = [] then None else Some \<lparr>hr_specs = specs, hr_clen = UnknownPosition\<rparr>)"

fun range_packInto :: "bool \<Rightarrow> range_spec list \<Rightarrow> string" where
  "range_packInto first [] = []"
| "range_packInto first (s # ss) = (if \<not> first then '','' else []) @ spec_packInto s @ range_packInto False ss"

function range_merge :: "range_spec list \<Rightarrow> range_spec list \<Rightarrow> range_spec list" where
  "range_merge specs [] = specs"
| "range_merge specs (b # basis) =
     (if specs \<noteq> [] \<and> fst (spec_mergeWith b (last specs)) then
        range_merge (butlast specs) (snd (spec_mergeWith b (last specs)) # basis)
      else range_merge (specs @ [b]) basis)"
  by pat_completeness auto
termination
  by (relation "measure (\<lambda>(specs, basis). 2 * length basis + length specs)")
    (auto simp: neq_Nil_conv)

fun getCanonizedSpecs :: "int \<Rightarrow> range_spec list \<Rightarrow> range_spec list res" where
  "getCanonizedSpecs clen [] = Inr []"
| "getCanonizedSpecs clen (s # ss) =
     res_bind (spec_canonize clen s) (\<lambda>(good, s1).
     res_bind (getCanonizedSpecs clen ss) (\<lambda>copy.
     Inr (if good then s1 # copy else copy)))"

definition range_canonize :: "int \<Rightarrow> hdr_range \<Rightarrow> (bool \<times> hdr_range) res" where
  "range_canonize newClen r =
     res_bind (getCanonizedSpecs newClen (hr_specs r)) (\<lambda>goods.
     let specs = range_merge [] goods
     in Inr (specs \<noteq> [], r\<lparr>hr_specs := specs, hr_clen := newClen\<rparr>))"

text \<open>\<^verbatim>\<open>canonize(HttpReply*)\<close>: the entity length of the reply's Content-Range, if it has one.\<close>

definition range_canonize_reply :: "int option \<Rightarrow> int \<Rightarrow> hdr_range \<Rightarrow> (bool \<times> hdr_range) res" where
  "range_canonize_reply content_range_elength content_length r =
     range_canonize (case content_range_elength of Some e \<Rightarrow> e | None \<Rightarrow> content_length) r"

fun isComplex_from :: "int \<Rightarrow> range_spec list \<Rightarrow> bool res" where
  "isComplex_from offset [] = Inr False"
| "isComplex_from offset (s # ss) =
     res_bind (res_guard (rs_offset s \<ge> 0) Assertion) (\<lambda>_.
     if rs_offset s < offset then Inr True
     else isComplex_from (to_int64 (rs_offset s + rs_length s)) ss)"

definition isComplex :: "hdr_range \<Rightarrow> bool res" where
  "isComplex r = isComplex_from 0 (hr_specs r)"

fun willBeComplex_from :: "int \<Rightarrow> range_spec list \<Rightarrow> bool res" where
  "willBeComplex_from offset [] = Inr False"
| "willBeComplex_from offset (s # ss) =
     (if \<not> known_spec (rs_offset s) then willBeComplex_from offset ss
      else res_bind (res_guard (rs_offset s \<ge> 0) Assertion) (\<lambda>_.
        if rs_offset s < offset then Inr True
        else willBeComplex_from
          (if known_spec (rs_length s) then to_int64 (rs_offset s + rs_length s) else rs_offset s) ss))"

definition willBeComplex :: "hdr_range \<Rightarrow> bool res" where
  "willBeComplex r = willBeComplex_from 0 (hr_specs r)"

fun firstOffset_from :: "int \<Rightarrow> range_spec list \<Rightarrow> int" where
  "firstOffset_from offset [] = offset"
| "firstOffset_from offset (s # ss) =
     firstOffset_from (if rs_offset s < offset \<or> \<not> known_spec offset then rs_offset s else offset) ss"

definition firstOffset :: "hdr_range \<Rightarrow> int" where
  "firstOffset r = firstOffset_from UnknownPosition (hr_specs r)"

fun lowestOffset_from :: "int \<Rightarrow> int \<Rightarrow> range_spec list \<Rightarrow> int" where
  "lowestOffset_from sz offset [] = (if known_spec offset then offset else 0)"
| "lowestOffset_from sz offset (s # ss) =
     (if \<not> known_spec (rs_offset s) \<and> (rs_length s > sz \<or> \<not> known_spec (rs_length s)) then 0
      else let current = (if known_spec (rs_offset s) then rs_offset s else sz - rs_length s)
      in lowestOffset_from sz (if current < offset \<or> \<not> known_spec offset then current else offset) ss)"

definition lowestOffset :: "int \<Rightarrow> hdr_range \<Rightarrow> int" where
  "lowestOffset sz r = lowestOffset_from sz UnknownPosition (hr_specs r)"

definition offsetLimitExceeded :: "hdr_range option \<Rightarrow> int \<Rightarrow> bool" where
  "offsetLimitExceeded this limit =
     (case this of
        None \<Rightarrow> False
      | Some r \<Rightarrow>
          if limit = 0 then True
          else if - 1 = limit then False
          else if firstOffset r = - 1 then True
          else if limit \<ge> firstOffset r then False
          else True)"

definition range_contains :: "hdr_range \<Rightarrow> range_spec \<Rightarrow> bool res" where
  "range_contains rs r =
     res_bind (res_guard (rs_length r \<ge> 0) Assertion) (\<lambda>_.
     let rrange = http_range_of (rs_offset r) (to_int64 (rs_offset r + rs_length r))
     in Inr (list_ex (\<lambda>i.
          let irange = http_range_of (rs_offset i) (to_int64 (rs_offset i + rs_length i));
              is = range_intersection rrange irange
          in r_start is = r_start irange \<and> range_size is = range_size irange) (hr_specs rs)))"

section \<open>HttpHdrRangeIter\<close>

record range_iter =
  ri_pos :: "range_spec list"
  ri_debt_size :: int
  ri_valid :: bool

definition ri_currentSpec :: "range_iter \<Rightarrow> range_spec option" where
  "ri_currentSpec i = (case ri_pos i of [] \<Rightarrow> None | s # _ \<Rightarrow> Some s)"

definition ri_updateSpec :: "range_iter \<Rightarrow> range_iter res" where
  "ri_updateSpec i =
     res_bind (res_guard (ri_debt_size i = 0) Assertion) (\<lambda>_.
     res_bind (res_guard (ri_valid i) Assertion) (\<lambda>_.
     Inr (case ri_currentSpec i of None \<Rightarrow> i | Some s \<Rightarrow> i\<lparr>ri_debt_size := rs_length s\<rparr>)))"

section \<open>What canonization does\<close>

text \<open>
  The positions a range asks for in an object of \<open>clen\<close> bytes, and the ranges the Range grammar
  can express.
\<close>

definition spec_asks :: "int \<Rightarrow> range_spec \<Rightarrow> int set" where
  "spec_asks clen s =
     (if rs_offset s = - 1 then {clen - rs_length s ..< clen}
      else if rs_length s = - 1 then {rs_offset s ..< clen}
      else {rs_offset s ..< rs_offset s + rs_length s})"

definition spec_ok :: "range_spec \<Rightarrow> bool" where
  "spec_ok s \<longleftrightarrow> (rs_offset s = - 1 \<and> 0 \<le> rs_length s \<and> rs_length s \<le> int64_max) \<or>
     (0 \<le> rs_offset s \<and> rs_offset s \<le> int64_max \<and>
      (rs_length s = - 1 \<or> (0 \<le> rs_length s \<and> rs_offset s + rs_length s \<le> int64_max)))"

definition clen_ok :: "int \<Rightarrow> bool" where
  "clen_ok clen \<longleftrightarrow> - 1 \<le> clen \<and> clen \<le> int64_max"

lemma to_int64_ok [simp]: "int64_min \<le> x \<Longrightarrow> x \<le> int64_max \<Longrightarrow> to_int64 x = x"
  by (rule to_int64_id) (simp_all add: int64_min_def int64_max_def)

lemma range_size_ok: "0 \<le> r_start r \<Longrightarrow> r_end r \<le> int64_max \<Longrightarrow> range_size r = max 0 (r_end r - r_start r)"
  by (auto simp: range_size_def int64_max_def)

lemma range_size_canon:
  assumes "0 \<le> a" and "clen \<le> int64_max"
  shows "to_int64 (range_size (range_intersection (http_range_of 0 clen) (http_range_of a b))) =
    max 0 (min clen b - a)"
proof -
  let ?r = "range_intersection (http_range_of 0 clen) (http_range_of a b)"
  have r: "r_start ?r = a" "r_end ?r = min clen b"
    using assms(1) by (simp_all add: range_intersection_def http_range_of_def)
  then have "range_size ?r = max 0 (min clen b - a)" using assms by (subst range_size_ok) simp_all
  moreover have "int64_min \<le> max 0 (min clen b - a)" "max 0 (min clen b - a) \<le> int64_max"
    using assms by (auto simp: int64_min_def int64_max_def)
  ultimately show ?thesis by simp
qed

lemma spec_canonize_spec:
  assumes "spec_ok s" and "clen_ok clen"
  shows "\<exists>s'. spec_canonize clen s = Inr (spec_asks clen s \<inter> {0 ..< clen} \<noteq> {}, s') \<and>
    {rs_offset s' ..< rs_offset s' + rs_length s'} = spec_asks clen s \<inter> {0 ..< clen} \<and>
    0 \<le> rs_offset s' \<and> 0 \<le> rs_length s'"
proof -
  have cl: "clen \<le> int64_max" "- 1 \<le> clen" using assms(2) by (simp_all add: clen_ok_def)
  consider (suffix) "rs_offset s = - 1" "0 \<le> rs_length s" "rs_length s \<le> int64_max"
    | (trailer) "0 \<le> rs_offset s" "rs_offset s \<le> int64_max" "rs_length s = - 1"
    | (range) "0 \<le> rs_offset s" "0 \<le> rs_length s" "rs_offset s + rs_length s \<le> int64_max"
    using assms(1) by (auto simp: spec_ok_def)
  then show ?thesis
  proof cases
    case suffix
    have d: "to_int64 (clen - rs_length s) = clen - rs_length s"
      using suffix cl by (intro to_int64_ok) (auto simp: int64_min_def int64_max_def)
    let ?a = "max 0 (clen - rs_length s)"
    have "to_int64 (?a + rs_length s) = ?a + rs_length s"
      using suffix cl by (intro to_int64_ok) (auto simp: int64_min_def int64_max_def)
    then have "spec_canonize clen s =
        Inr (0 < max 0 (min clen (?a + rs_length s) - ?a),
          s\<lparr>rs_offset := ?a, rs_length := max 0 (min clen (?a + rs_length s) - ?a)\<rparr>)"
      using suffix d cl range_size_canon [of ?a clen "?a + rs_length s"]
      by (simp add: spec_canonize_def known_spec_def UnknownPosition_def Let_def)
        (simp add: range_intersection_def http_range_of_def less_max_iff_disj)
    then show ?thesis using suffix cl by (auto simp: spec_asks_def)
  next
    case trailer
    let ?n = "max 0 (clen - rs_offset s)"
    have "to_int64 (rs_offset s + ?n) = rs_offset s + ?n"
      using trailer cl by (intro to_int64_ok) (auto simp: int64_min_def int64_max_def)
    then have "spec_canonize clen s =
        Inr (0 < max 0 (min clen (rs_offset s + ?n) - rs_offset s),
          s\<lparr>rs_length := max 0 (min clen (rs_offset s + ?n) - rs_offset s)\<rparr>)"
      using trailer cl range_size_canon [of "rs_offset s" clen clen]
        range_size_canon [of "rs_offset s" clen "rs_offset s + ?n"]
      by (simp add: spec_canonize_def known_spec_def UnknownPosition_def Let_def less_max_iff_disj)
    then show ?thesis using trailer cl by (auto simp: spec_asks_def)
  next
    case range
    have "to_int64 (rs_offset s + rs_length s) = rs_offset s + rs_length s"
      using range by (intro to_int64_ok) (auto simp: int64_min_def)
    then have "spec_canonize clen s =
        Inr (0 < max 0 (min clen (rs_offset s + rs_length s) - rs_offset s),
          s\<lparr>rs_length := max 0 (min clen (rs_offset s + rs_length s) - rs_offset s)\<rparr>)"
      using range cl range_size_canon [of "rs_offset s" clen "rs_offset s + rs_length s"]
      by (simp add: spec_canonize_def known_spec_def UnknownPosition_def Let_def)
    then show ?thesis using range cl by (auto simp: spec_asks_def)
  qed
qed

lemma range_merge_append: "range_merge specs basis = specs @ basis"
  by (induction specs basis rule: range_merge.induct) (simp_all add: spec_mergeWith_def)

text \<open>The canonical form of a spec, and of a set: what is left of it in an object of \<open>clen\<close> bytes.\<close>

definition spec_bytes :: "range_spec \<Rightarrow> int set" where
  "spec_bytes s = {rs_offset s ..< rs_offset s + rs_length s}"

lemma getCanonizedSpecs_spec:
  assumes "\<forall>s \<in> set ss. spec_ok s" and "clen_ok clen"
  shows "\<exists>goods. getCanonizedSpecs clen ss = Inr goods \<and>
    map spec_bytes goods = filter (\<lambda>b. b \<noteq> {}) (map (\<lambda>s. spec_asks clen s \<inter> {0 ..< clen}) ss) \<and>
    (\<forall>g \<in> set goods. 0 \<le> rs_offset g \<and> 0 < rs_length g \<and> rs_offset g + rs_length g \<le> clen)"
  using assms(1)
proof (induction ss)
  case Nil
  then show ?case by simp
next
  case (Cons s ss)
  then obtain goods where g: "getCanonizedSpecs clen ss = Inr goods"
    "map spec_bytes goods = filter (\<lambda>b. b \<noteq> {}) (map (\<lambda>s. spec_asks clen s \<inter> {0 ..< clen}) ss)"
    "\<forall>g \<in> set goods. 0 \<le> rs_offset g \<and> 0 < rs_length g \<and> rs_offset g + rs_length g \<le> clen"
    by auto
  from Cons.prems spec_canonize_spec [of s, OF _ assms(2)] obtain s' where
    s': "spec_canonize clen s = Inr (spec_asks clen s \<inter> {0 ..< clen} \<noteq> {}, s')"
    "spec_bytes s' = spec_asks clen s \<inter> {0 ..< clen}" "0 \<le> rs_offset s'" "0 \<le> rs_length s'"
    by (auto simp: spec_bytes_def)
  show ?case
  proof (cases "spec_asks clen s \<inter> {0 ..< clen} = {}")
    case True
    then show ?thesis using g s' by simp
  next
    case False
    then have ne: "spec_bytes s' \<noteq> {}" using s'(2) by simp
    then have "0 < rs_length s'" using s'(4) by (auto simp: spec_bytes_def)
    moreover have "rs_offset s' + rs_length s' - 1 \<in> spec_bytes s'"
      using calculation by (simp add: spec_bytes_def)
    then have "rs_offset s' + rs_length s' \<le> clen" using s'(2) by auto
    ultimately show ?thesis using g s' False by auto
  qed
qed

lemma isComplex_from_spec:
  assumes "\<forall>g \<in> set gs. 0 \<le> rs_offset g \<and> 0 < rs_length g \<and> rs_offset g + rs_length g \<le> int64_max"
  shows "isComplex_from off gs = Inr (\<not> (sorted_wrt (\<lambda>a b. rs_offset a + rs_length a \<le> rs_offset b) gs \<and>
    (\<forall>g \<in> set gs. off \<le> rs_offset g)))"
  using assms
proof (induction gs arbitrary: off)
  case Nil
  then show ?case by simp
next
  case (Cons g gs)
  have "to_int64 (rs_offset g + rs_length g) = rs_offset g + rs_length g"
    using Cons.prems by (intro to_int64_ok) (auto simp: int64_min_def)
  moreover have "off \<le> rs_offset a" if "off \<le> rs_offset g" "rs_offset g + rs_length g \<le> rs_offset a" for a
    using that Cons.prems by simp
  ultimately show ?case
    using Cons by (cases "off \<le> rs_offset g") (simp, blast, simp)
qed

section \<open>Printing and parsing\<close>

lemma known_spec_iff [simp]: "known_spec x \<longleftrightarrow> 0 \<le> x"
  by (auto simp: known_spec_def UnknownPosition_def)

lemma show_int_nonneg: "0 \<le> x \<Longrightarrow> show_int x = show_nat (nat x)"
  by (simp add: show_int_def)

lemma dash_not_digit [simp]: "\<not> c_isdigit CHR ''-''" "\<not> c_isdigit CHR '',''"
  by (simp_all add: c_isdigit_def char_code_def)

lemma parse_show:
  assumes "rest = [] \<or> \<not> c_isdigit (hd rest)" and "0 \<le> x" and "x \<le> int64_max"
  shows "httpHeaderParseOffset einval (show_nat (nat x) @ rest) = Some x"
  using c_strtoll_show [OF assms(1), of "nat x"] assms(2,3)
  by (simp add: httpHeaderParseOffset_def)

lemma show_nat_no_dash: "takeWhile (\<lambda>d. d \<noteq> CHR ''-'') (show_nat n @ CHR ''-'' # rest) = show_nat n"
  using show_nat_digits [of n] by (subst takeWhile_append2) (auto dest: c_isdigit_not_sign)

lemma strchr_show: "c_strchr (show_nat n @ CHR ''-'' # rest) CHR ''-'' = Some (length (show_nat n))"
  by (simp add: c_strchr_def show_nat_no_dash)

lemma show_nat_take: "take 1 (show_nat n @ rest) \<noteq> ''-''"
proof
  assume "take 1 (show_nat n @ rest) = ''-''"
  then have "hd (show_nat n) = CHR ''-''" by (cases "show_nat n") auto
  then show False using show_nat_digits [of n] by (metis dash_not_digit(1) hd_in_set show_nat_nonempty)
qed

text \<open>The specs a parsed field may hold after printing: a range has at least one byte.\<close>

definition spec_printable :: "range_spec \<Rightarrow> bool" where
  "spec_printable s \<longleftrightarrow> spec_ok s \<and> (0 \<le> rs_offset s \<longrightarrow> rs_length s \<noteq> 0)"

lemma spec_parse_pack:
  assumes "spec_printable s" and rest: "rest = [] \<or> hd rest = CHR '',''"
  shows "spec_parseInit einval (spec_packInto s @ rest) (length (spec_packInto s)) = Some s"
proof -
  have nd: "rest = [] \<or> \<not> c_isdigit (hd rest)" using rest by auto
  consider (suffix) "rs_offset s = - 1" "0 \<le> rs_length s" "rs_length s \<le> int64_max"
    | (trailer) "0 \<le> rs_offset s" "rs_offset s \<le> int64_max" "rs_length s = - 1"
    | (range) "0 \<le> rs_offset s" "0 < rs_length s" "rs_offset s + rs_length s \<le> int64_max"
    using assms(1) by (force simp: spec_printable_def spec_ok_def)
  then show ?thesis
  proof cases
    case suffix
    let ?d = "show_nat (nat (rs_length s))"
    have "0 < length ?d" by simp
    then show ?thesis
      using suffix parse_show [OF nd suffix(2,3)]
      by (simp add: spec_packInto_def spec_parseInit_def show_int_nonneg HttpHdrRangeSpec_def UnknownPosition_def)
  next
    case trailer
    let ?d = "show_nat (nat (rs_offset s))"
    have ps: "httpHeaderParseOffset einval (?d @ CHR ''-'' # rest) = Some (rs_offset s)"
      using parse_show [of "CHR ''-'' # rest"] trailer by simp
    have "0 < length ?d" by simp
    then show ?thesis
      using trailer strchr_show [of "nat (rs_offset s)" rest] show_nat_take [of "nat (rs_offset s)"] ps
      by (simp add: spec_packInto_def spec_parseInit_def show_int_nonneg HttpHdrRangeSpec_def UnknownPosition_def)
  next
    case range
    let ?d = "show_nat (nat (rs_offset s))" and ?l = "rs_offset s + rs_length s - 1"
    have l: "to_int64 ?l = ?l" "to_int64 (?l + 1) = ?l + 1"
      using range by (auto intro!: to_int64_ok simp: int64_min_def int64_max_def)
    have sz: "range_size (http_range_of (rs_offset s) (?l + 1)) = rs_length s"
      using range by (subst range_size_ok) (simp_all add: http_range_of_def)
    have sz2: "to_int64 (rs_length s) = rs_length s"
      using range by (intro to_int64_ok) (auto simp: int64_min_def)
    have ps: "httpHeaderParseOffset einval (?d @ CHR ''-'' # x) = Some (rs_offset s)" for x
      using parse_show [of "CHR ''-'' # x"] range by simp
    have pl: "httpHeaderParseOffset einval (show_nat (nat ?l) @ rest) = Some ?l"
      using parse_show [OF nd, of ?l] range by simp
    have "0 < length ?d" by simp
    then show ?thesis
      using range strchr_show [of "nat (rs_offset s)"] show_nat_take [of "nat (rs_offset s)"] ps pl l sz sz2
      by (simp add: spec_packInto_def spec_parseInit_def show_int_nonneg)
  qed
qed

lemma spec_pack_token: "spec_printable s \<Longrightarrow> sl_token CHR '','' (spec_packInto s)"
proof -
  assume s: "spec_printable s"
  have d: "\<forall>c \<in> set (show_nat n). c \<noteq> CHR 0x22 \<and> c \<noteq> CHR 0x5C \<and> c \<notin> set (sl_skip CHR '','') \<and> \<not> c_isspace c" for n
  proof
    fix c
    assume "c \<in> set (show_nat n)"
    then have "c_isdigit c" using show_nat_digits by blast
    then show "c \<noteq> CHR 0x22 \<and> c \<noteq> CHR 0x5C \<and> c \<notin> set (sl_skip CHR '','') \<and> \<not> c_isspace c"
      by (auto simp: c_isdigit_def c_isspace_def char_code_def sl_skip_def)
  qed
  have l: "0 \<le> rs_offset s \<Longrightarrow> 0 \<le> rs_length s \<Longrightarrow> 0 \<le> to_int64 (rs_offset s + rs_length s - 1)"
    using s by (subst to_int64_ok) (auto simp: spec_printable_def spec_ok_def int64_min_def)
  have dash: "CHR ''-'' \<notin> set (sl_skip CHR '','')" "\<not> c_isspace CHR ''-''"
    by (auto simp: sl_skip_def c_isspace_def char_code_def)
  show ?thesis
    using s l dash d unfolding sl_token_def
    by (auto simp: spec_packInto_def spec_printable_def spec_ok_def show_int_nonneg)
qed

lemma sl_items_pack:
  assumes "\<forall>s \<in> set ss. spec_printable s"
  shows "parse_specs einval acc (sl_items CHR '','' (range_packInto first ss)) = acc @ ss"
  using assms
proof (induction ss arbitrary: acc first)
  case Nil
  then show ?case by (subst sl_items.simps) simp
next
  case (Cons s ss)
  let ?rest = "range_packInto False ss"
  have rest: "?rest = [] \<or> hd ?rest = CHR '',''" by (cases ss) auto
  have "strListGetItem CHR '','' ((if first then [] else '','') @ spec_packInto s @ ?rest) =
      (Some (spec_packInto s @ ?rest, length (spec_packInto s)), ?rest)"
    using Cons.prems rest by (intro strListGetItem_token) (auto simp: spec_pack_token sl_skip_def)
  then have "strListGetItem CHR '','' (range_packInto first (s # ss)) =
      (Some (spec_packInto s @ ?rest, length (spec_packInto s)), ?rest)"
    by (cases first) auto
  then show ?case
    using Cons spec_parse_pack [OF _ rest] by (subst sl_items.simps) simp
qed

section \<open>Properties\<close>

text \<open>
  C13. Canonization against the length of the object keeps, in order, exactly the ranges that ask
  for at least one existing byte, each cut down to the existing bytes it asks for: suffixes,
  trailers and ranges alike. It fails no assertion on ranges the grammar can express.
\<close>

theorem range_canonize_exact:
  assumes "\<forall>s \<in> set (hr_specs r). spec_ok s" and "clen_ok clen"
  shows "\<exists>r'. range_canonize clen r = Inr (hr_specs r' \<noteq> [], r') \<and>
    map spec_bytes (hr_specs r') =
      filter (\<lambda>b. b \<noteq> {}) (map (\<lambda>s. spec_asks clen s \<inter> {0 ..< clen}) (hr_specs r)) \<and>
    list_all (\<lambda>g. 0 \<le> rs_offset g \<and> 0 < rs_length g \<and> rs_offset g + rs_length g \<le> clen) (hr_specs r')"
proof -
  from getCanonizedSpecs_spec [OF assms] obtain goods where
    "getCanonizedSpecs clen (hr_specs r) = Inr goods"
    "map spec_bytes goods = filter (\<lambda>b. b \<noteq> {}) (map (\<lambda>s. spec_asks clen s \<inter> {0 ..< clen}) (hr_specs r))"
    "\<forall>g \<in> set goods. 0 \<le> rs_offset g \<and> 0 < rs_length g \<and> rs_offset g + rs_length g \<le> clen"
    by blast
  then show ?thesis
    by (intro exI [of _ "r\<lparr>hr_specs := goods, hr_clen := clen\<rparr>"])
      (simp add: range_canonize_def range_merge_append list_all_iff)
qed

definition range_demo :: hdr_range where
  "range_demo = \<lparr>hr_specs = [\<lparr>rs_offset = 90, rs_length = 20\<rparr>, \<lparr>rs_offset = 200, rs_length = - 1\<rparr>,
     \<lparr>rs_offset = - 1, rs_length = 5\<rparr>], hr_clen = - 1\<rparr>"

theorem range_canonize_exact_witness:
  "\<exists>r'. range_canonize 100 range_demo = Inr (hr_specs r' \<noteq> [], r') \<and>
     map spec_bytes (hr_specs r') = [{90 ..< 100}, {95 ..< 100}]"
proof -
  have "\<forall>s \<in> set (hr_specs range_demo). spec_ok s" "clen_ok 100"
    by (simp_all add: range_demo_def spec_ok_def clen_ok_def int64_max_def)
  note ex = range_canonize_exact [OF this]
  have e: "filter (\<lambda>b. b \<noteq> {}) (map (\<lambda>s. spec_asks 100 s \<inter> {0 ..< 100}) (hr_specs range_demo)) =
      [{90 ..< 100}, {95 ..< 100}]"
    by (simp add: range_demo_def spec_asks_def)
  from ex [unfolded e] obtain r' where "range_canonize 100 range_demo = Inr (hr_specs r' \<noteq> [], r')"
    "map spec_bytes (hr_specs r') = [{90 ..< 100}, {95 ..< 100}]" by (elim exE conjE)
  then show ?thesis by (intro exI conjI)
qed

text \<open>The first character printed is a digit or a dash, so no printed set starts with the unit the parser asks for.\<close>

lemma pack_not_bytes:
  assumes "spec_printable s"
  shows "\<not> c_strncaseeq (range_packInto True (s # ss)) ''bytes='' 6"
proof -
  have "c_tolower c \<noteq> CHR ''b''" if "c_isdigit c \<or> c = CHR ''-''" for c
    using that by (auto simp: c_isdigit_def c_tolower_def char_code_def)
  moreover have "\<exists>c r. range_packInto True (s # ss) = c # r \<and> (c_isdigit c \<or> c = CHR ''-'')"
  proof (cases "0 \<le> rs_offset s")
    case True
    let ?n = "show_nat (nat (rs_offset s))"
    obtain c r where "?n = c # r" by (cases ?n) simp_all
    moreover from this have "c_isdigit c" using show_nat_digits [of "nat (rs_offset s)"] by simp
    ultimately show ?thesis using True by (auto simp: spec_packInto_def show_int_nonneg)
  next
    case False
    then show ?thesis using assms by (auto simp: spec_packInto_def spec_printable_def spec_ok_def)
  qed
  ultimately obtain c r where c: "range_packInto True (s # ss) = c # r" "c_tolower c \<noteq> CHR ''b''" by blast
  have "c_tolower CHR ''b'' = CHR ''b''" by (simp add: c_tolower_def char_code_def)
  then have "\<not> c_strncaseeq (c # r) (CHR ''b'' # ''ytes='') (Suc 5)" using c(2) by (simp only: c_strncaseeq.simps) simp
  then show ?thesis unfolding c(1) by simp
qed

text \<open>
  C14. The specs that are printed for a set of ranges, each suffix, open range or range of at least one byte within 63 bits, parse back to the same set
  behind the unit \<^verbatim>\<open>bytes=\<close>, whether or not \<^verbatim>\<open>strtoll\<close> reports missing digits. But \<^verbatim>\<open>packInto\<close> does not print the unit: the field as it is
  printed is refused by the parser.
\<close>

theorem range_parse_pack:
  assumes "\<forall>s \<in> set ss. spec_printable s" and "ss \<noteq> []"
  shows "range_ParseCreate einval (''bytes='' @ range_packInto True ss) = Some \<lparr>hr_specs = ss, hr_clen = UnknownPosition\<rparr> \<and>
    range_ParseCreate einval (range_packInto True ss) = None"
proof
  have "c_strncaseeq (''bytes='' @ x) ''bytes='' 6" for x by (simp add: numeral_eq_Suc)
  moreover have "drop 6 (''bytes='' @ x) = x" for x by (simp add: numeral_eq_Suc)
  ultimately show "range_ParseCreate einval (''bytes='' @ range_packInto True ss) = Some \<lparr>hr_specs = ss, hr_clen = UnknownPosition\<rparr>"
    using sl_items_pack [OF assms(1), of einval "[]" True] assms(2)
    by (simp add: range_ParseCreate_def Let_def del: append_Cons)
  obtain s ss' where "ss = s # ss'" using assms(2) by (cases ss) auto
  then show "range_ParseCreate einval (range_packInto True ss) = None"
    using pack_not_bytes [of s ss'] assms(1) by (simp add: range_ParseCreate_def del: range_packInto.simps)
qed

theorem range_parse_pack_witness:
  "range_ParseCreate True (''bytes='' @ range_packInto True (hr_specs range_demo)) = Some range_demo \<and>
   range_ParseCreate True (range_packInto True (hr_specs range_demo)) = None"
proof -
  have "\<forall>s \<in> set (hr_specs range_demo). spec_printable s" "hr_specs range_demo \<noteq> []"
    by (simp_all add: range_demo_def spec_printable_def spec_ok_def int64_max_def)
  from range_parse_pack [OF this, of True] show ?thesis by (simp add: range_demo_def UnknownPosition_def)
qed

text \<open>
  On canonized ranges \<^verbatim>\<open>isComplex()\<close> fails no assertion, and it is false exactly when the
  ranges are in strictly ascending order without overlap.
\<close>

theorem range_isComplex_exact:
  assumes "\<forall>s \<in> set (hr_specs r). spec_ok s" and "clen_ok clen" and "range_canonize clen r = Inr (ok, r')"
  shows "isComplex r' = Inr (\<not> sorted_wrt (\<lambda>a b. rs_offset a + rs_length a \<le> rs_offset b) (hr_specs r'))"
proof -
  from getCanonizedSpecs_spec [OF assms(1,2)] obtain goods where
    "getCanonizedSpecs clen (hr_specs r) = Inr goods"
    "\<forall>g \<in> set goods. 0 \<le> rs_offset g \<and> 0 < rs_length g \<and> rs_offset g + rs_length g \<le> clen"
    by blast
  then have "hr_specs r' = goods" "\<forall>g \<in> set goods. 0 \<le> rs_offset g \<and> 0 < rs_length g \<and> rs_offset g + rs_length g \<le> int64_max"
    using assms(2,3) by (auto simp: range_canonize_def range_merge_append clen_ok_def)
  then show ?thesis using isComplex_from_spec [of goods 0] by (simp add: isComplex_def)
qed

text \<open>
  A Range field with two dashes in front of a number passes the parser, whatever the C
  library does, and gives a suffix of negative length, on which canonization fails its assertion:
  a request can stop the process.
\<close>

theorem range_double_dash_asserts:
  "range_ParseCreate einval ''bytes=--5'' =
     Some \<lparr>hr_specs = [\<lparr>rs_offset = - 1, rs_length = - 5\<rparr>], hr_clen = - 1\<rparr> \<and>
   range_canonize clen \<lparr>hr_specs = [\<lparr>rs_offset = - 1, rs_length = - 5\<rparr>], hr_clen = - 1\<rparr> = Inl Assertion"
proof
  have "range_ParseCreate True ''bytes=--5'' =
      Some \<lparr>hr_specs = [\<lparr>rs_offset = - 1, rs_length = - 5\<rparr>], hr_clen = - 1\<rparr>"
    "range_ParseCreate False ''bytes=--5'' =
      Some \<lparr>hr_specs = [\<lparr>rs_offset = - 1, rs_length = - 5\<rparr>], hr_clen = - 1\<rparr>"
    by code_simp+
  then show "range_ParseCreate einval ''bytes=--5'' =
     Some \<lparr>hr_specs = [\<lparr>rs_offset = - 1, rs_length = - 5\<rparr>], hr_clen = - 1\<rparr>"
    by (cases einval) simp_all
qed (simp add: range_canonize_def spec_canonize_def)

text \<open>
  Where \<^verbatim>\<open>strtoll\<close> does not set \<^verbatim>\<open>EINVAL\<close>, text without digits counts as position 0, so a
  malformed field is not ignored; a last position of \<open>2 ^ 63 - 1\<close> overflows to an empty range; and
  \<^verbatim>\<open>firstOffset()\<close> forgets the lowest offset when a suffix range follows it.
\<close>

theorem range_parser_quirks:
  "range_ParseCreate False ''bytes=x-5'' = Some \<lparr>hr_specs = [\<lparr>rs_offset = 0, rs_length = 6\<rparr>], hr_clen = - 1\<rparr> \<and>
   range_ParseCreate True ''bytes=x-5'' = None \<and>
   range_ParseCreate True ''bytes=0-9223372036854775807'' =
     Some \<lparr>hr_specs = [\<lparr>rs_offset = 0, rs_length = 0\<rparr>], hr_clen = - 1\<rparr> \<and>
   map_option firstOffset (range_ParseCreate True ''bytes=5-5,-3,7-'') = Some 7"
proof (intro conjI)
  show "range_ParseCreate False ''bytes=x-5'' = Some \<lparr>hr_specs = [\<lparr>rs_offset = 0, rs_length = 6\<rparr>], hr_clen = - 1\<rparr>"
    by code_simp
  show "range_ParseCreate True ''bytes=x-5'' = None" by code_simp
  show "range_ParseCreate True ''bytes=0-9223372036854775807'' =
     Some \<lparr>hr_specs = [\<lparr>rs_offset = 0, rs_length = 0\<rparr>], hr_clen = - 1\<rparr>" by code_simp
  show "map_option firstOffset (range_ParseCreate True ''bytes=5-5,-3,7-'') = Some 7" by code_simp
qed

end
