(* ===== verification/Mem_Buf.thy ===== *)
theory Mem_Buf
  imports C_Strings
begin

text \<open>
  \<^verbatim>\<open>MemBuf\<close> (src/MemBuf.cc, src/MemBuf.h, src/MemBuf.cci) and the size classes of its memory
  (\<^verbatim>\<open>memFindBufSizeType\<close> in src/mem.cc): a growing buffer with a limit. The state keeps the
  content (\<^verbatim>\<open>size\<close> is its length), the capacity, the limit, whether a buffer is allocated and
  whether it was given away. The formatted output of \<^verbatim>\<open>vPrintf\<close> is not modelled.
\<close>

record mem_buf =
  mb_content :: string
  mb_capacity :: int
  mb_max_capacity :: int
  mb_buf :: bool
  mb_stolen :: bool

definition mb_size :: "mem_buf \<Rightarrow> int" where
  "mb_size b = int (length (mb_content b))"

definition MemBuf :: mem_buf where
  "MemBuf = \<lparr>mb_content = [], mb_capacity = 0, mb_max_capacity = 0, mb_buf = False, mb_stolen = False\<rparr>"

definition memFindBufSizeType :: "int \<Rightarrow> int" where
  "memFindBufSizeType net_size =
     (if net_size \<le> 2 * 1024 then 2 * 1024
      else if net_size \<le> 4 * 1024 then 4 * 1024
      else if net_size \<le> 8 * 1024 then 8 * 1024
      else if net_size \<le> 16 * 1024 then 16 * 1024
      else if net_size \<le> 32 * 1024 then 32 * 1024
      else if net_size \<le> 64 * 1024 then 64 * 1024
      else net_size)"

function mb_steps :: "int \<Rightarrow> int \<Rightarrow> int" where
  "mb_steps min_cap new_cap =
     (if new_cap < min_cap then mb_steps min_cap (new_cap + 64 * 1024) else new_cap)"
  by pat_completeness auto
termination
  by (relation "measure (\<lambda>(min_cap, new_cap). nat (min_cap - new_cap))") auto

declare mb_steps.simps [simp del]

definition mb_grow :: "mem_buf \<Rightarrow> int \<Rightarrow> mem_buf res" where
  "mb_grow b min_cap =
     res_bind (res_guard (\<not> mb_stolen b) Assertion) (\<lambda>_.
     res_bind (res_guard (mb_capacity b < min_cap) Assertion) (\<lambda>_.
     let new_cap = (if min_cap > 64 * 1024 then mb_steps min_cap (64 * 1024) else min_cap);
         new_cap1 = (if new_cap > mb_max_capacity b then mb_max_capacity b else new_cap)
     in res_bind (res_guard (new_cap1 \<le> mb_max_capacity b) Assertion) (\<lambda>_.
        res_bind (res_guard (new_cap1 > mb_capacity b) Assertion) (\<lambda>_.
        Inr (b\<lparr>mb_buf := True, mb_capacity := memFindBufSizeType new_cap1\<rparr>)))))"

definition mb_init :: "int \<Rightarrow> int \<Rightarrow> mem_buf res" where
  "mb_init szInit szMax =
     res_bind (res_guard (szInit > 0 \<and> szMax > 0) Assertion) (\<lambda>_.
     mb_grow (MemBuf\<lparr>mb_max_capacity := szMax\<rparr>) szInit)"

definition mb_isNull :: "mem_buf \<Rightarrow> bool res" where
  "mb_isNull b =
     (if \<not> mb_buf b \<and> mb_max_capacity b = 0 \<and> mb_capacity b = 0 \<and> mb_size b = 0 then Inr True
      else res_bind (res_guard (mb_buf b \<and> mb_max_capacity b \<noteq> 0 \<and> mb_capacity b \<noteq> 0) Assertion)
        (\<lambda>_. Inr False))"

definition mb_clean :: "mem_buf \<Rightarrow> mem_buf res" where
  "mb_clean b =
     res_bind (mb_isNull b) (\<lambda>null.
     if null then Inr b
     else res_bind (res_guard (mb_buf b) Assertion) (\<lambda>_.
       res_bind (res_guard (\<not> mb_stolen b) Assertion) (\<lambda>_.
       Inr (b\<lparr>mb_buf := False, mb_content := [], mb_capacity := 0, mb_max_capacity := 0\<rparr>))))"

definition mb_reset :: "mem_buf \<Rightarrow> mem_buf res" where
  "mb_reset b =
     res_bind (mb_isNull b) (\<lambda>null.
     if null then mb_init (2 * 1024) (2 * 1000 * 1024 * 1024)
     else res_bind (res_guard (\<not> mb_stolen b) Assertion) (\<lambda>_. Inr (b\<lparr>mb_content := []\<rparr>)))"

definition mb_spaceSize :: "mem_buf \<Rightarrow> int" where
  "mb_spaceSize b =
     (let terminatedSize = mb_size b + 1
      in if terminatedSize < mb_capacity b then mb_capacity b - terminatedSize else 0)"

definition mb_potentialSpaceSize :: "mem_buf \<Rightarrow> int" where
  "mb_potentialSpaceSize b =
     (let terminatedSize = mb_size b + 1
      in if terminatedSize < mb_max_capacity b then mb_max_capacity b - terminatedSize else 0)"

definition mb_terminate :: "mem_buf \<Rightarrow> mem_buf res" where
  "mb_terminate b = res_bind (res_guard (mb_size b < mb_capacity b) Assertion) (\<lambda>_. Inr b)"

definition mb_consume :: "mem_buf \<Rightarrow> int \<Rightarrow> mem_buf res" where
  "mb_consume b shiftSize =
     res_bind (res_guard (0 \<le> shiftSize \<and> shiftSize \<le> mb_size b) Assertion) (\<lambda>_.
     res_bind (res_guard (\<not> mb_stolen b) Assertion) (\<lambda>_.
     if shiftSize > 0 then mb_terminate (b\<lparr>mb_content := drop (nat shiftSize) (mb_content b)\<rparr>)
     else Inr b))"

definition mb_truncate :: "mem_buf \<Rightarrow> int \<Rightarrow> mem_buf res" where
  "mb_truncate b tailSize =
     res_bind (res_guard (0 \<le> tailSize \<and> tailSize \<le> mb_size b) Assertion) (\<lambda>_.
     res_bind (res_guard (\<not> mb_stolen b) Assertion) (\<lambda>_.
     Inr (b\<lparr>mb_content := take (length (mb_content b) - nat tailSize) (mb_content b)\<rparr>)))"

text \<open>\<^verbatim>\<open>appended(sz)\<close>, after the \<open>sz\<close> bytes \<open>s\<close> were copied to \<^verbatim>\<open>space()\<close>.\<close>

definition mb_appended :: "mem_buf \<Rightarrow> string \<Rightarrow> mem_buf res" where
  "mb_appended b s =
     res_bind (res_guard (mb_size b + int (length s) \<le> mb_capacity b) Assertion) (\<lambda>_.
     mb_terminate (b\<lparr>mb_content := mb_content b @ s\<rparr>))"

definition mb_append :: "mem_buf \<Rightarrow> string \<Rightarrow> mem_buf res" where
  "mb_append b newContent =
     (let sz = int (length newContent) in
      res_bind (res_guard (mb_buf b \<or> (0 = mb_capacity b \<and> 0 = mb_size b)) Assertion) (\<lambda>_.
      res_bind (res_guard (\<not> mb_stolen b) Assertion) (\<lambda>_.
      if sz > 0 then
        res_bind (if mb_size b + sz + 1 > mb_capacity b then mb_grow b (mb_size b + sz + 1) else Inr b)
          (\<lambda>b1.
        res_bind (res_guard (mb_size b1 + sz \<le> mb_capacity b1) Assertion) (\<lambda>_.
        mb_appended b1 newContent))
      else Inr b)))"

definition mb_freeFunc :: "mem_buf \<Rightarrow> mem_buf res" where
  "mb_freeFunc b =
     res_bind (res_guard (mb_buf b) Assertion) (\<lambda>_.
     res_bind (res_guard (\<not> mb_stolen b) Assertion) (\<lambda>_.
     Inr (b\<lparr>mb_stolen := True\<rparr>)))"

section \<open>An initialized buffer\<close>

definition mb_ok :: "mem_buf \<Rightarrow> bool" where
  "mb_ok b \<longleftrightarrow> mb_buf b \<and> \<not> mb_stolen b \<and> 0 < mb_max_capacity b \<and> mb_size b < mb_capacity b"

lemma mb_steps_ge: "min_cap \<le> mb_steps min_cap c"
proof (induction min_cap c rule: mb_steps.induct)
  case (1 min_cap c)
  then show ?case by (subst mb_steps.simps) simp
qed

lemma memFind_ge: "n \<le> memFindBufSizeType n"
  by (simp add: memFindBufSizeType_def)

lemma mb_grow_ok:
  assumes "\<not> mb_stolen b" and "mb_capacity b < n" and "n \<le> mb_max_capacity b"
  shows "\<exists>c. mb_grow b n = Inr (b\<lparr>mb_buf := True, mb_capacity := c\<rparr>) \<and> n \<le> c"
proof -
  define c where "c = (if n > 64 * 1024 then mb_steps n (64 * 1024) else n)"
  define d where "d = (if c > mb_max_capacity b then mb_max_capacity b else c)"
  have "n \<le> c" using mb_steps_ge [of n "64 * 1024"] by (simp add: c_def)
  then have d: "n \<le> d" "d \<le> mb_max_capacity b" using assms(3) by (simp_all add: d_def)
  then have "mb_grow b n = Inr (b\<lparr>mb_buf := True, mb_capacity := memFindBufSizeType d\<rparr>)"
    using assms unfolding mb_grow_def c_def [symmetric] d_def [symmetric] Let_def by simp
  moreover have "n \<le> memFindBufSizeType d" using d(1) memFind_ge [of d] by linarith
  ultimately show ?thesis by blast
qed

lemma mb_append_ok:
  assumes "mb_ok b" and "mb_size b + int (length s) < mb_max_capacity b"
  shows "\<exists>c. mb_append b s = Inr (b\<lparr>mb_content := mb_content b @ s, mb_capacity := c\<rparr>) \<and>
    mb_ok (b\<lparr>mb_content := mb_content b @ s, mb_capacity := c\<rparr>)"
proof (cases "s = []")
  case True
  then show ?thesis
    using assms by (intro exI [of _ "mb_capacity b"]) (simp add: mb_append_def mb_ok_def mb_size_def)
next
  case False
  let ?n = "mb_size b + int (length s) + 1"
  show ?thesis
  proof (cases "?n > mb_capacity b")
    case True
    from mb_grow_ok [of b ?n] True assms obtain c where
      "mb_grow b ?n = Inr (b\<lparr>mb_buf := True, mb_capacity := c\<rparr>)" "?n \<le> c"
      by (auto simp: mb_ok_def)
    then show ?thesis
      using assms True False
      by (intro exI [of _ c])
        (simp add: mb_append_def mb_appended_def mb_terminate_def mb_ok_def mb_size_def)
  next
    case f: False
    then show ?thesis
      using assms False
      by (intro exI [of _ "mb_capacity b"])
        (simp add: mb_append_def mb_appended_def mb_terminate_def mb_ok_def mb_size_def)
  qed
qed

lemma mb_consume_ok:
  assumes "mb_ok b" and "n \<le> length (mb_content b)"
  shows "mb_consume b (int n) = Inr (b\<lparr>mb_content := drop n (mb_content b)\<rparr>) \<and>
    mb_ok (b\<lparr>mb_content := drop n (mb_content b)\<rparr>)"
  using assms by (cases "n = 0") (auto simp: mb_consume_def mb_terminate_def mb_ok_def mb_size_def)

end
