(* ===== verification/Http_Chunked.thy ===== *)
theory Http_Chunked
  imports Mem_Buf
begin

text \<open>
  The incremental parser of the chunked transfer coding (src/ChunkedCodingParser.cc, .h) and
  \<^verbatim>\<open>StringToInt64\<close> (src/Parsing.cc). One function per step of the parser; \<open>cp_parse\<close> is the
  loop of \<^verbatim>\<open>parse()\<close>, whose termination is proved: every step consumes input, moves to the next
  step or asks for more data. Sizes are kept as integers; the size parsed is at most
  \<open>2 ^ 63 - 1\<close>.
\<close>

datatype chunk_step = psChunkSize | psUnusedChunkExtension | psLastChunkExtension | psChunkBody
  | psChunkEnd | psTrailer | psMessageEnd

record chunk_parser =
  theStep :: chunk_step
  theIn :: mem_buf
  theOut :: mem_buf
  theChunkSize :: int
  theLeftBodySize :: int
  doNeedMoreData :: bool
  useOriginBody :: int
  inQuoted :: bool
  inSlashed :: bool

definition StringToInt64_16 :: "string \<Rightarrow> (int \<times> string) option" where
  "StringToInt64_16 s = (case c_strtoll16 s of (h, Some ptr) \<Rightarrow> Some (h, ptr) | _ \<Rightarrow> None)"

definition StringToInt64_10 :: "string \<Rightarrow> (int \<times> string) option" where
  "StringToInt64_10 s = (case c_strtoll s of (h, Some ptr) \<Rightarrow> Some (h, ptr) | _ \<Rightarrow> None)"

definition cp_reset :: "chunk_parser \<Rightarrow> chunk_parser" where
  "cp_reset s = s\<lparr>theStep := psChunkSize, theChunkSize := 0, theLeftBodySize := 0,
     doNeedMoreData := False, theIn := MemBuf, theOut := MemBuf, useOriginBody := - 1,
     inQuoted := False, inSlashed := False\<rparr>"

definition needsMoreData :: "chunk_parser \<Rightarrow> bool" where
  "needsMoreData s = doNeedMoreData s"

definition needsMoreSpace :: "chunk_parser \<Rightarrow> bool" where
  "needsMoreSpace s \<longleftrightarrow> theStep s = psChunkBody \<and> \<not> mb_potentialSpaceSize (theOut s) > 0"

definition mayContinue :: "chunk_parser \<Rightarrow> bool" where
  "mayContinue s \<longleftrightarrow> \<not> needsMoreData s \<and> \<not> needsMoreSpace s \<and> theStep s \<noteq> psMessageEnd"

definition cp_consume :: "chunk_parser \<Rightarrow> nat \<Rightarrow> chunk_parser res" where
  "cp_consume s n = res_bind (mb_consume (theIn s) (int n)) (\<lambda>b. Inr (s\<lparr>theIn := b\<rparr>))"

fun findCrlf_from :: "nat \<Rightarrow> nat option \<Rightarrow> bool \<Rightarrow> bool \<Rightarrow> string \<Rightarrow> (nat \<times> nat) option \<times> bool \<times> bool" where
  "findCrlf_from i crOff quoted slashed [] = (None, quoted, slashed)"
| "findCrlf_from i crOff quoted slashed (c # cs) =
     (if slashed then findCrlf_from (i + 1) crOff quoted False cs
      else if quoted then
        (if c = CHR 0x5C then findCrlf_from (i + 1) crOff quoted True cs
         else if c = CHR 0x22 then findCrlf_from (i + 1) crOff False slashed cs
         else findCrlf_from (i + 1) crOff quoted slashed cs)
      else if c = CHR 0x22 then findCrlf_from (i + 1) None True slashed cs
      else case crOff of
        None \<Rightarrow>
          if c = CHR 0x0A then (Some (i, i + 1), quoted, slashed)
          else findCrlf_from (i + 1) (if c = CHR 0x0D then Some i else None) quoted slashed cs
      | Some cr \<Rightarrow>
          if c = CHR 0x0A then (Some (cr, i + 1), quoted, slashed)
          else findCrlf_from (i + 1) (if c \<noteq> CHR 0x0D then None else crOff) quoted slashed cs)"

definition findCrlf :: "chunk_parser \<Rightarrow> (nat \<times> nat) option" where
  "findCrlf s = fst (findCrlf_from 0 None False False (mb_content (theIn s)))"

definition parseChunkSize :: "chunk_parser \<Rightarrow> chunk_parser res" where
  "parseChunkSize s =
     res_bind (res_guard (theChunkSize s \<le> 0) MustFailed) (\<lambda>_.
     let content = mb_content (theIn s)
     in if length (takeWhile c_isxdigit content) \<ge> length content then Inr (s\<lparr>doNeedMoreData := True\<rparr>)
        else case StringToInt64_16 content of
          None \<Rightarrow> Inl (Thrown ''corrupted chunk size'')
        | Some (size1, p) \<Rightarrow>
            if size1 < 0 then Inl (Thrown ''negative chunk size'')
            else let s1 = s\<lparr>theChunkSize := size1, theLeftBodySize := size1\<rparr>
            in if size1 \<noteq> 0 then Inr (s1\<lparr>theStep := psUnusedChunkExtension\<rparr>)
               else res_bind (cp_consume s1 (length content - length p)) (\<lambda>s2.
                 Inr (s2\<lparr>theStep := psLastChunkExtension\<rparr>)))"

definition parseUnusedChunkExtension :: "chunk_parser \<Rightarrow> chunk_parser res" where
  "parseUnusedChunkExtension s =
     (case findCrlf_from 0 None (inQuoted s) (inSlashed s) (mb_content (theIn s)) of
        (Some (crlfBeg, crlfEnd), _, _) \<Rightarrow>
          res_bind (cp_consume (s\<lparr>inQuoted := False, inSlashed := False\<rparr>) crlfEnd) (\<lambda>s1.
          Inr (s1\<lparr>theStep := if theChunkSize s1 \<noteq> 0 then psChunkBody else psTrailer\<rparr>))
      | (None, quoted, slashed) \<Rightarrow>
          res_bind (cp_consume (s\<lparr>inQuoted := quoted, inSlashed := slashed\<rparr>)
            (length (mb_content (theIn s)))) (\<lambda>s1.
          Inr (s1\<lparr>doNeedMoreData := True\<rparr>)))"

definition parseChunkBody :: "chunk_parser \<Rightarrow> chunk_parser res" where
  "parseChunkBody s =
     res_bind (res_guard (theLeftBodySize s > 0) MustFailed) (\<lambda>_.
     let availSize = min (theLeftBodySize s) (mb_size (theIn s));
         safeSize = min availSize (mb_potentialSpaceSize (theOut s));
         s1 = s\<lparr>doNeedMoreData := availSize < theLeftBodySize s\<rparr>
     in res_bind (mb_append (theOut s1) (take (nat safeSize) (mb_content (theIn s1)))) (\<lambda>out.
        res_bind (cp_consume (s1\<lparr>theOut := out\<rparr>) (nat safeSize)) (\<lambda>s2.
        let s3 = s2\<lparr>theLeftBodySize := theLeftBodySize s2 - safeSize\<rparr>
        in if theLeftBodySize s3 = 0 then Inr (s3\<lparr>theStep := psChunkEnd\<rparr>)
           else res_bind (res_guard (needsMoreData s3 \<or> needsMoreSpace s3) MustFailed) (\<lambda>_. Inr s3))))"

definition parseChunkEnd :: "chunk_parser \<Rightarrow> chunk_parser res" where
  "parseChunkEnd s =
     res_bind (res_guard (theLeftBodySize s = 0) MustFailed) (\<lambda>_.
     case findCrlf s of
       Some (crlfBeg, crlfEnd) \<Rightarrow>
         if crlfBeg \<noteq> 0 then Inl (Thrown ''found data between chunk end and CRLF'')
         else res_bind (cp_consume s crlfEnd) (\<lambda>s1.
           Inr (s1\<lparr>theChunkSize := 0, theStep := psChunkSize\<rparr>))
     | None \<Rightarrow> Inr (s\<lparr>doNeedMoreData := True\<rparr>))"

definition parseTrailerHeader :: "chunk_parser \<Rightarrow> chunk_parser res" where
  "parseTrailerHeader s =
     (case findCrlf s of
        Some (crlfBeg, crlfEnd) \<Rightarrow>
          res_bind (cp_consume s crlfEnd) (\<lambda>s1.
          Inr (if crlfBeg = 0 then s1\<lparr>theStep := psMessageEnd\<rparr> else s1))
      | None \<Rightarrow> Inr (s\<lparr>doNeedMoreData := True\<rparr>))"

section \<open>Progress\<close>

definition cp_measure :: "chunk_parser \<Rightarrow> nat" where
  "cp_measure s =
     (if doNeedMoreData s \<or> theStep s = psMessageEnd then 0
      else 2 * length (mb_content (theIn s)) + (if theStep s = psChunkSize then 2 else 1))"

lemma cp_consume_content:
  assumes "cp_consume s n = Inr s'"
  shows "s' = s\<lparr>theIn := theIn s'\<rparr> \<and> mb_content (theIn s') = drop n (mb_content (theIn s)) \<and>
    n \<le> length (mb_content (theIn s))"
  using assms
  by (auto simp: cp_consume_def mb_consume_def mb_terminate_def mb_size_def res_bind_Inr_iff res_guard_def
      split: if_splits)

lemma cp_consume_length:
  assumes "cp_consume s n = Inr s'" and "0 < n"
  shows "length (mb_content (theIn s')) < length (mb_content (theIn s))"
proof -
  have "mb_content (theIn s') = drop n (mb_content (theIn s))" "n \<le> length (mb_content (theIn s))"
    using cp_consume_content [OF assms(1)] by simp_all
  then show ?thesis using assms(2) by simp
qed

lemma cp_consume_same:
  assumes "cp_consume s n = Inr s'"
  shows "theStep s' = theStep s" "doNeedMoreData s' = doNeedMoreData s" "theChunkSize s' = theChunkSize s"
    "theOut s' = theOut s" "theLeftBodySize s' = theLeftBodySize s"
proof -
  obtain b where "s' = s\<lparr>theIn := b\<rparr>" using cp_consume_content [OF assms] by blast
  then show "theStep s' = theStep s" "doNeedMoreData s' = doNeedMoreData s" "theChunkSize s' = theChunkSize s"
    "theOut s' = theOut s" "theLeftBodySize s' = theLeftBodySize s"
    by simp_all
qed

lemma cp_consumeD:
  assumes "cp_consume s n = Inr s'"
  shows "theStep s' = theStep s \<and> doNeedMoreData s' = doNeedMoreData s \<and> theChunkSize s' = theChunkSize s \<and>
    length (mb_content (theIn s')) = length (mb_content (theIn s)) - n \<and> n \<le> length (mb_content (theIn s))"
  using cp_consume_same [OF assms] cp_consume_content [OF assms] by simp

lemma findCrlf_from_bounds:
  "fst (findCrlf_from i cr q sl cs) = Some (b, e) \<Longrightarrow> (case cr of None \<Rightarrow> True | Some k \<Rightarrow> k < i) \<Longrightarrow>
   b < e \<and> i < e \<and> e \<le> i + length cs"
proof (induction i cr q sl cs rule: findCrlf_from.induct)
  case (2 i crOff quoted slashed c cs)
  then show ?case
    by (cases crOff) (auto simp: less_SucI split: if_splits)
qed simp

lemma findCrlf_pos: "findCrlf s = Some (b, e) \<Longrightarrow> 0 < e"
  using findCrlf_from_bounds [of 0 None False False] by (fastforce simp: findCrlf_def)

lemma parseTrailerHeader_measure:
  assumes "parseTrailerHeader s = Inr s'" and "mayContinue s"
  shows "cp_measure s' < cp_measure s"
  using assms cp_consume_length findCrlf_pos [of s] cp_consume_same
  by (fastforce simp: parseTrailerHeader_def res_bind_Inr_iff mayContinue_def needsMoreData_def cp_measure_def
      split: option.splits if_splits)

section \<open>The loops\<close>

function trailer_loop :: "chunk_parser \<Rightarrow> chunk_parser res" where
  "trailer_loop s = (if mayContinue s then res_bind (parseTrailerHeader s) trailer_loop else Inr s)"
  by pat_completeness auto
termination
  by (relation "measure cp_measure") (auto intro: parseTrailerHeader_measure)

declare trailer_loop.simps [simp del]

definition parseTrailer :: "chunk_parser \<Rightarrow> chunk_parser res" where
  "parseTrailer s = res_bind (res_guard (theChunkSize s = 0) MustFailed) (\<lambda>_. trailer_loop s)"

definition is_blank :: "char \<Rightarrow> bool" where
  "is_blank c \<longleftrightarrow> c = CHR '' '' \<or> c = CHR 0x09"

text \<open>
  The extensions of the last chunk. \<open>p\<close> is the input from the pointer \<^verbatim>\<open>p\<close> on, \<open>rest\<close> the number of
  bytes from \<^verbatim>\<open>endExt\<close> on.
\<close>

function parse_extensions :: "nat \<Rightarrow> int \<Rightarrow> string \<Rightarrow> int" where
  "parse_extensions rest uob p =
     (if length p \<le> rest then uob
      else case dropWhile is_blank p of
        [] \<Rightarrow> uob
      | c # p1 \<Rightarrow>
          if c \<noteq> CHR '';'' then uob
          else let p2 = dropWhile is_blank p1 in
            if length p2 \<le> rest then uob
            else let extSize = length p2 - rest in
              if extSize > 18 \<and> take 18 p2 = ''use-original-body='' then
                (case StringToInt64_10 (drop 18 p2) of Some (v, _) \<Rightarrow> v | None \<Rightarrow> uob)
              else parse_extensions rest uob
                (drop (length (takeWhile (\<lambda>d. d \<noteq> CHR '';'') (take extSize p2))) p2))"
  by pat_completeness auto
termination
proof (relation "measure (\<lambda>(_, _, p). length p)", goal_cases)
  case (2 rest uob p c p1 p2 extSize)
  have "length (c # p1) \<le> length p" using 2(2) by (metis length_dropWhile_le)
  moreover have "length p2 \<le> length p1" unfolding 2(4) by (rule length_dropWhile_le)
  ultimately show ?case by simp
qed simp

declare parse_extensions.simps [simp del]

definition parseLastChunkExtension :: "chunk_parser \<Rightarrow> chunk_parser res" where
  "parseLastChunkExtension s =
     (case findCrlf s of
        None \<Rightarrow> Inr (s\<lparr>doNeedMoreData := True\<rparr>)
      | Some (crlfBeg, crlfEnd) \<Rightarrow>
          let content = mb_content (theIn s);
              s1 = s\<lparr>useOriginBody := parse_extensions (length content - crlfBeg) (useOriginBody s) content\<rparr>
          in res_bind (cp_consume s1 crlfEnd) (\<lambda>s2.
             Inr (s2\<lparr>theStep := if theChunkSize s2 \<noteq> 0 then psChunkBody else psTrailer\<rparr>)))"

definition cp_step :: "chunk_parser \<Rightarrow> chunk_parser res" where
  "cp_step s =
     (case theStep s of
        psChunkSize \<Rightarrow> parseChunkSize s
      | psUnusedChunkExtension \<Rightarrow> parseUnusedChunkExtension s
      | psLastChunkExtension \<Rightarrow> parseLastChunkExtension s
      | psChunkBody \<Rightarrow> parseChunkBody s
      | psChunkEnd \<Rightarrow> parseChunkEnd s
      | psTrailer \<Rightarrow> parseTrailer s
      | psMessageEnd \<Rightarrow> Inl MustFailed)"

lemma trailer_loop_end: "trailer_loop s = Inr s' \<Longrightarrow> \<not> mayContinue s'"
proof (induction s rule: trailer_loop.induct)
  case (1 s)
  then show ?case by (subst (asm) trailer_loop.simps) (auto simp: res_bind_Inr_iff split: if_splits)
qed

lemma trailer_loop_step:
  "trailer_loop s = Inr s' \<Longrightarrow> theStep s = psTrailer \<or> theStep s = psMessageEnd \<Longrightarrow>
    theStep s' = psTrailer \<or> theStep s' = psMessageEnd"
proof (induction s rule: trailer_loop.induct)
  case (1 s)
  have "theStep s1 = psTrailer \<or> theStep s1 = psMessageEnd" if "parseTrailerHeader s = Inr s1" for s1
    using that 1(3) cp_consume_same(1)
    by (fastforce simp: parseTrailerHeader_def res_bind_Inr_iff split: option.splits if_splits)
  with 1 show ?case by (subst (asm) trailer_loop.simps) (auto simp: res_bind_Inr_iff split: if_splits)
qed

lemma strtoll16_shorter:
  assumes "c_strtoll16 s = (h, Some p)"
  shows "length p < length s"
proof -
  obtain neg s1 where s1: "c_sign (dropWhile c_isspace s) = (neg, s1)" by (cases "c_sign (dropWhile c_isspace s)")
  have p: "p = dropWhile c_isxdigit (c_skip_0x s1)" and ne: "takeWhile c_isxdigit (c_skip_0x s1) \<noteq> []"
    using assms by (auto simp: c_strtoll16_def s1 Let_def split: if_splits)
  have "length (takeWhile c_isxdigit (c_skip_0x s1)) + length p = length (c_skip_0x s1)"
    by (simp only: p length_append [symmetric] takeWhile_dropWhile_id)
  then have "length p < length (c_skip_0x s1)" using ne by (cases "takeWhile c_isxdigit (c_skip_0x s1)") auto
  also have "\<dots> \<le> length s1" by (auto simp: c_skip_0x_def split: list.splits)
  also have "length s1 \<le> length t" if "c_sign t = (neg, s1)" for t
    using that by (cases t) (auto simp: c_sign_def split: if_splits)
  then have "length s1 \<le> length (dropWhile c_isspace s)" using s1 by blast
  also have "\<dots> \<le> length s" by (rule length_dropWhile_le)
  finally show ?thesis .
qed

lemma cp_step_measure:
  assumes "cp_step s = Inr s'" and "mayContinue s"
  shows "cp_measure s' < cp_measure s"
proof (cases "theStep s")
  case psChunkSize
  have k: "0 < length c - length p" if "StringToInt64_16 c = Some (h, p)" for c h p
    using that strtoll16_shorter [of c h p] by (auto simp: StringToInt64_16_def split: prod.splits option.splits)
  show ?thesis
    using assms psChunkSize
    by (auto simp: cp_step_def parseChunkSize_def res_bind_Inr_iff mayContinue_def needsMoreData_def
        cp_measure_def Let_def split: option.splits if_splits dest!: cp_consumeD k)
next
  case psUnusedChunkExtension
  have k: "0 < e" if "findCrlf_from 0 None a b c = (Some (d, e), q)" for a b c d e q
    using findCrlf_from_bounds [of 0 None a b c d e] that by simp
  show ?thesis
    using assms psUnusedChunkExtension
    by (auto simp: cp_step_def parseUnusedChunkExtension_def res_bind_Inr_iff mayContinue_def
        needsMoreData_def cp_measure_def split: option.splits if_splits prod.splits dest!: cp_consumeD k)
next
  case psLastChunkExtension
  then show ?thesis
    using assms
    by (auto simp: cp_step_def parseLastChunkExtension_def res_bind_Inr_iff mayContinue_def
        needsMoreData_def cp_measure_def Let_def split: option.splits if_splits
        dest!: cp_consumeD findCrlf_pos)
next
  case psChunkEnd
  then show ?thesis
    using assms
    by (auto simp: cp_step_def parseChunkEnd_def res_bind_Inr_iff mayContinue_def
        needsMoreData_def cp_measure_def Let_def split: option.splits if_splits
        dest!: cp_consumeD findCrlf_pos)
next
  case psTrailer
  with assms have t: "trailer_loop s = Inr s'" by (auto simp: cp_step_def parseTrailer_def res_bind_Inr_iff)
  have "theStep s' = psTrailer \<or> theStep s' = psMessageEnd" using trailer_loop_step [OF t] psTrailer by simp
  with trailer_loop_end [OF t] have "cp_measure s' = 0"
    by (auto simp: mayContinue_def needsMoreData_def needsMoreSpace_def cp_measure_def)
  then show ?thesis using assms(2) psTrailer by (simp add: cp_measure_def mayContinue_def needsMoreData_def)
next
  case psChunkBody
  let ?a = "min (theLeftBodySize s) (mb_size (theIn s))"
  let ?k = "min ?a (mb_potentialSpaceSize (theOut s))"
  from assms psChunkBody obtain out s2 where l: "theLeftBodySize s > 0"
    and s2: "cp_consume (s\<lparr>doNeedMoreData := ?a < theLeftBodySize s, theOut := out\<rparr>) (nat ?k) = Inr s2"
    and s': "theStep s' = (if theLeftBodySize s2 - ?k = 0 then psChunkEnd else psChunkBody)"
      "doNeedMoreData s' = doNeedMoreData s2" "theIn s' = theIn s2"
    using cp_consume_same(1)
    by (fastforce simp: cp_step_def parseChunkBody_def res_bind_Inr_iff Let_def res_guard_def split: if_splits)
  have nd: "doNeedMoreData s' = (?a < theLeftBodySize s)" using cp_consume_same(2) [OF s2] s'(2) by simp
  show ?thesis
  proof (cases "?a < theLeftBodySize s")
    case True
    then have "doNeedMoreData s'" using nd by simp
    then show ?thesis using assms(2) psChunkBody
      by (simp add: cp_measure_def mayContinue_def needsMoreData_def)
  next
    case False
    then have "0 < ?k" using l assms(2) psChunkBody
      by (auto simp: mayContinue_def needsMoreSpace_def)
    then have "length (mb_content (theIn s')) < length (mb_content (theIn s))"
      using cp_consume_length [OF s2] s'(3) by simp
    then show ?thesis
      using assms(2) psChunkBody s'(1) by (auto simp: cp_measure_def mayContinue_def needsMoreData_def)
  qed
next
  case psMessageEnd
  then show ?thesis using assms by (simp add: cp_step_def)
qed

function cp_loop :: "chunk_parser \<Rightarrow> chunk_parser res" where
  "cp_loop s = (if mayContinue s then res_bind (cp_step s) cp_loop else Inr s)"
  by pat_completeness auto
termination
  by (relation "measure cp_measure") (auto intro: cp_step_measure)

declare cp_loop.simps [simp del]

definition cp_parse :: "chunk_parser \<Rightarrow> mem_buf \<Rightarrow> mem_buf \<Rightarrow> (bool \<times> chunk_parser) res" where
  "cp_parse s rawData parsedContent =
     (let s1 = s\<lparr>theIn := rawData, theOut := parsedContent, doNeedMoreData := mb_content rawData = []\<rparr>
      in res_bind (cp_loop s1) (\<lambda>s2. Inr (theStep s2 = psMessageEnd, s2)))"

section \<open>The coding\<close>

text \<open>
  A chunk is its data and its extension; \<open>chunk_encode\<close> is the chunked coding of a message, with
  an empty trailer.
\<close>

definition crlf :: string where
  "crlf = [CHR 0x0D, CHR 0x0A]"

definition chunk_ok :: "string \<times> string \<Rightarrow> bool" where
  "chunk_ok ch \<longleftrightarrow> (case ch of (d, ext) \<Rightarrow> d \<noteq> [] \<and> int (length d) \<le> int64_max \<and>
     (ext = [] \<or> hd ext = CHR '';'') \<and> CHR 0x0A \<notin> set ext \<and> CHR 0x22 \<notin> set ext)"

fun chunk_encode :: "(string \<times> string) list \<Rightarrow> string" where
  "chunk_encode [] = ''0'' @ crlf @ crlf"
| "chunk_encode ((d, ext) # chs) = show_hex (length d) @ ext @ crlf @ d @ crlf @ chunk_encode chs"

text \<open>Feeding a message in pieces: each piece is appended to the raw buffer, then parsed.\<close>

fun cp_feed :: "chunk_parser \<Rightarrow> string list \<Rightarrow> chunk_parser res" where
  "cp_feed s [] = Inr s"
| "cp_feed s (seg # segs) =
     res_bind (mb_append (theIn s) seg) (\<lambda>b.
     res_bind (cp_parse s b (theOut s)) (\<lambda>(_, s1). cp_feed s1 segs))"

text \<open>
  What is still to come: the parser holds some input, \<open>fut\<close> will arrive; \<open>out\<close> is what it will
  then output, \<open>tail\<close> what will be left in the buffer.
\<close>

definition cp_expects :: "chunk_parser \<Rightarrow> string \<Rightarrow> string \<Rightarrow> string \<Rightarrow> bool" where
  "cp_expects s fut out tail \<longleftrightarrow>
     (let raw = mb_content (theIn s) @ fut in
      (\<exists>chs d pre. list_all chunk_ok chs \<and> \<not> inQuoted s \<and> \<not> inSlashed s \<and>
        (case theStep s of
           psChunkSize \<Rightarrow> theChunkSize s = 0 \<and> raw = chunk_encode chs @ tail \<and> out = concat (map fst chs)
         | psUnusedChunkExtension \<Rightarrow> theChunkSize s = int (length d) \<and> theLeftBodySize s = int (length d) \<and>
             d \<noteq> [] \<and> CHR 0x0A \<notin> set pre \<and> CHR 0x22 \<notin> set pre \<and>
             raw = pre @ CHR 0x0A # d @ crlf @ chunk_encode chs @ tail \<and> out = d @ concat (map fst chs)
         | psChunkBody \<Rightarrow> theLeftBodySize s = int (length d) \<and> d \<noteq> [] \<and>
             raw = d @ crlf @ chunk_encode chs @ tail \<and> out = d @ concat (map fst chs)
         | psChunkEnd \<Rightarrow> theLeftBodySize s = 0 \<and> raw = crlf @ chunk_encode chs @ tail \<and> out = concat (map fst chs)
         | psLastChunkExtension \<Rightarrow> theChunkSize s = 0 \<and> raw = crlf @ crlf @ tail \<and> out = []
         | psTrailer \<Rightarrow> theChunkSize s = 0 \<and> raw = crlf @ tail \<and> out = []
         | psMessageEnd \<Rightarrow> raw = tail \<and> out = [])))"

definition cp_room :: "chunk_parser \<Rightarrow> string \<Rightarrow> bool" where
  "cp_room s out \<longleftrightarrow> mb_ok (theIn s) \<and> mb_ok (theOut s) \<and>
     mb_size (theOut s) + int (length out) < mb_max_capacity (theOut s)"

lemma some_chunks [simp]: "Ex (list_all chunk_ok)"
  by (rule exI [of _ "[]"]) simp

lemma append_split:
  "c @ f = a @ b \<Longrightarrow> (\<exists>x. a = c @ x \<and> f = x @ b) \<or> (\<exists>y. y \<noteq> [] \<and> c = a @ y \<and> b = y @ f)"
  by (auto simp: append_eq_append_conv2)

lemma crlf_split:
  assumes "c @ f = crlf @ r"
  obtains "c = []" "f = crlf @ r" | "c = [CHR 0x0D]" "f = CHR 0x0A # r"
    | y where "c = crlf @ y" "r = y @ f"
  using assms by (cases c; cases "tl c") (auto simp: crlf_def)

lemma findCrlf_none:
  "CHR 0x0A \<notin> set pre \<Longrightarrow> CHR 0x22 \<notin> set pre \<Longrightarrow> findCrlf_from i cr False False pre = (None, False, False)"
  by (induction pre arbitrary: i cr) (auto split: option.splits)

lemma findCrlf_some:
  "CHR 0x0A \<notin> set pre \<Longrightarrow> CHR 0x22 \<notin> set pre \<Longrightarrow>
   \<exists>b. findCrlf_from i cr False False (pre @ CHR 0x0A # r) = (Some (b, i + length pre + 1), False, False)"
proof (induction pre arbitrary: i cr)
  case Nil
  then show ?case by (cases cr) auto
next
  case (Cons c pre)
  have ih: "\<exists>b. findCrlf_from (Suc i) cr' False False (pre @ CHR 0x0A # r) =
      (Some (b, Suc i + length pre + 1), False, False)" for cr'
    using Cons.IH [of "Suc i" cr'] Cons.prems by simp
  have "c \<noteq> CHR 0x0A" "c \<noteq> CHR 0x22" using Cons.prems by auto
  then show ?case
    using ih by (cases cr) simp_all
qed

lemma findCrlf_crlf: "mb_content (theIn s) = crlf @ r \<Longrightarrow> findCrlf s = Some (0, 2)"
  by (simp add: findCrlf_def crlf_def)

lemma findCrlf_short: "mb_content (theIn s) = [] \<or> mb_content (theIn s) = [CHR 0x0D] \<Longrightarrow> findCrlf s = None"
  by (auto simp: findCrlf_def)

lemma cp_consume_ok:
  assumes "mb_ok (theIn s)" and "n \<le> length (mb_content (theIn s))"
  shows "cp_consume s n = Inr (s\<lparr>theIn := (theIn s)\<lparr>mb_content := drop n (mb_content (theIn s))\<rparr>\<rparr>) \<and>
    mb_ok ((theIn s)\<lparr>mb_content := drop n (mb_content (theIn s))\<rparr>)"
  using mb_consume_ok [OF assms] by (simp add: cp_consume_def)

text \<open>One step in an expected state: it succeeds, and its output is the next part of what is expected.\<close>

definition cp_advance :: "chunk_parser \<Rightarrow> string \<Rightarrow> string \<Rightarrow> string \<Rightarrow> chunk_parser \<Rightarrow> bool" where
  "cp_advance s fut out tail s' \<longleftrightarrow>
     (\<exists>w out'. out = w @ out' \<and> mb_content (theOut s') = mb_content (theOut s) @ w \<and>
       mb_max_capacity (theOut s') = mb_max_capacity (theOut s) \<and>
       cp_expects s' fut out' tail \<and> cp_room s' out' \<and>
       (doNeedMoreData s' \<longrightarrow> fut \<noteq> []))"

lemma cp_advance_same_out:
  assumes "theOut s' = theOut s" and "cp_expects s' fut out tail" and "cp_room s' out"
    and "doNeedMoreData s' \<longrightarrow> fut \<noteq> []"
  shows "cp_advance s fut out tail s'"
  unfolding cp_advance_def using assms by (intro exI [of _ "[]"] exI [of _ out]) simp

lemma cp_expects_more [simp]: "cp_expects (s\<lparr>doNeedMoreData := b\<rparr>) = cp_expects s"
  by (cases "theStep s") (simp_all add: cp_expects_def fun_eq_iff)

lemma step_ChunkEnd:
  assumes "cp_expects s fut out tail" and "cp_room s out" and "\<not> doNeedMoreData s" and st: "theStep s = psChunkEnd"
  shows "\<exists>s'. parseChunkEnd s = Inr s' \<and> cp_advance s fut out tail s'"
proof -
  from assms(1) st obtain chs where chs: "list_all chunk_ok chs" "theLeftBodySize s = 0"
    "mb_content (theIn s) @ fut = crlf @ chunk_encode chs @ tail" "out = concat (map fst chs)"
    "\<not> inQuoted s" "\<not> inSlashed s"
    by (auto simp: cp_expects_def Let_def)
  from chs(3) show ?thesis
  proof (cases rule: crlf_split)
    case (3 y)
    let ?s = "s\<lparr>theIn := (theIn s)\<lparr>mb_content := y\<rparr>, theChunkSize := 0, theStep := psChunkSize\<rparr>"
    have "parseChunkEnd s = Inr ?s \<and> mb_ok (theIn ?s)"
      using cp_consume_ok [of s 2] findCrlf_crlf [OF 3(1)] 3(1) chs(2) assms(2)
      by (simp add: parseChunkEnd_def cp_room_def crlf_def)
    moreover have "cp_advance s fut out tail ?s"
      using chs 3 assms(2,3) calculation
      by (intro cp_advance_same_out) (auto simp: cp_expects_def cp_room_def)
    ultimately show ?thesis by blast
  qed (use chs assms findCrlf_short [of s] st in \<open>auto simp: parseChunkEnd_def crlf_def
      intro!: cp_advance_same_out simp: cp_expects_def cp_room_def\<close>)
qed

lemma step_LastChunkExtension:
  assumes "cp_expects s fut out tail" and "cp_room s out" and "\<not> doNeedMoreData s"
    and st: "theStep s = psLastChunkExtension"
  shows "\<exists>s'. parseLastChunkExtension s = Inr s' \<and> cp_advance s fut out tail s'"
proof -
  from assms(1) st have e: "theChunkSize s = 0" "mb_content (theIn s) @ fut = crlf @ crlf @ tail" "out = []"
    "\<not> inQuoted s" "\<not> inSlashed s"
    by (auto simp: cp_expects_def Let_def)
  from e(2) show ?thesis
  proof (cases rule: crlf_split)
    case (3 y)
    let ?u = "parse_extensions (length (mb_content (theIn s)) - 0) (useOriginBody s) (mb_content (theIn s))"
    let ?s = "s\<lparr>useOriginBody := ?u, theIn := (theIn s)\<lparr>mb_content := y\<rparr>, theStep := psTrailer\<rparr>"
    have "parseLastChunkExtension s = Inr ?s \<and> mb_ok (theIn ?s)"
      using cp_consume_ok [of "s\<lparr>useOriginBody := ?u\<rparr>" 2] findCrlf_crlf [OF 3(1)] 3(1) e(1) assms(2)
      by (simp add: parseLastChunkExtension_def cp_room_def crlf_def)
    moreover have "cp_advance s fut out tail ?s"
      using e 3 assms(2,3) calculation
      by (intro cp_advance_same_out) (auto simp: cp_expects_def cp_room_def)
    ultimately show ?thesis by blast
  qed (use e assms findCrlf_short [of s] st in \<open>auto simp: parseLastChunkExtension_def crlf_def
      intro!: cp_advance_same_out simp: cp_expects_def cp_room_def\<close>)
qed

lemma step_Trailer:
  assumes "cp_expects s fut out tail" and "cp_room s out" and "\<not> doNeedMoreData s"
    and st: "theStep s = psTrailer"
  shows "\<exists>s'. parseTrailer s = Inr s' \<and> cp_advance s fut out tail s'"
proof -
  from assms(1) st have e: "theChunkSize s = 0" "mb_content (theIn s) @ fut = crlf @ tail" "out = []"
    "\<not> inQuoted s" "\<not> inSlashed s"
    by (auto simp: cp_expects_def Let_def)
  have loop: "parseTrailer s = res_bind (parseTrailerHeader s) trailer_loop"
    using assms(3) st e(1)
    by (simp add: parseTrailer_def) (subst trailer_loop.simps, simp add: mayContinue_def needsMoreData_def needsMoreSpace_def)
  have stop: "trailer_loop t = Inr t" if "doNeedMoreData t \<or> theStep t = psMessageEnd" for t
    using that by (subst trailer_loop.simps) (auto simp: mayContinue_def needsMoreData_def)
  from e(2) show ?thesis
  proof (cases rule: crlf_split)
    case (3 y)
    let ?s = "s\<lparr>theIn := (theIn s)\<lparr>mb_content := y\<rparr>, theStep := psMessageEnd\<rparr>"
    have "parseTrailerHeader s = Inr ?s \<and> mb_ok (theIn ?s)"
      using cp_consume_ok [of s 2] findCrlf_crlf [OF 3(1)] 3(1) assms(2)
      by (simp add: parseTrailerHeader_def cp_room_def crlf_def)
    moreover from this have "parseTrailer s = Inr ?s" using loop stop [of ?s] by simp
    moreover have "cp_advance s fut out tail ?s"
      using e 3 assms(2,3) calculation(1)
      by (intro cp_advance_same_out) (auto simp: cp_expects_def cp_room_def)
    ultimately show ?thesis by blast
  qed (use e assms findCrlf_short [of s] st loop stop [of "s\<lparr>doNeedMoreData := True\<rparr>"] in
      \<open>auto simp: parseTrailerHeader_def crlf_def intro!: cp_advance_same_out simp: cp_expects_def cp_room_def\<close>)
qed

lemma step_UnusedChunkExtension:
  assumes "cp_expects s fut out tail" and "cp_room s out" and "\<not> doNeedMoreData s"
    and st: "theStep s = psUnusedChunkExtension"
  shows "\<exists>s'. parseUnusedChunkExtension s = Inr s' \<and> cp_advance s fut out tail s'"
proof -
  from assms(1) st obtain chs d pre where e: "list_all chunk_ok chs" "theChunkSize s = int (length d)"
    "theLeftBodySize s = int (length d)" "d \<noteq> []" "CHR 0x0A \<notin> set pre" "CHR 0x22 \<notin> set pre"
    "mb_content (theIn s) @ fut = pre @ CHR 0x0A # d @ crlf @ chunk_encode chs @ tail"
    "out = d @ concat (map fst chs)" "\<not> inQuoted s" "\<not> inSlashed s"
    by (auto simp: cp_expects_def Let_def)
  let ?c = "mb_content (theIn s)"
  from append_split [OF e(7)] show ?thesis
  proof (elim disjE exE conjE)
    fix x
    assume x: "pre = ?c @ x" "fut = x @ CHR 0x0A # d @ crlf @ chunk_encode chs @ tail"
    let ?s = "s\<lparr>inQuoted := False, inSlashed := False, theIn := (theIn s)\<lparr>mb_content := []\<rparr>, doNeedMoreData := True\<rparr>"
    have "findCrlf_from 0 None (inQuoted s) (inSlashed s) ?c = (None, False, False)"
      using findCrlf_none [of ?c 0 None] e(5,6,9,10) x(1) by simp
    then have "parseUnusedChunkExtension s = Inr ?s \<and> mb_ok (theIn ?s)"
      using cp_consume_ok [of "s\<lparr>inQuoted := False, inSlashed := False\<rparr>" "length ?c"] assms(2)
      by (simp add: parseUnusedChunkExtension_def cp_room_def)
    moreover have "cp_expects ?s fut out tail"
      unfolding cp_expects_def Let_def using e st x
      by (intro exI [of _ chs] exI [of _ d] exI [of _ x]) simp
    then have "cp_advance s fut out tail ?s"
      using x assms(2) calculation by (intro cp_advance_same_out) (auto simp: cp_room_def)
    ultimately show ?thesis by blast
  next
    fix y
    assume y: "y \<noteq> []" "?c = pre @ y" "CHR 0x0A # d @ crlf @ chunk_encode chs @ tail = y @ fut"
    then obtain z where z: "y = CHR 0x0A # z" "d @ crlf @ chunk_encode chs @ tail = z @ fut"
      by (cases y) auto
    let ?s = "s\<lparr>inQuoted := False, inSlashed := False, theIn := (theIn s)\<lparr>mb_content := z\<rparr>, theStep := psChunkBody\<rparr>"
    obtain b where "findCrlf_from 0 None (inQuoted s) (inSlashed s) ?c = (Some (b, length pre + 1), False, False)"
      using findCrlf_some [OF e(5,6), of 0 None z] e(9,10) y(2) z(1) by auto
    then have "parseUnusedChunkExtension s = Inr ?s \<and> mb_ok (theIn ?s)"
      using cp_consume_ok [of "s\<lparr>inQuoted := False, inSlashed := False\<rparr>" "length pre + 1"] assms(2) y(2) z(1) e(2,4)
      by (simp add: parseUnusedChunkExtension_def cp_room_def)
    moreover have "cp_expects ?s fut out tail"
      unfolding cp_expects_def Let_def using e z by (intro exI [of _ chs] exI [of _ d]) simp
    then have "cp_advance s fut out tail ?s"
      using assms(2,3) calculation by (intro cp_advance_same_out) (auto simp: cp_room_def)
    ultimately show ?thesis by blast
  qed
qed

lemma show_hex_0: "show_hex 0 = ''0''"
  by (subst show_hex.simps) (simp add: xdigit_char_def char_of_eq_iff)

text \<open>A chunk size and what follows it.\<close>

lemma size_split:
  assumes c: "c @ fut = show_hex n @ r" and r: "r \<noteq> []" "hd r = CHR '';'' \<or> hd r = CHR 0x0D"
    and n: "int n \<le> int64_max"
  obtains (more) "fut \<noteq> []" "length (takeWhile c_isxdigit c) \<ge> length c"
    | (complete) y where "c = show_hex n @ y" "r = y @ fut" "length (takeWhile c_isxdigit c) < length c"
      "StringToInt64_16 c = Some (int n, y)"
  using append_split [OF c]
proof (elim disjE exE conjE)
  fix x
  assume x: "show_hex n = c @ x" "fut = x @ r"
  have "\<forall>d \<in> set c. c_isxdigit d" using show_hex_digits [of n] x(1) by simp
  then have "takeWhile c_isxdigit c = c" by (simp add: takeWhile_eq_all_conv)
  then have "length c \<le> length (takeWhile c_isxdigit c)" by (metis order_refl)
  then show ?thesis using that(1) x(2) r(1) by blast
next
  fix y
  assume y: "y \<noteq> []" "c = show_hex n @ y" "r = y @ fut"
  then have hd: "\<not> c_isxdigit (hd y) \<and> hd y \<noteq> CHR ''x'' \<and> hd y \<noteq> CHR ''X''"
    using r(2) by (auto simp: c_isxdigit_def c_isdigit_def char_code_def)
  then have "takeWhile c_isxdigit y = []" using y(1) by (cases y) auto
  then have "takeWhile c_isxdigit c = show_hex n"
    using show_hex_digits [of n] y(2) by (simp add: takeWhile_append2)
  moreover have "StringToInt64_16 c = Some (int n, y)"
    using c_strtoll16_show [of y n] hd n y(2) by (simp add: StringToInt64_16_def)
  ultimately show ?thesis using that(2) y by simp
qed

lemma step_ChunkSize:
  assumes "cp_expects s fut out tail" and "cp_room s out" and "\<not> doNeedMoreData s"
    and st: "theStep s = psChunkSize"
  shows "\<exists>s'. parseChunkSize s = Inr s' \<and> cp_advance s fut out tail s'"
proof -
  let ?c = "mb_content (theIn s)"
  from assms(1) st obtain chs where e: "list_all chunk_ok chs" "theChunkSize s = 0"
    "?c @ fut = chunk_encode chs @ tail" "out = concat (map fst chs)" "\<not> inQuoted s" "\<not> inSlashed s"
    by (auto simp: cp_expects_def Let_def)
  have more: "\<exists>s'. parseChunkSize s = Inr s' \<and> cp_advance s fut out tail s'"
    if "fut \<noteq> []" "length (takeWhile c_isxdigit ?c) \<ge> length ?c"
  proof -
    let ?s = "s\<lparr>doNeedMoreData := True\<rparr>"
    have "parseChunkSize s = Inr ?s" using that(2) e(2) by (simp add: parseChunkSize_def Let_def)
    moreover have "cp_advance s fut out tail ?s"
      using assms(1,2) that(1) by (intro cp_advance_same_out) (simp_all add: cp_room_def)
    ultimately show ?thesis by blast
  qed
  show ?thesis
  proof (cases chs)
    case Nil
    have "?c @ fut = show_hex 0 @ crlf @ crlf @ tail" using e(3) Nil by (simp add: show_hex_0)
    moreover have "crlf @ crlf @ tail \<noteq> []" "hd (crlf @ crlf @ tail) = CHR '';'' \<or> hd (crlf @ crlf @ tail) = CHR 0x0D"
      "int 0 \<le> int64_max"
      by (simp_all add: crlf_def int64_max_def)
    ultimately show ?thesis
    proof (cases rule: size_split)
      case (complete y)
      let ?s = "s\<lparr>theChunkSize := 0, theLeftBodySize := 0, theIn := (theIn s)\<lparr>mb_content := y\<rparr>,
        theStep := psLastChunkExtension\<rparr>"
      have "parseChunkSize s = Inr ?s \<and> mb_ok (theIn ?s)"
        using complete e(2) assms(2) cp_consume_ok [of "s\<lparr>theChunkSize := 0, theLeftBodySize := 0\<rparr>" "length ?c - length y"]
        by (simp add: parseChunkSize_def Let_def cp_room_def)
      moreover have "cp_advance s fut out tail ?s"
        using complete e Nil assms(2,3) calculation
        by (intro cp_advance_same_out) (auto simp: cp_expects_def cp_room_def)
      ultimately show ?thesis by blast
    qed (use more in blast)
  next
    case (Cons ch chs')
    obtain d ext where ch: "ch = (d, ext)" by (cases ch)
    have ok: "d \<noteq> []" "int (length d) \<le> int64_max" "ext = [] \<or> hd ext = CHR '';''" "CHR 0x0A \<notin> set ext"
      "CHR 0x22 \<notin> set ext"
      using e(1) Cons ch by (auto simp: chunk_ok_def)
    let ?r = "ext @ crlf @ d @ crlf @ chunk_encode chs' @ tail"
    have "?c @ fut = show_hex (length d) @ ?r" using e(3) Cons ch by simp
    moreover have "?r \<noteq> []" "hd ?r = CHR '';'' \<or> hd ?r = CHR 0x0D"
      using ok(3) by (auto simp: crlf_def hd_append)
    ultimately show ?thesis
      using ok(2)
    proof (cases rule: size_split)
      case (complete y)
      let ?s = "s\<lparr>theChunkSize := int (length d), theLeftBodySize := int (length d), theStep := psUnusedChunkExtension\<rparr>"
      have "parseChunkSize s = Inr ?s"
        using complete e(2) ok(1) by (simp add: parseChunkSize_def Let_def)
      moreover have pre: "CHR 0x0A \<notin> set (show_hex (length d) @ ext @ [CHR 0x0D])"
        "CHR 0x22 \<notin> set (show_hex (length d) @ ext @ [CHR 0x0D])"
        using ok(4,5) show_hex_digits [of "length d"] c_isxdigit_plain by auto
      have "cp_expects ?s fut out tail"
        unfolding cp_expects_def Let_def
        using e Cons ch ok pre
        by (intro exI [of _ chs'] exI [of _ d] exI [of _ "show_hex (length d) @ ext @ [CHR 0x0D]"])
          (simp add: crlf_def)
      then have "cp_advance s fut out tail ?s"
        using assms(2,3) by (intro cp_advance_same_out) (simp_all add: cp_room_def)
      ultimately show ?thesis by blast
    qed (use more in blast)
  qed
qed

lemma step_ChunkBody:
  assumes "cp_expects s fut out tail" and room: "cp_room s out" and "\<not> doNeedMoreData s"
    and st: "theStep s = psChunkBody"
  shows "\<exists>s'. parseChunkBody s = Inr s' \<and> cp_advance s fut out tail s'"
proof -
  let ?c = "mb_content (theIn s)"
  from assms(1) st obtain chs d where e: "list_all chunk_ok chs" "theLeftBodySize s = int (length d)" "d \<noteq> []"
    "?c @ fut = d @ crlf @ chunk_encode chs @ tail" "out = d @ concat (map fst chs)" "\<not> inQuoted s" "\<not> inSlashed s"
    by (auto simp: cp_expects_def Let_def)
  define k where "k = min (length d) (length ?c)"
  have "0 < int (length d)" "int k \<le> int (length d)" using e(3) by (simp_all add: k_def)
  moreover have "mb_size (theOut s) + int (length d) < mb_max_capacity (theOut s)"
    using room e(5) by (simp add: cp_room_def)
  ultimately have sp: "int k \<le> mb_potentialSpaceSize (theOut s)"
    by (simp add: mb_potentialSpaceSize_def Let_def)
  then have safe: "min (min (theLeftBodySize s) (mb_size (theIn s))) (mb_potentialSpaceSize (theOut s)) = int k"
    by (simp add: e(2) mb_size_def k_def)
  have "mb_size (theOut s) + int (length (take k ?c)) < mb_max_capacity (theOut s)"
    using room e(5) by (auto simp: cp_room_def k_def)
  then obtain cap where out: "mb_append (theOut s) (take k ?c) =
      Inr ((theOut s)\<lparr>mb_content := mb_content (theOut s) @ take k ?c, mb_capacity := cap\<rparr>)"
    "mb_ok ((theOut s)\<lparr>mb_content := mb_content (theOut s) @ take k ?c, mb_capacity := cap\<rparr>)"
    using mb_append_ok [of "theOut s" "take k ?c"] room by (auto simp: cp_room_def)
  let ?out = "(theOut s)\<lparr>mb_content := mb_content (theOut s) @ take k ?c, mb_capacity := cap\<rparr>"
  let ?s = "s\<lparr>doNeedMoreData := length ?c < length d, theOut := ?out,
    theIn := (theIn s)\<lparr>mb_content := drop k ?c\<rparr>, theLeftBodySize := int (length d) - int k\<rparr>"
  let ?t = "if length d \<le> length ?c then ?s\<lparr>theStep := psChunkEnd\<rparr> else ?s"
  have cons: "cp_consume (s\<lparr>doNeedMoreData := length ?c < length d, theOut := ?out\<rparr>) k =
      Inr (s\<lparr>doNeedMoreData := length ?c < length d, theOut := ?out, theIn := (theIn s)\<lparr>mb_content := drop k ?c\<rparr>\<rparr>)"
    "mb_ok ((theIn s)\<lparr>mb_content := drop k ?c\<rparr>)"
    using cp_consume_ok [of "s\<lparr>doNeedMoreData := length ?c < length d, theOut := ?out\<rparr>" k] room
    by (simp_all add: cp_room_def k_def)
  have "min (theLeftBodySize s) (mb_size (theIn s)) < theLeftBodySize s \<longleftrightarrow> length ?c < length d"
    by (auto simp: e(2) mb_size_def)
  then have step: "parseChunkBody s = Inr ?t"
    using e(2,3) safe out(1) cons(1)
    by (auto simp: parseChunkBody_def Let_def k_def needsMoreData_def)
  from append_split [OF e(4)] have "cp_advance s fut out tail ?t"
  proof (elim disjE exE conjE)
    fix x
    assume x: "d = ?c @ x" "fut = x @ crlf @ chunk_encode chs @ tail"
    then have k: "k = length ?c" by (simp add: k_def)
    have "cp_expects ?t fut (x @ concat (map fst chs)) tail"
      unfolding cp_expects_def Let_def using e(1,6,7) x k st
      by (intro exI [of _ chs] exI [of _ x]) (cases "x = []", simp_all)
    then show ?thesis
      unfolding cp_advance_def using e(5) x k out(2) cons(2) room
      by (intro exI [of _ ?c] exI [of _ "x @ concat (map fst chs)"])
        (auto simp: cp_room_def mb_size_def)
  next
    fix y
    assume y: "y \<noteq> []" "?c = d @ y" "crlf @ chunk_encode chs @ tail = y @ fut"
    then have k: "k = length d" by (simp add: k_def)
    have "cp_expects ?t fut (concat (map fst chs)) tail"
      unfolding cp_expects_def Let_def using e(1,6,7) y k by (intro exI [of _ chs]) simp
    then show ?thesis
      unfolding cp_advance_def using e(5) y k out(2) cons(2) room
      by (intro exI [of _ d] exI [of _ "concat (map fst chs)"]) (auto simp: cp_room_def mb_size_def)
  qed
  with step show ?thesis by blast
qed


lemmas cp_steps = step_ChunkSize step_UnusedChunkExtension step_LastChunkExtension step_ChunkBody
  step_ChunkEnd step_Trailer

lemma cp_step_advance:
  assumes "cp_expects s fut out tail" and "cp_room s out" and "\<not> doNeedMoreData s" and "theStep s \<noteq> psMessageEnd"
  shows "\<exists>s'. cp_step s = Inr s' \<and> cp_advance s fut out tail s'"
  using assms cp_steps [OF assms(1,2,3)] by (cases "theStep s") (simp_all add: cp_step_def)

lemma cp_advance_trans:
  assumes "cp_advance s fut out tail s1"
    and "\<And>out'. cp_expects s1 fut out' tail \<Longrightarrow> cp_room s1 out' \<Longrightarrow> (doNeedMoreData s1 \<longrightarrow> fut \<noteq> []) \<Longrightarrow>
      \<exists>s2. f s1 = Inr s2 \<and> cp_advance s1 fut out' tail s2 \<and> P s2"
  shows "\<exists>s2. f s1 = Inr s2 \<and> cp_advance s fut out tail s2 \<and> P s2"
proof -
  from assms(1) obtain w out' where w: "out = w @ out'" "mb_content (theOut s1) = mb_content (theOut s) @ w"
    "mb_max_capacity (theOut s1) = mb_max_capacity (theOut s)"
    "cp_expects s1 fut out' tail" "cp_room s1 out'" "doNeedMoreData s1 \<longrightarrow> fut \<noteq> []"
    unfolding cp_advance_def by (elim exE conjE) metis
  from assms(2) [OF w(4,5,6)] obtain s2 where s2: "f s1 = Inr s2" "cp_advance s1 fut out' tail s2" "P s2" by blast
  from s2(2) obtain v out'' where v: "out' = v @ out''" "mb_content (theOut s2) = mb_content (theOut s1) @ v"
    "mb_max_capacity (theOut s2) = mb_max_capacity (theOut s1)"
    "cp_expects s2 fut out'' tail" "cp_room s2 out''" "doNeedMoreData s2 \<longrightarrow> fut \<noteq> []"
    unfolding cp_advance_def by (elim exE conjE) metis
  have "cp_advance s fut out tail s2"
    unfolding cp_advance_def using w v by (intro exI [of _ "w @ v"] exI [of _ out'']) simp
  with s2(1,3) show ?thesis by blast
qed

lemma cp_room_space:
  assumes "cp_expects s fut out tail" and "cp_room s out"
  shows "\<not> needsMoreSpace s"
proof (cases "theStep s = psChunkBody")
  case True
  then have "out \<noteq> []" using assms(1) by (auto simp: cp_expects_def Let_def)
  then have "1 \<le> int (length out)" by (cases out) simp_all
  then show ?thesis using assms(2) by (simp add: needsMoreSpace_def cp_room_def mb_potentialSpaceSize_def Let_def)
qed (simp add: needsMoreSpace_def)

lemma cp_loop_advance:
  assumes "cp_expects s fut out tail" and "cp_room s out" and "doNeedMoreData s \<longrightarrow> fut \<noteq> []"
  shows "\<exists>s'. cp_loop s = Inr s' \<and> cp_advance s fut out tail s' \<and> (theStep s' = psMessageEnd \<or> doNeedMoreData s')"
  using assms
proof (induction s arbitrary: out rule: cp_loop.induct)
  case (1 s)
  show ?case
  proof (cases "mayContinue s")
    case True
    then have "\<not> doNeedMoreData s" "theStep s \<noteq> psMessageEnd" by (simp_all add: mayContinue_def needsMoreData_def)
    then obtain s1 where s1: "cp_step s = Inr s1" "cp_advance s fut out tail s1"
      using cp_step_advance [OF "1.prems"(1,2)] by blast
    have "\<exists>s2. cp_loop s1 = Inr s2 \<and> cp_advance s fut out tail s2 \<and> (theStep s2 = psMessageEnd \<or> doNeedMoreData s2)"
      using s1(2) by (rule cp_advance_trans) (rule "1.IH" [OF True s1(1)])
    then show ?thesis using True s1(1) by (subst cp_loop.simps) simp
  next
    case False
    then have "doNeedMoreData s \<or> theStep s = psMessageEnd"
      using cp_room_space [OF "1.prems"(1,2)] by (simp add: mayContinue_def needsMoreData_def)
    moreover have "cp_advance s fut out tail s" using "1.prems" by (intro cp_advance_same_out) simp_all
    ultimately show ?thesis using False by (subst cp_loop.simps) auto
  qed
qed


text \<open>The raw buffer only shrinks while it is parsed.\<close>

definition mb_suffix :: "mem_buf \<Rightarrow> mem_buf \<Rightarrow> bool" where
  "mb_suffix b' b \<longleftrightarrow> mb_size b' \<le> mb_size b \<and> mb_max_capacity b' = mb_max_capacity b"

lemma mb_suffix_trans: "mb_suffix a b \<Longrightarrow> mb_suffix b c \<Longrightarrow> mb_suffix a c"
  by (simp add: mb_suffix_def)

lemma mb_suffix_refl [simp]: "mb_suffix a a"
  by (simp add: mb_suffix_def)

lemma cp_consume_suffix: "cp_consume s n = Inr s' \<Longrightarrow> mb_suffix (theIn s') (theIn s)"
  by (auto simp: cp_consume_def mb_consume_def mb_terminate_def mb_size_def mb_suffix_def res_bind_Inr_iff
      res_guard_def split: if_splits)

lemma trailer_loop_suffix: "trailer_loop s = Inr s' \<Longrightarrow> mb_suffix (theIn s') (theIn s)"
proof (induction s rule: trailer_loop.induct)
  case (1 s)
  have "mb_suffix (theIn s1) (theIn s)" if "parseTrailerHeader s = Inr s1" for s1
    using that by (auto simp: parseTrailerHeader_def res_bind_Inr_iff split: option.splits if_splits
        dest!: cp_consume_suffix)
  with 1 show ?case
    by (subst (asm) trailer_loop.simps) (auto simp: res_bind_Inr_iff split: if_splits intro: mb_suffix_trans)
qed

lemma cp_step_suffix: "cp_step s = Inr s' \<Longrightarrow> mb_suffix (theIn s') (theIn s)"
  by (auto simp: cp_step_def parseChunkSize_def parseUnusedChunkExtension_def parseLastChunkExtension_def
      parseChunkBody_def parseChunkEnd_def parseTrailer_def res_bind_Inr_iff Let_def
      split: chunk_step.splits option.splits if_splits prod.splits
      dest!: cp_consume_suffix trailer_loop_suffix)

lemma cp_loop_suffix: "cp_loop s = Inr s' \<Longrightarrow> mb_suffix (theIn s') (theIn s)"
proof (induction s rule: cp_loop.induct)
  case (1 s)
  then show ?case
    by (subst (asm) cp_loop.simps)
      (auto simp: res_bind_Inr_iff split: if_splits intro: mb_suffix_trans cp_step_suffix)
qed

lemma cp_expects_end:
  "cp_expects s [] out tail \<Longrightarrow> theStep s = psMessageEnd \<Longrightarrow> out = [] \<and> mb_content (theIn s) = tail"
  by (auto simp: cp_expects_def)

text \<open>Feeding one more piece.\<close>

lemma cp_feed_one:
  assumes "cp_expects s (seg @ fut) out tail" and "cp_room s out" and "seg \<noteq> []"
    and "mb_size (theIn s) + int (length (seg @ fut)) < mb_max_capacity (theIn s)"
  obtains b r s' where "mb_append (theIn s) seg = Inr b" and "cp_parse s b (theOut s) = Inr (r, s')"
    and "cp_advance s fut out tail s'" and "theStep s' = psMessageEnd \<or> doNeedMoreData s'"
    and "mb_size (theIn s') + int (length fut) < mb_max_capacity (theIn s')"
proof -
  obtain cap where b: "mb_append (theIn s) seg = Inr ((theIn s)\<lparr>mb_content := mb_content (theIn s) @ seg, mb_capacity := cap\<rparr>)"
    "mb_ok ((theIn s)\<lparr>mb_content := mb_content (theIn s) @ seg, mb_capacity := cap\<rparr>)"
    using mb_append_ok [of "theIn s" seg] assms(2,4) by (auto simp: cp_room_def)
  let ?b = "(theIn s)\<lparr>mb_content := mb_content (theIn s) @ seg, mb_capacity := cap\<rparr>"
  let ?s = "s\<lparr>theIn := ?b, doNeedMoreData := False\<rparr>"
  have "cp_expects ?s fut out tail"
    using assms(1) by (cases "theStep s") (simp_all add: cp_expects_def)
  moreover have "cp_room ?s out" using assms(2) b(2) by (simp add: cp_room_def)
  ultimately obtain s' where s': "cp_loop ?s = Inr s'" "cp_advance ?s fut out tail s'"
    "theStep s' = psMessageEnd \<or> doNeedMoreData s'"
    using cp_loop_advance [of ?s fut out tail] by auto
  have "cp_parse s ?b (theOut s) = Inr (theStep s' = psMessageEnd, s')"
    using s'(1) assms(3) by (simp add: cp_parse_def)
  moreover have "cp_advance s fut out tail s'" using s'(2) by (simp add: cp_advance_def)
  moreover have "mb_size (theIn s') + int (length fut) < mb_max_capacity (theIn s')"
    using cp_loop_suffix [OF s'(1)] assms(4) by (simp add: mb_suffix_def mb_size_def)
  ultimately show thesis using that b(1) s'(3) by blast
qed

lemma cp_feed_expected:
  assumes "cp_expects s (concat segs) out tail" and "cp_room s out" and "\<forall>seg \<in> set segs. seg \<noteq> []"
    and "mb_size (theIn s) + int (length (concat segs)) < mb_max_capacity (theIn s)"
    and "segs = [] \<longrightarrow> theStep s = psMessageEnd"
  shows "\<exists>s'. cp_feed s segs = Inr s' \<and> theStep s' = psMessageEnd \<and>
    mb_content (theOut s') = mb_content (theOut s) @ out \<and> mb_content (theIn s') = tail"
  using assms
proof (induction segs arbitrary: s out)
  case Nil
  then show ?case using cp_expects_end [of s out tail] by simp
next
  case (Cons seg segs)
  from Cons.prems obtain b r s1 where p: "mb_append (theIn s) seg = Inr b" "cp_parse s b (theOut s) = Inr (r, s1)"
    "cp_advance s (concat segs) out tail s1" "theStep s1 = psMessageEnd \<or> doNeedMoreData s1"
    "mb_size (theIn s1) + int (length (concat segs)) < mb_max_capacity (theIn s1)"
    using cp_feed_one [of s seg "concat segs" out tail] by auto
  from p(3) obtain w out' where w: "out = w @ out'" "mb_content (theOut s1) = mb_content (theOut s) @ w"
    "cp_expects s1 (concat segs) out' tail" "cp_room s1 out'" "doNeedMoreData s1 \<longrightarrow> concat segs \<noteq> []"
    unfolding cp_advance_def by (elim exE conjE) metis
  have "segs = [] \<longrightarrow> theStep s1 = psMessageEnd" using w(5) p(4) by auto
  with Cons.IH [OF w(3,4) _ p(5)] Cons.prems(3) w p(1,2) show ?case by auto
qed

text \<open>
  C15. Chunked coding: whatever the chunks, their extensions and the way the encoded message is cut
  into reads, the parser reaches the end of the message, its output is the data of the chunks in
  order, and the raw buffer keeps exactly the bytes that follow the message.
\<close>

theorem chunked_decodes_any_segmentation:
  assumes "list_all chunk_ok chs" and "concat segs = chunk_encode chs @ tail" and "\<forall>seg \<in> set segs. seg \<noteq> []"
    and "mb_ok b" and "mb_content b = []" and "int (length (concat segs)) < mb_max_capacity b"
    and "mb_ok out" and "mb_content out = []" and "int (length (concat (map fst chs))) < mb_max_capacity out"
  shows "\<exists>s'. cp_feed ((cp_reset s)\<lparr>theIn := b, theOut := out\<rparr>) segs = Inr s' \<and> theStep s' = psMessageEnd \<and>
    mb_content (theOut s') = concat (map fst chs) \<and> mb_content (theIn s') = tail"
proof -
  let ?s = "(cp_reset s)\<lparr>theIn := b, theOut := out\<rparr>"
  have "cp_expects ?s (concat segs) (concat (map fst chs)) tail"
    unfolding cp_expects_def Let_def using assms(1,2,5) by (intro exI [of _ chs]) (simp add: cp_reset_def)
  moreover have "cp_room ?s (concat (map fst chs))" using assms(4,7,8,9) by (simp add: cp_room_def mb_size_def)
  moreover have "segs \<noteq> []" using assms(2) by (cases chs rule: chunk_encode.cases) (auto simp: crlf_def)
  ultimately show ?thesis
    using cp_feed_expected [of ?s segs "concat (map fst chs)" tail] assms(3,5,6,8) by (simp add: mb_size_def)
qed


definition ex_buf :: mem_buf where
  "ex_buf = MemBuf\<lparr>mb_max_capacity := 100, mb_capacity := 64, mb_buf := True\<rparr>"

definition ex_parser :: chunk_parser where
  "ex_parser = \<lparr>theStep = psChunkSize, theIn = ex_buf, theOut = ex_buf, theChunkSize = 0, theLeftBodySize = 0,
     doNeedMoreData = False, useOriginBody = - 1, inQuoted = False, inSlashed = False\<rparr>"

lemma chunked_decodes_any_segmentation_witness:
  "\<exists>s'. cp_feed ((cp_reset ex_parser)\<lparr>theIn := ex_buf, theOut := ex_buf\<rparr>)
      [[CHR ''2''], '';x'', crlf @ ''a'', ''b'' @ crlf @ ''0'' @ crlf, crlf @ ''GET''] = Inr s' \<and>
    theStep s' = psMessageEnd \<and> mb_content (theOut s') = concat (map fst [(''ab'', '';x'')]) \<and>
    mb_content (theIn s') = ''GET''"
proof (rule chunked_decodes_any_segmentation)
  have "show_hex 2 = ''2''" by code_simp
  then show "concat [[CHR ''2''], '';x'', crlf @ ''a'', ''b'' @ crlf @ ''0'' @ crlf, crlf @ ''GET''] =
      chunk_encode [(''ab'', '';x'')] @ ''GET''"
    by (simp add: numeral_2_eq_2)
qed (simp_all add: chunk_ok_def int64_max_def ex_buf_def MemBuf_def mb_ok_def mb_size_def crlf_def)

text \<open>
  The size of a chunk depends on how it is read: \<^verbatim>\<open>parseChunkSize\<close> waits only while all it has
  are hexadecimal digits, so when the size is preceded by a tab, or starts with \<open>0x\<close>, a read that
  ends inside the size is taken for the whole size.
\<close>

theorem chunked_size_depends_on_segmentation:
  "map_sum id theLeftBodySize (cp_feed ex_parser [[CHR 0x09] @ ''50'' @ crlf]) = Inr 80 \<and>
   map_sum id theLeftBodySize (cp_feed ex_parser [[CHR 0x09] @ ''5'', ''0'' @ crlf]) = Inr 5 \<and>
   map_sum id theLeftBodySize (cp_feed ex_parser [''0x5'' @ crlf]) = Inr 5 \<and>
   map_sum id theLeftBodySize (cp_feed ex_parser [''0x'', ''5'' @ crlf]) = Inr 0"
  by (intro conjI; code_simp)

end
