(* ===== verification/Lib_Heap.thy ===== *)
theory Lib_Heap
  imports Squid_Prelude
begin

text \<open>
  The binary heap of the replacement policies (lib/heap.c, include/heap.h). Nodes are objects
  in memory: the array \<open>hp_nodes\<close> holds their addresses, each node knows its index
  (\<open>hn_id\<close>), and clients keep the address a node was inserted at. \<open>hp_mem\<close> is the part of the
  memory that holds nodes; an access through an address with no live node is the failure
  \<open>Dangling\<close>. Address 0 is \<^verbatim>\<open>NULL\<close>, and the address \<^verbatim>\<open>xmalloc\<close> returns is an argument. Keys
  (\<^verbatim>\<open>double\<close>) are elements of a linear order, the key generator is a field of the heap as in
  the code.

  The laws proved: the heap is a finite map from node addresses to keys and data, ordered so
  that the root has the smallest key, and no operation fails on it.
\<close>

section \<open>Data\<close>

record ('k, 'd) heap_node =
  hn_key :: 'k
  hn_id :: nat
  hn_data :: 'd

record ('k, 'd) heap =
  hp_size :: nat
  hp_last :: nat
  hp_gen_key :: "'d \<Rightarrow> 'k \<Rightarrow> 'k"
  hp_age :: 'k
  hp_nodes :: "nat list"
  hp_mem :: "nat \<Rightarrow> ('k, 'd) heap_node option"

definition Left :: "nat \<Rightarrow> nat" where
  "Left x = 2 * x + 1"

definition Right :: "nat \<Rightarrow> nat" where
  "Right x = 2 * x + 2"

text \<open>\<^verbatim>\<open>Parent(0)\<close> is \<^verbatim>\<open>(int)(-1)/2\<close>, which is 0 as in the natural numbers.\<close>

definition Parent :: "nat \<Rightarrow> nat" where
  "Parent x = (x - 1) div 2"

definition heap_deref :: "('k, 'd) heap \<Rightarrow> nat \<Rightarrow> ('k, 'd) heap_node res" where
  "heap_deref h a = (case hp_mem h a of None \<Rightarrow> Inl Dangling | Some n \<Rightarrow> Inr n)"

definition heap_at :: "('k, 'd) heap \<Rightarrow> nat \<Rightarrow> nat res" where
  "heap_at h i = (if i < length (hp_nodes h) then Inr (hp_nodes h ! i) else Inl OutOfBounds)"

definition heap_set :: "('k, 'd) heap \<Rightarrow> nat \<Rightarrow> nat \<Rightarrow> ('k, 'd) heap res" where
  "heap_set h i a =
     (if i < length (hp_nodes h) then Inr (h\<lparr>hp_nodes := (hp_nodes h)[i := a]\<rparr>) else Inl OutOfBounds)"

text \<open>The key of the node at an index of the array.\<close>

definition heap_key_at :: "('k, 'd) heap \<Rightarrow> nat \<Rightarrow> 'k res" where
  "heap_key_at h i = res_bind (heap_at h i) (\<lambda>a. res_bind (heap_deref h a) (\<lambda>n. Inr (hn_key n)))"

section \<open>Private functions\<close>

definition heap_node_exist :: "('k, 'd) heap \<Rightarrow> int \<Rightarrow> bool" where
  "heap_node_exist h i \<longleftrightarrow> \<not> (i \<ge> int (hp_last h) \<or> i < 0 \<or> hp_nodes h ! nat i = 0)"

definition heap_swap_element :: "('k, 'd) heap \<Rightarrow> nat \<Rightarrow> nat \<Rightarrow> ('k, 'd) heap res" where
  "heap_swap_element h elm1 elm2 =
     res_bind (heap_deref h elm1) (\<lambda>n1.
     res_bind (heap_deref h elm2) (\<lambda>n2.
     let h1 = h\<lparr>hp_mem := (hp_mem h)(elm1 \<mapsto> n1\<lparr>hn_id := hn_id n2\<rparr>)\<rparr>
     in res_bind (heap_deref h1 elm2) (\<lambda>n2'.
     let h2 = h1\<lparr>hp_mem := (hp_mem h1)(elm2 \<mapsto> n2'\<lparr>hn_id := hn_id n1\<rparr>)\<rparr>
     in res_bind (heap_deref h2 elm1) (\<lambda>m1.
     res_bind (heap_set h2 (hn_id m1) elm1) (\<lambda>h3.
     res_bind (heap_deref h3 elm2) (\<lambda>m2.
     heap_set h3 (hn_id m2) elm2))))))"

text \<open>The loops are bounded by the number of nodes, which the order lemmas show to be enough.\<close>

fun heap_ify_up_loop :: "nat \<Rightarrow> ('k::linorder, 'd) heap \<Rightarrow> nat \<Rightarrow> ('k, 'd) heap res" where
  "heap_ify_up_loop 0 h elm = Inl OutOfFuel"
| "heap_ify_up_loop (Suc fuel) h elm =
     res_bind (heap_deref h elm) (\<lambda>e.
     if hn_id e > 0 then
       res_bind (heap_at h (Parent (hn_id e))) (\<lambda>parentNode.
       res_bind (heap_deref h parentNode) (\<lambda>p.
       if hn_key p \<le> hn_key e then Inr h
       else res_bind (heap_swap_element h parentNode elm) (\<lambda>h'. heap_ify_up_loop fuel h' elm)))
     else Inr h)"

definition heap_ify_up :: "('k::linorder, 'd) heap \<Rightarrow> nat \<Rightarrow> ('k, 'd) heap res" where
  "heap_ify_up h elm = heap_ify_up_loop (hp_last h + 1) h elm"

definition heap_kid :: "('k::linorder, 'd) heap \<Rightarrow> nat \<Rightarrow> nat \<Rightarrow> nat res" where
  "heap_kid h left right =
     (if \<not> heap_node_exist h (int right) then heap_at h left
      else res_bind (heap_key_at h right) (\<lambda>r.
        res_bind (heap_key_at h left) (\<lambda>l.
        if r < l then heap_at h right else heap_at h left)))"

fun heap_ify_down_loop :: "nat \<Rightarrow> ('k::linorder, 'd) heap \<Rightarrow> nat \<Rightarrow> ('k, 'd) heap res" where
  "heap_ify_down_loop 0 h elm = Inl OutOfFuel"
| "heap_ify_down_loop (Suc fuel) h elm =
     res_bind (heap_deref h elm) (\<lambda>e.
     let left = Left (hn_id e); right = Right (hn_id e)
     in if \<not> heap_node_exist h (int left) then
          res_bind (res_guard (\<not> heap_node_exist h (int right)) Assertion) (\<lambda>_. Inr h)
        else
          res_bind (heap_kid h left right) (\<lambda>kid.
          res_bind (heap_deref h kid) (\<lambda>k.
          if hn_key e \<le> hn_key k then Inr h
          else res_bind (heap_swap_element h kid elm) (\<lambda>h'. heap_ify_down_loop fuel h' elm))))"

definition heap_ify_down :: "('k::linorder, 'd) heap \<Rightarrow> nat \<Rightarrow> ('k, 'd) heap res" where
  "heap_ify_down h elm = heap_ify_down_loop (hp_last h + 1) h elm"

definition heap_should_grow :: "('k, 'd) heap \<Rightarrow> bool" where
  "heap_should_grow h \<longleftrightarrow> hp_size h \<le> hp_last h"

text \<open>
  The new part of the array is not read before it is written. A size beyond the range of
  \<^verbatim>\<open>int\<close> is a failure.
\<close>

definition heap_grow :: "('k, 'd) heap \<Rightarrow> ('k, 'd) heap res" where
  "heap_grow h =
     (let newSize = (if hp_size h > 10000 then hp_size h * 3 div 2 else hp_size h * 2)
      in if int newSize > 2147483647 then Inl OutOfBounds
         else Inr (h\<lparr>hp_nodes := take newSize (hp_nodes h) @ replicate (newSize - hp_size h) 0, hp_size := newSize\<rparr>))"

section \<open>Public functions\<close>

definition new_heap :: "int \<Rightarrow> ('d \<Rightarrow> 'k \<Rightarrow> 'k) \<Rightarrow> 'k \<Rightarrow> ('k, 'd) heap" where
  "new_heap initSize gen_key zero =
     (let n = nat (if initSize \<le> 0 then 32 else initSize)
      in \<lparr>hp_size = n, hp_last = 0, hp_gen_key = gen_key, hp_age = zero, hp_nodes = replicate n 0,
          hp_mem = Map.empty\<rparr>)"

definition delete_heap :: "('k, 'd) heap \<Rightarrow> nat \<Rightarrow> ('k, 'd) heap_node option" where
  "delete_heap h = fold (\<lambda>a m. m(a := None)) (take (hp_last h) (hp_nodes h)) (hp_mem h)"

definition heap_gen_key :: "('k, 'd) heap \<Rightarrow> 'd \<Rightarrow> 'k" where
  "heap_gen_key h dat = hp_gen_key h dat (hp_age h)"

text \<open>\<open>elm\<close> is the address \<^verbatim>\<open>xmalloc\<close> returns for the new node.\<close>

definition heap_insert :: "('k::linorder, 'd) heap \<Rightarrow> nat \<Rightarrow> 'd \<Rightarrow> ('k, 'd) heap res" where
  "heap_insert h elm dat =
     res_bind (if heap_should_grow h then heap_grow h else Inr h) (\<lambda>h1.
     let h2 = h1\<lparr>hp_mem := (hp_mem h1)(elm \<mapsto> \<lparr>hn_key = heap_gen_key h dat, hn_id = hp_last h1, hn_data = dat\<rparr>)\<rparr>
     in res_bind (heap_set h2 (hp_last h2) elm) (\<lambda>h3.
        heap_ify_up (h3\<lparr>hp_last := hp_last h3 + 1\<rparr>) elm))"

definition heap_extractlast :: "('k, 'd) heap \<Rightarrow> ('d \<times> ('k, 'd) heap) res" where
  "heap_extractlast h =
     res_bind (res_guard (heap_node_exist h (int (hp_last h) - 1)) Assertion) (\<lambda>_.
     let h1 = h\<lparr>hp_last := hp_last h - 1\<rparr>
     in res_bind (heap_at h1 (hp_last h1)) (\<lambda>a.
        res_bind (heap_deref h1 a) (\<lambda>n.
        Inr (hn_data n, h1\<lparr>hp_mem := (hp_mem h1)(a := None)\<rparr>))))"

text \<open>The common end of \<^verbatim>\<open>heap_delete\<close> and \<^verbatim>\<open>heap_update\<close>.\<close>

definition heap_fix :: "('k::linorder, 'd) heap \<Rightarrow> nat \<Rightarrow> ('k, 'd) heap res" where
  "heap_fix h elm =
     res_bind (heap_deref h elm) (\<lambda>e.
     res_bind (heap_key_at h (Parent (hn_id e))) (\<lambda>pk.
     res_bind (if hn_key e < pk then heap_ify_up h elm else Inr h) (\<lambda>h1.
     heap_ify_down h1 elm)))"

definition heap_delete :: "('k::linorder, 'd) heap \<Rightarrow> nat \<Rightarrow> ('d \<times> ('k, 'd) heap) res" where
  "heap_delete h elm =
     res_bind (heap_deref h elm) (\<lambda>e.
     res_bind (res_guard (heap_node_exist h (int (hp_last h) - 1)) Assertion) (\<lambda>_.
     res_bind (heap_at h (hp_last h - 1)) (\<lambda>lastNode.
     res_bind (heap_swap_element h lastNode elm) (\<lambda>h1.
     res_bind (heap_extractlast h1) (\<lambda>(_, h2).
     if elm = lastNode then Inr (hn_data e, h2)
     else if hp_last h2 > 0 then res_bind (heap_fix h2 lastNode) (\<lambda>h3. Inr (hn_data e, h3))
     else Inr (hn_data e, h2))))))"

definition heap_extractmin :: "('k::linorder, 'd) heap \<Rightarrow> ('d option \<times> ('k, 'd) heap) res" where
  "heap_extractmin h =
     (if hp_last h \<le> 0 then Inr (None, h)
      else res_bind (heap_at h 0) (\<lambda>a.
        res_bind (heap_deref h a) (\<lambda>n.
        res_bind (heap_delete h a) (\<lambda>(_, h1). Inr (Some (hn_data n), h1)))))"

definition heap_update :: "('k::linorder, 'd) heap \<Rightarrow> nat \<Rightarrow> 'd \<Rightarrow> ('d \<times> ('k, 'd) heap) res" where
  "heap_update h elm dat =
     res_bind (heap_deref h elm) (\<lambda>e.
     let h1 = h\<lparr>hp_mem := (hp_mem h)(elm \<mapsto> e\<lparr>hn_key := heap_gen_key h dat, hn_data := dat\<rparr>)\<rparr>
     in res_bind (heap_fix h1 elm) (\<lambda>h2. Inr (hn_data e, h2)))"

definition heap_peep :: "('k, 'd) heap \<Rightarrow> nat \<Rightarrow> 'd res" where
  "heap_peep h n =
     res_bind (res_guard (heap_node_exist h (int n)) Assertion) (\<lambda>_.
     res_bind (heap_at h n) (\<lambda>a. res_bind (heap_deref h a) (\<lambda>nd. Inr (hn_data nd))))"

definition heap_peepmin :: "('k, 'd) heap \<Rightarrow> 'd res" where
  "heap_peepmin h =
     res_bind (res_guard (heap_node_exist h 0) Assertion) (\<lambda>_.
     res_bind (heap_at h 0) (\<lambda>a. res_bind (heap_deref h a) (\<lambda>nd. Inr (hn_data nd))))"

definition heap_peepkey :: "('k, 'd) heap \<Rightarrow> nat \<Rightarrow> 'k res" where
  "heap_peepkey h n =
     res_bind (res_guard (heap_node_exist h (int n)) Assertion) (\<lambda>_. heap_key_at h n)"

definition heap_peepminkey :: "('k, 'd) heap \<Rightarrow> 'k res" where
  "heap_peepminkey h = res_bind (res_guard (heap_node_exist h 0) Assertion) (\<lambda>_. heap_key_at h 0)"

definition heap_nodes :: "('k, 'd) heap \<Rightarrow> nat" where
  "heap_nodes h = hp_last h"

definition heap_empty :: "('k, 'd) heap \<Rightarrow> bool" where
  "heap_empty h \<longleftrightarrow> hp_last h \<le> 0"

definition heap_violated :: "('k::linorder, 'd) heap \<Rightarrow> nat \<Rightarrow> nat \<Rightarrow> bool res" where
  "heap_violated h i kid =
     (if heap_node_exist h (int kid) then
        res_bind (heap_key_at h i) (\<lambda>k. res_bind (heap_key_at h kid) (\<lambda>c. Inr (k > c)))
      else Inr False)"

fun verify_heap_from :: "('k::linorder, 'd) heap \<Rightarrow> nat list \<Rightarrow> bool res" where
  "verify_heap_from h [] = Inr True"
| "verify_heap_from h (i # is) =
     res_bind (heap_violated h i (Left i)) (\<lambda>l.
     res_bind (heap_violated h i (Right i)) (\<lambda>r.
     if l \<or> r then Inr False else verify_heap_from h is))"

definition verify_heap_property :: "('k::linorder, 'd) heap \<Rightarrow> bool res" where
  "verify_heap_property h = verify_heap_from h [0..<hp_last h div 2]"

section \<open>Order\<close>

text \<open>
  The order of a heap as a property of the keys by index: complete, complete except between
  \<open>i\<close> and its parent, and complete except between \<open>i\<close> and its children.
\<close>

definition ordered :: "(nat \<Rightarrow> 'k::linorder) \<Rightarrow> nat \<Rightarrow> bool" where
  "ordered K n \<longleftrightarrow> (\<forall>j < n. 0 < j \<longrightarrow> K (Parent j) \<le> K j)"

definition up_ok :: "(nat \<Rightarrow> 'k::linorder) \<Rightarrow> nat \<Rightarrow> nat \<Rightarrow> bool" where
  "up_ok K n i \<longleftrightarrow> (\<forall>j < n. 0 < j \<longrightarrow> j \<noteq> i \<longrightarrow> K (Parent j) \<le> K j) \<and>
     (0 < i \<longrightarrow> (\<forall>j < n. 0 < j \<longrightarrow> Parent j = i \<longrightarrow> K (Parent i) \<le> K j))"

definition down_ok :: "(nat \<Rightarrow> 'k::linorder) \<Rightarrow> nat \<Rightarrow> nat \<Rightarrow> bool" where
  "down_ok K n i \<longleftrightarrow> (\<forall>j < n. 0 < j \<longrightarrow> Parent j \<noteq> i \<longrightarrow> K (Parent j) \<le> K j) \<and>
     (0 < i \<longrightarrow> (\<forall>j < n. 0 < j \<longrightarrow> Parent j = i \<longrightarrow> K (Parent i) \<le> K j))"

definition around_ok :: "(nat \<Rightarrow> 'k::linorder) \<Rightarrow> nat \<Rightarrow> nat \<Rightarrow> bool" where
  "around_ok K n i \<longleftrightarrow> (\<forall>j < n. 0 < j \<longrightarrow> j \<noteq> i \<longrightarrow> Parent j \<noteq> i \<longrightarrow> K (Parent j) \<le> K j) \<and>
     (0 < i \<longrightarrow> (\<forall>j < n. 0 < j \<longrightarrow> Parent j = i \<longrightarrow> K (Parent i) \<le> K j))"

lemma Parent_less: "0 < j \<Longrightarrow> Parent j < j"
  by (auto simp: Parent_def)

lemma Parent_le: "Parent j \<le> j"
  by (auto simp: Parent_def)

lemma Parent_0 [simp]: "Parent 0 = 0"
  by (simp add: Parent_def)

lemma Parent_kid: "0 < j \<Longrightarrow> Parent j = i \<longleftrightarrow> j = Left i \<or> j = Right i"
  by (auto simp: Parent_def Left_def Right_def)

lemma up_step:
  assumes "up_ok K n i" and "0 < i" and "i < n" and "K i < K (Parent i)"
  shows "up_ok (K(i := K (Parent i), Parent i := K i)) n (Parent i)"
proof -
  let ?p = "Parent i"
  let ?K = "K(i := K ?p, ?p := K i)"
  have p: "?p < i" using assms(2) by (rule Parent_less)
  have up: "K (Parent j) \<le> K j" if "j < n" "0 < j" "j \<noteq> i" for j
    using assms(1) that by (simp add: up_ok_def)
  have kids: "K ?p \<le> K j" if "j < n" "0 < j" "Parent j = i" for j
    using assms(1,2) that by (simp add: up_ok_def)
  have "?K (Parent j) \<le> ?K j" if j: "j < n" "0 < j" "j \<noteq> ?p" for j
  proof (cases "j = i")
    case True
    then show ?thesis using assms(4) p by simp
  next
    case ji: False
    consider (kid) "Parent j = i" | (sibling) "Parent j = ?p" | (other) "Parent j \<noteq> i" "Parent j \<noteq> ?p" by blast
    then show ?thesis
    proof cases
      case kid
      then show ?thesis using kids [OF j(1,2)] ji j(3) p by simp
    next
      case sibling
      then show ?thesis using up [OF j(1,2) ji] ji j(3) assms(4) by simp
    next
      case other
      then show ?thesis using up [OF j(1,2) ji] ji j(3) by simp
    qed
  qed
  moreover have "?K (Parent ?p) \<le> ?K j" if "0 < ?p" "j < n" "0 < j" "Parent j = ?p" for j
  proof -
    have "Parent ?p < ?p" using that(1) by (rule Parent_less)
    moreover have "K (Parent ?p) \<le> K ?p" using up [of ?p] that(1) p assms(3) by simp
    moreover have "j \<noteq> ?p" using Parent_less [OF that(3)] that(4) by simp
    ultimately show ?thesis using p up [OF that(2,3)] that(4) by (cases "j = i") (auto intro: order_trans)
  qed
  ultimately show ?thesis unfolding up_ok_def by blast
qed

lemma up_done: "up_ok K n i \<Longrightarrow> i = 0 \<or> K (Parent i) \<le> K i \<Longrightarrow> ordered K n"
  by (auto simp: up_ok_def ordered_def)

lemma down_step:
  assumes "down_ok K n i" and "0 < k" and "k < n" and "Parent k = i" and "K k < K i"
    and least: "\<And>j. j < n \<Longrightarrow> 0 < j \<Longrightarrow> Parent j = i \<Longrightarrow> K k \<le> K j"
  shows "down_ok (K(i := K k, k := K i)) n k"
proof -
  let ?K = "K(i := K k, k := K i)"
  have ik: "i < k" using Parent_less [OF assms(2)] assms(4) by simp
  have down: "K (Parent j) \<le> K j" if "j < n" "0 < j" "Parent j \<noteq> i" for j
    using assms(1) that by (simp add: down_ok_def)
  have "?K (Parent j) \<le> ?K j" if j: "j < n" "0 < j" "Parent j \<noteq> k" for j
  proof (cases "Parent j = i")
    case True
    then have "j \<noteq> i" using Parent_less [OF j(2)] by simp
    then show ?thesis using True ik least [OF j(1,2) True] assms(5) by (simp add: less_imp_le)
  next
    case False
    then have jk: "j \<noteq> k" using assms(4) by blast
    show ?thesis
    proof (cases "j = i")
      case True
      then have "K (Parent i) \<le> K k" using assms(1-4) j(2) by (auto simp: down_ok_def)
      then show ?thesis using True False j(3) jk by simp
    next
      case ji: False
      then show ?thesis using down [OF j(1,2) False] False j(3) jk by simp
    qed
  qed
  moreover have "?K (Parent k) \<le> ?K j" if "j < n" "0 < j" "Parent j = k" for j
  proof -
    have "k < j" using Parent_less [OF that(2)] that(3) by simp
    then show ?thesis using down [OF that(1,2)] that(3) ik assms(4) by simp
  qed
  ultimately show ?thesis unfolding down_ok_def by blast
qed

lemma down_done:
  "down_ok K n i \<Longrightarrow> (\<And>j. j < n \<Longrightarrow> 0 < j \<Longrightarrow> Parent j = i \<Longrightarrow> K i \<le> K j) \<Longrightarrow> ordered K n"
  unfolding down_ok_def ordered_def by metis

lemma ordered_down: "ordered K n \<Longrightarrow> i < n \<Longrightarrow> down_ok K n i"
  unfolding down_ok_def ordered_def by (metis order_trans)

lemma around_up: "around_ok K n i \<Longrightarrow> K i < K (Parent i) \<Longrightarrow> up_ok K n i"
  unfolding around_ok_def up_ok_def by (cases "i = 0") (simp, force)

lemma around_down: "around_ok K n i \<Longrightarrow> \<not> K i < K (Parent i) \<Longrightarrow> down_ok K n i"
  unfolding around_ok_def down_ok_def by (metis not_less)

lemma ordered_around: "ordered K n \<Longrightarrow> m \<le> n \<Longrightarrow> i < m \<Longrightarrow> around_ok (K(i := k)) m i"
  unfolding around_ok_def ordered_def
proof (intro conjI allI impI)
  fix j
  assume *: "\<forall>j<n. 0 < j \<longrightarrow> K (Parent j) \<le> K j" "m \<le> n" "i < m" "0 < i" "j < m" "0 < j" "Parent j = i"
  have "Parent i < i" "i < j" using Parent_less [of i] Parent_less [of j] * by auto
  moreover have "K (Parent i) \<le> K i" "K i \<le> K j" using * by auto
  ultimately show "(K(i := k)) (Parent i) \<le> (K(i := k)) j" by simp
qed auto

lemma ordered_root: "ordered K n \<Longrightarrow> i < n \<Longrightarrow> K 0 \<le> K i"
proof (induction i rule: less_induct)
  case (less i)
  show ?case
  proof (cases "i = 0")
    case False
    then have "K 0 \<le> K (Parent i)" using less Parent_less [of i] by (meson gr0I less_trans)
    also have "\<dots> \<le> K i" using less False by (simp add: ordered_def)
    finally show ?thesis .
  qed simp
qed

section \<open>Well-formed heaps\<close>

definition heap_wf :: "('k, 'd) heap \<Rightarrow> bool" where
  "heap_wf h \<longleftrightarrow> hp_size h = length (hp_nodes h) \<and> 0 < hp_size h \<and> hp_last h \<le> hp_size h \<and> hp_mem h 0 = None \<and>
     (\<forall>i < hp_last h. \<exists>n. hp_mem h (hp_nodes h ! i) = Some n \<and> hn_id n = i) \<and>
     (\<forall>a n. hp_mem h a = Some n \<longrightarrow> hn_id n < hp_last h \<and> hp_nodes h ! hn_id n = a)"

definition hp_keys :: "('k, 'd) heap \<Rightarrow> nat \<Rightarrow> 'k" where
  "hp_keys h i = (if i < hp_last h then hn_key (the (hp_mem h (hp_nodes h ! i))) else undefined)"

definition heap_map :: "('k, 'd) heap \<Rightarrow> nat \<Rightarrow> ('k \<times> 'd) option" where
  "heap_map h a = map_option (\<lambda>n. (hn_key n, hn_data n)) (hp_mem h a)"

definition heap_inv :: "('k::linorder, 'd) heap \<Rightarrow> bool" where
  "heap_inv h \<longleftrightarrow> heap_wf h \<and> ordered (hp_keys h) (hp_last h)"

text \<open>Heaps that differ at most in the order of their nodes.\<close>

definition heap_same :: "('k, 'd) heap \<Rightarrow> ('k, 'd) heap \<Rightarrow> bool" where
  "heap_same h h' \<longleftrightarrow> hp_last h' = hp_last h \<and> hp_size h' = hp_size h \<and> hp_gen_key h' = hp_gen_key h \<and>
     hp_age h' = hp_age h \<and> heap_map h' = heap_map h"

lemma heap_same_refl [simp]: "heap_same h h"
  by (simp add: heap_same_def)

lemma heap_same_trans: "heap_same h1 h2 \<Longrightarrow> heap_same h2 h3 \<Longrightarrow> heap_same h1 h3"
  by (simp add: heap_same_def)

lemma heap_wfD:
  assumes "heap_wf h"
  shows "hp_size h = length (hp_nodes h)" and "0 < hp_size h" and "hp_last h \<le> length (hp_nodes h)"
    and "hp_mem h 0 = None" and "i < hp_last h \<Longrightarrow> \<exists>n. hp_mem h (hp_nodes h ! i) = Some n \<and> hn_id n = i"
    and "hp_mem h a = Some n \<Longrightarrow> hn_id n < hp_last h \<and> hp_nodes h ! hn_id n = a"
  using assms unfolding heap_wf_def by metis+

lemma heap_wf_node:
  assumes "heap_wf h" and "i < hp_last h"
  obtains n where "heap_at h i = Inr (hp_nodes h ! i)" and "hp_mem h (hp_nodes h ! i) = Some n" and "hn_id n = i"
    and "hp_keys h i = hn_key n" and "hp_nodes h ! i \<noteq> 0"
proof -
  from assms obtain n where n: "hp_mem h (hp_nodes h ! i) = Some n" "hn_id n = i"
    using heap_wfD(5) by blast
  moreover have "heap_at h i = Inr (hp_nodes h ! i)"
    using assms(2) heap_wfD(3) [OF assms(1)] by (simp add: heap_at_def)
  moreover have "hp_nodes h ! i \<noteq> 0" using n(1) heap_wfD(4) [OF assms(1)] by (metis option.distinct(1))
  ultimately show thesis using that assms(2) by (simp add: hp_keys_def)
qed

lemma heap_wf_mem:
  assumes "heap_wf h" and "hp_mem h a = Some n"
  shows "hn_id n < hp_last h" and "hp_nodes h ! hn_id n = a" and "hp_keys h (hn_id n) = hn_key n"
    and "hn_id n < length (hp_nodes h)"
proof -
  show *: "hn_id n < hp_last h" "hp_nodes h ! hn_id n = a" using heap_wfD(6) [OF assms] by simp_all
  show "hp_keys h (hn_id n) = hn_key n" using * assms(2) by (simp add: hp_keys_def)
  show "hn_id n < length (hp_nodes h)" using * heap_wfD(3) [OF assms(1)] by simp
qed

lemma heap_key_at_wf [simp]: "heap_wf h \<Longrightarrow> i < hp_last h \<Longrightarrow> heap_key_at h i = Inr (hp_keys h i)"
  by (erule (1) heap_wf_node) (simp add: heap_key_at_def heap_deref_def)

lemma heap_node_exist_wf: "heap_wf h \<Longrightarrow> heap_node_exist h i \<longleftrightarrow> 0 \<le> i \<and> i < int (hp_last h)"
  by (auto simp: heap_node_exist_def not_le nat_less_iff elim: heap_wf_node [of h "nat i"])

text \<open>Swapping two nodes.\<close>

definition heap_swapped :: "('k, 'd) heap \<Rightarrow> nat \<Rightarrow> nat \<Rightarrow> ('k, 'd) heap_node \<Rightarrow> ('k, 'd) heap_node \<Rightarrow> ('k, 'd) heap" where
  "heap_swapped h a b m n = h\<lparr>hp_mem := (hp_mem h)(a \<mapsto> m\<lparr>hn_id := hn_id n\<rparr>, b \<mapsto> n\<lparr>hn_id := hn_id m\<rparr>),
     hp_nodes := (hp_nodes h)[hn_id n := a, hn_id m := b]\<rparr>"

lemma heap_swap_eq:
  assumes "heap_wf h" and "hp_mem h a = Some m" and "hp_mem h b = Some n"
  shows "heap_swap_element h a b = Inr (heap_swapped h a b m n)"
proof (cases "a = b")
  case True
  then show ?thesis using assms heap_wf_mem(2,4) [OF assms(1,2)]
    by (simp add: heap_swap_element_def heap_deref_def heap_set_def heap_swapped_def Let_def)
next
  case False
  then show ?thesis using assms heap_wf_mem(4) [OF assms(1,2)] heap_wf_mem(4) [OF assms(1,3)]
    by (simp add: heap_swap_element_def heap_deref_def heap_set_def heap_swapped_def Let_def fun_upd_twist)
qed

lemma heap_swapped_mem:
  assumes "hp_mem h a = Some m" and "hp_mem h b = Some n"
  shows "hp_mem (heap_swapped h a b m n) x = (if x = a then Some (m\<lparr>hn_id := hn_id n\<rparr>)
     else if x = b then Some (n\<lparr>hn_id := hn_id m\<rparr>) else hp_mem h x)"
  using assms by (auto simp: heap_swapped_def)

lemma heap_swapped_nodes:
  assumes "hn_id m < length (hp_nodes h)" and "hn_id n < length (hp_nodes h)"
  shows "hp_nodes (heap_swapped h a b m n) ! i =
    (if i = hn_id m then b else if i = hn_id n then a else hp_nodes h ! i)"
  using assms by (auto simp: heap_swapped_def nth_list_update)

lemma heap_swapped_fields [simp]:
  "hp_last (heap_swapped h a b m n) = hp_last h" "hp_size (heap_swapped h a b m n) = hp_size h"
  "hp_gen_key (heap_swapped h a b m n) = hp_gen_key h" "hp_age (heap_swapped h a b m n) = hp_age h"
  "length (hp_nodes (heap_swapped h a b m n)) = length (hp_nodes h)"
  by (simp_all add: heap_swapped_def)

lemma heap_swapped_same:
  "hp_mem h a = Some m \<Longrightarrow> hp_mem h b = Some n \<Longrightarrow> heap_same h (heap_swapped h a b m n)"
  by (auto simp: heap_same_def heap_map_def fun_eq_iff heap_swapped_mem)

lemma heap_swapped_wf:
  assumes wf: "heap_wf h" and a: "hp_mem h a = Some m" and b: "hp_mem h b = Some n"
  shows "heap_wf (heap_swapped h a b m n)"
proof -
  note A = heap_wf_mem [OF wf a] and B = heap_wf_mem [OF wf b]
  note mem = heap_swapped_mem [OF a b] and nodes = heap_swapped_nodes [OF A(4) B(4)]
  have ab: "a = b \<longleftrightarrow> hn_id m = hn_id n" using A(2) B(2) a b by (metis option.inject)
  let ?h = "heap_swapped h a b m n"
  have "\<exists>k. hp_mem ?h (hp_nodes ?h ! i) = Some k \<and> hn_id k = i" if i: "i < hp_last h" for i
  proof -
    consider "i = hn_id m" | "i \<noteq> hn_id m" "i = hn_id n" | "i \<noteq> hn_id m" "i \<noteq> hn_id n" by blast
    then show ?thesis
    proof cases
      case 3
      obtain k where k: "hp_mem h (hp_nodes h ! i) = Some k" "hn_id k = i" using heap_wfD(5) [OF wf i] by blast
      then have "hp_nodes h ! i \<noteq> a" "hp_nodes h ! i \<noteq> b" using 3 a b by (metis option.inject)+
      then show ?thesis using 3 k by (simp add: mem nodes)
    qed (use ab in \<open>simp_all add: mem nodes eq_commute [of b a]\<close>)
  qed
  moreover have "hn_id k < hp_last h \<and> hp_nodes ?h ! hn_id k = x" if x: "hp_mem ?h x = Some k" for x k
  proof -
    consider "x = a" | "x \<noteq> a" "x = b" | "x \<noteq> a" "x \<noteq> b" by blast
    then show ?thesis
    proof cases
      case 3
      then have k: "hp_mem h x = Some k" using x by (simp add: mem)
      then have "hn_id k \<noteq> hn_id m" "hn_id k \<noteq> hn_id n" using 3 A(2) B(2) heap_wf_mem(2) [OF wf k] by metis+
      then show ?thesis using heap_wf_mem(1,2) [OF wf k] by (simp add: nodes)
    next
      case 1
      then have "k = m\<lparr>hn_id := hn_id n\<rparr>" using x by (simp add: mem)
      then show ?thesis using 1 B(1) ab by (auto simp: nodes)
    next
      case 2
      then have "k = n\<lparr>hn_id := hn_id m\<rparr>" using x by (simp add: mem)
      then show ?thesis using 2 A(1) by (simp add: nodes)
    qed
  qed
  moreover have "a \<noteq> 0" "b \<noteq> 0" using heap_wfD(4) [OF wf] a b by (metis option.distinct(1))+
  then have "hp_mem ?h 0 = None" using heap_wfD(4) [OF wf] by (simp add: mem)
  ultimately show ?thesis
    unfolding heap_wf_def using heap_wfD(1-3) [OF wf] by simp
qed

lemma heap_swapped_keys:
  assumes wf: "heap_wf h" and a: "hp_mem h a = Some m" and b: "hp_mem h b = Some n"
  shows "hp_keys (heap_swapped h a b m n) = (hp_keys h)(hn_id m := hn_key n, hn_id n := hn_key m)"
proof
  note A = heap_wf_mem [OF wf a] and B = heap_wf_mem [OF wf b]
  note mem = heap_swapped_mem [OF a b] and nodes = heap_swapped_nodes [OF A(4) B(4)]
  have ab: "a = b \<longleftrightarrow> hn_id m = hn_id n" using A(2) B(2) a b by (metis option.inject)
  fix i
  consider "i = hn_id m" | "i \<noteq> hn_id m" "i = hn_id n" | "i \<noteq> hn_id m" "i \<noteq> hn_id n" by blast
  then show "hp_keys (heap_swapped h a b m n) i = ((hp_keys h)(hn_id m := hn_key n, hn_id n := hn_key m)) i"
  proof cases
    case 3
    have "hp_nodes h ! i \<noteq> a" "hp_nodes h ! i \<noteq> b" if i: "i < hp_last h"
      using heap_wfD(5) [OF wf i] 3 a b by (metis option.inject)+
    then show ?thesis using 3 by (simp add: hp_keys_def mem nodes)
  next
    case 1
    then show ?thesis using A(1) ab by (simp add: hp_keys_def mem nodes eq_commute [of b a])
  next
    case 2
    then show ?thesis using B(1) ab by (simp add: hp_keys_def mem nodes)
  qed
qed

lemmas heap_swapped = heap_swapped_wf heap_swapped_keys heap_swapped_same heap_swapped_mem


section \<open>The two loops\<close>

lemma heap_ify_up_loop_ok:
  assumes "heap_wf h" and "hp_mem h a = Some e" and "up_ok (hp_keys h) (hp_last h) (hn_id e)" and "hn_id e < fuel"
  shows "\<exists>h'. heap_ify_up_loop fuel h a = Inr h' \<and> heap_inv h' \<and> heap_same h h'"
  using assms
proof (induction fuel arbitrary: h e)
  case (Suc fuel)
  note E = heap_wf_mem [OF Suc.prems(1,2)]
  let ?i = "hn_id e"
  show ?case
  proof (cases "?i = 0 \<or> hp_keys h (Parent ?i) \<le> hp_keys h ?i")
    case True
    have "Parent ?i < hp_last h" using E(1) Parent_le [of ?i] by simp
    from heap_wf_node [OF Suc.prems(1) this] obtain p where
      "heap_at h (Parent ?i) = Inr (hp_nodes h ! Parent ?i)" "hp_mem h (hp_nodes h ! Parent ?i) = Some p"
      "hp_keys h (Parent ?i) = hn_key p" by metis
    then have "heap_ify_up_loop (Suc fuel) h a = Inr h"
      using True Suc.prems(2) E(3) by (auto simp: heap_deref_def)
    then show ?thesis using up_done [OF Suc.prems(3) True] Suc.prems(1) by (simp add: heap_inv_def)
  next
    case False
    then have pos: "0 < ?i" and less: "hp_keys h ?i < hp_keys h (Parent ?i)" by auto
    have pl: "Parent ?i < hp_last h" using E(1) Parent_le [of ?i] by simp
    from heap_wf_node [OF Suc.prems(1) this] obtain p where p:
      "heap_at h (Parent ?i) = Inr (hp_nodes h ! Parent ?i)" "hp_mem h (hp_nodes h ! Parent ?i) = Some p"
      "hn_id p = Parent ?i" "hp_keys h (Parent ?i) = hn_key p" by metis
    let ?b = "hp_nodes h ! Parent ?i"
    let ?h = "heap_swapped h ?b a p e"
    have ne: "a \<noteq> ?b" using p(2,3) Suc.prems(2) Parent_less [OF pos] by auto
    have step: "heap_ify_up_loop (Suc fuel) h a = heap_ify_up_loop fuel ?h a"
      using pos less [folded not_le] E(3) p Suc.prems(2) heap_swap_eq [OF Suc.prems(1) p(2) Suc.prems(2)]
      by (simp add: heap_deref_def)
    have e': "hp_mem ?h a = Some (e\<lparr>hn_id := hn_id p\<rparr>)"
      using heap_swapped_mem [OF p(2) Suc.prems(2)] ne by simp
    have "up_ok (hp_keys ?h) (hp_last ?h) (hn_id (e\<lparr>hn_id := hn_id p\<rparr>))"
      using up_step [OF Suc.prems(3) pos E(1) less] heap_swapped_keys [OF Suc.prems(1) p(2) Suc.prems(2)]
        p(3,4) E(3) Parent_less [OF pos] by (simp add: fun_upd_twist)
    moreover have "hn_id (e\<lparr>hn_id := hn_id p\<rparr>) < fuel" using Suc.prems(4) Parent_less [OF pos] p(3) by simp
    ultimately obtain h' where "heap_ify_up_loop fuel ?h a = Inr h'" "heap_inv h'" "heap_same ?h h'"
      using Suc.IH [OF heap_swapped_wf [OF Suc.prems(1) p(2) Suc.prems(2)] e'] by blast
    then show ?thesis
      using step heap_same_trans [OF heap_swapped_same [OF p(2) Suc.prems(2)]] by metis
  qed
qed simp

lemma heap_ify_up_ok:
  assumes "heap_wf h" and "hp_mem h a = Some e" and "up_ok (hp_keys h) (hp_last h) (hn_id e)"
  shows "\<exists>h'. heap_ify_up h a = Inr h' \<and> heap_inv h' \<and> heap_same h h'"
  unfolding heap_ify_up_def using heap_wf_mem(1) [OF assms(1,2)] heap_ify_up_loop_ok [OF assms, of "hp_last h + 1"]
  by (simp del: heap_ify_up_loop.simps)

text \<open>The child \<^verbatim>\<open>_heap_ify_down\<close> chooses has the smallest key among the children.\<close>

lemma heap_kid_ok:
  assumes wf: "heap_wf h" and l: "Left i < hp_last h"
  obtains k n where "heap_kid h (Left i) (Right i) = Inr (hp_nodes h ! k)" and "hp_mem h (hp_nodes h ! k) = Some n"
    and "hn_id n = k" and "hp_keys h k = hn_key n" and "0 < k" and "k < hp_last h" and "Parent k = i"
    and "\<And>j. j < hp_last h \<Longrightarrow> 0 < j \<Longrightarrow> Parent j = i \<Longrightarrow> hp_keys h k \<le> hp_keys h j"
proof -
  let ?k = "if Right i < hp_last h \<and> hp_keys h (Right i) < hp_keys h (Left i) then Right i else Left i"
  have k: "?k < hp_last h" "0 < ?k" using l by (auto simp: Left_def Right_def)
  then have p: "Parent ?k = i" by (simp add: Parent_kid)
  from heap_wf_node [OF wf k(1)] obtain n where n: "heap_at h ?k = Inr (hp_nodes h ! ?k)"
    "hp_mem h (hp_nodes h ! ?k) = Some n" "hn_id n = ?k" "hp_keys h ?k = hn_key n" by metis
  have "heap_kid h (Left i) (Right i) = Inr (hp_nodes h ! ?k)"
    using wf l n(1) by (auto simp: heap_kid_def heap_node_exist_wf split: if_splits)
  moreover have "hp_keys h ?k \<le> hp_keys h j" if "j < hp_last h" "0 < j" "Parent j = i" for j
    using that by (auto simp: Parent_kid)
  ultimately show thesis using that n k p by blast
qed

lemma heap_ify_down_loop_ok:
  assumes "heap_wf h" and "hp_mem h a = Some e" and "down_ok (hp_keys h) (hp_last h) (hn_id e)"
    and "hp_last h \<le> fuel + hn_id e"  and "0 < fuel"
  shows "\<exists>h'. heap_ify_down_loop fuel h a = Inr h' \<and> heap_inv h' \<and> heap_same h h'"
  using assms
proof (induction fuel arbitrary: h e)
  case (Suc fuel)
  note E = heap_wf_mem [OF Suc.prems(1,2)]
  note ex = heap_node_exist_wf [OF Suc.prems(1)]
  let ?i = "hn_id e"
  show ?case
  proof (cases "Left ?i < hp_last h")
    case False
    then have "\<not> Right ?i < hp_last h" by (simp add: Left_def Right_def)
    with False have "heap_ify_down_loop (Suc fuel) h a = Inr h"
      using Suc.prems(2) by (simp add: heap_deref_def ex Let_def)
    moreover have "ordered (hp_keys h) (hp_last h)"
      using Suc.prems(3) by (rule down_done) (use False \<open>\<not> Right ?i < hp_last h\<close> in \<open>auto simp: Parent_kid\<close>)
    ultimately show ?thesis using Suc.prems(1) by (simp add: heap_inv_def)
  next
    case True
    from heap_kid_ok [OF Suc.prems(1) True] obtain k n where
      kid: "heap_kid h (Left ?i) (Right ?i) = Inr (hp_nodes h ! k)" "hp_mem h (hp_nodes h ! k) = Some n" "hn_id n = k"
        "hp_keys h k = hn_key n" "0 < k" "k < hp_last h" "Parent k = ?i"
      and least: "\<And>j. j < hp_last h \<Longrightarrow> 0 < j \<Longrightarrow> Parent j = ?i \<Longrightarrow> hp_keys h k \<le> hp_keys h j" by metis
    let ?b = "hp_nodes h ! k"
    have step: "heap_ify_down_loop (Suc fuel) h a =
        (if hp_keys h ?i \<le> hp_keys h k then Inr h else heap_ify_down_loop fuel (heap_swapped h ?b a n e) a)"
      using True Suc.prems(2) kid(1,2,4) E(3) heap_swap_eq [OF Suc.prems(1) kid(2) Suc.prems(2)]
      by (simp add: heap_deref_def ex Let_def)
    show ?thesis
    proof (cases "hp_keys h ?i \<le> hp_keys h k")
      case True
      then have "ordered (hp_keys h) (hp_last h)"
        using down_done [OF Suc.prems(3)] least by (meson order_trans)
      then show ?thesis using step True Suc.prems(1) by (simp add: heap_inv_def)
    next
      case False
      let ?h = "heap_swapped h ?b a n e"
      have ik: "?i < k" using Parent_less [OF kid(5)] kid(7) by simp
      then have ne: "a \<noteq> ?b" using kid(2,3) Suc.prems(2) by auto
      have e': "hp_mem ?h a = Some (e\<lparr>hn_id := hn_id n\<rparr>)"
        using heap_swapped_mem [OF kid(2) Suc.prems(2)] ne by simp
      have "down_ok ((hp_keys h)(?i := hp_keys h k, k := hp_keys h ?i)) (hp_last h) k"
        using down_step [OF Suc.prems(3) kid(5,6,7)] False least by simp
      then have "down_ok (hp_keys ?h) (hp_last ?h) (hn_id (e\<lparr>hn_id := hn_id n\<rparr>))"
        using heap_swapped_keys [OF Suc.prems(1) kid(2) Suc.prems(2)] kid(3,4) E(3) ik
        by (simp add: fun_upd_twist)
      moreover have "hp_last ?h \<le> fuel + hn_id (e\<lparr>hn_id := hn_id n\<rparr>)" using Suc.prems(4) ik kid(3) by simp
      moreover have "0 < fuel" using Suc.prems(4) ik kid(6) by simp
      ultimately obtain h' where "heap_ify_down_loop fuel ?h a = Inr h'" "heap_inv h'" "heap_same ?h h'"
        using Suc.IH [OF heap_swapped_wf [OF Suc.prems(1) kid(2) Suc.prems(2)] e'] by blast
      then show ?thesis
        using step False heap_same_trans [OF heap_swapped_same [OF kid(2) Suc.prems(2)]] by metis
    qed
  qed
qed simp

lemma heap_ify_down_ok:
  assumes "heap_wf h" and "hp_mem h a = Some e" and "down_ok (hp_keys h) (hp_last h) (hn_id e)"
  shows "\<exists>h'. heap_ify_down h a = Inr h' \<and> heap_inv h' \<and> heap_same h h'"
  unfolding heap_ify_down_def using heap_ify_down_loop_ok [OF assms, of "hp_last h + 1"]
  by (simp del: heap_ify_down_loop.simps)

section \<open>The operations\<close>

lemma around_ok_cong:
  assumes "around_ok K n i" and "i < n" and "\<And>j. j < n \<Longrightarrow> K' j = K j"
  shows "around_ok K' n i"
proof -
  have "K' (Parent j) = K (Parent j)" if "j < n" for j
    using assms(3) Parent_le [of j] that by simp
  then show ?thesis using assms by (simp add: around_ok_def)
qed

lemma up_ok_cong:
  assumes "up_ok K n i" and "i < n" and "\<And>j. j < n \<Longrightarrow> K' j = K j"
  shows "up_ok K' n i"
proof -
  have "K' (Parent j) = K (Parent j)" if "j < n" for j
    using assms(3) Parent_le [of j] that by simp
  then show ?thesis using assms by (simp add: up_ok_def)
qed

lemma heap_fix_ok:
  assumes wf: "heap_wf h" and a: "hp_mem h a = Some e" and "around_ok (hp_keys h) (hp_last h) (hn_id e)"
  shows "\<exists>h'. heap_fix h a = Inr h' \<and> heap_inv h' \<and> heap_same h h'"
proof -
  note E = heap_wf_mem [OF wf a]
  have p: "heap_key_at h (Parent (hn_id e)) = Inr (hp_keys h (Parent (hn_id e)))"
    using wf E(1) Parent_le [of "hn_id e"] by simp
  show ?thesis
  proof (cases "hn_key e < hp_keys h (Parent (hn_id e))")
    case True
    then obtain h1 where h1: "heap_ify_up h a = Inr h1" "heap_inv h1" "heap_same h h1"
      using heap_ify_up_ok [OF wf a] around_up [OF assms(3)] E(3) by auto
    then obtain e1 where e1: "hp_mem h1 a = Some e1"
      using a by (metis heap_map_def heap_same_def map_option_is_None not_None_eq option.distinct(1))
    have wf1: "heap_wf h1" using h1(2) by (simp add: heap_inv_def)
    then have "down_ok (hp_keys h1) (hp_last h1) (hn_id e1)"
      using h1(2) heap_wf_mem(1) [OF wf1 e1] by (intro ordered_down) (simp_all add: heap_inv_def)
    then obtain h2 where "heap_ify_down h1 a = Inr h2" "heap_inv h2" "heap_same h1 h2"
      using heap_ify_down_ok [OF wf1 e1] by blast
    then show ?thesis
      using True h1 p a heap_same_trans [OF h1(3)] by (simp add: heap_fix_def heap_deref_def)
  next
    case False
    then show ?thesis
      using heap_ify_down_ok [OF wf a] around_down [OF assms(3)] E(3) p a by (auto simp: heap_fix_def heap_deref_def)
  qed
qed

lemma heap_extractlast_ok:
  assumes wf: "heap_wf h" and pos: "0 < hp_last h"
  shows "\<exists>n h'. heap_extractlast h = Inr (hn_data n, h') \<and> hp_mem h (hp_nodes h ! (hp_last h - 1)) = Some n \<and>
    heap_wf h' \<and> h' = h\<lparr>hp_last := hp_last h - 1, hp_mem := (hp_mem h)(hp_nodes h ! (hp_last h - 1) := None)\<rparr> \<and>
    (\<forall>j < hp_last h - 1. hp_keys h' j = hp_keys h j)"
proof -
  let ?l = "hp_last h - 1"
  let ?a = "hp_nodes h ! ?l"
  let ?h = "h\<lparr>hp_last := ?l, hp_mem := (hp_mem h)(?a := None)\<rparr>"
  have l: "?l < hp_last h" using pos by simp
  from heap_wf_node [OF wf l] obtain n where n: "heap_at h ?l = Inr ?a" "hp_mem h ?a = Some n" "hn_id n = ?l"
    by metis
  have eq: "heap_extractlast h = Inr (hn_data n, ?h)"
    using n(1,2) pos heap_node_exist_wf [OF wf]
    by (simp add: heap_extractlast_def heap_at_def heap_deref_def Let_def split: if_splits)
  have other: "hp_nodes h ! i \<noteq> ?a" if i: "i < ?l" for i
  proof -
    have "i < hp_last h" using i by simp
    then obtain k where "hp_mem h (hp_nodes h ! i) = Some k" "hn_id k = i" using heap_wfD(5) [OF wf] by blast
    then show ?thesis using n(2,3) i by auto
  qed
  have "\<exists>k. hp_mem ?h (hp_nodes ?h ! i) = Some k \<and> hn_id k = i" if i: "i < hp_last ?h" for i
    using heap_wfD(5) [OF wf, of i] other [of i] i by auto
  moreover have "hn_id k < hp_last ?h \<and> hp_nodes ?h ! hn_id k = x" if x: "hp_mem ?h x = Some k" for x k
  proof -
    have k: "x \<noteq> ?a" "hp_mem h x = Some k" using x by (auto split: if_splits)
    then have "hn_id k \<noteq> ?l" using heap_wf_mem(2) [OF wf k(2)] by metis
    then show ?thesis using heap_wf_mem(1,2) [OF wf k(2)] by simp
  qed
  ultimately have "heap_wf ?h"
    unfolding heap_wf_def using heap_wfD(1-4) [OF wf] by auto
  moreover have "\<forall>j < ?l. hp_keys ?h j = hp_keys h j" using other by (auto simp: hp_keys_def)
  ultimately show ?thesis using eq n(2) by blast
qed

lemma heap_delete_ok:
  assumes inv: "heap_inv h" and a: "hp_mem h a = Some e"
  shows "\<exists>h'. heap_delete h a = Inr (hn_data e, h') \<and> heap_inv h' \<and> heap_map h' = (heap_map h)(a := None) \<and>
    hp_last h' = hp_last h - 1 \<and> hp_gen_key h' = hp_gen_key h \<and> hp_age h' = hp_age h \<and> hp_size h' = hp_size h"
proof -
  have wf: "heap_wf h" and ord: "ordered (hp_keys h) (hp_last h)" using inv by (simp_all add: heap_inv_def)
  note E = heap_wf_mem [OF wf a]
  let ?l = "hp_last h - 1"
  let ?b = "hp_nodes h ! ?l"
  have l: "?l < hp_last h" using E(1) by simp
  from heap_wf_node [OF wf l] obtain n where n: "heap_at h ?l = Inr ?b" "hp_mem h ?b = Some n" "hn_id n = ?l"
    "hp_keys h ?l = hn_key n" by metis
  let ?h = "heap_swapped h ?b a n e"
  have wf1: "heap_wf ?h" using heap_swapped_wf [OF wf n(2) a] .
  have last_a: "hp_nodes ?h ! ?l = a" using heap_swapped_nodes [of n h e] heap_wf_mem(4) [OF wf n(2)] E(4) n(3) by simp
  have "0 < hp_last ?h" using E(1) by simp
  from heap_extractlast_ok [OF wf1 this] obtain dt h2 where
    h2: "heap_extractlast ?h = Inr (dt, h2)" "heap_wf h2"
      "h2 = ?h\<lparr>hp_last := ?l, hp_mem := (hp_mem ?h)(a := None)\<rparr>"
      "\<forall>j < ?l. hp_keys h2 j = hp_keys ?h j"
    unfolding heap_swapped_fields last_a by (elim exE conjE) (rule that, assumption+)
  have fields2: "hp_last h2 = ?l" "hp_gen_key h2 = hp_gen_key h" "hp_age h2 = hp_age h" "hp_size h2 = hp_size h"
    "hp_mem h2 = (hp_mem ?h)(a := None)"
    by (simp_all add: h2(3))
  have "heap_map h2 = (heap_map ?h)(a := None)" by (auto simp: heap_map_def fields2(5))
  then have map2: "heap_map h2 = (heap_map h)(a := None)"
    using heap_swapped_same [OF n(2) a] by (simp add: heap_same_def)
  have keys2: "hp_keys h2 j = ((hp_keys h)(?l := hn_key e, hn_id e := hn_key n)) j" if "j < ?l" for j
    using h2(4) that unfolding heap_swapped_keys [OF wf n(2) a] n(3) by simp
  have pre: "heap_delete h a = (if a = ?b then Inr (hn_data e, h2)
      else if hp_last h2 > 0 then res_bind (heap_fix h2 ?b) (\<lambda>h3. Inr (hn_data e, h3)) else Inr (hn_data e, h2))"
  proof -
    have ex: "heap_node_exist h (int (hp_last h) - 1)" using l by (simp add: heap_node_exist_wf [OF wf])
    show ?thesis
      by (simp only: heap_delete_def heap_deref_def a option.case res_bind_simps n(1) ex res_guard_simps
          heap_swap_eq [OF wf n(2) a] h2(1) prod.case)
  qed
  show ?thesis
  proof (cases "a = ?b")
    case True
    then have "hn_id e = ?l" "hn_key e = hn_key n" using a n(2,3) by (metis option.inject)+
    then have "hp_keys h2 j = hp_keys h j" if "j < ?l" for j
      using that keys2 by simp
    moreover have "Parent j < ?l" if "j < ?l" for j using that Parent_le [of j] by simp
    ultimately have "ordered (hp_keys h2) ?l" using ord by (simp add: ordered_def)
    then have "heap_inv h2" using h2(2) fields2(1) by (simp add: heap_inv_def)
    then show ?thesis using pre True fields2(1-4) map2 by metis
  next
    case False
    then have ne: "hn_id e \<noteq> ?l" using E(2) by metis
    then have il: "hn_id e < ?l" using E(1) by simp
    have b2: "hp_mem h2 ?b = Some (n\<lparr>hn_id := hn_id e\<rparr>)"
      using False unfolding fields2(5) fun_upd_apply heap_swapped_mem [OF n(2) a] by simp
    have "around_ok ((hp_keys h)(hn_id e := hn_key n)) ?l (hn_id e)"
      by (rule ordered_around [OF ord diff_le_self il])
    then have "around_ok (hp_keys h2) ?l (hn_id e)"
      by (rule around_ok_cong) (use il keys2 in auto)
    then have "around_ok (hp_keys h2) (hp_last h2) (hn_id (n\<lparr>hn_id := hn_id e\<rparr>))" by (simp add: fields2(1))
    from heap_fix_ok [OF h2(2) b2 this] obtain h3 where h3: "heap_fix h2 ?b = Inr h3" "heap_inv h3" "heap_same h2 h3"
      by blast
    have "0 < hp_last h2" using il fields2(1) by linarith
    then have "heap_delete h a = Inr (hn_data e, h3)"
      by (simp only: pre False h3(1) if_True if_False res_bind_simps)
    then show ?thesis using h3(2,3) fields2(1-4) map2 by (simp add: heap_same_def)
  qed
qed

lemma heap_grow_ok:
  assumes "heap_wf h" and "hp_size h \<le> 1431655765"
  shows "\<exists>h'. heap_grow h = Inr h' \<and> heap_wf h' \<and> heap_same (h'\<lparr>hp_size := hp_size h\<rparr>) h \<and> hp_keys h' = hp_keys h \<and>
    hp_size h < hp_size h' \<and> hp_mem h' = hp_mem h"
proof -
  let ?n = "if hp_size h > 10000 then hp_size h * 3 div 2 else hp_size h * 2"
  let ?h = "h\<lparr>hp_nodes := take ?n (hp_nodes h) @ replicate (?n - hp_size h) 0, hp_size := ?n\<rparr>"
  note W = heap_wfD [OF assms(1)]
  have n: "hp_size h < ?n" "?n \<le> 2147483647" using W(2) assms(2) by auto
  then have "int ?n \<le> 2147483647" by linarith
  then have eq: "heap_grow h = Inr ?h" unfolding heap_grow_def Let_def by (simp only: not_le [symmetric] if_False) simp
  have nodes: "hp_nodes ?h ! i = hp_nodes h ! i" if "i < hp_last h" for i
    using that W(1,3) n(1) by (simp add: nth_append)
  have "\<exists>k. hp_mem ?h (hp_nodes ?h ! i) = Some k \<and> hn_id k = i" if i: "i < hp_last ?h" for i
    using W(5) i nodes by simp
  moreover have "hn_id k < hp_last ?h \<and> hp_nodes ?h ! hn_id k = x" if x: "hp_mem ?h x = Some k" for x k
    using W(6) [of x k] x nodes by simp
  ultimately have "heap_wf ?h"
    unfolding heap_wf_def using W(1-4) n(1) by simp
  moreover have "hp_keys ?h = hp_keys h" using nodes by (auto simp: hp_keys_def)
  ultimately show ?thesis using eq n(1) by (intro exI [of _ ?h]) (simp add: heap_same_def heap_map_def fun_eq_iff)
qed


text \<open>Inserting at a free address of a heap with room in its array.\<close>

lemma heap_append_ok:
  assumes inv: "heap_inv h" and a: "hp_mem h a = None" "a \<noteq> 0" and room: "hp_last h < hp_size h"
  shows "\<exists>h3. heap_set (h\<lparr>hp_mem := (hp_mem h)(a \<mapsto> \<lparr>hn_key = k, hn_id = hp_last h, hn_data = d\<rparr>)\<rparr>) (hp_last h) a = Inr h3 \<and>
    hp_last h3 = hp_last h \<and>
    (\<exists>h'. heap_ify_up (h3\<lparr>hp_last := hp_last h + 1\<rparr>) a = Inr h' \<and> heap_inv h' \<and> heap_map h' = (heap_map h)(a \<mapsto> (k, d)) \<and>
      hp_last h' = hp_last h + 1 \<and> hp_size h' = hp_size h \<and> hp_gen_key h' = hp_gen_key h \<and> hp_age h' = hp_age h)"
proof -
  have wf: "heap_wf h" and ord: "ordered (hp_keys h) (hp_last h)" using inv by (simp_all add: heap_inv_def)
  note W = heap_wfD [OF wf]
  let ?l = "hp_last h"
  let ?m = "(hp_mem h)(a \<mapsto> \<lparr>hn_key = k, hn_id = ?l, hn_data = d\<rparr>)"
  let ?h3 = "h\<lparr>hp_mem := ?m, hp_nodes := (hp_nodes h)[?l := a]\<rparr>"
  let ?h = "?h3\<lparr>hp_last := ?l + 1\<rparr>"
  have old: "hp_nodes ?h ! i = hp_nodes h ! i \<and> hp_nodes h ! i \<noteq> a" if "i < ?l" for i
    using that W(5) [OF that] a(1) by (metis heap.ext_inject heap.select_convs(5) heap.surjective heap.update_convs(2,5,6)
      less_irrefl nth_list_update_neq option.distinct(1))
  have new: "hp_nodes ?h ! ?l = a" using room W(1) by simp
  have "\<exists>n. hp_mem ?h (hp_nodes ?h ! i) = Some n \<and> hn_id n = i" if i: "i < hp_last ?h" for i
    using i old [of i] new W(5) [of i] by (cases "i = ?l") auto
  moreover have "hn_id n < hp_last ?h \<and> hp_nodes ?h ! hn_id n = x" if x: "hp_mem ?h x = Some n" for x n
  proof (cases "x = a")
    case True
    then show ?thesis using x new by auto
  next
    case False
    then show ?thesis using x W(6) [of x n] old by auto
  qed
  ultimately have wf': "heap_wf ?h"
    unfolding heap_wf_def using W(1-4) room a(2) by simp
  have "up_ok (hp_keys ?h) (hp_last ?h) ?l"
  proof (rule up_ok_cong)
    show "up_ok ((hp_keys h)(?l := k)) (hp_last ?h) ?l"
      using ord Parent_less
      by (auto simp: up_ok_def ordered_def less_Suc_eq dest: Parent_less)
  qed (use old new in \<open>auto simp: hp_keys_def less_Suc_eq\<close>)
  then obtain h' where h': "heap_ify_up ?h a = Inr h'" "heap_inv h'" "heap_same ?h h'"
    using heap_ify_up_ok [OF wf', of a] by auto
  moreover have "heap_map ?h = (heap_map h)(a \<mapsto> (k, d))" by (auto simp: heap_map_def)
  moreover have "heap_set (h\<lparr>hp_mem := ?m\<rparr>) ?l a = Inr ?h3" using room W(1) by (simp add: heap_set_def)
  ultimately show ?thesis by (intro exI [of _ ?h3]) (auto simp: heap_same_def)
qed

lemma heap_insert_ok:
  assumes inv: "heap_inv h" and a: "hp_mem h a = None" "a \<noteq> 0" and bound: "hp_size h \<le> 1431655765"
  shows "\<exists>h'. heap_insert h a d = Inr h' \<and> heap_inv h' \<and> heap_map h' = (heap_map h)(a \<mapsto> (heap_gen_key h d, d)) \<and>
    hp_last h' = hp_last h + 1 \<and> hp_gen_key h' = hp_gen_key h \<and> hp_age h' = hp_age h"
proof -
  have wf: "heap_wf h" using inv by (simp add: heap_inv_def)
  obtain h1 where h1: "(if heap_should_grow h then heap_grow h else Inr h) = Inr h1" "heap_inv h1"
    "hp_mem h1 = hp_mem h" "hp_last h1 = hp_last h" "hp_last h1 < hp_size h1" "hp_gen_key h1 = hp_gen_key h"
    "hp_age h1 = hp_age h" "heap_map h1 = heap_map h"
  proof (cases "heap_should_grow h")
    case True
    obtain h1 where "heap_grow h = Inr h1" "heap_wf h1" "heap_same (h1\<lparr>hp_size := hp_size h\<rparr>) h"
      "hp_keys h1 = hp_keys h" "hp_size h < hp_size h1" "hp_mem h1 = hp_mem h"
      using heap_grow_ok [OF wf bound] by blast
    moreover have "hp_last h \<le> hp_size h" using wf by (simp add: heap_wf_def)
    moreover from calculation have "hp_last h1 = hp_last h" "hp_gen_key h1 = hp_gen_key h" "hp_age h1 = hp_age h"
      "heap_map h1 = heap_map h"
      by (simp_all add: heap_same_def heap_map_def [abs_def])
    ultimately show thesis using that [of h1] True inv by (simp add: heap_inv_def)
  next
    case False
    then show thesis using that [of h] inv by (simp add: heap_should_grow_def)
  qed
  have "hp_mem h1 a = None" using h1(3) a(1) by simp
  from heap_append_ok [OF h1(2) this a(2) h1(5), of "heap_gen_key h d" d]
  show ?thesis unfolding heap_insert_def h1(1) using h1(4,6,7,8) by (auto simp: Let_def)
qed

lemma heap_update_ok:
  assumes inv: "heap_inv h" and a: "hp_mem h a = Some e"
  shows "\<exists>h'. heap_update h a d = Inr (hn_data e, h') \<and> heap_inv h' \<and>
    heap_map h' = (heap_map h)(a \<mapsto> (heap_gen_key h d, d)) \<and> hp_last h' = hp_last h \<and> hp_size h' = hp_size h \<and>
    hp_gen_key h' = hp_gen_key h \<and> hp_age h' = hp_age h"
proof -
  have wf: "heap_wf h" and ord: "ordered (hp_keys h) (hp_last h)" using inv by (simp_all add: heap_inv_def)
  note E = heap_wf_mem [OF wf a]
  let ?e = "e\<lparr>hn_key := heap_gen_key h d, hn_data := d\<rparr>"
  let ?h = "h\<lparr>hp_mem := (hp_mem h)(a \<mapsto> ?e)\<rparr>"
  have "a \<noteq> 0" using heap_wfD(4) [OF wf] a by (metis option.distinct(1))
  have same: "hp_nodes h ! i = a \<longleftrightarrow> i = hn_id e" if "i < hp_last h" for i
    using heap_wfD(5) [OF wf that] E(2) a by (metis option.inject)
  have "\<exists>n. hp_mem ?h (hp_nodes ?h ! i) = Some n \<and> hn_id n = i" if i: "i < hp_last ?h" for i
    using i same [of i] heap_wfD(5) [OF wf, of i] by auto
  moreover have "hn_id n < hp_last ?h \<and> hp_nodes ?h ! hn_id n = x" if x: "hp_mem ?h x = Some n" for x n
    using x E(1,2) heap_wfD(6) [OF wf, of x n] by (auto split: if_splits)
  ultimately have wf': "heap_wf ?h"
    unfolding heap_wf_def using heap_wfD(1-4) [OF wf] \<open>a \<noteq> 0\<close> by simp
  have "around_ok (hp_keys ?h) (hp_last ?h) (hn_id ?e)"
  proof (rule around_ok_cong)
    show "around_ok ((hp_keys h)(hn_id e := heap_gen_key h d)) (hp_last ?h) (hn_id ?e)"
      using ord E(1) by (simp add: ordered_around)
  qed (use E(1) same in \<open>auto simp: hp_keys_def\<close>)
  moreover have "hp_mem ?h a = Some ?e" by simp
  ultimately obtain h' where "heap_fix ?h a = Inr h'" "heap_inv h'" "heap_same ?h h'"
    using heap_fix_ok [OF wf'] by blast
  then show ?thesis using a by (auto simp: heap_update_def heap_deref_def heap_same_def heap_map_def fun_eq_iff)
qed

lemma heap_map_Some: "heap_map h a = Some (k, d) \<longleftrightarrow> (\<exists>n. hp_mem h a = Some n \<and> hn_key n = k \<and> hn_data n = d)"
  by (auto simp: heap_map_def)

lemma heap_map_None: "heap_map h a = None \<longleftrightarrow> hp_mem h a = None"
  by (simp add: heap_map_def)

lemma heap_map_nodes:
  assumes "heap_wf h"
  shows "bij_betw (\<lambda>i. hp_nodes h ! i) {..<hp_last h} (dom (heap_map h))"
proof (rule bij_betw_byWitness [where f' = "\<lambda>a. hn_id (the (hp_mem h a))"])
  show "\<forall>i \<in> {..<hp_last h}. hn_id (the (hp_mem h (hp_nodes h ! i))) = i"
    using heap_wfD(5) [OF assms] by (metis lessThan_iff option.sel)
  have node: "hp_nodes h ! hn_id (the (hp_mem h a)) = a \<and> hn_id (the (hp_mem h a)) < hp_last h" if "a \<in> dom (heap_map h)" for a
    using that heap_wfD(6) [OF assms, of a] by (auto simp: heap_map_def dom_def)
  then show "\<forall>a \<in> dom (heap_map h). hp_nodes h ! hn_id (the (hp_mem h a)) = a" by blast
  show "(\<lambda>a. hn_id (the (hp_mem h a))) ` dom (heap_map h) \<subseteq> {..<hp_last h}" using node by blast
  have "hp_nodes h ! i \<in> dom (heap_map h)" if "i < hp_last h" for i
    using heap_wfD(5) [OF assms that] by (auto simp: heap_map_def dom_def)
  then show "(\<lambda>i. hp_nodes h ! i) ` {..<hp_last h} \<subseteq> dom (heap_map h)" by blast
qed

lemma heap_map_card: "heap_wf h \<Longrightarrow> card (dom (heap_map h)) = hp_last h \<and> finite (dom (heap_map h))"
  using bij_betw_same_card [OF heap_map_nodes, of h] bij_betw_finite [OF heap_map_nodes, of h] by simp

text \<open>The root has the smallest key.\<close>

lemma heap_root_least:
  assumes "heap_inv h" and "heap_map h b = Some (k, d)"
  shows "hp_keys h 0 \<le> k"
proof -
  from assms obtain n where n: "hp_mem h b = Some n" "hn_key n = k" by (auto simp: heap_map_Some)
  have "heap_wf h" "ordered (hp_keys h) (hp_last h)" using assms(1) by (simp_all add: heap_inv_def)
  then show ?thesis using ordered_root [of "hp_keys h" "hp_last h" "hn_id n"] heap_wf_mem(1,3) [OF _ n(1)] n(2) by simp
qed

lemma heap_extractmin_ok:
  assumes inv: "heap_inv h" and "0 < hp_last h"
  shows "\<exists>a k d h'. heap_extractmin h = Inr (Some d, h') \<and> heap_map h a = Some (k, d) \<and>
    (\<forall>b k' d'. heap_map h b = Some (k', d') \<longrightarrow> k \<le> k') \<and> heap_inv h' \<and> heap_map h' = (heap_map h)(a := None) \<and>
    hp_last h' = hp_last h - 1 \<and> hp_gen_key h' = hp_gen_key h \<and> hp_age h' = hp_age h \<and> hp_size h' = hp_size h \<and>
    heap_peepminkey h = Inr k \<and> heap_peepmin h = Inr d"
proof -
  have wf: "heap_wf h" using inv by (simp add: heap_inv_def)
  from heap_wf_node [OF wf assms(2)] obtain n where n: "heap_at h 0 = Inr (hp_nodes h ! 0)"
    "hp_mem h (hp_nodes h ! 0) = Some n" "hp_keys h 0 = hn_key n" by metis
  from heap_delete_ok [OF inv n(2)] obtain h' where h': "heap_delete h (hp_nodes h ! 0) = Inr (hn_data n, h')"
    "heap_inv h'" "heap_map h' = (heap_map h)(hp_nodes h ! 0 := None)" "hp_last h' = hp_last h - 1"
    "hp_gen_key h' = hp_gen_key h" "hp_age h' = hp_age h" "hp_size h' = hp_size h" by blast
  have "heap_extractmin h = Inr (Some (hn_data n), h')"
    using assms(2) n(1,2) h'(1) by (simp add: heap_extractmin_def heap_deref_def)
  moreover have "heap_map h (hp_nodes h ! 0) = Some (hn_key n, hn_data n)" using n(2) by (simp add: heap_map_def)
  moreover have "\<forall>b k' d'. heap_map h b = Some (k', d') \<longrightarrow> hn_key n \<le> k'" using heap_root_least [OF inv] n(3) by simp
  moreover have "heap_peepminkey h = Inr (hn_key n)" "heap_peepmin h = Inr (hn_data n)"
    using assms(2) n wf
    by (simp_all add: heap_peepminkey_def heap_peepmin_def heap_node_exist_wf heap_deref_def)
  ultimately show ?thesis using h' by blast
qed

lemma new_heap_ok:
  "heap_inv (new_heap n g z) \<and> heap_map (new_heap n g z) = Map.empty \<and> hp_last (new_heap n g z) = 0"
  by (auto simp: new_heap_def heap_inv_def heap_wf_def ordered_def heap_map_def Let_def)

text \<open>\<^verbatim>\<open>verify_heap_property\<close> decides the order.\<close>

lemma heap_violated_ok:
  assumes "heap_wf h" and "i < kid" 
  shows "heap_violated h i kid = Inr (kid < hp_last h \<and> hp_keys h kid < hp_keys h i)"
  using assms by (auto simp: heap_violated_def heap_node_exist_wf)

lemma verify_heap_from_ok:
  "heap_wf h \<Longrightarrow> verify_heap_from h is =
     Inr (\<forall>i \<in> set is. \<forall>j < hp_last h. 0 < j \<longrightarrow> Parent j = i \<longrightarrow> hp_keys h i \<le> hp_keys h j)"
proof (induction "is")
  case (Cons i "is")
  have "heap_violated h i (Left i) = Inr (Left i < hp_last h \<and> hp_keys h (Left i) < hp_keys h i)"
    "heap_violated h i (Right i) = Inr (Right i < hp_last h \<and> hp_keys h (Right i) < hp_keys h i)"
    using heap_violated_ok [OF Cons.prems] by (simp_all add: Left_def Right_def)
  moreover have "(\<forall>j < hp_last h. 0 < j \<longrightarrow> Parent j = i \<longrightarrow> hp_keys h i \<le> hp_keys h j) \<longleftrightarrow>
      \<not> (Left i < hp_last h \<and> hp_keys h (Left i) < hp_keys h i) \<and> \<not> (Right i < hp_last h \<and> hp_keys h (Right i) < hp_keys h i)"
    using Parent_kid [of "Left i"] Parent_kid [of "Right i"] Parent_kid
    by (auto simp: not_less not_le Left_def Right_def)
  ultimately show ?case using Cons by simp
qed simp

lemma verify_heap_property_ok:
  assumes "heap_wf h"
  shows "verify_heap_property h = Inr (ordered (hp_keys h) (hp_last h))"
proof -
  have "Parent j < hp_last h div 2" if "0 < j" "j < hp_last h" for j using that by (auto simp: Parent_def)
  then show ?thesis
    using verify_heap_from_ok [OF assms, of "[0..<hp_last h div 2]"]
    by (auto simp: verify_heap_property_def ordered_def)
qed

section \<open>The contract\<close>

text \<open>
  What a client relies on: a finite map from node addresses to keys and data, with the
  smallest key first.
\<close>

fun drain :: "('h \<Rightarrow> ('d option \<times> 'h) res) \<Rightarrow> nat \<Rightarrow> 'h \<Rightarrow> 'd list" where
  "drain extract 0 h = []"
| "drain extract (Suc n) h = (case extract h of Inr (Some d, h') \<Rightarrow> d # drain extract n h' | _ \<Rightarrow> [])"

locale addressed_queue =
  fixes inv :: "'h \<Rightarrow> bool"
    and content :: "'h \<Rightarrow> nat \<Rightarrow> ('k::linorder \<times> 'd) option"
    and keygen :: "'h \<Rightarrow> 'd \<Rightarrow> 'k"
    and room :: "'h \<Rightarrow> bool"
    and insert :: "'h \<Rightarrow> nat \<Rightarrow> 'd \<Rightarrow> 'h res"
    and delete :: "'h \<Rightarrow> nat \<Rightarrow> ('d \<times> 'h) res"
    and update :: "'h \<Rightarrow> nat \<Rightarrow> 'd \<Rightarrow> ('d \<times> 'h) res"
    and extractmin :: "'h \<Rightarrow> ('d option \<times> 'h) res"
  assumes finite_content: "inv h \<Longrightarrow> finite (dom (content h))"
    and insert_law: "inv h \<Longrightarrow> room h \<Longrightarrow> content h a = None \<Longrightarrow> a \<noteq> 0 \<Longrightarrow>
      \<exists>h'. insert h a d = Inr h' \<and> inv h' \<and> content h' = (content h)(a \<mapsto> (keygen h d, d)) \<and> keygen h' = keygen h"
    and delete_law: "inv h \<Longrightarrow> content h a = Some (k, d) \<Longrightarrow>
      \<exists>h'. delete h a = Inr (d, h') \<and> inv h' \<and> content h' = (content h)(a := None) \<and> keygen h' = keygen h \<and>
        (room h \<longrightarrow> room h')"
    and update_law: "inv h \<Longrightarrow> content h a = Some (k, d) \<Longrightarrow>
      \<exists>h'. update h a d' = Inr (d, h') \<and> inv h' \<and> content h' = (content h)(a \<mapsto> (keygen h d', d')) \<and> keygen h' = keygen h"
    and null_free: "inv h \<Longrightarrow> content h 0 = None"
    and extractmin_empty: "inv h \<Longrightarrow> content h = Map.empty \<Longrightarrow> extractmin h = Inr (None, h)"
    and extractmin_law: "inv h \<Longrightarrow> content h \<noteq> Map.empty \<Longrightarrow>
      \<exists>a k d h'. extractmin h = Inr (Some d, h') \<and> content h a = Some (k, d) \<and>
        (\<forall>b k' d'. content h b = Some (k', d') \<longrightarrow> k \<le> k') \<and> inv h' \<and> content h' = (content h)(a := None) \<and> keygen h' = keygen h"
begin

text \<open>Updating a node has the effect of deleting it and inserting the new data at its address.\<close>

lemma update_is_delete_insert:
  assumes "inv h" and "room h" and "content h a = Some (k, d)"
  shows "\<exists>h1 h2 h3. update h a d' = Inr (d, h1) \<and> delete h a = Inr (d, h2) \<and> insert h2 a d' = Inr h3 \<and>
    inv h1 \<and> inv h3 \<and> content h1 = content h3"
proof -
  obtain h1 where h1: "update h a d' = Inr (d, h1)" "inv h1" "content h1 = (content h)(a \<mapsto> (keygen h d', d'))"
    using update_law [OF assms(1,3)] by blast
  obtain h2 where h2: "delete h a = Inr (d, h2)" "inv h2" "content h2 = (content h)(a := None)" "keygen h2 = keygen h" "room h2"
    using delete_law [OF assms(1,3)] assms(2) by blast
  have "a \<noteq> 0" using null_free [OF assms(1)] assms(3) by (metis option.distinct(1))
  then obtain h3 where "insert h2 a d' = Inr h3" "inv h3" "content h3 = (content h2)(a \<mapsto> (keygen h2 d', d'))"
    using insert_law [of h2 a d'] h2 by auto
  then show ?thesis using h1 h2 by auto
qed

text \<open>Emptying the queue gives all data, by ascending key.\<close>

lemma drain_sorted:
  assumes "inv h" and "card (dom (content h)) \<le> n"
  shows "\<exists>as. distinct as \<and> set as = dom (content h) \<and> drain extractmin n h = map (\<lambda>a. snd (the (content h a))) as \<and>
    sorted (map (\<lambda>a. fst (the (content h a))) as)"
  using assms
proof (induction n arbitrary: h)
  case 0
  then have "dom (content h) = {}" using finite_content by (metis card_0_eq le_zero_eq)
  then show ?case by (intro exI [of _ "[]"]) simp
next
  case (Suc n)
  show ?case
  proof (cases "content h = Map.empty")
    case True
    then show ?thesis using extractmin_empty [OF Suc.prems(1)] by (intro exI [of _ "[]"]) simp
  next
    case False
    from extractmin_law [OF Suc.prems(1) this] obtain a k d h' where
      x: "extractmin h = Inr (Some d, h')" "content h a = Some (k, d)" "\<forall>b k' d'. content h b = Some (k', d') \<longrightarrow> k \<le> k'"
        "inv h'" "content h' = (content h)(a := None)" by blast
    have dom: "dom (content h') = dom (content h) - {a}" "a \<in> dom (content h)" using x(2,5) by auto
    have "card (dom (content h')) \<le> n"
      unfolding dom(1) card_Diff_singleton [OF dom(2)] using Suc.prems(2) by simp
    from Suc.IH [OF x(4) this] obtain as where as: "distinct as" "set as = dom (content h')"
      "drain extractmin n h' = map (\<lambda>a. snd (the (content h' a))) as" "sorted (map (\<lambda>a. fst (the (content h' a))) as)" by blast
    have same: "map (\<lambda>a. fst (the (content h' a))) as = map (\<lambda>a. fst (the (content h a))) as"
      "map (\<lambda>a. snd (the (content h' a))) as = map (\<lambda>a. snd (the (content h a))) as"
      using as(2) x(5) by auto
    have "k \<le> fst (the (content h b))" if "b \<in> set as" for b
      using that x(3) as(2) dom(1) by (metis (no_types, lifting) DiffD1 domIff option.exhaust_sel prod.collapse)
    then show ?thesis
      using x(1,2) as [unfolded same] dom by (intro exI [of _ "a # as"]) (auto simp: insert_absorb)
  qed
qed

end

text \<open>The binary heap keeps the contract.\<close>

interpretation bh: addressed_queue heap_inv heap_map heap_gen_key "\<lambda>h. hp_size h \<le> 1431655765"
  heap_insert heap_delete heap_update heap_extractmin
proof
  fix h :: "('a, 'b) heap" and a :: nat and k :: 'a and d d' :: 'b
  show "heap_inv h \<Longrightarrow> finite (dom (heap_map h))" using heap_map_card [of h] by (simp add: heap_inv_def)
  show "heap_inv h \<Longrightarrow> heap_map h 0 = None" using heap_wfD(4) [of h] by (simp add: heap_inv_def heap_map_None)
  show "heap_inv h \<Longrightarrow> hp_size h \<le> 1431655765 \<Longrightarrow> heap_map h a = None \<Longrightarrow> a \<noteq> 0 \<Longrightarrow>
      \<exists>h'. heap_insert h a d = Inr h' \<and> heap_inv h' \<and> heap_map h' = (heap_map h)(a \<mapsto> (heap_gen_key h d, d)) \<and>
        heap_gen_key h' = heap_gen_key h"
    using heap_insert_ok [of h a d] unfolding heap_map_None heap_gen_key_def [abs_def] by metis
  show "heap_inv h \<Longrightarrow> heap_map h a = Some (k, d) \<Longrightarrow>
      \<exists>h'. heap_delete h a = Inr (d, h') \<and> heap_inv h' \<and> heap_map h' = (heap_map h)(a := None) \<and>
        heap_gen_key h' = heap_gen_key h \<and> (hp_size h \<le> 1431655765 \<longrightarrow> hp_size h' \<le> 1431655765)"
    using heap_delete_ok [of h a] unfolding heap_map_Some heap_gen_key_def [abs_def] by metis
  show "heap_inv h \<Longrightarrow> heap_map h a = Some (k, d) \<Longrightarrow>
      \<exists>h'. heap_update h a d' = Inr (d, h') \<and> heap_inv h' \<and> heap_map h' = (heap_map h)(a \<mapsto> (heap_gen_key h d', d')) \<and>
        heap_gen_key h' = heap_gen_key h"
    using heap_update_ok [of h a _ d'] unfolding heap_map_Some heap_gen_key_def [abs_def] by metis
  have empty: "heap_map h = Map.empty \<longleftrightarrow> hp_last h = 0" if "heap_inv h"
    using heap_map_card [of h] that by (auto simp: heap_inv_def)
  show "heap_inv h \<Longrightarrow> heap_map h = Map.empty \<Longrightarrow> heap_extractmin h = Inr (None, h)"
    using empty by (simp add: heap_extractmin_def)
  show "heap_inv h \<Longrightarrow> heap_map h \<noteq> Map.empty \<Longrightarrow>
      \<exists>a k d h'. heap_extractmin h = Inr (Some d, h') \<and> heap_map h a = Some (k, d) \<and>
        (\<forall>b k' d'. heap_map h b = Some (k', d') \<longrightarrow> k \<le> k') \<and> heap_inv h' \<and> heap_map h' = (heap_map h)(a := None) \<and>
        heap_gen_key h' = heap_gen_key h"
    using heap_extractmin_ok [of h] empty unfolding heap_gen_key_def [abs_def] by (metis neq0_conv)
qed


section \<open>Properties\<close>

text \<open>The operations as steps of a map from addresses to keys and data.\<close>

datatype 'd heap_op = Insert nat 'd | Delete nat | Update nat 'd | ExtractMin

fun heap_do :: "('k::linorder, 'd) heap \<Rightarrow> 'd heap_op \<Rightarrow> ('d option \<times> ('k, 'd) heap) res" where
  "heap_do h (Insert a d) = res_bind (heap_insert h a d) (\<lambda>h'. Inr (None, h'))"
| "heap_do h (Delete a) = res_bind (heap_delete h a) (\<lambda>(d, h'). Inr (Some d, h'))"
| "heap_do h (Update a d) = res_bind (heap_update h a d) (\<lambda>(d, h'). Inr (Some d, h'))"
| "heap_do h ExtractMin = heap_extractmin h"

text \<open>A client inserts at fresh addresses, and deletes and updates nodes that are in the heap.\<close>

fun heap_can :: "('k, 'd) heap \<Rightarrow> 'd heap_op \<Rightarrow> bool" where
  "heap_can h (Insert a d) \<longleftrightarrow> hp_mem h a = None \<and> a \<noteq> 0 \<and> hp_size h \<le> 1431655765"
| "heap_can h (Delete a) \<longleftrightarrow> hp_mem h a \<noteq> None"
| "heap_can h (Update a d) \<longleftrightarrow> hp_mem h a \<noteq> None"
| "heap_can h ExtractMin \<longleftrightarrow> True"

inductive queue_step :: "('d \<Rightarrow> 'k::linorder) \<Rightarrow> (nat \<Rightarrow> ('k \<times> 'd) option) \<Rightarrow> 'd heap_op \<Rightarrow> 'd option \<Rightarrow>
    (nat \<Rightarrow> ('k \<times> 'd) option) \<Rightarrow> bool"
  for gen where
  "m a = None \<Longrightarrow> queue_step gen m (Insert a d) None (m(a \<mapsto> (gen d, d)))"
| "m a = Some (k, d) \<Longrightarrow> queue_step gen m (Delete a) (Some d) (m(a := None))"
| "m a = Some (k, old) \<Longrightarrow> queue_step gen m (Update a d) (Some old) (m(a \<mapsto> (gen d, d)))"
| "queue_step gen Map.empty ExtractMin None Map.empty"
| "m a = Some (k, d) \<Longrightarrow> (\<And>b k' d'. m b = Some (k', d') \<Longrightarrow> k \<le> k') \<Longrightarrow>
     queue_step gen m ExtractMin (Some d) (m(a := None))"

text \<open>
  C16. Every operation of the heap succeeds, keeps the heap well-formed and ordered (which the
  code's own \<^verbatim>\<open>verify_heap_property\<close> confirms), and is a step of the abstract queue: insertion
  adds the node, deletion and update find the node by its address and return its old data,
  extraction returns the data of a node with the smallest key, or \<^verbatim>\<open>NULL\<close> on an empty heap.
\<close>

theorem heap_refines_queue:
  assumes "heap_inv h" and "heap_can h op"
  shows "\<exists>r h'. heap_do h op = Inr (r, h') \<and> heap_inv h' \<and> verify_heap_property h' = Inr True \<and>
    queue_step (heap_gen_key h) (heap_map h) op r (heap_map h')"
proof -
  have "\<exists>r h'. heap_do h op = Inr (r, h') \<and> heap_inv h' \<and> queue_step (heap_gen_key h) (heap_map h) op r (heap_map h')"
  proof (cases op)
    case (Insert a d)
    then show ?thesis using bh.insert_law [OF assms(1), of a d] assms(2)
      by (auto simp: heap_map_None intro: queue_step.intros(1) [of "heap_map h" a, unfolded heap_map_None])
  next
    case (Delete a)
    then obtain k old where "heap_map h a = Some (k, old)" using assms(2) by (auto simp: heap_map_def)
    then show ?thesis using bh.delete_law [OF assms(1)] Delete by (fastforce intro: queue_step.intros)
  next
    case (Update a d)
    then obtain k old where "heap_map h a = Some (k, old)" using assms(2) by (auto simp: heap_map_def)
    then show ?thesis using bh.update_law [OF assms(1), of a _ _ d] Update by (fastforce intro: queue_step.intros)
  next
    case ExtractMin
    then show ?thesis
      using bh.extractmin_empty [OF assms(1)] bh.extractmin_law [OF assms(1)] assms(1)
        queue_step.intros(4) [of "heap_gen_key h"] queue_step.intros(5) [of "heap_map h" _ _ _ "heap_gen_key h"]
      by (cases "heap_map h = Map.empty") (simp, metis heap_do.simps(4))
  qed
  then show ?thesis using verify_heap_property_ok unfolding heap_inv_def by metis
qed

lemma heap_refines_queue_witness:
  "\<exists>r h'. heap_do (new_heap 2 (\<lambda>d _. d) (0::int)) (Insert 7 5) = Inr (r, h') \<and> heap_inv h' \<and>
     verify_heap_property h' = Inr True \<and>
     queue_step (heap_gen_key (new_heap 2 (\<lambda>d _. d) (0::int))) (heap_map (new_heap 2 (\<lambda>d _. d) 0)) (Insert 7 5) r (heap_map h')"
  using heap_refines_queue [of "new_heap 2 (\<lambda>d _. d) (0::int)" "Insert 7 5"] new_heap_ok [of 2 "\<lambda>d _. d" "0::int"]
  by (simp add: new_heap_def)

text \<open>
  Emptying the heap with \<^verbatim>\<open>heap_extractmin\<close> returns the data of all its nodes, each once,
  by ascending key.
\<close>

theorem heap_drains_sorted:
  assumes "heap_inv h" and "heap_nodes h \<le> n"
  shows "\<exists>as. distinct as \<and> set as = dom (heap_map h) \<and>
    drain heap_extractmin n h = map (\<lambda>a. snd (the (heap_map h a))) as \<and>
    sorted (map (\<lambda>a. fst (the (heap_map h a))) as)"
  using bh.drain_sorted [OF assms(1), of n] assms heap_map_card [of h] by (simp add: heap_inv_def heap_nodes_def)

definition ex_heap :: "(int, int) heap" where
  "ex_heap = \<lparr>hp_size = 2, hp_last = 2, hp_gen_key = (\<lambda>d _. d), hp_age = 0, hp_nodes = [3, 5],
     hp_mem = [3 \<mapsto> \<lparr>hn_key = 1, hn_id = 0, hn_data = 1\<rparr>, 5 \<mapsto> \<lparr>hn_key = 4, hn_id = 1, hn_data = 4\<rparr>]\<rparr>"

lemma ex_heap_inv: "heap_inv ex_heap"
  by (auto simp: heap_inv_def heap_wf_def ordered_def ex_heap_def hp_keys_def less_Suc_eq numeral_2_eq_2 Parent_def
      split: if_splits)

text \<open>
  \<^verbatim>\<open>heap_update\<close> has the effect its comment promises: that of deleting the node and inserting
  the new data, at the address of the old node.
\<close>

theorem heap_update_is_delete_insert:
  assumes "heap_inv h" and "hp_size h \<le> 1431655765" and "heap_map h a = Some (k, d)"
  shows "\<exists>h1 h2 h3. heap_update h a d' = Inr (d, h1) \<and> heap_delete h a = Inr (d, h2) \<and> heap_insert h2 a d' = Inr h3 \<and>
    heap_inv h1 \<and> heap_inv h3 \<and> heap_map h1 = heap_map h3"
  using assms by (rule bh.update_is_delete_insert)


end
