(* ===== verification/Cbdata.thy ===== *)
theory Cbdata
  imports Squid_Prelude
begin

text \<open>
  Callback data (src/cbdata.cc): reference-counted objects that their owner may invalidate while
  references remain. \<open>cb_mem\<close> maps the address of each allocated object to its header, address
  0 is \<^verbatim>\<open>NULL\<close>; the cookie test of \<^verbatim>\<open>check()\<close> on released memory is the failure \<open>Dangling\<close>.
  \<open>cb_freed\<close> lists the objects handed to their \<^verbatim>\<open>free_func\<close> and returned to their pool. The
  address the pool gives to a new object is an argument. The debugging variants
  (\<^verbatim>\<open>USE_CBDATA_DEBUG\<close>) and the hash table of \<^verbatim>\<open>HASHED_CBDATA\<close> are left out.
\<close>

section \<open>Operations\<close>

record cbdata =
  cb_valid :: bool
  cb_locks :: int
  cb_type :: nat

record cb_state =
  cb_mem :: "nat \<Rightarrow> cbdata option"
  cbdataCount :: int
  cbdata_types :: nat
  cb_freed :: "nat list"

definition cb_check :: "cb_state \<Rightarrow> nat \<Rightarrow> cbdata res" where
  "cb_check s p = (case cb_mem s p of None \<Rightarrow> Inl Dangling | Some c \<Rightarrow> Inr c)"

definition cb_put :: "cb_state \<Rightarrow> nat \<Rightarrow> cbdata \<Rightarrow> cb_state" where
  "cb_put s p c = s\<lparr>cb_mem := (cb_mem s)(p \<mapsto> c)\<rparr>"

text \<open>The destructor calls \<^verbatim>\<open>free_func\<close>, then the memory goes back to the pool.\<close>

definition cb_release :: "cb_state \<Rightarrow> nat \<Rightarrow> cb_state" where
  "cb_release s p = s\<lparr>cbdataCount := cbdataCount s - 1, cb_freed := cb_freed s @ [p], cb_mem := (cb_mem s)(p := None)\<rparr>"

definition cbdataInternalInitType :: "cb_state \<Rightarrow> nat \<Rightarrow> cb_state res" where
  "cbdataInternalInitType s type =
     res_bind (res_guard (type = cbdata_types s + 1) Assertion) (\<lambda>_. Inr (s\<lparr>cbdata_types := type\<rparr>))"

definition cbdataInternalAddType :: "cb_state \<Rightarrow> nat \<Rightarrow> (nat \<times> cb_state) res" where
  "cbdataInternalAddType s type =
     (if type \<noteq> 0 then Inr (type, s)
      else let type1 = cbdata_types s + 1
           in res_bind (cbdataInternalInitType s type1) (\<lambda>s1. Inr (type1, s1)))"

definition cbdataInternalAlloc :: "cb_state \<Rightarrow> nat \<Rightarrow> nat \<Rightarrow> cb_state res" where
  "cbdataInternalAlloc s type p =
     res_bind (res_guard (type > 0 \<and> type \<le> cbdata_types s) Assertion) (\<lambda>_.
     Inr ((cb_put s p \<lparr>cb_valid = True, cb_locks = 0, cb_type = type\<rparr>)\<lparr>cbdataCount := cbdataCount s + 1\<rparr>))"

definition cbdataInternalFree :: "cb_state \<Rightarrow> nat \<Rightarrow> cb_state res" where
  "cbdataInternalFree s p =
     res_bind (cb_check s p) (\<lambda>c.
     res_bind (res_guard (cb_valid c) Assertion) (\<lambda>_.
     let s1 = cb_put s p (c\<lparr>cb_valid := False\<rparr>)
     in if cb_locks c \<noteq> 0 then Inr s1 else Inr (cb_release s1 p)))"

definition cbdataInternalLock :: "cb_state \<Rightarrow> nat \<Rightarrow> cb_state res" where
  "cbdataInternalLock s p =
     (if p = 0 then Inr s
      else res_bind (cb_check s p) (\<lambda>c.
        res_bind (res_guard (cb_locks c < 2147483647) Assertion) (\<lambda>_.
        Inr (cb_put s p (c\<lparr>cb_locks := cb_locks c + 1\<rparr>)))))"

definition cbdataInternalUnlock :: "cb_state \<Rightarrow> nat \<Rightarrow> cb_state res" where
  "cbdataInternalUnlock s p =
     (if p = 0 then Inr s
      else res_bind (cb_check s p) (\<lambda>c.
        res_bind (res_guard (cb_locks c > 0) Assertion) (\<lambda>_.
        let c1 = c\<lparr>cb_locks := cb_locks c - 1\<rparr>; s1 = cb_put s p c1
        in if cb_valid c1 \<or> cb_locks c1 \<noteq> 0 then Inr s1 else Inr (cb_release s1 p))))"

definition cbdataReferenceValid :: "cb_state \<Rightarrow> nat \<Rightarrow> bool res" where
  "cbdataReferenceValid s p =
     (if p = 0 then Inr True
      else res_bind (cb_check s p) (\<lambda>c.
        res_bind (res_guard (cb_locks c > 0) Assertion) (\<lambda>_. Inr (cb_valid c))))"

text \<open>The result is the new value of \<^verbatim>\<open>*tp\<close>, \<^verbatim>\<open>NULL\<close> when the object is not valid any more.\<close>

definition cbdataInternalReferenceDoneValid :: "cb_state \<Rightarrow> nat \<Rightarrow> (bool \<times> nat \<times> cb_state) res" where
  "cbdataInternalReferenceDoneValid s p =
     res_bind (cbdataReferenceValid s p) (\<lambda>valid.
     res_bind (cbdataInternalUnlock s p) (\<lambda>s1.
     Inr (if valid then (True, p, s1) else (False, 0, s1))))"

section \<open>Live objects\<close>

definition cb_lock_count :: "cb_state \<Rightarrow> nat \<Rightarrow> int" where
  "cb_lock_count s p = (case cb_mem s p of None \<Rightarrow> 0 | Some c \<Rightarrow> cb_locks c)"

definition cb_alive :: "cb_state \<Rightarrow> nat \<Rightarrow> bool" where
  "cb_alive s p \<longleftrightarrow> cb_mem s p \<noteq> None"

definition cb_is_valid :: "cb_state \<Rightarrow> nat \<Rightarrow> bool" where
  "cb_is_valid s p \<longleftrightarrow> p = 0 \<or> (case cb_mem s p of None \<Rightarrow> False | Some c \<Rightarrow> cb_valid c)"

text \<open>An object exists as long as it is valid or referenced, and the counter counts the objects.\<close>

definition cb_inv :: "cb_state \<Rightarrow> bool" where
  "cb_inv s \<longleftrightarrow> cb_mem s 0 = None \<and> finite (dom (cb_mem s)) \<and> cbdataCount s = int (card (dom (cb_mem s))) \<and>
     (\<forall>p c. cb_mem s p = Some c \<longrightarrow> 0 \<le> cb_locks c \<and> (cb_valid c \<or> 0 < cb_locks c))"

lemma cb_invD:
  "cb_inv s \<Longrightarrow> cb_mem s p = Some c \<Longrightarrow> p \<noteq> 0 \<and> 0 \<le> cb_locks c \<and> (cb_valid c \<or> 0 < cb_locks c)"
  unfolding cb_inv_def by (metis option.distinct(1))

lemma cb_inv_put:
  assumes "cb_inv s" and "cb_mem s p = Some c" and "0 \<le> cb_locks c'" and "cb_valid c' \<or> 0 < cb_locks c'"
  shows "cb_inv (cb_put s p c')"
proof -
  have "dom ((cb_mem s)(p \<mapsto> c')) = dom (cb_mem s)" using assms(2) by auto
  then show ?thesis using assms cb_invD [OF assms(1,2)] by (auto simp: cb_inv_def cb_put_def simp del: dom_fun_upd)
qed

lemma cb_inv_release:
  assumes "cb_inv s" and "cb_mem s p = Some c"
  shows "cb_inv (cb_release (cb_put s p c') p)"
proof -
  have "p \<in> dom (cb_mem s)" "finite (dom (cb_mem s))" using assms by (auto simp: cb_inv_def)
  then have "card (dom (cb_mem s) - {p}) = card (dom (cb_mem s)) - 1" "0 < card (dom (cb_mem s))"
    using card_gt_0_iff by auto
  then show ?thesis using assms by (auto simp: cb_inv_def cb_release_def cb_put_def of_nat_diff)
qed

lemmas cb_defs = cb_check_def cb_put_def cb_release_def cb_lock_count_def cb_alive_def cb_is_valid_def

lemma cb_alloc_ok:
  assumes "cb_inv s" and "cb_mem s p = None" and "p \<noteq> 0" and "0 < type" "type \<le> cbdata_types s"
  shows "\<exists>s'. cbdataInternalAlloc s type p = Inr s' \<and> cb_inv s' \<and> cb_lock_count s' = cb_lock_count s \<and>
    cb_is_valid s' = (cb_is_valid s)(p := True) \<and> cb_alive s' = (cb_alive s)(p := True)"
proof -
  have "finite (dom (cb_mem s))" "p \<notin> dom (cb_mem s)" using assms by (auto simp: cb_inv_def)
  then have "card (insert p (dom (cb_mem s))) = card (dom (cb_mem s)) + 1" by simp
  then show ?thesis
    using assms by (auto simp: cbdataInternalAlloc_def cb_inv_def cb_defs fun_eq_iff)
qed

lemma cb_free_ok:
  assumes "cb_inv s" and "cb_is_valid s p" and "p \<noteq> 0"
  shows "\<exists>s'. cbdataInternalFree s p = Inr s' \<and> cb_inv s' \<and> cb_lock_count s' = cb_lock_count s \<and>
    cb_is_valid s' = (cb_is_valid s)(p := False) \<and> cb_alive s' = (cb_alive s)(p := 0 < cb_lock_count s p) \<and>
    cb_freed s' = cb_freed s @ (if 0 < cb_lock_count s p then [] else [p])"
proof -
  from assms obtain c where c: "cb_mem s p = Some c" "cb_valid c" by (auto simp: cb_is_valid_def split: option.splits)
  note I = cb_invD [OF assms(1) c(1)]
  show ?thesis
  proof (cases "cb_locks c = 0")
    case True
    then show ?thesis
      using c assms(3) cb_inv_release [OF assms(1) c(1), of "c\<lparr>cb_valid := False\<rparr>"]
      by (auto simp: cbdataInternalFree_def cb_defs fun_eq_iff)
  next
    case False
    then show ?thesis
      using c assms(3) I cb_inv_put [OF assms(1) c(1), of "c\<lparr>cb_valid := False\<rparr>"]
      by (auto simp: cbdataInternalFree_def cb_defs fun_eq_iff)
  qed
qed

lemma cb_lock_ok:
  assumes "cb_inv s" and "cb_alive s p" and "cb_lock_count s p < 2147483647"
  shows "\<exists>s'. cbdataInternalLock s p = Inr s' \<and> cb_inv s' \<and>
    cb_lock_count s' = (cb_lock_count s)(p := cb_lock_count s p + 1) \<and> cb_is_valid s' = cb_is_valid s \<and>
    cb_alive s' = cb_alive s \<and> cb_freed s' = cb_freed s"
proof -
  from assms obtain c where c: "cb_mem s p = Some c" by (auto simp: cb_alive_def)
  show ?thesis
    using c assms(3) cb_invD [OF assms(1) c] cb_inv_put [OF assms(1) c, of "c\<lparr>cb_locks := cb_locks c + 1\<rparr>"]
    by (auto simp: cbdataInternalLock_def cb_defs fun_eq_iff)
qed

lemma cb_unlock_ok:
  assumes "cb_inv s" and "0 < cb_lock_count s p"
  shows "\<exists>s'. cbdataInternalUnlock s p = Inr s' \<and> cb_inv s' \<and>
    cb_lock_count s' = (cb_lock_count s)(p := cb_lock_count s p - 1) \<and> cb_is_valid s' = cb_is_valid s \<and>
    cb_alive s' = (cb_alive s)(p := cb_is_valid s p \<or> 1 < cb_lock_count s p) \<and>
    cb_freed s' = cb_freed s @ (if cb_is_valid s p \<or> 1 < cb_lock_count s p then [] else [p])"
proof -
  from assms obtain c where c: "cb_mem s p = Some c" by (auto simp: cb_lock_count_def split: option.splits)
  note I = cb_invD [OF assms(1) c]
  show ?thesis
  proof (cases "cb_valid c \<or> cb_locks c \<noteq> 1")
    case True
    then show ?thesis
      using c assms(2) I cb_inv_put [OF assms(1) c, of "c\<lparr>cb_locks := cb_locks c - 1\<rparr>"]
      by (auto simp: cbdataInternalUnlock_def cb_defs fun_eq_iff)
  next
    case False
    then show ?thesis
      using c assms(2) I cb_inv_release [OF assms(1) c, of "c\<lparr>cb_locks := cb_locks c - 1\<rparr>"]
      by (auto simp: cbdataInternalUnlock_def cb_defs fun_eq_iff)
  qed
qed

lemma cb_valid_ok:
  assumes "cb_inv s" and "p = 0 \<or> 0 < cb_lock_count s p"
  shows "cbdataReferenceValid s p = Inr (cb_is_valid s p)"
  using assms by (auto simp: cbdataReferenceValid_def cb_defs split: option.splits)

lemma cb_locked_alive: "0 < cb_lock_count s p \<Longrightarrow> cb_alive s p"
  by (auto simp: cb_defs split: option.splits)


section \<open>The contract\<close>

text \<open>What the holders of references rely on.\<close>

locale reference_counts =
  fixes inv :: "'s \<Rightarrow> bool" and locks :: "'s \<Rightarrow> nat \<Rightarrow> int" and alive valid :: "'s \<Rightarrow> nat \<Rightarrow> bool"
    and limit :: int
    and lock unlock :: "'s \<Rightarrow> nat \<Rightarrow> 's res" and is_valid :: "'s \<Rightarrow> nat \<Rightarrow> bool res"
  assumes lock_law: "inv s \<Longrightarrow> alive s p \<Longrightarrow> locks s p < limit \<Longrightarrow>
      \<exists>s'. lock s p = Inr s' \<and> inv s' \<and> locks s' = (locks s)(p := locks s p + 1) \<and> valid s' = valid s \<and> alive s' = alive s"
    and unlock_law: "inv s \<Longrightarrow> 0 < locks s p \<Longrightarrow>
      \<exists>s'. unlock s p = Inr s' \<and> inv s' \<and> locks s' = (locks s)(p := locks s p - 1) \<and> valid s' = valid s \<and>
        alive s' = (alive s)(p := valid s p \<or> 1 < locks s p)"
    and null_law: "lock s 0 = Inr s" "unlock s 0 = Inr s" "valid s 0" "locks s 0 \<le> 0 \<or> \<not> inv s"
    and locked_alive: "0 < locks s p \<Longrightarrow> alive s p"
    and valid_law: "inv s \<Longrightarrow> p = 0 \<or> 0 < locks s p \<Longrightarrow> is_valid s p = Inr (valid s p)"
begin

text \<open>A reference is copied through a temporary object that takes one itself.\<close>

lemma copied_reference:
  assumes "inv s" and "p = 0 \<or> 0 < locks s p" and "locks s p + 1 < limit"
  shows "\<exists>s1 s2 s3. lock s p = Inr s1 \<and> lock s1 p = Inr s2 \<and> unlock s2 p = Inr s3 \<and> inv s3 \<and>
    locks s3 = (locks s)(p := locks s p + of_bool (p \<noteq> 0)) \<and> valid s3 = valid s \<and> alive s3 = alive s"
proof (cases "p = 0")
  case True
  then show ?thesis using null_law assms(1) by auto
next
  case False
  then have pos: "0 < locks s p" using assms(2) by simp
  obtain s1 where s1: "lock s p = Inr s1" "inv s1" "locks s1 = (locks s)(p := locks s p + 1)" "valid s1 = valid s"
    "alive s1 = alive s"
    using lock_law [OF assms(1) locked_alive [OF pos]] assms(3) by auto
  obtain s2 where s2: "lock s1 p = Inr s2" "inv s2" "locks s2 = (locks s1)(p := locks s1 p + 1)" "valid s2 = valid s1"
    "alive s2 = alive s1"
    using lock_law [OF s1(2), of p] s1(3,5) locked_alive [OF pos] assms(3) by auto
  have "0 < locks s2 p" using s1(3) s2(3) pos by simp
  from unlock_law [OF s2(2) this] obtain s3 where s3: "unlock s2 p = Inr s3" "inv s3"
    "locks s3 = (locks s2)(p := locks s2 p - 1)" "valid s3 = valid s2"
    "alive s3 = (alive s2)(p := valid s2 p \<or> 1 < locks s2 p)" by blast
  have "locks s3 = (locks s)(p := locks s p + of_bool (p \<noteq> 0))" using s1(3) s2(3) s3(3) False by (simp add: fun_eq_iff)
  moreover have "alive s3 = alive s"
    using s1(3,5) s2(3,5) s3(5) pos locked_alive [OF pos] by (simp add: fun_eq_iff)
  ultimately show ?thesis using s1 s2 s3 by auto
qed

end

interpretation cbr: reference_counts cb_inv cb_lock_count cb_alive cb_is_valid 2147483647
  cbdataInternalLock cbdataInternalUnlock cbdataReferenceValid
proof
  fix s :: cb_state and p :: nat
  show "cb_inv s \<Longrightarrow> cb_alive s p \<Longrightarrow> cb_lock_count s p < 2147483647 \<Longrightarrow>
      \<exists>s'. cbdataInternalLock s p = Inr s' \<and> cb_inv s' \<and> cb_lock_count s' = (cb_lock_count s)(p := cb_lock_count s p + 1) \<and>
        cb_is_valid s' = cb_is_valid s \<and> cb_alive s' = cb_alive s"
    using cb_lock_ok by blast
  show "cb_inv s \<Longrightarrow> 0 < cb_lock_count s p \<Longrightarrow>
      \<exists>s'. cbdataInternalUnlock s p = Inr s' \<and> cb_inv s' \<and> cb_lock_count s' = (cb_lock_count s)(p := cb_lock_count s p - 1) \<and>
        cb_is_valid s' = cb_is_valid s \<and> cb_alive s' = (cb_alive s)(p := cb_is_valid s p \<or> 1 < cb_lock_count s p)"
    using cb_unlock_ok by blast
  show "cbdataInternalLock s 0 = Inr s" "cbdataInternalUnlock s 0 = Inr s" "cb_is_valid s 0"
    by (simp_all add: cbdataInternalLock_def cbdataInternalUnlock_def cb_is_valid_def)
  show "cb_lock_count s 0 \<le> 0 \<or> \<not> cb_inv s" by (auto simp: cb_inv_def cb_lock_count_def)
qed (auto intro: cb_locked_alive cb_valid_ok)

section \<open>Clients\<close>

text \<open>
  Clients and their references: \<open>h p\<close> is the number of references held to \<open>p\<close>. An owner
  frees a valid object; a reference is taken from a valid object or from another reference, and
  each is given back once.
\<close>

inductive cb_step :: "cb_state \<times> (nat \<Rightarrow> nat) \<Rightarrow> cb_state \<times> (nat \<Rightarrow> nat) \<Rightarrow> bool" where
  cb_addtype: "cbdataInternalAddType s 0 = Inr (t, s') \<Longrightarrow> cb_step (s, h) (s', h)"
| cb_alloc: "cb_mem s p = None \<Longrightarrow> p \<noteq> 0 \<Longrightarrow> cbdataInternalAlloc s t p = Inr s' \<Longrightarrow> cb_step (s, h) (s', h)"
| cb_free: "p \<noteq> 0 \<Longrightarrow> cb_is_valid s p \<Longrightarrow> cbdataInternalFree s p = Inr s' \<Longrightarrow> cb_step (s, h) (s', h)"
| cb_lock: "p \<noteq> 0 \<Longrightarrow> cb_is_valid s p \<or> 0 < h p \<Longrightarrow> cbdataInternalLock s p = Inr s' \<Longrightarrow>
    cb_step (s, h) (s', h(p := h p + 1))"
| cb_unlock: "0 < h p \<Longrightarrow> cbdataInternalUnlock s p = Inr s' \<Longrightarrow> cb_step (s, h) (s', h(p := h p - 1))"

definition cb_start :: "cb_state \<times> (nat \<Rightarrow> nat) \<Rightarrow> bool" where
  "cb_start sh \<longleftrightarrow> sh = (\<lparr>cb_mem = Map.empty, cbdataCount = 0, cbdata_types = 0, cb_freed = []\<rparr>, \<lambda>_. 0)"

definition cb_sys_inv :: "cb_state \<times> (nat \<Rightarrow> nat) \<Rightarrow> bool" where
  "cb_sys_inv = (\<lambda>(s, h). cb_inv s \<and> (\<forall>p. cb_lock_count s p = int (h p)))"

lemma cb_step_inv: "cb_step sh sh' \<Longrightarrow> cb_sys_inv sh \<Longrightarrow> cb_sys_inv sh'"
proof (induction rule: cb_step.induct)
  case (cb_addtype s t s' h)
  then have "s' = s\<lparr>cbdata_types := cbdata_types s + 1\<rparr>"
    by (auto simp: cbdataInternalAddType_def cbdataInternalInitType_def Let_def)
  then show ?case using cb_addtype by (simp add: cb_sys_inv_def cb_inv_def cb_lock_count_def)
next
  case (cb_alloc s p t s' h)
  then have "0 < t" "t \<le> cbdata_types s" by (auto simp: cbdataInternalAlloc_def res_guard_def split: if_splits)
  then show ?case using cb_alloc_ok [of s p t] cb_alloc by (auto simp: cb_sys_inv_def)
next
  case (cb_free p s s' h)
  then show ?case using cb_free_ok [of s p] by (auto simp: cb_sys_inv_def)
next
  case (cb_lock p s h s')
  have l: "cb_alive s p" "cb_lock_count s p < 2147483647"
    using cb_lock(1,3)
    by (auto simp: cbdataInternalLock_def cb_check_def cb_alive_def cb_lock_count_def res_guard_def
        split: option.splits if_splits)
  then show ?case using cb_lock_ok [OF _ l] cb_lock by (auto simp: cb_sys_inv_def)
next
  case (cb_unlock h p s s')
  then show ?case using cb_unlock_ok [of s p] by (auto simp: cb_sys_inv_def of_nat_diff)
qed

interpretation cbs: inductive_invariant cb_start cb_step cb_sys_inv
proof
  show "cb_start s \<Longrightarrow> cb_sys_inv s" for s
    by (simp add: cb_start_def cb_sys_inv_def cb_inv_def cb_lock_count_def)
qed (rule cb_step_inv)

text \<open>
  C17. In every state clients can reach, a referenced object is still allocated and counts exactly
  its references; asking whether it is valid and giving a reference back never fail, and the object
  is released exactly with its last reference, if its owner has freed it before. The counter of
  objects is exact.
\<close>

theorem cbdata_references_safe:
  assumes "reach cb_start cb_step (s, h)"
  shows "cbdataCount s = int (card (dom (cb_mem s))) \<and>
    (\<forall>p. 0 < h p \<longrightarrow> cb_alive s p \<and> cb_lock_count s p = int (h p) \<and>
      cbdataReferenceValid s p = Inr (cb_is_valid s p) \<and>
      (\<exists>s'. cbdataInternalUnlock s p = Inr s' \<and> (cb_alive s' p \<longleftrightarrow> cb_is_valid s p \<or> 1 < h p) \<and>
        cb_freed s' = cb_freed s @ (if cb_is_valid s p \<or> 1 < h p then [] else [p])))"
proof -
  from cbs.reach_inv [OF assms] have inv: "cb_inv s" and locks: "\<And>p. cb_lock_count s p = int (h p)"
    by (simp_all add: cb_sys_inv_def)
  show ?thesis
  proof (intro conjI allI impI)
    show "cbdataCount s = int (card (dom (cb_mem s)))" using inv by (simp add: cb_inv_def)
    fix p
    assume "0 < h p"
    then have pos: "0 < cb_lock_count s p" using locks by simp
    then show "cb_alive s p" by (rule cb_locked_alive)
    show "cb_lock_count s p = int (h p)" by (rule locks)
    show "cbdataReferenceValid s p = Inr (cb_is_valid s p)" using cb_valid_ok [OF inv] pos by blast
    from cb_unlock_ok [OF inv pos] obtain s' where "cbdataInternalUnlock s p = Inr s'"
      "cb_alive s' = (cb_alive s)(p := cb_is_valid s p \<or> 1 < cb_lock_count s p)"
      "cb_freed s' = cb_freed s @ (if cb_is_valid s p \<or> 1 < cb_lock_count s p then [] else [p])" by blast
    moreover have "1 < cb_lock_count s p \<longleftrightarrow> 1 < h p" by (simp add: locks)
    ultimately show "\<exists>s'. cbdataInternalUnlock s p = Inr s' \<and> (cb_alive s' p \<longleftrightarrow> cb_is_valid s p \<or> 1 < h p) \<and>
        cb_freed s' = cb_freed s @ (if cb_is_valid s p \<or> 1 < h p then [] else [p])" by simp
  qed
qed

lemma cbdata_references_safe_witness:
  "\<exists>s h. reach cb_start cb_step (s, h) \<and> 0 < h 8 \<and> cb_alive s 8 \<and> cbdataReferenceValid s 8 = Inr (cb_is_valid s 8)"
proof -
  let ?c = "\<lparr>cb_valid = True, cb_locks = 0, cb_type = 1\<rparr>"
  let ?s0 = "\<lparr>cb_mem = Map.empty, cbdataCount = 0, cbdata_types = 0, cb_freed = []\<rparr>"
  let ?s1 = "?s0\<lparr>cbdata_types := 1\<rparr>"
  let ?s2 = "?s1\<lparr>cb_mem := [8 \<mapsto> ?c], cbdataCount := 1\<rparr>"
  let ?s3 = "?s2\<lparr>cb_mem := [8 \<mapsto> ?c\<lparr>cb_locks := 1\<rparr>]\<rparr>"
  have "cb_step (?s0, \<lambda>_. 0) (?s1, \<lambda>_. 0)"
    by (rule cb_addtype [of _ 1]) (simp add: cbdataInternalAddType_def cbdataInternalInitType_def Let_def)
  moreover have "cb_step (?s1, \<lambda>_. 0) (?s2, \<lambda>_. 0)"
    by (rule cb_alloc [of _ 8 1]) (simp_all add: cbdataInternalAlloc_def cb_put_def)
  moreover have "cb_step (?s2, \<lambda>_. 0) (?s3, (\<lambda>_. 0)(8 := 0 + 1))"
    by (rule cb_lock) (simp_all add: cbdataInternalLock_def cb_check_def cb_put_def cb_is_valid_def)
  moreover have "reach cb_start cb_step (?s0, \<lambda>_. 0)" by (rule reach_init) (simp add: cb_start_def)
  ultimately have r: "reach cb_start cb_step (?s3, (\<lambda>_. 0)(8 := 0 + 1))" by (meson reach_step)
  show ?thesis using r cbdata_references_safe [OF r] by (intro exI conjI) (assumption, simp_all)
qed

end
