(* ===== verification/Event_Scheduler.thy ===== *)
theory Event_Scheduler
  imports Cbdata
begin

text \<open>
  The time-based event queue (src/event.cc, src/event.h). Events hold a reference to their
  argument when \<^verbatim>\<open>cbdata\<close> is set, and so do the calls an event becomes when it is due; the state
  therefore contains the callback data. Functions, arguments and names are addresses and
  strings; a time (\<^verbatim>\<open>double\<close>) is an element of an ordered group, and the conversion of a delay to
  milliseconds, \<^verbatim>\<open>(int)(delay * 1000)\<close>, is the argument \<open>msec\<close>. \<open>ev_calls\<close> is the part of the queue
  of asynchronous calls that \<^verbatim>\<open>ScheduleCallHere\<close> fills here.
\<close>

section \<open>Data\<close>

record 't ev_entry =
  ev_name :: string
  ev_func :: nat
  ev_arg :: nat
  ev_when :: 't
  ev_weight :: int
  ev_cbdata :: bool

record ev_call =
  dl_name :: string
  theHandler :: nat
  theArg :: nat
  isLockedArg :: bool

record 't event_scheduler =
  tasks :: "'t ev_entry list"
  ev_cb :: cb_state
  ev_calls :: "ev_call list"
  last_event_ran :: "string option"

section \<open>Operations\<close>

definition EventDialer_new :: "cb_state \<Rightarrow> nat \<Rightarrow> bool \<Rightarrow> cb_state res" where
  "EventDialer_new cb arg lockedArg = (if lockedArg then cbdataInternalLock cb arg else Inr cb)"

definition EventDialer_delete :: "cb_state \<Rightarrow> nat \<Rightarrow> bool \<Rightarrow> cb_state res" where
  "EventDialer_delete cb arg lockedArg = (if lockedArg then cbdataInternalUnlock cb arg else Inr cb)"

definition EventDialer_canDial :: "cb_state \<Rightarrow> ev_call \<Rightarrow> bool res" where
  "EventDialer_canDial cb c =
     (if isLockedArg c then cbdataReferenceValid cb (theArg c) else Inr True)"

definition ev_entry_new :: "cb_state \<Rightarrow> 't ev_entry \<Rightarrow> cb_state res" where
  "ev_entry_new cb e = (if ev_cbdata e then cbdataInternalLock cb (ev_arg e) else Inr cb)"

definition ev_entry_delete :: "cb_state \<Rightarrow> 't ev_entry \<Rightarrow> cb_state res" where
  "ev_entry_delete cb e = (if ev_cbdata e then cbdataInternalUnlock cb (ev_arg e) else Inr cb)"

definition EventScheduler :: "cb_state \<Rightarrow> 't event_scheduler" where
  "EventScheduler cb = \<lparr>tasks = [], ev_cb = cb, ev_calls = [], last_event_ran = None\<rparr>"

text \<open>
  The loop of \<^verbatim>\<open>cancel\<close>: the tasks left, the callback data, and whether the loop was left by
  the \<^verbatim>\<open>return\<close>. After a deletion the loop steps over the event that follows the deleted one.
\<close>

fun cancel_from :: "cb_state \<Rightarrow> nat \<Rightarrow> nat \<Rightarrow> 't ev_entry list \<Rightarrow> ('t ev_entry list \<times> cb_state \<times> bool) res" where
  "cancel_from cb func arg [] = Inr ([], cb, False)"
| "cancel_from cb func arg (event # es) =
     (if ev_func event \<noteq> func \<or> (arg \<noteq> 0 \<and> ev_arg event \<noteq> arg) then
        res_bind (cancel_from cb func arg es) (\<lambda>(es', cb', ret). Inr (event # es', cb', ret))
      else
        res_bind (ev_entry_delete cb event) (\<lambda>cb1.
        if arg \<noteq> 0 then Inr (es, cb1, True)
        else case es of
          [] \<Rightarrow> Inr ([], cb1, False)
        | e2 # es2 \<Rightarrow>
            res_bind (cancel_from cb1 func arg es2) (\<lambda>(es', cb', ret). Inr (e2 # es', cb', ret))))"

text \<open>The Boolean result is whether \<^verbatim>\<open>debug_trap\<close> reports that the event was not found.\<close>

definition EventScheduler_cancel :: "'t event_scheduler \<Rightarrow> nat \<Rightarrow> nat \<Rightarrow> (bool \<times> 't event_scheduler) res" where
  "EventScheduler_cancel s func arg =
     res_bind (cancel_from (ev_cb s) func arg (tasks s)) (\<lambda>(es, cb, ret).
     Inr (\<not> ret \<and> arg \<noteq> 0, s\<lparr>tasks := es, ev_cb := cb\<rparr>))"

definition EventScheduler_checkDelay :: "('t::linordered_ab_group_add \<Rightarrow> int) \<Rightarrow> 't \<Rightarrow> 't event_scheduler \<Rightarrow> int" where
  "EventScheduler_checkDelay msec current_dtime s =
     (case tasks s of
        [] \<Rightarrow> - 1
      | e # _ \<Rightarrow> let result = msec (ev_when e - current_dtime) in if result < 0 then 0 else result)"

definition ev_heavy :: "cb_state \<Rightarrow> 't ev_entry \<Rightarrow> bool res" where
  "ev_heavy cb e =
     (if ev_weight e = 0 then Inr False
      else if \<not> ev_cbdata e then Inr True
      else cbdataReferenceValid cb (ev_arg e))"

definition ev_call_of :: "'t ev_entry \<Rightarrow> ev_call" where
  "ev_call_of e = \<lparr>dl_name = ev_name e, theHandler = ev_func e, theArg = ev_arg e, isLockedArg = ev_cbdata e\<rparr>"

text \<open>
  One round of the loop: the dialer given to \<^verbatim>\<open>asyncCall\<close> is a temporary, the call keeps a copy
  of it, and the event is deleted after the call was queued.
\<close>

definition ev_fire :: "cb_state \<Rightarrow> 't ev_entry \<Rightarrow> (bool \<times> cb_state) res" where
  "ev_fire cb e =
     res_bind (EventDialer_new cb (ev_arg e) (ev_cbdata e)) (\<lambda>cb1.
     res_bind (EventDialer_new cb1 (ev_arg e) (ev_cbdata e)) (\<lambda>cb2.
     res_bind (EventDialer_delete cb2 (ev_arg e) (ev_cbdata e)) (\<lambda>cb3.
     res_bind (ev_heavy cb3 e) (\<lambda>heavy.
     res_bind (ev_entry_delete cb3 e) (\<lambda>cb4. Inr (heavy, cb4))))))"

fun run_events :: "'t::linordered_ab_group_add \<Rightarrow> 't event_scheduler \<Rightarrow> 't ev_entry list \<Rightarrow> 't event_scheduler res" where
  "run_events current_dtime s [] = Inr s"
| "run_events current_dtime s (event # es) =
     (if ev_when event > current_dtime then Inr s
      else res_bind (ev_fire (ev_cb s) event) (\<lambda>(heavy, cb).
        let s1 = s\<lparr>tasks := es, ev_cb := cb, ev_calls := ev_calls s @ [ev_call_of event],
          last_event_ran := Some (ev_name event)\<rparr>
        in if heavy then Inr s1 else run_events current_dtime s1 es))"

definition EventScheduler_checkEvents ::
    "('t::linordered_ab_group_add \<Rightarrow> int) \<Rightarrow> 't \<Rightarrow> 't event_scheduler \<Rightarrow> (int \<times> 't event_scheduler) res" where
  "EventScheduler_checkEvents msec current_dtime s =
     (case tasks s of
        [] \<Rightarrow> Inr (EventScheduler_checkDelay msec current_dtime s, s)
      | e # _ \<Rightarrow>
          if ev_when e > current_dtime then Inr (EventScheduler_checkDelay msec current_dtime s, s)
          else res_bind (run_events current_dtime s (tasks s)) (\<lambda>s1.
            Inr (EventScheduler_checkDelay msec current_dtime s1, s1)))"

fun clean_from :: "cb_state \<Rightarrow> 't ev_entry list \<Rightarrow> cb_state res" where
  "clean_from cb [] = Inr cb"
| "clean_from cb (e # es) = res_bind (ev_entry_delete cb e) (\<lambda>cb1. clean_from cb1 es)"

definition EventScheduler_clean :: "'t event_scheduler \<Rightarrow> 't event_scheduler res" where
  "EventScheduler_clean s = res_bind (clean_from (ev_cb s) (tasks s)) (\<lambda>cb. Inr (s\<lparr>tasks := [], ev_cb := cb\<rparr>))"

definition EventScheduler_find :: "'t event_scheduler \<Rightarrow> nat \<Rightarrow> nat \<Rightarrow> bool" where
  "EventScheduler_find s func arg = list_ex (\<lambda>e. ev_func e = func \<and> ev_arg e = arg) (tasks s)"

fun ev_insert :: "'t::linordered_ab_group_add ev_entry \<Rightarrow> 't ev_entry list \<Rightarrow> 't ev_entry list" where
  "ev_insert event [] = [event]"
| "ev_insert event (e # es) = (if ev_when e > ev_when event then event # e # es else e # ev_insert event es)"

definition EventScheduler_schedule :: "'t::linordered_ab_group_add \<Rightarrow> 't event_scheduler \<Rightarrow> string \<Rightarrow> nat \<Rightarrow> nat \<Rightarrow> 't \<Rightarrow> int \<Rightarrow>
    bool \<Rightarrow> 't event_scheduler res" where
  "EventScheduler_schedule current_dtime s name func arg when1 weight cbdata1 =
     (let timestamp = (if when1 > 0 then current_dtime + when1 else 0);
          event = \<lparr>ev_name = name, ev_func = func, ev_arg = arg, ev_when = timestamp, ev_weight = weight, ev_cbdata = cbdata1\<rparr>
      in res_bind (ev_entry_new (ev_cb s) event) (\<lambda>cb.
         Inr (s\<lparr>ev_cb := cb, tasks := ev_insert event (tasks s)\<rparr>)))"

text \<open>\<open>rnd\<close> is what \<^verbatim>\<open>drand48\<close> returns.\<close>

definition eventAddIsh :: "'t::linordered_field \<Rightarrow> 't \<Rightarrow> 't event_scheduler \<Rightarrow> string \<Rightarrow> nat \<Rightarrow> nat \<Rightarrow> 't \<Rightarrow> int \<Rightarrow>
    't event_scheduler res" where
  "eventAddIsh current_dtime rnd s name func arg delta_ish weight =
     EventScheduler_schedule current_dtime s name func arg
       (if delta_ish \<ge> 3 then let two_third = 2 * delta_ish / 3 in two_third + rnd * two_third else delta_ish)
       weight True"

text \<open>The queue of asynchronous calls takes its first call, dials it if it may, and destroys it.\<close>

definition ev_dial :: "'t event_scheduler \<Rightarrow> (ev_call option \<times> 't event_scheduler) res" where
  "ev_dial s =
     (case ev_calls s of
        [] \<Rightarrow> Inr (None, s)
      | c # cs \<Rightarrow>
          res_bind (EventDialer_canDial (ev_cb s) c) (\<lambda>ok.
          res_bind (EventDialer_delete (ev_cb s) (theArg c) (isLockedArg c)) (\<lambda>cb.
          Inr (if ok then Some c else None, s\<lparr>ev_calls := cs, ev_cb := cb\<rparr>))))"

section \<open>References\<close>

text \<open>The references events and calls hold.\<close>

definition erefs :: "'t ev_entry list \<Rightarrow> nat \<Rightarrow> int" where
  "erefs es p = int (length (filter (\<lambda>e. ev_cbdata e \<and> ev_arg e = p) es))"

definition crefs :: "ev_call list \<Rightarrow> nat \<Rightarrow> int" where
  "crefs cs p = int (length (filter (\<lambda>c. isLockedArg c \<and> theArg c = p) cs))"

lemma erefs_simps [simp]:
  "erefs [] p = 0" "erefs (e # es) p = of_bool (ev_cbdata e \<and> ev_arg e = p) + erefs es p" "0 \<le> erefs es p"
  "erefs (es @ es') p = erefs es p + erefs es' p"
  by (simp_all add: erefs_def)

lemma crefs_simps [simp]:
  "crefs [] p = 0" "crefs (c # cs) p = of_bool (isLockedArg c \<and> theArg c = p) + crefs cs p" "0 \<le> crefs cs p"
  "crefs (cs @ cs') p = crefs cs p + crefs cs' p"
  by (simp_all add: crefs_def)

lemma crefs_calls [simp]: "crefs (map ev_call_of es) p = erefs es p"
  by (induction es) (simp_all add: ev_call_of_def)

lemma erefs_insert [simp]: "erefs (ev_insert e es) p = of_bool (ev_cbdata e \<and> ev_arg e = p) + erefs es p"
  by (induction es) auto

lemma erefs_member: "e \<in> set es \<Longrightarrow> ev_cbdata e \<Longrightarrow> 0 < erefs es (ev_arg e)"
  by (induction es) (auto simp: add_pos_nonneg add_nonneg_pos)

lemma erefs_tail: "erefs (e # es) p \<le> n \<Longrightarrow> erefs es p \<le> n"
  by (auto simp: of_bool_def split: if_splits)

lemma ref_held:
  assumes "\<And>p. p \<noteq> 0 \<Longrightarrow> erefs (e # es) p \<le> cb_lock_count cb p" and "ev_cbdata e" and "ev_arg e \<noteq> 0"
  shows "0 < cb_lock_count cb (ev_arg e)"
proof -
  have "1 + erefs es (ev_arg e) \<le> cb_lock_count cb (ev_arg e)" using assms(1) [OF assms(3)] assms(2) by simp
  then show ?thesis using erefs_simps(3) [of es "ev_arg e"] by linarith
qed

lemma lockD:
  assumes "cb_inv cb" and "cbdataInternalLock cb p = Inr cb'"
  shows "cb_inv cb' \<and> (\<forall>q. q \<noteq> 0 \<longrightarrow> cb_lock_count cb' q = cb_lock_count cb q + of_bool (q = p)) \<and>
    cb_is_valid cb' = cb_is_valid cb"
proof (cases "p = 0")
  case False
  then have l: "cb_alive cb p" "cb_lock_count cb p < 2147483647"
    using assms(2)
    by (auto simp: cbdataInternalLock_def cb_check_def cb_alive_def cb_lock_count_def res_guard_def
        split: option.splits if_splits)
  then show ?thesis using cbr.lock_law [OF assms(1) l] assms(2) by auto
qed (use assms in \<open>auto simp: cbdataInternalLock_def\<close>)

lemma unlock_ok:
  assumes "cb_inv cb" and "p = 0 \<or> 0 < cb_lock_count cb p"
  shows "\<exists>cb'. cbdataInternalUnlock cb p = Inr cb' \<and> cb_inv cb' \<and>
    (\<forall>q. q \<noteq> 0 \<longrightarrow> cb_lock_count cb' q = cb_lock_count cb q - of_bool (p = q)) \<and> cb_is_valid cb' = cb_is_valid cb"
proof (cases "p = 0")
  case True
  then show ?thesis using assms(1) by (auto simp: cbdataInternalUnlock_def)
next
  case False
  then show ?thesis using cbr.unlock_law [OF assms(1), of p] assms(2) by fastforce
qed

lemma ev_entry_delete_ok:
  assumes "cb_inv cb" and "ev_cbdata e \<Longrightarrow> ev_arg e \<noteq> 0 \<Longrightarrow> 0 < cb_lock_count cb (ev_arg e)"
  shows "\<exists>cb'. ev_entry_delete cb e = Inr cb' \<and> cb_inv cb' \<and>
    (\<forall>q. q \<noteq> 0 \<longrightarrow> cb_lock_count cb' q = cb_lock_count cb q - of_bool (ev_cbdata e \<and> ev_arg e = q)) \<and>
    cb_is_valid cb' = cb_is_valid cb"
proof (cases "ev_cbdata e")
  case True
  then have "ev_arg e = 0 \<or> 0 < cb_lock_count cb (ev_arg e)" using assms(2) by blast
  from unlock_ok [OF assms(1) this] show ?thesis using True by (simp add: ev_entry_delete_def)
qed (use assms in \<open>simp add: ev_entry_delete_def\<close>)

section \<open>Firing\<close>

definition heavy :: "cb_state \<Rightarrow> 't ev_entry \<Rightarrow> bool" where
  "heavy cb e \<longleftrightarrow> ev_weight e \<noteq> 0 \<and> (ev_cbdata e \<longrightarrow> cb_is_valid cb (ev_arg e))"

lemma ev_fire_ok:
  assumes inv: "cb_inv cb" and ref: "ev_cbdata e \<Longrightarrow> ev_arg e \<noteq> 0 \<Longrightarrow> 0 < cb_lock_count cb (ev_arg e)"
    and lim: "cb_lock_count cb (ev_arg e) < 2147483646"
  shows "\<exists>cb'. ev_fire cb e = Inr (heavy cb e, cb') \<and> cb_inv cb' \<and>
    (\<forall>q. q \<noteq> 0 \<longrightarrow> cb_lock_count cb' q = cb_lock_count cb q) \<and> cb_is_valid cb' = cb_is_valid cb"
proof (cases "ev_cbdata e")
  case True
  have p: "ev_arg e = 0 \<or> 0 < cb_lock_count cb (ev_arg e)" using ref True by auto
  have l: "cb_lock_count cb (ev_arg e) + 1 < 2147483647" using lim by simp
  from cbr.copied_reference [OF inv p l] obtain s1 s2 s3 where c:
    "cbdataInternalLock cb (ev_arg e) = Inr s1" "cbdataInternalLock s1 (ev_arg e) = Inr s2"
    "cbdataInternalUnlock s2 (ev_arg e) = Inr s3" "cb_inv s3" "cb_is_valid s3 = cb_is_valid cb"
    "cb_lock_count s3 = (cb_lock_count cb)(ev_arg e := cb_lock_count cb (ev_arg e) + of_bool (ev_arg e \<noteq> 0))"
    by blast
  have hv: "ev_heavy s3 e = Inr (heavy cb e)"
    using cbr.valid_law [OF c(4), of "ev_arg e"] c(5,6) p True by (auto simp: ev_heavy_def heavy_def)
  obtain cb' where "ev_entry_delete s3 e = Inr cb'" "cb_inv cb'" "cb_is_valid cb' = cb_is_valid s3"
    "\<And>q. q \<noteq> 0 \<Longrightarrow> cb_lock_count cb' q = cb_lock_count s3 q - of_bool (ev_cbdata e \<and> ev_arg e = q)"
    using ev_entry_delete_ok [OF c(4), of e] c(6) p True by fastforce
  then show ?thesis using c(1-3,5,6) hv True by (auto simp: ev_fire_def EventDialer_new_def EventDialer_delete_def)
next
  case False
  then show ?thesis using inv
    by (simp add: ev_fire_def EventDialer_new_def EventDialer_delete_def ev_entry_delete_def ev_heavy_def heavy_def)
qed

lemma run_events_ok:
  fixes s :: "'t::linordered_ab_group_add event_scheduler"
  assumes "cb_inv (ev_cb s)" and "\<And>p. p \<noteq> 0 \<Longrightarrow> erefs (tasks s) p \<le> cb_lock_count (ev_cb s) p"
    and "\<And>p. cb_lock_count (ev_cb s) p < 2147483646"
  shows "\<exists>s' fired. run_events now s (tasks s) = Inr s' \<and> tasks s = fired @ tasks s' \<and>
    ev_calls s' = ev_calls s @ map ev_call_of fired \<and> cb_inv (ev_cb s') \<and>
    (\<forall>q. q \<noteq> 0 \<longrightarrow> cb_lock_count (ev_cb s') q = cb_lock_count (ev_cb s) q) \<and> cb_is_valid (ev_cb s') = cb_is_valid (ev_cb s) \<and>
    (\<forall>e \<in> set fired. ev_when e \<le> now) \<and> (\<forall>e \<in> set (butlast fired). \<not> heavy (ev_cb s) e) \<and>
    (tasks s' = [] \<or> now < ev_when (hd (tasks s')) \<or> fired \<noteq> [] \<and> heavy (ev_cb s) (last fired))"
  using assms
proof (induction "tasks s" arbitrary: s)
  case Nil
  then show ?case by (intro exI [of _ s] exI [of _ "[]"]) simp
next
  case (Cons e es)
  note t = Cons.hyps(2) [symmetric]
  show ?case
  proof (cases "ev_when e > now")
    case True
    then show ?thesis using Cons.prems t by (intro exI [of _ s] exI [of _ "[]"]) simp
  next
    case False
    have ref: "0 < cb_lock_count (ev_cb s) (ev_arg e)" if "ev_cbdata e" "ev_arg e \<noteq> 0"
      using ref_held [of e es "ev_cb s"] Cons.prems(2) that t by simp
    obtain cb' where f: "ev_fire (ev_cb s) e = Inr (heavy (ev_cb s) e, cb')" "cb_inv cb'"
      "\<And>q. q \<noteq> 0 \<Longrightarrow> cb_lock_count cb' q = cb_lock_count (ev_cb s) q" "cb_is_valid cb' = cb_is_valid (ev_cb s)"
      using ev_fire_ok [OF Cons.prems(1) ref Cons.prems(3)] by blast
    let ?s = "s\<lparr>tasks := es, ev_cb := cb', ev_calls := ev_calls s @ [ev_call_of e], last_event_ran := Some (ev_name e)\<rparr>"
    have same: "heavy cb' = (heavy (ev_cb s) :: 't ev_entry \<Rightarrow> bool)" using f(4) by (auto simp: heavy_def fun_eq_iff)
    have step: "run_events now s (tasks s) = (if heavy (ev_cb s) e then Inr ?s else run_events now ?s es)"
      using f(1) False t by simp
    show ?thesis
    proof (cases "heavy (ev_cb s) e")
      case True
      then show ?thesis using step f t False by (intro exI [of _ ?s] exI [of _ "[e]"]) simp
    next
      case nh: False
      have z: "cb_lock_count cb' q < 2147483646" for q
        using Cons.prems(3) [of q] f(3) [of q] f(2) by (cases "q = 0") (simp_all add: cb_inv_def cb_lock_count_def)
      have "erefs (tasks ?s) p \<le> cb_lock_count (ev_cb ?s) p" if "p \<noteq> 0" for p
        using erefs_tail [OF Cons.prems(2) [OF that, unfolded t]] f(3) [OF that] by simp
      then obtain s' fired where ih: "run_events now ?s (tasks ?s) = Inr s'" "tasks ?s = fired @ tasks s'"
        "ev_calls s' = ev_calls ?s @ map ev_call_of fired" "cb_inv (ev_cb s')"
        "\<And>q. q \<noteq> 0 \<Longrightarrow> cb_lock_count (ev_cb s') q = cb_lock_count (ev_cb ?s) q" "cb_is_valid (ev_cb s') = cb_is_valid (ev_cb ?s)"
        "\<forall>e \<in> set fired. ev_when e \<le> now" "\<forall>e \<in> set (butlast fired). \<not> heavy (ev_cb ?s) e"
        "tasks s' = [] \<or> now < ev_when (hd (tasks s')) \<or> fired \<noteq> [] \<and> heavy (ev_cb ?s) (last fired)"
        using Cons.hyps(1) [of ?s] f(2) z by auto
      show ?thesis
        using ih step nh f(3,4) False t same by (intro exI [of _ s'] exI [of _ "e # fired"]) auto
    qed
  qed
qed

section \<open>Cancelling and cleaning\<close>

lemma cancel_from_ok:
  assumes "cb_inv cb" and "\<And>p. p \<noteq> 0 \<Longrightarrow> erefs es p \<le> cb_lock_count cb p"
  shows "\<exists>es' cb' r. cancel_from cb f a es = Inr (es', cb', r) \<and> cb_inv cb' \<and> set es' \<subseteq> set es \<and>
    (sorted (map ev_when es) \<longrightarrow> sorted (map ev_when es')) \<and>
    (\<forall>p. p \<noteq> 0 \<longrightarrow> cb_lock_count cb' p - erefs es' p = cb_lock_count cb p - erefs es p)"
  using assms
proof (induction cb f a es rule: cancel_from.induct)
  case (2 cb func arg event es)
  have es: "erefs es p \<le> cb_lock_count cb p" if "p \<noteq> 0" for p using "2.prems"(2) [OF that] by (rule erefs_tail)
  show ?case
  proof (cases "ev_func event \<noteq> func \<or> (arg \<noteq> 0 \<and> ev_arg event \<noteq> arg)")
    case True
    then show ?thesis using "2.IH"(1) [OF True "2.prems"(1) es] by fastforce
  next
    case False
    have "0 < cb_lock_count cb (ev_arg event)" if "ev_cbdata event" "ev_arg event \<noteq> 0"
      using ref_held [OF "2.prems"(2)] that by blast
    from ev_entry_delete_ok [OF "2.prems"(1) this] obtain cb1 where cb1: "ev_entry_delete cb event = Inr cb1" "cb_inv cb1"
      "\<And>q. q \<noteq> 0 \<Longrightarrow> cb_lock_count cb1 q = cb_lock_count cb q - of_bool (ev_cbdata event \<and> ev_arg event = q)" by auto
    show ?thesis
    proof (cases "arg \<noteq> 0 \<or> es = []")
      case True
      then show ?thesis using False cb1 by (cases es) auto
    next
      case arg: False
      then obtain e2 es2 where e2: "es = e2 # es2" by (cases es) auto
      have "erefs es2 p \<le> cb_lock_count cb1 p" if "p \<noteq> 0" for p
      proof (rule erefs_tail)
        show "erefs (e2 # es2) p \<le> cb_lock_count cb1 p"
          using "2.prems"(2) [OF that] cb1(3) [OF that] unfolding e2 erefs_simps(2) [of event] by linarith
      qed
      from "2.IH"(2) [OF False cb1(1) _ e2 cb1(2) this] arg
      obtain es' cb' r where "cancel_from cb1 func arg es2 = Inr (es', cb', r)" "cb_inv cb'" "set es' \<subseteq> set es2"
        "sorted (map ev_when es2) \<longrightarrow> sorted (map ev_when es')"
        "\<forall>p. p \<noteq> 0 \<longrightarrow> cb_lock_count cb' p - erefs es' p = cb_lock_count cb1 p - erefs es2 p" by auto
      then show ?thesis using False arg e2 cb1(1,3)
        by (intro exI [of _ "e2 # es'"] exI [of _ cb'] exI [of _ r]) auto
    qed
  qed
qed (auto intro: exI [of Not False])

lemma clean_from_ok:
  assumes "cb_inv cb" and "\<And>p. p \<noteq> 0 \<Longrightarrow> erefs es p \<le> cb_lock_count cb p"
  shows "\<exists>cb'. clean_from cb es = Inr cb' \<and> cb_inv cb' \<and> (\<forall>p. p \<noteq> 0 \<longrightarrow> cb_lock_count cb' p = cb_lock_count cb p - erefs es p)"
  using assms
proof (induction es arbitrary: cb)
  case (Cons e es)
  have "0 < cb_lock_count cb (ev_arg e)" if "ev_cbdata e" "ev_arg e \<noteq> 0"
    using ref_held [OF Cons.prems(2)] that by blast
  from ev_entry_delete_ok [OF Cons.prems(1) this] obtain cb1 where cb1: "ev_entry_delete cb e = Inr cb1" "cb_inv cb1"
    "\<And>q. q \<noteq> 0 \<Longrightarrow> cb_lock_count cb1 q = cb_lock_count cb q - of_bool (ev_cbdata e \<and> ev_arg e = q)" by auto
  have "erefs es p \<le> cb_lock_count cb1 p" if "p \<noteq> 0" for p
    using Cons.prems(2) [OF that] cb1(3) [OF that] by simp
  from Cons.IH [OF cb1(2) this] show ?case using cb1 by auto
qed simp

lemma ev_insert_filter:
  "sorted (map ev_when es) \<Longrightarrow>
   ev_insert e es = filter (\<lambda>x. ev_when x \<le> ev_when e) es @ e # filter (\<lambda>x. ev_when e < ev_when x) es"
proof (induction es)
  case (Cons x es)
  show ?case
  proof (cases "ev_when x > ev_when e")
    case True
    then have "\<forall>y \<in> set es. ev_when e < ev_when y" using Cons.prems by (auto intro: less_le_trans)
    then have "filter (\<lambda>x. ev_when x \<le> ev_when e) es = []" "filter (\<lambda>x. ev_when e < ev_when x) es = es"
      by (auto simp: filter_empty_conv not_le filter_id_conv)
    then show ?thesis using True by simp
  next
    case False
    then show ?thesis using Cons by simp
  qed
qed simp

lemma set_ev_insert [simp]: "set (ev_insert e es) = insert e (set es)"
  by (induction es) auto

lemma sorted_ev_insert: "sorted (map ev_when es) \<Longrightarrow> sorted (map ev_when (ev_insert e es))"
  by (induction es) (auto intro: less_imp_le order_trans)


section \<open>The system\<close>

text \<open>
  The scheduler next to the other holders of references: \<open>o\<close> counts the references that are
  neither an event's nor a queued call's. Time passes between steps.
\<close>

inductive ev_step :: "'t::linordered_ab_group_add event_scheduler \<times> (nat \<Rightarrow> int) \<Rightarrow> 't event_scheduler \<times> (nat \<Rightarrow> int) \<Rightarrow> bool" where
  ev_schedule: "EventScheduler_schedule now s name func arg when1 weight cbd = Inr s' \<Longrightarrow> ev_step (s, ot) (s', ot)"
| ev_cancel: "EventScheduler_cancel s func arg = Inr (b, s') \<Longrightarrow> ev_step (s, ot) (s', ot)"
| ev_check: "(\<And>p. cb_lock_count (ev_cb s) p < 2147483646) \<Longrightarrow> EventScheduler_checkEvents msec now s = Inr (d, s') \<Longrightarrow>
    ev_step (s, ot) (s', ot)"
| ev_clean: "EventScheduler_clean s = Inr s' \<Longrightarrow> ev_step (s, ot) (s', ot)"
| ev_dialed: "ev_dial s = Inr (c, s') \<Longrightarrow> ev_step (s, ot) (s', ot)"
| ev_other_lock: "cbdataInternalLock (ev_cb s) p = Inr cb \<Longrightarrow> ev_step (s, ot) (s\<lparr>ev_cb := cb\<rparr>, ot(p := ot p + 1))"
| ev_other_unlock: "0 < ot p \<Longrightarrow> cbdataInternalUnlock (ev_cb s) p = Inr cb \<Longrightarrow>
    ev_step (s, ot) (s\<lparr>ev_cb := cb\<rparr>, ot(p := ot p - 1))"
| ev_other_free: "p \<noteq> 0 \<Longrightarrow> cb_is_valid (ev_cb s) p \<Longrightarrow> cbdataInternalFree (ev_cb s) p = Inr cb \<Longrightarrow>
    ev_step (s, ot) (s\<lparr>ev_cb := cb\<rparr>, ot)"

definition ev_start :: "'t::linordered_ab_group_add event_scheduler \<times> (nat \<Rightarrow> int) \<Rightarrow> bool" where
  "ev_start = (\<lambda>(s, ot). \<exists>cb. cb_inv cb \<and> s = EventScheduler cb \<and> ot = cb_lock_count cb)"

definition ev_sys_inv :: "'t::linordered_ab_group_add event_scheduler \<times> (nat \<Rightarrow> int) \<Rightarrow> bool" where
  "ev_sys_inv = (\<lambda>(s, ot). cb_inv (ev_cb s) \<and> sorted (map ev_when (tasks s)) \<and>
     (\<forall>p. p \<noteq> 0 \<longrightarrow> 0 \<le> ot p \<and> cb_lock_count (ev_cb s) p = ot p + erefs (tasks s) p + crefs (ev_calls s) p))"

lemma ev_sys_invD:
  assumes "ev_sys_inv (s, ot)"
  shows "cb_inv (ev_cb s)" "sorted (map ev_when (tasks s))"
    "p \<noteq> 0 \<Longrightarrow> cb_lock_count (ev_cb s) p = ot p + erefs (tasks s) p + crefs (ev_calls s) p"
    "p \<noteq> 0 \<Longrightarrow> 0 \<le> ot p"
    "p \<noteq> 0 \<Longrightarrow> erefs (tasks s) p \<le> cb_lock_count (ev_cb s) p"
    "p \<noteq> 0 \<Longrightarrow> crefs (ev_calls s) p \<le> cb_lock_count (ev_cb s) p"
  using assms unfolding ev_sys_inv_def by (auto simp: add_increasing add_increasing2)

lemma ev_check_cases:
  "EventScheduler_checkEvents msec now s =
     res_bind (run_events now s (tasks s)) (\<lambda>s1. Inr (EventScheduler_checkDelay msec now s1, s1))"
  by (auto simp: EventScheduler_checkEvents_def split: list.splits)

lemma ev_dial_ok:
  assumes "ev_sys_inv (s, ot)"
  shows "\<exists>c s'. ev_dial s = Inr (c, s') \<and> ev_sys_inv (s', ot) \<and> tasks s' = tasks s \<and> ev_calls s' = tl (ev_calls s) \<and>
    c = (if ev_calls s \<noteq> [] \<and> (isLockedArg (hd (ev_calls s)) \<longrightarrow> cb_is_valid (ev_cb s) (theArg (hd (ev_calls s))))
         then Some (hd (ev_calls s)) else None)"
proof (cases "ev_calls s")
  case Nil
  then show ?thesis using assms by (simp add: ev_dial_def)
next
  case (Cons c cs)
  note I = ev_sys_invD [OF assms]
  have held: "theArg c = 0 \<or> 0 < cb_lock_count (ev_cb s) (theArg c)" if "isLockedArg c"
    using I(6) [of "theArg c"] that Cons crefs_simps(3) [of cs "theArg c"] by (cases "theArg c = 0") (simp_all del: crefs_simps(3))
  show ?thesis
  proof (cases "isLockedArg c")
    case True
    obtain cb where "cbdataInternalUnlock (ev_cb s) (theArg c) = Inr cb" "cb_inv cb"
      "\<And>q. q \<noteq> 0 \<Longrightarrow> cb_lock_count cb q = cb_lock_count (ev_cb s) q - of_bool (theArg c = q)"
      using unlock_ok [OF I(1) held [OF True]] by blast
    then show ?thesis
      using True Cons I(2-4) cbr.valid_law [OF I(1) held [OF True]]
      by (auto simp: ev_dial_def EventDialer_canDial_def EventDialer_delete_def ev_sys_inv_def)
  next
    case False
    then show ?thesis using Cons assms
      by (auto simp: ev_dial_def EventDialer_canDial_def EventDialer_delete_def ev_sys_inv_def)
  qed
qed

lemma ev_cancel_ok:
  assumes "ev_sys_inv (s, ot)"
  shows "\<exists>b s'. EventScheduler_cancel s f a = Inr (b, s') \<and> ev_sys_inv (s', ot)"
proof -
  note I = ev_sys_invD [OF assms]
  obtain es' cb' r where c: "cancel_from (ev_cb s) f a (tasks s) = Inr (es', cb', r)" "cb_inv cb'"
    "sorted (map ev_when es')"
    "\<And>p. p \<noteq> 0 \<Longrightarrow> cb_lock_count cb' p - erefs es' p = cb_lock_count (ev_cb s) p - erefs (tasks s) p"
    using cancel_from_ok [OF I(1,5), of f a] I(2) by blast
  have "cb_lock_count cb' p = ot p + erefs es' p + crefs (ev_calls s) p" if "p \<noteq> 0" for p
    using c(4) [OF that] I(3) [OF that] by linarith
  then have "ev_sys_inv (s\<lparr>tasks := es', ev_cb := cb'\<rparr>, ot)" using c(2,3) I(4) by (simp add: ev_sys_inv_def)
  then show ?thesis using c(1) by (simp add: EventScheduler_cancel_def)
qed

lemma ev_clean_ok:
  assumes "ev_sys_inv (s, ot)"
  shows "\<exists>s'. EventScheduler_clean s = Inr s' \<and> ev_sys_inv (s', ot) \<and> tasks s' = []"
proof -
  note I = ev_sys_invD [OF assms]
  obtain cb' where "clean_from (ev_cb s) (tasks s) = Inr cb'" "cb_inv cb'"
    "\<And>p. p \<noteq> 0 \<Longrightarrow> cb_lock_count cb' p = cb_lock_count (ev_cb s) p - erefs (tasks s) p"
    using clean_from_ok [OF I(1,5)] by blast
  then show ?thesis using I(3,4) by (simp add: EventScheduler_clean_def ev_sys_inv_def)
qed

lemma ev_run_inv:
  assumes "ev_sys_inv (s, ot)" and "\<And>p. cb_lock_count (ev_cb s) p < 2147483646"
    and "run_events now s (tasks s) = Inr s'"
  shows "ev_sys_inv (s', ot)"
proof -
  note I = ev_sys_invD [OF assms(1)]
  obtain fired where f: "tasks s = fired @ tasks s'" "ev_calls s' = ev_calls s @ map ev_call_of fired" "cb_inv (ev_cb s')"
    "\<And>q. q \<noteq> 0 \<Longrightarrow> cb_lock_count (ev_cb s') q = cb_lock_count (ev_cb s) q"
    using run_events_ok [OF I(1,5) assms(2), of now] assms(3) by auto
  then show ?thesis using I(2-4) by (simp add: ev_sys_inv_def sorted_append)
qed

lemma ev_entry_newD:
  assumes "cb_inv cb" and "ev_entry_new cb e = Inr cb'"
  shows "cb_inv cb' \<and> (\<forall>q. q \<noteq> 0 \<longrightarrow> cb_lock_count cb' q = cb_lock_count cb q + of_bool (ev_cbdata e \<and> ev_arg e = q))"
proof (cases "ev_cbdata e")
  case True
  then show ?thesis using lockD [OF assms(1), of "ev_arg e" cb'] assms(2) by (simp add: ev_entry_new_def eq_commute)
qed (use assms in \<open>simp add: ev_entry_new_def\<close>)

lemma ev_schedule_inv:
  assumes "EventScheduler_schedule now s name func arg when1 weight cbd = Inr s'" and "ev_sys_inv (s, ot)"
  shows "ev_sys_inv (s', ot)"
proof -
  note I = ev_sys_invD [OF assms(2)]
  let ?e = "\<lparr>ev_name = name, ev_func = func, ev_arg = arg, ev_when = if when1 > 0 then now + when1 else 0,
    ev_weight = weight, ev_cbdata = cbd\<rparr>"
  from assms(1) obtain cb where cb: "ev_entry_new (ev_cb s) ?e = Inr cb"
    and s': "s' = s\<lparr>ev_cb := cb, tasks := ev_insert ?e (tasks s)\<rparr>"
    by (auto simp: EventScheduler_schedule_def Let_def res_bind_Inr_iff)
  show ?thesis
    using ev_entry_newD [OF I(1) cb] I(3,4) sorted_ev_insert [OF I(2), of ?e] unfolding s' ev_sys_inv_def
    by (simp del: ev_insert.simps)
qed

lemma ev_step_inv: "ev_step a b \<Longrightarrow> ev_sys_inv a \<Longrightarrow> ev_sys_inv b"
proof (induction rule: ev_step.induct)
  case (ev_schedule now s name func arg when1 weight cbd s' ot)
  then show ?case by (rule ev_schedule_inv)
next
  case (ev_cancel s func arg b s' ot)
  then show ?case using ev_cancel_ok [OF ev_cancel(2), of func arg] by auto
next
  case (ev_check s msec now d s' ot)
  then show ?case using ev_run_inv [OF ev_check(3)] by (auto simp: ev_check_cases res_bind_Inr_iff)
next
  case (ev_clean s s' ot)
  then show ?case using ev_clean_ok [OF ev_clean(2)] by auto
next
  case (ev_dialed s c s' ot)
  then show ?case using ev_dial_ok [OF ev_dialed(2)] by auto
next
  case (ev_other_lock s p cb ot)
  note I = ev_sys_invD [OF ev_other_lock(2)]
  show ?case using lockD [OF I(1) ev_other_lock(1)] I(2-4) by (auto simp: ev_sys_inv_def)
next
  case (ev_other_unlock ot p s cb)
  note I = ev_sys_invD [OF ev_other_unlock(3)]
  have "p = 0 \<or> 0 < cb_lock_count (ev_cb s) p"
    using I(3) [of p] ev_other_unlock(1) erefs_simps(3) [of "tasks s" p] crefs_simps(3) [of "ev_calls s" p]
    by (cases "p = 0") (simp_all del: erefs_simps(3) crefs_simps(3))
  from unlock_ok [OF I(1) this] show ?case
    using ev_other_unlock(1,2) I(2-4) by (auto simp: ev_sys_inv_def)
next
  case (ev_other_free p s cb ot)
  note I = ev_sys_invD [OF ev_other_free(4)]
  show ?case using cb_free_ok [OF I(1) ev_other_free(2,1)] ev_other_free(3) I(2-4) by (auto simp: ev_sys_inv_def)
qed

interpretation evs: inductive_invariant ev_start ev_step ev_sys_inv
proof
  show "ev_start a \<Longrightarrow> ev_sys_inv a" for a :: "'t::linordered_ab_group_add event_scheduler \<times> (nat \<Rightarrow> int)"
    by (auto simp: ev_start_def ev_sys_inv_def EventScheduler_def cb_lock_count_def dest: cb_invD split: option.splits)
qed (rule ev_step_inv)

section \<open>Properties\<close>

definition ex_cb :: cb_state where
  "ex_cb = \<lparr>cb_mem = Map.empty, cbdataCount = 0, cbdata_types = 0, cb_freed = []\<rparr>"

definition ex_event :: "string \<Rightarrow> int \<Rightarrow> int \<Rightarrow> int ev_entry" where
  "ex_event name when1 weight = \<lparr>ev_name = name, ev_func = 7, ev_arg = 0, ev_when = when1, ev_weight = weight, ev_cbdata = False\<rparr>"

definition ex_scheduler :: "int event_scheduler" where
  "ex_scheduler = (EventScheduler ex_cb)\<lparr>tasks := [ex_event ''a'' 15 0]\<rparr>"

lemma ex_scheduler_reach: "reach ev_start ev_step (ex_scheduler, \<lambda>_. 0)"
proof (rule reach_step)
  show "reach ev_start ev_step (EventScheduler ex_cb :: int event_scheduler, \<lambda>_. 0)"
    by (rule reach_init) (auto simp: ev_start_def ex_cb_def cb_inv_def cb_lock_count_def fun_eq_iff intro!: exI [of _ ex_cb])
  show "ev_step (EventScheduler ex_cb, \<lambda>_. 0) (ex_scheduler, \<lambda>_. 0)"
    by (rule ev_schedule [of 10 _ "''a''" 7 0 5 0 False])
      (simp add: EventScheduler_schedule_def ev_entry_new_def ex_scheduler_def ex_event_def EventScheduler_def)
qed

text \<open>
  C18. Whatever is scheduled, cancelled, fired, dialed or freed, the event queue stays sorted by
  time, and the references to an object are exactly those of the scheduled events, of the queued
  calls and of the other holders; so cancelling, cleaning and dialing never fail. A call is dialed
  only if its argument is still valid.
\<close>

theorem events_hold_references:
  fixes s :: "'t::linordered_ab_group_add event_scheduler"
  assumes "reach ev_start ev_step (s, ot)"
  shows "sorted (map ev_when (tasks s)) \<and>
    (\<forall>p. p \<noteq> 0 \<longrightarrow> cb_lock_count (ev_cb s) p = ot p + erefs (tasks s) p + crefs (ev_calls s) p) \<and>
    (\<exists>b s'. EventScheduler_cancel s f a = Inr (b, s')) \<and> (\<exists>s'. EventScheduler_clean s = Inr s' \<and> tasks s' = []) \<and>
    (\<exists>c s'. ev_dial s = Inr (c, s') \<and> (\<forall>call. c = Some call \<longrightarrow> isLockedArg call \<longrightarrow> cb_is_valid (ev_cb s) (theArg call)))"
proof -
  have inv: "ev_sys_inv (s, ot)" using assms by (rule evs.reach_inv)
  obtain c s' where d: "ev_dial s = Inr (c, s')" "c = (if ev_calls s \<noteq> [] \<and>
      (isLockedArg (hd (ev_calls s)) \<longrightarrow> cb_is_valid (ev_cb s) (theArg (hd (ev_calls s)))) then Some (hd (ev_calls s)) else None)"
    using ev_dial_ok [OF inv] by blast
  then have "\<forall>call. c = Some call \<longrightarrow> isLockedArg call \<longrightarrow> cb_is_valid (ev_cb s) (theArg call)" by (auto split: if_splits)
  with d(1) show ?thesis
    using ev_sys_invD(2,3) [OF inv] ev_cancel_ok [OF inv, of f a] ev_clean_ok [OF inv] by blast
qed

lemma events_hold_references_witness:
  "sorted (map ev_when (tasks ex_scheduler)) \<and>
    (\<exists>b s'. EventScheduler_cancel ex_scheduler 7 0 = Inr (b, s')) \<and>
    (\<exists>s'. EventScheduler_clean ex_scheduler = Inr s' \<and> tasks s' = []) \<and> (\<exists>c s'. ev_dial ex_scheduler = Inr (c, s'))"
  using events_hold_references [OF ex_scheduler_reach, of 7 0] by blast

text \<open>
  C19. \<^verbatim>\<open>checkEvents\<close> fires, in the order of the queue, the events that are due, up to and including
  the first heavy one, and leaves the others; each fired event becomes a queued call, and no
  reference is gained or lost.
\<close>

theorem events_fire_in_order:
  fixes s :: "'t::linordered_ab_group_add event_scheduler"
  assumes "reach ev_start ev_step (s, ot)" and "\<And>p. cb_lock_count (ev_cb s) p < 2147483646"
  shows "\<exists>s' fired. EventScheduler_checkEvents msec now s = Inr (EventScheduler_checkDelay msec now s', s') \<and>
    tasks s = fired @ tasks s' \<and> ev_calls s' = ev_calls s @ map ev_call_of fired \<and>
    (\<forall>q. q \<noteq> 0 \<longrightarrow> cb_lock_count (ev_cb s') q = cb_lock_count (ev_cb s) q) \<and>
    (\<forall>e \<in> set fired. ev_when e \<le> now) \<and> (\<forall>e \<in> set (butlast fired). \<not> heavy (ev_cb s) e) \<and>
    ((\<forall>e \<in> set (tasks s'). now < ev_when e) \<or> fired \<noteq> [] \<and> heavy (ev_cb s) (last fired))"
proof -
  have inv: "ev_sys_inv (s, ot)" using assms(1) by (rule evs.reach_inv)
  note I = ev_sys_invD [OF inv]
  obtain s' fired where r: "run_events now s (tasks s) = Inr s'" "tasks s = fired @ tasks s'"
    "ev_calls s' = ev_calls s @ map ev_call_of fired"
    "\<forall>q. q \<noteq> 0 \<longrightarrow> cb_lock_count (ev_cb s') q = cb_lock_count (ev_cb s) q"
    "\<forall>e \<in> set fired. ev_when e \<le> now" "\<forall>e \<in> set (butlast fired). \<not> heavy (ev_cb s) e"
    "tasks s' = [] \<or> now < ev_when (hd (tasks s')) \<or> fired \<noteq> [] \<and> heavy (ev_cb s) (last fired)"
    using run_events_ok [OF I(1,5) assms(2), of now] by blast
  have "sorted (map ev_when (tasks s'))" using I(2) r(2) by (simp add: sorted_append)
  then have "now < ev_when (hd (tasks s')) \<Longrightarrow> \<forall>e \<in> set (tasks s'). now < ev_when e"
    by (cases "tasks s'") (auto intro: less_le_trans)
  then have "(\<forall>e \<in> set (tasks s'). now < ev_when e) \<or> fired \<noteq> [] \<and> heavy (ev_cb s) (last fired)" using r(7) by auto
  moreover have "EventScheduler_checkEvents msec now s = Inr (EventScheduler_checkDelay msec now s', s')"
    by (simp add: ev_check_cases r(1))
  ultimately show ?thesis using r(2-6) by blast
qed

lemma events_fire_in_order_witness:
  "\<exists>s' fired. EventScheduler_checkEvents (\<lambda>d. d * 1000) 20 ex_scheduler = Inr (EventScheduler_checkDelay (\<lambda>d. d * 1000) 20 s', s') \<and>
    tasks ex_scheduler = fired @ tasks s' \<and> ev_calls s' = ev_calls ex_scheduler @ map ev_call_of fired"
proof -
  have "cb_lock_count (ev_cb ex_scheduler) p < 2147483646" for p
    by (simp add: ex_scheduler_def EventScheduler_def ex_cb_def cb_lock_count_def)
  from events_fire_in_order [OF ex_scheduler_reach this, of "\<lambda>d. d * 1000" 20] show ?thesis by blast
qed

text \<open>
  \<^verbatim>\<open>schedule\<close> keeps the order of submission among events with the same time: the new event goes
  behind all events that are due no later and in front of all others.
\<close>

theorem events_schedule_stable:
  fixes s :: "'t::linordered_ab_group_add event_scheduler"
  assumes "reach ev_start ev_step (s, ot)"
    and "EventScheduler_schedule now s name func arg when1 weight cbd = Inr s'"
  shows "\<exists>e. ev_when e = (if when1 > 0 then now + when1 else 0) \<and> ev_func e = func \<and> ev_arg e = arg \<and>
    tasks s' = filter (\<lambda>x. ev_when x \<le> ev_when e) (tasks s) @ e # filter (\<lambda>x. ev_when e < ev_when x) (tasks s)"
proof -
  have sorted: "sorted (map ev_when (tasks s))" using evs.reach_inv [OF assms(1)] ev_sys_invD(2) by blast
  let ?e = "\<lparr>ev_name = name, ev_func = func, ev_arg = arg, ev_when = if when1 > 0 then now + when1 else 0,
    ev_weight = weight, ev_cbdata = cbd\<rparr>"
  have "tasks s' = ev_insert ?e (tasks s)" using assms(2)
    by (auto simp: EventScheduler_schedule_def Let_def res_bind_Inr_iff)
  then show ?thesis using ev_insert_filter [OF sorted, of ?e] by (intro exI [of _ ?e]) simp
qed


text \<open>
  Cancelling all events of a function (a null argument) misses the event that follows each
  cancelled one: of two neighbouring events of the function the second stays in the queue.
\<close>

theorem events_cancel_all_skips:
  "(case EventScheduler_cancel ((EventScheduler ex_cb)\<lparr>tasks := [ex_event ''a'' 1 0, ex_event ''b'' 2 0, ex_event ''c'' 3 0]\<rparr>) 7 0 of
      Inr (_, s) \<Rightarrow> map ev_name (tasks s) | Inl _ \<Rightarrow> []) = [''b'']"
  by (simp add: EventScheduler_cancel_def ex_event_def ev_entry_delete_def EventScheduler_def)

end
