(* ===== verification/Bit_Arrays.thy ===== *)
theory Bit_Arrays
  imports Squid_Prelude
begin

text \<open>
  Bit sets kept in arrays of machine words: the words of \<^verbatim>\<open>FileMap\<close> and the bytes of a cache
  digest. Bit \<open>i\<close> is bit \<open>i mod w\<close> of word \<open>i div w\<close>, for words of \<open>w\<close> bits.
\<close>

unbundle bit_operations_syntax

definition ba_mask :: "nat \<Rightarrow> 'a::len word" where
  "ba_mask i = push_bit (i mod LENGTH('a)) 1"

definition ba_test :: "'a::len word list \<Rightarrow> nat \<Rightarrow> bool" where
  "ba_test ws i \<longleftrightarrow> ws ! (i div LENGTH('a)) AND ba_mask i \<noteq> 0"

definition ba_set :: "'a::len word list \<Rightarrow> nat \<Rightarrow> 'a word list" where
  "ba_set ws i = ws[i div LENGTH('a) := ws ! (i div LENGTH('a)) OR ba_mask i]"

definition ba_clear :: "'a::len word list \<Rightarrow> nat \<Rightarrow> 'a word list" where
  "ba_clear ws i = ws[i div LENGTH('a) := ws ! (i div LENGTH('a)) AND NOT (ba_mask i)]"

definition ba_in :: "'a::len word list \<Rightarrow> nat \<Rightarrow> bool" where
  "ba_in ws i \<longleftrightarrow> i < length ws * LENGTH('a)"

definition ba_bits :: "'a::len word list \<Rightarrow> nat set" where
  "ba_bits ws = {i. ba_in ws i \<and> ba_test ws i}"

lemma ba_in_div: "ba_in (ws :: 'a::len word list) i \<longleftrightarrow> i div LENGTH('a) < length ws"
  by (simp add: ba_in_def div_less_iff_less_mult)

lemma ba_mask_bit: "bit (ba_mask i :: 'a::len word) k \<longleftrightarrow> k = i mod LENGTH('a)"
  by (auto simp: ba_mask_def bit_exp_iff)

lemma ba_test_bit: "ba_test (ws :: 'a::len word list) i \<longleftrightarrow> bit (ws ! (i div LENGTH('a))) (i mod LENGTH('a))"
proof
  assume "ba_test ws i"
  then obtain k where "bit (ws ! (i div LENGTH('a)) AND ba_mask i) k"
    by (auto simp: ba_test_def bit_eq_iff)
  then show "bit (ws ! (i div LENGTH('a))) (i mod LENGTH('a))" by (auto simp: bit_and_iff ba_mask_bit)
next
  assume *: "bit (ws ! (i div LENGTH('a))) (i mod LENGTH('a))"
  have "bit (ws ! (i div LENGTH('a)) AND ba_mask i) (i mod LENGTH('a))" using * by (simp add: bit_and_iff ba_mask_bit)
  then show "ba_test ws i" by (auto simp: ba_test_def)
qed

lemma same_bit: "i div w = j div w \<Longrightarrow> i mod w = j mod w \<longleftrightarrow> i = j" for i j w :: nat
  by (metis div_mult_mod_eq)

lemma ba_length [simp]: "length (ba_set ws i) = length ws" "length (ba_clear ws i) = length ws"
  by (simp_all add: ba_set_def ba_clear_def)

lemma ba_test_set: "ba_in ws i \<Longrightarrow> ba_test (ba_set ws i) j \<longleftrightarrow> j = i \<or> ba_test ws j"
  for ws :: "'a::len word list"
  using same_bit [of i "LENGTH('a)" j]
  by (cases "j div LENGTH('a) = i div LENGTH('a)")
    (auto simp: ba_test_bit ba_set_def ba_in_div bit_or_iff ba_mask_bit nth_list_update)

lemma ba_test_clear: "ba_in ws i \<Longrightarrow> ba_test (ba_clear ws i) j \<longleftrightarrow> j \<noteq> i \<and> ba_test ws j"
  for ws :: "'a::len word list"
  using same_bit [of i "LENGTH('a)" j]
  by (cases "j div LENGTH('a) = i div LENGTH('a)")
    (auto simp: ba_test_bit ba_clear_def ba_in_div bit_and_iff bit_not_iff ba_mask_bit nth_list_update
      dest: bit_imp_le_length)

text \<open>What users of such an array rely on.\<close>

locale bit_array =
  fixes test :: "'m \<Rightarrow> nat \<Rightarrow> bool" and inside :: "'m \<Rightarrow> nat \<Rightarrow> bool"
    and set_bit clear_bit :: "'m \<Rightarrow> nat \<Rightarrow> 'm"
  assumes test_set: "inside m i \<Longrightarrow> test (set_bit m i) j \<longleftrightarrow> j = i \<or> test m j"
    and test_clear: "inside m i \<Longrightarrow> test (clear_bit m i) j \<longleftrightarrow> j \<noteq> i \<and> test m j"
    and inside_set: "inside (set_bit m i) = inside m"
    and inside_clear: "inside (clear_bit m i) = inside m"
begin

lemma test_fold_set:
  "\<forall>i \<in> set is. inside m i \<Longrightarrow> test (fold (\<lambda>i m. set_bit m i) is m) j \<longleftrightarrow> j \<in> set is \<or> test m j"
  by (induction "is" arbitrary: m) (auto simp: test_set inside_set)

lemma inside_fold_set: "inside (fold (\<lambda>i m. set_bit m i) is m) = inside m"
  by (induction "is" arbitrary: m) (auto simp: inside_set)

end

interpretation ba: bit_array ba_test ba_in ba_set ba_clear
  by unfold_locales (simp_all add: ba_test_set ba_test_clear ba_in_def fun_eq_iff)

lemma ba_bits_set: "ba_in ws i \<Longrightarrow> ba_bits (ba_set ws i) = insert i (ba_bits ws)"
  by (auto simp: ba_bits_def ba.inside_set ba_test_set)

lemma ba_bits_clear: "ba_in ws i \<Longrightarrow> ba_bits (ba_clear ws i) = ba_bits ws - {i}"
  by (auto simp: ba_bits_def ba.inside_clear ba_test_clear)

lemma ba_bits_finite [simp]: "finite (ba_bits (ws :: 'a::len word list))"
  by (rule finite_subset [of _ "{..<length ws * LENGTH('a)}"]) (auto simp: ba_bits_def ba_in_def)

lemma ba_test_zeros: "ba_in (replicate n (0::'a::len word)) i \<Longrightarrow> \<not> ba_test (replicate n (0::'a::len word)) i"
  by (simp add: ba_test_bit ba_in_div)

lemma ba_bits_zeros [simp]: "ba_bits (replicate n (0::'a::len word)) = {}"
  using ba_test_zeros by (auto simp: ba_bits_def)

text \<open>A word has all bits set if and only if it is the maximal word.\<close>

lemma all_ones_bit: "w = - 1 \<longleftrightarrow> (\<forall>k < LENGTH('a). bit w k)" for w :: "'a::len word"
  by (auto simp: bit_eq_iff dest: bit_imp_le_length)

end
