(* ===== verification/Store_FileMap.thy ===== *)
theory Store_FileMap
  imports Bit_Arrays
begin

text \<open>
  The map of used file numbers of a disk store (src/filemap.cc, src/FileMap.h), with 64-bit
  \<^verbatim>\<open>unsigned long\<close> words. File numbers are integers as in the code; an access outside the
  array is a failure.
\<close>

record file_map =
  fm_capacity :: int
  fm_usedSlots :: "32 word"
  fm_nwords :: nat
  fm_bitmap :: "64 word list"

definition FileMap :: file_map where
  "FileMap = \<lparr>fm_capacity = 2 ^ 14, fm_usedSlots = 0, fm_nwords = 2 ^ 14 div 64, fm_bitmap = replicate (2 ^ 14 div 64) 0\<rparr>"

definition fm_grow :: "file_map \<Rightarrow> file_map res" where
  "fm_grow m =
     (let cap = fm_capacity m * 2
      in res_bind (res_guard (cap \<le> 2 ^ 24) Assertion) (\<lambda>_.
         let nwords = nat (cap div 64)
         in Inr (m\<lparr>fm_capacity := cap, fm_nwords := nwords,
              fm_bitmap := fm_bitmap m @ replicate (nwords - fm_nwords m) 0\<rparr>)))"

definition fm_word :: "file_map \<Rightarrow> int \<Rightarrow> 64 word res" where
  "fm_word m i = (if 0 \<le> i \<and> i < int (length (fm_bitmap m)) then Inr (fm_bitmap m ! nat i) else Inl OutOfBounds)"

definition fm_testBit :: "file_map \<Rightarrow> int \<Rightarrow> bool res" where
  "fm_testBit m n =
     (if n \<ge> fm_capacity m then Inr False
      else res_bind (fm_word m (n div 64)) (\<lambda>w. Inr (w AND ba_mask (nat (n mod 64)) \<noteq> 0)))"

text \<open>The loop of \<^verbatim>\<open>setBit\<close> doubles the map until it holds the number; it ends at \<open>2 ^ 24\<close> at the latest.\<close>

function fm_grow_to :: "file_map \<Rightarrow> int \<Rightarrow> file_map res" where
  "fm_grow_to m n = (if n \<ge> fm_capacity m \<and> 0 < fm_capacity m then res_bind (fm_grow m) (\<lambda>m1. fm_grow_to m1 n)
     else if n \<ge> fm_capacity m then Inl OutOfFuel else Inr m)"
  by pat_completeness auto
termination
  by (relation "measure (\<lambda>(m, n). nat (n + 1 - fm_capacity m))")
    (auto simp: fm_grow_def Let_def res_bind_Inr_iff)

declare fm_grow_to.simps [simp del]

text \<open>The result is \<^verbatim>\<open>bool\<close>: whether the number is not 0.\<close>

definition fm_setBit :: "file_map \<Rightarrow> int \<Rightarrow> (bool \<times> file_map) res" where
  "fm_setBit m n =
     res_bind (fm_grow_to m n) (\<lambda>m1.
     res_bind (fm_word m1 (n div 64)) (\<lambda>w.
     Inr (n \<noteq> 0, m1\<lparr>fm_bitmap := (fm_bitmap m1)[nat (n div 64) := w OR ba_mask (nat (n mod 64))],
       fm_usedSlots := fm_usedSlots m1 + 1\<rparr>)))"

definition fm_clearBit :: "file_map \<Rightarrow> int \<Rightarrow> file_map res" where
  "fm_clearBit m n =
     res_bind (fm_word m (n div 64)) (\<lambda>w.
     Inr (m\<lparr>fm_bitmap := (fm_bitmap m)[nat (n div 64) := w AND NOT (ba_mask (nat (n mod 64)))],
       fm_usedSlots := fm_usedSlots m - 1\<rparr>))"

text \<open>The two loops of \<^verbatim>\<open>allocate\<close>: over the words, and over the bits of the word found.\<close>

fun fm_find_word :: "file_map \<Rightarrow> nat \<Rightarrow> int \<Rightarrow> int res" where
  "fm_find_word m 0 word1 = Inr word1"
| "fm_find_word m (Suc k) word1 =
     res_bind (fm_word m word1) (\<lambda>w.
     if w \<noteq> - 1 then Inr word1 else fm_find_word m k ((word1 + 1) mod int (fm_nwords m)))"

fun fm_find_bit :: "file_map \<Rightarrow> int \<Rightarrow> nat list \<Rightarrow> int option res" where
  "fm_find_bit m word1 [] = Inr None"
| "fm_find_bit m word1 (b # bs) =
     (let suggestion = word1 * 64 + int b
      in res_bind (fm_testBit m suggestion) (\<lambda>used.
         if \<not> used then Inr (Some suggestion) else fm_find_bit m word1 bs))"

fun fm_allocate_fuel :: "nat \<Rightarrow> file_map \<Rightarrow> int \<Rightarrow> (int \<times> file_map) res" where
  "fm_allocate_fuel 0 m suggestion = Inl OutOfFuel"
| "fm_allocate_fuel (Suc fuel) m suggestion =
     (let s1 = (if suggestion \<ge> fm_capacity m then 0 else suggestion)
      in res_bind (fm_testBit m s1) (\<lambda>used.
         if \<not> used then Inr (s1, m)
         else res_bind (fm_find_word m (fm_nwords m) (s1 div 64)) (\<lambda>word1.
           res_bind (fm_find_bit m word1 [0..<64]) (\<lambda>found.
           case found of
             Some n \<Rightarrow> Inr (n, m)
           | None \<Rightarrow> res_bind (fm_grow m) (\<lambda>m1. fm_allocate_fuel fuel m1 (fm_capacity m1 div 2))))))"

definition fm_allocate :: "file_map \<Rightarrow> int \<Rightarrow> (int \<times> file_map) res" where
  "fm_allocate m suggestion = fm_allocate_fuel 2 m suggestion"

section \<open>The map as a set\<close>

definition fm_ok :: "file_map \<Rightarrow> bool" where
  "fm_ok m \<longleftrightarrow> fm_nwords m = length (fm_bitmap m) \<and> fm_capacity m = int (length (fm_bitmap m)) * 64 \<and>
     fm_bitmap m \<noteq> [] \<and> (\<exists>k. k \<le> 24 \<and> fm_capacity m = 2 ^ k)"

definition fm_used :: "file_map \<Rightarrow> nat set" where
  "fm_used m = ba_bits (fm_bitmap m)"

lemma fm_word_ok: "fm_ok m \<Longrightarrow> 0 \<le> n \<Longrightarrow> n < fm_capacity m \<Longrightarrow> fm_word m (n div 64) = Inr (fm_bitmap m ! (nat n div 64))"
  by (auto simp: fm_word_def fm_ok_def nat_div_distrib)

lemma fm_inside: "fm_ok m \<Longrightarrow> 0 \<le> n \<Longrightarrow> n < fm_capacity m \<Longrightarrow> ba_in (fm_bitmap m) (nat n)"
  by (auto simp: ba_in_def fm_ok_def)

lemma fm_testBit_ok:
  assumes "fm_ok m" and "0 \<le> n"
  shows "fm_testBit m n = Inr (nat n \<in> fm_used m)"
proof (cases "n \<ge> fm_capacity m")
  case True
  then have "\<not> ba_in (fm_bitmap m) (nat n)" using assms by (auto simp: ba_in_def fm_ok_def)
  then show ?thesis using True by (simp add: fm_testBit_def fm_used_def ba_bits_def)
next
  case False
  then show ?thesis
    using assms fm_word_ok [OF assms] fm_inside [OF assms]
    by (simp add: fm_testBit_def fm_used_def ba_bits_def ba_test_def nat_mod_distrib ba_mask_def)
qed

lemma fm_capacity_double:
  assumes "fm_ok m" and "fm_capacity m < 2 ^ 24"
  shows "fm_capacity m * 2 \<le> 2 ^ 24 \<and> (\<exists>k. k \<le> 24 \<and> fm_capacity m * 2 = 2 ^ k)"
proof -
  from assms obtain k where k: "fm_capacity m = 2 ^ k" unfolding fm_ok_def by blast
  then have "k < 24" using assms(2) by (metis one_less_numeral_iff power_strict_increasing_iff semiring_norm(76))
  then have "Suc k \<le> 24" by simp
  moreover have "fm_capacity m * 2 = 2 ^ Suc k" using k by simp
  ultimately show ?thesis by (metis one_le_numeral power_increasing)
qed

lemma fm_grow_ok:
  assumes "fm_ok m" and "fm_capacity m < 2 ^ 24"
  shows "\<exists>m'. fm_grow m = Inr m' \<and> fm_ok m' \<and> fm_capacity m' = fm_capacity m * 2 \<and> fm_used m' = fm_used m \<and>
    fm_usedSlots m' = fm_usedSlots m"
proof -
  let ?ws = "fm_bitmap m"
  have n: "nat (fm_capacity m * 2 div 64) = length ?ws * 2" using assms(1) by (simp add: fm_ok_def)
  let ?m = "m\<lparr>fm_capacity := fm_capacity m * 2, fm_nwords := length ?ws * 2, fm_bitmap := ?ws @ replicate (length ?ws) 0\<rparr>"
  note d = fm_capacity_double [OF assms]
  then have "fm_grow m = Inr ?m" using assms n by (simp add: fm_grow_def Let_def fm_ok_def)
  moreover have "ba_test (?ws @ replicate (length ?ws) 0) i \<longleftrightarrow> ba_in ?ws i \<and> ba_test ?ws i"
    if "ba_in (?ws @ replicate (length ?ws) 0) i" for i
    using that by (auto simp: ba_test_bit ba_in_div nth_append)
  then have "ba_bits (?ws @ replicate (length ?ws) 0) = ba_bits ?ws"
    by (auto simp: ba_bits_def) (auto simp: ba_in_def)
  ultimately show ?thesis using assms(1) d by (intro exI [of _ ?m]) (simp add: fm_ok_def fm_used_def)
qed

lemma fm_grow_to_ok:
  assumes "fm_ok m" and "n < 2 ^ 24"
  shows "\<exists>m'. fm_grow_to m n = Inr m' \<and> fm_ok m' \<and> n < fm_capacity m' \<and> fm_used m' = fm_used m \<and>
    fm_usedSlots m' = fm_usedSlots m"
  using assms
proof (induction m n rule: fm_grow_to.induct)
  case (1 m n)
  have pos: "0 < fm_capacity m" using "1.prems"(1) by (auto simp: fm_ok_def)
  show ?case
  proof (cases "n \<ge> fm_capacity m")
    case True
    then have "fm_capacity m < 2 ^ 24" using "1.prems"(2) by simp
    from fm_grow_ok [OF "1.prems"(1) this] obtain m1 where m1: "fm_grow m = Inr m1" "fm_ok m1"
      "fm_used m1 = fm_used m" "fm_usedSlots m1 = fm_usedSlots m" by blast
    have "n \<ge> fm_capacity m \<and> 0 < fm_capacity m" using True pos by simp
    from "1.IH" [OF this m1(1,2) "1.prems"(2)] show ?thesis
      using m1 True pos by (subst fm_grow_to.simps) simp
  next
    case False
    then show ?thesis using "1.prems"(1) by (subst fm_grow_to.simps) simp
  qed
qed

lemma fm_ok_bitmap:
  assumes "fm_ok m" and "length ws = length (fm_bitmap m)"
  shows "fm_ok (m\<lparr>fm_bitmap := ws, fm_usedSlots := u\<rparr>)"
proof -
  have "ws \<noteq> []" using assms by (metis fm_ok_def length_0_conv)
  then show ?thesis using assms by (simp add: fm_ok_def) metis
qed

lemma fm_setBit_ok:
  assumes "fm_ok m" and "0 \<le> n" and "n < 2 ^ 24"
  shows "\<exists>m'. fm_setBit m n = Inr (n \<noteq> 0, m') \<and> fm_ok m' \<and> fm_used m' = insert (nat n) (fm_used m) \<and>
    fm_usedSlots m' = fm_usedSlots m + 1 \<and> n < fm_capacity m'"
proof -
  obtain m1 where m1: "fm_grow_to m n = Inr m1" "fm_ok m1" "n < fm_capacity m1" "fm_used m1 = fm_used m"
    "fm_usedSlots m1 = fm_usedSlots m"
    using fm_grow_to_ok [OF assms(1,3)] by blast
  let ?m = "m1\<lparr>fm_bitmap := ba_set (fm_bitmap m1) (nat n), fm_usedSlots := fm_usedSlots m1 + 1\<rparr>"
  have "fm_setBit m n = Inr (n \<noteq> 0, ?m)"
    using m1(1) fm_word_ok [OF m1(2) assms(2) m1(3)] assms(2)
    by (simp add: fm_setBit_def ba_set_def nat_div_distrib nat_mod_distrib ba_mask_def)
  moreover have "fm_ok ?m" using m1(2) by (rule fm_ok_bitmap) simp
  ultimately show ?thesis
    using m1(3-5) ba_bits_set [OF fm_inside [OF m1(2) assms(2) m1(3)]] by (simp add: fm_used_def)
qed

lemma fm_clearBit_ok:
  assumes "fm_ok m" and "0 \<le> n" and "n < fm_capacity m"
  shows "\<exists>m'. fm_clearBit m n = Inr m' \<and> fm_ok m' \<and> fm_used m' = fm_used m - {nat n} \<and>
    fm_usedSlots m' = fm_usedSlots m - 1"
proof -
  let ?m = "m\<lparr>fm_bitmap := ba_clear (fm_bitmap m) (nat n), fm_usedSlots := fm_usedSlots m - 1\<rparr>"
  have "fm_clearBit m n = Inr ?m"
    using fm_word_ok [OF assms] assms(2)
    by (simp add: fm_clearBit_def ba_clear_def nat_div_distrib nat_mod_distrib ba_mask_def)
  moreover have "fm_ok ?m" using assms(1) by (rule fm_ok_bitmap) simp
  ultimately show ?thesis
    using ba_bits_clear [OF fm_inside [OF assms]] by (simp add: fm_used_def)
qed

section \<open>Allocation\<close>

lemma fm_find_word_ok:
  assumes "fm_ok m" and "0 \<le> w" and "w < int (fm_nwords m)"
  shows "\<exists>w'. fm_find_word m k w = Inr w' \<and> 0 \<le> w' \<and> w' < int (fm_nwords m) \<and>
    (fm_bitmap m ! nat w' \<noteq> - 1 \<or> (\<forall>j < k. fm_bitmap m ! nat ((w + int j) mod int (fm_nwords m)) = - 1))"
  using assms(2,3)
proof (induction k arbitrary: w)
  case (Suc k)
  have word: "fm_word m w = Inr (fm_bitmap m ! nat w)" using assms(1) Suc.prems by (simp add: fm_word_def fm_ok_def)
  show ?case
  proof (cases "fm_bitmap m ! nat w = - 1")
    case True
    let ?w = "(w + 1) mod int (fm_nwords m)"
    have "0 \<le> ?w" "?w < int (fm_nwords m)" using Suc.prems by simp_all
    from Suc.IH [OF this] obtain w' where w': "fm_find_word m k ?w = Inr w'" "0 \<le> w'" "w' < int (fm_nwords m)"
      "fm_bitmap m ! nat w' \<noteq> - 1 \<or> (\<forall>j < k. fm_bitmap m ! nat ((?w + int j) mod int (fm_nwords m)) = - 1)" by blast
    have "fm_bitmap m ! nat ((w + int j) mod int (fm_nwords m)) = - 1"
      if "\<forall>j < k. fm_bitmap m ! nat ((?w + int j) mod int (fm_nwords m)) = - 1" "j < Suc k" for j
    proof (cases j)
      case 0
      then show ?thesis using True Suc.prems by simp
    next
      case (Suc i)
      then have "fm_bitmap m ! nat ((?w + int i) mod int (fm_nwords m)) = - 1" using that by simp
      then show ?thesis using Suc by (simp add: mod_simps add.assoc)
    qed
    then show ?thesis using w' word True by auto
  next
    case False
    then show ?thesis using word Suc.prems by simp
  qed
qed simp

lemma fm_find_bit_ok:
  assumes "fm_ok m" and "0 \<le> w"
  shows "\<exists>r. fm_find_bit m w bs = Inr r \<and>
    (case r of None \<Rightarrow> \<forall>b \<in> set bs. nat (w * 64 + int b) \<in> fm_used m
     | Some n \<Rightarrow> (\<exists>b \<in> set bs. n = w * 64 + int b) \<and> nat n \<notin> fm_used m)"
proof (induction bs)
  case (Cons b bs)
  have "0 \<le> w * 64 + int b" using assms(2) by simp
  then show ?case using Cons fm_testBit_ok [OF assms(1)] by (auto simp: Let_def split: option.splits)
qed simp

lemma fm_word_full:
  assumes "fm_ok m" and "0 \<le> w" and "w < int (fm_nwords m)"
  shows "fm_bitmap m ! nat w = - 1 \<longleftrightarrow> (\<forall>b \<in> {0..<64}. nat (w * 64 + int b) \<in> fm_used m)"
proof -
  have "nat (w * 64 + int b) \<in> fm_used m \<longleftrightarrow> bit (fm_bitmap m ! nat w) b" if "b < 64" for b
  proof -
    have n: "nat (w * 64 + int b) = nat w * 64 + b" using assms(2) by (simp add: nat_add_distrib nat_mult_distrib)
    then have "(nat w * 64 + b) div 64 = nat w" "(nat w * 64 + b) mod 64 = b" using that by simp_all
    moreover have "nat w < length (fm_bitmap m)" using assms by (auto simp: fm_ok_def)
    ultimately show ?thesis by (simp add: n fm_used_def ba_bits_def ba_in_div ba_test_bit)
  qed
  then show ?thesis by (auto simp: all_ones_bit)
qed

lemma fm_used_bound: "fm_ok m \<Longrightarrow> fm_used m \<subseteq> {..<nat (fm_capacity m)}"
  by (auto simp: fm_used_def ba_bits_def ba_in_def fm_ok_def)

text \<open>The search finds a free number unless all numbers are used.\<close>

lemma fm_search_ok:
  assumes ok: "fm_ok m" and w: "0 \<le> w" "w < int (fm_nwords m)"
  shows "\<exists>w' r. fm_find_word m (fm_nwords m) w = Inr w' \<and> fm_find_bit m w' [0..<64] = Inr r \<and>
    (case r of None \<Rightarrow> fm_used m = {..<nat (fm_capacity m)}
     | Some n \<Rightarrow> 0 \<le> n \<and> n < fm_capacity m \<and> nat n \<notin> fm_used m)"
proof -
  obtain w' where w': "fm_find_word m (fm_nwords m) w = Inr w'" "0 \<le> w'" "w' < int (fm_nwords m)"
    "fm_bitmap m ! nat w' \<noteq> - 1 \<or> (\<forall>j < fm_nwords m. fm_bitmap m ! nat ((w + int j) mod int (fm_nwords m)) = - 1)"
    using fm_find_word_ok [OF assms] by blast
  obtain r where r: "fm_find_bit m w' [0..<64] = Inr r"
    "case r of None \<Rightarrow> \<forall>b \<in> set [0..<64]. nat (w' * 64 + int b) \<in> fm_used m
     | Some n \<Rightarrow> (\<exists>b \<in> set [0..<64]. n = w' * 64 + int b) \<and> nat n \<notin> fm_used m"
    using fm_find_bit_ok [OF ok w'(2), of "[0..<64]"] by blast
  show ?thesis
  proof (cases r)
    case (Some n)
    then obtain b where "b < 64" "n = w' * 64 + int b" "nat n \<notin> fm_used m" using r(2) by auto
    then show ?thesis using w' r(1) Some ok by (auto simp: fm_ok_def)
  next
    case None
    then have "fm_bitmap m ! nat w' = - 1" using r(2) fm_word_full [OF ok w'(2,3)] by simp
    then have full: "fm_bitmap m ! nat ((w + int j) mod int (fm_nwords m)) = - 1" if "j < fm_nwords m" for j
      using w'(4) that by blast
    have "i \<in> fm_used m" if i: "i < nat (fm_capacity m)" for i
    proof -
      let ?q = "int (i div 64)" and ?N = "int (fm_nwords m)"
      have q: "?q < ?N" using i ok by (auto simp: fm_ok_def)
      let ?j = "nat ((?q - w) mod ?N)"
      have "?j < fm_nwords m" using q w by (simp add: nat_less_iff)
      moreover have "(w + int ?j) mod ?N = ?q" using q w by (simp add: mod_simps)
      ultimately have "fm_bitmap m ! nat ?q = - 1" using full [of ?j] by simp
      then have "\<forall>b \<in> {0..<64}. nat (?q * 64 + int b) \<in> fm_used m" using fm_word_full [OF ok _ q] by simp
      then have "nat (?q * 64 + int (i mod 64)) \<in> fm_used m" by simp
      moreover have "?q * 64 + int (i mod 64) = int i"
        by (metis div_mult_mod_eq of_nat_add of_nat_mult of_nat_numeral)
      ultimately show ?thesis by (metis nat_int)
    qed
    then have "fm_used m = {..<nat (fm_capacity m)}" using fm_used_bound [OF ok] by auto
    then show ?thesis using None w'(1) r(1) by auto
  qed
qed


lemma fm_allocate_ok:
  assumes ok: "fm_ok m" and s: "0 \<le> s" and free: "fm_used m \<noteq> {..<2 ^ 24}"
  shows "\<exists>n m'. fm_allocate m s = Inr (n, m') \<and> 0 \<le> n \<and> n < fm_capacity m' \<and> nat n \<notin> fm_used m \<and> fm_ok m' \<and>
    fm_used m' = fm_used m \<and> fm_usedSlots m' = fm_usedSlots m \<and> (s < fm_capacity m \<longrightarrow> nat s \<notin> fm_used m \<longrightarrow> n = s)"
proof -
  let ?s = "if s \<ge> fm_capacity m then 0 else s"
  have cap: "0 < fm_capacity m" using ok by (auto simp: fm_ok_def)
  then have s1: "0 \<le> ?s" "?s < fm_capacity m" using s by auto
  have two: "fm_allocate m s = fm_allocate_fuel (Suc (Suc 0)) m s" by (simp add: fm_allocate_def numeral_2_eq_2)
  note test = fm_testBit_ok [OF ok s1(1)]
  show ?thesis
  proof (cases "nat ?s \<in> fm_used m")
    case False
    then have "fm_allocate m s = Inr (?s, m)" using test unfolding two by (simp add: Let_def)
    then show ?thesis using False s1 ok by (intro exI [of _ ?s] exI [of _ m]) auto
  next
    case True
    have "0 \<le> ?s div 64" "?s div 64 < int (fm_nwords m)" using s1 ok by (auto simp: fm_ok_def)
    from fm_search_ok [OF ok this] obtain w' r where r: "fm_find_word m (fm_nwords m) (?s div 64) = Inr w'"
      "fm_find_bit m w' [0..<64] = Inr r"
      "case r of None \<Rightarrow> fm_used m = {..<nat (fm_capacity m)} | Some n \<Rightarrow> 0 \<le> n \<and> n < fm_capacity m \<and> nat n \<notin> fm_used m"
      by blast
    have eq: "fm_allocate m s = (case r of Some n \<Rightarrow> Inr (n, m)
        | None \<Rightarrow> res_bind (fm_grow m) (\<lambda>m1. fm_allocate_fuel (Suc 0) m1 (fm_capacity m1 div 2)))"
      unfolding two fm_allocate_fuel.simps(2) [of "Suc 0"] Let_def test using True r(1,2)
      by (simp del: fm_allocate_fuel.simps)
    show ?thesis
    proof (cases r)
      case (Some n)
      then show ?thesis using eq r(3) ok True by (intro exI [of _ n] exI [of _ m]) auto
    next
      case None
      then have all: "fm_used m = {..<nat (fm_capacity m)}" using r(3) by simp
      have le: "fm_capacity m \<le> 2 ^ 24"
        using ok unfolding fm_ok_def by (metis one_le_numeral power_increasing)
      moreover have "fm_capacity m \<noteq> 2 ^ 24" using all free by auto
      ultimately have "fm_capacity m < 2 ^ 24" by simp
      from fm_grow_ok [OF ok this] obtain m1 where m1: "fm_grow m = Inr m1" "fm_ok m1" "fm_capacity m1 = fm_capacity m * 2"
        "fm_used m1 = fm_used m" "fm_usedSlots m1 = fm_usedSlots m" by blast
      have "nat (fm_capacity m) \<notin> fm_used m1" using m1(4) all by simp
      then have "fm_allocate_fuel (Suc 0) m1 (fm_capacity m) = Inr (fm_capacity m, m1)"
        using fm_testBit_ok [OF m1(2), of "fm_capacity m"] m1(3) cap by (simp add: Let_def)
      then have "fm_allocate m s = Inr (fm_capacity m, m1)" using eq None m1(1,3) by (simp del: fm_allocate_fuel.simps)
      then show ?thesis using m1 all cap True by (intro exI [of _ "fm_capacity m"] exI [of _ m1]) auto
    qed
  qed
qed

section \<open>Properties\<close>

text \<open>The map counts the numbers in use.\<close>

definition fm_counted :: "file_map \<Rightarrow> bool" where
  "fm_counted m \<longleftrightarrow> fm_usedSlots m = of_nat (card (fm_used m))"

lemma FileMap_ok: "fm_ok FileMap \<and> fm_used FileMap = {} \<and> fm_counted FileMap"
proof -
  have "fm_capacity FileMap = 2 ^ 14" by (simp add: FileMap_def)
  then show ?thesis by (auto simp: fm_ok_def fm_used_def fm_counted_def FileMap_def intro!: exI [of _ 14])
qed

lemma fm_used_finite: "finite (fm_used m)"
  by (simp add: fm_used_def)

text \<open>
  C24. As long as one of the \<open>2 ^ 24\<close> file numbers is free, \<^verbatim>\<open>allocate\<close> returns a free number, the
  suggested one if it is free, growing the map when it is full; marking that number used and
  clearing it again gives the old set back, every step keeps the map well-formed, and the number
  of used files is exact.
\<close>

theorem filemap_allocate_set_clear:
  assumes "fm_ok m" and "fm_counted m" and "0 \<le> s" and "fm_used m \<noteq> {..<2 ^ 24}"
  shows "\<exists>n m1 m2 m3. fm_allocate m s = Inr (n, m1) \<and> fm_testBit m n = Inr False \<and>
    (s < fm_capacity m \<and> fm_testBit m s = Inr False \<longrightarrow> n = s) \<and>
    fm_setBit m1 n = Inr (n \<noteq> 0, m2) \<and> fm_ok m2 \<and> fm_counted m2 \<and> fm_used m2 = insert (nat n) (fm_used m) \<and>
    fm_testBit m2 n = Inr True \<and>
    fm_clearBit m2 n = Inr m3 \<and> fm_ok m3 \<and> fm_counted m3 \<and> fm_used m3 = fm_used m"
proof -
  obtain n m1 where a: "fm_allocate m s = Inr (n, m1)" "0 \<le> n" "n < fm_capacity m1" "nat n \<notin> fm_used m" "fm_ok m1"
    "fm_used m1 = fm_used m" "fm_usedSlots m1 = fm_usedSlots m"
    "s < fm_capacity m \<longrightarrow> nat s \<notin> fm_used m \<longrightarrow> n = s"
    using fm_allocate_ok [OF assms(1,3,4)] by blast
  have "fm_capacity m1 \<le> 2 ^ 24" using a(5) unfolding fm_ok_def by (metis one_le_numeral power_increasing)
  then have "n < 2 ^ 24" using a(3) by simp
  from fm_setBit_ok [OF a(5,2) this] obtain m2 where b: "fm_setBit m1 n = Inr (n \<noteq> 0, m2)" "fm_ok m2"
    "fm_used m2 = insert (nat n) (fm_used m)" "fm_usedSlots m2 = fm_usedSlots m + 1" "n < fm_capacity m2"
    unfolding a(6,7) by blast
  from fm_clearBit_ok [OF b(2) a(2) b(5)] obtain m3 where c: "fm_clearBit m2 n = Inr m3" "fm_ok m3"
    "fm_used m3 = fm_used m2 - {nat n}" "fm_usedSlots m3 = fm_usedSlots m2 - 1" by blast
  have "fm_counted m2" using assms(2) a(4) b(3,4) fm_used_finite by (simp add: fm_counted_def)
  moreover have used3: "fm_used m3 = fm_used m" using c(3) b(3) a(4) by simp
  moreover have "fm_counted m3" using assms(2) used3 b(4) c(4) by (simp add: fm_counted_def)
  moreover have "fm_testBit m n = Inr False" "fm_testBit m s = Inr (nat s \<in> fm_used m)" "fm_testBit m2 n = Inr True"
    using fm_testBit_ok [OF assms(1)] fm_testBit_ok [OF b(2)] a(2,4) assms(3) b(3) by simp_all
  ultimately show ?thesis using a(1,8) b c(1,2) by (intro exI conjI) (assumption | simp)+
qed

lemma filemap_allocate_set_clear_witness:
  "\<exists>n m1 m2 m3. fm_allocate FileMap 70 = Inr (n, m1) \<and> fm_testBit FileMap n = Inr False \<and>
    fm_setBit m1 n = Inr (n \<noteq> 0, m2) \<and> fm_used m2 = insert (nat n) (fm_used FileMap) \<and> fm_clearBit m2 n = Inr m3 \<and>
    fm_used m3 = fm_used FileMap"
proof -
  have "(0::nat) \<in> {..<2 ^ 24}" by simp
  then have "fm_used FileMap \<noteq> {..<2 ^ 24}" using FileMap_ok by (metis empty_iff)
  then show ?thesis using filemap_allocate_set_clear [of FileMap 70] FileMap_ok by fastforce
qed

end
