(* ===== verification/Cache_Digest.thy ===== *)
theory Cache_Digest
  imports Bit_Arrays
begin

text \<open>
  Cache digests (src/CacheDigest.cc, .h): Bloom filters over the 16-byte keys of the store, and the
  part of src/store_digest.cc that resizes or clears the digest before it is rebuilt. The mask
  is an array of bytes. Sizes are \<^verbatim>\<open>int\<close>; the number of bits, \<^verbatim>\<open>mask_size * 8\<close>, is an \<^verbatim>\<open>unsigned int\<close>.
\<close>

type_synonym digest_key = "8 word list"

record cache_digest =
  cd_mask :: "8 word list"
  cd_mask_size :: int
  cd_capacity :: int
  cd_bits_per_entry :: int
  cd_count :: int
  cd_del_count :: int

section \<open>Operations\<close>

definition CBIT_BIT :: "nat \<Rightarrow> 8 word" where
  "CBIT_BIT bit1 = push_bit (bit1 mod 8) 1"

definition CBIT_SET :: "8 word list \<Rightarrow> nat \<Rightarrow> 8 word list" where
  "CBIT_SET mask1 bit1 = mask1[bit1 div 8 := mask1 ! (bit1 div 8) OR CBIT_BIT bit1]"

definition CBIT_CLR :: "8 word list \<Rightarrow> nat \<Rightarrow> 8 word list" where
  "CBIT_CLR mask1 bit1 = mask1[bit1 div 8 := mask1 ! (bit1 div 8) AND NOT (CBIT_BIT bit1)]"

definition CBIT_TEST :: "8 word list \<Rightarrow> nat \<Rightarrow> bool" where
  "CBIT_TEST mask1 bit1 \<longleftrightarrow> mask1 ! (bit1 div 8) AND CBIT_BIT bit1 \<noteq> 0"

text \<open>\<^verbatim>\<open>(size_t)(cap * bpe + 7) / 8\<close>, where the product is an \<^verbatim>\<open>int\<close>.\<close>

definition cacheDigestCalcMaskSize :: "int \<Rightarrow> int \<Rightarrow> int" where
  "cacheDigestCalcMaskSize cap bpe = (to_int32 (cap * bpe + 7) mod 2 ^ 64) div 8"

definition cacheDigestInit :: "cache_digest \<Rightarrow> int \<Rightarrow> int \<Rightarrow> cache_digest res" where
  "cacheDigestInit cd cap bpe =
     (let mask_size = cacheDigestCalcMaskSize cap bpe
      in res_bind (res_guard (cap > 0 \<and> bpe > 0) Assertion) (\<lambda>_.
         res_bind (res_guard (mask_size > 0) Assertion) (\<lambda>_.
         let sz = to_int32 mask_size
         in Inr (cd\<lparr>cd_capacity := cap, cd_bits_per_entry := bpe, cd_mask_size := sz, cd_mask := replicate (nat sz) 0\<rparr>))))"

text \<open>\<^verbatim>\<open>memAllocate\<close> returns a cleared structure.\<close>

definition cacheDigestCreate :: "int \<Rightarrow> int \<Rightarrow> cache_digest res" where
  "cacheDigestCreate cap bpe =
     cacheDigestInit \<lparr>cd_mask = [], cd_mask_size = 0, cd_capacity = 0, cd_bits_per_entry = 0, cd_count = 0, cd_del_count = 0\<rparr>
       cap bpe"

definition cacheDigestClean :: "cache_digest \<Rightarrow> cache_digest" where
  "cacheDigestClean cd = cd\<lparr>cd_mask := []\<rparr>"

definition cacheDigestClone :: "cache_digest \<Rightarrow> cache_digest res" where
  "cacheDigestClone cd =
     res_bind (cacheDigestCreate (cd_capacity cd) (cd_bits_per_entry cd)) (\<lambda>clone.
     let clone1 = clone\<lparr>cd_count := cd_count cd, cd_del_count := cd_del_count cd\<rparr>
     in res_bind (res_guard (cd_mask_size cd = cd_mask_size clone1) Assertion) (\<lambda>_.
        Inr (clone1\<lparr>cd_mask := cd_mask cd\<rparr>)))"

definition cacheDigestClear :: "cache_digest \<Rightarrow> cache_digest" where
  "cacheDigestClear cd = cd\<lparr>cd_count := 0, cd_del_count := 0, cd_mask := replicate (nat (cd_mask_size cd)) 0\<rparr>"

definition cacheDigestChangeCap :: "cache_digest \<Rightarrow> int \<Rightarrow> cache_digest res" where
  "cacheDigestChangeCap cd new_cap = cacheDigestInit (cacheDigestClean cd) new_cap (cd_bits_per_entry cd)"

text \<open>\<^verbatim>\<open>htonl\<close> of a word copied from memory is the big-endian value of its four bytes.\<close>

definition be32 :: "8 word list \<Rightarrow> nat" where
  "be32 bs = unat (bs ! 0) * 2 ^ 24 + unat (bs ! 1) * 2 ^ 16 + unat (bs ! 2) * 2 ^ 8 + unat (bs ! 3)"

definition cacheDigestHashKey :: "cache_digest \<Rightarrow> digest_key \<Rightarrow> nat list" where
  "cacheDigestHashKey cd key =
     (let bit_count = nat ((cd_mask_size cd * 8) mod 2 ^ 32)
      in [be32 key mod bit_count, be32 (drop 4 key) mod bit_count, be32 (drop 8 key) mod bit_count,
          be32 (drop 12 key) mod bit_count])"

definition cacheDigestTest :: "cache_digest \<Rightarrow> digest_key \<Rightarrow> bool" where
  "cacheDigestTest cd key = list_all (CBIT_TEST (cd_mask cd)) (cacheDigestHashKey cd key)"

text \<open>One hashed key: the mask and the number of bits turned on so far.\<close>

definition cd_turn_on :: "nat \<Rightarrow> 8 word list \<times> int \<Rightarrow> 8 word list \<times> int" where
  "cd_turn_on hk = (\<lambda>(mask1, on_xition_cnt).
     if \<not> CBIT_TEST mask1 hk then (CBIT_SET mask1 hk, on_xition_cnt + 1) else (mask1, on_xition_cnt))"

text \<open>The second result is the number counted into \<^verbatim>\<open>statCounter.cd.on_xition_count\<close>.\<close>

definition cacheDigestAdd :: "cache_digest \<Rightarrow> digest_key \<Rightarrow> cache_digest \<times> int" where
  "cacheDigestAdd cd key =
     (case fold cd_turn_on (cacheDigestHashKey cd key) (cd_mask cd, 0) of
        (mask1, on_xition_cnt) \<Rightarrow> (cd\<lparr>cd_mask := mask1, cd_count := cd_count cd + 1\<rparr>, on_xition_cnt))"

definition cacheDigestDel :: "cache_digest \<Rightarrow> digest_key \<Rightarrow> cache_digest" where
  "cacheDigestDel cd key = cd\<lparr>cd_del_count := cd_del_count cd + 1\<rparr>"

record digest_stats =
  bit_count :: int
  bit_on_count :: int
  bseq_len_sum :: int
  bseq_count :: int

text \<open>The loop of \<^verbatim>\<open>cacheDigestStats\<close> over positions \<open>pos - 1, \<dots>, 0\<close>.\<close>

fun cd_stats_loop :: "8 word list \<Rightarrow> nat \<Rightarrow> int \<Rightarrow> int \<Rightarrow> int \<Rightarrow> int \<Rightarrow> bool \<Rightarrow> int \<times> int \<times> int" where
  "cd_stats_loop mask1 0 on_count seq_len_sum seq_count cur_seq_len cur_seq_type = (on_count, seq_len_sum, seq_count)"
| "cd_stats_loop mask1 (Suc pos) on_count seq_len_sum seq_count cur_seq_len cur_seq_type =
     (let is_on = CBIT_TEST mask1 pos;
          on1 = (if is_on then on_count + 1 else on_count)
      in if is_on \<noteq> cur_seq_type \<or> pos = 0
         then cd_stats_loop mask1 pos on1 (seq_len_sum + cur_seq_len) (seq_count + 1) 1 is_on
         else cd_stats_loop mask1 pos on1 seq_len_sum seq_count (cur_seq_len + 1) cur_seq_type)"

definition cacheDigestStats :: "cache_digest \<Rightarrow> digest_stats" where
  "cacheDigestStats cd =
     (case cd_stats_loop (cd_mask cd) (nat (cd_mask_size cd * 8)) 0 0 0 0 True of
        (on_count, seq_len_sum, seq_count) \<Rightarrow>
          \<lparr>bit_count = cd_mask_size cd * 8, bit_on_count = on_count, bseq_len_sum = seq_len_sum, bseq_count = seq_count\<rparr>)"

record guess_stats =
  trueHits :: int
  falseHits :: int
  trueMisses :: int
  falseMisses :: int
  closeHits :: int

definition cacheDigestGuessStatsUpdate :: "guess_stats \<Rightarrow> bool \<Rightarrow> bool \<Rightarrow> guess_stats" where
  "cacheDigestGuessStatsUpdate st real_hit guess_hit =
     (if real_hit then
        (if guess_hit then st\<lparr>trueHits := trueHits st + 1\<rparr> else st\<lparr>falseMisses := falseMisses st + 1\<rparr>)
      else
        (if guess_hit then st\<lparr>falseHits := falseHits st + 1\<rparr> else st\<lparr>trueMisses := trueMisses st + 1\<rparr>))"

text \<open>
  \<^verbatim>\<open>storeDigestResize\<close> with the capacity \<^verbatim>\<open>storeDigestCalcCap\<close> computed, and what
  \<^verbatim>\<open>storeDigestRebuildResume\<close> does to the digest.
\<close>

definition storeDigestResize :: "cache_digest \<Rightarrow> int \<Rightarrow> (bool \<times> cache_digest) res" where
  "storeDigestResize cd cap =
     (let diff = \<bar>cap - cd_capacity cd\<bar>
      in if diff \<le> cd_capacity cd div 10 then Inr (False, cd)
         else res_bind (cacheDigestChangeCap cd cap) (\<lambda>cd1. Inr (True, cd1)))"

definition storeDigestRebuildResume :: "cache_digest \<Rightarrow> int \<Rightarrow> cache_digest res" where
  "storeDigestRebuildResume cd cap =
     res_bind (storeDigestResize cd cap) (\<lambda>(resized, cd1). Inr (if resized then cd1 else cacheDigestClear cd1))"

section \<open>The mask as a set of bits\<close>

definition cd_ok :: "cache_digest \<Rightarrow> bool" where
  "cd_ok cd \<longleftrightarrow> 0 < cd_mask_size cd \<and> cd_mask_size cd * 8 < 2 ^ 32 \<and> length (cd_mask cd) = nat (cd_mask_size cd)"

lemma CBIT_ba: "CBIT_TEST = ba_test" "CBIT_SET = ba_set" "CBIT_CLR = ba_clear"
  by (simp_all add: fun_eq_iff CBIT_TEST_def CBIT_SET_def CBIT_CLR_def CBIT_BIT_def ba_test_def ba_set_def ba_clear_def ba_mask_def)

lemma cd_hash_inside: "cd_ok cd \<Longrightarrow> h \<in> set (cacheDigestHashKey cd key) \<Longrightarrow> ba_in (cd_mask cd) h"
  by (auto simp: cacheDigestHashKey_def cd_ok_def ba_in_def Let_def nat_mult_distrib)

lemma cd_turn_on_fold:
  assumes "\<forall>i \<in> set is. ba_in m i"
  shows "ba_bits (fst (fold cd_turn_on is (m, c))) = set is \<union> ba_bits m \<and> length (fst (fold cd_turn_on is (m, c))) = length m \<and>
    snd (fold cd_turn_on is (m, c)) = c + int (card (set is - ba_bits m))"
  using assms
proof (induction "is" arbitrary: m c)
  case (Cons i "is")
  have test: "CBIT_TEST m i \<longleftrightarrow> i \<in> ba_bits m" using Cons.prems by (simp add: CBIT_ba ba_bits_def)
  show ?case
  proof (cases "i \<in> ba_bits m")
    case True
    then show ?thesis using Cons.IH [of m c] Cons.prems test
      by (auto simp: cd_turn_on_def insert_absorb Diff_insert0 insert_Diff_if)
  next
    case False
    let ?m = "ba_set m i"
    have bits: "ba_bits ?m = insert i (ba_bits m)" using Cons.prems by (simp add: ba_bits_set)
    have "set (i # is) - ba_bits m = insert i (set is - ba_bits ?m)" using False bits by auto
    moreover have "i \<notin> set is - ba_bits ?m" using bits by simp
    ultimately have "card (set (i # is) - ba_bits m) = Suc (card (set is - ba_bits ?m))" by simp
    then show ?thesis
      using Cons.IH [of ?m "c + 1"] Cons.prems bits False test
      by (auto simp: cd_turn_on_def CBIT_ba(2) ba_in_def)
  qed
qed simp

lemma cd_add_ok:
  assumes "cd_ok cd"
  shows "cd_ok (fst (cacheDigestAdd cd key))"
    "ba_bits (cd_mask (fst (cacheDigestAdd cd key))) = set (cacheDigestHashKey cd key) \<union> ba_bits (cd_mask cd)"
    "cacheDigestHashKey (fst (cacheDigestAdd cd key)) = cacheDigestHashKey cd"
    "cd_count (fst (cacheDigestAdd cd key)) = cd_count cd + 1"
    "snd (cacheDigestAdd cd key) = int (card (set (cacheDigestHashKey cd key) - ba_bits (cd_mask cd)))"
  using cd_turn_on_fold [of "cacheDigestHashKey cd key" "cd_mask cd" 0] cd_hash_inside [OF assms] assms
  by (auto simp: cacheDigestAdd_def cd_ok_def cacheDigestHashKey_def fun_eq_iff split: prod.splits)


lemma cd_test_bits:
  assumes "cd_ok cd"
  shows "cacheDigestTest cd key \<longleftrightarrow> set (cacheDigestHashKey cd key) \<subseteq> ba_bits (cd_mask cd)"
  using cd_hash_inside [OF assms] by (auto simp: cacheDigestTest_def CBIT_ba list_all_iff ba_bits_def)

definition cd_add_all :: "digest_key list \<Rightarrow> cache_digest \<Rightarrow> cache_digest" where
  "cd_add_all ks = fold (\<lambda>k cd. fst (cacheDigestAdd cd k)) ks"

lemma cd_add_all_ok:
  assumes "cd_ok cd"
  shows "cd_ok (cd_add_all ks cd) \<and> cacheDigestHashKey (cd_add_all ks cd) = cacheDigestHashKey cd \<and>
    ba_bits (cd_mask (cd_add_all ks cd)) = (\<Union>k \<in> set ks. set (cacheDigestHashKey cd k)) \<union> ba_bits (cd_mask cd) \<and>
    cd_count (cd_add_all ks cd) = cd_count cd + int (length ks)"
  using assms
proof (induction ks arbitrary: cd)
  case (Cons k ks)
  note A = cd_add_ok [OF Cons.prems, of k]
  show ?case using Cons.IH [OF A(1)] A by (auto simp: cd_add_all_def)
qed (simp add: cd_add_all_def)

lemma to_int32_small: "0 \<le> x \<Longrightarrow> x < 2 ^ 31 \<Longrightarrow> to_int32 x = x"
  by (rule to_int32_id) simp_all

lemma cd_create_ok:
  assumes "0 < cap" and "0 < bpe" and "cap * bpe + 7 < 2 ^ 31"
  shows "\<exists>cd. cacheDigestInit cd0 cap bpe = Inr cd \<and> cd_ok cd \<and> ba_bits (cd_mask cd) = {} \<and> cd_count cd = cd_count cd0"
proof -
  have pos: "0 < cap * bpe" using assms by simp
  have sz: "cacheDigestCalcMaskSize cap bpe = (cap * bpe + 7) div 8"
    using to_int32_small [of "cap * bpe + 7"] pos assms(3) by (simp add: cacheDigestCalcMaskSize_def)
  have b: "0 < (cap * bpe + 7) div 8" "(cap * bpe + 7) div 8 < 2 ^ 28" using pos assms(3) by simp_all
  then have "to_int32 ((cap * bpe + 7) div 8) = (cap * bpe + 7) div 8" by (intro to_int32_small) simp_all
  then show ?thesis using assms(1,2) sz b by (simp add: cacheDigestInit_def cd_ok_def Let_def)
qed

lemma cd_stats_loop_ok:
  "fst (cd_stats_loop m pos on_c sm cnt1 len ty) = on_c + int (card {i. i < pos \<and> CBIT_TEST m i}) \<and>
   (0 < pos \<longrightarrow> fst (snd (cd_stats_loop m pos on_c sm cnt1 len ty)) = sm + len + int pos - 1)"
proof (induction m pos on_c sm cnt1 len ty rule: cd_stats_loop.induct)
  case (2 m pos on_c sm cnt1 len ty)
  have "{i. i < Suc pos \<and> CBIT_TEST m i} = (if CBIT_TEST m pos then insert pos else id) {i. i < pos \<and> CBIT_TEST m i}"
    by (auto simp: less_Suc_eq)
  then have card: "int (card {i. i < Suc pos \<and> CBIT_TEST m i}) = of_bool (CBIT_TEST m pos) + int (card {i. i < pos \<and> CBIT_TEST m i})"
    by simp
  show ?case
  proof (cases "CBIT_TEST m pos \<noteq> ty \<or> pos = 0")
    case True
    then show ?thesis using 2(1) [OF refl refl True] card by (cases "pos = 0") (auto simp: Let_def)
  next
    case False
    then show ?thesis using 2(2) [OF refl refl False] card by (auto simp: Let_def)
  qed
qed simp

lemma cd_stats_ok:
  assumes "cd_ok cd"
  shows "bit_on_count (cacheDigestStats cd) = int (card (ba_bits (cd_mask cd)))"
    "bseq_len_sum (cacheDigestStats cd) = bit_count (cacheDigestStats cd) - 1"
proof -
  let ?n = "nat (cd_mask_size cd * 8)"
  have "{i. i < ?n \<and> CBIT_TEST (cd_mask cd) i} = ba_bits (cd_mask cd)"
    using assms by (auto simp: ba_bits_def CBIT_ba ba_in_def cd_ok_def nat_mult_distrib)
  moreover obtain on_c sm cnt1 where loop: "cd_stats_loop (cd_mask cd) ?n 0 0 0 0 True = (on_c, sm, cnt1)"
    by (metis prod_cases3)
  moreover have "0 < ?n" "int ?n = cd_mask_size cd * 8" using assms by (simp_all add: cd_ok_def)
  ultimately have "on_c = int (card (ba_bits (cd_mask cd)))" "sm = cd_mask_size cd * 8 - 1"
    using cd_stats_loop_ok [of "cd_mask cd" ?n 0 0 0 0 True] by simp_all
  then show "bit_on_count (cacheDigestStats cd) = int (card (ba_bits (cd_mask cd)))"
    "bseq_len_sum (cacheDigestStats cd) = bit_count (cacheDigestStats cd) - 1"
    by (simp_all add: cacheDigestStats_def loop)
qed

section \<open>Properties\<close>

text \<open>
  C25. A digest of any keys has no false negatives, and its false positives are exactly the
  keys whose four hashes are all hashes of digested keys; it counts its keys, and the statistics
  count its bits.
\<close>

theorem digest_membership_exact:
  assumes "0 < cap" and "0 < bpe" and "cap * bpe + 7 < 2 ^ 31"
  shows "\<exists>cd. cacheDigestCreate cap bpe = Inr cd \<and> cd_count (cd_add_all ks cd) = int (length ks) \<and>
    (\<forall>k. cacheDigestTest (cd_add_all ks cd) k \<longleftrightarrow>
      set (cacheDigestHashKey cd k) \<subseteq> (\<Union>k' \<in> set ks. set (cacheDigestHashKey cd k'))) \<and>
    (\<forall>k \<in> set ks. cacheDigestTest (cd_add_all ks cd) k) \<and>
    bit_on_count (cacheDigestStats (cd_add_all ks cd)) = int (card (\<Union>k \<in> set ks. set (cacheDigestHashKey cd k)))"
proof -
  obtain cd where cd: "cacheDigestCreate cap bpe = Inr cd" "cd_ok cd" "ba_bits (cd_mask cd) = {}" "cd_count cd = 0"
    using cd_create_ok [OF assms, of "\<lparr>cd_mask = [], cd_mask_size = 0, cd_capacity = 0, cd_bits_per_entry = 0,
      cd_count = 0, cd_del_count = 0\<rparr>"] by (auto simp: cacheDigestCreate_def)
  note A = cd_add_all_ok [OF cd(2), of ks]
  have test: "cacheDigestTest (cd_add_all ks cd) k \<longleftrightarrow>
      set (cacheDigestHashKey cd k) \<subseteq> (\<Union>k' \<in> set ks. set (cacheDigestHashKey cd k'))" for k
    using cd_test_bits [of "cd_add_all ks cd" k] A cd(3) by simp
  moreover have "\<forall>k \<in> set ks. cacheDigestTest (cd_add_all ks cd) k" using test by blast
  moreover have "bit_on_count (cacheDigestStats (cd_add_all ks cd)) = int (card (\<Union>k \<in> set ks. set (cacheDigestHashKey cd k)))"
    using cd_stats_ok(1) [of "cd_add_all ks cd"] A cd(3) by simp
  ultimately show ?thesis using cd(1,4) A by auto
qed

lemma digest_membership_exact_witness:
  "\<exists>cd. cacheDigestCreate 10 5 = Inr cd \<and> cd_count (cd_add_all [replicate 16 3] cd) = int (length [replicate 16 (3::8 word)]) \<and>
     cacheDigestTest (cd_add_all [replicate 16 3] cd) (replicate 16 3)"
  using digest_membership_exact [of 10 5 "[replicate 16 3]"] by auto

text \<open>
  A digest that is resized before it is rebuilt loses its bits but not its count, so the
  count of the rebuilt digest includes the keys of the old one; and the sum of the lengths of
  its bit sequences is one less than the number of bits.
\<close>

theorem digest_resize_keeps_count:
  assumes "0 < cap" and "0 < cd_bits_per_entry cd" and "cap * cd_bits_per_entry cd + 7 < 2 ^ 31"
    and "cd_capacity cd div 10 < \<bar>cap - cd_capacity cd\<bar>"
  shows "\<exists>cd'. storeDigestRebuildResume cd cap = Inr cd' \<and> cd_count cd' = cd_count cd \<and>
    (\<forall>k. \<not> cacheDigestTest cd' k) \<and> bit_on_count (cacheDigestStats cd') = 0 \<and>
    bseq_len_sum (cacheDigestStats cd') = bit_count (cacheDigestStats cd') - 1"
proof -
  obtain cd' where cd': "cacheDigestInit (cacheDigestClean cd) cap (cd_bits_per_entry cd) = Inr cd'" "cd_ok cd'"
    "ba_bits (cd_mask cd') = {}" "cd_count cd' = cd_count (cacheDigestClean cd)"
    using cd_create_ok [OF assms(1-3)] by blast
  have "storeDigestRebuildResume cd cap = Inr cd'"
    using assms(4) cd'(1) by (simp add: storeDigestRebuildResume_def storeDigestResize_def cacheDigestChangeCap_def)
  moreover have "\<not> cacheDigestTest cd' k" for k
    using cd_test_bits [OF cd'(2)] cd'(3) by (simp add: cacheDigestHashKey_def Let_def)
  moreover have "cd_count (cacheDigestClean cd) = cd_count cd" by (simp add: cacheDigestClean_def)
  ultimately show ?thesis using cd'(3,4) cd_stats_ok [OF cd'(2)] by auto
qed

end
