(* ===== verification/C_Double.thy ===== *)
theory C_Double
  imports Complex_Main "HOL-Library.Log_Nat" Squid_Prelude
begin

text \<open>
  The arithmetic of \<^verbatim>\<open>double\<close> the freshness rules use: a value is a rational, the result of an
  operation is rounded to 53 significant bits, to nearest and ties to even. The exponents
  reached here are far from the limits of the format, so neither subnormal numbers nor infinities
  appear. A conversion to an integer cuts off the fraction.
\<close>

definition pow2 :: "int \<Rightarrow> rat" where
  "pow2 e = (if 0 \<le> e then 2 ^ nat e else 1 / 2 ^ nat (- e))"

definition round_even :: "rat \<Rightarrow> int" where
  "round_even y =
     (let f = \<lfloor>y\<rfloor>; r = y - of_int f
      in if r < 1 / 2 then f else if 1 / 2 < r then f + 1 else if even f then f else f + 1)"

text \<open>The exponent of the leading bit of a positive number.\<close>

definition dbl_exp :: "rat \<Rightarrow> int" where
  "dbl_exp x = (let (a, b) = quotient_of x; k = bitlen a - bitlen b in if pow2 k \<le> x then k else k - 1)"

definition dbl :: "rat \<Rightarrow> rat" where
  "dbl x = (if x = 0 then 0 else let u = pow2 (dbl_exp \<bar>x\<bar> - 52) in of_int (round_even (x / u)) * u)"

definition dbl_mult :: "rat \<Rightarrow> rat \<Rightarrow> rat" where
  "dbl_mult x y = dbl (x * y)"

definition dbl_of_int :: "int \<Rightarrow> rat" where
  "dbl_of_int n = dbl (of_int n)"

definition dbl_to_int :: "rat \<Rightarrow> int" where
  "dbl_to_int x = (if 0 \<le> x then \<lfloor>x\<rfloor> else \<lceil>x\<rceil>)"

lemma pow2_pos [simp]: "0 < pow2 e"
  by (simp add: pow2_def)

lemma pow2_add: "pow2 (a - b) = pow2 a / pow2 b"
proof -
  consider "0 \<le> a" "0 \<le> b" "b \<le> a" | "0 \<le> a" "0 \<le> b" "a < b" | "0 \<le> a" "b < 0" | "a < 0" "0 \<le> b" | "a < 0" "b < 0" "b \<le> a" | "a < 0" "b < 0" "a < b"
    by linarith
  then show ?thesis
  proof cases
    case 1
    then have "nat a = nat (a - b) + nat b" by simp
    then show ?thesis using 1 by (simp add: pow2_def power_add)
  next
    case 2
    then have "nat b = nat (b - a) + nat a" by simp
    then show ?thesis using 2 by (simp add: pow2_def power_add)
  next
    case 3
    then have "nat (a - b) = nat a + nat (- b)" by simp
    then show ?thesis using 3 by (simp add: pow2_def power_add)
  next
    case 4
    then have "nat (b - a) = nat (- a) + nat b" by simp
    then show ?thesis using 4 by (simp add: pow2_def power_add)
  next
    case 5
    then have "nat (- b) = nat (a - b) + nat (- a)" by simp
    then show ?thesis using 5 by (simp add: pow2_def power_add)
  next
    case 6
    then have "nat (- a) = nat (b - a) + nat (- b)" by simp
    then show ?thesis using 6 by (simp add: pow2_def power_add)
  qed
qed

lemma round_even_le: "y \<le> of_int m \<Longrightarrow> round_even y \<le> m"
proof -
  assume y: "y \<le> of_int m"
  then have f: "\<lfloor>y\<rfloor> \<le> m" by linarith
  show ?thesis
  proof (cases "\<lfloor>y\<rfloor> = m")
    case True
    then have "y - of_int \<lfloor>y\<rfloor> < 1 / 2" using y by linarith
    then show ?thesis using True by (simp add: round_even_def)
  next
    case False
    then show ?thesis using f by (auto simp: round_even_def Let_def)
  qed
qed

lemma round_even_nonneg: "0 \<le> y \<Longrightarrow> 0 \<le> round_even y"
  by (auto simp: round_even_def Let_def)

lemma round_even_of_int [simp]: "round_even (of_int n) = n"
  by (simp add: round_even_def)

lemma dbl_exp_le: "0 < x \<Longrightarrow> pow2 (dbl_exp x) \<le> x"
proof -
  assume x: "0 < x"
  obtain a b where q: "quotient_of x = (a, b)" by fastforce
  have b: "0 < b" and xq: "x = of_int a / of_int b" using quotient_of_denom_pos [OF q] quotient_of_div [OF q] by auto
  then have a: "0 < a" using x by (simp add: zero_less_divide_iff)
  have 1: "2 ^ nat (bitlen a - 1) \<le> a" and 2: "b \<le> 2 ^ nat (bitlen b)" using bitlen_bounds [OF a] bitlen_bounds [OF b] by auto
  have la: "0 \<le> bitlen a - 1" using a bitlen_eq_zero_iff [of a] bitlen_nonneg [of a] by linarith
  have "(of_int (2 ^ nat (bitlen a - 1)) :: rat) \<le> of_int a" "(of_int b :: rat) \<le> of_int (2 ^ nat (bitlen b))"
    using 1 2 by (simp_all only: of_int_le_iff)
  then have "pow2 (bitlen a - 1) \<le> of_int a" "of_int b \<le> pow2 (bitlen b)"
    using la bitlen_nonneg [of b] by (simp_all add: pow2_def)
  then have "pow2 (bitlen a - 1) / pow2 (bitlen b) \<le> x" unfolding xq using b a
    by (intro frac_le) simp_all
  then have "pow2 (bitlen a - bitlen b - 1) \<le> x" by (simp add: pow2_add [symmetric] algebra_simps)
  then show ?thesis by (simp add: dbl_exp_def q Let_def)
qed

lemma dbl_exp_small: "0 < x \<Longrightarrow> x < 2 ^ 53 \<Longrightarrow> dbl_exp x \<le> 52"
proof (rule ccontr)
  assume x: "0 < x" "x < 2 ^ 53" and "\<not> dbl_exp x \<le> 52"
  then have "53 \<le> nat (dbl_exp x)" "0 \<le> dbl_exp x" by linarith+
  then have "(2 :: rat) ^ 53 \<le> pow2 (dbl_exp x)" by (simp only: pow2_def if_True) (rule power_increasing, simp_all)
  with x dbl_exp_le [OF x(1)] show False by linarith
qed

text \<open>Between 0 and an integer that is not too large, rounding does not leave the interval.\<close>

lemma dbl_between:
  assumes "0 \<le> x" "x \<le> of_int n" "n < 2 ^ 53"
  shows "0 \<le> dbl x" and "dbl x \<le> of_int n"
proof -
  let ?e = "dbl_exp x - 52" and ?u = "pow2 (dbl_exp x - 52)"
  have x: "x < 2 ^ 53" using assms(2,3) by (metis of_int_less_iff of_int_numeral of_int_power order_le_less_trans)
  show "0 \<le> dbl x"
    using assms(1) round_even_nonneg [of "x / ?u"] pow2_pos [of ?e]
    by (auto simp: dbl_def Let_def less_imp_le intro!: mult_nonneg_nonneg)
  show "dbl x \<le> of_int n"
  proof (cases "x = 0")
    case False
    then have e: "?e \<le> 0" using dbl_exp_small [of x] assms(1) x by simp
    then have u: "?u = 1 / 2 ^ nat (- ?e)" by (auto simp: pow2_def)
    have "x / ?u \<le> of_int (n * 2 ^ nat (- ?e))" using assms(2) by (simp add: u mult_right_mono)
    then have "round_even (x / ?u) \<le> n * 2 ^ nat (- ?e)" by (rule round_even_le)
    then have "(of_int (round_even (x / ?u)) :: rat) \<le> of_int (n * 2 ^ nat (- ?e))" by (simp only: of_int_le_iff)
    then have "(of_int (round_even (x / ?u)) :: rat) \<le> of_int n * 2 ^ nat (- ?e)" by simp
    then have "of_int (round_even (x / ?u)) * ?u \<le> of_int n * 2 ^ nat (- ?e) * ?u"
      by (rule mult_right_mono) (simp add: less_imp_le)
    then show ?thesis using False assms(1) by (simp add: dbl_def u Let_def)
  qed (use assms in \<open>simp add: dbl_def\<close>)
qed

lemma dbl_of_int_exact: "0 \<le> n \<Longrightarrow> n < 2 ^ 53 \<Longrightarrow> dbl_of_int n = of_int n"
proof (cases "n = 0")
  case False
  assume n: "0 \<le> n" "n < 2 ^ 53"
  let ?x = "of_int n :: rat"
  let ?e = "dbl_exp ?x - 52"
  have "?x < of_int (2 ^ 53)" using n(2) by (simp only: of_int_less_iff)
  then have "0 < ?x" "?x < 2 ^ 53" using n False by simp_all
  then have "?e \<le> 0" using dbl_exp_small by simp
  then have u: "pow2 ?e = 1 / 2 ^ nat (- ?e)" by (auto simp: pow2_def)
  have "?x / pow2 ?e = of_int (n * 2 ^ nat (- ?e))" by (simp add: u)
  then have "round_even (?x / pow2 ?e) = n * 2 ^ nat (- ?e)" by (simp only: round_even_of_int)
  then show ?thesis using False n by (simp add: dbl_of_int_def dbl_def Let_def u)
qed (simp add: dbl_of_int_def dbl_def)

end
