(* ===== verification/Squid_String.thy ===== *)
theory Squid_String
  imports C_Strings
begin

text \<open>
  The \<^verbatim>\<open>String\<close> class (src/String.cc): a buffer of at most 65535 bytes with its length. \<open>st_buf\<close> is
  \<open>None\<close> for a null buffer, otherwise the \<^verbatim>\<open>len_\<close> bytes of the contents, which have no zero byte;
  \<open>st_size\<close> is the allocated size. The string pools are those of an initialized allocator
  on a 64-bit machine.
\<close>

record squid_string =
  st_size :: nat
  st_buf :: "string option"

section \<open>Operations\<close>

definition RoundedSize :: "nat \<Rightarrow> nat" where
  "RoundedSize s = ((s + 8 - 1) div 8) * 8"

definition StrPoolsAttrs :: "nat list" where
  "StrPoolsAttrs = map RoundedSize [36, 128, 512, 1024, 4 * 1024, (1024 * 16 + 4) - 4]"

text \<open>The gross size of the buffer: that of the first pool that fits, or the net size.\<close>

definition memAllocString :: "nat \<Rightarrow> nat" where
  "memAllocString net_size = (case find (\<lambda>s. net_size \<le> s) StrPoolsAttrs of Some s \<Rightarrow> s | None \<Rightarrow> net_size)"

definition String0 :: squid_string where
  "String0 = \<lparr>st_size = 0, st_buf = None\<rparr>"

definition st_defined :: "squid_string \<Rightarrow> bool" where
  "st_defined s \<longleftrightarrow> st_buf s \<noteq> None"

definition st_str :: "squid_string \<Rightarrow> string" where
  "st_str s = (case st_buf s of None \<Rightarrow> [] | Some b \<Rightarrow> b)"

definition st_len :: "squid_string \<Rightarrow> nat" where
  "st_len s = length (st_str s)"

definition st_setBuffer :: "squid_string \<Rightarrow> string \<Rightarrow> nat \<Rightarrow> squid_string res" where
  "st_setBuffer s b sz =
     res_bind (res_guard (\<not> st_defined s) Assertion) (\<lambda>_.
     res_bind (res_guard (sz < 65536) Assertion) (\<lambda>_.
     Inr (s\<lparr>st_buf := Some b, st_size := sz\<rparr>)))"

text \<open>\<open>b\<close> is what the caller copies into the new buffer before anybody reads it.\<close>

definition st_allocBuffer :: "squid_string \<Rightarrow> nat \<Rightarrow> string \<Rightarrow> squid_string res" where
  "st_allocBuffer s sz b =
     res_bind (res_guard (\<not> st_defined s) Assertion) (\<lambda>_. st_setBuffer s b (memAllocString sz))"

definition st_allocAndFill :: "squid_string \<Rightarrow> string \<Rightarrow> squid_string res" where
  "st_allocAndFill s str = st_allocBuffer s (length str + 1) str"

definition st_clean :: "squid_string \<Rightarrow> squid_string" where
  "st_clean s = s\<lparr>st_buf := None, st_size := 0\<rparr>"

definition st_limitInit :: "squid_string \<Rightarrow> string \<Rightarrow> squid_string res" where
  "st_limitInit s str = st_allocAndFill (st_clean s) str"

definition st_reset :: "squid_string \<Rightarrow> string option \<Rightarrow> squid_string res" where
  "st_reset s str = (case str of None \<Rightarrow> Inr (st_clean s) | Some x \<Rightarrow> st_allocAndFill (st_clean s) x)"

definition st_assign :: "squid_string \<Rightarrow> squid_string \<Rightarrow> squid_string res" where
  "st_assign s old = (if st_len old > 0 then st_allocAndFill (st_clean s) (st_str old) else Inr (st_clean s))"

text \<open>The absorbed string is left empty: it comes second.\<close>

definition st_absorb :: "squid_string \<Rightarrow> squid_string \<Rightarrow> (squid_string \<times> squid_string) res" where
  "st_absorb s old =
     res_bind (st_setBuffer (st_clean s) (st_str old) (st_size old)) (\<lambda>s1.
     Inr (s1, old\<lparr>st_size := 0, st_buf := None\<rparr>))"

definition st_append :: "squid_string \<Rightarrow> string \<Rightarrow> squid_string res" where
  "st_append s str =
     (if st_len s + length str < st_size s then Inr (s\<lparr>st_buf := Some (st_str s @ str)\<rparr>)
      else
        res_bind (res_guard (st_len s + length str < 65536) Assertion) (\<lambda>_.
        res_bind (st_allocBuffer String0 (st_len s + length str + 1) (st_str s @ str)) (\<lambda>snew.
        res_bind (st_absorb s snew) (\<lambda>(s1, _). Inr s1))))"

text \<open>Appending a null buffer fails the assertion on the pointer.\<close>

definition st_append_String :: "squid_string \<Rightarrow> squid_string \<Rightarrow> squid_string res" where
  "st_append_String s old = res_bind (res_guard (st_defined old) Assertion) (\<lambda>_. st_append s (st_str old))"

definition st_substr :: "squid_string \<Rightarrow> nat \<Rightarrow> nat \<Rightarrow> squid_string res" where
  "st_substr s from to =
     res_bind (res_guard (from < st_len s) MustFailed) (\<lambda>_.
     res_bind (res_guard (to > 0 \<and> to \<le> st_len s) MustFailed) (\<lambda>_.
     res_bind (res_guard (to > from) MustFailed) (\<lambda>_.
     st_limitInit String0 (take (to - from) (drop from (st_str s))))))"

definition st_cut :: "squid_string \<Rightarrow> nat \<Rightarrow> squid_string" where
  "st_cut s newLength =
     (if newLength > st_len s then s
      else if newLength = 0 \<and> st_buf s = None then s
      else s\<lparr>st_buf := Some (take newLength (st_str s))\<rparr>)"

section \<open>Invariant\<close>

definition st_ok :: "squid_string \<Rightarrow> bool" where
  "st_ok s \<longleftrightarrow> (case st_buf s of None \<Rightarrow> st_size s = 0 | Some b \<Rightarrow> length b < st_size s \<and> st_size s < 65536)"

lemma st_str_Some: "st_buf s = Some b \<Longrightarrow> st_str s = b"
  by (simp add: st_str_def)

lemma String0_ok [simp]: "st_ok String0" "st_str String0 = []" "\<not> st_defined String0"
  by (simp_all add: st_ok_def String0_def st_str_def st_defined_def)

lemma st_clean_ok [simp]: "st_ok (st_clean s)" "st_str (st_clean s) = []" "\<not> st_defined (st_clean s)"
  by (simp_all add: st_ok_def st_clean_def st_str_def st_defined_def)

lemma memAllocString_ge: "n \<le> memAllocString n"
  by (auto simp: memAllocString_def find_Some_iff split: option.split)

lemma memAllocString_big: "16384 < n \<Longrightarrow> memAllocString n = n"
  by (simp add: memAllocString_def StrPoolsAttrs_def RoundedSize_def)

lemma memAllocString_small: "n \<le> 16384 \<Longrightarrow> memAllocString n \<le> 16384"
  by (simp add: memAllocString_def StrPoolsAttrs_def RoundedSize_def)

lemma memAllocString_fits: "memAllocString n < 65536 \<longleftrightarrow> n < 65536"
  using memAllocString_big [of n] memAllocString_small [of n] by (cases "n \<le> 16384") auto

text \<open>Filling an empty string succeeds exactly when it has less than 65535 bytes.\<close>

lemma st_allocBuffer_ok:
  assumes "\<not> st_defined s" and "length b < n"
  shows "n < 65536 \<Longrightarrow> \<exists>s'. st_allocBuffer s n b = Inr s' \<and> st_ok s' \<and> st_buf s' = Some b"
    and "\<not> n < 65536 \<Longrightarrow> st_allocBuffer s n b = Inl Assertion"
  using assms memAllocString_ge [of n] memAllocString_fits [of n]
  by (auto simp: st_allocBuffer_def st_setBuffer_def st_ok_def)

lemma st_limitInit_ok:
  "length b < 65535 \<Longrightarrow> \<exists>s'. st_limitInit s b = Inr s' \<and> st_ok s' \<and> st_buf s' = Some b"
  by (simp add: st_limitInit_def st_allocAndFill_def st_allocBuffer_ok(1))

lemma st_append_ok:
  assumes "st_ok s"
  shows "st_len s + length t < 65535 \<Longrightarrow> \<exists>s'. st_append s t = Inr s' \<and> st_ok s' \<and> st_buf s' = Some (st_str s @ t)"
    and "\<not> st_len s + length t < 65535 \<Longrightarrow> st_append s t = Inl Assertion"
proof -
  let ?n = "st_len s + length t"
  assume n: "?n < 65535"
  show "\<exists>s'. st_append s t = Inr s' \<and> st_ok s' \<and> st_buf s' = Some (st_str s @ t)"
  proof (cases "?n < st_size s")
    case True
    then show ?thesis using assms
      by (auto simp: st_append_def st_ok_def st_len_def st_str_def split: option.splits)
  next
    case False
    have "\<exists>s'. st_allocBuffer String0 (?n + 1) (st_str s @ t) = Inr s' \<and> st_ok s' \<and> st_buf s' = Some (st_str s @ t)"
      using n by (intro st_allocBuffer_ok(1)) (simp_all add: st_len_def)
    then obtain s' where s': "st_allocBuffer String0 (?n + 1) (st_str s @ t) = Inr s'" "st_ok s'"
      "st_buf s' = Some (st_str s @ t)" by blast
    then show ?thesis using False n
      by (auto simp: st_append_def st_absorb_def st_setBuffer_def st_ok_def st_str_def)
  qed
next
  assume n: "\<not> st_len s + length t < 65535"
  then have "\<not> st_len s + length t < st_size s" using assms by (auto simp: st_ok_def split: option.splits)
  moreover have "st_allocBuffer String0 (st_len s + length t + 1) (st_str s @ t) = Inl Assertion"
    by (rule st_allocBuffer_ok(2)) (use n in \<open>auto simp: st_len_def\<close>)
  ultimately show "st_append s t = Inl Assertion"
    by (simp add: st_append_def res_guard_def)
qed

lemma st_cut_ok: "st_ok s \<Longrightarrow> st_ok (st_cut s n) \<and> st_str (st_cut s n) = take n (st_str s)"
  by (auto simp: st_ok_def st_cut_def st_str_def st_len_def split: option.splits)

lemma st_substr_ok:
  assumes "st_ok s" and "from < to" and "to \<le> st_len s"
  shows "\<exists>s'. st_substr s from to = Inr s' \<and> st_ok s' \<and> st_str s' = take (to - from) (drop from (st_str s))"
proof -
  have "st_len s < 65535" using assms by (auto simp: st_ok_def st_len_def st_str_def split: option.splits)
  then have "length (take (to - from) (drop from (st_str s))) < 65535" using assms(2,3) by (simp add: st_len_def)
  from st_limitInit_ok [OF this, of String0] obtain s' where "st_limitInit String0 (take (to - from) (drop from (st_str s))) = Inr s'"
    "st_ok s'" "st_buf s' = Some (take (to - from) (drop from (st_str s)))" by blast
  then show ?thesis using assms(2,3) by (simp add: st_substr_def st_str_Some)
qed

end
