(* ===== verification/Http_CacheControl.thy ===== *)
theory Http_CacheControl
  imports Str_List Squid_String
begin

text \<open>
  The \<^verbatim>\<open>Cache-Control\<close> field (src/HttpHdrCc.cc, .h, .cci), and the parsers of numbers and quoted
  strings it uses (src/HttpHeaderTools.cc). A pointer into the field is a suffix of it, a position in
  a quoted string an offset. The directives' repetition counters are kept beside the object.
\<close>

unbundle bit_operations_syntax

section \<open>Values of header fields\<close>

text \<open>\<^verbatim>\<open>atoi\<close> is the conversion of \<^verbatim>\<open>strtol\<close> to \<^verbatim>\<open>int\<close>. The byte behind the string is zero.\<close>

definition c_at :: "string \<Rightarrow> nat \<Rightarrow> char res" where
  "c_at s i = (if i < length s then Inr (s ! i) else if i = length s then Inr (CHR 0x00) else Inl OutOfBounds)"

definition c_atoi :: "string \<Rightarrow> int" where
  "c_atoi s = to_int32 (fst (c_strtoll s))"

definition httpHeaderParseInt :: "string \<Rightarrow> int option" where
  "httpHeaderParseInt start =
     (let value = c_atoi start
      in if value = 0 \<and> \<not> (start \<noteq> [] \<and> c_isdigit (hd start)) then None else Some value)"

definition qs_ctl :: "char \<Rightarrow> bool" where
  "qs_ctl c \<longleftrightarrow> char_code c \<le> 0x1F"

definition qs_plain :: "char \<Rightarrow> bool" where
  "qs_plain c \<longleftrightarrow> c \<noteq> CHR 0x5C \<and> c \<noteq> CHR 0x22 \<and> \<not> qs_ctl c \<and> c \<noteq> CHR 0x7F"

text \<open>
  One round of the loop of \<^verbatim>\<open>httpHeaderParseQuotedString\<close>, at a position that is not a quote: the
  new position and value, or \<open>None\<close> when the code gives up.
\<close>

definition qs_run :: "string \<Rightarrow> nat \<Rightarrow> nat \<Rightarrow> squid_string \<Rightarrow> (nat \<times> squid_string) option res" where
  "qs_run start len pos val =
     (let end = pos + length (takeWhile qs_plain (take (len - pos) (drop pos start)))
      in res_bind (c_at start end) (\<lambda>e.
         if (qs_ctl e \<and> e \<noteq> CHR 0x0D \<and> e \<noteq> CHR 0x0A) \<or> e = CHR 0x7F then Inr None
         else res_bind (st_append val (take (end - pos) (drop pos start))) (\<lambda>val1. Inr (Some (end, val1)))))"

definition qs_char :: "string \<Rightarrow> nat \<Rightarrow> nat \<Rightarrow> squid_string \<Rightarrow> (nat \<times> squid_string) option res" where
  "qs_char start len pos val =
     res_bind (c_at start pos) (\<lambda>c.
       if c = CHR 0x0A then
         (if pos + 1 > len then Inr None
          else res_bind (c_at start (pos + 1)) (\<lambda>d.
            if d \<noteq> CHR '' '' \<and> d \<noteq> CHR 0x09 then Inr None
            else res_bind (st_append val '' '') (\<lambda>val1. Inr (Some (pos + 2, val1)))))
       else if c = CHR 0x5C then
         res_bind (c_at start (pos + 1)) (\<lambda>d.
           if d = CHR 0x00 \<or> pos + 1 > len then Inr None else qs_run start len (pos + 1) val)
       else qs_run start len pos val)"

definition qs_step :: "string \<Rightarrow> nat \<Rightarrow> nat \<Rightarrow> squid_string \<Rightarrow> (nat \<times> squid_string) option res" where
  "qs_step start len pos val =
     res_bind (c_at start pos) (\<lambda>c.
       if c = CHR 0x0D then
         (if pos + 1 > len then Inr None
          else res_bind (c_at start (pos + 1)) (\<lambda>d.
            if d \<noteq> CHR 0x0A then Inr None else qs_char start len (pos + 1) val))
       else qs_char start len pos val)"

lemma qs_run_progress:
  "qs_run start len pos val = Inr (Some (p, v)) \<Longrightarrow> pos \<le> p"
  by (auto simp: qs_run_def Let_def res_bind_Inr_iff split: if_splits)

lemma c_at_drop: "c_at s i = Inr c \<Longrightarrow> i < length s \<Longrightarrow> drop i s = c # drop (Suc i) s"
  by (metis Cons_nth_drop_Suc c_at_def sum.inject(2))

lemma qs_run_progress_plain:
  assumes "qs_run start len pos val = Inr (Some (p, v))" and "pos < len"
    and "c_at start pos = Inr c" and "c \<noteq> CHR 0x22" "c \<noteq> CHR 0x5C" "c \<noteq> CHR 0x0A" "c \<noteq> CHR 0x0D"
  shows "pos < p"
proof (cases "qs_plain c \<and> pos < length start")
  case True
  then have "drop pos start = c # drop (Suc pos) start"
    using assms(3) by (simp add: c_at_drop)
  then have "0 < length (takeWhile qs_plain (take (len - pos) (drop pos start)))"
    using True assms(2) by (cases "len - pos") auto
  then show ?thesis using assms(1) by (auto simp: qs_run_def Let_def res_bind_Inr_iff split: if_splits)
next
  case False
  have c: "\<not> qs_plain c"
    using False assms(3) by (auto simp: c_at_def qs_plain_def qs_ctl_def char_code_def split: if_splits)
  have "takeWhile qs_plain (take (len - pos) (drop pos start)) = []"
  proof (cases "pos < length start")
    case True
    then have "drop pos start = c # drop (Suc pos) start"
      using assms(3) by (simp add: c_at_drop)
    then show ?thesis using c by (cases "len - pos") auto
  qed simp
  then show ?thesis using assms c by (auto simp: qs_run_def Let_def res_bind_Inr_iff qs_plain_def split: if_splits)
qed

lemma qs_step_progress:
  assumes "qs_step start len pos val = Inr (Some (p, v))" and "pos < len" and "c_at start pos = Inr c" and "c \<noteq> CHR 0x22"
  shows "pos < p"
  using assms qs_run_progress [of start len "pos + 1" val p v] qs_run_progress [of start len "pos + 1 + 1" val p v]
    qs_run_progress_plain [of start len pos val p v c]
  by (auto simp: qs_step_def qs_char_def res_bind_Inr_iff split: if_splits)

function qs_loop :: "string \<Rightarrow> nat \<Rightarrow> nat \<Rightarrow> squid_string \<Rightarrow> (nat \<times> squid_string) option res" where
  "qs_loop start len pos val =
     res_bind (c_at start pos) (\<lambda>c.
       if c \<noteq> CHR 0x22 \<and> len > pos then
         res_bind (qs_step start len pos val) (\<lambda>r. case r of
             None \<Rightarrow> Inr None
           | Some (pos1, val1) \<Rightarrow> qs_loop start len pos1 val1)
       else Inr (Some (pos, val)))"
  by pat_completeness auto
termination
  by (relation "measure (\<lambda>(start, len, pos, val). len - pos)") (auto dest: qs_step_progress intro: diff_less_mono2)

declare qs_loop.simps [simp del]

text \<open>\<open>None\<close> is the return value 0, with \<^verbatim>\<open>val\<close> clean.\<close>

definition httpHeaderParseQuotedString :: "string \<Rightarrow> nat \<Rightarrow> squid_string option res" where
  "httpHeaderParseQuotedString start len =
     res_bind (c_at start 0) (\<lambda>c.
       if c \<noteq> CHR 0x22 then Inr None
       else res_bind (qs_loop start len 1 String0) (\<lambda>r. case r of
           None \<Rightarrow> Inr None
         | Some (pos, val) \<Rightarrow> res_bind (c_at start pos) (\<lambda>e.
             if e \<noteq> CHR 0x22 then Inr None
             else if \<not> st_defined val then res_bind (st_limitInit val []) (\<lambda>v. Inr (Some v))
             else Inr (Some val))))"

section \<open>The object\<close>

datatype http_hdr_cc_type =
    CC_PUBLIC | CC_PRIVATE | CC_NO_CACHE | CC_NO_STORE | CC_NO_TRANSFORM | CC_MUST_REVALIDATE
  | CC_PROXY_REVALIDATE | CC_MAX_AGE | CC_S_MAXAGE | CC_MAX_STALE | CC_MIN_FRESH | CC_ONLY_IF_CACHED
  | CC_STALE_IF_ERROR | CC_OTHER

definition CcAttrs :: "(string \<times> http_hdr_cc_type) list" where
  "CcAttrs =
     [(''public'', CC_PUBLIC), (''private'', CC_PRIVATE), (''no-cache'', CC_NO_CACHE),
      (''no-store'', CC_NO_STORE), (''no-transform'', CC_NO_TRANSFORM),
      (''must-revalidate'', CC_MUST_REVALIDATE), (''proxy-revalidate'', CC_PROXY_REVALIDATE),
      (''max-age'', CC_MAX_AGE), (''s-maxage'', CC_S_MAXAGE), (''max-stale'', CC_MAX_STALE),
      (''min-fresh'', CC_MIN_FRESH), (''only-if-cached'', CC_ONLY_IF_CACHED),
      (''stale-if-error'', CC_STALE_IF_ERROR), (''Other,'', CC_OTHER)]"

primrec cc_id :: "http_hdr_cc_type \<Rightarrow> nat" where
  "cc_id CC_PUBLIC = 0"
| "cc_id CC_PRIVATE = 1"
| "cc_id CC_NO_CACHE = 2"
| "cc_id CC_NO_STORE = 3"
| "cc_id CC_NO_TRANSFORM = 4"
| "cc_id CC_MUST_REVALIDATE = 5"
| "cc_id CC_PROXY_REVALIDATE = 6"
| "cc_id CC_MAX_AGE = 7"
| "cc_id CC_S_MAXAGE = 8"
| "cc_id CC_MAX_STALE = 9"
| "cc_id CC_MIN_FRESH = 10"
| "cc_id CC_ONLY_IF_CACHED = 11"
| "cc_id CC_STALE_IF_ERROR = 12"
| "cc_id CC_OTHER = 13"

definition cc_name :: "http_hdr_cc_type \<Rightarrow> string" where
  "cc_name t = fst (CcAttrs ! cc_id t)"

definition CcNameToIdMap :: "string \<Rightarrow> http_hdr_cc_type option" where
  "CcNameToIdMap = map_of CcAttrs"

record http_hdr_cc =
  cc_mask :: "32 word"
  cc_max_age :: int
  cc_s_maxage :: int
  cc_max_stale :: int
  cc_stale_if_error :: int
  cc_min_fresh :: int
  cc_private :: squid_string
  cc_no_cache :: squid_string
  cc_other :: squid_string

definition MAX_STALE_ANY :: int where
  "MAX_STALE_ANY = 0x7fffffff"

definition HttpHdrCc :: http_hdr_cc where
  "HttpHdrCc = \<lparr>cc_mask = 0, cc_max_age = -1, cc_s_maxage = -1, cc_max_stale = -1, cc_stale_if_error = -1,
     cc_min_fresh = -1, cc_private = String0, cc_no_cache = String0, cc_other = String0\<rparr>"

definition cc_isSet :: "http_hdr_cc \<Rightarrow> http_hdr_cc_type \<Rightarrow> bool" where
  "cc_isSet cc t \<longleftrightarrow> cc_mask cc AND push_bit (cc_id t) 1 \<noteq> 0"

definition cc_setMask :: "http_hdr_cc_type \<Rightarrow> bool \<Rightarrow> http_hdr_cc \<Rightarrow> http_hdr_cc" where
  "cc_setMask t newval cc =
     (if newval then cc\<lparr>cc_mask := cc_mask cc OR push_bit (cc_id t) 1\<rparr>
      else cc\<lparr>cc_mask := cc_mask cc AND NOT (push_bit (cc_id t) 1)\<rparr>)"

text \<open>The reference to the member is its update function.\<close>

definition cc_setValue ::
  "((int \<Rightarrow> int) \<Rightarrow> http_hdr_cc \<Rightarrow> http_hdr_cc) \<Rightarrow> int \<Rightarrow> http_hdr_cc_type \<Rightarrow> bool \<Rightarrow> http_hdr_cc \<Rightarrow> http_hdr_cc" where
  "cc_setValue member new_value hdr setting cc =
     (if setting \<and> new_value < 0 then cc
      else cc_setMask hdr setting (member (\<lambda>_. if setting then new_value else -1) cc))"

text \<open>The public setters; those of the directives without a value are \<open>cc_setMask\<close>.\<close>

definition cc_clear :: "http_hdr_cc \<Rightarrow> http_hdr_cc" where
  "cc_clear _ = HttpHdrCc"

definition cc_maxAge :: "int \<Rightarrow> http_hdr_cc \<Rightarrow> http_hdr_cc" where
  "cc_maxAge v = cc_setValue cc_max_age_update v CC_MAX_AGE True"

definition cc_sMaxAge :: "int \<Rightarrow> http_hdr_cc \<Rightarrow> http_hdr_cc" where
  "cc_sMaxAge v = cc_setValue cc_s_maxage_update v CC_S_MAXAGE True"

definition cc_maxStale :: "int \<Rightarrow> http_hdr_cc \<Rightarrow> http_hdr_cc" where
  "cc_maxStale v = cc_setValue cc_max_stale_update v CC_MAX_STALE True"

definition cc_minFresh :: "int \<Rightarrow> http_hdr_cc \<Rightarrow> http_hdr_cc" where
  "cc_minFresh v cc = (if v < 0 then cc else cc_setValue cc_min_fresh_update v CC_MIN_FRESH True cc)"

definition cc_staleIfError :: "int \<Rightarrow> http_hdr_cc \<Rightarrow> http_hdr_cc" where
  "cc_staleIfError v = cc_setValue cc_stale_if_error_update v CC_STALE_IF_ERROR True"

definition cc_Private :: "squid_string \<Rightarrow> http_hdr_cc \<Rightarrow> http_hdr_cc res" where
  "cc_Private v cc =
     res_bind (if st_defined (cc_private cc) then st_append (cc_private cc) '','' else Inr (cc_private cc)) (\<lambda>p1.
     res_bind (st_append_String p1 v) (\<lambda>p2. Inr ((cc_setMask CC_PRIVATE True cc)\<lparr>cc_private := p2\<rparr>)))"

definition cc_noCache :: "squid_string \<Rightarrow> http_hdr_cc \<Rightarrow> http_hdr_cc res" where
  "cc_noCache v cc =
     res_bind (if st_defined (cc_no_cache cc) then st_append (cc_no_cache cc) '','' else Inr (cc_no_cache cc)) (\<lambda>p1.
     res_bind (st_append_String p1 v) (\<lambda>p2. Inr ((cc_setMask CC_NO_CACHE True cc)\<lparr>cc_no_cache := p2\<rparr>)))"

definition cc_clearPrivate :: "http_hdr_cc \<Rightarrow> http_hdr_cc" where
  "cc_clearPrivate cc = (cc_setMask CC_PRIVATE False cc)\<lparr>cc_private := st_clean (cc_private cc)\<rparr>"

definition cc_clearNoCache :: "http_hdr_cc \<Rightarrow> http_hdr_cc" where
  "cc_clearNoCache cc = (cc_setMask CC_NO_CACHE False cc)\<lparr>cc_no_cache := st_clean (cc_no_cache cc)\<rparr>"

section \<open>Parsing\<close>

text \<open>
  The value of a numeric directive: \<open>None\<close> when there is no parameter, no number or a negative one.
  What the failing attempt wrote into the member is overwritten by the caller.
\<close>

definition cc_number :: "string option \<Rightarrow> int option" where
  "cc_number p = (case p of None \<Rightarrow> None
     | Some s \<Rightarrow> (case httpHeaderParseInt s of None \<Rightarrow> None | Some v \<Rightarrow> if v < 0 then None else Some v))"

definition cc_parse_number ::
  "((int \<Rightarrow> int) \<Rightarrow> http_hdr_cc \<Rightarrow> http_hdr_cc) \<Rightarrow> http_hdr_cc_type \<Rightarrow> string option \<Rightarrow> http_hdr_cc \<Rightarrow> http_hdr_cc" where
  "cc_parse_number member t p cc = (case cc_number p of
      None \<Rightarrow> cc_setValue member (-1) t False cc
    | Some v \<Rightarrow> cc_setMask t True (member (\<lambda>_. v) cc))"

definition cc_parse_max_stale :: "string option \<Rightarrow> http_hdr_cc \<Rightarrow> http_hdr_cc" where
  "cc_parse_max_stale p cc = (case cc_number p of
      None \<Rightarrow> cc_setValue cc_max_stale_update MAX_STALE_ANY CC_MAX_STALE True cc
    | Some v \<Rightarrow> cc_setMask CC_MAX_STALE True (cc\<lparr>cc_max_stale := v\<rparr>))"

definition cc_parse_private :: "string option \<Rightarrow> nat \<Rightarrow> http_hdr_cc \<Rightarrow> http_hdr_cc res" where
  "cc_parse_private p vlen cc =
     res_bind (case p of
         None \<Rightarrow> Inr (cc\<lparr>cc_private := st_clean (cc_private cc)\<rparr>)
       | Some s \<Rightarrow> res_bind (httpHeaderParseQuotedString s vlen) (\<lambda>r. case r of
           None \<Rightarrow> Inr cc
         | Some temp \<Rightarrow> res_bind (st_append_String (cc_private cc) temp) (\<lambda>v. Inr (cc\<lparr>cc_private := v\<rparr>))))
     (\<lambda>cc1. Inr (cc_setMask CC_PRIVATE True cc1))"

definition cc_parse_no_cache :: "string option \<Rightarrow> nat \<Rightarrow> http_hdr_cc \<Rightarrow> http_hdr_cc res" where
  "cc_parse_no_cache p vlen cc =
     (case p of
         None \<Rightarrow> Inr ((cc_setMask CC_NO_CACHE True cc)\<lparr>cc_no_cache := st_clean (cc_no_cache cc)\<rparr>)
       | Some s \<Rightarrow> res_bind (httpHeaderParseQuotedString s vlen) (\<lambda>r. case r of
           None \<Rightarrow> Inr cc
         | Some temp \<Rightarrow> res_bind (st_append_String (cc_no_cache cc) temp) (\<lambda>v.
             Inr ((cc_setMask CC_NO_CACHE True cc)\<lparr>cc_no_cache := v\<rparr>))))"

definition cc_parse_other :: "string \<Rightarrow> http_hdr_cc \<Rightarrow> http_hdr_cc res" where
  "cc_parse_other item cc =
     res_bind (if st_len (cc_other cc) \<noteq> 0 then st_append (cc_other cc) '', '' else Inr (cc_other cc)) (\<lambda>o1.
     res_bind (st_append o1 item) (\<lambda>o2. Inr (cc\<lparr>cc_other := o2\<rparr>)))"

definition cc_parse_directive :: "http_hdr_cc_type \<Rightarrow> string option \<Rightarrow> nat \<Rightarrow> string \<Rightarrow> http_hdr_cc \<Rightarrow> http_hdr_cc res" where
  "cc_parse_directive t p vlen item cc = (case t of
      CC_MAX_AGE \<Rightarrow> Inr (cc_parse_number cc_max_age_update CC_MAX_AGE p cc)
    | CC_S_MAXAGE \<Rightarrow> Inr (cc_parse_number cc_s_maxage_update CC_S_MAXAGE p cc)
    | CC_MAX_STALE \<Rightarrow> Inr (cc_parse_max_stale p cc)
    | CC_MIN_FRESH \<Rightarrow> Inr (cc_parse_number cc_min_fresh_update CC_MIN_FRESH p cc)
    | CC_STALE_IF_ERROR \<Rightarrow> Inr (cc_parse_number cc_stale_if_error_update CC_STALE_IF_ERROR p cc)
    | CC_PRIVATE \<Rightarrow> cc_parse_private p vlen cc
    | CC_NO_CACHE \<Rightarrow> cc_parse_no_cache p vlen cc
    | CC_OTHER \<Rightarrow> cc_parse_other item cc
    | _ \<Rightarrow> Inr (cc_setMask t True cc))"

type_synonym cc_rep = "http_hdr_cc_type \<Rightarrow> nat"

definition cc_parse_item :: "string \<times> nat \<Rightarrow> http_hdr_cc \<times> cc_rep \<Rightarrow> (http_hdr_cc \<times> cc_rep) res" where
  "cc_parse_item = (\<lambda>(item, ilen) (cc, rep).
     let eq = c_strchr (take ilen item) (CHR ''='');
         nlen = (case eq of None \<Rightarrow> ilen | Some k \<Rightarrow> k);
         p = map_option (\<lambda>k. drop (Suc k) item) eq;
         t = (case CcNameToIdMap (take nlen item) of None \<Rightarrow> CC_OTHER | Some t \<Rightarrow> t)
     in if cc_isSet cc t \<and> t \<noteq> CC_OTHER then Inr (cc, rep(t := Suc (rep t)))
        else res_bind (cc_parse_directive t p (ilen - nlen - 1) (take ilen item) cc) (\<lambda>cc1. Inr (cc1, rep)))"

fun cc_parse_items :: "(string \<times> nat) list \<Rightarrow> http_hdr_cc \<times> cc_rep \<Rightarrow> (http_hdr_cc \<times> cc_rep) res" where
  "cc_parse_items [] st = Inr st"
| "cc_parse_items (it # its) st = res_bind (cc_parse_item it st) (cc_parse_items its)"

definition cc_parse :: "cc_rep \<Rightarrow> http_hdr_cc \<Rightarrow> string \<Rightarrow> (bool \<times> http_hdr_cc \<times> cc_rep) res" where
  "cc_parse rep cc str =
     res_bind (cc_parse_items (sl_items (CHR '','') str) (cc, rep)) (\<lambda>(cc1, rep1). Inr (cc_mask cc1 \<noteq> 0, cc1, rep1))"

section \<open>Printing\<close>

definition cc_value :: "http_hdr_cc \<Rightarrow> http_hdr_cc_type \<Rightarrow> string" where
  "cc_value cc t = (case t of
      CC_MAX_AGE \<Rightarrow> CHR ''='' # show_int (cc_max_age cc)
    | CC_S_MAXAGE \<Rightarrow> CHR ''='' # show_int (cc_s_maxage cc)
    | CC_MAX_STALE \<Rightarrow> if cc_max_stale cc \<noteq> MAX_STALE_ANY then CHR ''='' # show_int (cc_max_stale cc) else []
    | CC_MIN_FRESH \<Rightarrow> CHR ''='' # show_int (cc_min_fresh cc)
    | _ \<Rightarrow> [])"

fun cc_pack_from :: "http_hdr_cc \<Rightarrow> http_hdr_cc_type list \<Rightarrow> nat \<Rightarrow> string" where
  "cc_pack_from cc [] pcount =
     (if st_len (cc_other cc) \<noteq> 0 then (if pcount \<noteq> 0 then '', '' else []) @ st_str (cc_other cc) else [])"
| "cc_pack_from cc (flag # flags) pcount =
     (if cc_isSet cc flag \<and> flag \<noteq> CC_OTHER
      then (if pcount \<noteq> 0 then '', '' else []) @ cc_name flag @ cc_value cc flag @ cc_pack_from cc flags (Suc pcount)
      else cc_pack_from cc flags pcount)"

definition cc_packInto :: "http_hdr_cc \<Rightarrow> string" where
  "cc_packInto cc = (if cc_mask cc = 0 then [] else cc_pack_from cc (map snd CcAttrs) 0)"

section \<open>Quoted strings\<close>

definition qs_inv :: "string \<Rightarrow> nat \<Rightarrow> nat \<Rightarrow> squid_string \<Rightarrow> bool" where
  "qs_inv start len pos val \<longleftrightarrow> pos \<le> length start \<and> pos \<le> Suc len \<and> st_ok val \<and> st_len val < pos"

definition qs_good :: "string \<Rightarrow> nat \<Rightarrow> (nat \<times> squid_string) option res \<Rightarrow> bool" where
  "qs_good start len r \<longleftrightarrow> (case r of Inl _ \<Rightarrow> False | Inr None \<Rightarrow> True | Inr (Some (p, v)) \<Rightarrow> qs_inv start len p v)"

lemma qs_good_simps [simp]:
  "qs_good start len (Inr None)" "\<not> qs_good start len (Inl e)"
  "qs_good start len (Inr (Some (p, v))) \<longleftrightarrow> qs_inv start len p v"
  by (simp_all add: qs_good_def)

lemma c_at_ok: "i \<le> length s \<Longrightarrow> \<exists>c. c_at s i = Inr c \<and> (c \<noteq> CHR 0x00 \<longrightarrow> i < length s)"
  by (auto simp: c_at_def)

lemma qs_run_ok:
  assumes inv: "qs_inv start len pos val" and len: "pos \<le> len" "len < 65535"
  shows "qs_good start len (qs_run start len pos val)"
proof -
  define n where "n = length (takeWhile qs_plain (take (len - pos) (drop pos start)))"
  have n: "n \<le> len - pos" "n \<le> length start - pos"
    using length_takeWhile_le [of qs_plain "take (len - pos) (drop pos start)"] by (auto simp: n_def)
  have "st_len val + length (take n (drop pos start)) < 65535" using inv len n by (auto simp: qs_inv_def)
  from st_append_ok(1) [OF _ this] inv obtain v where v: "st_append val (take n (drop pos start)) = Inr v" "st_ok v"
    "st_buf v = Some (st_str val @ take n (drop pos start))" by (auto simp: qs_inv_def)
  have "pos + n \<le> length start" using inv n(2) unfolding qs_inv_def by linarith
  from c_at_ok [OF this] obtain e where "c_at start (pos + n) = Inr e" by blast
  moreover have "qs_inv start len (pos + n) v"
    using inv v n len st_str_Some [OF v(3)] by (auto simp: qs_inv_def st_len_def)
  ultimately show ?thesis using v(1) by (simp add: qs_run_def Let_def flip: n_def)
qed

lemma qs_char_ok:
  assumes inv: "qs_inv start len pos val" and len: "pos \<le> len" "len \<le> length start" "len < 65535"
  shows "qs_good start len (qs_char start len pos val)"
proof -
  obtain c where c: "c_at start pos = Inr c" "c \<noteq> CHR 0x00 \<Longrightarrow> pos < length start"
    using c_at_ok [of pos start] inv by (auto simp: qs_inv_def)
  have esc: "qs_good start len (qs_run start len (pos + 1) val)" if "pos + 1 \<le> len"
    using that inv len by (intro qs_run_ok) (auto simp: qs_inv_def)
  have lf: "qs_good start len (res_bind (st_append val '' '') (\<lambda>val1. Inr (Some (pos + 2, val1))))"
    if d: "c_at start (pos + 1) = Inr d" "d \<noteq> CHR 0x00" "pos + 1 \<le> len" for d
  proof -
    have "st_len val + length '' '' < 65535" using inv len that(3) by (simp add: qs_inv_def)
    from st_append_ok(1) [OF _ this] inv obtain v where v: "st_append val '' '' = Inr v" "st_ok v" "st_buf v = Some (st_str val @ '' '')"
      by (auto simp: qs_inv_def)
    moreover have "pos + 1 < length start" using d by (auto simp: c_at_def split: if_splits)
    ultimately show ?thesis using inv d(3) st_str_Some [OF v(3)] by (simp add: qs_inv_def st_len_def)
  qed
  have "\<exists>d. pos < length start \<longrightarrow> c_at start (pos + 1) = Inr d" using c_at_ok [of "pos + 1" start] by (cases "pos < length start") auto
  then obtain d where "pos < length start \<longrightarrow> c_at start (pos + 1) = Inr d" by blast
  then show ?thesis
    using c esc lf [of d] qs_run_ok [OF inv len(1,3)] by (auto simp: qs_char_def)
qed

lemma qs_step_ok:
  assumes inv: "qs_inv start len pos val" and len: "pos < len" "len \<le> length start" "len < 65535"
  shows "qs_good start len (qs_step start len pos val)"
proof -
  obtain c where "c_at start pos = Inr c" using c_at_ok [of pos start] inv by (auto simp: qs_inv_def)
  moreover obtain d where "c_at start (pos + 1) = Inr d" using c_at_ok [of "pos + 1" start] len by auto
  moreover have "qs_good start len (qs_char start len (pos + 1) val)"
    using inv len by (intro qs_char_ok) (auto simp: qs_inv_def)
  ultimately show ?thesis using qs_char_ok [OF inv] len by (simp add: qs_step_def)
qed

lemma qs_loop_ok:
  assumes "qs_inv start len pos val" and "len \<le> length start" "len < 65535"
  shows "qs_good start len (qs_loop start len pos val)"
  using assms
proof (induction start len pos val rule: qs_loop.induct)
  case (1 start len pos val)
  obtain c where c: "c_at start pos = Inr c" using c_at_ok [of pos start] "1.prems"(1) by (auto simp: qs_inv_def)
  show ?case
  proof (cases "c \<noteq> CHR 0x22 \<and> len > pos")
    case True
    then have "qs_good start len (qs_step start len pos val)" using "1.prems" by (intro qs_step_ok) auto
    then consider "qs_step start len pos val = Inr None"
      | p v where "qs_step start len pos val = Inr (Some (p, v))" "qs_inv start len p v"
      by (auto simp: qs_good_def split: sum.splits option.splits)
    then show ?thesis
    proof cases
      case 1
      then show ?thesis using True c by (subst qs_loop.simps) simp
    next
      case 2
      then have "qs_good start len (qs_loop start len p v)" using "1.IH" [OF c True 2(1)] "1.prems" by auto
      then show ?thesis using True c 2(1) by (subst qs_loop.simps) simp
    qed
  next
    case False
    then show ?thesis using c "1.prems"(1) by (subst qs_loop.simps) auto
  qed
qed

text \<open>The parser neither reads outside the string nor overflows the value.\<close>

lemma quoted_ok:
  assumes "len \<le> length start" and "len < 65535"
  shows "\<exists>r. httpHeaderParseQuotedString start len = Inr r \<and>
    (\<forall>v. r = Some v \<longrightarrow> st_ok v \<and> st_defined v \<and> st_len v \<le> len)"
proof -
  have at: "\<exists>c. c_at start p = Inr c" if "p \<le> length start" for p using c_at_ok [OF that] by blast
  have "qs_inv start len 1 String0" if "start \<noteq> []"
    using that by (cases start) (simp_all add: qs_inv_def st_len_def)
  then have loop: "qs_good start len (qs_loop start len 1 String0)" if "start \<noteq> []"
    using qs_loop_ok assms that by blast
  have lim: "\<exists>s'. st_limitInit v [] = Inr s' \<and> st_ok s' \<and> st_defined s' \<and> st_len s' = 0" for v
    using st_limitInit_ok [of "[]" v] st_str_Some by (force simp: st_defined_def st_len_def)
  show ?thesis
  proof (cases "start \<noteq> [] \<and> hd start = CHR 0x22")
    case False
    then show ?thesis by (cases start) (auto simp: httpHeaderParseQuotedString_def c_at_def)
  next
    case True
    then have c: "c_at start 0 = Inr (CHR 0x22)" by (cases start) (auto simp: c_at_def)
    from True loop consider "qs_loop start len 1 String0 = Inr None"
      | p v where "qs_loop start len 1 String0 = Inr (Some (p, v))" "qs_inv start len p v"
      by (auto simp: qs_good_def split: sum.splits option.splits)
    then show ?thesis
    proof cases
      case 1
      then show ?thesis using c by (simp add: httpHeaderParseQuotedString_def)
    next
      case 2
      obtain e where "c_at start p = Inr e" using at [of p] 2(2) by (auto simp: qs_inv_def)
      then show ?thesis using 2 c lim [of v] by (auto simp: httpHeaderParseQuotedString_def qs_inv_def)
    qed
  qed
qed

lemma c_at_append: "c_at (xs @ ys) (length xs) = Inr (if ys = [] then CHR 0x00 else hd ys)"
  by (cases ys) (auto simp: c_at_def nth_append)

lemma qs_run_plain:
  assumes "\<forall>c \<in> set s. qs_plain c" and "\<not> qs_plain q" and "q \<in> {CHR 0x22, CHR 0x5C}" and "length s < 65535"
    and "length s < len"
  shows "\<exists>v. qs_run (CHR 0x22 # s @ q # t) len 1 String0 = Inr (Some (Suc (length s), v)) \<and> st_buf v = Some s \<and> st_ok v"
proof -
  have "takeWhile qs_plain (take (len - 1) (s @ q # t)) = s"
    using assms(1,2,5) by (cases "len - 1 - length s") (simp_all add: take_append takeWhile_append2)
  moreover have "c_at (CHR 0x22 # s @ q # t) (Suc (length s)) = Inr q"
    using c_at_append [of "CHR 0x22 # s" "q # t"] by simp
  moreover obtain v where "st_append String0 s = Inr v" "st_ok v" "st_buf v = Some s"
    using st_append_ok(1) [of String0 s] assms(4) by (auto simp: st_len_def)
  moreover have "\<not> ((qs_ctl q \<and> q \<noteq> CHR 0x0D \<and> q \<noteq> CHR 0x0A) \<or> q = CHR 0x7F)"
    using assms(3) by (auto simp: qs_ctl_def char_code_def)
  ultimately show ?thesis by (simp add: qs_run_def Let_def)
qed

lemma qs_loop_end: "c_at start pos = Inr (CHR 0x22) \<Longrightarrow> qs_loop start len pos val = Inr (Some (pos, val))"
  by (subst qs_loop.simps) simp

lemma qs_step_plain:
  "c_at start pos = Inr c \<Longrightarrow> qs_plain c \<Longrightarrow> qs_step start len pos val = qs_run start len pos val"
  by (auto simp: qs_step_def qs_char_def qs_plain_def qs_ctl_def char_code_def)

text \<open>An escape before a quote: the position moves to the quote, which then ends the loop.\<close>

lemma qs_escaped_quote:
  assumes "c_at start pos = Inr (CHR 0x5C)" and "c_at start (Suc pos) = Inr (CHR 0x22)" and "pos < len"
    and "st_ok val" and "st_len val < 65535"
  shows "\<exists>v. qs_loop start len pos val = Inr (Some (Suc pos, v)) \<and> st_str v = st_str val \<and> st_ok v"
proof -
  have len: "Suc pos < length start" using assms(2) by (auto simp: c_at_def split: if_splits)
  then have "drop (Suc pos) start = CHR 0x22 # drop (Suc (Suc pos)) start" using assms(2) by (rule c_at_drop [rotated])
  then have tw: "takeWhile qs_plain (take (len - Suc pos) (drop (Suc pos) start)) = []"
    by (cases "len - Suc pos") (auto simp: qs_plain_def)
  obtain v where v: "st_append val [] = Inr v" "st_ok v" "st_buf v = Some (st_str val)"
    using st_append_ok(1) [of val "[]"] assms(4,5) by auto
  have "qs_step start len pos val = Inr (Some (Suc pos, v))"
    using assms(1,2,3) tw v(1) by (simp add: qs_step_def qs_char_def qs_run_def qs_ctl_def char_code_def)
  then have "qs_loop start len pos val = qs_loop start len (Suc pos) v"
    using assms(1,3) by (subst qs_loop.simps) simp
  then show ?thesis using qs_loop_end [OF assms(2)] v st_str_Some [OF v(3)] by auto
qed

lemma qs_loop_first:
  assumes "\<forall>c \<in> set s. qs_plain c" and "\<not> qs_plain q" and "q \<in> {CHR 0x22, CHR 0x5C}" and "length s < 65535"
    and "length s < len"
  shows "\<exists>v. qs_loop (CHR 0x22 # s @ q # t) len 1 String0 = qs_loop (CHR 0x22 # s @ q # t) len (Suc (length s)) v \<and>
    st_str v = s \<and> st_ok v"
proof (cases s)
  case Nil
  then show ?thesis by (intro exI [of _ String0]) simp
next
  case (Cons c r)
  obtain v where v: "qs_run (CHR 0x22 # s @ q # t) len 1 String0 = Inr (Some (Suc (length s), v))" "st_buf v = Some s" "st_ok v"
    using qs_run_plain [OF assms] by blast
  have c: "c_at (CHR 0x22 # s @ q # t) 1 = Inr c" "qs_plain c" using Cons assms(1) by (auto simp: c_at_def)
  then have "qs_step (CHR 0x22 # s @ q # t) len 1 String0 = Inr (Some (Suc (length s), v))"
    using v(1) by (simp add: qs_step_plain)
  moreover have "1 < len" using assms(5) Cons by simp
  ultimately have "qs_loop (CHR 0x22 # s @ q # t) len 1 String0 = qs_loop (CHR 0x22 # s @ q # t) len (Suc (length s)) v"
    using c by (subst qs_loop.simps) (auto simp: qs_plain_def)
  then show ?thesis using v st_str_Some by blast
qed

lemma quoted_result:
  assumes "qs_loop (CHR 0x22 # r) len 1 String0 = Inr (Some (pos, v))" and "c_at (CHR 0x22 # r) pos = Inr (CHR 0x22)"
  shows "\<exists>w. httpHeaderParseQuotedString (CHR 0x22 # r) len = Inr (Some w) \<and> st_str w = st_str v"
proof -
  obtain w where w: "st_limitInit v [] = Inr w" "st_buf w = Some []" using st_limitInit_ok [of "[]" v] by auto
  have "c_at (CHR 0x22 # r) 0 = Inr (CHR 0x22)" by (simp add: c_at_def)
  then show ?thesis using assms w(1) st_str_Some [OF w(2)]
    by (auto simp: httpHeaderParseQuotedString_def st_defined_def st_str_def)
qed

text \<open>
  A quoted string without escapes and control characters is parsed to its contents. An escaped
  quote, however, ends the value: what follows it inside the quotes is dropped, although the parser
  is documented to un-escape quoted pairs.
\<close>

theorem quoted_string_values:
  assumes "\<forall>c \<in> set s. qs_plain c" and "length s < 65533"
  shows "(\<exists>v. httpHeaderParseQuotedString (CHR 0x22 # s @ CHR 0x22 # rest) (length s + 2) = Inr (Some v) \<and> st_str v = s) \<and>
    (\<exists>v. httpHeaderParseQuotedString (CHR 0x22 # s @ CHR 0x5C # CHR 0x22 # t) (length s + 3 + n) = Inr (Some v) \<and> st_str v = s)"
proof (intro conjI)
  let ?a = "CHR 0x22 # s @ CHR 0x22 # rest" and ?b = "CHR 0x22 # s @ CHR 0x5C # CHR 0x22 # t"
  obtain v where v: "qs_loop ?a (length s + 2) 1 String0 = qs_loop ?a (length s + 2) (Suc (length s)) v" "st_str v = s"
    using qs_loop_first [OF assms(1), of "CHR 0x22" "length s + 2" rest] assms(2) by (auto simp: qs_plain_def)
  have a: "c_at ?a (Suc (length s)) = Inr (CHR 0x22)" using c_at_append [of "CHR 0x22 # s" "CHR 0x22 # rest"] by simp
  show "\<exists>v. httpHeaderParseQuotedString ?a (length s + 2) = Inr (Some v) \<and> st_str v = s"
    using quoted_result [OF _ a, of "length s + 2" v] v qs_loop_end [OF a] by simp
  obtain u where u: "qs_loop ?b (length s + 3 + n) 1 String0 = qs_loop ?b (length s + 3 + n) (Suc (length s)) u" "st_str u = s" "st_ok u"
    using qs_loop_first [OF assms(1), of "CHR 0x5C" "length s + 3 + n" "CHR 0x22 # t"] assms(2) by (auto simp: qs_plain_def)
  have b: "c_at ?b (Suc (length s)) = Inr (CHR 0x5C)" using c_at_append [of "CHR 0x22 # s" "CHR 0x5C # CHR 0x22 # t"] by simp
  have c: "c_at ?b (Suc (Suc (length s))) = Inr (CHR 0x22)" using c_at_append [of "CHR 0x22 # s @ [CHR 0x5C]" "CHR 0x22 # t"] by simp
  obtain w where "qs_loop ?b (length s + 3 + n) (Suc (length s)) u = Inr (Some (Suc (Suc (length s)), w))" "st_str w = s"
    using qs_escaped_quote [OF b c _ u(3), of "length s + 3 + n"] u(2) assms(2) by (auto simp: st_len_def)
  then show "\<exists>v. httpHeaderParseQuotedString ?b (length s + 3 + n) = Inr (Some v) \<and> st_str v = s"
    using quoted_result [OF _ c, of "length s + 3 + n" w] u(1) by simp
qed

section \<open>Well-formed objects\<close>

lemma cc_id_less [simp]: "cc_id t < 14"
  by (cases t) simp_all

lemma cc_id_32 [simp]: "cc_id t < 32"
  by (rule less_trans [OF cc_id_less]) simp

lemma cc_mask_bit: "bit (2 ^ cc_id t :: 32 word) n \<longleftrightarrow> n = cc_id t"
  by (auto simp: bit_exp_iff)

lemma cc_id_inject [simp]: "cc_id t = cc_id t' \<longleftrightarrow> t = t'"
  by (cases t; cases t') simp_all

lemma cc_isSet_bit: "cc_isSet cc t \<longleftrightarrow> bit (cc_mask cc) (cc_id t)"
proof -
  have "bit w (cc_id t)" if "w AND 2 ^ cc_id t \<noteq> 0" for w :: "32 word"
  proof (rule ccontr)
    assume "\<not> bit w (cc_id t)"
    then have "w AND 2 ^ cc_id t = 0" by (intro bit_word_eqI) (auto simp: bit_and_iff cc_mask_bit)
    with that show False by simp
  qed
  moreover have "w AND 2 ^ cc_id t \<noteq> 0" if "bit w (cc_id t)" for w :: "32 word"
    using that by (metis bit_and_iff cc_mask_bit bit_0_eq bot_apply bot_bool_def)
  ultimately have "(w AND push_bit (cc_id t) 1 \<noteq> 0) \<longleftrightarrow> bit w (cc_id t)" for w :: "32 word" by auto
  then show ?thesis by (simp add: cc_isSet_def)
qed

lemma cc_setMask_bit: "bit (cc_mask (cc_setMask t b cc)) n \<longleftrightarrow> (if n = cc_id t then b else bit (cc_mask cc) n)"
proof -
  have "n < 32" if "bit (cc_mask cc) n" using that bit_imp_le_length [of "cc_mask cc" n] by simp
  then show ?thesis by (auto simp: cc_setMask_def bit_or_iff bit_and_iff bit_not_iff cc_mask_bit)
qed

lemma cc_isSet_setMask [simp]: "cc_isSet (cc_setMask t b cc) t' \<longleftrightarrow> (if t' = t then b else cc_isSet cc t')"
  by (auto simp: cc_isSet_bit cc_setMask_bit)

lemma cc_setMask_fields [simp]:
  "cc_max_age (cc_setMask t b cc) = cc_max_age cc" "cc_s_maxage (cc_setMask t b cc) = cc_s_maxage cc"
  "cc_max_stale (cc_setMask t b cc) = cc_max_stale cc" "cc_stale_if_error (cc_setMask t b cc) = cc_stale_if_error cc"
  "cc_min_fresh (cc_setMask t b cc) = cc_min_fresh cc" "cc_private (cc_setMask t b cc) = cc_private cc"
  "cc_no_cache (cc_setMask t b cc) = cc_no_cache cc" "cc_other (cc_setMask t b cc) = cc_other cc"
  by (simp_all add: cc_setMask_def)

lemma cc_isSet_update [simp]:
  "cc_isSet (cc\<lparr>cc_max_age := v\<rparr>) t = cc_isSet cc t" "cc_isSet (cc\<lparr>cc_s_maxage := v\<rparr>) t = cc_isSet cc t"
  "cc_isSet (cc\<lparr>cc_max_stale := v\<rparr>) t = cc_isSet cc t" "cc_isSet (cc\<lparr>cc_stale_if_error := v\<rparr>) t = cc_isSet cc t"
  "cc_isSet (cc\<lparr>cc_min_fresh := v\<rparr>) t = cc_isSet cc t" "cc_isSet (cc\<lparr>cc_private := x\<rparr>) t = cc_isSet cc t"
  "cc_isSet (cc\<lparr>cc_no_cache := x\<rparr>) t = cc_isSet cc t" "cc_isSet (cc\<lparr>cc_other := x\<rparr>) t = cc_isSet cc t"
  by (simp_all add: cc_isSet_def)

text \<open>A numeric directive has a value that fits an \<^verbatim>\<open>int32_t\<close> when it is set and is -1 otherwise.\<close>

definition cc_num_ok :: "bool \<Rightarrow> int \<Rightarrow> bool" where
  "cc_num_ok b v \<longleftrightarrow> (if b then 0 \<le> v \<and> v < 2 ^ 31 else v = -1)"

definition cc_list_ok :: "bool \<Rightarrow> squid_string \<Rightarrow> bool" where
  "cc_list_ok b s \<longleftrightarrow> st_ok s \<and> (b \<or> \<not> st_defined s)"

definition cc_ok :: "http_hdr_cc \<Rightarrow> bool" where
  "cc_ok cc \<longleftrightarrow> take_bit 13 (cc_mask cc) = cc_mask cc \<and>
     cc_num_ok (cc_isSet cc CC_MAX_AGE) (cc_max_age cc) \<and> cc_num_ok (cc_isSet cc CC_S_MAXAGE) (cc_s_maxage cc) \<and>
     cc_num_ok (cc_isSet cc CC_MAX_STALE) (cc_max_stale cc) \<and>
     cc_num_ok (cc_isSet cc CC_STALE_IF_ERROR) (cc_stale_if_error cc) \<and>
     cc_num_ok (cc_isSet cc CC_MIN_FRESH) (cc_min_fresh cc) \<and>
     cc_list_ok (cc_isSet cc CC_PRIVATE) (cc_private cc) \<and> cc_list_ok (cc_isSet cc CC_NO_CACHE) (cc_no_cache cc) \<and>
     st_ok (cc_other cc)"

lemma cc_num_simps [simp]: "cc_num_ok True v \<longleftrightarrow> 0 \<le> v \<and> v < 2 ^ 31" "cc_num_ok False v \<longleftrightarrow> v = -1"
  by (auto simp: cc_num_ok_def)

lemma cc_list_simps [simp]: "cc_list_ok True s \<longleftrightarrow> st_ok s" "cc_list_ok False s \<longleftrightarrow> st_ok s \<and> \<not> st_defined s"
  by (auto simp: cc_list_ok_def)

lemma cc_mask_ok: "t \<noteq> CC_OTHER \<Longrightarrow> take_bit 13 (cc_mask cc) = cc_mask cc \<Longrightarrow>
  take_bit 13 (cc_mask (cc_setMask t b cc)) = cc_mask (cc_setMask t b cc)"
proof -
  assume t: "t \<noteq> CC_OTHER" and ok: "take_bit 13 (cc_mask cc) = cc_mask cc"
  have "cc_id t < 13" using t by (cases t) simp_all
  moreover have "bit (cc_mask cc) n \<Longrightarrow> n < 13" for n using ok by (metis bit_take_bit_iff)
  ultimately show ?thesis by (intro bit_word_eqI) (auto simp: bit_take_bit_iff cc_setMask_bit)
qed

lemma HttpHdrCc_ok: "cc_ok HttpHdrCc"
  by (simp add: cc_ok_def HttpHdrCc_def cc_isSet_def)

lemma cc_number_range: "cc_number p = Some v \<Longrightarrow> 0 \<le> v \<and> v < 2 ^ 31"
proof -
  have "to_int32 x < 2 ^ 31" for x unfolding to_int32_def using signed_take_bit_int_less_exp [of 31 x] by simp
  then show "cc_number p = Some v \<Longrightarrow> 0 \<le> v \<and> v < 2 ^ 31"
    by (auto simp: cc_number_def httpHeaderParseInt_def c_atoi_def Let_def split: option.splits if_splits)
qed

lemma st_append_String_ok:
  assumes "st_ok s" "\<not> st_defined s" "st_ok t" "st_defined t"
  shows "\<exists>s'. st_append_String s t = Inr s' \<and> st_ok s' \<and> st_str s' = st_str t"
proof -
  have s: "st_str s = []" using assms(2) by (simp add: st_defined_def st_str_def)
  have "st_len t < 65535" using assms(3,4) by (auto simp: st_ok_def st_defined_def st_len_def st_str_def split: option.splits)
  then obtain s' where "st_append s (st_str t) = Inr s'" "st_ok s'" "st_buf s' = Some (st_str t)"
    using st_append_ok(1) [OF assms(1), of "st_str t"] s by (auto simp: st_len_def)
  then show ?thesis using assms(4) st_str_Some by (auto simp: st_append_String_def)
qed

definition cc_room :: "http_hdr_cc \<Rightarrow> nat" where
  "cc_room cc = (if st_len (cc_other cc) = 0 then 0 else st_len (cc_other cc) + 2)"

lemma cc_parse_other_ok:
  assumes "cc_ok cc" and "item \<noteq> []"
  shows "cc_room cc + length item < 65535 \<Longrightarrow> \<exists>o1. cc_parse_other item cc = Inr (cc\<lparr>cc_other := o1\<rparr>) \<and> st_ok o1 \<and>
      st_str o1 = (if st_len (cc_other cc) = 0 then item else st_str (cc_other cc) @ '', '' @ item)"
    and "\<not> cc_room cc + length item < 65535 \<Longrightarrow> cc_parse_other item cc = Inl Assertion"
proof -
  have ok: "st_ok (cc_other cc)" using assms(1) by (simp add: cc_ok_def)
  show "\<exists>o1. cc_parse_other item cc = Inr (cc\<lparr>cc_other := o1\<rparr>) \<and> st_ok o1 \<and>
      st_str o1 = (if st_len (cc_other cc) = 0 then item else st_str (cc_other cc) @ '', '' @ item)"
    if room: "cc_room cc + length item < 65535"
  proof (cases "st_len (cc_other cc) = 0")
    case True
    then obtain o1 where "st_append (cc_other cc) item = Inr o1" "st_ok o1" "st_buf o1 = Some (st_str (cc_other cc) @ item)"
      using st_append_ok(1) [OF ok, of item] room by (auto simp: cc_room_def)
    then show ?thesis using True st_str_Some by (auto simp: cc_parse_other_def st_len_def)
  next
    case False
    then obtain o1 where o1: "st_append (cc_other cc) '', '' = Inr o1" "st_ok o1" "st_buf o1 = Some (st_str (cc_other cc) @ '', '')"
      using st_append_ok(1) [OF ok, of "'', ''"] room by (auto simp: cc_room_def)
    then have "st_len o1 + length item < 65535" using False room st_str_Some [OF o1(3)] by (simp add: cc_room_def st_len_def)
    then obtain o2 where "st_append o1 item = Inr o2" "st_ok o2" "st_buf o2 = Some (st_str o1 @ item)"
      using st_append_ok(1) [OF o1(2)] by blast
    then show ?thesis using False o1 st_str_Some by (auto simp: cc_parse_other_def)
  qed
  show "cc_parse_other item cc = Inl Assertion" if room: "\<not> cc_room cc + length item < 65535"
  proof (cases "st_len (cc_other cc) = 0")
    case True
    then show ?thesis using st_append_ok(2) [OF ok, of item] room by (simp add: cc_parse_other_def cc_room_def)
  next
    case False
    show ?thesis
    proof (cases "st_len (cc_other cc) + 2 < 65535")
      case True
      then obtain o1 where o1: "st_append (cc_other cc) '', '' = Inr o1" "st_ok o1" "st_buf o1 = Some (st_str (cc_other cc) @ '', '')"
        using st_append_ok(1) [OF ok, of "'', ''"] by auto
      then have "\<not> st_len o1 + length item < 65535" using False room st_str_Some [OF o1(3)] by (simp add: cc_room_def st_len_def)
      then show ?thesis using False o1(1) st_append_ok(2) [OF o1(2)] by (simp add: cc_parse_other_def)
    next
      case small: False
      then show ?thesis using False st_append_ok(2) [OF ok, of "'', ''"] by (simp add: cc_parse_other_def)
    qed
  qed
qed

lemma cc_ok_setMask:
  "cc_ok cc \<Longrightarrow> t \<in> {CC_PUBLIC, CC_NO_STORE, CC_NO_TRANSFORM, CC_MUST_REVALIDATE, CC_PROXY_REVALIDATE, CC_ONLY_IF_CACHED} \<Longrightarrow>
   cc_ok (cc_setMask t True cc)"
  using cc_mask_ok [of t cc True] by (auto simp: cc_ok_def)

lemma cc_parse_number_ok:
  assumes "cc_ok cc" and "(member, t) \<in> {(cc_max_age_update, CC_MAX_AGE), (cc_s_maxage_update, CC_S_MAXAGE),
     (cc_min_fresh_update, CC_MIN_FRESH), (cc_stale_if_error_update, CC_STALE_IF_ERROR)}"
  shows "cc_ok (cc_parse_number member t p cc)" and "cc_other (cc_parse_number member t p cc) = cc_other cc"
  using assms cc_number_range [of p] cc_mask_ok [of t "member (\<lambda>_. v) cc" b for v b]
  by (auto simp: cc_parse_number_def cc_setValue_def cc_ok_def split: option.split)

lemma cc_setters_ok:
  assumes "cc_ok cc" and "v < 2 ^ 31"
  shows "cc_ok (cc_clear cc)" "cc_ok (cc_maxAge v cc)" "cc_ok (cc_sMaxAge v cc)" "cc_ok (cc_maxStale v cc)" "cc_ok (cc_minFresh v cc)"
    "cc_ok (cc_staleIfError v cc)" "cc_ok (cc_clearPrivate cc)" "cc_ok (cc_clearNoCache cc)"
  using assms HttpHdrCc_ok cc_mask_ok [of _ "cc\<lparr>cc_max_age := v\<rparr>" True] cc_mask_ok [of _ "cc\<lparr>cc_s_maxage := v\<rparr>" True]
    cc_mask_ok [of _ "cc\<lparr>cc_max_stale := v\<rparr>" True] cc_mask_ok [of _ "cc\<lparr>cc_min_fresh := v\<rparr>" True]
    cc_mask_ok [of _ "cc\<lparr>cc_stale_if_error := v\<rparr>" True] cc_mask_ok [of _ cc False]
  by (auto simp: cc_ok_def cc_clear_def cc_maxAge_def cc_sMaxAge_def cc_maxStale_def cc_minFresh_def cc_staleIfError_def
      cc_clearPrivate_def cc_clearNoCache_def cc_setValue_def)

lemma cc_parse_max_stale_ok:
  assumes "cc_ok cc"
  shows "cc_ok (cc_parse_max_stale p cc)" and "cc_other (cc_parse_max_stale p cc) = cc_other cc"
  using assms cc_number_range [of p] cc_mask_ok [of CC_MAX_STALE "cc\<lparr>cc_max_stale := v\<rparr>" b for v b]
  by (auto simp: cc_parse_max_stale_def cc_setValue_def cc_ok_def MAX_STALE_ANY_def split: option.split)

lemma cc_parse_lists_ok:
  assumes "cc_ok cc" and "\<And>s. p = Some s \<Longrightarrow> vlen \<le> length s" and "vlen < 65535"
  shows "\<not> cc_isSet cc CC_PRIVATE \<Longrightarrow> \<exists>cc'. cc_parse_private p vlen cc = Inr cc' \<and> cc_ok cc' \<and> cc_other cc' = cc_other cc"
    and "\<not> cc_isSet cc CC_NO_CACHE \<Longrightarrow> \<exists>cc'. cc_parse_no_cache p vlen cc = Inr cc' \<and> cc_ok cc' \<and> cc_other cc' = cc_other cc"
proof -
  have q: "\<exists>r. httpHeaderParseQuotedString s vlen = Inr r \<and> (\<forall>v. r = Some v \<longrightarrow> st_ok v \<and> st_defined v)"
    if "p = Some s" for s using quoted_ok [OF assms(2) [OF that] assms(3)] by blast
  have m: "take_bit 13 (cc_mask (cc_setMask t True c)) = cc_mask (cc_setMask t True c)"
    if "t \<noteq> CC_OTHER" "cc_mask c = cc_mask cc" for t c
    using cc_mask_ok [OF that(1), of c True] assms(1) that(2) by (simp add: cc_ok_def)
  show "\<exists>cc'. cc_parse_private p vlen cc = Inr cc' \<and> cc_ok cc' \<and> cc_other cc' = cc_other cc" if "\<not> cc_isSet cc CC_PRIVATE"
  proof (cases p)
    case None
    then show ?thesis using assms(1) m that by (auto simp: cc_parse_private_def cc_ok_def)
  next
    case (Some s)
    from q [OF this] obtain r where r: "httpHeaderParseQuotedString s vlen = Inr r"
      "\<And>v. r = Some v \<Longrightarrow> st_ok v \<and> st_defined v" by blast
    have "\<exists>x. st_append_String (cc_private cc) v = Inr x \<and> st_ok x" if "r = Some v" for v
      using st_append_String_ok [of "cc_private cc" v] r(2) [OF that] assms(1) \<open>\<not> cc_isSet cc CC_PRIVATE\<close> by (auto simp: cc_ok_def)
    then show ?thesis using Some r assms(1) m that by (cases r) (auto simp: cc_parse_private_def cc_ok_def)
  qed
  show "\<exists>cc'. cc_parse_no_cache p vlen cc = Inr cc' \<and> cc_ok cc' \<and> cc_other cc' = cc_other cc" if "\<not> cc_isSet cc CC_NO_CACHE"
  proof (cases p)
    case None
    then show ?thesis using assms(1) m that by (auto simp: cc_parse_no_cache_def cc_ok_def)
  next
    case (Some s)
    from q [OF this] obtain r where r: "httpHeaderParseQuotedString s vlen = Inr r"
      "\<And>v. r = Some v \<Longrightarrow> st_ok v \<and> st_defined v" by blast
    have "\<exists>x. st_append_String (cc_no_cache cc) v = Inr x \<and> st_ok x" if "r = Some v" for v
      using st_append_String_ok [of "cc_no_cache cc" v] r(2) [OF that] assms(1) \<open>\<not> cc_isSet cc CC_NO_CACHE\<close> by (auto simp: cc_ok_def)
    then show ?thesis using Some r assms(1) m that by (cases r) (auto simp: cc_parse_no_cache_def cc_ok_def)
  qed
qed

lemma cc_parse_directive_ok:
  assumes ok: "cc_ok cc" and new: "cc_isSet cc t \<Longrightarrow> t = CC_OTHER"
    and p: "\<And>s. p = Some s \<Longrightarrow> vlen \<le> length s" "vlen < 65535"
    and item: "item \<noteq> []" "cc_room cc + length item < 65535"
  shows "\<exists>cc'. cc_parse_directive t p vlen item cc = Inr cc' \<and> cc_ok cc' \<and> cc_room cc' \<le> cc_room cc + length item + 2"
proof (cases "t = CC_OTHER")
  case True
  obtain o1 where o1: "cc_parse_other item cc = Inr (cc\<lparr>cc_other := o1\<rparr>)" "st_ok o1"
      "st_str o1 = (if st_len (cc_other cc) = 0 then item else st_str (cc_other cc) @ '', '' @ item)"
    using cc_parse_other_ok(1) [OF ok item] by blast
  then have "cc_ok (cc\<lparr>cc_other := o1\<rparr>)" using ok by (simp add: cc_ok_def)
  then show ?thesis using True o1 by (auto simp: cc_parse_directive_def cc_room_def st_len_def)
next
  case False
  have "\<exists>cc'. cc_parse_directive t p vlen item cc = Inr cc' \<and> cc_ok cc' \<and> cc_other cc' = cc_other cc"
    using False new ok cc_parse_lists_ok [OF ok p] cc_parse_max_stale_ok [OF ok]
    by (cases t) (auto simp: cc_parse_directive_def intro: cc_ok_setMask cc_parse_number_ok)
  then show ?thesis by (auto simp: cc_room_def)
qed

lemma cc_parse_item_ok:
  assumes ok: "cc_ok cc" and len: "0 < ilen" "ilen \<le> length item" and room: "cc_room cc + ilen < 65535"
  shows "\<exists>cc' rep'. cc_parse_item (item, ilen) (cc, rep) = Inr (cc', rep') \<and> cc_ok cc' \<and> cc_room cc' \<le> cc_room cc + ilen + 2"
proof -
  define eq where "eq = c_strchr (take ilen item) (CHR ''='')"
  define nlen where "nlen = (case eq of None \<Rightarrow> ilen | Some k \<Rightarrow> k)"
  define p where "p = map_option (\<lambda>k. drop (Suc k) item) eq"
  define t where "t = (case CcNameToIdMap (take nlen item) of None \<Rightarrow> CC_OTHER | Some t \<Rightarrow> t)"
  have "ilen - nlen - 1 \<le> length s" if "p = Some s" for s
    using that len by (auto simp: p_def nlen_def split: option.splits)
  then have "\<exists>cc'. cc_parse_directive t p (ilen - nlen - 1) (take ilen item) cc = Inr cc' \<and> cc_ok cc' \<and>
      cc_room cc' \<le> cc_room cc + length (take ilen item) + 2" if "cc_isSet cc t \<Longrightarrow> t = CC_OTHER"
    using that len room by (intro cc_parse_directive_ok [OF ok]) auto
  moreover have "cc_parse_item (item, ilen) (cc, rep) = (if cc_isSet cc t \<and> t \<noteq> CC_OTHER then Inr (cc, rep(t := Suc (rep t)))
      else res_bind (cc_parse_directive t p (ilen - nlen - 1) (take ilen item) cc) (\<lambda>cc1. Inr (cc1, rep)))"
    by (simp add: cc_parse_item_def Let_def eq_def nlen_def p_def t_def)
  ultimately show ?thesis using ok len by (cases "cc_isSet cc t \<and> t \<noteq> CC_OTHER") auto
qed

lemma cc_parse_items_ok:
  assumes "cc_ok cc" and "\<forall>(item, len) \<in> set its. 0 < len \<and> len \<le> length item"
    and "cc_room cc + (\<Sum>(item, len) \<leftarrow> its. len + 2) \<le> 65536"
  shows "\<exists>cc' rep'. cc_parse_items its (cc, rep) = Inr (cc', rep') \<and> cc_ok cc'"
  using assms
proof (induction its arbitrary: cc rep)
  case (Cons it its)
  obtain item len where it: "it = (item, len)" by (cases it)
  have "\<exists>cc' rep'. cc_parse_item (item, len) (cc, rep) = Inr (cc', rep') \<and> cc_ok cc' \<and> cc_room cc' \<le> cc_room cc + len + 2"
    using Cons.prems it by (intro cc_parse_item_ok) auto
  then obtain cc1 rep1 where 1: "cc_parse_item it (cc, rep) = Inr (cc1, rep1)" "cc_ok cc1" "cc_room cc1 \<le> cc_room cc + len + 2"
    using it by blast
  have "\<exists>cc' rep'. cc_parse_items its (cc1, rep1) = Inr (cc', rep') \<and> cc_ok cc'"
    using Cons.prems 1(2,3) it by (intro Cons.IH) auto
  then show ?case using 1(1) by simp
qed simp

lemma cc_parse_total:
  assumes "length str \<le> 43689"
  shows "\<exists>cc' rep'. cc_parse rep HttpHdrCc str = Inr (cc_mask cc' \<noteq> 0, cc', rep') \<and> cc_ok cc'"
proof -
  let ?its = "sl_items (CHR '','') str"
  have "(\<Sum>(item, len) \<leftarrow> ?its. len + 1) \<le> length str + 1" using sl_items_total [of "CHR '',''" str] by simp
  moreover have "2 * (\<Sum>(item, len) \<leftarrow> its. len + 2) \<le> 3 * (\<Sum>(item, len) \<leftarrow> its. len + 1)"
    if "\<forall>(item, len) \<in> set its. 0 < len" for its :: "(string \<times> nat) list"
    using that by (induction its) auto
  then have "2 * (\<Sum>(item, len) \<leftarrow> ?its. len + 2) \<le> 3 * (\<Sum>(item, len) \<leftarrow> ?its. len + 1)"
    using sl_items_lengths by blast
  ultimately have "cc_room HttpHdrCc + (\<Sum>(item, len) \<leftarrow> ?its. len + 2) \<le> 65536"
    using assms by (simp add: cc_room_def HttpHdrCc_def st_len_def)
  then have "\<exists>cc' rep'. cc_parse_items ?its (HttpHdrCc, rep) = Inr (cc', rep') \<and> cc_ok cc'"
    using sl_items_lengths by (intro cc_parse_items_ok [OF HttpHdrCc_ok]) auto
  then show ?thesis by (auto simp: cc_parse_def)
qed

definition many_items :: "nat \<Rightarrow> string" where
  "many_items n = concat (replicate n ''a,'')"

lemma token_a: "sl_token (CHR '','') ''a''"
  by (simp add: sl_token_def sl_skip_def c_isspace_def char_code_def)

lemma sl_items_many:
  "sl_items (CHR '','') (many_items (Suc n)) = (CHR ''a'' # CHR '','' # many_items n, 1) # sl_items (CHR '','') (CHR '','' # many_items n)"
  "sl_items (CHR '','') (CHR '','' # many_items (Suc n)) = (CHR ''a'' # CHR '','' # many_items n, 1) # sl_items (CHR '','') (CHR '','' # many_items n)"
proof -
  have m: "many_items (Suc n) = ''a'' @ CHR '','' # many_items n" by (simp add: many_items_def)
  show "sl_items (CHR '','') (many_items (Suc n)) = (CHR ''a'' # CHR '','' # many_items n, 1) # sl_items (CHR '','') (CHR '','' # many_items n)"
    using strListGetItem_token [OF token_a, of "CHR '','' # many_items n" "[]"] by (intro sl_items_more) (simp add: m)
  show "sl_items (CHR '','') (CHR '','' # many_items (Suc n)) = (CHR ''a'' # CHR '','' # many_items n, 1) # sl_items (CHR '','') (CHR '','' # many_items n)"
    using strListGetItem_token [OF token_a, of "CHR '','' # many_items n" "'',''"] by (intro sl_items_more) (simp add: m sl_skip_def)
qed

lemma cc_parse_item_a: "cc_parse_item (CHR ''a'' # r, 1) (cc, rep) = res_bind (cc_parse_other ''a'' cc) (\<lambda>cc1. Inr (cc1, rep))"
  by (simp add: cc_parse_item_def c_strchr_def CcNameToIdMap_def CcAttrs_def cc_parse_directive_def)

lemma cc_parse_many:
  assumes "cc_ok cc" and "65537 \<le> cc_room cc + 3 * n"
  shows "cc_parse_items (sl_items (CHR '','') (CHR '','' # many_items n)) (cc, rep) = Inl Assertion"
  using assms
proof (induction n arbitrary: cc)
  case 0
  then have "st_len (cc_other cc) < 65535"
    by (auto simp: cc_ok_def st_ok_def st_len_def st_str_def split: option.splits)
  then show ?case using 0 by (simp add: cc_room_def split: if_splits)
next
  case (Suc n)
  show ?case
  proof (cases "cc_room cc + length ''a'' < 65535")
    case True
    then obtain o1 where o1: "cc_parse_other ''a'' cc = Inr (cc\<lparr>cc_other := o1\<rparr>)" "st_ok o1"
      "st_str o1 = (if st_len (cc_other cc) = 0 then ''a'' else st_str (cc_other cc) @ '', '' @ ''a'')"
      using cc_parse_other_ok(1) [OF Suc.prems(1)] by blast
    have "cc_ok (cc\<lparr>cc_other := o1\<rparr>)" using Suc.prems(1) o1(2) by (simp add: cc_ok_def)
    moreover have "cc_room (cc\<lparr>cc_other := o1\<rparr>) = cc_room cc + 3" using o1(3) by (auto simp: cc_room_def st_len_def)
    ultimately have "cc_parse_items (sl_items (CHR '','') (CHR '','' # many_items n)) (cc\<lparr>cc_other := o1\<rparr>, rep) = Inl Assertion"
      using Suc by auto
    then show ?thesis using o1(1) by (simp add: sl_items_many cc_parse_item_a [simplified])
  next
    case False
    then have "cc_parse_other ''a'' cc = Inl Assertion" using cc_parse_other_ok(2) [OF Suc.prems(1)] by blast
    then show ?thesis by (simp add: sl_items_many cc_parse_item_a [simplified])
  qed
qed

text \<open>
  Parsing a \<^verbatim>\<open>Cache-Control\<close> field of at most 43689 bytes never fails an assertion and gives a
  well-formed object, whatever the field holds. The bound is there because every unknown directive is
  copied behind two separator bytes into a string of at most 65534 bytes: a field of 21846 one-letter
  directives, 43692 bytes and so within the size of header the parser accepts, fails the assertion.
\<close>

theorem cc_parse_total_and_limit:
  "(length str \<le> 43689 \<longrightarrow>
     (\<exists>cc' rep'. cc_parse rep HttpHdrCc str = Inr (cc_mask cc' \<noteq> 0, cc', rep') \<and> cc_ok cc')) \<and>
   cc_parse rep HttpHdrCc (concat (replicate 21846 ''a,'')) = Inl Assertion"
proof -
  obtain o1 where o1: "cc_parse_other ''a'' HttpHdrCc = Inr (HttpHdrCc\<lparr>cc_other := o1\<rparr>)" "st_ok o1" "st_str o1 = ''a''"
    using cc_parse_other_ok(1) [OF HttpHdrCc_ok, of "''a''"] by (auto simp: cc_room_def HttpHdrCc_def st_len_def)
  have "cc_ok (HttpHdrCc\<lparr>cc_other := o1\<rparr>)" using HttpHdrCc_ok o1(2) by (simp add: cc_ok_def)
  moreover have "cc_room (HttpHdrCc\<lparr>cc_other := o1\<rparr>) = 3" using o1(3) by (simp add: cc_room_def st_len_def)
  ultimately have "cc_parse_items (sl_items (CHR '','') (CHR '','' # many_items 21845)) (HttpHdrCc\<lparr>cc_other := o1\<rparr>, rep) = Inl Assertion"
    by (intro cc_parse_many) simp_all
  then have "cc_parse_items (sl_items (CHR '','') (many_items (Suc 21845))) (HttpHdrCc, rep) = Inl Assertion"
    by (simp only: sl_items_many(1) cc_parse_items.simps cc_parse_item_a o1(1) res_bind_simps)
  then have "cc_parse rep HttpHdrCc (many_items 21846) = Inl Assertion" by (simp add: cc_parse_def)
  then show ?thesis using cc_parse_total by (simp add: many_items_def)
qed

section \<open>Printing and parsing back\<close>

definition lead_join :: "string list \<Rightarrow> string" where
  "lead_join ts = concat (map (\<lambda>t. '', '' @ t) ts)"

fun cc_join :: "string list \<Rightarrow> string" where
  "cc_join [] = []"
| "cc_join (t # ts) = t @ lead_join ts"

fun tok_items :: "string list \<Rightarrow> (string \<times> nat) list" where
  "tok_items [] = []"
| "tok_items (t # ts) = (t @ lead_join ts, length t) # tok_items ts"

lemma lead_join_simps [simp]: "lead_join [] = []" "lead_join (t # ts) = '', '' @ t @ lead_join ts"
  by (simp_all add: lead_join_def)

lemma lead_join_hd: "lead_join ts = [] \<or> hd (lead_join ts) = CHR '',''"
  by (cases ts) simp_all

lemma sl_items_join:
  assumes "\<forall>t \<in> set ts. sl_token (CHR '','') t"
  shows "sl_items (CHR '','') (lead_join ts) = tok_items ts" and "sl_items (CHR '','') (cc_join ts) = tok_items ts"
proof -
  show *: "sl_items (CHR '','') (lead_join ts) = tok_items ts" using assms
  proof (induction ts)
    case Nil
    then show ?case by (subst sl_items.simps) simp
  next
    case (Cons t ts)
    have "strListGetItem (CHR '','') ('', '' @ t @ lead_join ts) = (Some (t @ lead_join ts, length t), lead_join ts)"
      using Cons.prems lead_join_hd [of ts] by (intro strListGetItem_token) (auto simp: sl_skip_def)
    then show ?case using Cons sl_items_more by force
  qed
  show "sl_items (CHR '','') (cc_join ts) = tok_items ts"
  proof (cases ts)
    case Nil
    then show ?thesis by (subst sl_items.simps) simp
  next
    case (Cons t r)
    have "strListGetItem (CHR '','') ([] @ t @ lead_join r) = (Some (t @ lead_join r, length t), lead_join r)"
      using assms Cons lead_join_hd [of r] by (intro strListGetItem_token) auto
    moreover have "strListGetItem (CHR '','') ('', '' @ t @ lead_join r) = (Some (t @ lead_join r, length t), lead_join r)"
      using assms Cons lead_join_hd [of r] by (intro strListGetItem_token) (auto simp: sl_skip_def)
    ultimately show ?thesis using * Cons by (simp add: sl_items_more)
  qed
qed

text \<open>What parsing one printed directive does to the object.\<close>

definition cc_tok :: "http_hdr_cc \<Rightarrow> http_hdr_cc_type \<Rightarrow> string" where
  "cc_tok cc t = cc_name t @ cc_value cc t"

definition cc_copy :: "http_hdr_cc \<Rightarrow> http_hdr_cc_type \<Rightarrow> http_hdr_cc \<Rightarrow> http_hdr_cc" where
  "cc_copy cc t s = cc_setMask t True (case t of
      CC_MAX_AGE \<Rightarrow> s\<lparr>cc_max_age := cc_max_age cc\<rparr>
    | CC_S_MAXAGE \<Rightarrow> s\<lparr>cc_s_maxage := cc_s_maxage cc\<rparr>
    | CC_MAX_STALE \<Rightarrow> s\<lparr>cc_max_stale := cc_max_stale cc\<rparr>
    | CC_MIN_FRESH \<Rightarrow> s\<lparr>cc_min_fresh := cc_min_fresh cc\<rparr>
    | CC_PRIVATE \<Rightarrow> s\<lparr>cc_private := st_clean (cc_private s)\<rparr>
    | CC_NO_CACHE \<Rightarrow> s\<lparr>cc_no_cache := st_clean (cc_no_cache s)\<rparr>
    | _ \<Rightarrow> s)"

lemma cc_name_eq: "CHR ''='' \<notin> set (cc_name t)"
  by (cases t) (simp_all add: cc_name_def CcAttrs_def)

lemma cc_name_map: "t \<noteq> CC_OTHER \<Longrightarrow> CcNameToIdMap (cc_name t) = Some t"
  by (cases t) (simp_all add: cc_name_def CcAttrs_def CcNameToIdMap_def)

lemma parse_plain_name:
  assumes "t \<noteq> CC_OTHER" and "\<not> cc_isSet s t"
  shows "cc_parse_item (cc_name t @ rest, length (cc_name t)) (s, rep) =
    res_bind (cc_parse_directive t None (0 - 1) (cc_name t) s) (\<lambda>cc1. Inr (cc1, rep))"
  using assms by (simp add: cc_parse_item_def Let_def c_strchr_none cc_name_eq cc_name_map)

lemma parse_name_value:
  assumes "t \<noteq> CC_OTHER" and "\<not> cc_isSet s t"
  shows "cc_parse_item ((cc_name t @ CHR ''='' # v) @ rest, length (cc_name t @ CHR ''='' # v)) (s, rep) =
    res_bind (cc_parse_directive t (Some (v @ rest)) (length v) (cc_name t @ CHR ''='' # v) s) (\<lambda>cc1. Inr (cc1, rep))"
  using assms by (simp add: cc_parse_item_def Let_def c_strchr_append cc_name_eq cc_name_map)

lemma parse_number_back:
  assumes "0 \<le> v" "v < 2 ^ 31" and "rest = [] \<or> hd rest = CHR '',''"
  shows "cc_number (Some (show_int v @ rest)) = Some v"
proof -
  have "c_strtoll (show_nat (nat v) @ rest) = (int (nat v), Some rest)"
    using assms by (intro c_strtoll_show) (auto simp: c_isdigit_def char_code_def int64_max_def)
  moreover have "show_nat (nat v) @ rest \<noteq> []" "c_isdigit (hd (show_nat (nat v) @ rest))"
    using show_nat_digits [of "nat v"] by (cases "show_nat (nat v)"; simp)+
  ultimately show ?thesis using assms(1,2) by (simp add: cc_number_def httpHeaderParseInt_def c_atoi_def show_int_def)
qed

lemma parse_tok:
  assumes "cc_ok cc" "cc_isSet cc t" "t \<noteq> CC_OTHER" "t \<noteq> CC_STALE_IF_ERROR" and "\<not> cc_isSet s t"
    and rest: "rest = [] \<or> hd rest = CHR '',''"
  shows "cc_parse_item (cc_tok cc t @ rest, length (cc_tok cc t)) (s, rep) = Inr (cc_copy cc t s, rep)"
proof (cases "cc_value cc t")
  case Nil
  then show ?thesis using parse_plain_name [OF assms(3,5)] assms(3,4) unfolding cc_tok_def
    by (cases t) (simp_all add: cc_parse_directive_def cc_copy_def cc_value_def cc_parse_private_def cc_parse_no_cache_def
      cc_parse_max_stale_def cc_number_def cc_setValue_def MAX_STALE_ANY_def cc_setMask_def split: if_splits)
next
  case (Cons e v)
  have num: "cc_number (Some (show_int x @ rest)) = Some x" if "cc_num_ok True x" for x
    using parse_number_back [OF _ _ rest] that by simp
  have "e = CHR ''=''" using Cons by (cases t) (auto simp: cc_value_def split: if_splits)
  then show ?thesis using parse_name_value [OF assms(3,5), of v] assms(1,2) Cons num unfolding cc_tok_def
    by (cases t) (auto simp: cc_parse_directive_def cc_copy_def cc_value_def cc_ok_def
      cc_parse_max_stale_def cc_parse_number_def split: if_splits)
qed

lemma parse_toks:
  assumes "cc_ok cc" and "\<forall>t \<in> set fs. cc_isSet cc t \<and> t \<noteq> CC_OTHER \<and> t \<noteq> CC_STALE_IF_ERROR \<and> \<not> cc_isSet s t" and "distinct fs"
  shows "cc_parse_items (tok_items (map (cc_tok cc) fs @ os)) (s, rep) = cc_parse_items (tok_items os) (fold (cc_copy cc) fs s, rep)"
  using assms(2,3)
proof (induction fs arbitrary: s)
  case (Cons t fs)
  have keep: "cc_isSet (cc_copy cc t s) t' = cc_isSet s t'" if "t' \<noteq> t" for t'
    using that by (cases t) (simp_all add: cc_copy_def)
  have "cc_parse_item (cc_tok cc t @ lead_join (map (cc_tok cc) fs @ os), length (cc_tok cc t)) (s, rep) = Inr (cc_copy cc t s, rep)"
    using Cons.prems by (intro parse_tok assms(1) lead_join_hd) auto
  moreover have "cc_parse_items (tok_items (map (cc_tok cc) fs @ os)) (cc_copy cc t s, rep) =
      cc_parse_items (tok_items os) (fold (cc_copy cc) fs (cc_copy cc t s), rep)"
  proof (rule Cons.IH)
    show "\<forall>t' \<in> set fs. cc_isSet cc t' \<and> t' \<noteq> CC_OTHER \<and> t' \<noteq> CC_STALE_IF_ERROR \<and> \<not> cc_isSet (cc_copy cc t s) t'"
      using Cons.prems keep by (metis distinct.simps(2) list.set_intros(2))
  qed (use Cons.prems in simp)
  ultimately show ?case by simp
qed simp

definition cc_flags :: "http_hdr_cc \<Rightarrow> http_hdr_cc_type list" where
  "cc_flags cc = filter (cc_isSet cc) (map snd CcAttrs)"

lemma cc_flags_all: "set (map snd CcAttrs) = UNIV" "distinct (map snd CcAttrs)"
proof -
  have "t \<in> set (map snd CcAttrs)" for t by (cases t) (simp_all add: CcAttrs_def)
  then show "set (map snd CcAttrs) = UNIV" by blast
  show "distinct (map snd CcAttrs)" by (simp add: CcAttrs_def)
qed

lemma cc_ok_OTHER: "cc_ok cc \<Longrightarrow> \<not> cc_isSet cc CC_OTHER"
proof -
  assume "cc_ok cc"
  then have m: "take_bit 13 (cc_mask cc) = cc_mask cc" by (simp add: cc_ok_def)
  have "\<not> bit (take_bit 13 (cc_mask cc)) 13" by (simp add: bit_take_bit_iff)
  then show ?thesis by (simp add: cc_isSet_bit m)
qed

lemma cc_pack_from_tail:
  assumes "cc_ok cc" and "st_str (cc_other cc) = cc_join os" and "\<forall>t \<in> set os. t \<noteq> []"
  shows "cc_pack_from cc fs (Suc n) = lead_join (map (cc_tok cc) (filter (cc_isSet cc) fs) @ os)"
  using assms
proof (induction fs arbitrary: n)
  case Nil
  then show ?case by (cases os) (auto simp: st_len_def)
next
  case (Cons f fs)
  then show ?case using cc_ok_OTHER [OF assms(1)] by (auto simp: cc_tok_def)
qed

lemma cc_pack_from_start:
  assumes "cc_ok cc" and "st_str (cc_other cc) = cc_join os" and "\<forall>t \<in> set os. t \<noteq> []"
  shows "cc_pack_from cc fs 0 = cc_join (map (cc_tok cc) (filter (cc_isSet cc) fs) @ os)"
  using assms
proof (induction fs)
  case Nil
  then show ?case by (cases os) (auto simp: st_len_def)
next
  case (Cons f fs)
  then show ?case using cc_ok_OTHER [OF assms(1)] cc_pack_from_tail [OF assms] by (auto simp: cc_tok_def [of cc f])
qed

lemma cc_copy_fold:
  "cc_max_age (fold (cc_copy cc) fs s) = (if CC_MAX_AGE \<in> set fs then cc_max_age cc else cc_max_age s)"
  "cc_s_maxage (fold (cc_copy cc) fs s) = (if CC_S_MAXAGE \<in> set fs then cc_s_maxage cc else cc_s_maxage s)"
  "cc_max_stale (fold (cc_copy cc) fs s) = (if CC_MAX_STALE \<in> set fs then cc_max_stale cc else cc_max_stale s)"
  "cc_min_fresh (fold (cc_copy cc) fs s) = (if CC_MIN_FRESH \<in> set fs then cc_min_fresh cc else cc_min_fresh s)"
  "cc_stale_if_error (fold (cc_copy cc) fs s) = cc_stale_if_error s"
  "cc_private (fold (cc_copy cc) fs s) = (if CC_PRIVATE \<in> set fs then st_clean (cc_private s) else cc_private s)"
  "cc_no_cache (fold (cc_copy cc) fs s) = (if CC_NO_CACHE \<in> set fs then st_clean (cc_no_cache s) else cc_no_cache s)"
  "cc_other (fold (cc_copy cc) fs s) = cc_other s"
  "cc_isSet (fold (cc_copy cc) fs s) t \<longleftrightarrow> t \<in> set fs \<or> cc_isSet s t"
proof -
  have clean: "st_clean (st_clean x) = st_clean x" for x by (simp add: st_clean_def)
  have one: "cc_max_age (cc_copy cc f s) = (if CC_MAX_AGE = f then cc_max_age cc else cc_max_age s)"
    "cc_s_maxage (cc_copy cc f s) = (if CC_S_MAXAGE = f then cc_s_maxage cc else cc_s_maxage s)"
    "cc_max_stale (cc_copy cc f s) = (if CC_MAX_STALE = f then cc_max_stale cc else cc_max_stale s)"
    "cc_min_fresh (cc_copy cc f s) = (if CC_MIN_FRESH = f then cc_min_fresh cc else cc_min_fresh s)"
    "cc_stale_if_error (cc_copy cc f s) = cc_stale_if_error s"
    "cc_private (cc_copy cc f s) = (if CC_PRIVATE = f then st_clean (cc_private s) else cc_private s)"
    "cc_no_cache (cc_copy cc f s) = (if CC_NO_CACHE = f then st_clean (cc_no_cache s) else cc_no_cache s)"
    "cc_other (cc_copy cc f s) = cc_other s"
    "cc_isSet (cc_copy cc f s) t \<longleftrightarrow> t = f \<or> cc_isSet s t" for f s t
    by (cases f; simp add: cc_copy_def)+
  show "cc_max_age (fold (cc_copy cc) fs s) = (if CC_MAX_AGE \<in> set fs then cc_max_age cc else cc_max_age s)"
    "cc_s_maxage (fold (cc_copy cc) fs s) = (if CC_S_MAXAGE \<in> set fs then cc_s_maxage cc else cc_s_maxage s)"
    "cc_max_stale (fold (cc_copy cc) fs s) = (if CC_MAX_STALE \<in> set fs then cc_max_stale cc else cc_max_stale s)"
    "cc_min_fresh (fold (cc_copy cc) fs s) = (if CC_MIN_FRESH \<in> set fs then cc_min_fresh cc else cc_min_fresh s)"
    "cc_stale_if_error (fold (cc_copy cc) fs s) = cc_stale_if_error s"
    "cc_private (fold (cc_copy cc) fs s) = (if CC_PRIVATE \<in> set fs then st_clean (cc_private s) else cc_private s)"
    "cc_no_cache (fold (cc_copy cc) fs s) = (if CC_NO_CACHE \<in> set fs then st_clean (cc_no_cache s) else cc_no_cache s)"
    "cc_other (fold (cc_copy cc) fs s) = cc_other s"
    "cc_isSet (fold (cc_copy cc) fs s) t \<longleftrightarrow> t \<in> set fs \<or> cc_isSet s t"
    by (induction fs arbitrary: s; auto simp: one clean)+
qed

lemma cc_mask_eqI:
  assumes "cc_ok a" "cc_ok b" and "\<And>t. cc_isSet a t \<longleftrightarrow> cc_isSet b t"
  shows "cc_mask a = cc_mask b"
proof (rule bit_word_eqI)
  fix n assume "n < LENGTH(32)"
  have m: "take_bit 13 (cc_mask a) = cc_mask a" "take_bit 13 (cc_mask b) = cc_mask b" using assms(1,2) by (simp_all add: cc_ok_def)
  show "bit (cc_mask a) n = bit (cc_mask b) n"
  proof (cases "n < 13")
    case True
    then have "n \<in> cc_id ` set (map snd CcAttrs)" by (simp add: CcAttrs_def numeral_eq_Suc less_Suc_eq) blast
    then obtain t where "n = cc_id t" by blast
    then show ?thesis using assms(3) by (simp add: cc_isSet_bit)
  next
    case False
    then have "\<not> bit (take_bit 13 (cc_mask a)) n" "\<not> bit (take_bit 13 (cc_mask b)) n" by (simp_all add: bit_take_bit_iff)
    then show ?thesis by (simp add: m)
  qed
qed

text \<open>An unknown directive is a token whose name is in no row of the table.\<close>

definition cc_unknown :: "string \<Rightarrow> bool" where
  "cc_unknown s \<longleftrightarrow> sl_token (CHR '','') s \<and> CcNameToIdMap (takeWhile (\<lambda>c. c \<noteq> CHR ''='') s) = None"

lemma parse_unknown:
  assumes "cc_unknown t"
  shows "cc_parse_item (t @ rest, length t) (s, rep) = res_bind (cc_parse_other t s) (\<lambda>cc1. Inr (cc1, rep))"
proof -
  let ?n = "length (takeWhile (\<lambda>c. c \<noteq> CHR ''='') t)"
  have n: "take ?n t = takeWhile (\<lambda>c. c \<noteq> CHR ''='') t" by (rule takeWhile_eq_take [symmetric])
  have l: "?n \<le> length t" by (simp add: length_takeWhile_le)
  have chr: "c_strchr t (CHR ''='') = (if ?n < length t then Some ?n else None)" by (simp add: c_strchr_def Let_def)
  have u: "CcNameToIdMap (take ?n t) = None" "CcNameToIdMap (take ?n (t @ rest)) = None"
    using assms l by (simp_all add: cc_unknown_def n)
  show ?thesis
  proof (cases "?n < length t")
    case True
    then show ?thesis using u chr by (simp add: cc_parse_item_def Let_def cc_parse_directive_def)
  next
    case False
    then have "?n = length t" using l by simp
    then show ?thesis using u chr by (simp add: cc_parse_item_def Let_def cc_parse_directive_def)
  qed
qed

lemma parse_unknowns:
  assumes "cc_ok s" and "\<forall>t \<in> set os. cc_unknown t" and "st_str (cc_other s) = [] \<longrightarrow> os \<noteq> [] \<longrightarrow> cc_other s = String0"
    and "length (st_str (cc_other s)) + length (lead_join os) < 65535"
  shows "\<exists>o1. cc_parse_items (tok_items os) (s, rep) = Inr (s\<lparr>cc_other := o1\<rparr>, rep) \<and> st_ok o1 \<and>
    st_str o1 = (if st_str (cc_other s) = [] then cc_join os else st_str (cc_other s) @ lead_join os)"
  using assms
proof (induction os arbitrary: s)
  case Nil
  then show ?case by (intro exI [of _ "cc_other s"]) (auto simp: cc_ok_def)
next
  case (Cons t os)
  have t: "t \<noteq> []" "cc_unknown t" using Cons.prems(2) by (auto simp: cc_unknown_def sl_token_def)
  have "cc_room s + length t < 65535" using Cons.prems(4) by (auto simp: cc_room_def st_len_def)
  then obtain o1 where o1: "cc_parse_other t s = Inr (s\<lparr>cc_other := o1\<rparr>)" "st_ok o1"
      "st_str o1 = (if st_len (cc_other s) = 0 then t else st_str (cc_other s) @ '', '' @ t)"
    using cc_parse_other_ok(1) [OF Cons.prems(1) t(1)] by blast
  have ne: "st_str o1 \<noteq> []" using o1(3) t(1) by auto
  have "\<exists>o2. cc_parse_items (tok_items os) (s\<lparr>cc_other := o1\<rparr>, rep) = Inr (s\<lparr>cc_other := o1, cc_other := o2\<rparr>, rep) \<and> st_ok o2 \<and>
      st_str o2 = (if st_str (cc_other (s\<lparr>cc_other := o1\<rparr>)) = [] then cc_join os else st_str (cc_other (s\<lparr>cc_other := o1\<rparr>)) @ lead_join os)"
    using Cons.prems o1(2,3) ne by (intro Cons.IH) (auto simp: cc_ok_def st_len_def)
  then show ?case using o1(1,3) ne parse_unknown [OF t(2)] by (auto simp: st_len_def)
qed

lemma digit_plain: "c_isdigit c \<Longrightarrow> c \<noteq> CHR 0x22 \<and> c \<noteq> CHR 0x5C \<and> c \<notin> set (sl_skip (CHR '','')) \<and> \<not> c_isspace c"
  by (auto simp: c_isdigit_def c_isspace_def sl_skip_def char_code_def)

lemma sl_token_append:
  "sl_token del s \<Longrightarrow> \<forall>c \<in> set t. c \<noteq> CHR 0x22 \<and> c \<noteq> CHR 0x5C \<and> c \<notin> set (sl_skip del) \<and> \<not> c_isspace c \<Longrightarrow> sl_token del (s @ t)"
  by (auto simp: sl_token_def)

lemma cc_name_token: "t \<noteq> CC_OTHER \<Longrightarrow> sl_token (CHR '','') (cc_name t)"
  by (cases t) (simp_all add: cc_name_def CcAttrs_def sl_token_def sl_skip_def c_isspace_def char_code_def)

lemma cc_tok_token:
  assumes "cc_ok cc" "cc_isSet cc t" "t \<noteq> CC_OTHER"
  shows "sl_token (CHR '','') (cc_tok cc t)"
proof -
  have "\<forall>c \<in> set (CHR ''='' # show_int v). c \<noteq> CHR 0x22 \<and> c \<noteq> CHR 0x5C \<and> c \<notin> set (sl_skip (CHR '','')) \<and> \<not> c_isspace c"
    if "cc_num_ok True v" for v
    using that show_nat_digits [of "nat v"] digit_plain by (auto simp: show_int_def sl_skip_def c_isspace_def char_code_def)
  then have "\<forall>c \<in> set (cc_value cc t). c \<noteq> CHR 0x22 \<and> c \<noteq> CHR 0x5C \<and> c \<notin> set (sl_skip (CHR '','')) \<and> \<not> c_isspace c"
    using assms(1,2) by (cases t) (auto simp: cc_value_def cc_ok_def split: if_splits)
  then show ?thesis unfolding cc_tok_def using cc_name_token [OF assms(3)] by (intro sl_token_append)
qed

lemma undefined_String0: "st_ok s \<Longrightarrow> \<not> st_defined s \<Longrightarrow> s = String0"
  by (cases s) (auto simp: st_ok_def st_defined_def String0_def)

lemma cc_copies_all:
  assumes ok: "cc_ok cc" and sie: "\<not> cc_isSet cc CC_STALE_IF_ERROR"
    and lists: "\<not> st_defined (cc_private cc)" "\<not> st_defined (cc_no_cache cc)" and o1: "st_ok o1"
  shows "(fold (cc_copy cc) (cc_flags cc) HttpHdrCc)\<lparr>cc_other := o1\<rparr> = cc\<lparr>cc_other := o1\<rparr>"
proof -
  let ?r = "fold (cc_copy cc) (cc_flags cc) HttpHdrCc"
  have f: "t \<in> set (cc_flags cc) \<longleftrightarrow> cc_isSet cc t" for t using cc_flags_all(1) by (auto simp: cc_flags_def)
  have h: "\<not> cc_isSet HttpHdrCc t" for t by (simp add: HttpHdrCc_def cc_isSet_def)
  have set: "cc_isSet ?r t \<longleftrightarrow> cc_isSet cc t" for t by (simp add: cc_copy_fold f h)
  have num: "v = -1" if "cc_num_ok b v" "\<not> b" for b v using that by simp
  have s0: "st_clean String0 = String0" by (simp add: st_clean_def String0_def)
  have p: "cc_private cc = String0" "cc_no_cache cc = String0"
    using ok lists undefined_String0 by (auto simp: cc_ok_def cc_list_ok_def)
  have vals: "cc_max_age ?r = cc_max_age cc" "cc_s_maxage ?r = cc_s_maxage cc" "cc_max_stale ?r = cc_max_stale cc"
    "cc_min_fresh ?r = cc_min_fresh cc" "cc_stale_if_error ?r = cc_stale_if_error cc"
    "cc_private ?r = cc_private cc" "cc_no_cache ?r = cc_no_cache cc" "cc_other ?r = String0"
    using ok sie num p s0 unfolding cc_ok_def by (auto simp: cc_copy_fold f HttpHdrCc_def)
  have "take_bit 13 (cc_mask (fold (cc_copy cc) fs s)) = cc_mask (fold (cc_copy cc) fs s)"
    if "take_bit 13 (cc_mask s) = cc_mask s" "CC_OTHER \<notin> set fs" for fs s
    using that
  proof (induction fs arbitrary: s)
    case (Cons f fs)
    have "take_bit 13 (cc_mask (cc_copy cc f s)) = cc_mask (cc_copy cc f s)"
      unfolding cc_copy_def using Cons.prems by (intro cc_mask_ok) (auto split: http_hdr_cc_type.splits)
    then show ?case using Cons by auto
  qed simp
  then have "take_bit 13 (cc_mask ?r) = cc_mask ?r"
    using cc_ok_OTHER [OF ok] f by (simp add: HttpHdrCc_def)
  then have "cc_ok ?r" using ok vals set by (simp add: cc_ok_def)
  then have "cc_mask ?r = cc_mask cc" using ok set by (intro cc_mask_eqI)
  then show ?thesis using vals by (intro http_hdr_cc.equality) simp_all
qed

text \<open>
  C26. Parsing what was printed gives the object back, for an object without \<^verbatim>\<open>stale-if-error\<close> and
  without field names in \<^verbatim>\<open>private\<close> and \<^verbatim>\<open>no-cache\<close>, whatever other directives are set and whatever
  unknown directives were kept.
\<close>

theorem cc_pack_parse:
  assumes "cc_ok cc" "cc_mask cc \<noteq> 0" "\<not> cc_isSet cc CC_STALE_IF_ERROR"
    and "\<not> st_defined (cc_private cc)" "\<not> st_defined (cc_no_cache cc)"
    and os: "list_all cc_unknown os" "st_str (cc_other cc) = cc_join os" "length (cc_join os) < 65533"
  shows "\<exists>o1. cc_parse rep HttpHdrCc (cc_packInto cc) = Inr (True, cc\<lparr>cc_other := o1\<rparr>, rep) \<and> st_str o1 = st_str (cc_other cc)"
proof -
  let ?ts = "map (cc_tok cc) (cc_flags cc)" and ?s = "fold (cc_copy cc) (cc_flags cc) HttpHdrCc"
  have f: "t \<in> set (cc_flags cc) \<longleftrightarrow> cc_isSet cc t" for t using cc_flags_all(1) by (auto simp: cc_flags_def)
  have other: "\<not> cc_isSet cc CC_OTHER" using assms(1) by (rule cc_ok_OTHER)
  have unk: "\<forall>t \<in> set os. cc_unknown t" "\<forall>t \<in> set os. sl_token (CHR '','') t" "\<forall>t \<in> set os. t \<noteq> []"
    using os(1) by (auto simp: cc_unknown_def list_all_iff sl_token_def)
  have pack: "cc_packInto cc = cc_join (?ts @ os)"
    using assms(2) cc_pack_from_start [OF assms(1) os(2) unk(3)] by (simp add: cc_packInto_def cc_flags_def)
  have toks: "\<forall>t \<in> set (?ts @ os). sl_token (CHR '','') t"
    using unk(2) cc_tok_token [OF assms(1)] f other by auto
  have s: "?s = cc\<lparr>cc_other := String0\<rparr>" using cc_copies_all [OF assms(1,3,4,5), of String0]
    by (metis (no_types) String0_ok(1) cc_copy_fold(8) HttpHdrCc_def http_hdr_cc.select_convs(9) http_hdr_cc.surjective http_hdr_cc.update_convs(9))
  have "cc_parse_items (tok_items (?ts @ os)) (HttpHdrCc, rep) = cc_parse_items (tok_items os) (?s, rep)"
    using f other assms(3) cc_flags_all(2)
    by (intro parse_toks [OF assms(1)]) (auto simp: cc_flags_def HttpHdrCc_def cc_isSet_def)
  moreover have len: "length (lead_join os) < 65535" using os(3) by (cases os) auto
  moreover have "\<exists>o1. cc_parse_items (tok_items os) (?s, rep) = Inr (?s\<lparr>cc_other := o1\<rparr>, rep) \<and> st_ok o1 \<and>
      st_str o1 = (if st_str (cc_other ?s) = [] then cc_join os else st_str (cc_other ?s) @ lead_join os)"
    using assms(1) unk(1) len unfolding s by (intro parse_unknowns) (auto simp: cc_ok_def)
  ultimately obtain o1 where "cc_parse_items (tok_items (?ts @ os)) (HttpHdrCc, rep) = Inr (cc\<lparr>cc_other := o1\<rparr>, rep)"
    "st_str o1 = cc_join os" unfolding s by auto
  then show ?thesis using assms(2) os(2) by (auto simp: cc_parse_def pack sl_items_join(2) [OF toks])
qed

definition ex_cc :: http_hdr_cc where
  "ex_cc = cc_setMask CC_MAX_AGE True (HttpHdrCc\<lparr>cc_other := \<lparr>st_size = 40, st_buf = Some ''foo''\<rparr>, cc_max_age := 10\<rparr>)"

theorem cc_pack_parse_witness:
  "\<exists>o1. cc_parse (\<lambda>_. 0) HttpHdrCc (cc_packInto ex_cc) = Inr (True, ex_cc\<lparr>cc_other := o1\<rparr>, \<lambda>_. 0) \<and> st_str o1 = ''foo''"
proof -
  have "cc_ok (cc_parse_number cc_max_age_update CC_MAX_AGE (Some ''10'') (HttpHdrCc\<lparr>cc_other := \<lparr>st_size = 40, st_buf = Some ''foo''\<rparr>\<rparr>))"
    using HttpHdrCc_ok by (intro cc_parse_number_ok(1)) (auto simp: cc_ok_def st_ok_def)
  moreover have "cc_number (Some ''10'') = Some 10" by code_simp
  ultimately have "cc_ok ex_cc" by (simp add: ex_cc_def cc_parse_number_def)
  moreover have "cc_mask ex_cc \<noteq> 0" "\<not> cc_isSet ex_cc CC_STALE_IF_ERROR" "\<not> st_defined (cc_private ex_cc)"
    "\<not> st_defined (cc_no_cache ex_cc)" "st_str (cc_other ex_cc) = ''foo''"
    by (simp_all add: ex_cc_def cc_setMask_def cc_isSet_def HttpHdrCc_def st_str_def)
  moreover have "list_all cc_unknown [''foo'']"
    by (simp add: cc_unknown_def sl_token_def sl_skip_def c_isspace_def char_code_def CcNameToIdMap_def CcAttrs_def)
  ultimately show ?thesis using cc_pack_parse [of ex_cc "[''foo'']" "\<lambda>_. 0"] by simp
qed

text \<open>Values that are not printed are lost.\<close>

lemma cc_pack_loses_values:
  "cc_packInto (cc_setMask CC_STALE_IF_ERROR True (HttpHdrCc\<lparr>cc_stale_if_error := 5\<rparr>)) = ''stale-if-error''"
  "cc_parse rep HttpHdrCc ''stale-if-error'' = Inr (False, HttpHdrCc, rep)"
proof -
  show "cc_packInto (cc_setMask CC_STALE_IF_ERROR True (HttpHdrCc\<lparr>cc_stale_if_error := 5\<rparr>)) = ''stale-if-error''"
    by code_simp
  have "sl_items (CHR '','') (cc_join [''stale-if-error'']) = tok_items [''stale-if-error'']"
    by (rule sl_items_join(2)) (use cc_name_token [of CC_STALE_IF_ERROR] in \<open>simp add: cc_name_def CcAttrs_def\<close>)
  then show "cc_parse rep HttpHdrCc ''stale-if-error'' = Inr (False, HttpHdrCc, rep)"
    using parse_plain_name [of CC_STALE_IF_ERROR HttpHdrCc "[]" rep]
    by (simp add: cc_parse_def cc_name_def CcAttrs_def cc_parse_directive_def cc_parse_number_def cc_number_def cc_setValue_def
      cc_setMask_def HttpHdrCc_def cc_isSet_def)
qed

end
