(* ===== verification/Refresh.thy ===== *)
theory Refresh
  imports C_Double Http_CacheControl Store_Entry
begin

text \<open>
  The freshness rules (src/refresh.cc): how stale a stored response is and whether it may be used
  without asking the origin server. \<^verbatim>\<open>time_t\<close> is an unbounded integer here, \<^verbatim>\<open>int\<close> results are
  narrowed; \<^verbatim>\<open>squid_curtime\<close> is the argument \<open>now\<close>. \<^verbatim>\<open>USE_HTTP_VIOLATIONS\<close>, \<^verbatim>\<open>USE_HTCP\<close> and
  \<^verbatim>\<open>USE_CACHE_DIGESTS\<close> are on, as in a default build. A compiled regular expression is the predicate
  that \<^verbatim>\<open>regexec\<close> computes.
\<close>

unbundle bit_operations_syntax

section \<open>Data\<close>

record refresh_pattern =
  rp_pattern :: string
  rp_matches :: "string \<Rightarrow> bool"
  rp_min :: int
  rp_pct :: rat
  rp_max :: int
  rp_icase :: bool
  rp_refresh_ims :: bool
  rp_store_stale :: bool
  rp_override_expire :: bool
  rp_override_lastmod :: bool
  rp_reload_into_ims :: bool
  rp_ignore_reload :: bool
  rp_ignore_no_store :: bool
  rp_ignore_must_revalidate :: bool
  rp_ignore_private :: bool
  rp_ignore_auth :: bool
  rp_max_stale :: int

record refresh_config =
  cfg_Refresh :: "refresh_pattern list"
  cfg_maxStale :: int
  cfg_minimum_expiry_time :: int
  cfg_refresh_all_ims :: bool
  cfg_reload_into_ims :: bool
  cfg_offline :: bool
  cfg_vary_ignore_expire :: bool

record http_request =
  rq_canonical :: string
  rq_cc :: "http_hdr_cc option"
  rq_ignoreCc :: bool
  rq_ims :: bool
  rq_nocacheHack :: bool
  rq_noCache :: bool
  rq_failOnValidationError :: bool
  rq_staleIfHit :: bool
  rq_auth :: bool
  rq_authSent :: bool
  rq_peer_http_request_sent :: int

text \<open>
  \<open>hr_date_field\<close> and \<open>hr_expires_field\<close> are \<^verbatim>\<open>getTime\<close> of the fields, -1 when absent or
  malformed; \<open>hr_age\<close> is \<^verbatim>\<open>getInt(HDR_AGE)\<close>.
\<close>

record http_reply =
  hr_status :: int
  hr_date :: int
  hr_expires :: int
  hr_last_modified :: int
  hr_content_length :: int
  hr_cc :: "http_hdr_cc option"
  hr_has_vary :: bool
  hr_has_expires :: bool
  hr_date_field :: int
  hr_expires_field :: int
  hr_age :: int
  hr_content_type :: "string option"
  hr_pragma :: "string option"

record mem_object =
  mo_url :: string
  mo_reply :: "http_reply option"
  mo_request :: "http_request option"

record cached_entry = store_entry +
  ce_mem_obj :: "mem_object option"

definition ENTRY_REVALIDATE :: nat where
  "ENTRY_REVALIDATE = 1"

definition entry_flag :: "cached_entry \<Rightarrow> nat \<Rightarrow> bool" where
  "entry_flag e b \<longleftrightarrow> se_flags e AND push_bit b 1 \<noteq> 0"

datatype refresh_reason =
    FRESH_REQUEST_MAX_STALE_ALL | FRESH_REQUEST_MAX_STALE_VALUE | FRESH_EXPIRES | FRESH_LMFACTOR_RULE
  | FRESH_MIN_RULE | FRESH_OVERRIDE_EXPIRES | FRESH_OVERRIDE_LASTMOD
  | STALE_MUST_REVALIDATE | STALE_RELOAD_INTO_IMS | STALE_FORCED_RELOAD | STALE_EXCEEDS_REQUEST_MAX_AGE_VALUE
  | STALE_EXPIRES | STALE_MAX_RULE | STALE_LMFACTOR_RULE | STALE_MAX_STALE | STALE_DEFAULT

primrec reason_code :: "refresh_reason \<Rightarrow> nat" where
  "reason_code FRESH_REQUEST_MAX_STALE_ALL = 100"
| "reason_code FRESH_REQUEST_MAX_STALE_VALUE = 101"
| "reason_code FRESH_EXPIRES = 102"
| "reason_code FRESH_LMFACTOR_RULE = 103"
| "reason_code FRESH_MIN_RULE = 104"
| "reason_code FRESH_OVERRIDE_EXPIRES = 105"
| "reason_code FRESH_OVERRIDE_LASTMOD = 106"
| "reason_code STALE_MUST_REVALIDATE = 200"
| "reason_code STALE_RELOAD_INTO_IMS = 201"
| "reason_code STALE_FORCED_RELOAD = 202"
| "reason_code STALE_EXCEEDS_REQUEST_MAX_AGE_VALUE = 203"
| "reason_code STALE_EXPIRES = 204"
| "reason_code STALE_MAX_RULE = 205"
| "reason_code STALE_LMFACTOR_RULE = 206"
| "reason_code STALE_MAX_STALE = 207"
| "reason_code STALE_DEFAULT = 299"

record stale_flags =
  sf_expires :: bool
  sf_min :: bool
  sf_lmfactor :: bool
  sf_max :: bool

definition no_flags :: stale_flags where
  "no_flags = \<lparr>sf_expires = False, sf_min = False, sf_lmfactor = False, sf_max = False\<rparr>"

section \<open>The rule for a URL\<close>

definition refreshLimits :: "refresh_config \<Rightarrow> string \<Rightarrow> refresh_pattern option" where
  "refreshLimits cfg url = find (\<lambda>R. rp_matches R url) (cfg_Refresh cfg)"

definition refreshUncompiledPattern :: "refresh_config \<Rightarrow> string \<Rightarrow> refresh_pattern option" where
  "refreshUncompiledPattern cfg pat = find (\<lambda>R. rp_pattern R = pat) (cfg_Refresh cfg)"

definition DefaultRefresh :: refresh_pattern where
  "DefaultRefresh = \<lparr>rp_pattern = ''<none>'', rp_matches = \<lambda>_. False, rp_min = 0, rp_pct = dbl (1 / 5), rp_max = 259200,
     rp_icase = False, rp_refresh_ims = False, rp_store_stale = False, rp_override_expire = False,
     rp_override_lastmod = False, rp_reload_into_ims = False, rp_ignore_reload = False, rp_ignore_no_store = False,
     rp_ignore_must_revalidate = False, rp_ignore_private = False, rp_ignore_auth = False, rp_max_stale = 0\<rparr>"

definition getMaxAge :: "refresh_config \<Rightarrow> string \<Rightarrow> int" where
  "getMaxAge cfg url = (case refreshLimits cfg url of Some R \<Rightarrow> rp_max R | None \<Rightarrow> 259200)"

definition refreshRule :: "refresh_config \<Rightarrow> cached_entry \<Rightarrow> http_request option \<Rightarrow> refresh_pattern" where
  "refreshRule cfg e q =
     (let uri = (case ce_mem_obj e of Some m \<Rightarrow> Some (mo_url m) | None \<Rightarrow> map_option rq_canonical q);
          R = (case uri of Some u \<Rightarrow> refreshLimits cfg u | None \<Rightarrow> refreshUncompiledPattern cfg ''.'')
      in case R of Some r \<Rightarrow> r | None \<Rightarrow> DefaultRefresh)"

section \<open>Staleness\<close>

definition stale_age_of :: "cached_entry \<Rightarrow> refresh_pattern \<Rightarrow> int" where
  "stale_age_of e R = dbl_to_int (dbl_mult (dbl_of_int (se_timestamp e - se_lastmod e)) (rp_pct R))"

definition refreshStaleness :: "cached_entry \<Rightarrow> int \<Rightarrow> int \<Rightarrow> refresh_pattern \<Rightarrow> int \<times> stale_flags" where
  "refreshStaleness e check_time age R =
     (if se_expires e > -1 then
        (if se_expires e > check_time then (-1, no_flags\<lparr>sf_expires := True\<rparr>)
         else (to_int32 (check_time - se_expires e), no_flags\<lparr>sf_expires := True\<rparr>))
      else if age > rp_max R then (to_int32 (age - rp_max R), no_flags\<lparr>sf_max := True\<rparr>)
      else if se_lastmod e > -1 \<and> se_timestamp e > se_lastmod e then
        (let stale_age = stale_age_of e R
         in if age \<ge> stale_age then (to_int32 (age - stale_age), no_flags\<lparr>sf_lmfactor := True\<rparr>)
            else (-1, no_flags\<lparr>sf_lmfactor := True\<rparr>))
      else if age < rp_min R then (-1, no_flags\<lparr>sf_min := True\<rparr>)
      else (to_int32 (age - rp_min R), no_flags))"

section \<open>The decision\<close>

definition refreshAge :: "int \<Rightarrow> cached_entry \<Rightarrow> int" where
  "refreshAge check_time e = (if check_time > se_timestamp e then check_time - se_timestamp e else 0)"

definition refreshMinFresh :: "http_request option \<Rightarrow> int" where
  "refreshMinFresh q = (case q of None \<Rightarrow> 0
     | Some r \<Rightarrow> if rq_ignoreCc r then 0
         else (case rq_cc r of None \<Rightarrow> 0 | Some cc \<Rightarrow> if cc_isSet cc CC_MIN_FRESH then cc_min_fresh cc else 0))"

text \<open>\<^verbatim>\<open>stale-if-error\<close> of the stored response: an error is passed on once its period is over.\<close>

definition refreshStaleIfError :: "cached_entry \<Rightarrow> int \<Rightarrow> http_request option \<Rightarrow> http_request option" where
  "refreshStaleIfError e staleness q =
     (case (q, Option.bind (ce_mem_obj e) (\<lambda>m. Option.bind (mo_reply m) hr_cc)) of
        (Some r, Some cc) \<Rightarrow>
          if cc_isSet cc CC_STALE_IF_ERROR \<and> cc_stale_if_error cc < staleness
          then Some (r\<lparr>rq_failOnValidationError := True\<rparr>) else q
      | _ \<Rightarrow> q)"

definition refreshMaxAgeCheck :: "refresh_pattern \<Rightarrow> int \<Rightarrow> http_hdr_cc \<Rightarrow> bool" where
  "refreshMaxAgeCheck R age cc \<longleftrightarrow>
     (if cc_isSet cc CC_MAX_AGE then
        (if rp_ignore_reload R \<and> cc_max_age cc = 0 then False else cc_max_age cc = 0 \<or> age > cc_max_age cc)
      else False)"

definition refreshMaxStaleCheck :: "int \<Rightarrow> http_hdr_cc \<Rightarrow> refresh_reason option" where
  "refreshMaxStaleCheck staleness cc =
     (if cc_isSet cc CC_MAX_STALE \<and> staleness > -1 then
        (if cc_max_stale cc = MAX_STALE_ANY then Some FRESH_REQUEST_MAX_STALE_ALL
         else if staleness < cc_max_stale cc then Some FRESH_REQUEST_MAX_STALE_VALUE
         else None)
      else None)"

text \<open>The request-specific checks: a decision, if there is one, and the changed request.\<close>

definition refreshRequestChecks ::
  "refresh_config \<Rightarrow> refresh_pattern \<Rightarrow> int \<Rightarrow> int \<Rightarrow> http_request \<Rightarrow> refresh_reason option \<times> http_request" where
  "refreshRequestChecks cfg R age staleness r =
     (if rq_ignoreCc r then (None, r)
      else if rq_ims r \<and> (rp_refresh_ims R \<or> cfg_refresh_all_ims cfg) then (Some STALE_FORCED_RELOAD, r)
      else if rq_nocacheHack r \<and> \<not> rp_ignore_reload R then
        (if rp_reload_into_ims R \<or> cfg_reload_into_ims cfg then (Some STALE_RELOAD_INTO_IMS, r)
         else (Some STALE_FORCED_RELOAD, r\<lparr>rq_noCache := True\<rparr>))
      else (case rq_cc r of
          None \<Rightarrow> (None, r)
        | Some cc \<Rightarrow> if refreshMaxAgeCheck R age cc then (Some STALE_EXCEEDS_REQUEST_MAX_AGE_VALUE, r)
                     else (refreshMaxStaleCheck staleness cc, r)))"

definition refreshStaleChecks ::
  "refresh_config \<Rightarrow> refresh_pattern \<Rightarrow> int \<Rightarrow> int \<Rightarrow> stale_flags \<Rightarrow> http_request option \<Rightarrow> refresh_reason \<times> http_request option" where
  "refreshStaleChecks cfg R age staleness sf q =
     (let max_stale = to_int32 (if rp_max_stale R \<ge> 0 then rp_max_stale R else cfg_maxStale cfg)
      in if max_stale \<ge> 0 \<and> staleness > max_stale
         then (STALE_MAX_STALE, map_option (\<lambda>r. r\<lparr>rq_failOnValidationError := True\<rparr>) q)
         else if sf_expires sf then
           (if rp_override_expire R \<and> age < rp_min R then (FRESH_OVERRIDE_EXPIRES, q) else (STALE_EXPIRES, q))
         else if sf_max sf then (STALE_MAX_RULE, q)
         else if sf_lmfactor sf then
           (if rp_override_lastmod R \<and> age < rp_min R then (FRESH_OVERRIDE_LASTMOD, q) else (STALE_LMFACTOR_RULE, q))
         else (STALE_DEFAULT, q))"

definition refreshFreshReason :: "stale_flags \<Rightarrow> refresh_reason res" where
  "refreshFreshReason sf =
     (if sf_expires sf then Inr FRESH_EXPIRES
      else res_bind (res_guard (\<not> sf_max sf) Assertion) (\<lambda>_.
        if sf_lmfactor sf then Inr FRESH_LMFACTOR_RULE
        else res_bind (res_guard (sf_min sf) Assertion) (\<lambda>_. Inr FRESH_MIN_RULE)))"

definition refreshCheck ::
  "refresh_config \<Rightarrow> int \<Rightarrow> cached_entry \<Rightarrow> http_request option \<Rightarrow> int \<Rightarrow> (refresh_reason \<times> http_request option) res" where
  "refreshCheck cfg now e q delta =
     (let age0 = refreshAge (now + delta) e
      in res_bind (res_guard (age0 \<ge> 0) Assertion) (\<lambda>_.
         let R = refreshRule cfg e q;
             age = age0 + refreshMinFresh q;
             check_time = now + delta + refreshMinFresh q;
             (staleness, sf) = refreshStaleness e check_time age R;
             q1 = refreshStaleIfError e staleness q
         in if entry_flag e ENTRY_REVALIDATE \<and> staleness > -1 \<and> \<not> rp_ignore_must_revalidate R
            then Inr (STALE_MUST_REVALIDATE, map_option (\<lambda>r. r\<lparr>rq_failOnValidationError := True\<rparr>) q1)
            else
              (let (d, q2) = (case q1 of None \<Rightarrow> (None, None)
                   | Some r \<Rightarrow> (case refreshRequestChecks cfg R age staleness r of (d, r1) \<Rightarrow> (d, Some r1)))
               in case d of
                    Some reason \<Rightarrow> Inr (reason, q2)
                  | None \<Rightarrow>
                      if staleness = -1 then res_bind (refreshFreshReason sf) (\<lambda>reason. Inr (reason, q2))
                      else Inr (refreshStaleChecks cfg R age staleness sf q2))))"

section \<open>Callers\<close>

datatype refresh_kind = rcHTTP | rcICP | rcHTCP | rcCDigest | rcStore

record refresh_counts =
  rc_total :: "refresh_kind \<Rightarrow> 32 word"
  rc_status :: "refresh_kind \<Rightarrow> nat \<Rightarrow> 32 word"

definition refreshInit :: refresh_counts where
  "refreshInit = \<lparr>rc_total = \<lambda>_. 0, rc_status = \<lambda>_ _. 0\<rparr>"

definition refreshCount :: "refresh_kind \<Rightarrow> refresh_reason \<Rightarrow> refresh_counts \<Rightarrow> refresh_counts" where
  "refreshCount k reason c =
     c\<lparr>rc_total := (rc_total c)(k := rc_total c k + 1),
       rc_status := (rc_status c)(k := (rc_status c k)(reason_code reason := rc_status c k (reason_code reason) + 1))\<rparr>"

definition refreshIsCachable :: "refresh_config \<Rightarrow> int \<Rightarrow> cached_entry \<Rightarrow> refresh_counts \<Rightarrow> (bool \<times> refresh_counts) res" where
  "refreshIsCachable cfg now e c =
     res_bind (refreshCheck cfg now e None (cfg_minimum_expiry_time cfg)) (\<lambda>(reason, _).
       let c1 = refreshCount rcStore reason c
       in if reason_code reason < 200 then Inr (True, c1)
          else if se_lastmod e < 0 then Inr (False, c1)
          else (case ce_mem_obj e of
              None \<Rightarrow> Inr (True, c1)
            | Some m \<Rightarrow> (case mo_reply m of
                None \<Rightarrow> Inr (True, c1)
              | Some rep \<Rightarrow> Inr (hr_content_length rep \<noteq> 0, c1))))"

definition refreshIsStaleIfHit :: "refresh_reason \<Rightarrow> bool" where
  "refreshIsStaleIfHit reason = (case reason of
      FRESH_MIN_RULE \<Rightarrow> False | FRESH_LMFACTOR_RULE \<Rightarrow> False | FRESH_EXPIRES \<Rightarrow> False | _ \<Rightarrow> True)"

text \<open>\<open>True\<close> is the return value 1: the entry has to be validated.\<close>

definition refreshCheckHTTP ::
  "refresh_config \<Rightarrow> int \<Rightarrow> cached_entry \<Rightarrow> http_request \<Rightarrow> refresh_counts \<Rightarrow> (bool \<times> http_request \<times> refresh_counts) res" where
  "refreshCheckHTTP cfg now e r c =
     res_bind (refreshCheck cfg now e (Some r) 0) (\<lambda>(reason, q).
       case q of None \<Rightarrow> Inl Dangling
       | Some r1 \<Rightarrow> Inr (\<not> (cfg_offline cfg \<or> reason_code reason < 200),
           r1\<lparr>rq_staleIfHit := refreshIsStaleIfHit reason\<rparr>, refreshCount rcHTTP reason c))"

definition refreshCheckICP ::
  "refresh_config \<Rightarrow> int \<Rightarrow> cached_entry \<Rightarrow> http_request option \<Rightarrow> refresh_counts \<Rightarrow> (bool \<times> http_request option \<times> refresh_counts) res" where
  "refreshCheckICP cfg now e q c =
     res_bind (refreshCheck cfg now e q 30) (\<lambda>(reason, q1). Inr (\<not> reason_code reason < 200, q1, refreshCount rcICP reason c))"

definition refreshCheckHTCP ::
  "refresh_config \<Rightarrow> int \<Rightarrow> cached_entry \<Rightarrow> http_request option \<Rightarrow> refresh_counts \<Rightarrow> (bool \<times> http_request option \<times> refresh_counts) res" where
  "refreshCheckHTCP cfg now e q c =
     res_bind (refreshCheck cfg now e q 10) (\<lambda>(reason, q1). Inr (\<not> reason_code reason < 200, q1, refreshCount rcHTCP reason c))"

text \<open>The request is the one the entry points to, which may be changed there.\<close>

definition refreshCheckDigest ::
  "refresh_config \<Rightarrow> int \<Rightarrow> cached_entry \<Rightarrow> int \<Rightarrow> refresh_counts \<Rightarrow> (bool \<times> cached_entry \<times> refresh_counts) res" where
  "refreshCheckDigest cfg now e delta c =
     res_bind (refreshCheck cfg now e (Option.bind (ce_mem_obj e) mo_request) delta) (\<lambda>(reason, q1).
       Inr (\<not> reason_code reason < 200,
            e\<lparr>ce_mem_obj := map_option (\<lambda>m. m\<lparr>mo_request := q1\<rparr>) (ce_mem_obj e)\<rparr>, refreshCount rcCDigest reason c))"

section \<open>A specification without order\<close>

text \<open>
  By how much a response is past its freshness lifetime; negative while it is fresh. The lifetime is
  given by the expiration time if there is one, else by the rule: its maximum age, a fraction of the time
  since the last modification, or its minimum age.
\<close>

definition refresh_excess :: "cached_entry \<Rightarrow> int \<Rightarrow> int \<Rightarrow> refresh_pattern \<Rightarrow> int" where
  "refresh_excess e check_time age R =
     (if se_expires e \<ge> 0 then check_time - se_expires e
      else if age > rp_max R then age - rp_max R
      else if se_lastmod e \<ge> 0 \<and> se_lastmod e < se_timestamp e then age - stale_age_of e R
      else age - rp_min R)"

definition client_cc :: "http_request \<Rightarrow> http_hdr_cc option" where
  "client_cc r = (if rq_ignoreCc r then None else rq_cc r)"

definition client_forces :: "refresh_config \<Rightarrow> refresh_pattern \<Rightarrow> int \<Rightarrow> http_request \<Rightarrow> bool" where
  "client_forces cfg R age r \<longleftrightarrow>
     (\<not> rq_ignoreCc r \<and> (rq_ims r \<and> (rp_refresh_ims R \<or> cfg_refresh_all_ims cfg) \<or> rq_nocacheHack r \<and> \<not> rp_ignore_reload R)) \<or>
     (case client_cc r of None \<Rightarrow> False | Some cc \<Rightarrow> refreshMaxAgeCheck R age cc)"

definition client_accepts :: "int \<Rightarrow> http_request \<Rightarrow> bool" where
  "client_accepts excess r \<longleftrightarrow> (case client_cc r of None \<Rightarrow> False
     | Some cc \<Rightarrow> cc_isSet cc CC_MAX_STALE \<and> (cc_max_stale cc = MAX_STALE_ANY \<or> excess < cc_max_stale cc))"

definition rule_overrides :: "refresh_config \<Rightarrow> refresh_pattern \<Rightarrow> cached_entry \<Rightarrow> int \<Rightarrow> int \<Rightarrow> bool" where
  "rule_overrides cfg R e age excess \<longleftrightarrow>
     (let limit = (if rp_max_stale R \<ge> 0 then rp_max_stale R else cfg_maxStale cfg)
      in (limit < 0 \<or> excess \<le> limit) \<and> age < rp_min R \<and>
         (if se_expires e \<ge> 0 then rp_override_expire R
          else rp_override_lastmod R \<and> age \<le> rp_max R \<and> se_lastmod e \<ge> 0 \<and> se_lastmod e < se_timestamp e))"

definition may_serve :: "refresh_config \<Rightarrow> refresh_pattern \<Rightarrow> cached_entry \<Rightarrow> http_request \<Rightarrow> int \<Rightarrow> int \<Rightarrow> bool" where
  "may_serve cfg R e r age excess \<longleftrightarrow>
     (excess < 0 \<or> \<not> entry_flag e ENTRY_REVALIDATE \<or> rp_ignore_must_revalidate R) \<and>
     \<not> client_forces cfg R age r \<and>
     (excess < 0 \<or> client_accepts excess r \<or> rule_overrides cfg R e age excess)"

lemma refreshStaleness_excess:
  assumes "refresh_excess e ct age R < 2 ^ 31"
  shows "fst (refreshStaleness e ct age R) = (if refresh_excess e ct age R < 0 then -1 else refresh_excess e ct age R)"
  using assms by (auto simp: refreshStaleness_def refresh_excess_def Let_def)

lemma refreshStaleness_flags:
  "sf_expires (snd (refreshStaleness e ct age R)) \<longleftrightarrow> se_expires e \<ge> 0"
  "sf_max (snd (refreshStaleness e ct age R)) \<longleftrightarrow> se_expires e < 0 \<and> age > rp_max R"
  "sf_lmfactor (snd (refreshStaleness e ct age R)) \<longleftrightarrow>
     se_expires e < 0 \<and> age \<le> rp_max R \<and> se_lastmod e \<ge> 0 \<and> se_lastmod e < se_timestamp e"
  "sf_min (snd (refreshStaleness e ct age R)) \<longleftrightarrow>
     se_expires e < 0 \<and> age \<le> rp_max R \<and> \<not> (se_lastmod e \<ge> 0 \<and> se_lastmod e < se_timestamp e) \<and> age < rp_min R"
  by (auto simp: refreshStaleness_def no_flags_def Let_def)

lemma refreshFreshReason_ok:
  assumes "refresh_excess e ct age R < 0"
  shows "\<exists>reason. refreshFreshReason (snd (refreshStaleness e ct age R)) = Inr reason \<and> reason_code reason < 200 \<and>
    \<not> refreshIsStaleIfHit reason"
proof (cases "se_expires e \<ge> 0")
  case True
  then show ?thesis by (simp add: refreshFreshReason_def refreshStaleness_flags refreshIsStaleIfHit_def)
next
  case False
  then show ?thesis using assms
    by (cases "se_lastmod e \<ge> 0 \<and> se_lastmod e < se_timestamp e"; cases "age > rp_max R")
      (simp_all add: refreshFreshReason_def refreshStaleness_flags refreshIsStaleIfHit_def refresh_excess_def)
qed

lemma refreshStaleIfError_Some:
  "\<exists>r0. refreshStaleIfError e staleness (Some r) = Some r0 \<and> (r0 = r \<or> r0 = r\<lparr>rq_failOnValidationError := True\<rparr>)"
  by (simp add: refreshStaleIfError_def split: option.split)

lemma refreshRequestChecks_spec:
  assumes "refreshRequestChecks cfg R age (if x < 0 then -1 else x) r = (d, r1)"
  shows "client_forces cfg R age r \<Longrightarrow> \<exists>reason. d = Some reason \<and> \<not> reason_code reason < 200"
    and "\<not> client_forces cfg R age r \<Longrightarrow> 0 \<le> x \<and> client_accepts x r \<Longrightarrow> \<exists>reason. d = Some reason \<and> reason_code reason < 200"
    and "\<not> client_forces cfg R age r \<Longrightarrow> \<not> (0 \<le> x \<and> client_accepts x r) \<Longrightarrow> d = None"
  using assms by (auto simp: refreshRequestChecks_def client_forces_def client_accepts_def client_cc_def refreshMaxStaleCheck_def
      split: if_splits option.splits)

lemma refreshStaleChecks_spec:
  assumes "-(2 ^ 31) \<le> cfg_maxStale cfg" "cfg_maxStale cfg < 2 ^ 31" "rp_max_stale R < 2 ^ 31" "0 \<le> x"
  shows "reason_code (fst (refreshStaleChecks cfg R age x (snd (refreshStaleness e ct age R)) q)) < 200 \<longleftrightarrow>
    rule_overrides cfg R e age x"
  using assms by (auto simp: refreshStaleChecks_def rule_overrides_def refreshStaleness_flags Let_def)

text \<open>
  C27. For an HTTP request, a stored response is used without validation exactly when Squid is offline or
  the specification \<open>may_serve\<close> allows it: a stale response that must be revalidated is not, nor one the
  client's request excludes (a forced reload or a maximum age), and a stale one only if the client
  accepts its staleness or an override of the rule applies within the limit on staleness. The
  staleness has to fit an \<^verbatim>\<open>int\<close>. No assertion of the decision fails.
\<close>

theorem refresh_decision:
  assumes "refresh_excess e (now + refreshMinFresh (Some r)) (refreshAge now e + refreshMinFresh (Some r)) (refreshRule cfg e (Some r)) < 2 ^ 31"
    and "-(2 ^ 31) \<le> cfg_maxStale cfg" "cfg_maxStale cfg < 2 ^ 31" "rp_max_stale (refreshRule cfg e (Some r)) < 2 ^ 31"
  shows "\<exists>r' c'. refreshCheckHTTP cfg now e r c =
    Inr (\<not> cfg_offline cfg \<and>
         \<not> may_serve cfg (refreshRule cfg e (Some r)) e r (refreshAge now e + refreshMinFresh (Some r))
             (refresh_excess e (now + refreshMinFresh (Some r)) (refreshAge now e + refreshMinFresh (Some r)) (refreshRule cfg e (Some r))),
         r', c')"
proof -
  define R where "R = refreshRule cfg e (Some r)"
  define age where "age = refreshAge now e + refreshMinFresh (Some r)"
  define ct where "ct = now + refreshMinFresh (Some r)"
  define x where "x = refresh_excess e ct age R"
  define sf where "sf = snd (refreshStaleness e ct age R)"
  have st: "refreshStaleness e ct age R = (if x < 0 then -1 else x, sf)"
    using refreshStaleness_excess [of e ct age R] assms(1) by (simp add: x_def sf_def ct_def age_def R_def prod_eq_iff)
  obtain r0 where r0: "refreshStaleIfError e (if x < 0 then -1 else x) (Some r) = Some r0"
    "r0 = r \<or> r0 = r\<lparr>rq_failOnValidationError := True\<rparr>" using refreshStaleIfError_Some by blast
  then have same: "rq_cc r0 = rq_cc r" "rq_ignoreCc r0 = rq_ignoreCc r" "rq_ims r0 = rq_ims r" "rq_nocacheHack r0 = rq_nocacheHack r"
    by auto
  have eq: "client_forces cfg R age r0 = client_forces cfg R age r" "client_accepts x r0 = client_accepts x r"
    by (simp_all add: client_forces_def client_accepts_def client_cc_def same)
  obtain d r1 where rc: "refreshRequestChecks cfg R age (if x < 0 then -1 else x) r0 = (d, r1)" by fastforce
  note spec = refreshRequestChecks_spec [OF rc, unfolded eq]
  have age0: "0 \<le> refreshAge now e" by (simp add: refreshAge_def)
  have chk: "refreshCheck cfg now e (Some r) 0 =
     (if entry_flag e ENTRY_REVALIDATE \<and> \<not> x < 0 \<and> \<not> rp_ignore_must_revalidate R
      then Inr (STALE_MUST_REVALIDATE, Some (r0\<lparr>rq_failOnValidationError := True\<rparr>))
      else case d of Some reason \<Rightarrow> Inr (reason, Some r1)
        | None \<Rightarrow> if x < 0 then res_bind (refreshFreshReason sf) (\<lambda>reason. Inr (reason, Some r1))
            else Inr (refreshStaleChecks cfg R age x sf (Some r1)))"
    using age0 st r0(1) rc by (auto simp: refreshCheck_def Let_def R_def [symmetric] age_def [symmetric] ct_def [symmetric] split: option.split)
  have "\<exists>reason r2. refreshCheck cfg now e (Some r) 0 = Inr (reason, Some r2) \<and> (reason_code reason < 200 \<longleftrightarrow> may_serve cfg R e r age x)"
  proof (cases "entry_flag e ENTRY_REVALIDATE \<and> \<not> x < 0 \<and> \<not> rp_ignore_must_revalidate R")
    case True
    then show ?thesis by (auto simp: chk may_serve_def)
  next
    case revalidate: False
    show ?thesis
    proof (cases "client_forces cfg R age r \<or> 0 \<le> x \<and> client_accepts x r")
      case True
      then show ?thesis using revalidate spec(1,2) by (cases "client_forces cfg R age r") (auto simp: chk may_serve_def)
    next
      case client: False
      then have d: "d = None" using spec(3) by blast
      show ?thesis
      proof (cases "x < 0")
        case True
        then show ?thesis using refreshFreshReason_ok [of e ct age R] revalidate client d
          by (auto simp: chk may_serve_def x_def sf_def)
      next
        case False
        have "snd (refreshStaleChecks cfg R age x sf (Some r1)) \<noteq> None"
          by (simp add: refreshStaleChecks_def Let_def)
        then show ?thesis using False revalidate client d assms(2-4) refreshStaleChecks_spec [of cfg R x age e ct "Some r1"]
          by (cases "refreshStaleChecks cfg R age x sf (Some r1)") (auto simp: chk may_serve_def sf_def R_def)
      qed
    qed
  qed
  then show ?thesis by (auto simp: refreshCheckHTTP_def R_def age_def ct_def x_def)
qed

definition ex_config :: refresh_config where
  "ex_config = \<lparr>cfg_Refresh = [], cfg_maxStale = 604800, cfg_minimum_expiry_time = 60, cfg_refresh_all_ims = False,
     cfg_reload_into_ims = False, cfg_offline = False, cfg_vary_ignore_expire = False\<rparr>"

definition ex_request :: http_request where
  "ex_request = \<lparr>rq_canonical = ''http://a/'', rq_cc = None, rq_ignoreCc = False, rq_ims = False, rq_nocacheHack = False,
     rq_noCache = False, rq_failOnValidationError = False, rq_staleIfHit = False, rq_auth = False, rq_authSent = False,
     rq_peer_http_request_sent = 0\<rparr>"

definition ex_entry :: "int \<Rightarrow> int \<Rightarrow> 16 word \<Rightarrow> cached_entry" where
  "ex_entry timestamp expires flags = \<lparr>se_key = (0, 0), se_timestamp = timestamp, se_lastref = 0, se_expires = expires, se_lastmod = -1,
     se_swap_file_sz = 0, se_refcount = 0, se_flags = flags, ce_mem_obj = None\<rparr>"

lemmas ex_refresh_defs = ex_config_def ex_request_def ex_entry_def refreshMinFresh_def refreshAge_def refreshRule_def
  refreshLimits_def DefaultRefresh_def

theorem refresh_decision_witness:
  "\<exists>r' c'. refreshCheckHTTP ex_config 120 (ex_entry 50 100 0) ex_request refreshInit = Inr (True, r', c')"
proof -
  have 1: "refreshMinFresh (Some ex_request) = 0" "refreshAge 120 (ex_entry 50 100 0) = 70"
    "refreshRule ex_config (ex_entry 50 100 0) (Some ex_request) = DefaultRefresh" by (simp_all add: ex_refresh_defs)
  have 2: "refresh_excess (ex_entry 50 100 0) 120 70 DefaultRefresh = 20" by (simp add: refresh_excess_def ex_entry_def)
  have 3: "\<not> may_serve ex_config DefaultRefresh (ex_entry 50 100 0) ex_request 70 20"
    by (simp add: may_serve_def client_accepts_def client_cc_def rule_overrides_def ex_request_def DefaultRefresh_def)
  have 4: "-(2 ^ 31) \<le> cfg_maxStale ex_config" "cfg_maxStale ex_config < 2 ^ 31" "rp_max_stale DefaultRefresh < 2 ^ 31" "\<not> cfg_offline ex_config"
    by (simp_all add: ex_config_def DefaultRefresh_def)
  show ?thesis using refresh_decision [of "ex_entry 50 100 0" 120 ex_request ex_config refreshInit] 1 2 3 4 by simp
qed

section \<open>Two defects\<close>

text \<open>
  The staleness of a response that expired at the epoch, asked for with a large \<^verbatim>\<open>min-fresh\<close>, does not fit
  an \<^verbatim>\<open>int\<close>. Narrowed it is negative, and the response that must be revalidated is not recognized as one:
  the reason is another and a failed validation will not be reported.
\<close>

definition ex_min_fresh :: http_request where
  "ex_min_fresh = ex_request\<lparr>rq_cc := Some (cc_minFresh 2147483647 HttpHdrCc)\<rparr>"

lemma refresh_staleness_wraps:
  "refreshCheck ex_config 1700000000 (ex_entry 1699999999 0 2) (Some ex_min_fresh) 0 = Inr (STALE_EXPIRES, Some ex_min_fresh)"
proof -
  let ?e = "ex_entry 1699999999 0 2"
  have cc: "\<not> cc_isSet HttpHdrCc t" for t by (simp add: HttpHdrCc_def cc_isSet_def)
  have mf: "refreshMinFresh (Some ex_min_fresh) = 2147483647"
    by (simp add: refreshMinFresh_def ex_min_fresh_def ex_request_def cc_minFresh_def cc_setValue_def)
  have "to_int32 3847483647 = -447483649" unfolding to_int32_def by (simp add: signed_take_bit_def take_bit_eq_mod bit_iff_odd mask_eq_exp_minus_1)
  then have st: "refreshStaleness ?e 3847483647 age R = (-447483649, no_flags\<lparr>sf_expires := True\<rparr>)" for age R
    by (simp add: refreshStaleness_def ex_entry_def)
  have rule: "refreshRule ex_config ?e q = DefaultRefresh" for q
    by (simp add: refreshRule_def ex_config_def refreshLimits_def refreshUncompiledPattern_def split: option.split)
  have "refreshRequestChecks ex_config R age (-447483649) ex_min_fresh = (None, ex_min_fresh)" for R age
    by (simp add: refreshRequestChecks_def ex_min_fresh_def ex_request_def cc_minFresh_def cc_setValue_def refreshMaxAgeCheck_def
      refreshMaxStaleCheck_def cc)
  moreover have "refreshStaleIfError ?e s q = q" for s q
    by (simp add: refreshStaleIfError_def ex_entry_def split: option.split)
  moreover have "refreshStaleChecks ex_config DefaultRefresh age (-447483649) (no_flags\<lparr>sf_expires := True\<rparr>) q = (STALE_EXPIRES, q)" for age q
    by (simp add: refreshStaleChecks_def DefaultRefresh_def Let_def)
  moreover have "0 \<le> refreshAge 1700000000 ?e" by (simp add: refreshAge_def)
  ultimately show ?thesis by (simp add: refreshCheck_def mf st rule Let_def)
qed

text \<open>
  Where no rule matches, the built-in rule applies, whose limit on staleness is left 0 by the initialization
  instead of being unset. So every stale response is beyond the limit, whatever \<^verbatim>\<open>max_stale\<close> is configured,
  and an error of the origin server is passed on instead of the stale response.
\<close>

lemma default_rule_blocks_stale:
  assumes "cfg_Refresh cfg = []" and "se_expires e \<ge> 0" and "se_expires e < now" and "now - se_expires e < 2 ^ 31"
    and "\<not> entry_flag e ENTRY_REVALIDATE" and "rq_cc r = None" "\<not> rq_ims r" "\<not> rq_nocacheHack r"
  shows "\<exists>r'. refreshCheck cfg now e (Some r) 0 = Inr (STALE_MAX_STALE, Some r') \<and> rq_failOnValidationError r'"
proof -
  have rule: "refreshRule cfg e (Some r) = DefaultRefresh"
    using assms(1) by (simp add: refreshRule_def refreshLimits_def split: option.split)
  have mf: "refreshMinFresh (Some r) = 0" using assms(6) by (simp add: refreshMinFresh_def)
  have st: "refreshStaleness e now age R = (now - se_expires e, no_flags\<lparr>sf_expires := True\<rparr>)" for age R
    using assms(2-4) by (simp add: refreshStaleness_def)
  obtain r0 where r0: "refreshStaleIfError e (now - se_expires e) (Some r) = Some r0" "r0 = r \<or> r0 = r\<lparr>rq_failOnValidationError := True\<rparr>"
    using refreshStaleIfError_Some by blast
  have "refreshRequestChecks cfg R age s r0 = (None, r0)" for R age s
    using r0(2) assms(6-8) by (auto simp: refreshRequestChecks_def)
  moreover have "refreshStaleChecks cfg DefaultRefresh age (now - se_expires e) sf (Some r0) =
      (STALE_MAX_STALE, Some (r0\<lparr>rq_failOnValidationError := True\<rparr>))" for age sf
    using assms(3) by (simp add: refreshStaleChecks_def DefaultRefresh_def Let_def)
  moreover have "0 \<le> refreshAge now e" by (simp add: refreshAge_def)
  ultimately show ?thesis using assms(3,5) by (simp add: refreshCheck_def mf st rule r0(1) Let_def)
qed

end
