(* ===== verification/Http_Cacheable.thy ===== *)
theory Http_Cacheable
  imports Refresh
begin

text \<open>
  What is stored and for how long: \<^verbatim>\<open>HttpReply::hdrExpirationTime\<close> (src/HttpReply.cc), the times of a
  \<^verbatim>\<open>StoreEntry\<close> (src/store.cc) and the decision whether a reply may be cached,
  \<^verbatim>\<open>HttpStateData::cacheableReply\<close> with the marking of replies that must be revalidated (src/http.cc).
\<close>

unbundle bit_operations_syntax

section \<open>Times\<close>

definition hdrExpirationTime :: "refresh_config \<Rightarrow> int \<Rightarrow> http_reply \<Rightarrow> int" where
  "hdrExpirationTime cfg now rep =
     (let cc = hr_cc rep;
          from_cc = (case cc of None \<Rightarrow> None
            | Some c \<Rightarrow>
                if hr_date rep \<ge> 0 then
                  (if cc_isSet c CC_S_MAXAGE then Some (hr_date rep + cc_s_maxage c)
                   else if cc_isSet c CC_MAX_AGE then Some (hr_date rep + cc_max_age c) else None)
                else
                  (if cc_isSet c CC_S_MAXAGE then Some now
                   else if cc_isSet c CC_MAX_AGE then Some now else None))
      in case from_cc of
           Some t \<Rightarrow> t
         | None \<Rightarrow>
             if cfg_vary_ignore_expire cfg \<and> hr_has_vary rep \<and> hr_date_field rep = hr_expires_field rep then -1
             else if hr_has_expires rep then (if hr_expires_field rep < 0 then now else hr_expires_field rep)
             else -1)"

definition served_date_of :: "int \<Rightarrow> http_reply \<Rightarrow> http_request option \<Rightarrow> int" where
  "served_date_of now rep q =
     (let d0 = hr_date rep;
          d1 = (if d0 < 0 \<or> d0 > now then now else if d0 < now - 24 * 60 * 60 then now else d0);
          d2 = (if hr_age rep > now - d1 then (if now > hr_age rep then now - hr_age rep else d1) else d1)
      in case q of None \<Rightarrow> d2
         | Some r \<Rightarrow> (let sent = rq_peer_http_request_sent r
                      in if 0 < sent \<and> sent < now then d2 - (now - sent) else d2))"

definition timestampsSet :: "int \<Rightarrow> cached_entry \<Rightarrow> cached_entry res" where
  "timestampsSet now e =
     (case ce_mem_obj e of
        None \<Rightarrow> Inl Dangling
      | Some m \<Rightarrow> (case mo_reply m of
          None \<Rightarrow> Inl Dangling
        | Some rep \<Rightarrow>
            (let served_date = served_date_of now rep (mo_request m);
                 expires = (if hr_expires rep > 0 \<and> hr_date rep > -1 then served_date + (hr_expires rep - hr_date rep)
                            else hr_expires rep)
             in Inr (e\<lparr>se_expires := expires, se_lastmod := hr_last_modified rep, se_timestamp := served_date\<rparr>))))"

definition expireNow :: "int \<Rightarrow> cached_entry \<Rightarrow> cached_entry" where
  "expireNow now e = e\<lparr>se_expires := now\<rparr>"

definition ENTRY_NEGCACHED :: nat where
  "ENTRY_NEGCACHED = 9"

definition negativeCache :: "int \<Rightarrow> int \<Rightarrow> cached_entry \<Rightarrow> cached_entry" where
  "negativeCache now negativeTtl e =
     (let e1 = (if se_expires e \<le> 0 then e\<lparr>se_expires := now + negativeTtl\<rparr> else e)
      in e1\<lparr>se_flags := se_flags e1 OR push_bit ENTRY_NEGCACHED 1\<rparr>)"

section \<open>Cacheability\<close>

definition refresh_override :: "refresh_config \<Rightarrow> string \<Rightarrow> (refresh_pattern \<Rightarrow> bool) \<Rightarrow> bool" where
  "refresh_override cfg url flag = (case refreshLimits cfg url of None \<Rightarrow> False | Some R \<Rightarrow> flag R)"

text \<open>The conditions of \<^verbatim>\<open>Cache-Control\<close> in the request and in the reply.\<close>

definition cc_forbids_store :: "((refresh_pattern \<Rightarrow> bool) \<Rightarrow> bool) \<Rightarrow> http_request option \<Rightarrow> http_reply \<Rightarrow> bool" where
  "cc_forbids_store ov q rep \<longleftrightarrow>
     (case Option.bind q rq_cc of None \<Rightarrow> False | Some cc \<Rightarrow> cc_isSet cc CC_NO_STORE \<and> \<not> ov rp_ignore_no_store) \<or>
     (case hr_cc rep of None \<Rightarrow> False
      | Some cc \<Rightarrow>
          (cc_isSet cc CC_NO_CACHE \<and> st_defined (cc_no_cache cc)) \<or>
          (cc_isSet cc CC_NO_STORE \<and> \<not> ov rp_ignore_no_store) \<or>
          (cc_isSet cc CC_PRIVATE \<and> \<not> ov rp_ignore_private))"

text \<open>An authenticated reply: what lets it be stored.\<close>

definition auth_may_store :: "((refresh_pattern \<Rightarrow> bool) \<Rightarrow> bool) \<Rightarrow> http_hdr_cc \<Rightarrow> bool" where
  "auth_may_store ov cc \<longleftrightarrow>
     (if cc_isSet cc CC_PUBLIC then True
      else if cc_isSet cc CC_MUST_REVALIDATE \<and> \<not> ov rp_ignore_must_revalidate then True
      else if cc_isSet cc CC_NO_CACHE \<and> \<not> st_defined (cc_no_cache cc) \<and> \<not> ov rp_ignore_must_revalidate then True
      else cc_s_maxage cc \<noteq> 0)"

definition auth_forbids_store :: "((refresh_pattern \<Rightarrow> bool) \<Rightarrow> bool) \<Rightarrow> bool \<Rightarrow> http_request option \<Rightarrow> http_reply \<Rightarrow> bool" where
  "auth_forbids_store ov ignoreCacheControl q rep \<longleftrightarrow>
     (case q of None \<Rightarrow> False
      | Some r \<Rightarrow>
          (rq_auth r \<or> rq_authSent r) \<and> \<not> ov rp_ignore_auth \<and>
          (case hr_cc rep of None \<Rightarrow> True | Some cc \<Rightarrow> ignoreCacheControl \<or> \<not> auth_may_store ov cc))"

definition is_mixed_replace :: "http_reply \<Rightarrow> bool" where
  "is_mixed_replace rep = (case hr_content_type rep of None \<Rightarrow> False
     | Some v \<Rightarrow> c_strncaseeq v ''multipart/x-mixed-replace'' 25)"

definition cacheable_by_status ::
  "refresh_config \<Rightarrow> int \<Rightarrow> ((refresh_pattern \<Rightarrow> bool) \<Rightarrow> bool) \<Rightarrow> http_reply \<Rightarrow> cached_entry \<Rightarrow> refresh_counts \<Rightarrow> (int \<times> refresh_counts) res" where
  "cacheable_by_status cfg now ov rep e c =
     (let status = hr_status rep
      in if status \<in> {200, 203, 300, 301, 308, 410} then
           res_bind (refreshIsCachable cfg now e c) (\<lambda>(ok, c1).
             Inr (if \<not> ok \<and> \<not> ov rp_store_stale then 0 else 1, c1))
         else if status \<in> {302, 307} then
           Inr (if hr_date rep \<le> 0 then 0 else if hr_expires rep > hr_date rep then 1 else 0, c)
         else if status \<in> {204, 305, 400, 403, 404, 405, 414, 500, 501, 502, 503, 504} then Inr (-1, c)
         else Inr (0, c))"

text \<open>
  1 is cacheable, -1 negatively cacheable, 0 not. \<^verbatim>\<open>surrogateNoStore\<close> and \<^verbatim>\<open>ignoreCacheControl\<close> are
  members of the connection's state.
\<close>

definition cacheableReply ::
  "refresh_config \<Rightarrow> int \<Rightarrow> bool \<Rightarrow> bool \<Rightarrow> http_request option \<Rightarrow> http_reply \<Rightarrow> cached_entry \<Rightarrow> refresh_counts \<Rightarrow> (int \<times> refresh_counts) res" where
  "cacheableReply cfg now surrogateNoStore ignoreCacheControl q rep e c =
     (case ce_mem_obj e of
        None \<Rightarrow> Inl Dangling
      | Some m \<Rightarrow>
          (let ov = refresh_override cfg (mo_url m)
           in if surrogateNoStore then Inr (0, c)
              else if \<not> ignoreCacheControl \<and> cc_forbids_store ov q rep then Inr (0, c)
              else if auth_forbids_store ov ignoreCacheControl q rep then Inr (0, c)
              else if is_mixed_replace rep then Inr (0, c)
              else cacheable_by_status cfg now ov rep e c))"

section \<open>Marking for revalidation\<close>

definition hasListMember :: "string \<Rightarrow> string \<Rightarrow> char \<Rightarrow> bool" where
  "hasListMember header member separator =
     list_ex (\<lambda>(item, ilen). c_strncaseeq item member (length member) \<and>
       (let c = (if length member < length item then item ! length member else CHR 0x00)
        in c = CHR ''='' \<or> c = separator \<or> c = CHR '';'' \<or> c = CHR 0x00)) (sl_items separator header)"

text \<open>The last part of \<^verbatim>\<open>haveParsedReplyHeaders\<close>.\<close>

definition markRevalidate :: "bool \<Rightarrow> http_reply \<Rightarrow> cached_entry \<Rightarrow> cached_entry" where
  "markRevalidate ignoreCacheControl rep e =
     (let set_flag = e\<lparr>se_flags := se_flags e OR push_bit ENTRY_REVALIDATE 1\<rparr>
      in if ignoreCacheControl then e
         else (case hr_cc rep of
             Some cc \<Rightarrow>
               (let ccMustRevalidate = (cc_isSet cc CC_PROXY_REVALIDATE \<or> cc_isSet cc CC_MUST_REVALIDATE);
                    ccNoCacheNoParams = (cc_isSet cc CC_NO_CACHE \<and> \<not> st_defined (cc_no_cache cc));
                    ccSMaxAge = cc_isSet cc CC_S_MAXAGE;
                    ccPrivate = cc_isSet cc CC_PRIVATE
                in if ccMustRevalidate \<or> ccNoCacheNoParams \<or> ccSMaxAge \<or> ccPrivate then set_flag else e)
           | None \<Rightarrow> (case hr_pragma rep of
               None \<Rightarrow> e
             | Some p \<Rightarrow> if hasListMember p ''no-cache'' (CHR '','') then set_flag else e)))"

section \<open>From the field to the decision\<close>

lemma cc_parse_directive_keeps:
  assumes "cc_parse_directive d p vlen item cc = Inr cc'" and "cc_isSet cc t" and "t \<noteq> d"
  shows "cc_isSet cc' t"
  using assms
  by (cases d) (auto simp: cc_parse_directive_def cc_parse_number_def cc_parse_max_stale_def cc_parse_private_def cc_parse_no_cache_def
      cc_parse_other_def cc_setValue_def res_bind_Inr_iff split: option.splits)

text \<open>Parsing further directives does not take back what is set.\<close>

lemma cc_parse_item_keeps:
  assumes "cc_parse_item it (cc, rep) = Inr (cc', rep')" and "cc_isSet cc t" and "t \<noteq> CC_OTHER"
  shows "cc_isSet cc' t"
proof -
  obtain item ilen where it: "it = (item, ilen)" by (cases it)
  obtain d p vlen i where eq: "cc_parse_item it (cc, rep) = (if cc_isSet cc d \<and> d \<noteq> CC_OTHER then Inr (cc, rep(d := Suc (rep d)))
      else res_bind (cc_parse_directive d p vlen i cc) (\<lambda>cc1. Inr (cc1, rep)))"
    unfolding it by (simp add: cc_parse_item_def Let_def)
  show ?thesis using assms(1) [unfolded eq] assms(2,3) cc_parse_directive_keeps [of d p vlen i cc cc' t]
    by (cases "d = t") (auto simp: res_bind_Inr_iff split: if_splits)
qed

lemma cc_parse_items_keeps:
  assumes "cc_parse_items its (cc, rep) = Inr (cc', rep')" and "cc_isSet cc t" and "t \<noteq> CC_OTHER"
  shows "cc_isSet cc' t"
  using assms
proof (induction its arbitrary: cc rep)
  case (Cons it its)
  then obtain cc1 rep1 where "cc_parse_item it (cc, rep) = Inr (cc1, rep1)" "cc_parse_items its (cc1, rep1) = Inr (cc', rep')"
    by (auto simp: res_bind_Inr_iff)
  then show ?case using Cons cc_parse_item_keeps [of it cc rep cc1 rep1 t] by blast
qed simp

lemma cc_parse_plain_sets:
  assumes "t \<in> {CC_NO_STORE, CC_PRIVATE}" and "cc_parse_item (cc_name t @ rest, length (cc_name t)) (cc, rep) = Inr (cc', rep')"
  shows "cc_isSet cc' t"
proof (cases "cc_isSet cc t")
  case True
  then show ?thesis using assms cc_parse_item_keeps by blast
next
  case False
  then show ?thesis using assms parse_plain_name [of t cc rest rep]
    by (auto simp: cc_parse_directive_def cc_parse_private_def)
qed

lemma cc_parse_tokens_sets:
  assumes "t \<in> {CC_NO_STORE, CC_PRIVATE}" and "cc_name t \<in> set ts" and "cc_parse_items (tok_items ts) (cc, rep) = Inr (cc', rep')"
  shows "cc_isSet cc' t"
  using assms(2,3)
proof (induction ts arbitrary: cc rep)
  case (Cons x ts)
  then obtain cc1 rep1 where 1: "cc_parse_item (x @ lead_join ts, length x) (cc, rep) = Inr (cc1, rep1)"
    "cc_parse_items (tok_items ts) (cc1, rep1) = Inr (cc', rep')" by (auto simp: res_bind_Inr_iff)
  show ?case
  proof (cases "x = cc_name t")
    case True
    then have "cc_isSet cc1 t" using cc_parse_plain_sets [OF assms(1)] 1(1) by blast
    then show ?thesis using cc_parse_items_keeps [OF 1(2)] assms(1) by blast
  next
    case False
    then show ?thesis using Cons 1(2) by auto
  qed
qed simp

lemma cc_parse_field_sets:
  assumes "t \<in> {CC_NO_STORE, CC_PRIVATE}" and "list_all (sl_token (CHR '','')) ts" and "cc_name t \<in> set ts"
    and "cc_parse rep HttpHdrCc (cc_join ts) = Inr (b, cc, rep')"
  shows "cc_isSet cc t"
proof -
  have "cc_parse_items (tok_items ts) (HttpHdrCc, rep) = Inr (cc, rep')"
    using assms(2,4) sl_items_join(2) [of ts] by (auto simp: cc_parse_def res_bind_Inr_iff list_all_iff)
  then show ?thesis by (rule cc_parse_tokens_sets [OF assms(1,3)])
qed

text \<open>
  C29. A reply whose \<^verbatim>\<open>Cache-Control\<close> field lists \<^verbatim>\<open>no-store\<close> or \<^verbatim>\<open>private\<close> anywhere among its directives is not
  stored, neither as a hit nor negatively, whatever its status and the request, unless the rule of its
  URL overrides just that directive or the field is ignored altogether.
\<close>

theorem forbidden_reply_not_stored:
  assumes "list_all (sl_token (CHR '','')) ts"
    and "cc_parse rep0 HttpHdrCc (cc_join ts) = Inr (True, cc, rep1)" and "hr_cc rep = Some cc"
    and "''no-store'' \<in> set ts \<and> \<not> refresh_override cfg (mo_url m) rp_ignore_no_store \<or>
         ''private'' \<in> set ts \<and> \<not> refresh_override cfg (mo_url m) rp_ignore_private"
    and "ce_mem_obj e = Some m"
  shows "cacheableReply cfg now sns False q rep e c = Inr (0, c)"
proof -
  have "cc_isSet cc CC_NO_STORE" if "''no-store'' \<in> set ts"
    using cc_parse_field_sets [OF _ assms(1) _ assms(2), of CC_NO_STORE] that by (simp add: cc_name_def CcAttrs_def)
  moreover have "cc_isSet cc CC_PRIVATE" if "''private'' \<in> set ts"
    using cc_parse_field_sets [OF _ assms(1) _ assms(2), of CC_PRIVATE] that by (simp add: cc_name_def CcAttrs_def)
  ultimately show ?thesis using assms(3-5) by (auto simp: cacheableReply_def cc_forbids_store_def Let_def)
qed

definition ex_reply :: "http_hdr_cc option \<Rightarrow> http_reply" where
  "ex_reply cc = \<lparr>hr_status = 200, hr_date = 1000, hr_expires = -1, hr_last_modified = 500, hr_content_length = 10, hr_cc = cc,
     hr_has_vary = False, hr_has_expires = False, hr_date_field = 1000, hr_expires_field = -1, hr_age = -1,
     hr_content_type = None, hr_pragma = None\<rparr>"

definition ex_mem :: "http_reply \<Rightarrow> mem_object" where
  "ex_mem rep = \<lparr>mo_url = ''http://a/'', mo_reply = Some rep, mo_request = None\<rparr>"

theorem forbidden_reply_not_stored_witness:
  "cacheableReply ex_config 1001 False False None (ex_reply (Some (cc_setMask CC_NO_STORE True HttpHdrCc)))
     ((ex_entry 1000 (-1) 0)\<lparr>ce_mem_obj := Some (ex_mem (ex_reply None))\<rparr>) refreshInit = Inr (0, refreshInit)"
proof -
  have tok: "sl_token (CHR '','') ''no-store''" using cc_name_token [of CC_NO_STORE] by (simp add: cc_name_def CcAttrs_def)
  then have "sl_items (CHR '','') (cc_join [''no-store'']) = tok_items [''no-store'']" by (intro sl_items_join(2)) simp
  then have "cc_parse (\<lambda>_. 0) HttpHdrCc (cc_join [''no-store'']) = Inr (True, cc_setMask CC_NO_STORE True HttpHdrCc, \<lambda>_. 0)"
    using parse_plain_name [of CC_NO_STORE HttpHdrCc "[]" "\<lambda>_. 0"]
    by (simp add: cc_parse_def cc_name_def CcAttrs_def cc_parse_directive_def cc_setMask_def HttpHdrCc_def cc_isSet_def)
  then show ?thesis using tok
    by (intro forbidden_reply_not_stored [of "[''no-store'']" "\<lambda>_. 0" "cc_setMask CC_NO_STORE True HttpHdrCc" "\<lambda>_. 0" _ _ "ex_mem (ex_reply None)"])
      (simp_all add: ex_reply_def ex_config_def refresh_override_def refreshLimits_def)
qed

section \<open>How long a reply stays fresh\<close>

lemma served_date_bounds:
  assumes "0 \<le> now"
  shows "served_date_of now rep q \<le> now"
    and "hr_age rep < now \<Longrightarrow> hr_age rep \<le> now - served_date_of now rep q"
    and "now - 24 * 60 * 60 \<le> hr_date rep \<Longrightarrow> 0 \<le> hr_date rep \<Longrightarrow> now - hr_date rep \<le> now - served_date_of now rep q"
    and "q = Some r \<Longrightarrow> 0 < rq_peer_http_request_sent r \<Longrightarrow> now - rq_peer_http_request_sent r \<le> now - served_date_of now rep q"
  using assms by (auto simp: served_date_of_def Let_def split: option.splits)

text \<open>
  C28. A reply with a date and a lifetime in \<^verbatim>\<open>Cache-Control\<close>, \<^verbatim>\<open>s-maxage\<close> before \<^verbatim>\<open>max-age\<close>, is fresh for exactly that
  many seconds of its age: when the entry's times are set from the reply, the staleness at a later
  moment is -1 if and only if the age then is less than the lifetime. The age is counted from a moment that
  makes it at least the value of the \<^verbatim>\<open>Age\<close> field, at least the time since the reply's date unless that is
  more than a day ago, and at least the time since the request was sent.
\<close>

theorem freshness_lifetime:
  assumes cc: "hr_cc rep = Some cc" "cc_ok cc" "cc_isSet cc CC_S_MAXAGE \<or> cc_isSet cc CC_MAX_AGE" and date: "0 < hr_date rep"
    and rep: "hr_expires rep = hdrExpirationTime cfg now rep"
    and e: "ce_mem_obj e = Some m" "mo_reply m = Some rep" "timestampsSet now e = Inr e'"
    and now: "0 \<le> now" "now \<le> ct" and range: "0 \<le> se_expires e'" "ct - se_expires e' < 2 ^ 31"
  shows "(fst (refreshStaleness e' ct (refreshAge ct e') R) = -1 \<longleftrightarrow>
      refreshAge ct e' < (if cc_isSet cc CC_S_MAXAGE then cc_s_maxage cc else cc_max_age cc)) \<and>
    (hr_age rep < now \<longrightarrow> hr_age rep \<le> refreshAge now e') \<and>
    (now - 24 * 60 * 60 \<le> hr_date rep \<longrightarrow> now - hr_date rep \<le> refreshAge now e') \<and>
    (\<forall>r. mo_request m = Some r \<longrightarrow> 0 < rq_peer_http_request_sent r \<longrightarrow> now - rq_peer_http_request_sent r \<le> refreshAge now e')"
proof -
  define life where "life = (if cc_isSet cc CC_S_MAXAGE then cc_s_maxage cc else cc_max_age cc)"
  define served where "served = served_date_of now rep (mo_request m)"
  have life0: "0 \<le> life" using cc(2,3) by (auto simp: life_def cc_ok_def)
  have "hr_expires rep = hr_date rep + life"
    using cc(1,3) date rep by (auto simp: hdrExpirationTime_def life_def Let_def)
  then have e': "se_expires e' = served + life" "se_timestamp e' = served"
    using e date life0 by (auto simp: timestampsSet_def served_def Let_def)
  have served: "served \<le> now" using served_date_bounds(1) [OF now(1)] by (simp add: served_def)
  have age: "refreshAge t e' = t - served" if "now \<le> t" for t using e'(2) served that by (simp add: refreshAge_def)
  have "fst (refreshStaleness e' ct (refreshAge ct e') R) = -1 \<longleftrightarrow> refreshAge ct e' < life"
    using range e' age [OF now(2)] by (auto simp: refreshStaleness_def)
  then show ?thesis using served_date_bounds(2-4) [OF now(1), where rep = rep and q = "mo_request m"] date age [of now]
    by (auto simp: life_def served_def)
qed

theorem freshness_lifetime_witness:
  "fst (refreshStaleness ((ex_entry 1000 1060 0)\<lparr>se_lastmod := 500, ce_mem_obj := Some (ex_mem ((ex_reply (Some (cc_maxAge 60 HttpHdrCc)))\<lparr>hr_expires := 1060\<rparr>))\<rparr>)
     1050 50 DefaultRefresh) = -1"
proof -
  let ?cc = "cc_maxAge 60 HttpHdrCc"
  let ?rep = "(ex_reply (Some ?cc))\<lparr>hr_expires := 1060\<rparr>"
  let ?e = "(ex_entry 0 0 0)\<lparr>ce_mem_obj := Some (ex_mem ?rep)\<rparr>"
  let ?e' = "(ex_entry 1000 1060 0)\<lparr>se_lastmod := 500, ce_mem_obj := Some (ex_mem ?rep)\<rparr>"
  have no: "\<not> cc_isSet HttpHdrCc t" for t by (simp add: HttpHdrCc_def cc_isSet_def)
  have 1: "cc_ok ?cc" using cc_setters_ok(2) [OF HttpHdrCc_ok, of 60] by simp
  have 2: "cc_isSet ?cc CC_MAX_AGE" "\<not> cc_isSet ?cc CC_S_MAXAGE" "cc_max_age ?cc = 60" by (simp_all add: cc_maxAge_def cc_setValue_def no)
  have 3: "hr_expires ?rep = hdrExpirationTime ex_config 1001 ?rep" using 2 by (simp add: hdrExpirationTime_def ex_reply_def Let_def)
  have 4: "timestampsSet 1001 ?e = Inr ?e'" by (simp add: timestampsSet_def served_date_of_def ex_mem_def ex_reply_def ex_entry_def Let_def)
  have 5: "refreshAge 1050 ?e' = 50" by (simp add: refreshAge_def ex_entry_def)
  have 6: "0 \<le> se_expires ?e'" "1050 - se_expires ?e' < 2 ^ 31" by (simp_all add: ex_entry_def)
  have 7: "hr_cc ?rep = Some ?cc" "0 < hr_date ?rep" by (simp_all add: ex_reply_def)
  have 9: "0 \<le> (1001 :: int)" "(1001 :: int) \<le> 1050" by simp_all
  have 8: "ce_mem_obj ?e = Some (ex_mem ?rep)" "mo_reply (ex_mem ?rep) = Some ?rep" by (simp_all add: ex_mem_def)
  have "fst (refreshStaleness ?e' 1050 (refreshAge 1050 ?e') DefaultRefresh) = -1 \<longleftrightarrow>
      refreshAge 1050 ?e' < (if cc_isSet ?cc CC_S_MAXAGE then cc_s_maxage ?cc else cc_max_age ?cc)"
    using freshness_lifetime [OF 7(1) 1 disjI2 [OF 2(1)] 7(2) 3 8 4 9 6, of DefaultRefresh] by (rule conjunct1)
  then show ?thesis using 2 5 by simp
qed

section \<open>Authenticated replies\<close>

text \<open>
  C30. Replies to authenticated requests are stored as if the request were not authenticated, as soon as they
  have a \<^verbatim>\<open>Cache-Control\<close> field without \<^verbatim>\<open>s-maxage\<close>: the test of \<^verbatim>\<open>sMaxAge()\<close>, which is -1 when the directive is
  absent, succeeds, so the exceptions that HTTP makes for \<^verbatim>\<open>public\<close>, \<^verbatim>\<open>must-revalidate\<close> and \<^verbatim>\<open>s-maxage\<close> are
  extended to any field. With \<^verbatim>\<open>s-maxage=0\<close>, of all values, and none of the others the reply is refused.
\<close>

theorem authenticated_reply_stored:
  assumes "hr_cc rep = Some cc" and "cc_ok cc" and "ce_mem_obj e = Some m" and "\<not> refresh_override cfg (mo_url m) rp_ignore_auth"
  shows "(\<not> cc_isSet cc CC_S_MAXAGE \<longrightarrow> cacheableReply cfg now sns False (Some r) rep e c =
       cacheableReply cfg now sns False (Some (r\<lparr>rq_auth := False, rq_authSent := False\<rparr>)) rep e c) \<and>
    (cc_s_maxage cc = 0 \<and> rq_auth r \<and> \<not> cc_isSet cc CC_PUBLIC \<and> \<not> cc_isSet cc CC_MUST_REVALIDATE \<and> \<not> cc_isSet cc CC_NO_CACHE \<longrightarrow>
       cacheableReply cfg now sns False (Some r) rep e c = Inr (0, c))"
proof -
  let ?r = "r\<lparr>rq_auth := False, rq_authSent := False\<rparr>" and ?ov = "refresh_override cfg (mo_url m)"
  have "\<not> auth_forbids_store ?ov False (Some r) rep" "\<not> auth_forbids_store ?ov False (Some ?r) rep" if "\<not> cc_isSet cc CC_S_MAXAGE"
    using assms(1,2) that by (simp_all add: auth_forbids_store_def auth_may_store_def cc_ok_def)
  moreover have "cc_forbids_store ?ov (Some ?r) rep = cc_forbids_store ?ov (Some r) rep" by (simp add: cc_forbids_store_def)
  moreover have "auth_forbids_store ?ov False (Some r) rep"
    if "cc_s_maxage cc = 0 \<and> rq_auth r \<and> \<not> cc_isSet cc CC_PUBLIC \<and> \<not> cc_isSet cc CC_MUST_REVALIDATE \<and> \<not> cc_isSet cc CC_NO_CACHE"
    using assms(1,4) that by (simp add: auth_forbids_store_def auth_may_store_def)
  ultimately show ?thesis using assms(3) by (simp add: cacheableReply_def Let_def)
qed

theorem authenticated_reply_stored_witness:
  "cacheableReply ex_config 1001 False False (Some (ex_request\<lparr>rq_auth := True\<rparr>)) (ex_reply (Some (cc_maxAge 60 HttpHdrCc)))
     ((ex_entry 1000 1060 0)\<lparr>ce_mem_obj := Some (ex_mem (ex_reply None))\<rparr>) refreshInit =
   cacheableReply ex_config 1001 False False (Some ex_request) (ex_reply (Some (cc_maxAge 60 HttpHdrCc)))
     ((ex_entry 1000 1060 0)\<lparr>ce_mem_obj := Some (ex_mem (ex_reply None))\<rparr>) refreshInit"
proof -
  have "cc_ok (cc_maxAge 60 HttpHdrCc)" using cc_setters_ok(2) [OF HttpHdrCc_ok, of 60] by simp
  moreover have "\<not> cc_isSet (cc_maxAge 60 HttpHdrCc) CC_S_MAXAGE"
    by (simp add: cc_maxAge_def cc_setValue_def) (simp add: HttpHdrCc_def cc_isSet_def)
  moreover have "\<not> refresh_override ex_config (mo_url (ex_mem (ex_reply None))) rp_ignore_auth"
    by (simp add: refresh_override_def ex_config_def refreshLimits_def)
  moreover have "ex_request\<lparr>rq_auth := True, rq_auth := False, rq_authSent := False\<rparr> = ex_request" by (simp add: ex_request_def)
  ultimately show ?thesis
    using authenticated_reply_stored [of "ex_reply (Some (cc_maxAge 60 HttpHdrCc))" "cc_maxAge 60 HttpHdrCc"
        "(ex_entry 1000 1060 0)\<lparr>ce_mem_obj := Some (ex_mem (ex_reply None))\<rparr>" "ex_mem (ex_reply None)" ex_config 1001 False
        "ex_request\<lparr>rq_auth := True\<rparr>" refreshInit]
    by (simp add: ex_reply_def)
qed

end
