(* ===== verification/Lib_Base64.thy ===== *)
theory Lib_Base64
  imports C_Strings
begin

text \<open>
  The base64 coder of lib/base64.c, which credentials and tokens of helpers pass through. Shifts and
  masks of non-negative values are divisions and remainders; the result buffer is the list of the bytes
  written so far, bounded by its size. Data may hold zero bytes, a text ends before its first one.
\<close>

section \<open>The coder\<close>

definition byte_of :: "char \<Rightarrow> nat" where
  "byte_of c = of_char c"

definition base64_code :: string where
  "base64_code = ''ABCDEFGHIJKLMNOPQRSTUVWXYZabcdefghijklmnopqrstuvwxyz0123456789+/''"

definition base64_value :: "int list" where
  "base64_value =
     (fold (\<lambda>i v. v[byte_of (base64_code ! i) := int i]) [0..<64] (replicate 256 (-1)))[byte_of (CHR ''='') := 0]"

definition base64_decode_len :: "string \<Rightarrow> int" where
  "base64_decode_len data =
     (if data = [] then 0
      else (let terminatorLen = length (takeWhile (\<lambda>c. c = CHR ''='') (rev data))
            in int (length data div 4 * 3) - int terminatorLen))"

text \<open>The three bytes of a quantum; a full buffer ends the decoding.\<close>

definition b64_put :: "nat \<Rightarrow> string \<Rightarrow> nat \<Rightarrow> string" where
  "b64_put result_size result val =
     (let b1 = char_of ((val div 2 ^ 16) mod 256); b2 = char_of ((val div 2 ^ 8) mod 256); b3 = char_of (val mod 256)
      in if length result + 4 \<le> result_size then result @ [b1, b2, b3]
         else if length result + 1 = result_size then result @ [b1]
         else if length result + 2 = result_size then result @ [b1, b2]
         else result @ [b1, b2, b3])"

fun b64_decode_loop :: "nat \<Rightarrow> string \<Rightarrow> nat \<Rightarrow> nat \<Rightarrow> string \<Rightarrow> string" where
  "b64_decode_loop result_size result val c [] = result"
| "b64_decode_loop result_size result val c (ch # p) =
     (let v = base64_value ! (byte_of ch mod 256)
      in if v < 0 then b64_decode_loop result_size result val c p
         else (let val1 = val * 64 + nat v
               in if c + 1 < 4 then b64_decode_loop result_size result val1 (c + 1) p
                  else (let r = b64_put result_size result val1
                        in if length r = result_size then r else b64_decode_loop result_size r 0 0 p)))"

definition base64_decode :: "nat \<Rightarrow> string \<Rightarrow> string" where
  "base64_decode result_size p = (if result_size = 0 then [] else b64_decode_loop result_size [] 0 0 p)"

definition base64_encode_len :: "int \<Rightarrow> int" where
  "base64_encode_len len = (len + 2) div 3 * 4 + 1"

text \<open>The four characters of a quantum; when the buffer is full, the loop is left (\<open>True\<close>).\<close>

definition b64_emit :: "nat \<Rightarrow> string \<Rightarrow> nat \<Rightarrow> bool \<times> string" where
  "b64_emit result_size out bits =
     (let c1 = base64_code ! (bits div 2 ^ 18); c2 = base64_code ! ((bits div 2 ^ 12) mod 64);
          c3 = base64_code ! ((bits div 2 ^ 6) mod 64); c4 = base64_code ! (bits mod 64)
      in if length out \<ge> result_size then (True, out)
         else if length out + 4 \<le> result_size then (False, out @ [c1, c2, c3, c4])
         else if length out + 1 \<ge> result_size then (True, out @ [c1])
         else if length out + 2 \<ge> result_size then (True, out @ [c1, c2])
         else if length out + 3 \<ge> result_size then (True, out @ [c1, c2, c3])
         else (False, out @ [c1, c2, c3, c4]))"

fun b64_encode_loop :: "nat \<Rightarrow> string \<Rightarrow> nat \<Rightarrow> nat \<Rightarrow> string \<Rightarrow> string \<times> nat \<times> nat" where
  "b64_encode_loop result_size out bits char_count [] = (out, bits, char_count)"
| "b64_encode_loop result_size out bits char_count (ch # data) =
     (let bits1 = bits + byte_of ch; n = char_count + 1
      in if n = 3 then
           (case b64_emit result_size out bits1 of
              (True, out1) \<Rightarrow> (out1, bits1, n)
            | (False, out1) \<Rightarrow> b64_encode_loop result_size out1 0 0 data)
         else b64_encode_loop result_size out (bits1 * 256) n data)"

text \<open>
  The end of the data. After a full buffer \<open>char_count\<close> is 3 and the code shifts by a negative amount,
  but does not use the value: there is no room.
\<close>

definition b64_encode_tail :: "nat \<Rightarrow> string \<times> nat \<times> nat \<Rightarrow> string" where
  "b64_encode_tail result_size = (\<lambda>(out, bits0, char_count).
     if char_count = 0 then out
     else (let bits = bits0 * 2 ^ (16 - 8 * char_count);
               c1 = base64_code ! (bits div 2 ^ 18); c2 = base64_code ! ((bits div 2 ^ 12) mod 64);
               c3 = base64_code ! ((bits div 2 ^ 6) mod 64)
           in take result_size (out @ [c1, c2] @ (if char_count = 1 then ''=='' else [c3] @ ''=''))))"

definition base64_encode :: "nat \<Rightarrow> string \<Rightarrow> string" where
  "base64_encode result_size data =
     (if data = [] \<or> hd data = CHR 0x00 \<or> result_size < 1 then []
      else b64_encode_tail result_size (b64_encode_loop result_size [] 0 0 data))"

text \<open>With the terminating zero byte; the length of the result is the return value.\<close>

definition base64_encode_str :: "nat \<Rightarrow> string \<Rightarrow> string" where
  "base64_encode_str result_max_size data =
     (if result_max_size < 1 then []
      else (let r = base64_encode result_max_size data
            in if length r \<ge> result_max_size then take (result_max_size - 1) r @ [CHR 0x00] else r @ [CHR 0x00]))"

definition BASE64_RESULT_SZ :: nat where
  "BASE64_RESULT_SZ = 8192"

definition old_base64_encode :: "string \<Rightarrow> string" where
  "old_base64_encode decoded_str = base64_encode_str BASE64_RESULT_SZ decoded_str"

definition base64_encode_bin :: "string \<Rightarrow> string" where
  "base64_encode_bin decoded_str = base64_encode_str BASE64_RESULT_SZ decoded_str"

section \<open>Tables\<close>

lemma byte_of_less [simp]: "byte_of c < 256"
  by (simp add: byte_of_def)

lemma char_of_byte_of [simp]: "char_of (byte_of c) = c"
  by (simp add: byte_of_def)

lemma byte_of_char_of [simp]: "byte_of (char_of n) = n mod 256"
  by (simp add: byte_of_def of_char_of)

lemma base64_table: "list_all (\<lambda>i. base64_value ! byte_of (base64_code ! i) = int i) [0..<64]"
  by code_simp

lemma base64_value_code: "i < 64 \<Longrightarrow> base64_value ! byte_of (base64_code ! i) = int i"
  using base64_table by (simp add: list_all_iff)

lemma base64_value_pad: "base64_value ! byte_of (CHR ''='') = 0"
  by code_simp

lemma base64_code_pad: "i < 64 \<Longrightarrow> base64_code ! i \<noteq> CHR ''=''"
proof -
  have "list_all (\<lambda>i. base64_code ! i \<noteq> CHR ''='') [0..<64]" by code_simp
  then show "i < 64 \<Longrightarrow> base64_code ! i \<noteq> CHR ''=''" by (simp add: list_all_iff)
qed

section \<open>Quanta\<close>

definition b64_quad :: "nat \<Rightarrow> string" where
  "b64_quad n = [base64_code ! (n div 2 ^ 18), base64_code ! ((n div 2 ^ 12) mod 64),
     base64_code ! ((n div 2 ^ 6) mod 64), base64_code ! (n mod 64)]"

text \<open>The text of some data, without buffers: full quanta, then one or two bytes with padding.\<close>

fun b64_text :: "string \<Rightarrow> string" where
  "b64_text [] = []"
| "b64_text [a] = take 2 (b64_quad (byte_of a * 2 ^ 16)) @ ''==''"
| "b64_text [a, b] = take 3 (b64_quad (byte_of a * 2 ^ 16 + byte_of b * 2 ^ 8)) @ ''=''"
| "b64_text (a # b # c # r) = b64_quad (byte_of a * 2 ^ 16 + byte_of b * 2 ^ 8 + byte_of c) @ b64_text r"

definition b64_padding :: "string \<Rightarrow> nat" where
  "b64_padding data = (if length data mod 3 = 1 then 2 else if length data mod 3 = 2 then 1 else 0)"

lemma b64_quad_length [simp]: "length (b64_quad n) = 4"
  by (simp add: b64_quad_def)

lemma b64_emit_room: "length out + 4 \<le> sz \<Longrightarrow> b64_emit sz out n = (False, out @ b64_quad n)"
  by (simp add: b64_emit_def b64_quad_def Let_def)

lemma b64_text_length: "length (b64_text data) = (length data + 2) div 3 * 4"
proof (induction data rule: b64_text.induct)
  case (4 a b c r)
  have "(length (a # b # c # r) + 2) div 3 = Suc ((length r + 2) div 3)" by simp
  then show ?case using 4 by (simp only: b64_text.simps length_append b64_quad_length mult_Suc)
qed simp_all

lemma b64_encode_text:
  assumes "length out + length (b64_text data) \<le> sz"
  shows "b64_encode_tail sz (b64_encode_loop sz out 0 0 data) = out @ b64_text data"
  using assms
proof (induction data arbitrary: out rule: b64_text.induct)
  case 1
  then show ?case by (simp add: b64_encode_tail_def)
next
  case (2 a)
  then show ?case by (simp add: b64_encode_tail_def b64_quad_def Let_def)
next
  case (3 a b)
  then show ?case by (simp add: b64_encode_tail_def b64_quad_def Let_def algebra_simps)
next
  case (4 a b c r)
  let ?n = "byte_of a * 2 ^ 16 + byte_of b * 2 ^ 8 + byte_of c"
  have "b64_encode_loop sz out 0 0 (a # b # c # r) = b64_encode_loop sz (out @ b64_quad ?n) 0 0 r"
    using 4(2) by (simp add: Let_def b64_emit_room algebra_simps)
  moreover have "b64_encode_tail sz (b64_encode_loop sz (out @ b64_quad ?n) 0 0 r) = (out @ b64_quad ?n) @ b64_text r"
    using 4(2) by (intro 4(1)) simp
  ultimately show ?case by simp
qed

lemma b64_digits: "n < 2 ^ 24 \<Longrightarrow>
  ((n div 2 ^ 18 * 64 + n div 2 ^ 12 mod 64) * 64 + n div 2 ^ 6 mod 64) * 64 + n mod 64 = (n :: nat)"
proof -
  have "n div 2 ^ 12 = n div 64 div 64" "n div 2 ^ 18 = n div 64 div 64 div 64" "n div 2 ^ 6 = n div 64"
    by (simp_all add: div_mult2_eq [symmetric])
  then show ?thesis by (metis div_mult_mod_eq)
qed

lemma b64_decode_char:
  assumes "i < 64"
  shows "b64_decode_loop sz res val c (base64_code ! i # p) =
    (if c + 1 < 4 then b64_decode_loop sz res (val * 64 + i) (c + 1) p
     else let r = b64_put sz res (val * 64 + i) in if length r = sz then r else b64_decode_loop sz r 0 0 p)"
  using base64_value_code [OF assms] by (simp add: Let_def)

lemma b64_decode_pad:
  "b64_decode_loop sz res val c (CHR ''='' # p) =
    (if c + 1 < 4 then b64_decode_loop sz res (val * 64) (c + 1) p
     else let r = b64_put sz res (val * 64) in if length r = sz then r else b64_decode_loop sz r 0 0 p)"
  using base64_value_pad by (simp add: Let_def)

declare b64_decode_loop.simps(2) [simp del]

lemma b64_put_bytes:
  assumes "a < 256" "b < 256" "c < 256" "length res + 4 \<le> sz"
  shows "b64_put sz res (a * 2 ^ 16 + b * 2 ^ 8 + c) = res @ [char_of a, char_of b, char_of c]"
proof -
  have "(a * 2 ^ 16 + b * 2 ^ 8 + c) div 2 ^ 8 = a * 2 ^ 8 + b" "(a * 2 ^ 16 + b * 2 ^ 8 + c) div 2 ^ 16 = a"
    using assms by (simp_all add: div_nat_eqI)
  moreover have "(c + (a * 2 ^ 8 + b) * 256) mod 256 = c" using assms(3) by (simp only: mod_mult_self1 mod_less)
  then have "(a * 2 ^ 16 + b * 2 ^ 8 + c) mod 256 = c" by (simp add: algebra_simps)
  ultimately show ?thesis using assms by (simp add: b64_put_def Let_def)
qed

lemma b64_decode_quad:
  assumes "n < 2 ^ 24"
  shows "b64_decode_loop sz res 0 0 (b64_quad n @ p) =
    (let r = b64_put sz res n in if length r = sz then r else b64_decode_loop sz r 0 0 p)"
  using assms b64_digits [OF assms] by (simp add: b64_quad_def b64_decode_char div_less_iff_less_mult)

text \<open>A padding character decodes like the code of 0.\<close>

lemma b64_decode_pad_code:
  "b64_decode_loop sz res val c (CHR ''='' # p) = b64_decode_loop sz res val c (base64_code ! 0 # p)"
  by (simp add: b64_decode_pad b64_decode_char)

lemma b64_decode_padded:
  assumes "n < 2 ^ 24"
  shows "n mod 2 ^ 12 = 0 \<Longrightarrow> b64_decode_loop sz res 0 0 (take 2 (b64_quad n) @ ''=='') = b64_decode_loop sz res 0 0 (b64_quad n)"
    and "n mod 2 ^ 6 = 0 \<Longrightarrow> b64_decode_loop sz res 0 0 (take 3 (b64_quad n) @ ''='') = b64_decode_loop sz res 0 0 (b64_quad n)"
proof -
  have d: "n div 2 ^ 18 < 64" using assms by (simp add: div_less_iff_less_mult)
  have "n div 2 ^ 6 mod 64 = 0 \<and> n mod 64 = 0" if m: "n mod 2 ^ 12 = 0"
  proof -
    from m obtain k where "n = 64 * (64 * k)" by (auto simp: mod_eq_0_iff_dvd dvd_def)
    then show ?thesis by simp
  qed
  then show "n mod 2 ^ 12 = 0 \<Longrightarrow> b64_decode_loop sz res 0 0 (take 2 (b64_quad n) @ ''=='') = b64_decode_loop sz res 0 0 (b64_quad n)"
    using d by (simp add: b64_quad_def b64_decode_char b64_decode_pad)
  show "n mod 2 ^ 6 = 0 \<Longrightarrow> b64_decode_loop sz res 0 0 (take 3 (b64_quad n) @ ''='') = b64_decode_loop sz res 0 0 (b64_quad n)"
    using d by (simp add: b64_quad_def b64_decode_char b64_decode_pad)
qed

lemma b64_decode_text:
  assumes "length res + (length data + 2) div 3 * 3 < sz"
  shows "b64_decode_loop sz res 0 0 (b64_text data) = res @ data @ replicate (b64_padding data) (CHR 0x00)"
  using assms
proof (induction data arbitrary: res rule: b64_text.induct)
  case 1
  then show ?case by (simp add: b64_padding_def)
next
  case (2 a)
  let ?n = "byte_of a * 2 ^ 16"
  have n: "?n < 2 ^ 24" "?n mod 2 ^ 12 = 0" using byte_of_less [of a] by simp_all
  have "b64_put sz res ?n = res @ [a, char_of (0 :: nat), char_of (0 :: nat)]"
    using b64_put_bytes [of "byte_of a" 0 0 res sz] 2 by simp
  then have "b64_decode_loop sz res 0 0 (b64_quad ?n) = res @ [a, char_of (0 :: nat), char_of (0 :: nat)]"
    using b64_decode_quad [OF n(1), of sz res "[]"] by (simp add: Let_def)
  then show ?case using b64_decode_padded(1) [OF n, of sz res] by (simp add: b64_padding_def numeral_2_eq_2 char_of_def)
next
  case (3 a b)
  let ?n = "byte_of a * 2 ^ 16 + byte_of b * 2 ^ 8"
  have n: "?n < 2 ^ 24" using byte_of_less [of a] byte_of_less [of b] by (simp del: byte_of_less)
  have "64 dvd ?n" by simp
  then have m: "?n mod 2 ^ 6 = 0" by simp
  have "b64_put sz res ?n = res @ [a, b, char_of (0 :: nat)]"
    using b64_put_bytes [of "byte_of a" "byte_of b" 0 res sz] 3 by simp
  then have "b64_decode_loop sz res 0 0 (b64_quad ?n) = res @ [a, b, char_of (0 :: nat)]"
    using b64_decode_quad [OF n, of sz res "[]"] by (simp add: Let_def)
  then show ?case using b64_decode_padded(2) [OF n m, of sz res] by (simp add: b64_padding_def char_of_def)
next
  case (4 a b c r)
  let ?n = "byte_of a * 2 ^ 16 + byte_of b * 2 ^ 8 + byte_of c"
  have n: "?n < 2 ^ 24" using byte_of_less [of a] byte_of_less [of b] byte_of_less [of c] by (simp del: byte_of_less)
  have "(length (a # b # c # r) + 2) div 3 = Suc ((length r + 2) div 3)" by simp
  then have room: "length res + 3 + (length r + 2) div 3 * 3 < sz" using 4(2) by (simp only: mult_Suc add.assoc)
  then have put: "b64_put sz res ?n = res @ [a, b, c]" using b64_put_bytes [of "byte_of a" "byte_of b" "byte_of c" res sz] by simp
  have "b64_decode_loop sz res 0 0 (b64_quad ?n @ b64_text r) = b64_decode_loop sz (res @ [a, b, c]) 0 0 (b64_text r)"
    using b64_decode_quad [OF n, of sz res "b64_text r"] put room by (simp add: Let_def)
  moreover have "b64_decode_loop sz (res @ [a, b, c]) 0 0 (b64_text r) = (res @ [a, b, c]) @ r @ replicate (b64_padding r) (CHR 0x00)"
    using room by (intro 4(1)) simp
  ultimately show ?case by (simp add: b64_padding_def)
qed

lemma b64_quad_chars:
  assumes "n < 2 ^ 24"
  shows "\<exists>p q r s. b64_quad n = [p, q, r, s] \<and> p \<noteq> CHR ''='' \<and> q \<noteq> CHR ''='' \<and> r \<noteq> CHR ''='' \<and> s \<noteq> CHR ''=''"
proof -
  have "n div 2 ^ 18 < 64" using assms by (simp add: div_less_iff_less_mult)
  then have "base64_code ! (n div 2 ^ 18) \<noteq> CHR ''=''" by (rule base64_code_pad)
  moreover have "base64_code ! (k mod 64) \<noteq> CHR ''=''" for k by (rule base64_code_pad) simp
  ultimately show ?thesis unfolding b64_quad_def by blast
qed

lemma b64_text_padding:
  "data \<noteq> [] \<Longrightarrow> length (takeWhile (\<lambda>c. c = CHR ''='') (rev (b64_text data))) = b64_padding data"
proof (induction data rule: b64_text.induct)
  case (2 a)
  have "byte_of a * 2 ^ 16 < 2 ^ 24" using byte_of_less [of a] by (simp del: byte_of_less)
  from b64_quad_chars [OF this] obtain p q r s where "b64_quad (byte_of a * 2 ^ 16) = [p, q, r, s]" "q \<noteq> CHR ''=''" by blast
  then show ?case by (simp add: b64_padding_def)
next
  case (3 a b)
  have "byte_of a * 2 ^ 16 + byte_of b * 2 ^ 8 < 2 ^ 24" using byte_of_less [of a] byte_of_less [of b] by (simp del: byte_of_less)
  from b64_quad_chars [OF this] obtain p q r s
    where "b64_quad (byte_of a * 2 ^ 16 + byte_of b * 2 ^ 8) = [p, q, r, s]" "r \<noteq> CHR ''=''" by blast
  then show ?case by (simp add: b64_padding_def)
next
  case (4 a b c r)
  have n: "byte_of a * 2 ^ 16 + byte_of b * 2 ^ 8 + byte_of c < 2 ^ 24"
    using byte_of_less [of a] byte_of_less [of b] byte_of_less [of c] by (simp del: byte_of_less)
  show ?case
  proof (cases r)
    case Nil
    obtain p q t s where "b64_quad (byte_of a * 2 ^ 16 + byte_of b * 2 ^ 8 + byte_of c) = [p, q, t, s]" "s \<noteq> CHR ''=''"
      using b64_quad_chars [OF n] by blast
    then show ?thesis using Nil by (simp add: b64_padding_def)
  next
    case (Cons x y)
    have IH: "length (takeWhile (\<lambda>c. c = CHR ''='') (rev (b64_text r))) = b64_padding r" using 4(1) Cons by simp
    have "1 \<le> (length r + 2) div 3" using Cons by (simp add: div_greater_zero_iff Suc_le_eq)
    then have "4 \<le> length (b64_text r)" unfolding b64_text_length by linarith
    moreover have "b64_padding r \<le> 2" by (simp add: b64_padding_def)
    ultimately have "length (takeWhile (\<lambda>c. c = CHR ''='') (rev (b64_text r))) \<noteq> length (rev (b64_text r))"
      unfolding IH length_rev by linarith
    then have "takeWhile (\<lambda>c. c = CHR ''='') (rev (b64_text r)) \<noteq> rev (b64_text r)" by metis
    then have "\<exists>x \<in> set (rev (b64_text r)). x \<noteq> CHR ''=''" unfolding takeWhile_eq_all_conv by blast
    then obtain x where "x \<in> set (rev (b64_text r))" "x \<noteq> CHR ''=''" by blast
    then have "takeWhile (\<lambda>c. c = CHR ''='') (rev (b64_text r) @ t) = takeWhile (\<lambda>c. c = CHR ''='') (rev (b64_text r))" for t
      by (rule takeWhile_append1)
    then show ?thesis using IH by (simp add: b64_padding_def)
  qed
qed simp

text \<open>
  C31. Data that does not start with a zero byte, encoded into a buffer of the announced size, is decoded to
  itself followed by a zero byte for every padding character, which the length announced for the decoded
  text does not count. Data that starts with a zero byte is encoded to nothing, in the coder for
  binary data too.
\<close>

theorem base64_roundtrip:
  assumes "data \<noteq> []" and "hd data \<noteq> CHR 0x00" and "base64_encode_len (int (length data)) \<le> int rs"
    and "(length data + 2) div 3 * 3 < ds"
  shows "base64_decode ds (base64_encode rs data) = data @ replicate (b64_padding data) (CHR 0x00) \<and>
    base64_decode_len (base64_encode rs data) = int (length data) \<and>
    base64_encode rs (CHR 0x00 # data) = []"
proof -
  have "int ((length data + 2) div 3 * 4) < int rs" using assms(3) by (simp add: base64_encode_len_def zdiv_int add.commute)
  then have "(length data + 2) div 3 * 4 < rs" by (simp only: of_nat_less_iff)
  then have enc: "base64_encode rs data = b64_text data"
    using assms(1,2) b64_encode_text [of "[]" data rs] by (simp add: base64_encode_def b64_text_length)
  have dec: "base64_decode ds (b64_text data) = data @ replicate (b64_padding data) (CHR 0x00)"
    using assms(4) b64_decode_text [of "[]" data ds] by (simp add: base64_decode_def)
  have ne: "b64_text data \<noteq> []" using assms(1) b64_text_length [of data] by (cases data) auto
  have "(length data + 2) div 3 * 3 = length data + b64_padding data" unfolding b64_padding_def by presburger
  then have "base64_decode_len (b64_text data) = int (length data)"
    using ne b64_text_padding [OF assms(1)] b64_text_length [of data] by (simp add: base64_decode_len_def Let_def)
  then show ?thesis using dec enc by (simp add: base64_encode_def)
qed

theorem base64_roundtrip_witness:
  "base64_decode 10 (base64_encode 9 ''user'') = ''user'' @ [CHR 0x00, CHR 0x00] \<and> base64_decode_len (base64_encode 9 ''user'') = 4 \<and>
   base64_encode 9 (CHR 0x00 # ''user'') = []"
  using base64_roundtrip [of "''user''" 9 10] by (simp add: base64_encode_len_def b64_padding_def numeral_2_eq_2)

end
