(* ===== verification/Lib_Rfc1738.thy ===== *)
theory Lib_Rfc1738
  imports C_Strings
begin

text \<open>
  Escaping and unescaping of URLs (lib/rfc1738.c). The static buffer of the escaper is passed with its size;
  \<^verbatim>\<open>char\<close> is signed. The unescaper works in place, its writing position never passing its reading
  position: here it produces the result from the rest of the text.
\<close>

section \<open>Escaping\<close>

record escape_flags =
  ESCAPE_CTRLS :: bool
  ESCAPE_UNSAFE :: bool
  ESCAPE_RESERVED :: bool
  ESCAPE_NOSPACE :: bool
  ESCAPE_NOPERCENT :: bool

definition rfc1738_unsafe_chars :: string where
  "rfc1738_unsafe_chars = [CHR 0x3C, CHR 0x3E, CHR 0x22, CHR 0x23, CHR 0x7B, CHR 0x7D, CHR 0x7C, CHR 0x5C,
     CHR 0x5E, CHR 0x7E, CHR 0x5B, CHR 0x5D, CHR 0x60, CHR 0x27]"

definition rfc1738_reserved_chars :: string where
  "rfc1738_reserved_chars = [CHR 0x3b, CHR 0x2f, CHR 0x3f, CHR 0x3a, CHR 0x40, CHR 0x3d, CHR 0x26]"

definition signed_code :: "char \<Rightarrow> int" where
  "signed_code c = (if char_code c < 128 then char_code c else char_code c - 256)"

definition rfc1738_safe :: "char \<Rightarrow> bool" where
  "rfc1738_safe c \<longleftrightarrow> (97 \<le> char_code c \<and> char_code c \<le> 122) \<or> (65 \<le> char_code c \<and> char_code c \<le> 90) \<or>
     (48 \<le> char_code c \<and> char_code c \<le> 57)"

definition do_escape :: "escape_flags \<Rightarrow> char \<Rightarrow> bool" where
  "do_escape fl c \<longleftrightarrow>
     (ESCAPE_UNSAFE fl \<and>
        (c \<in> set rfc1738_unsafe_chars \<or>
         (if \<not> ESCAPE_NOPERCENT fl \<and> c = CHR ''%'' then True else \<not> ESCAPE_NOSPACE fl \<and> signed_code c \<le> 32))) \<or>
     (ESCAPE_RESERVED fl \<and> c \<in> set rfc1738_reserved_chars) \<or>
     (ESCAPE_CTRLS fl \<and> (char_code c \<le> 0x1F \<or> c = CHR 0x7F \<or> char_code c \<ge> 0x80))"

definition hex_upper :: "nat \<Rightarrow> char" where
  "hex_upper d = (if d < 10 then char_of (d + 48) else char_of (d + 55))"

text \<open>\<^verbatim>\<open>%02X\<close> of a byte, behind a percent sign.\<close>

definition hex_triplet :: "char \<Rightarrow> string" where
  "hex_triplet c = (let n = nat (char_code c) in [CHR ''%'', hex_upper (n div 16), hex_upper (n mod 16)])"

text \<open>
  The loop over the text, with the bytes written so far. Where a triplet and the byte behind it do not fit, the
  terminating zero byte is written outside the buffer.
\<close>

fun escape_loop :: "escape_flags \<Rightarrow> nat \<Rightarrow> string \<Rightarrow> string \<Rightarrow> string res" where
  "escape_loop fl bufsize dst [] = Inr dst"
| "escape_loop fl bufsize dst (c # src) =
     (if \<not> length dst < bufsize - 1 then Inr dst
      else if rfc1738_safe c \<or> \<not> do_escape fl c then escape_loop fl bufsize (dst @ [c]) src
      else if length dst + 3 < bufsize then escape_loop fl bufsize (dst @ hex_triplet c) src
      else Inl OutOfBounds)"

text \<open>The size of the buffer is \<open>None\<close> before the first call; the new one is returned.\<close>

definition rfc1738_do_escape :: "nat option \<Rightarrow> string \<Rightarrow> escape_flags \<Rightarrow> (string \<times> nat option) res" where
  "rfc1738_do_escape buf url fl =
     (let bufsize = (case buf of None \<Rightarrow> length url * 3 + 1
        | Some n \<Rightarrow> if length url * 3 > n then length url * 3 + 1 else n)
      in res_bind (escape_loop fl bufsize [] url) (\<lambda>s. Inr (s, Some bufsize)))"

section \<open>Unescaping\<close>

definition fromhex :: "char \<Rightarrow> int" where
  "fromhex ch =
     (if 48 \<le> char_code ch \<and> char_code ch \<le> 57 then char_code ch - 48
      else if 97 \<le> char_code ch \<and> char_code ch \<le> 102 then char_code ch - 97 + 10
      else if 65 \<le> char_code ch \<and> char_code ch \<le> 70 then char_code ch - 65 + 10
      else -1)"

definition next_char :: "string \<Rightarrow> char" where
  "next_char s = (case s of [] \<Rightarrow> CHR 0x00 | c # _ \<Rightarrow> c)"

text \<open>What a percent sign stands for: the byte, if any, and how much of the rest it takes.\<close>

definition decode_triplet :: "string \<Rightarrow> char option" where
  "decode_triplet r =
     (let v1 = fromhex (next_char r)
      in if v1 < 0 then None
         else (let v2 = fromhex (next_char (tl r))
               in if v2 < 0 then None
                  else (let x = v1 * 16 + v2 in if x > 0 \<and> x \<le> 255 then Some (char_of (nat x)) else None)))"

function rfc1738_unescape :: "string \<Rightarrow> string" where
  "rfc1738_unescape [] = []"
| "rfc1738_unescape (c # r) =
     (if c \<noteq> CHR ''%'' then c # rfc1738_unescape r
      else if next_char r = CHR ''%'' then c # rfc1738_unescape (tl r)
      else (case decode_triplet r of
          None \<Rightarrow> c # rfc1738_unescape r
        | Some x \<Rightarrow> x # rfc1738_unescape (drop 2 r)))"
  by pat_completeness auto
termination by (relation "measure length") auto

section \<open>Properties\<close>

lemma hex_upper_code: "d < 16 \<Longrightarrow> char_code (hex_upper d) = (if d < 10 then int d + 48 else int d + 55)"
  by (simp add: hex_upper_def char_code_of_nat)

lemma hex_upper_simps [simp]:
  assumes "d < 16"
  shows "fromhex (hex_upper d) = int d" "rfc1738_safe (hex_upper d)" "hex_upper d \<noteq> CHR ''%''"
proof -
  show "fromhex (hex_upper d) = int d" "rfc1738_safe (hex_upper d)"
    using assms by (auto simp: fromhex_def rfc1738_safe_def hex_upper_code)
  have "char_code (hex_upper d) \<noteq> char_code (CHR ''%'')" using assms hex_upper_code [OF assms] by (auto simp: char_code_def)
  then show "hex_upper d \<noteq> CHR ''%''" by metis
qed

definition escape_char :: "escape_flags \<Rightarrow> char \<Rightarrow> string" where
  "escape_char fl c = (if rfc1738_safe c \<or> \<not> do_escape fl c then [c] else hex_triplet c)"

lemma escape_char_length: "length (escape_char fl c) \<le> 3"
  by (simp add: escape_char_def hex_triplet_def Let_def)

text \<open>The buffer is always large enough, so the result is the concatenation of the escapes.\<close>

lemma escape_loop_room:
  assumes "length dst + 3 * length src < bufsize"
  shows "escape_loop fl bufsize dst src = Inr (dst @ concat (map (escape_char fl) src))"
  using assms
proof (induction src arbitrary: dst)
  case (Cons c src)
  have "length (dst @ escape_char fl c) + 3 * length src < bufsize"
    using Cons.prems escape_char_length [of fl c] by simp
  then have "escape_loop fl bufsize (dst @ escape_char fl c) src = Inr ((dst @ escape_char fl c) @ concat (map (escape_char fl) src))"
    by (rule Cons.IH)
  moreover have "length dst < bufsize - 1" "length dst + 3 < bufsize" using Cons.prems by simp_all
  ultimately show ?case by (cases "rfc1738_safe c \<or> \<not> do_escape fl c") (auto simp: escape_char_def [of fl c])
qed simp

text \<open>The size of the buffer is always one more than a multiple of three.\<close>

definition escape_buf_ok :: "nat option \<Rightarrow> bool" where
  "escape_buf_ok buf \<longleftrightarrow> (case buf of None \<Rightarrow> True | Some n \<Rightarrow> n mod 3 = 1)"

lemma rfc1738_do_escape_eq:
  assumes "escape_buf_ok buf"
  shows "\<exists>buf'. rfc1738_do_escape buf url fl = Inr (concat (map (escape_char fl) url), buf') \<and> escape_buf_ok buf'"
proof -
  define n where "n = (case buf of None \<Rightarrow> length url * 3 + 1 | Some n \<Rightarrow> if length url * 3 > n then length url * 3 + 1 else n)"
  have "(length url * 3 + 1) mod 3 = 1" by presburger
  then have n3: "n mod 3 = 1" using assms unfolding n_def escape_buf_ok_def by (simp split: option.splits)
  moreover have "3 * length url \<le> n" by (auto simp: n_def split: option.splits)
  ultimately have "3 * length url < n" by presburger
  then have "escape_loop fl n [] url = Inr (concat (map (escape_char fl) url))" using escape_loop_room [of "[]" url n fl] by simp
  then show ?thesis using n3 by (simp add: rfc1738_do_escape_def n_def [symmetric] escape_buf_ok_def)
qed

lemma unescape_triplet:
  assumes "c \<noteq> CHR 0x00"
  shows "rfc1738_unescape (hex_triplet c @ r) = c # rfc1738_unescape r"
proof -
  define n where "n = nat (char_code c)"
  have n: "n < 256" "n \<noteq> 0" "char_of n = c"
  proof -
    have "char_code c = int (of_char c)" by (simp only: char_code_def of_nat_of_char)
    then have n: "n = of_char c" by (simp add: n_def)
    then show "n < 256" "char_of n = c" by simp_all
    have "char_of (0 :: nat) = CHR 0x00" by (simp add: char_of_def)
    then show "n \<noteq> 0" using assms \<open>char_of n = c\<close> by (cases "n = 0") auto
  qed
  have d: "n div 16 < 16" "n mod 16 < 16" using n(1) by (simp_all add: div_less_iff_less_mult)
  have "int (n div 16) * 16 + int (n mod 16) = int (n div 16 * 16 + n mod 16)" by (simp only: of_nat_add of_nat_mult of_nat_numeral)
  then have x: "int (n div 16) * 16 + int (n mod 16) = int n" by (simp only: div_mult_mod_eq)
  have "decode_triplet (hex_upper (n div 16) # hex_upper (n mod 16) # r) = Some c"
    using d n x by (simp add: decode_triplet_def next_char_def Let_def)
  then show ?thesis using d by (simp add: hex_triplet_def n_def [symmetric] next_char_def)
qed

lemma unescape_plain: "c \<noteq> CHR ''%'' \<Longrightarrow> rfc1738_unescape (c # r) = c # rfc1738_unescape r"
  by simp

lemma percent_escaped: "ESCAPE_UNSAFE fl \<Longrightarrow> \<not> ESCAPE_NOPERCENT fl \<Longrightarrow> escape_char fl (CHR ''%'') = hex_triplet (CHR ''%'')"
  by (simp add: escape_char_def do_escape_def rfc1738_safe_def char_code_def)

lemma unescape_escaped:
  assumes "ESCAPE_UNSAFE fl" "\<not> ESCAPE_NOPERCENT fl" and "CHR 0x00 \<notin> set url"
  shows "rfc1738_unescape (concat (map (escape_char fl) url)) = url"
  using assms(3)
proof (induction url)
  case (Cons c url)
  have IH: "rfc1738_unescape (concat (map (escape_char fl) url)) = url" using Cons by simp
  show ?case
  proof (cases "escape_char fl c = hex_triplet c")
    case True
    then show ?thesis using unescape_triplet [of c] Cons.prems IH by auto
  next
    case False
    then have "c \<noteq> CHR ''%''" "escape_char fl c = [c]"
      using percent_escaped [OF assms(1,2)] by (auto simp: escape_char_def)
    then show ?thesis using IH by simp
  qed
qed simp

text \<open>Escaping again changes nothing when percent signs are left alone.\<close>

lemma escape_again:
  assumes "ESCAPE_NOPERCENT fl"
  shows "concat (map (escape_char fl) (escape_char fl c)) = escape_char fl c"
proof (cases "rfc1738_safe c \<or> \<not> do_escape fl c")
  case False
  define n where "n = nat (char_code c)"
  have "char_code c = int (of_char c)" by (simp only: char_code_def of_nat_of_char)
  then have "n < 256" by (simp add: n_def)
  then have "n div 16 < 16" "n mod 16 < 16" by (simp_all add: div_less_iff_less_mult)
  moreover have "escape_char fl (CHR ''%'') = [CHR ''%'']"
    using assms by (simp add: escape_char_def do_escape_def rfc1738_unsafe_chars_def rfc1738_reserved_chars_def signed_code_def char_code_def)
  ultimately show ?thesis using False
    by (simp add: escape_char_def [of fl c] hex_triplet_def n_def [symmetric] Let_def) (simp add: escape_char_def)
qed (simp add: escape_char_def)

lemma concat_map_idem:
  "(\<And>c. concat (map f (f c)) = f c) \<Longrightarrow> concat (map f (concat (map f xs))) = concat (map f xs)"
  by (induction xs) simp_all

text \<open>
  Escaping never overruns its buffer, whatever texts were escaped before. If percent signs are escaped too,
  unescaping gives the text back; if they are left alone, escaping what was escaped changes nothing. None of
  the characters that the flags call for escaping is left, except the percent signs of the escapes.
\<close>

theorem url_escape_roundtrip:
  assumes "escape_buf_ok buf" and "CHR 0x00 \<notin> set url"
  shows "\<exists>s buf'. rfc1738_do_escape buf url fl = Inr (s, buf') \<and> escape_buf_ok buf' \<and>
    (ESCAPE_UNSAFE fl \<and> \<not> ESCAPE_NOPERCENT fl \<longrightarrow> rfc1738_unescape s = url) \<and>
    (ESCAPE_NOPERCENT fl \<longrightarrow> (\<exists>buf''. rfc1738_do_escape buf' s fl = Inr (s, buf''))) \<and>
    (\<forall>c \<in> set s. do_escape fl c \<longrightarrow> rfc1738_safe c \<or> c = CHR ''%'')"
proof -
  let ?s = "concat (map (escape_char fl) url)"
  obtain buf' where 1: "rfc1738_do_escape buf url fl = Inr (?s, buf')" "escape_buf_ok buf'" using rfc1738_do_escape_eq [OF assms(1)] by blast
  have 2: "ESCAPE_UNSAFE fl \<and> \<not> ESCAPE_NOPERCENT fl \<longrightarrow> rfc1738_unescape ?s = url" using unescape_escaped assms(2) by blast
  have "concat (map (escape_char fl) ?s) = ?s" if "ESCAPE_NOPERCENT fl" using escape_again [OF that] by (rule concat_map_idem)
  then have 3: "ESCAPE_NOPERCENT fl \<longrightarrow> (\<exists>buf''. rfc1738_do_escape buf' ?s fl = Inr (?s, buf''))"
    using rfc1738_do_escape_eq [OF 1(2), of ?s fl] by auto
  have "rfc1738_safe x \<or> x = CHR ''%''" if "x \<in> set (escape_char fl c)" "do_escape fl x" for c x
  proof -
    define n where "n = nat (char_code c)"
    have "char_code c = int (of_char c)" by (simp only: char_code_def of_nat_of_char)
    then have "n < 256" by (simp add: n_def)
    then have "n div 16 < 16" "n mod 16 < 16" by (simp_all add: div_less_iff_less_mult)
    then show ?thesis using that by (auto simp: escape_char_def hex_triplet_def n_def [symmetric] Let_def split: if_splits)
  qed
  then have 4: "\<forall>c \<in> set ?s. do_escape fl c \<longrightarrow> rfc1738_safe c \<or> c = CHR ''%''" by auto
  show ?thesis using 1 2 3 4 by blast
qed

definition ex_flags :: escape_flags where
  "ex_flags = \<lparr>ESCAPE_CTRLS = True, ESCAPE_UNSAFE = True, ESCAPE_RESERVED = False, ESCAPE_NOSPACE = False, ESCAPE_NOPERCENT = False\<rparr>"

end
