(* ===== verification/Lib_Dlink.thy ===== *)
theory Lib_Dlink
  imports Squid_Prelude
begin

text \<open>
  Doubly linked lists (src/dlink.cc, src/dlink.h). The nodes live in a memory, a map from addresses to nodes;
  \<^verbatim>\<open>NULL\<close> is \<open>None\<close> and an access through a pointer to no live node is \<open>Dangling\<close>. The list a pair of
  pointers stands for is the relation \<open>dl_repr\<close>; every operation is shown to be the list operation it
  implements.
\<close>

section \<open>Data and operations\<close>

record dlink_node =
  dn_data :: "nat option"
  dn_prev :: "nat option"
  dn_next :: "nat option"

record dlink_list =
  dl_head :: "nat option"
  dl_tail :: "nat option"

type_synonym dl_mem = "nat \<Rightarrow> dlink_node option"

definition dn_deref :: "dl_mem \<Rightarrow> nat \<Rightarrow> dlink_node res" where
  "dn_deref mem a = (case mem a of None \<Rightarrow> Inl Dangling | Some n \<Rightarrow> Inr n)"

definition dn_upd :: "dl_mem \<Rightarrow> nat \<Rightarrow> (dlink_node \<Rightarrow> dlink_node) \<Rightarrow> dl_mem res" where
  "dn_upd mem a f = res_bind (dn_deref mem a) (\<lambda>n. Inr (mem(a \<mapsto> f n)))"

text \<open>A store through a pointer that is tested first.\<close>

definition dn_upd_opt :: "dl_mem \<Rightarrow> nat option \<Rightarrow> (dlink_node \<Rightarrow> dlink_node) \<Rightarrow> dl_mem res" where
  "dn_upd_opt mem p f = (case p of None \<Rightarrow> Inr mem | Some a \<Rightarrow> dn_upd mem a f)"

definition dlinkAdd :: "nat \<Rightarrow> nat \<Rightarrow> dl_mem \<Rightarrow> dlink_list \<Rightarrow> (dl_mem \<times> dlink_list) res" where
  "dlinkAdd dat m mem l =
     res_bind (dn_upd mem m (\<lambda>n. n\<lparr>dn_data := Some dat, dn_prev := None, dn_next := dl_head l\<rparr>)) (\<lambda>mem1.
     res_bind (dn_upd_opt mem1 (dl_head l) (\<lambda>n. n\<lparr>dn_prev := Some m\<rparr>)) (\<lambda>mem2.
     Inr (mem2, l\<lparr>dl_head := Some m, dl_tail := (if dl_tail l = None then Some m else dl_tail l)\<rparr>)))"

definition dlinkAddAfter :: "nat \<Rightarrow> nat \<Rightarrow> nat \<Rightarrow> dl_mem \<Rightarrow> dlink_list \<Rightarrow> (dl_mem \<times> dlink_list) res" where
  "dlinkAddAfter dat m n mem l =
     res_bind (dn_deref mem n) (\<lambda>nn.
     res_bind (dn_upd mem m (\<lambda>x. x\<lparr>dn_data := Some dat, dn_prev := Some n, dn_next := dn_next nn\<rparr>)) (\<lambda>mem1.
     res_bind (dn_deref mem1 n) (\<lambda>nn1.
     res_bind (case dn_next nn1 of
         Some a \<Rightarrow> res_bind (dn_upd mem1 a (\<lambda>x. x\<lparr>dn_prev := Some m\<rparr>)) (\<lambda>mem2. Inr (mem2, l))
       | None \<Rightarrow> res_bind (res_guard (dl_tail l = Some n) Assertion) (\<lambda>_. Inr (mem1, l\<lparr>dl_tail := Some m\<rparr>))) (\<lambda>(mem2, l2).
     res_bind (dn_upd mem2 n (\<lambda>x. x\<lparr>dn_next := Some m\<rparr>)) (\<lambda>mem3. Inr (mem3, l2))))))"

definition dlinkAddTail :: "nat \<Rightarrow> nat \<Rightarrow> dl_mem \<Rightarrow> dlink_list \<Rightarrow> (dl_mem \<times> dlink_list) res" where
  "dlinkAddTail dat m mem l =
     res_bind (dn_upd mem m (\<lambda>n. n\<lparr>dn_data := Some dat, dn_next := None, dn_prev := dl_tail l\<rparr>)) (\<lambda>mem1.
     res_bind (dn_upd_opt mem1 (dl_tail l) (\<lambda>n. n\<lparr>dn_next := Some m\<rparr>)) (\<lambda>mem2.
     Inr (mem2, l\<lparr>dl_tail := Some m, dl_head := (if dl_head l = None then Some m else dl_head l)\<rparr>)))"

text \<open>The fields of the node are read again after every store, which may have changed them.\<close>

definition dlinkDelete :: "nat \<Rightarrow> dl_mem \<Rightarrow> dlink_list \<Rightarrow> (dl_mem \<times> dlink_list) res" where
  "dlinkDelete m mem l =
     res_bind (dn_deref mem m) (\<lambda>n.
     res_bind (dn_upd_opt mem (dn_next n) (\<lambda>x. x\<lparr>dn_prev := dn_prev n\<rparr>)) (\<lambda>mem1.
     res_bind (dn_deref mem1 m) (\<lambda>n1.
     res_bind (dn_upd_opt mem1 (dn_prev n1) (\<lambda>x. x\<lparr>dn_next := dn_next n1\<rparr>)) (\<lambda>mem2.
     res_bind (dn_deref mem2 m) (\<lambda>n2.
     let l1 = (if Some m = dl_head l then l\<lparr>dl_head := dn_next n2\<rparr> else l);
         l2 = (if Some m = dl_tail l1 then l1\<lparr>dl_tail := dn_prev n2\<rparr> else l1)
     in res_bind (dn_upd mem2 m (\<lambda>x. x\<lparr>dn_next := None, dn_prev := None\<rparr>)) (\<lambda>mem3. Inr (mem3, l2)))))))"

section \<open>The list in memory\<close>

definition dl_first :: "(nat \<times> nat) list \<Rightarrow> nat option \<Rightarrow> nat option" where
  "dl_first xs nx = (case xs of [] \<Rightarrow> nx | x # _ \<Rightarrow> Some (fst x))"

definition dl_final :: "(nat \<times> nat) list \<Rightarrow> nat option \<Rightarrow> nat option" where
  "dl_final xs p = (if xs = [] then p else Some (fst (last xs)))"

text \<open>The nodes of \<open>xs\<close> (address and data) are linked, the first one back to \<open>p\<close> and the last one on to \<open>nx\<close>.\<close>

fun dl_seg :: "dl_mem \<Rightarrow> nat option \<Rightarrow> (nat \<times> nat) list \<Rightarrow> nat option \<Rightarrow> bool" where
  "dl_seg mem p [] nx = True"
| "dl_seg mem p (x # xs) nx \<longleftrightarrow>
     mem (fst x) = Some \<lparr>dn_data = Some (snd x), dn_prev = p, dn_next = dl_first xs nx\<rparr> \<and> dl_seg mem (Some (fst x)) xs nx"

definition dl_repr :: "dl_mem \<Rightarrow> dlink_list \<Rightarrow> (nat \<times> nat) list \<Rightarrow> bool" where
  "dl_repr mem l xs \<longleftrightarrow> dl_seg mem None xs None \<and> distinct (map fst xs) \<and>
     dl_head l = dl_first xs None \<and> dl_tail l = dl_final xs None"

lemma dl_first_simps [simp]: "dl_first [] nx = nx" "dl_first (x # xs) nx = Some (fst x)"
  by (simp_all add: dl_first_def)

lemma dl_first_append [simp]: "dl_first (xs @ ys) nx = dl_first xs (dl_first ys nx)"
  by (cases xs) simp_all

lemma dl_final_simps [simp]: "dl_final [] p = p" "dl_final (xs @ [x]) p = Some (fst x)" "dl_final (x # xs) p = dl_final xs (Some (fst x))"
  by (simp_all add: dl_final_def)

lemma dl_final_append [simp]: "dl_final (xs @ ys) p = dl_final ys (dl_final xs p)"
  by (auto simp: dl_final_def)

lemma dl_first_eq_None [simp]: "dl_first xs None = None \<longleftrightarrow> xs = []" "dl_final xs None = None \<longleftrightarrow> xs = []"
  by (cases xs; simp) (simp add: dl_final_def)

lemma dl_seg_append [simp]:
  "dl_seg mem p (xs @ ys) nx \<longleftrightarrow> dl_seg mem p xs (dl_first ys nx) \<and> dl_seg mem (dl_final xs p) ys nx"
  by (induction xs arbitrary: p) auto

lemma dl_seg_frame: "a \<notin> fst ` set xs \<Longrightarrow> dl_seg (mem(a := v)) p xs nx = dl_seg mem p xs nx"
  by (induction xs arbitrary: p) auto

lemma dl_seg_set_next:
  assumes "dl_seg mem p xs nx" and "distinct (map fst xs)" and "xs \<noteq> []"
  shows "\<exists>n. mem (fst (last xs)) = Some n \<and> dl_seg (mem(fst (last xs) \<mapsto> n\<lparr>dn_next := nx'\<rparr>)) p xs nx'"
proof -
  obtain ys x where xs: "xs = ys @ [x]" using assms(3) by (metis rev_exhaust)
  then show ?thesis using assms by (auto simp: dl_seg_frame)
qed

lemma dl_seg_set_prev:
  assumes "dl_seg mem p xs nx" and "distinct (map fst xs)" and "xs = x # ys"
  shows "\<exists>n. mem (fst x) = Some n \<and> dl_seg (mem(fst x \<mapsto> n\<lparr>dn_prev := p'\<rparr>)) p' xs nx"
  using assms by (auto simp: dl_seg_frame)

lemma dl_upd_final:
  assumes "dl_seg mem p xs nx" and "distinct (map fst xs)" and "p = None"
  shows "\<exists>mem'. dn_upd_opt mem (dl_final xs p) (\<lambda>n. n\<lparr>dn_next := nx'\<rparr>) = Inr mem' \<and> dl_seg mem' p xs nx' \<and>
    (\<forall>b. b \<notin> fst ` set xs \<longrightarrow> mem' b = mem b) \<and> dom mem' = dom mem"
proof (cases "xs = []")
  case True
  then show ?thesis using assms(3) by (simp add: dn_upd_opt_def)
next
  case False
  then obtain n where n: "mem (fst (last xs)) = Some n" "dl_seg (mem(fst (last xs) \<mapsto> n\<lparr>dn_next := nx'\<rparr>)) p xs nx'"
    using dl_seg_set_next [OF assms(1,2)] by blast
  have "fst (last xs) \<in> fst ` set xs" using False by simp
  then show ?thesis using n False by (auto simp: dn_upd_opt_def dn_upd_def dn_deref_def dl_final_def)
qed

lemma dl_upd_first:
  assumes "dl_seg mem p xs nx" and "distinct (map fst xs)" and "nx = None"
  shows "\<exists>mem'. dn_upd_opt mem (dl_first xs nx) (\<lambda>n. n\<lparr>dn_prev := p'\<rparr>) = Inr mem' \<and> dl_seg mem' p' xs nx \<and>
    (\<forall>b. b \<notin> fst ` set xs \<longrightarrow> mem' b = mem b) \<and> dom mem' = dom mem"
proof (cases xs)
  case Nil
  then show ?thesis using assms(3) by (simp add: dn_upd_opt_def)
next
  case (Cons x ys)
  then obtain n where n: "mem (fst x) = Some n" "dl_seg (mem(fst x \<mapsto> n\<lparr>dn_prev := p'\<rparr>)) p' xs nx"
    using dl_seg_set_prev [OF assms(1,2)] by blast
  then show ?thesis using Cons by (auto simp: dn_upd_opt_def dn_upd_def dn_deref_def)
qed

lemma dl_seg_cong: "\<forall>b \<in> fst ` set xs. mem' b = mem b \<Longrightarrow> dl_seg mem' p xs nx = dl_seg mem p xs nx"
  by (induction xs arbitrary: p) auto

section \<open>The operations on lists\<close>

lemma dlinkAddTail_ok:
  assumes "dl_repr mem l xs" and "m \<notin> fst ` set xs" and "mem m \<noteq> None"
  shows "\<exists>mem' l'. dlinkAddTail d m mem l = Inr (mem', l') \<and> dl_repr mem' l' (xs @ [(m, d)]) \<and> dom mem' = dom mem \<and>
    (\<forall>b. b \<notin> insert m (fst ` set xs) \<longrightarrow> mem' b = mem b)"
proof -
  from assms(3) obtain n where n: "mem m = Some n" by blast
  let ?mem1 = "mem(m \<mapsto> n\<lparr>dn_data := Some d, dn_next := None, dn_prev := dl_tail l\<rparr>)"
  have "dl_seg ?mem1 None xs None" "distinct (map fst xs)"
    using assms(1,2) by (simp_all add: dl_repr_def dl_seg_frame)
  then obtain mem' where m': "dn_upd_opt ?mem1 (dl_tail l) (\<lambda>n. n\<lparr>dn_next := Some m\<rparr>) = Inr mem'"
      "dl_seg mem' None xs (Some m)" "\<forall>b. b \<notin> fst ` set xs \<longrightarrow> mem' b = ?mem1 b" "dom mem' = dom ?mem1"
    using dl_upd_final [of ?mem1 None xs None "Some m"] assms(1) by (auto simp: dl_repr_def)
  have "mem' m = Some \<lparr>dn_data = Some d, dn_prev = dl_tail l, dn_next = None\<rparr>" using m'(3) assms(2) by simp
  then have "dl_repr mem' (l\<lparr>dl_tail := Some m, dl_head := (if dl_head l = None then Some m else dl_head l)\<rparr>) (xs @ [(m, d)])"
    using m'(2) assms(1,2) by (cases xs) (auto simp: dl_repr_def)
  moreover have "dlinkAddTail d m mem l = Inr (mem', l\<lparr>dl_tail := Some m, dl_head := (if dl_head l = None then Some m else dl_head l)\<rparr>)"
    using n m'(1) by (simp add: dlinkAddTail_def dn_upd_def dn_deref_def)
  moreover have "dom mem' = dom mem" using m'(4) n by auto
  ultimately show ?thesis using m'(3) by auto
qed

lemma dlinkAdd_ok:
  assumes "dl_repr mem l xs" and "m \<notin> fst ` set xs" and "mem m \<noteq> None"
  shows "\<exists>mem' l'. dlinkAdd d m mem l = Inr (mem', l') \<and> dl_repr mem' l' ((m, d) # xs) \<and> dom mem' = dom mem \<and>
    (\<forall>b. b \<notin> insert m (fst ` set xs) \<longrightarrow> mem' b = mem b)"
proof -
  from assms(3) obtain n where n: "mem m = Some n" by blast
  let ?mem1 = "mem(m \<mapsto> n\<lparr>dn_data := Some d, dn_prev := None, dn_next := dl_head l\<rparr>)"
  have "dl_seg ?mem1 None xs None" "distinct (map fst xs)"
    using assms(1,2) by (simp_all add: dl_repr_def dl_seg_frame)
  then obtain mem' where m': "dn_upd_opt ?mem1 (dl_head l) (\<lambda>n. n\<lparr>dn_prev := Some m\<rparr>) = Inr mem'"
      "dl_seg mem' (Some m) xs None" "\<forall>b. b \<notin> fst ` set xs \<longrightarrow> mem' b = ?mem1 b" "dom mem' = dom ?mem1"
    using dl_upd_first [of ?mem1 None xs None "Some m"] assms(1) by (auto simp: dl_repr_def)
  have "mem' m = Some \<lparr>dn_data = Some d, dn_prev = None, dn_next = dl_head l\<rparr>" using m'(3) assms(2) by simp
  then have "dl_repr mem' (l\<lparr>dl_head := Some m, dl_tail := (if dl_tail l = None then Some m else dl_tail l)\<rparr>) ((m, d) # xs)"
    using m'(2) assms(1,2) by (cases xs rule: rev_cases) (auto simp: dl_repr_def)
  moreover have "dlinkAdd d m mem l = Inr (mem', l\<lparr>dl_head := Some m, dl_tail := (if dl_tail l = None then Some m else dl_tail l)\<rparr>)"
    using n m'(1) by (simp add: dlinkAdd_def dn_upd_def dn_deref_def)
  moreover have "dom mem' = dom mem" using m'(4) n by auto
  ultimately show ?thesis using m'(3) by auto
qed

lemma dlinkDelete_ok:
  assumes "dl_repr mem l (us @ (m, d) # ws)"
  shows "\<exists>mem' l'. dlinkDelete m mem l = Inr (mem', l') \<and> dl_repr mem' l' (us @ ws) \<and> dom mem' = dom mem \<and>
    mem' m = Some \<lparr>dn_data = Some d, dn_prev = None, dn_next = None\<rparr> \<and>
    (\<forall>b. b \<notin> insert m (fst ` set (us @ ws)) \<longrightarrow> mem' b = mem b)"
proof -
  have seg: "dl_seg mem None us (Some m)" "dl_seg mem (Some m) ws None"
    and n: "mem m = Some \<lparr>dn_data = Some d, dn_prev = dl_final us None, dn_next = dl_first ws None\<rparr>" (is "_ = Some ?n")
    and dis: "distinct (map fst us)" "distinct (map fst ws)" "m \<notin> fst ` set us" "m \<notin> fst ` set ws"
      "fst ` set us \<inter> fst ` set ws = {}"
    and ht: "dl_head l = dl_first us (Some m)" "dl_tail l = dl_final ws (Some m)"
    using assms by (auto simp: dl_repr_def)
  obtain mem1 where m1: "dn_upd_opt mem (dl_first ws None) (\<lambda>x. x\<lparr>dn_prev := dl_final us None\<rparr>) = Inr mem1"
      "dl_seg mem1 (dl_final us None) ws None" "\<forall>b. b \<notin> fst ` set ws \<longrightarrow> mem1 b = mem b" "dom mem1 = dom mem"
    using dl_upd_first [OF seg(2) dis(2) refl] by blast
  have "dl_seg mem1 None us (Some m)" using seg(1) m1(3) dis(5) by (subst dl_seg_cong [of _ _ mem]) auto
  from dl_upd_final [OF this dis(1) refl]
  obtain mem2 where m2: "dn_upd_opt mem1 (dl_final us None) (\<lambda>x. x\<lparr>dn_next := dl_first ws None\<rparr>) = Inr mem2"
      "dl_seg mem2 None us (dl_first ws None)" "\<forall>b. b \<notin> fst ` set us \<longrightarrow> mem2 b = mem1 b" "dom mem2 = dom mem1"
    by blast
  have w2: "dl_seg mem2 (dl_final us None) ws None" using m1(2) m2(3) dis(5) by (subst dl_seg_cong [of _ _ mem1]) auto
  have mm: "mem1 m = Some ?n" "mem2 m = Some ?n" using n m1(3) m2(3) dis(3,4) by simp_all
  define mem3 where "mem3 = mem2(m \<mapsto> ?n\<lparr>dn_next := None, dn_prev := None\<rparr>)"
  let ?l1 = "if Some m = dl_head l then l\<lparr>dl_head := dl_first ws None\<rparr> else l"
  let ?l2 = "if Some m = dl_tail ?l1 then ?l1\<lparr>dl_tail := dl_final us None\<rparr> else ?l1"
  have eq: "dlinkDelete m mem l = Inr (mem3, ?l2)"
    using n m1(1) m2(1) mm by (simp add: dlinkDelete_def dn_upd_def dn_deref_def mem3_def Let_def)
  have "dl_head ?l2 = dl_first (us @ ws) None" using ht dis by (cases us; cases ws) auto
  moreover have "dl_tail ?l2 = dl_final (us @ ws) None"
    using ht dis by (cases us; cases ws rule: rev_cases) auto
  ultimately have "dl_repr mem3 ?l2 (us @ ws)"
    using m2(2) w2 dis by (auto simp: dl_repr_def mem3_def dl_seg_frame)
  moreover have "dom mem3 = dom mem" using m1(4) m2(4) mm by (auto simp: mem3_def)
  moreover have "\<forall>b. b \<notin> insert m (fst ` set (us @ ws)) \<longrightarrow> mem3 b = mem b" using m1(3) m2(3) by (simp add: mem3_def image_Un)
  ultimately show ?thesis using eq by (intro exI [of _ mem3] exI [of _ ?l2]) (simp add: mem3_def)
qed

lemma dlinkAddAfter_ok:
  assumes "dl_repr mem l (us @ (n, e) # ws)" and "m \<notin> fst ` set (us @ (n, e) # ws)" and "mem m \<noteq> None"
  shows "\<exists>mem' l'. dlinkAddAfter d m n mem l = Inr (mem', l') \<and> dl_repr mem' l' (us @ (n, e) # (m, d) # ws) \<and> dom mem' = dom mem"
proof -
  from assms(3) obtain x where x: "mem m = Some x" by blast
  have seg: "dl_seg mem None us (Some n)" "dl_seg mem (Some n) ws None"
    and nn: "mem n = Some \<lparr>dn_data = Some e, dn_prev = dl_final us None, dn_next = dl_first ws None\<rparr>" (is "_ = Some ?n")
    and dis: "distinct (map fst us)" "distinct (map fst ws)" "n \<notin> fst ` set us" "n \<notin> fst ` set ws"
      "fst ` set us \<inter> fst ` set ws = {}" "m \<noteq> n" "m \<notin> fst ` set us" "m \<notin> fst ` set ws"
    and ht: "dl_head l = dl_first us (Some n)" "dl_tail l = dl_final ws (Some n)"
    using assms(1,2) by (auto simp: dl_repr_def)
  let ?x = "\<lparr>dn_data = Some d, dn_prev = Some n, dn_next = dl_first ws None\<rparr>"
  let ?mem1 = "mem(m \<mapsto> ?x)"
  have xe: "x\<lparr>dn_data := Some d, dn_prev := Some n, dn_next := nx\<rparr> = \<lparr>dn_data = Some d, dn_prev = Some n, dn_next = nx\<rparr>" for nx
    by (cases x) simp
  have w1: "dl_seg ?mem1 (Some n) ws None" using seg(2) dis by (simp add: dl_seg_frame)
  from dl_upd_first [OF this dis(2) refl, of "Some m"]
  obtain mem2 where m2: "dn_upd_opt ?mem1 (dl_first ws None) (\<lambda>n. n\<lparr>dn_prev := Some m\<rparr>) = Inr mem2"
      "dl_seg mem2 (Some m) ws None" "\<forall>b. b \<notin> fst ` set ws \<longrightarrow> mem2 b = ?mem1 b" "dom mem2 = dom ?mem1"
    by blast
  let ?l2 = "case dl_first ws None of Some a \<Rightarrow> l | None \<Rightarrow> l\<lparr>dl_tail := Some m\<rparr>"
  define mem3 where "mem3 = mem2(n \<mapsto> ?n\<lparr>dn_next := Some m\<rparr>)"
  have n2: "mem2 n = Some ?n" "mem2 m = Some ?x" using m2(3) nn dis by simp_all
  have "mem2 b = mem b" if "b \<in> fst ` set us" for b
  proof -
    have "b \<notin> fst ` set ws" "b \<noteq> m" using that dis(5,7) by blast+
    then show ?thesis using m2(3) by simp
  qed
  then have "dl_seg mem2 None us (Some n)" using seg(1) by (subst dl_seg_cong [of _ _ mem]) auto
  then have "dl_repr mem3 ?l2 (us @ (n, e) # (m, d) # ws)"
    using m2(2) n2 ht dis by (cases ws) (auto simp: dl_repr_def mem3_def dl_seg_frame)
  moreover have "dlinkAddAfter d m n mem l = Inr (mem3, ?l2)"
    using m2(1) n2 nn x ht dis
    by (cases ws) (auto simp add: dlinkAddAfter_def dn_upd_def dn_deref_def mem3_def dn_upd_opt_def xe res_bind_Inr_iff split: option.splits)
  moreover have "dom mem3 = dom mem" using m2(4) x nn n2 by (auto simp: mem3_def)
  ultimately show ?thesis by blast
qed

end
