(* ===== verification/Repl_Policy.thy ===== *)
theory Repl_Policy
  imports Store_Entry
begin

text \<open>
  What the removal policies of the cache (src/RemovalPolicy.h) share: the part of a \<^verbatim>\<open>StoreEntry\<close> they look at,
  the node by which an entry is attached to a policy, the contract of a purge and the client that makes room in
  the memory cache (\<^verbatim>\<open>storeGetMemSpace\<close> of src/store.cc).
\<close>

unbundle bit_operations_syntax

section \<open>Entries and their policy nodes\<close>

datatype swap_status = SWAPOUT_NONE | SWAPOUT_WRITING | SWAPOUT_DONE

datatype store_status = STORE_OK | STORE_PENDING

text \<open>
  \<open>re_repl\<close> is \<^verbatim>\<open>entry->repl.data\<close>, \<open>re_mem_repl\<close> is \<^verbatim>\<open>entry->mem_obj->repl.data\<close> or \<open>None\<close> for an entry
  without \<^verbatim>\<open>mem_obj\<close>.
\<close>

record repl_entry = store_entry +
  re_lock_count :: "16 word"
  re_swap_status :: swap_status
  re_store_status :: store_status
  re_repl :: "nat option"
  re_mem_repl :: "nat option option"

type_synonym entry_mem = "nat \<Rightarrow> repl_entry option"

definition ENTRY_SPECIAL :: nat where
  "ENTRY_SPECIAL = 0"

definition KEY_PRIVATE :: nat where
  "KEY_PRIVATE = 7"

definition EBIT_TEST :: "16 word \<Rightarrow> nat \<Rightarrow> bool" where
  "EBIT_TEST flag b \<longleftrightarrow> flag AND push_bit b 1 \<noteq> 0"

definition entry_locked :: "repl_entry \<Rightarrow> bool" where
  "entry_locked e \<longleftrightarrow>
     (if re_lock_count e \<noteq> 0 then True
      else if re_swap_status e = SWAPOUT_WRITING then True
      else if re_store_status e = STORE_PENDING then True
      else EBIT_TEST (se_flags e) ENTRY_SPECIAL \<and> \<not> EBIT_TEST (se_flags e) KEY_PRIVATE)"

datatype repl_type = TYPE_UNKNOWN | TYPE_STORE_ENTRY | TYPE_STORE_MEM

text \<open>A pointer to a \<^verbatim>\<open>RemovalPolicyNode\<close>: the entry it is part of, and which of its two nodes it is.\<close>

datatype node_slot = Repl | MemRepl

type_synonym policy_node = "nat \<times> node_slot"

definition entry_at :: "entry_mem \<Rightarrow> nat \<Rightarrow> repl_entry res" where
  "entry_at es a = (case es a of None \<Rightarrow> Inl Dangling | Some e \<Rightarrow> Inr e)"

definition node_data :: "entry_mem \<Rightarrow> policy_node \<Rightarrow> nat option res" where
  "node_data es node =
     res_bind (entry_at es (fst node)) (\<lambda>e.
     case snd node of
       Repl \<Rightarrow> Inr (re_repl e)
     | MemRepl \<Rightarrow> (case re_mem_repl e of None \<Rightarrow> Inl Dangling | Some d \<Rightarrow> Inr d))"

definition set_node_data :: "entry_mem \<Rightarrow> policy_node \<Rightarrow> nat option \<Rightarrow> entry_mem res" where
  "set_node_data es node v =
     res_bind (entry_at es (fst node)) (\<lambda>e.
     case snd node of
       Repl \<Rightarrow> Inr (es(fst node \<mapsto> e\<lparr>re_repl := v\<rparr>))
     | MemRepl \<Rightarrow> (case re_mem_repl e of None \<Rightarrow> Inl Dangling | Some _ \<Rightarrow> Inr (es(fst node \<mapsto> e\<lparr>re_mem_repl := Some v\<rparr>))))"

definition repl_guessType :: "entry_mem \<Rightarrow> nat \<Rightarrow> policy_node \<Rightarrow> repl_type res" where
  "repl_guessType es entry node =
     (if node = (entry, Repl) then Inr TYPE_STORE_ENTRY
      else res_bind (entry_at es entry) (\<lambda>e.
        if re_mem_repl e \<noteq> None \<and> node = (entry, MemRepl) then Inr TYPE_STORE_MEM
        else Inl (Thrown ''Heap Replacement: Unknown StoreEntry node type'')))"

definition setPolicyNode :: "repl_type \<Rightarrow> entry_mem \<Rightarrow> nat \<Rightarrow> nat option \<Rightarrow> entry_mem res" where
  "setPolicyNode t es entry v =
     (case t of
        TYPE_STORE_ENTRY \<Rightarrow> set_node_data es (entry, Repl) v
      | TYPE_STORE_MEM \<Rightarrow> set_node_data es (entry, MemRepl) v
      | TYPE_UNKNOWN \<Rightarrow> Inr es)"

section \<open>Facts about nodes\<close>

primrec slot_type :: "node_slot \<Rightarrow> repl_type" where
  "slot_type Repl = TYPE_STORE_ENTRY"
| "slot_type MemRepl = TYPE_STORE_MEM"

text \<open>The pointer an entry holds in one of its nodes, \<open>None\<close> also where it has no such node.\<close>

definition slot_ptr :: "entry_mem \<Rightarrow> node_slot \<Rightarrow> nat \<Rightarrow> nat option" where
  "slot_ptr es sl e =
     (case es e of None \<Rightarrow> None
      | Some en \<Rightarrow> (case sl of Repl \<Rightarrow> re_repl en | MemRepl \<Rightarrow> (case re_mem_repl en of None \<Rightarrow> None | Some d \<Rightarrow> d)))"

definition has_slot :: "entry_mem \<Rightarrow> node_slot \<Rightarrow> nat \<Rightarrow> bool" where
  "has_slot es sl e \<longleftrightarrow> (\<exists>en. es e = Some en \<and> (sl = MemRepl \<longrightarrow> re_mem_repl en \<noteq> None))"

lemma node_data_ok: "has_slot es sl e \<Longrightarrow> node_data es (e, sl) = Inr (slot_ptr es sl e)"
  by (cases sl) (auto simp: has_slot_def node_data_def entry_at_def slot_ptr_def)

lemma slot_ptr_has: "slot_ptr es sl e = Some a \<Longrightarrow> has_slot es sl e"
  by (cases sl) (auto simp: slot_ptr_def has_slot_def split: option.splits)

definition locked_at :: "entry_mem \<Rightarrow> nat \<Rightarrow> bool" where
  "locked_at es e \<longleftrightarrow> (case es e of None \<Rightarrow> False | Some en \<Rightarrow> entry_locked en)"

lemma set_node_data_ok:
  assumes "has_slot es sl e"
  shows "\<exists>es'. set_node_data es (e, sl) v = Inr es' \<and> slot_ptr es' sl = (slot_ptr es sl)(e := v) \<and>
    has_slot es' sl = has_slot es sl \<and> locked_at es' = locked_at es \<and> (\<forall>x. x \<noteq> e \<longrightarrow> es' x = es x)"
proof -
  obtain en where en: "es e = Some en" "sl = MemRepl \<longrightarrow> re_mem_repl en \<noteq> None" using assms by (auto simp: has_slot_def)
  define en' where "en' = (case sl of Repl \<Rightarrow> en\<lparr>re_repl := v\<rparr> | MemRepl \<Rightarrow> en\<lparr>re_mem_repl := Some v\<rparr>)"
  have "set_node_data es (e, sl) v = Inr (es(e \<mapsto> en'))"
    using en by (cases sl) (auto simp: set_node_data_def entry_at_def en'_def)
  moreover have "slot_ptr (es(e \<mapsto> en')) sl = (slot_ptr es sl)(e := v)"
    by (cases sl) (auto simp: slot_ptr_def en'_def fun_eq_iff)
  moreover have "has_slot (es(e \<mapsto> en')) sl = has_slot es sl"
    using en by (cases sl) (auto simp: has_slot_def en'_def fun_eq_iff)
  moreover have "entry_locked en' = entry_locked en" by (cases sl) (simp_all add: en'_def entry_locked_def)
  then have "locked_at (es(e \<mapsto> en')) = locked_at es" using en by (auto simp: locked_at_def fun_eq_iff)
  ultimately show ?thesis by (intro exI [of _ "es(e \<mapsto> en')"]) auto
qed

lemma guessType_ok: "has_slot es sl e \<Longrightarrow> repl_guessType es e (e, sl) = Inr (slot_type sl)"
  by (cases sl) (auto simp: has_slot_def repl_guessType_def entry_at_def)

lemma setPolicyNode_slot: "setPolicyNode (slot_type sl) es e v = set_node_data es (e, sl) v"
  by (cases sl) (simp_all add: setPolicyNode_def)

section \<open>Making room in memory\<close>

text \<open>
  \<^verbatim>\<open>purgeMem\<close> as the policies see it: the entry loses its \<^verbatim>\<open>mem_obj\<close> with the node in it, and an entry that is not
  on disk is released, which destroys it. An entry that a purge gives out is not locked, so the request by which \<^verbatim>\<open>release\<close> marks
  locked entries is not modelled, nor is its delay while the disk index is rebuilt.
\<close>

definition purge_mem_obj :: "entry_mem \<Rightarrow> nat \<Rightarrow> entry_mem" where
  "purge_mem_obj es e =
     (case es e of
        None \<Rightarrow> es
      | Some en \<Rightarrow>
          if re_mem_repl en = None then es
          else if re_swap_status en \<noteq> SWAPOUT_DONE \<and> \<not> entry_locked en then es(e := None)
          else es(e \<mapsto> en\<lparr>re_mem_repl := None\<rparr>))"

lemma purge_mem_obj_ok:
  assumes "slot_ptr es MemRepl e = None"
  shows "slot_ptr (purge_mem_obj es e) MemRepl = slot_ptr es MemRepl" and "locked_at (purge_mem_obj es e) = locked_at es"
proof -
  show "slot_ptr (purge_mem_obj es e) MemRepl = slot_ptr es MemRepl"
    using assms by (auto simp: purge_mem_obj_def slot_ptr_def fun_eq_iff split: option.splits)
  have "entry_locked (en\<lparr>re_mem_repl := None\<rparr>) = entry_locked en" for en by (simp add: entry_locked_def)
  then show "locked_at (purge_mem_obj es e) = locked_at es"
    by (auto simp: purge_mem_obj_def locked_at_def fun_eq_iff split: option.splits)
qed

lemma purge_mem_obj_other: "y \<noteq> e \<Longrightarrow> purge_mem_obj es e y = es y"
  by (simp add: purge_mem_obj_def split: option.split)

definition SM_PAGE_SIZE :: nat where
  "SM_PAGE_SIZE = 4096"

text \<open>
  \<open>nxt\<close> is \<^verbatim>\<open>walker->Next\<close>, \<open>purge_mem\<close> is \<^verbatim>\<open>purgeMem\<close> of the entry, which gives back the pages of its data;
  \<open>in_use\<close> is \<^verbatim>\<open>mem_node::InUseCount()\<close>. The loop has fuel, the number of managed entries plus one.
\<close>

fun mem_space_loop ::
  "('s \<Rightarrow> 'w \<Rightarrow> (nat option \<times> 's \<times> 'w) res) \<Rightarrow> ('s \<Rightarrow> nat \<Rightarrow> 's) \<Rightarrow> (nat \<Rightarrow> nat) \<Rightarrow> nat \<Rightarrow> nat \<Rightarrow> nat \<Rightarrow> nat \<Rightarrow> 's \<Rightarrow> 'w \<Rightarrow>
   (nat list \<times> nat \<times> 's \<times> 'w) res"
where
  "mem_space_loop nxt purge_mem pages needed pages_max 0 in_use s w = Inl OutOfFuel"
| "mem_space_loop nxt purge_mem pages needed pages_max (Suc fuel) in_use s w =
     res_bind (nxt s w) (\<lambda>(r, s1, w1).
     case r of
       None \<Rightarrow> Inr ([], in_use, s1, w1)
     | Some e \<Rightarrow>
         (let s2 = purge_mem s1 e; u = in_use - pages e
          in if u + needed < pages_max then Inr ([e], u, s2, w1)
             else res_bind (mem_space_loop nxt purge_mem pages needed pages_max fuel u s2 w1) (\<lambda>(rs, u', s', w').
               Inr (e # rs, u', s', w'))))"

text \<open>
  The result: the entries released, the pages in use, the policy and the time of the last check. \<open>init\<close> and
  \<open>fin\<close> are \<^verbatim>\<open>PurgeInit\<close> and \<^verbatim>\<open>Done\<close>.
\<close>

definition storeGetMemSpace ::
  "('s \<Rightarrow> int \<Rightarrow> 's \<times> 'w) \<Rightarrow> ('s \<Rightarrow> 'w \<Rightarrow> (nat option \<times> 's \<times> 'w) res) \<Rightarrow> ('s \<Rightarrow> 'w \<Rightarrow> 's res) \<Rightarrow> ('s \<Rightarrow> nat \<Rightarrow> 's) \<Rightarrow>
   (nat \<Rightarrow> nat) \<Rightarrow> nat \<Rightarrow> nat \<Rightarrow> int \<Rightarrow> nat \<Rightarrow> int \<Rightarrow> nat \<Rightarrow> 's \<Rightarrow> (nat list \<times> nat \<times> 's \<times> int) res"
where
  "storeGetMemSpace init nxt fin purge_mem pages pages_max fuel now sz last_check in_use s =
     (if now = last_check then Inr ([], in_use, s, last_check)
      else (let pages_needed = (sz + SM_PAGE_SIZE - 1) div SM_PAGE_SIZE
            in if in_use + pages_needed < pages_max then Inr ([], in_use, s, now)
               else (let (s1, w) = init s 100000
                     in res_bind (mem_space_loop nxt purge_mem pages pages_needed pages_max fuel in_use s1 w) (\<lambda>(rs, u, s2, w2).
                        res_bind (fin s2 w2) (\<lambda>s3. Inr (rs, u, s3, now))))))"

section \<open>The contract of a purge\<close>

text \<open>
  While a purge is under way, \<open>members\<close> are the entries the policy manages and \<open>left\<close> those it may still give
  out; \<open>best\<close> says which of them come first.
\<close>

locale removal_policy =
  fixes idle :: "'s \<Rightarrow> bool"
    and purging :: "'s \<Rightarrow> 'w \<Rightarrow> bool"
    and managed :: "'s \<Rightarrow> nat set"
    and members :: "'s \<Rightarrow> 'w \<Rightarrow> nat set"
    and left :: "'s \<Rightarrow> 'w \<Rightarrow> nat set"
    and best :: "'s \<Rightarrow> 'w \<Rightarrow> nat \<Rightarrow> bool"
    and init :: "'s \<Rightarrow> int \<Rightarrow> 's \<times> 'w"
    and nxt :: "'s \<Rightarrow> 'w \<Rightarrow> (nat option \<times> 's \<times> 'w) res"
    and fin :: "'s \<Rightarrow> 'w \<Rightarrow> 's res"
    and purge_mem :: "'s \<Rightarrow> nat \<Rightarrow> 's"
  assumes init: "idle s \<Longrightarrow> 0 \<le> m \<Longrightarrow> purging (fst (init s m)) (snd (init s m)) \<and> members (fst (init s m)) (snd (init s m)) = managed s"
    and finite_left: "purging s w \<Longrightarrow> finite (left s w) \<and> left s w \<subseteq> members s w"
    and next_none: "purging s w \<Longrightarrow> left s w = {} \<Longrightarrow>
      \<exists>s' w'. nxt s w = Inr (None, s', w') \<and> purging s' w' \<and> members s' w' = members s w"
    and next_some: "purging s w \<Longrightarrow> left s w \<noteq> {} \<Longrightarrow>
      \<exists>e s' w'. nxt s w = Inr (Some e, s', w') \<and> purging s' w' \<and> e \<in> left s w \<and> best s w e \<and>
        left s' w' = left s w - {e} \<and> members s' w' = members s w - {e}"
    and purge_mem: "purging s w \<Longrightarrow> e \<notin> members s w \<Longrightarrow>
      purging (purge_mem s e) w \<and> left (purge_mem s e) w = left s w \<and> members (purge_mem s e) w = members s w"
    and fin: "purging s w \<Longrightarrow> \<exists>s'. fin s w = Inr s' \<and> idle s' \<and> managed s' = members s w"
begin

lemma loop_ok:
  assumes "purging s w" and "card (left s w) < fuel"
  shows "\<exists>rs u s' w'. mem_space_loop nxt purge_mem pages needed mx fuel in_use s w = Inr (rs, u, s', w') \<and>
    purging s' w' \<and> set rs \<subseteq> left s w \<and> distinct rs \<and> members s' w' = members s w - set rs \<and>
    in_use \<le> u + sum_list (map pages rs) \<and> (u + needed < mx \<or> set rs = left s w)"
  using assms
proof (induction fuel arbitrary: in_use s w)
  case 0
  then show ?case by simp
next
  case (Suc fuel)
  show ?case
  proof (cases "left s w = {}")
    case True
    then show ?thesis using next_none [OF Suc.prems(1)] by force
  next
    case False
    from next_some [OF Suc.prems(1) False]
    obtain e s1 w1 where n: "nxt s w = Inr (Some e, s1, w1)" "purging s1 w1" "e \<in> left s w"
        "left s1 w1 = left s w - {e}" "members s1 w1 = members s w - {e}" by blast
    then have p: "purging (purge_mem s1 e) w1" "left (purge_mem s1 e) w1 = left s w - {e}"
        "members (purge_mem s1 e) w1 = members s w - {e}"
      using purge_mem [OF n(2), of e] by simp_all
    show ?thesis
    proof (cases "in_use - pages e + needed < mx")
      case True
      then show ?thesis using n p by (auto simp: Let_def)
    next
      case no: False
      have "card (left s w - {e}) < fuel"
        using Suc.prems(2) n(3) finite_left [OF Suc.prems(1)] by (simp add: card_Diff_singleton) (metis card_gt_0_iff empty_iff Suc_pred less_Suc_eq_le Suc_le_eq)
      then obtain rs u s' w' where r: "mem_space_loop nxt purge_mem pages needed mx fuel (in_use - pages e) (purge_mem s1 e) w1 = Inr (rs, u, s', w')"
          "purging s' w'" "set rs \<subseteq> left s w - {e}" "distinct rs" "members s' w' = members s w - {e} - set rs"
          "in_use - pages e \<le> u + sum_list (map pages rs)" "u + needed < mx \<or> set rs = left s w - {e}"
        using Suc.IH [of "purge_mem s1 e" w1 "in_use - pages e"] p by auto
      then show ?thesis using n no by (auto simp: Let_def)
    qed
  qed
qed

lemma get_mem_space:
  assumes "idle s" and "finite (managed s)" and "card (managed s) < fuel"
  shows "\<exists>rs u s' t. storeGetMemSpace init nxt fin purge_mem pages mx fuel now sz lastc in_use s = Inr (rs, u, s', t) \<and>
    idle s' \<and> managed s' = managed s - set rs \<and> distinct rs \<and>
    set rs \<subseteq> left (fst (init s 100000)) (snd (init s 100000)) \<and>
    (now = lastc \<or> u + (sz + SM_PAGE_SIZE - 1) div SM_PAGE_SIZE < mx \<or>
     set rs = left (fst (init s 100000)) (snd (init s 100000)))"
proof -
  obtain s1 w where i: "init s 100000 = (s1, w)" by (cases "init s 100000")
  have p: "purging s1 w" "members s1 w = managed s" using init [OF assms(1), of 100000] i by simp_all
  have "card (left s1 w) < fuel"
    using finite_left [OF p(1)] p(2) assms(2,3) card_mono [of "managed s" "left s1 w"] by simp
  from loop_ok [OF p(1) this]
  obtain rs u s2 w2 where l: "mem_space_loop nxt purge_mem pages ((sz + SM_PAGE_SIZE - 1) div SM_PAGE_SIZE) mx fuel in_use s1 w = Inr (rs, u, s2, w2)"
      "purging s2 w2" "set rs \<subseteq> left s1 w" "distinct rs" "members s2 w2 = members s1 w - set rs"
      "u + (sz + SM_PAGE_SIZE - 1) div SM_PAGE_SIZE < mx \<or> set rs = left s1 w" by blast
  from fin [OF l(2)] obtain s3 where "fin s2 w2 = Inr s3" "idle s3" "managed s3 = members s2 w2" by blast
  then show ?thesis using l p i assms(1) by (auto simp: storeGetMemSpace_def Let_def)
qed

end

end
