(* ===== verification/Repl_Lru.thy ===== *)
theory Repl_Lru
  imports Lib_Dlink Repl_Policy "HOL-Library.Multiset"
begin

text \<open>
  The list-based LRU removal policy (src/repl/lru/store_repl_lru.cc): a doubly linked list of nodes, one for
  each entry, the least recently used entry first. \<open>lp_entries\<close> are the entries the policy is used for (those
  of one cache directory, or of the memory cache), \<open>lp_nodes\<close> the live nodes of its list. The address that
  \<^verbatim>\<open>lru_node_pool->alloc()\<close> returns is an argument. The statistics and the strings of the policy's type are left out.
\<close>

section \<open>The policy\<close>

record lru_policy =
  lp_entries :: entry_mem
  lp_nodes :: dl_mem
  lp_list :: dlink_list
  lp_count :: int
  lp_nwalkers :: int
  lp_type :: repl_type

definition createRemovalPolicy_lru :: "entry_mem \<Rightarrow> lru_policy" where
  "createRemovalPolicy_lru es = \<lparr>lp_entries = es, lp_nodes = Map.empty, lp_list = \<lparr>dl_head = None, dl_tail = None\<rparr>,
     lp_count = 0, lp_nwalkers = 0, lp_type = TYPE_UNKNOWN\<rparr>"

text \<open>A new node is zeroed memory.\<close>

definition dlink_zero :: dlink_node where
  "dlink_zero = \<lparr>dn_data = None, dn_prev = None, dn_next = None\<rparr>"

definition lru_add :: "lru_policy \<Rightarrow> nat \<Rightarrow> policy_node \<Rightarrow> nat \<Rightarrow> lru_policy res" where
  "lru_add lru entry node lru_node =
     res_bind (node_data (lp_entries lru) node) (\<lambda>d.
     res_bind (res_guard (d = None) Assertion) (\<lambda>_.
     res_bind (set_node_data (lp_entries lru) node (Some lru_node)) (\<lambda>es.
     res_bind (dlinkAddTail entry lru_node ((lp_nodes lru)(lru_node \<mapsto> dlink_zero)) (lp_list lru)) (\<lambda>(mem, l).
     let lru1 = lru\<lparr>lp_entries := es, lp_nodes := mem, lp_list := l, lp_count := lp_count lru + 1\<rparr>
     in if lp_type lru1 = TYPE_UNKNOWN then
          res_bind (repl_guessType es entry node) (\<lambda>t. Inr (lru1\<lparr>lp_type := t\<rparr>))
        else Inr lru1))))"

definition lru_remove :: "lru_policy \<Rightarrow> nat \<Rightarrow> policy_node \<Rightarrow> lru_policy res" where
  "lru_remove lru entry node =
     res_bind (node_data (lp_entries lru) node) (\<lambda>d.
     case d of
       None \<Rightarrow> Inr lru
     | Some lru_node \<Rightarrow>
         res_bind (dn_deref (lp_nodes lru) lru_node) (\<lambda>n.
         if dn_data n = None then Inr lru
         else res_bind (res_guard (dn_data n = Some entry) Assertion) (\<lambda>_.
           res_bind (set_node_data (lp_entries lru) node None) (\<lambda>es.
           res_bind (dlinkDelete lru_node (lp_nodes lru) (lp_list lru)) (\<lambda>(mem, l).
           Inr (lru\<lparr>lp_entries := es, lp_nodes := mem(lru_node := None), lp_list := l, lp_count := lp_count lru - 1\<rparr>))))))"

definition lru_referenced :: "lru_policy \<Rightarrow> nat \<Rightarrow> policy_node \<Rightarrow> lru_policy res" where
  "lru_referenced lru entry node =
     res_bind (node_data (lp_entries lru) node) (\<lambda>d.
     case d of
       None \<Rightarrow> Inr lru
     | Some lru_node \<Rightarrow>
         res_bind (dlinkDelete lru_node (lp_nodes lru) (lp_list lru)) (\<lambda>(mem, l).
         res_bind (dlinkAddTail entry lru_node mem l) (\<lambda>(mem', l').
         Inr (lru\<lparr>lp_nodes := mem', lp_list := l'\<rparr>))))"

subsection \<open>Walking\<close>

definition lru_walkInit :: "lru_policy \<Rightarrow> lru_policy \<times> nat option" where
  "lru_walkInit lru = (lru\<lparr>lp_nwalkers := lp_nwalkers lru + 1\<rparr>, dl_head (lp_list lru))"

text \<open>The walker is its current node; the result is the entry, and the walker moved on.\<close>

definition lru_walkNext :: "lru_policy \<Rightarrow> nat option \<Rightarrow> (nat option \<times> nat option) res" where
  "lru_walkNext lru cur =
     (case cur of
        None \<Rightarrow> Inr (None, None)
      | Some a \<Rightarrow> res_bind (dn_deref (lp_nodes lru) a) (\<lambda>n. Inr (dn_data n, dn_next n)))"

definition lru_walkDone :: "lru_policy \<Rightarrow> lru_policy res" where
  "lru_walkDone lru =
     res_bind (res_guard (lp_nwalkers lru > 0) Assertion) (\<lambda>_. Inr (lru\<lparr>lp_nwalkers := lp_nwalkers lru - 1\<rparr>))"

text \<open>The entry whose age the statistics show: the first one that is not locked.\<close>

fun lru_stats_loop :: "nat \<Rightarrow> lru_policy \<Rightarrow> nat option \<Rightarrow> nat option res" where
  "lru_stats_loop 0 lru cur = Inl OutOfFuel"
| "lru_stats_loop (Suc fuel) lru cur =
     (case cur of
        None \<Rightarrow> Inr None
      | Some a \<Rightarrow>
          res_bind (dn_deref (lp_nodes lru) a) (\<lambda>n.
          case dn_data n of
            None \<Rightarrow> Inl Dangling
          | Some e \<Rightarrow> res_bind (entry_at (lp_entries lru) e) (\<lambda>en.
              if entry_locked en then lru_stats_loop fuel lru (dn_next n) else Inr (Some e))))"

definition lru_stats :: "lru_policy \<Rightarrow> nat option res" where
  "lru_stats lru = lru_stats_loop (nat (lp_count lru) + 1) lru (dl_head (lp_list lru))"

subsection \<open>Purging\<close>

record lru_purge =
  pw_current :: "nat option"
  pw_start :: "nat option"
  pw_scanned :: int
  pw_max_scan :: int
  pw_locked :: int

definition lru_purgeInit :: "lru_policy \<Rightarrow> int \<Rightarrow> lru_policy \<times> lru_purge" where
  "lru_purgeInit lru max_scan =
     (lru\<lparr>lp_nwalkers := lp_nwalkers lru + 1\<rparr>,
      \<lparr>pw_current = dl_head (lp_list lru), pw_start = dl_head (lp_list lru), pw_scanned = 0, pw_max_scan = max_scan,
       pw_locked = 0\<rparr>)"

function lru_purgeNext :: "lru_policy \<Rightarrow> lru_purge \<Rightarrow> (nat option \<times> lru_policy \<times> lru_purge) res" where
  "lru_purgeNext lru w =
     (case pw_current w of
        None \<Rightarrow> Inr (None, lru, w)
      | Some a \<Rightarrow>
          if pw_scanned w \<ge> pw_max_scan w then Inr (None, lru, w)
          else res_bind (dn_deref (lp_nodes lru) a) (\<lambda>n.
            let w1 = w\<lparr>pw_scanned := pw_scanned w + 1,
                       pw_current := (if dn_next n = pw_start w then None else dn_next n)\<rparr>
            in res_bind (dlinkDelete a (lp_nodes lru) (lp_list lru)) (\<lambda>(mem, l).
               case dn_data n of
                 None \<Rightarrow> Inl Dangling
               | Some e \<Rightarrow>
                   res_bind (entry_at (lp_entries lru) e) (\<lambda>en.
                   if entry_locked en then
                     res_bind (dlinkAddTail e a mem l) (\<lambda>(mem', l').
                     lru_purgeNext (lru\<lparr>lp_nodes := mem', lp_list := l'\<rparr>) (w1\<lparr>pw_locked := pw_locked w + 1\<rparr>))
                   else
                     res_bind (setPolicyNode (lp_type lru) (lp_entries lru) e None) (\<lambda>es.
                     Inr (Some e, lru\<lparr>lp_nodes := mem(a := None), lp_list := l, lp_count := lp_count lru - 1, lp_entries := es\<rparr>, w1))))))"
  by pat_completeness auto
termination by (relation "measure (\<lambda>(lru, w). nat (pw_max_scan w - pw_scanned w))") auto

declare lru_purgeNext.simps [simp del]

definition lru_purgeDone :: "lru_policy \<Rightarrow> lru_purge \<Rightarrow> lru_policy res" where
  "lru_purgeDone lru w =
     res_bind (res_guard (lp_nwalkers lru > 0) Assertion) (\<lambda>_. Inr (lru\<lparr>lp_nwalkers := lp_nwalkers lru - 1\<rparr>))"

definition lru_free :: "lru_policy \<Rightarrow> unit res" where
  "lru_free lru =
     res_bind (res_guard (lp_nwalkers lru \<noteq> 0) Assertion) (\<lambda>_. res_guard (lp_count lru \<noteq> 0) Assertion)"

section \<open>The order of the entries\<close>

text \<open>The policy for the nodes \<open>sl\<close> of its entries holds the nodes \<open>xs\<close>, each an address and an entry.\<close>

definition lru_inv :: "node_slot \<Rightarrow> lru_policy \<Rightarrow> (nat \<times> nat) list \<Rightarrow> bool" where
  "lru_inv sl lru xs \<longleftrightarrow>
     dl_repr (lp_nodes lru) (lp_list lru) xs \<and> dom (lp_nodes lru) = fst ` set xs \<and> lp_count lru = int (length xs) \<and>
     distinct (map snd xs) \<and> (\<forall>a e. slot_ptr (lp_entries lru) sl e = Some a \<longleftrightarrow> (a, e) \<in> set xs) \<and>
     (lp_type lru = slot_type sl \<or> lp_type lru = TYPE_UNKNOWN \<and> xs = []) \<and> 0 \<le> lp_nwalkers lru"

lemma lru_inv_create: "(\<forall>e. slot_ptr es sl e = None) \<Longrightarrow> lru_inv sl (createRemovalPolicy_lru es) []"
  by (simp add: lru_inv_def createRemovalPolicy_lru_def dl_repr_def)

lemma slot_type_known [simp]: "slot_type sl \<noteq> TYPE_UNKNOWN"
  by (cases sl) simp_all

lemma filter_snd_split: "e \<notin> snd ` set (us @ ws) \<Longrightarrow> filter (\<lambda>x. snd x \<noteq> e) (us @ (a, e) # ws) = us @ ws"
proof -
  assume "e \<notin> snd ` set (us @ ws)"
  then have "\<forall>x \<in> set us. snd x \<noteq> e" "\<forall>x \<in> set ws. snd x \<noteq> e" by (auto simp: image_Un)
  then show ?thesis by simp
qed

lemma lru_add_ok:
  assumes "lru_inv sl lru xs" and "has_slot (lp_entries lru) sl e" and "slot_ptr (lp_entries lru) sl e = None"
    and "lp_nodes lru a = None"
  shows "\<exists>lru'. lru_add lru e (e, sl) a = Inr lru' \<and> lru_inv sl lru' (xs @ [(a, e)])"
proof -
  have a: "a \<notin> fst ` set xs" using assms(1,4) by (auto simp: lru_inv_def)
  have e: "e \<notin> snd ` set xs" using assms(1,3) by (auto simp: lru_inv_def) (metis option.distinct(1))
  obtain es where es: "set_node_data (lp_entries lru) (e, sl) (Some a) = Inr es"
      "slot_ptr es sl = (slot_ptr (lp_entries lru) sl)(e := Some a)" "has_slot es sl = has_slot (lp_entries lru) sl"
    using set_node_data_ok [OF assms(2)] by blast
  let ?mem = "(lp_nodes lru)(a \<mapsto> dlink_zero)"
  have "dl_repr ?mem (lp_list lru) xs" using assms(1) a by (simp add: lru_inv_def dl_repr_def dl_seg_frame)
  then obtain mem l where d: "dlinkAddTail e a ?mem (lp_list lru) = Inr (mem, l)" "dl_repr mem l (xs @ [(a, e)])" "dom mem = dom ?mem"
    using dlinkAddTail_ok [of ?mem "lp_list lru" xs a e] a by auto
  define lru' where "lru' = lru\<lparr>lp_entries := es, lp_nodes := mem, lp_list := l, lp_count := lp_count lru + 1, lp_type := slot_type sl\<rparr>"
  have "repl_guessType es e (e, sl) = Inr (slot_type sl)" using guessType_ok es(3) assms(2) by simp
  moreover have "lp_type lru = TYPE_UNKNOWN \<or> lp_type lru = slot_type sl" using assms(1) by (auto simp: lru_inv_def)
  ultimately have "lru_add lru e (e, sl) a = Inr lru'"
    using assms(2,3) es(1) d(1) by (cases lru) (auto simp: lru_add_def node_data_ok lru'_def Let_def)
  moreover have "slot_ptr es sl x = Some b \<longleftrightarrow> (b, x) \<in> set (xs @ [(a, e)])" for b x
  proof (cases "x = e")
    case True
    then have "(b, x) \<notin> set xs" using e by (metis imageI snd_conv)
    then show ?thesis using True es(2) by auto
  next
    case False
    then show ?thesis using es(2) assms(1) by (simp add: lru_inv_def)
  qed
  then have "lru_inv sl lru' (xs @ [(a, e)])"
    using assms(1) d a e unfolding lru_inv_def lru'_def by simp
  ultimately show ?thesis by blast
qed

lemma lru_inv_split:
  assumes "lru_inv sl lru xs" and "slot_ptr (lp_entries lru) sl e = Some a"
  obtains us ws where "xs = us @ (a, e) # ws" and "a \<notin> fst ` set (us @ ws)" and "e \<notin> snd ` set (us @ ws)"
proof -
  have "(a, e) \<in> set xs" "distinct (map fst xs)" "distinct (map snd xs)" using assms by (simp_all add: lru_inv_def dl_repr_def)
  moreover then obtain us ws where "xs = us @ (a, e) # ws" by (meson split_list)
  ultimately show thesis using that [of us ws] by (auto simp: image_Un)
qed

lemma lru_delete_ok:
  assumes "lru_inv sl lru (us @ (a, e) # ws)"
  shows "\<exists>mem l. dlinkDelete a (lp_nodes lru) (lp_list lru) = Inr (mem, l) \<and> dl_repr mem l (us @ ws) \<and> dom mem = dom (lp_nodes lru)"
  using dlinkDelete_ok [of "lp_nodes lru" "lp_list lru" us a e ws] assms by (auto simp: lru_inv_def)

lemma lru_inv_node:
  assumes "lru_inv sl lru (us @ (a, e) # ws)"
  shows "lp_nodes lru a = Some \<lparr>dn_data = Some e, dn_prev = dl_final us None, dn_next = dl_first ws None\<rparr>"
    and "slot_ptr (lp_entries lru) sl e = Some a" and "has_slot (lp_entries lru) sl e"
    and "a \<notin> fst ` set (us @ ws)" and "e \<notin> snd ` set (us @ ws)"
proof -
  show p: "slot_ptr (lp_entries lru) sl e = Some a" using assms by (auto simp: lru_inv_def)
  then show "has_slot (lp_entries lru) sl e" by (rule slot_ptr_has)
  show "lp_nodes lru a = Some \<lparr>dn_data = Some e, dn_prev = dl_final us None, dn_next = dl_first ws None\<rparr>"
    using assms by (simp add: lru_inv_def dl_repr_def)
  show "a \<notin> fst ` set (us @ ws)" "e \<notin> snd ` set (us @ ws)"
    using assms by (auto simp: lru_inv_def dl_repr_def image_Un)
qed

text \<open>Taking a node out for good, and putting it at the end.\<close>

lemma lru_drop_ok:
  assumes "lru_inv sl lru (us @ (a, e) # ws)"
  shows "\<exists>mem l es. dlinkDelete a (lp_nodes lru) (lp_list lru) = Inr (mem, l) \<and>
    set_node_data (lp_entries lru) (e, sl) None = Inr es \<and> locked_at es = locked_at (lp_entries lru) \<and> has_slot es sl = has_slot (lp_entries lru) sl \<and>
    lru_inv sl (lru\<lparr>lp_entries := es, lp_nodes := mem(a := None), lp_list := l, lp_count := lp_count lru - 1\<rparr>) (us @ ws)"
proof -
  note n = lru_inv_node [OF assms]
  obtain mem l where d: "dlinkDelete a (lp_nodes lru) (lp_list lru) = Inr (mem, l)" "dl_repr mem l (us @ ws)" "dom mem = dom (lp_nodes lru)"
    using lru_delete_ok [OF assms] by blast
  obtain es where es: "set_node_data (lp_entries lru) (e, sl) None = Inr es" "slot_ptr es sl = (slot_ptr (lp_entries lru) sl)(e := None)"
      "locked_at es = locked_at (lp_entries lru)" "has_slot es sl = has_slot (lp_entries lru) sl"
    using set_node_data_ok [OF n(3)] by blast
  have "dl_repr (mem(a := None)) l (us @ ws)" using d(2) n(4) by (auto simp: dl_repr_def dl_seg_frame image_Un)
  moreover have "dom (mem(a := None)) = fst ` set (us @ ws)" using d(3) n(4) assms by (auto simp: lru_inv_def image_Un)
  moreover have "\<forall>b x. slot_ptr es sl x = Some b \<longleftrightarrow> (b, x) \<in> set (us @ ws)"
  proof (intro allI)
    fix b x
    have old: "slot_ptr (lp_entries lru) sl x = Some b \<longleftrightarrow> (b, x) \<in> set (us @ (a, e) # ws)" using assms by (simp add: lru_inv_def)
    show "slot_ptr es sl x = Some b \<longleftrightarrow> (b, x) \<in> set (us @ ws)"
    proof (cases "x = e")
      case True
      then have "(b, x) \<notin> set (us @ ws)" using n(5) by (metis imageI snd_conv)
      then show ?thesis using True es(2) by simp
    next
      case False
      then show ?thesis using old es(2) by auto
    qed
  qed
  ultimately have "lru_inv sl (lru\<lparr>lp_entries := es, lp_nodes := mem(a := None), lp_list := l, lp_count := lp_count lru - 1\<rparr>) (us @ ws)"
    using assms by (auto simp: lru_inv_def)
  then show ?thesis using d(1) es by blast
qed

lemma lru_requeue_ok:
  assumes "lru_inv sl lru (us @ (a, e) # ws)"
  shows "\<exists>mem l mem' l'. dlinkDelete a (lp_nodes lru) (lp_list lru) = Inr (mem, l) \<and> dlinkAddTail e a mem l = Inr (mem', l') \<and>
    lru_inv sl (lru\<lparr>lp_nodes := mem', lp_list := l'\<rparr>) (us @ ws @ [(a, e)])"
proof -
  note n = lru_inv_node [OF assms]
  obtain mem l where d: "dlinkDelete a (lp_nodes lru) (lp_list lru) = Inr (mem, l)" "dl_repr mem l (us @ ws)" "dom mem = dom (lp_nodes lru)"
    using lru_delete_ok [OF assms] by blast
  have "mem a \<noteq> None" using d(3) n(1) by auto
  then obtain mem' l' where "dlinkAddTail e a mem l = Inr (mem', l')" "dl_repr mem' l' ((us @ ws) @ [(a, e)])" "dom mem' = dom mem"
    using dlinkAddTail_ok [OF d(2) n(4), of e] by blast
  then show ?thesis using d assms by (auto simp: lru_inv_def)
qed

lemma lru_remove_ok:
  assumes "lru_inv sl lru xs" and "has_slot (lp_entries lru) sl e"
  shows "\<exists>lru'. lru_remove lru e (e, sl) = Inr lru' \<and> lru_inv sl lru' (filter (\<lambda>x. snd x \<noteq> e) xs)"
proof (cases "slot_ptr (lp_entries lru) sl e")
  case None
  then have "filter (\<lambda>x. snd x \<noteq> e) xs = xs" using assms(1) by (auto simp: lru_inv_def filter_id_conv) (metis option.distinct(1))
  then show ?thesis using None assms by (simp add: lru_remove_def node_data_ok)
next
  case (Some a)
  from lru_inv_split [OF assms(1) Some] obtain us ws where x: "xs = us @ (a, e) # ws" "e \<notin> snd ` set (us @ ws)" by metis
  have "filter (\<lambda>x. snd x \<noteq> e) xs = us @ ws" unfolding x(1) by (rule filter_snd_split [OF x(2)])
  then show ?thesis using lru_drop_ok [of sl lru us a e ws] lru_inv_node(1) [of sl lru us a e ws] Some assms x(1)
    by (auto simp: lru_remove_def node_data_ok dn_deref_def)
qed

lemma lru_referenced_ok:
  assumes "lru_inv sl lru xs" and "slot_ptr (lp_entries lru) sl e = Some a"
  shows "\<exists>lru'. lru_referenced lru e (e, sl) = Inr lru' \<and> lru_inv sl lru' (filter (\<lambda>x. snd x \<noteq> e) xs @ [(a, e)])"
proof -
  from lru_inv_split [OF assms] obtain us ws where x: "xs = us @ (a, e) # ws" "e \<notin> snd ` set (us @ ws)" by metis
  have "filter (\<lambda>x. snd x \<noteq> e) xs = us @ ws" unfolding x(1) by (rule filter_snd_split [OF x(2)])
  then show ?thesis using lru_requeue_ok [of sl lru us a e ws] assms x(1) slot_ptr_has [OF assms(2)]
    by (auto simp: lru_referenced_def node_data_ok)
qed

section \<open>Walking the list\<close>

fun lru_walk :: "nat \<Rightarrow> lru_policy \<Rightarrow> nat option \<Rightarrow> nat list res" where
  "lru_walk 0 lru cur = Inl OutOfFuel"
| "lru_walk (Suc fuel) lru cur =
     res_bind (lru_walkNext lru cur) (\<lambda>(r, cur').
     case r of None \<Rightarrow> Inr [] | Some e \<Rightarrow> res_bind (lru_walk fuel lru cur') (\<lambda>es. Inr (e # es)))"

text \<open>The entries of a policy, as a walker sees them.\<close>

definition lru_entries :: "lru_policy \<Rightarrow> nat list" where
  "lru_entries lru = (case lru_walk (nat (lp_count lru) + 1) lru (dl_head (lp_list lru)) of Inl _ \<Rightarrow> [] | Inr es \<Rightarrow> es)"

lemma lru_walk_seg: "dl_seg (lp_nodes lru) p xs None \<Longrightarrow> lru_walk (length xs + 1) lru (dl_first xs None) = Inr (map snd xs)"
proof (induction xs arbitrary: p)
  case Nil
  then show ?case by (simp add: lru_walkNext_def)
next
  case (Cons x xs)
  then show ?case by (auto simp: lru_walkNext_def dn_deref_def)
qed

lemma lru_entries_inv: "lru_inv sl lru xs \<Longrightarrow> lru_entries lru = map snd xs"
  using lru_walk_seg [of lru None xs] by (simp add: lru_entries_def lru_inv_def dl_repr_def)

lemma lru_entries_walkers [simp]: "lru_entries (lru\<lparr>lp_nwalkers := n\<rparr>) = lru_entries lru"
proof -
  have "lru_walk k (lru\<lparr>lp_nwalkers := n\<rparr>) cur = lru_walk k lru cur" for k cur
    by (induction k arbitrary: cur) (auto simp: lru_walkNext_def intro!: res_bind_cong split: option.split)
  then show ?thesis by (simp add: lru_entries_def)
qed

lemma lru_stats_seg:
  assumes "lru_inv sl lru ys" and "dl_seg (lp_nodes lru) p xs None" and "set xs \<subseteq> set ys"
  shows "lru_stats_loop (length xs + 1) lru (dl_first xs None) = Inr (find (\<lambda>e. \<not> locked_at (lp_entries lru) e) (map snd xs))"
  using assms(2,3)
proof (induction xs arbitrary: p)
  case (Cons x xs)
  have "slot_ptr (lp_entries lru) sl (snd x) = Some (fst x)" using assms(1) Cons.prems(2) by (simp add: lru_inv_def)
  then obtain en where "lp_entries lru (snd x) = Some en" using slot_ptr_has by (fastforce simp: has_slot_def)
  then show ?case using Cons by (auto simp: dn_deref_def entry_at_def locked_at_def)
qed simp

lemma lru_stats_ok: "lru_inv sl lru xs \<Longrightarrow> lru_stats lru = Inr (find (\<lambda>e. \<not> locked_at (lp_entries lru) e) (lru_entries lru))"
  using lru_stats_seg [of sl lru xs None xs] by (simp add: lru_entries_inv) (simp add: lru_stats_def lru_inv_def dl_repr_def)

section \<open>A purge\<close>

text \<open>
  The nodes \<open>U\<close> are still to be scanned, those of \<open>L\<close> were found locked. The walk ends when it comes back to
  the node it started at, but only if that one was locked; otherwise it goes round the locked nodes until it has scanned
  enough.
\<close>

definition lru_at :: "lru_purge \<Rightarrow> (nat \<times> nat) list \<Rightarrow> (nat \<times> nat) list \<Rightarrow> bool" where
  "lru_at w U L \<longleftrightarrow>
     (case U of
        x # _ \<Rightarrow> pw_current w = Some (fst x) \<and>
          (\<exists>a. pw_start w = Some a \<and> (a \<notin> fst ` set (U @ L) \<or> (case L of [] \<Rightarrow> a = fst x | y # _ \<Rightarrow> a = fst y)))
      | [] \<Rightarrow> pw_current w = None \<or>
          (L \<noteq> [] \<and> pw_current w = Some (fst (hd L)) \<and> (\<exists>a. pw_start w = Some a \<and> a \<notin> fst ` set L)))"

definition lru_purging :: "node_slot \<Rightarrow> lru_policy \<Rightarrow> lru_purge \<Rightarrow> (nat \<times> nat) list \<Rightarrow> (nat \<times> nat) list \<Rightarrow> bool" where
  "lru_purging sl lru w U L \<longleftrightarrow> lru_inv sl lru (U @ L) \<and> 0 < lp_nwalkers lru \<and>
     (\<forall>x \<in> set L. locked_at (lp_entries lru) (snd x)) \<and> lru_at w U L"

lemma lru_purging_fresh:
  assumes "lru_inv sl lru xs"
  shows "lru_purging sl (fst (lru_purgeInit lru m)) (snd (lru_purgeInit lru m)) xs []"
  using assms by (auto simp: lru_purging_def lru_purgeInit_def lru_inv_def lru_at_def dl_repr_def split: list.splits)

lemma lru_entry_at:
  assumes "lru_inv sl lru (us @ (a, e) # ws)"
  shows "\<exists>en. entry_at (lp_entries lru) e = Inr en \<and> entry_locked en = locked_at (lp_entries lru) e"
  using lru_inv_node(3) [OF assms] by (auto simp: has_slot_def entry_at_def locked_at_def)

lemma lru_purge_skip:
  assumes "lru_inv sl lru ((a, e) # xs)" and "pw_current w = Some a" and "pw_scanned w < pw_max_scan w"
    and "locked_at (lp_entries lru) e"
  shows "\<exists>mem l. lru_purgeNext lru w = lru_purgeNext (lru\<lparr>lp_nodes := mem, lp_list := l\<rparr>)
      (w\<lparr>pw_scanned := pw_scanned w + 1, pw_current := (if dl_first xs None = pw_start w then None else dl_first xs None),
         pw_locked := pw_locked w + 1\<rparr>) \<and> lru_inv sl (lru\<lparr>lp_nodes := mem, lp_list := l\<rparr>) (xs @ [(a, e)])"
proof -
  have i: "lru_inv sl lru ([] @ (a, e) # xs)" using assms(1) by simp
  obtain en where en: "entry_at (lp_entries lru) e = Inr en" "entry_locked en" using lru_entry_at [OF i] assms(4) by auto
  obtain mem l mem' l' where d: "dlinkDelete a (lp_nodes lru) (lp_list lru) = Inr (mem, l)" "dlinkAddTail e a mem l = Inr (mem', l')"
      "lru_inv sl (lru\<lparr>lp_nodes := mem', lp_list := l'\<rparr>) (xs @ [(a, e)])"
    using lru_requeue_ok [OF i] by auto
  have "lru_purgeNext lru w = lru_purgeNext (lru\<lparr>lp_nodes := mem', lp_list := l'\<rparr>)
      (w\<lparr>pw_scanned := pw_scanned w + 1, pw_current := (if dl_first xs None = pw_start w then None else dl_first xs None),
         pw_locked := pw_locked w + 1\<rparr>)"
    using assms(2,3) en d(1,2) lru_inv_node(1) [OF i]
    by (subst lru_purgeNext.simps) (simp add: dn_deref_def Let_def)
  then show ?thesis using d(3) by blast
qed

lemma lru_purge_take:
  assumes "lru_inv sl lru ((a, e) # xs)" and "pw_current w = Some a" and "pw_scanned w < pw_max_scan w"
    and "\<not> locked_at (lp_entries lru) e"
  shows "\<exists>lru'. lru_purgeNext lru w = Inr (Some e, lru', w\<lparr>pw_scanned := pw_scanned w + 1,
        pw_current := (if dl_first xs None = pw_start w then None else dl_first xs None)\<rparr>) \<and> lru_inv sl lru' xs \<and>
      locked_at (lp_entries lru') = locked_at (lp_entries lru) \<and> lp_nwalkers lru' = lp_nwalkers lru"
proof -
  have i: "lru_inv sl lru ([] @ (a, e) # xs)" using assms(1) by simp
  obtain en where en: "entry_at (lp_entries lru) e = Inr en" "\<not> entry_locked en" using lru_entry_at [OF i] assms(4) by auto
  obtain mem l es where d: "dlinkDelete a (lp_nodes lru) (lp_list lru) = Inr (mem, l)" "set_node_data (lp_entries lru) (e, sl) None = Inr es"
      "locked_at es = locked_at (lp_entries lru)"
      "lru_inv sl (lru\<lparr>lp_entries := es, lp_nodes := mem(a := None), lp_list := l, lp_count := lp_count lru - 1\<rparr>) xs"
    using lru_drop_ok [OF i] by auto
  let ?lru = "lru\<lparr>lp_entries := es, lp_nodes := mem(a := None), lp_list := l, lp_count := lp_count lru - 1\<rparr>"
  have "lp_type lru = slot_type sl" using assms(1) by (auto simp: lru_inv_def)
  then have "lru_purgeNext lru w = Inr (Some e, ?lru, w\<lparr>pw_scanned := pw_scanned w + 1,
        pw_current := (if dl_first xs None = pw_start w then None else dl_first xs None)\<rparr>)"
    using assms(2,3) en d(1,2) lru_inv_node(1) [OF i]
    by (subst lru_purgeNext.simps) (simp add: dn_deref_def Let_def setPolicyNode_slot)
  then show ?thesis using d(3,4) by (intro exI [of _ ?lru]) simp
qed

lemma lru_purge_stop: "pw_current w = None \<or> pw_max_scan w \<le> pw_scanned w \<Longrightarrow> lru_purgeNext lru w = Inr (None, lru, w)"
  by (subst lru_purgeNext.simps) (auto split: option.splits)

lemma lru_at_step:
  assumes "lru_at w (x # U) L" and "distinct (map fst (x # U @ L))" and "pw_start w' = pw_start w"
    and "pw_current w' = (if dl_first (U @ L) None = pw_start w then None else dl_first (U @ L) None)"
  shows "lru_at w' U (L @ [x])" and "lru_at w' U L"
  using assms by (cases U; cases L; force simp: lru_at_def)+

definition lru_room :: "lru_purge \<Rightarrow> nat" where
  "lru_room w = nat (pw_max_scan w - pw_scanned w)"

abbreviation unlocked_of :: "lru_policy \<Rightarrow> (nat \<times> nat) list \<Rightarrow> (nat \<times> nat) list" where
  "unlocked_of lru xs \<equiv> filter (\<lambda>x. \<not> locked_at (lp_entries lru) (snd x)) xs"

text \<open>Nothing left to scan: the walk ends, perhaps after going round.\<close>

lemma lru_purge_round:
  assumes "lru_purging sl lru w [] L"
  shows "\<exists>lru' w' L'. lru_purgeNext lru w = Inr (None, lru', w') \<and> lru_purging sl lru' w' [] L' \<and> mset L' = mset L \<and>
    locked_at (lp_entries lru') = locked_at (lp_entries lru)"
  using assms
proof (induction "lru_room w" arbitrary: lru w L)
  case 0
  then show ?case using lru_purge_stop [of w lru] by (auto simp: lru_room_def)
next
  case (Suc n)
  show ?case
  proof (cases "pw_current w")
    case None
    then show ?thesis using lru_purge_stop [of w lru] Suc.prems by blast
  next
    case (Some a)
    then obtain e L1 where L: "L = (a, e) # L1" and st: "\<exists>b. pw_start w = Some b \<and> b \<notin> fst ` set L"
      using Suc.prems by (cases L) (auto simp: lru_purging_def lru_at_def)
    have sc: "pw_scanned w < pw_max_scan w" using Suc.hyps(2) by (simp add: lru_room_def)
    have i: "lru_inv sl lru ((a, e) # L1)" and lk: "locked_at (lp_entries lru) e" using Suc.prems L by (simp_all add: lru_purging_def)
    obtain mem l where k: "lru_purgeNext lru w = lru_purgeNext (lru\<lparr>lp_nodes := mem, lp_list := l\<rparr>)
        (w\<lparr>pw_scanned := pw_scanned w + 1, pw_current := (if dl_first L1 None = pw_start w then None else dl_first L1 None),
           pw_locked := pw_locked w + 1\<rparr>)" "lru_inv sl (lru\<lparr>lp_nodes := mem, lp_list := l\<rparr>) (L1 @ [(a, e)])"
      using lru_purge_skip [OF i Some sc lk] by blast
    let ?lru = "lru\<lparr>lp_nodes := mem, lp_list := l\<rparr>" and ?w = "w\<lparr>pw_scanned := pw_scanned w + 1,
      pw_current := (if dl_first L1 None = pw_start w then None else dl_first L1 None), pw_locked := pw_locked w + 1\<rparr>"
    have p: "lru_purging sl ?lru ?w [] (L1 @ [(a, e)])"
      using Suc.prems k(2) L st by (cases L1) (auto simp: lru_purging_def lru_at_def)
    have "n = lru_room ?w" using Suc.hyps(2) by (simp add: lru_room_def)
    from Suc.hyps(1) [OF this p] show ?thesis using k(1) L by auto
  qed
qed

lemma lru_purge_next:
  assumes "lru_purging sl lru w U L"
  shows "\<exists>lru' w' U' L'. lru_purging sl lru' w' U' L' \<and> locked_at (lp_entries lru') = locked_at (lp_entries lru) \<and>
    (case unlocked_of lru (take (lru_room w) U) of
       [] \<Rightarrow> lru_purgeNext lru w = Inr (None, lru', w') \<and> mset (U' @ L') = mset (U @ L)
     | x # xs \<Rightarrow> lru_purgeNext lru w = Inr (Some (snd x), lru', w') \<and> mset (U @ L) = add_mset x (mset (U' @ L')) \<and>
         unlocked_of lru' (take (lru_room w') U') = xs)"
  using assms
proof (induction U arbitrary: lru w L)
  case Nil
  from lru_purge_round [OF this] show ?case by fastforce
next
  case (Cons x U)
  obtain a e where x: "x = (a, e)" by (cases x)
  show ?case
  proof (cases "lru_room w")
    case 0
    then have "lru_purgeNext lru w = Inr (None, lru, w)" using lru_purge_stop [of w lru] by (simp add: lru_room_def)
    then show ?thesis using 0 Cons.prems by (intro exI [of _ lru] exI [of _ w] exI [of _ "x # U"] exI [of _ L]) simp
  next
    case (Suc n)
    have sc: "pw_scanned w < pw_max_scan w" using Suc by (simp add: lru_room_def)
    have cur: "pw_current w = Some a" and i: "lru_inv sl lru ((a, e) # U @ L)" and "lru_at w (x # U) L"
      and dis: "distinct (map fst (x # U @ L))"
      using Cons.prems x by (auto simp: lru_purging_def lru_at_def lru_inv_def dl_repr_def)
    note at = lru_at_step [OF \<open>lru_at w (x # U) L\<close> dis]
    show ?thesis
    proof (cases "locked_at (lp_entries lru) e")
      case True
      from lru_purge_skip [OF i cur sc True] obtain mem l where k: "lru_purgeNext lru w = lru_purgeNext (lru\<lparr>lp_nodes := mem, lp_list := l\<rparr>)
          (w\<lparr>pw_scanned := pw_scanned w + 1, pw_current := (if dl_first (U @ L) None = pw_start w then None else dl_first (U @ L) None),
           pw_locked := pw_locked w + 1\<rparr>)" (is "_ = lru_purgeNext ?lru ?w")
          "lru_inv sl (lru\<lparr>lp_nodes := mem, lp_list := l\<rparr>) ((U @ L) @ [(a, e)])" by blast
      have "lru_at ?w U (L @ [x])" by (rule at(1)) simp_all
      then have "lru_purging sl ?lru ?w U (L @ [x])" using k(2) Cons.prems True x by (auto simp: lru_purging_def)
      from Cons.IH [OF this] obtain lru' w' U' L' where r: "lru_purging sl lru' w' U' L'"
        "locked_at (lp_entries lru') = locked_at (lp_entries ?lru)"
        "case unlocked_of ?lru (take (lru_room ?w) U) of
           [] \<Rightarrow> lru_purgeNext ?lru ?w = Inr (None, lru', w') \<and> mset (U' @ L') = mset (U @ L @ [x])
         | y # ys \<Rightarrow> lru_purgeNext ?lru ?w = Inr (Some (snd y), lru', w') \<and> mset (U @ L @ [x]) = add_mset y (mset (U' @ L')) \<and>
             unlocked_of lru' (take (lru_room w') U') = ys" by blast
      have "lru_room ?w = n" using Suc by (simp add: lru_room_def)
      then have f: "unlocked_of ?lru (take (lru_room ?w) U) = unlocked_of lru (take (lru_room w) (x # U))"
        using Suc True x by simp
      have m: "mset (U @ L @ [x]) = mset ((x # U) @ L)" by simp
      show ?thesis using r(1,2) r(3) [folded k(1), unfolded f m] by (intro exI conjI) simp_all
    next
      case False
      from lru_purge_take [OF i cur sc False] obtain lru' where k: "lru_purgeNext lru w = Inr (Some e, lru', w\<lparr>pw_scanned := pw_scanned w + 1,
          pw_current := (if dl_first (U @ L) None = pw_start w then None else dl_first (U @ L) None)\<rparr>)" (is "_ = Inr (_, _, ?w)")
          "lru_inv sl lru' (U @ L)" "locked_at (lp_entries lru') = locked_at (lp_entries lru)" "lp_nwalkers lru' = lp_nwalkers lru" by blast
      have "lru_at ?w U L" by (rule at(2)) simp_all
      then have "lru_purging sl lru' ?w U L" using k Cons.prems by (auto simp: lru_purging_def)
      moreover have "lru_room ?w = n" using Suc by (simp add: lru_room_def)
      ultimately show ?thesis using k Suc False x by (intro exI [of _ lru'] exI [of _ ?w] exI [of _ U] exI [of _ L]) simp
    qed
  qed
qed

text \<open>A whole purge, until the walker has no more entries.\<close>

fun lru_purge_run :: "nat \<Rightarrow> lru_policy \<Rightarrow> lru_purge \<Rightarrow> (nat list \<times> lru_policy \<times> lru_purge) res" where
  "lru_purge_run 0 lru w = Inl OutOfFuel"
| "lru_purge_run (Suc fuel) lru w =
     res_bind (lru_purgeNext lru w) (\<lambda>(r, lru', w').
     case r of None \<Rightarrow> Inr ([], lru', w')
     | Some e \<Rightarrow> res_bind (lru_purge_run fuel lru' w') (\<lambda>(es, lru'', w''). Inr (e # es, lru'', w'')))"

lemma lru_purge_run_ok:
  assumes "lru_purging sl lru w U L" and "length (unlocked_of lru (take (lru_room w) U)) < fuel"
  shows "\<exists>lru' w' U' L'. lru_purge_run fuel lru w = Inr (map snd (unlocked_of lru (take (lru_room w) U)), lru', w') \<and>
    lru_purging sl lru' w' U' L' \<and> mset (U' @ L') = mset (U @ L) - mset (unlocked_of lru (take (lru_room w) U))"
  using assms
proof (induction fuel arbitrary: lru w U L)
  case 0
  then show ?case by simp
next
  case (Suc fuel)
  from lru_purge_next [OF Suc.prems(1)] obtain lru' w' U' L' where p: "lru_purging sl lru' w' U' L'"
    and c: "case unlocked_of lru (take (lru_room w) U) of
       [] \<Rightarrow> lru_purgeNext lru w = Inr (None, lru', w') \<and> mset (U' @ L') = mset (U @ L)
     | x # xs \<Rightarrow> lru_purgeNext lru w = Inr (Some (snd x), lru', w') \<and> mset (U @ L) = add_mset x (mset (U' @ L')) \<and>
         unlocked_of lru' (take (lru_room w') U') = xs" by blast
  show ?case
  proof (cases "unlocked_of lru (take (lru_room w) U)")
    case Nil
    then show ?thesis using c p by fastforce
  next
    case (Cons x xs)
    then have "length (unlocked_of lru' (take (lru_room w') U')) < fuel" using c Suc.prems(2) by simp
    from Suc.IH [OF p this] obtain lru'' w'' U'' L'' where
      "lru_purge_run fuel lru' w' = Inr (map snd (unlocked_of lru' (take (lru_room w') U')), lru'', w'')"
      "lru_purging sl lru'' w'' U'' L''" "mset (U'' @ L'') = mset (U' @ L') - mset (unlocked_of lru' (take (lru_room w') U'))" by blast
    then show ?thesis using c Cons by (intro exI [of _ lru''] exI [of _ w''] exI [of _ U''] exI [of _ L'']) (simp flip: mset_filter)
  qed
qed

section \<open>Room in memory\<close>

definition lru_purge_mem :: "lru_policy \<Rightarrow> nat \<Rightarrow> lru_policy" where
  "lru_purge_mem lru e = lru\<lparr>lp_entries := purge_mem_obj (lp_entries lru) e\<rparr>"

definition lru_left :: "lru_policy \<Rightarrow> lru_purge \<Rightarrow> nat list" where
  "lru_left lru w =
     (if pw_current w = None then []
      else filter (\<lambda>e. \<not> locked_at (lp_entries lru) e) (take (lru_room w) (lru_entries lru)))"

definition lru_is_idle :: "lru_policy \<Rightarrow> bool" where
  "lru_is_idle lru \<longleftrightarrow> (\<exists>xs. lru_inv MemRepl lru xs)"

definition lru_is_purging :: "lru_policy \<Rightarrow> lru_purge \<Rightarrow> bool" where
  "lru_is_purging lru w \<longleftrightarrow> (\<exists>U L. lru_purging MemRepl lru w U L)"

lemma lru_left_eq:
  assumes "lru_purging sl lru w U L"
  shows "lru_left lru w = map snd (unlocked_of lru (take (lru_room w) U))"
proof -
  have e: "lru_entries lru = map snd U @ map snd L" using assms by (auto simp: lru_purging_def dest: lru_entries_inv)
  have "filter (\<lambda>e. \<not> locked_at (lp_entries lru) e) (take n (map snd L)) = []" for n
    using assms by (auto simp: lru_purging_def filter_empty_conv dest!: in_set_takeD)
  moreover have "pw_current w = None \<Longrightarrow> U = []" using assms by (auto simp: lru_purging_def lru_at_def split: list.splits)
  ultimately show ?thesis by (auto simp: lru_left_def e take_map filter_map comp_def)
qed

lemma lru_purge_mem_ok:
  assumes "lru_purging MemRepl lru w U L" and "e \<notin> set (lru_entries lru)"
  shows "lru_purging MemRepl (lru_purge_mem lru e) w U L" and "lru_entries (lru_purge_mem lru e) = lru_entries lru"
    and "locked_at (lp_entries (lru_purge_mem lru e)) = locked_at (lp_entries lru)"
proof -
  have i: "lru_inv MemRepl lru (U @ L)" using assms(1) by (simp add: lru_purging_def)
  have "slot_ptr (lp_entries lru) MemRepl e \<noteq> Some a" for a
  proof
    assume "slot_ptr (lp_entries lru) MemRepl e = Some a"
    then have "(a, e) \<in> set (U @ L)" using i by (simp add: lru_inv_def)
    then have "e \<in> snd ` set (U @ L)" by force
    then show False using assms(2) lru_entries_inv [OF i] by (simp add: image_Un)
  qed
  then have "slot_ptr (lp_entries lru) MemRepl e = None" by blast
  note m = purge_mem_obj_ok [OF this]
  have sp: "slot_ptr (lp_entries (lru_purge_mem lru e)) MemRepl = slot_ptr (lp_entries lru) MemRepl" using m(1) by (simp add: lru_purge_mem_def)
  show lk: "locked_at (lp_entries (lru_purge_mem lru e)) = locked_at (lp_entries lru)" using m(2) by (simp add: lru_purge_mem_def)
  have i': "lru_inv MemRepl (lru_purge_mem lru e) (U @ L)" using i sp by (simp add: lru_inv_def) (simp add: lru_purge_mem_def)
  then show "lru_entries (lru_purge_mem lru e) = lru_entries lru" using lru_entries_inv i by metis
  show "lru_purging MemRepl (lru_purge_mem lru e) w U L"
    using i' lk assms(1) by (simp add: lru_purging_def) (simp add: lru_purge_mem_def)
qed

lemma lru_purging_entries: "lru_purging sl lru w U L \<Longrightarrow> set (lru_entries lru) = snd ` set (U @ L) \<and> distinct (map snd (U @ L))"
proof -
  assume "lru_purging sl lru w U L"
  then have i: "lru_inv sl lru (U @ L)" by (simp add: lru_purging_def)
  then have "distinct (map snd (U @ L))" by (simp add: lru_inv_def)
  then show ?thesis using lru_entries_inv [OF i] by (simp add: image_Un)
qed

lemma lru_next_some:
  assumes "lru_purging sl lru w U L" and "lru_left lru w \<noteq> []"
  shows "\<exists>lru' w' U' L'. lru_purgeNext lru w = Inr (Some (hd (lru_left lru w)), lru', w') \<and> lru_purging sl lru' w' U' L' \<and>
    lru_left lru' w' = tl (lru_left lru w) \<and> set (lru_entries lru') = set (lru_entries lru) - {hd (lru_left lru w)}"
proof -
  from lru_purge_next [OF assms(1)] obtain lru' w' U' L' where p: "lru_purging sl lru' w' U' L'"
    and c: "case unlocked_of lru (take (lru_room w) U) of
       [] \<Rightarrow> lru_purgeNext lru w = Inr (None, lru', w') \<and> mset (U' @ L') = mset (U @ L)
     | x # xs \<Rightarrow> lru_purgeNext lru w = Inr (Some (snd x), lru', w') \<and> mset (U @ L) = add_mset x (mset (U' @ L')) \<and>
         unlocked_of lru' (take (lru_room w') U') = xs" by blast
  obtain x xs where x: "unlocked_of lru (take (lru_room w) U) = x # xs" using assms lru_left_eq [OF assms(1)] by (auto simp: neq_Nil_conv)
  then have m: "mset (U @ L) = mset (x # U' @ L')" using c by simp
  have "distinct (map snd (x # U' @ L'))" "set (U @ L) = set (x # U' @ L')"
    using lru_purging_entries [OF assms(1)] m by (metis mset_map mset_eq_imp_distinct_iff, metis mset_eq_setD)
  then have "snd x \<notin> snd ` set (U' @ L')" "snd ` set (U @ L) = insert (snd x) (snd ` set (U' @ L'))"
    by (simp_all only: list.map distinct.simps set_map list.set image_insert) simp_all
  then have "set (lru_entries lru') = set (lru_entries lru) - {snd x}"
    using lru_purging_entries [OF p] lru_purging_entries [OF assms(1)] by blast
  then show ?thesis using c x p lru_left_eq [OF p] lru_left_eq [OF assms(1)]
    by (intro exI [of _ lru'] exI [of _ w'] exI [of _ U'] exI [of _ L']) simp
qed

lemma lru_next_none:
  assumes "lru_purging sl lru w U L" and "lru_left lru w = []"
  shows "\<exists>lru' w' U' L'. lru_purgeNext lru w = Inr (None, lru', w') \<and> lru_purging sl lru' w' U' L' \<and>
    set (lru_entries lru') = set (lru_entries lru)"
proof -
  from lru_purge_next [OF assms(1)] obtain lru' w' U' L' where p: "lru_purging sl lru' w' U' L'"
    and c: "case unlocked_of lru (take (lru_room w) U) of
       [] \<Rightarrow> lru_purgeNext lru w = Inr (None, lru', w') \<and> mset (U' @ L') = mset (U @ L)
     | x # xs \<Rightarrow> lru_purgeNext lru w = Inr (Some (snd x), lru', w') \<and> mset (U @ L) = add_mset x (mset (U' @ L')) \<and>
         unlocked_of lru' (take (lru_room w') U') = xs" by blast
  have "unlocked_of lru (take (lru_room w) U) = []" using assms(2) lru_left_eq [OF assms(1)] by simp
  then have n: "lru_purgeNext lru w = Inr (None, lru', w')" "mset (U' @ L') = mset (U @ L)" using c by simp_all
  then have "set (U' @ L') = set (U @ L)" by (metis mset_eq_setD)
  then show ?thesis using n(1) p lru_purging_entries [OF p] lru_purging_entries [OF assms(1)] by metis
qed

text \<open>The policy keeps the contract of a purge; what it gives out first is the oldest entry that is not locked.\<close>

interpretation lru: removal_policy lru_is_idle lru_is_purging "\<lambda>s. set (lru_entries s)" "\<lambda>s w. set (lru_entries s)"
  "\<lambda>s w. set (lru_left s w)" "\<lambda>s w e. e = hd (lru_left s w)" lru_purgeInit lru_purgeNext lru_purgeDone lru_purge_mem
proof (unfold_locales, goal_cases)
  case (1 s m)
  then obtain xs where "lru_inv MemRepl s xs" by (auto simp: lru_is_idle_def)
  from lru_purging_fresh [OF this, of m] show ?case by (auto simp: lru_is_purging_def) (auto simp: lru_purgeInit_def)
next
  case (2 s w)
  then show ?case by (auto simp: lru_left_def dest: in_set_takeD split: if_splits)
next
  case (3 s w)
  then show ?case using lru_next_none [of MemRepl s w] by (fastforce simp: lru_is_purging_def)
next
  case (4 s w)
  then obtain U L where p: "lru_purging MemRepl s w U L" by (auto simp: lru_is_purging_def)
  have "distinct (lru_left s w)"
    using lru_purging_entries [OF p] unfolding lru_left_eq [OF p] by (metis distinct_map_filter distinct_take map_append distinct_append take_map)
  then have "set (tl (lru_left s w)) = set (lru_left s w) - {hd (lru_left s w)}" using 4(2) by (cases "lru_left s w") auto
  moreover have "lru_left s w \<noteq> []" using 4(2) by auto
  ultimately show ?case using lru_next_some [OF p] hd_in_set by (fastforce simp: lru_is_purging_def)
next
  case (5 s w e)
  then obtain U L where p: "lru_purging MemRepl s w U L" by (auto simp: lru_is_purging_def)
  note m = lru_purge_mem_ok [OF p 5(2)]
  then have "lru_left (lru_purge_mem s e) w = lru_left s w" by (simp add: lru_left_def)
  then show ?case using m by (auto simp: lru_is_purging_def)
next
  case (6 s w)
  then obtain U L where "lru_inv MemRepl s (U @ L)" "0 < lp_nwalkers s" by (auto simp: lru_is_purging_def lru_purging_def)
  then have "lru_inv MemRepl (s\<lparr>lp_nwalkers := lp_nwalkers s - 1\<rparr>) (U @ L)" by (simp add: lru_inv_def)
  then show ?case using \<open>0 < lp_nwalkers s\<close> by (auto simp: lru_is_idle_def lru_purgeDone_def)
qed

section \<open>An example\<close>

definition ex_entry :: "16 word \<Rightarrow> nat \<Rightarrow> repl_entry" where
  "ex_entry locks a = \<lparr>se_key = (0, 0), se_timestamp = 0, se_lastref = 0, se_expires = 0, se_lastmod = 0, se_swap_file_sz = 0,
     se_refcount = 0, se_flags = 0, re_lock_count = locks, re_swap_status = SWAPOUT_DONE, re_store_status = STORE_OK,
     re_repl = None, re_mem_repl = Some (Some a)\<rparr>"

text \<open>Entry 0 is the older one, entry 1 is locked.\<close>

definition ex_lru :: lru_policy where
  "ex_lru = \<lparr>lp_entries = [0 \<mapsto> ex_entry 0 10, 1 \<mapsto> ex_entry 2 11],
     lp_nodes = [10 \<mapsto> \<lparr>dn_data = Some 0, dn_prev = None, dn_next = Some 11\<rparr>, 11 \<mapsto> \<lparr>dn_data = Some 1, dn_prev = Some 10, dn_next = None\<rparr>],
     lp_list = \<lparr>dl_head = Some 10, dl_tail = Some 11\<rparr>, lp_count = 2, lp_nwalkers = 0, lp_type = TYPE_STORE_MEM\<rparr>"

lemma ex_lru_inv: "lru_inv MemRepl ex_lru [(10, 0), (11, 1)]"
  unfolding lru_inv_def by (auto simp: ex_lru_def dl_repr_def slot_ptr_def ex_entry_def split: if_splits)

lemma ex_lru_entries [simp]: "lru_entries ex_lru = [0, 1]"
  using lru_entries_inv [OF ex_lru_inv] by simp

lemma ex_lru_locked [simp]: "\<not> locked_at (lp_entries ex_lru) 0" "locked_at (lp_entries ex_lru) 1" "locked_at (lp_entries ex_lru) (Suc 0)"
  by (simp_all add: ex_lru_def locked_at_def ex_entry_def entry_locked_def EBIT_TEST_def)

section \<open>Properties\<close>

text \<open>
  C32. The policy is the list of its entries in the order of their last use, as its walkers see it: an added or
  referenced entry goes to the end, a removed one disappears, and no assertion fails.
\<close>

theorem lru_refines_recency_list:
  assumes "lru_inv sl lru xs" and "has_slot (lp_entries lru) sl e"
  shows "(e \<notin> set (lru_entries lru) \<and> lp_nodes lru a = None \<longrightarrow>
      (\<exists>lru' ys. lru_add lru e (e, sl) a = Inr lru' \<and> lru_inv sl lru' ys \<and> lru_entries lru' = lru_entries lru @ [e])) \<and>
    (\<exists>lru' ys. lru_remove lru e (e, sl) = Inr lru' \<and> lru_inv sl lru' ys \<and> lru_entries lru' = filter (\<lambda>x. x \<noteq> e) (lru_entries lru)) \<and>
    (\<exists>lru' ys. lru_referenced lru e (e, sl) = Inr lru' \<and> lru_inv sl lru' ys \<and>
      lru_entries lru' = (if e \<in> set (lru_entries lru) then filter (\<lambda>x. x \<noteq> e) (lru_entries lru) @ [e] else lru_entries lru))"
proof -
  note en = lru_entries_inv [OF assms(1)]
  have mem: "e \<in> set (lru_entries lru) \<longleftrightarrow> slot_ptr (lp_entries lru) sl e \<noteq> None"
  proof -
    have "e \<in> set (lru_entries lru) \<longleftrightarrow> (\<exists>a. (a, e) \<in> set xs)" unfolding en by force
    then show ?thesis using assms(1) unfolding lru_inv_def by (metis option.exhaust option.distinct(1))
  qed
  have map_filter: "map snd (filter (\<lambda>x. snd x \<noteq> e) xs) = filter (\<lambda>x. x \<noteq> e) (map snd xs)" by (simp add: filter_map comp_def)
  have 1: "\<exists>lru' ys. lru_add lru e (e, sl) a = Inr lru' \<and> lru_inv sl lru' ys \<and> lru_entries lru' = lru_entries lru @ [e]"
    if new: "e \<notin> set (lru_entries lru)" "lp_nodes lru a = None"
  proof -
    obtain lru' where l: "lru_add lru e (e, sl) a = Inr lru'" "lru_inv sl lru' (xs @ [(a, e)])"
      using lru_add_ok [OF assms, of a] new mem by blast
    then show ?thesis using lru_entries_inv [OF l(2)] en by auto
  qed
  have 2: "\<exists>lru' ys. lru_remove lru e (e, sl) = Inr lru' \<and> lru_inv sl lru' ys \<and> lru_entries lru' = filter (\<lambda>x. x \<noteq> e) (lru_entries lru)"
  proof -
    obtain lru' where l: "lru_remove lru e (e, sl) = Inr lru'" "lru_inv sl lru' (filter (\<lambda>x. snd x \<noteq> e) xs)"
      using lru_remove_ok [OF assms] by blast
    then show ?thesis using lru_entries_inv [OF l(2)] en map_filter by auto
  qed
  have 3: "\<exists>lru' ys. lru_referenced lru e (e, sl) = Inr lru' \<and> lru_inv sl lru' ys \<and>
      lru_entries lru' = (if e \<in> set (lru_entries lru) then filter (\<lambda>x. x \<noteq> e) (lru_entries lru) @ [e] else lru_entries lru)"
  proof (cases "slot_ptr (lp_entries lru) sl e")
    case None
    then have "lru_referenced lru e (e, sl) = Inr lru" using assms(2) by (simp add: lru_referenced_def node_data_ok)
    then show ?thesis using assms(1) mem None by auto
  next
    case (Some a)
    then obtain lru' where l: "lru_referenced lru e (e, sl) = Inr lru'" "lru_inv sl lru' (filter (\<lambda>x. snd x \<noteq> e) xs @ [(a, e)])"
      using lru_referenced_ok [OF assms(1)] by blast
    moreover have "lru_entries lru' = filter (\<lambda>x. x \<noteq> e) (lru_entries lru) @ [e]" using lru_entries_inv [OF l(2)] en map_filter by simp
    ultimately show ?thesis using mem Some by auto
  qed
  show ?thesis using 1 2 3 by blast
qed

theorem lru_refines_recency_list_witness:
  "\<exists>lru' ys. lru_referenced ex_lru 0 (0, MemRepl) = Inr lru' \<and> lru_inv MemRepl lru' ys \<and> lru_entries lru' = [1, 0]"
proof -
  have "has_slot (lp_entries ex_lru) MemRepl 0" by (simp add: has_slot_def ex_lru_def ex_entry_def)
  from lru_refines_recency_list [OF ex_lru_inv this] show ?thesis by simp
qed

text \<open>
  C33. A whole purge of the LRU policy gives out, in the order of last use, exactly the entries that are not
  locked among the first \<open>max_scan\<close> ones, and keeps all others.
\<close>

theorem lru_purge_oldest_unlocked:
  assumes "lru_inv sl lru xs" and "0 \<le> max_scan" and "length xs < fuel"
  shows "\<exists>lru' w'. lru_purge_run fuel (fst (lru_purgeInit lru max_scan)) (snd (lru_purgeInit lru max_scan)) =
      Inr (filter (\<lambda>e. \<not> locked_at (lp_entries lru) e) (take (nat max_scan) (lru_entries lru)), lru', w') \<and>
    mset (lru_entries lru') = mset (lru_entries lru) -
      mset (filter (\<lambda>e. \<not> locked_at (lp_entries lru) e) (take (nat max_scan) (lru_entries lru)))"
proof -
  note en = lru_entries_inv [OF assms(1)]
  let ?s = "fst (lru_purgeInit lru max_scan)" and ?w = "snd (lru_purgeInit lru max_scan)"
  let ?F = "unlocked_of lru (take (nat max_scan) xs)"
  have r: "lru_room ?w = nat max_scan" "lp_entries ?s = lp_entries lru" by (simp_all add: lru_room_def lru_purgeInit_def)
  have "length ?F \<le> length (take (nat max_scan) xs)" by (rule length_filter_le)
  then have "length ?F < fuel" using assms(3) by simp
  then obtain lru' w' U' L' where p: "lru_purge_run fuel ?s ?w = Inr (map snd ?F, lru', w')"
      "lru_purging sl lru' w' U' L'" "mset (U' @ L') = mset xs - mset ?F"
    using lru_purge_run_ok [OF lru_purging_fresh [OF assms(1), of max_scan], of fuel] r by auto
  have F: "map snd ?F = filter (\<lambda>e. \<not> locked_at (lp_entries lru) e) (take (nat max_scan) (lru_entries lru))"
    by (simp add: en take_map filter_map comp_def)
  have "mset ?F \<subseteq># mset xs" by (metis append_take_drop_id mset_append mset_filter multiset_filter_subset mset_subset_eq_add_left subset_mset.order_trans)
  then have "mset (map snd (U' @ L')) = mset (map snd xs) - mset (map snd ?F)"
    using p(3) by (simp only: mset_map image_mset_Diff)
  moreover have "lru_entries lru' = map snd (U' @ L')" using p(2) unfolding lru_purging_def by (auto dest: lru_entries_inv)
  ultimately show ?thesis using p(1) F en by auto
qed

theorem lru_purge_oldest_unlocked_witness:
  "\<exists>lru' w'. lru_purge_run 5 (fst (lru_purgeInit ex_lru 100)) (snd (lru_purgeInit ex_lru 100)) = Inr ([0], lru', w') \<and>
    mset (lru_entries lru') = {#1#}"
  using lru_purge_oldest_unlocked [OF ex_lru_inv, of 100 5] by simp

text \<open>
  C34. With the LRU policy on the memory cache, making room ends and no assertion fails: afterwards there are few
  enough pages in use, or every entry that is not locked among the first 100000 has been released; only such
  entries are, and the policy manages the others as before. Within one second it is done once.
\<close>

theorem lru_makes_room:
  assumes "lru_inv MemRepl lru xs" and "length xs < fuel"
  shows "\<exists>rs u lru' t. storeGetMemSpace lru_purgeInit lru_purgeNext lru_purgeDone lru_purge_mem pages mx fuel now sz lastc in_use lru =
      Inr (rs, u, lru', t) \<and> (\<exists>ys. lru_inv MemRepl lru' ys) \<and> set (lru_entries lru') = set (lru_entries lru) - set rs \<and> distinct rs \<and>
    set rs \<subseteq> {e \<in> set (take 100000 (lru_entries lru)). \<not> locked_at (lp_entries lru) e} \<and>
    (now = lastc \<or> u + (sz + SM_PAGE_SIZE - 1) div SM_PAGE_SIZE < mx \<or>
     set rs = {e \<in> set (take 100000 (lru_entries lru)). \<not> locked_at (lp_entries lru) e})"
proof -
  have "lru_is_idle lru" using assms(1) by (auto simp: lru_is_idle_def)
  moreover have "card (set (lru_entries lru)) < fuel"
    using assms lru_entries_inv [OF assms(1)] card_length [of "lru_entries lru"] by simp
  moreover have "set (lru_left (fst (lru_purgeInit lru 100000)) (snd (lru_purgeInit lru 100000))) =
      {e \<in> set (take 100000 (lru_entries lru)). \<not> locked_at (lp_entries lru) e}"
    using assms(1) lru_entries_inv [OF assms(1)] by (auto simp: lru_left_def lru_purgeInit_def lru_room_def lru_inv_def dl_repr_def)
  ultimately show ?thesis
    using lru.get_mem_space [of lru fuel pages mx now sz lastc in_use] by (simp add: lru_is_idle_def)
qed

theorem lru_makes_room_witness:
  "\<exists>rs u lru' t. storeGetMemSpace lru_purgeInit lru_purgeNext lru_purgeDone lru_purge_mem (\<lambda>e. 1) 2 3 1000 4096 999 2 ex_lru =
      Inr (rs, u, lru', t) \<and> set rs \<subseteq> {0} \<and> set (lru_entries lru') = {0, 1} - set rs"
  using lru_makes_room [OF ex_lru_inv, of 3 "\<lambda>e. 1" 2 1000 4096 999 2] by fastforce

end
