(* ===== verification/Repl_Heap.thy ===== *)
theory Repl_Heap
  imports Lib_Heap Repl_Policy C_Double
begin

text \<open>
  The heap-based removal policies (src/repl/heap): entries in a binary heap (lib/heap.c) by a key that
  combines their use, size and the age of the heap. Keys are \<^verbatim>\<open>double\<close>, here rationals rounded by \<open>C_Double\<close>;
  \<^verbatim>\<open>exp\<close> of the mathematical library is an argument, as is \<^verbatim>\<open>squid_curtime\<close>. The address \<^verbatim>\<open>xmalloc\<close> returns for a
  heap node is an argument, or comes from the argument \<open>alloc\<close> where there are several. The key function reads
  the entries, so it is rebuilt from them for every operation.
\<close>

section \<open>Keys\<close>

datatype heap_keyfunc = GDSF | LFUDA | LRU

definition HeapKeyGen_StoreEntry_LFUDA :: "(rat \<Rightarrow> rat) \<Rightarrow> int \<Rightarrow> repl_entry \<Rightarrow> rat \<Rightarrow> rat" where
  "HeapKeyGen_StoreEntry_LFUDA cexp now e heap_age =
     (let tie = (if se_lastref e \<le> 0 then 0 else if now \<le> se_lastref e then 0
                 else dbl (1 - cexp (dbl (dbl_of_int (se_lastref e - now) / 86400))))
      in dbl (dbl (heap_age + dbl_of_int (uint (se_refcount e))) - tie))"

definition HeapKeyGen_StoreEntry_GDSF :: "repl_entry \<Rightarrow> rat \<Rightarrow> rat" where
  "HeapKeyGen_StoreEntry_GDSF e heap_age =
     (let sz = (if se_swap_file_sz e \<noteq> 0 then dbl_of_int (uint (se_swap_file_sz e)) else 1);
          tie = (if se_lastref e > 1 then dbl (1 / dbl_of_int (se_lastref e)) else 1)
      in dbl (dbl (heap_age + dbl (dbl_of_int (uint (se_refcount e)) / sz)) - tie))"

definition HeapKeyGen_StoreEntry_LRU :: "repl_entry \<Rightarrow> rat" where
  "HeapKeyGen_StoreEntry_LRU e = dbl_of_int (se_lastref e)"

definition heap_entry_key :: "heap_keyfunc \<Rightarrow> (rat \<Rightarrow> rat) \<Rightarrow> int \<Rightarrow> repl_entry \<Rightarrow> rat \<Rightarrow> rat" where
  "heap_entry_key kf cexp now e age =
     (case kf of GDSF \<Rightarrow> HeapKeyGen_StoreEntry_GDSF e age
      | LFUDA \<Rightarrow> HeapKeyGen_StoreEntry_LFUDA cexp now e age
      | LRU \<Rightarrow> HeapKeyGen_StoreEntry_LRU e)"

section \<open>The policy\<close>

record heap_policy =
  hq_entries :: entry_mem
  hq_heap :: "(rat, nat) heap"
  hq_keyfunc :: heap_keyfunc
  hq_count :: int
  hq_nwalkers :: int
  hq_type :: repl_type

text \<open>The heap with the key function as the entries are now.\<close>

definition theHeap :: "(rat \<Rightarrow> rat) \<Rightarrow> int \<Rightarrow> heap_policy \<Rightarrow> (rat, nat) heap" where
  "theHeap cexp now s = (hq_heap s)\<lparr>hp_gen_key := (\<lambda>d age.
     case hq_entries s d of None \<Rightarrow> 0 | Some e \<Rightarrow> heap_entry_key (hq_keyfunc s) cexp now e age)\<rparr>"

definition createRemovalPolicy_heap :: "entry_mem \<Rightarrow> string list \<Rightarrow> heap_policy" where
  "createRemovalPolicy_heap es args =
     (let keytype = (case args of [] \<Rightarrow> ''LRU'' | k # _ \<Rightarrow> k);
          keyfunc = (if keytype = ''GDSF'' then GDSF else if keytype = ''LFUDA'' then LFUDA else if keytype = ''LRU'' then LRU else LRU)
      in \<lparr>hq_entries = es, hq_heap = (new_heap 1000 (\<lambda>d age. 0) 0)\<lparr>hp_age := 1\<rparr>, hq_keyfunc = keyfunc, hq_count = 0,
          hq_nwalkers = 0, hq_type = TYPE_UNKNOWN\<rparr>)"

definition heap_add :: "(rat \<Rightarrow> rat) \<Rightarrow> int \<Rightarrow> heap_policy \<Rightarrow> nat \<Rightarrow> policy_node \<Rightarrow> nat \<Rightarrow> heap_policy res" where
  "heap_add cexp now s entry node a =
     res_bind (node_data (hq_entries s) node) (\<lambda>d.
     res_bind (res_guard (d = None) Assertion) (\<lambda>_.
     res_bind (entry_at (hq_entries s) entry) (\<lambda>e.
     if EBIT_TEST (se_flags e) ENTRY_SPECIAL then Inr s
     else res_bind (heap_insert (theHeap cexp now s) a entry) (\<lambda>h.
       res_bind (set_node_data (hq_entries s) node (Some a)) (\<lambda>es.
       res_bind (if hq_type s = TYPE_UNKNOWN then repl_guessType es entry node else Inr (hq_type s)) (\<lambda>t.
       Inr (s\<lparr>hq_entries := es, hq_heap := h\<lparr>hp_age := dbl (hp_age h + dbl (hp_age h / 100000000))\<rparr>,
              hq_count := hq_count s + 1, hq_type := t\<rparr>)))))))"

definition heap_remove :: "(rat \<Rightarrow> rat) \<Rightarrow> int \<Rightarrow> heap_policy \<Rightarrow> nat \<Rightarrow> policy_node \<Rightarrow> heap_policy res" where
  "heap_remove cexp now s entry node =
     res_bind (node_data (hq_entries s) node) (\<lambda>d.
     case d of
       None \<Rightarrow> Inr s
     | Some hnode \<Rightarrow>
         res_bind (heap_delete (theHeap cexp now s) hnode) (\<lambda>(_, h).
         res_bind (set_node_data (hq_entries s) node None) (\<lambda>es.
         Inr (s\<lparr>hq_heap := h, hq_entries := es, hq_count := hq_count s - 1\<rparr>))))"

definition heap_referenced :: "(rat \<Rightarrow> rat) \<Rightarrow> int \<Rightarrow> heap_policy \<Rightarrow> nat \<Rightarrow> policy_node \<Rightarrow> heap_policy res" where
  "heap_referenced cexp now s entry node =
     res_bind (node_data (hq_entries s) node) (\<lambda>d.
     case d of
       None \<Rightarrow> Inr s
     | Some hnode \<Rightarrow> res_bind (heap_update (theHeap cexp now s) hnode entry) (\<lambda>(_, h). Inr (s\<lparr>hq_heap := h\<rparr>)))"

subsection \<open>Walking\<close>

definition heap_walkInit :: "heap_policy \<Rightarrow> heap_policy \<times> nat" where
  "heap_walkInit s = (s\<lparr>hq_nwalkers := hq_nwalkers s + 1\<rparr>, 0)"

definition heap_walkNext :: "heap_policy \<Rightarrow> nat \<Rightarrow> (nat option \<times> nat) res" where
  "heap_walkNext s current =
     (if current \<ge> heap_nodes (hq_heap s) then Inr (None, current)
      else res_bind (heap_peep (hq_heap s) current) (\<lambda>e. Inr (Some e, current + 1)))"

definition heap_walkDone :: "heap_policy \<Rightarrow> heap_policy res" where
  "heap_walkDone s =
     res_bind (res_guard (hq_nwalkers s > 0) Assertion) (\<lambda>_. Inr (s\<lparr>hq_nwalkers := hq_nwalkers s - 1\<rparr>))"

subsection \<open>Purging\<close>

record heap_purge =
  hw_locked_entries :: "nat list"
  hw_min_age :: rat
  hw_max_scan :: int

definition heap_purgeInit :: "heap_policy \<Rightarrow> int \<Rightarrow> heap_policy \<times> heap_purge" where
  "heap_purgeInit s max_scan =
     (s\<lparr>hq_nwalkers := hq_nwalkers s + 1\<rparr>, \<lparr>hw_locked_entries = [], hw_min_age = 0, hw_max_scan = max_scan\<rparr>)"

text \<open>
  \<^verbatim>\<open>StoreEntry::lock\<close>. It also tells the stores that the entry is referenced; a heap policy has no function for
  that.
\<close>

definition lock_entry :: "int \<Rightarrow> repl_entry \<Rightarrow> repl_entry" where
  "lock_entry now e = e\<lparr>re_lock_count := re_lock_count e + 1, se_lastref := now\<rparr>"

text \<open>Locked entries are set aside; each turn takes one node from the heap, so their number plus one is enough fuel.\<close>

fun heap_purge_loop :: "nat \<Rightarrow> int \<Rightarrow> heap_policy \<Rightarrow> heap_purge \<Rightarrow> (nat option \<times> heap_policy \<times> heap_purge) res" where
  "heap_purge_loop 0 now s w = Inl OutOfFuel"
| "heap_purge_loop (Suc fuel) now s w =
     (if heap_nodes (hq_heap s) = 0 then Inr (None, s, w)
      else res_bind (heap_peepminkey (hq_heap s)) (\<lambda>age.
        res_bind (heap_extractmin (hq_heap s)) (\<lambda>(r, h).
        case r of
          None \<Rightarrow> Inl Dangling
        | Some entry \<Rightarrow>
            res_bind (entry_at (hq_entries s) entry) (\<lambda>e.
            if entry_locked e then
              heap_purge_loop fuel now (s\<lparr>hq_heap := h, hq_entries := (hq_entries s)(entry \<mapsto> lock_entry now e)\<rparr>)
                (w\<lparr>hw_locked_entries := hw_locked_entries w @ [entry]\<rparr>)
            else res_bind (setPolicyNode (hq_type s) (hq_entries s) entry None) (\<lambda>es.
              Inr (Some entry, s\<lparr>hq_heap := h, hq_entries := es\<rparr>, w\<lparr>hw_min_age := age\<rparr>))))))"

definition heap_purgeNext :: "int \<Rightarrow> heap_policy \<Rightarrow> heap_purge \<Rightarrow> (nat option \<times> heap_policy \<times> heap_purge) res" where
  "heap_purgeNext now s w = heap_purge_loop (heap_nodes (hq_heap s) + 1) now s w"

text \<open>
  \<^verbatim>\<open>StoreEntry::unlock\<close>; \<open>idle\<close> stands for what happens to an entry whose last lock is gone (release, or the
  decision of the stores to keep it).
\<close>

definition unlock_entry :: "(heap_policy \<Rightarrow> nat \<Rightarrow> heap_policy res) \<Rightarrow> heap_policy \<Rightarrow> nat \<Rightarrow> heap_policy res" where
  "unlock_entry idle s entry =
     res_bind (entry_at (hq_entries s) entry) (\<lambda>e.
     let s1 = s\<lparr>hq_entries := (hq_entries s)(entry \<mapsto> e\<lparr>re_lock_count := re_lock_count e - 1\<rparr>)\<rparr>
     in if re_lock_count e - 1 \<noteq> 0 then Inr s1 else idle s1 entry)"

fun heap_reinsert ::
  "(rat \<Rightarrow> rat) \<Rightarrow> int \<Rightarrow> (nat set \<Rightarrow> nat) \<Rightarrow> (heap_policy \<Rightarrow> nat \<Rightarrow> heap_policy res) \<Rightarrow> nat list \<Rightarrow> heap_policy \<Rightarrow> heap_policy res"
where
  "heap_reinsert cexp now alloc idle [] s = Inr s"
| "heap_reinsert cexp now alloc idle (entry # es) s =
     (let a = alloc (dom (hp_mem (hq_heap s)))
      in res_bind (heap_insert (theHeap cexp now s) a entry) (\<lambda>h.
         res_bind (setPolicyNode (hq_type s) (hq_entries s) entry (Some a)) (\<lambda>es'.
         res_bind (unlock_entry idle (s\<lparr>hq_heap := h, hq_entries := es'\<rparr>) entry) (\<lambda>s'.
         heap_reinsert cexp now alloc idle es s'))))"

definition heap_purgeDone ::
  "(rat \<Rightarrow> rat) \<Rightarrow> int \<Rightarrow> (nat set \<Rightarrow> nat) \<Rightarrow> (heap_policy \<Rightarrow> nat \<Rightarrow> heap_policy res) \<Rightarrow> heap_policy \<Rightarrow> heap_purge \<Rightarrow> heap_policy res"
where
  "heap_purgeDone cexp now alloc idle s w =
     res_bind (res_guard (hq_nwalkers s > 0) Assertion) (\<lambda>_.
     let s1 = s\<lparr>hq_nwalkers := hq_nwalkers s - 1\<rparr>;
         s2 = (if hw_min_age w > 0 then s1\<lparr>hq_heap := (hq_heap s1)\<lparr>hp_age := hw_min_age w\<rparr>\<rparr> else s1)
     in heap_reinsert cexp now alloc idle (hw_locked_entries w) s2)"

definition heap_free :: "heap_policy \<Rightarrow> unit res" where
  "heap_free s =
     res_bind (res_guard (hq_nwalkers s \<noteq> 0) Assertion) (\<lambda>_. res_guard (hq_count s \<noteq> 0) Assertion)"

section \<open>Entries and their keys\<close>

text \<open>The key by which an entry of the policy is ordered.\<close>

definition heap_keys :: "node_slot \<Rightarrow> heap_policy \<Rightarrow> nat \<Rightarrow> rat option" where
  "heap_keys sl s e = (case slot_ptr (hq_entries s) sl e of None \<Rightarrow> None | Some a \<Rightarrow> map_option fst (heap_map (hq_heap s) a))"

text \<open>\<open>A\<close> are the entries set aside: their nodes are gone, but they still hold the pointer.\<close>

definition hq_inv :: "node_slot \<Rightarrow> nat list \<Rightarrow> heap_policy \<Rightarrow> bool" where
  "hq_inv sl A s \<longleftrightarrow> heap_inv (hq_heap s) \<and> hp_size (hq_heap s) \<le> 1431655765 \<and> hp_last (hq_heap s) + length A \<le> hp_size (hq_heap s) \<and>
     distinct A \<and> (\<forall>e \<in> set A. slot_ptr (hq_entries s) sl e \<noteq> None) \<and>
     (\<forall>a e. slot_ptr (hq_entries s) sl e = Some a \<and> e \<notin> set A \<longleftrightarrow> (\<exists>k. heap_map (hq_heap s) a = Some (k, e))) \<and>
     (hq_type s = slot_type sl \<or> hq_type s = TYPE_UNKNOWN \<and> heap_map (hq_heap s) = Map.empty \<and> A = []) \<and> 0 \<le> hq_nwalkers s"

lemma heap_inv_gen_key [simp]: "heap_inv (h\<lparr>hp_gen_key := f\<rparr>) = heap_inv h" "heap_map (h\<lparr>hp_gen_key := f\<rparr>) = heap_map h"
  "heap_inv (h\<lparr>hp_age := x\<rparr>) = heap_inv h" "heap_map (h\<lparr>hp_age := x\<rparr>) = heap_map h"
proof -
  have "hp_keys (h\<lparr>hp_gen_key := f\<rparr>) = hp_keys h" "hp_keys (h\<lparr>hp_age := x\<rparr>) = hp_keys h" by (auto simp: hp_keys_def fun_eq_iff)
  then show "heap_inv (h\<lparr>hp_gen_key := f\<rparr>) = heap_inv h" "heap_inv (h\<lparr>hp_age := x\<rparr>) = heap_inv h"
    by (simp_all add: heap_inv_def heap_wf_def)
qed (auto simp: heap_map_def)

lemma heap_insert_room:
  assumes "heap_inv h" and "hp_mem h a = None" and "a \<noteq> 0" and "hp_last h < hp_size h"
  shows "\<exists>h'. heap_insert h a d = Inr h' \<and> heap_inv h' \<and> heap_map h' = (heap_map h)(a \<mapsto> (heap_gen_key h d, d)) \<and>
    hp_last h' = hp_last h + 1 \<and> hp_size h' = hp_size h \<and> hp_age h' = hp_age h"
  using heap_append_ok [OF assms, of "heap_gen_key h d" d] assms(4)
  by (auto simp: heap_insert_def heap_should_grow_def Let_def)

lemma heap_insert_grow:
  assumes inv: "heap_inv h" and a: "hp_mem h a = None" "a \<noteq> 0" and sz: "hp_size h \<le> 715827882"
  shows "\<exists>h'. heap_insert h a d = Inr h' \<and> heap_inv h' \<and> heap_map h' = (heap_map h)(a \<mapsto> (heap_gen_key h d, d)) \<and>
    hp_last h' = hp_last h + 1 \<and> hp_size h' \<le> 1431655765 \<and> hp_age h' = hp_age h"
proof (cases "heap_should_grow h")
  case False
  then show ?thesis using heap_insert_room [OF inv a, of d] sz by (auto simp: heap_should_grow_def)
next
  case True
  have wf: "heap_wf h" using inv by (simp add: heap_inv_def)
  obtain h1 where h1: "heap_grow h = Inr h1" "heap_wf h1" "heap_same (h1\<lparr>hp_size := hp_size h\<rparr>) h" "hp_keys h1 = hp_keys h"
      "hp_size h < hp_size h1" "hp_mem h1 = hp_mem h"
    using heap_grow_ok [OF wf] sz by auto
  have "hp_size h1 \<le> 1431655765" using h1(1) sz by (auto simp: heap_grow_def Let_def split: if_splits)
  moreover have f: "hp_last h1 = hp_last h" "hp_gen_key h1 = hp_gen_key h" "hp_age h1 = hp_age h" "heap_map h1 = heap_map h"
    using h1(3,6) by (simp_all add: heap_same_def heap_map_def [abs_def])
  moreover have "hp_last h \<le> hp_size h" using wf by (simp add: heap_wf_def)
  moreover have i1: "heap_inv h1" using h1(2,4) f(1) inv by (simp add: heap_inv_def)
  moreover have "heap_insert h a d = heap_insert h1 a d"
    using True h1(1,5) f \<open>hp_last h \<le> hp_size h\<close> by (simp add: heap_insert_def heap_should_grow_def heap_gen_key_def)
  moreover obtain h' where "heap_insert h1 a d = Inr h'" "heap_inv h'" "heap_map h' = (heap_map h1)(a \<mapsto> (heap_gen_key h1 d, d))"
      "hp_last h' = hp_last h1 + 1" "hp_size h' = hp_size h1" "hp_age h' = hp_age h1"
    using heap_insert_room [OF i1, of a d] a h1(5,6) f(1) \<open>hp_last h \<le> hp_size h\<close> by auto
  ultimately show ?thesis by (auto simp: heap_gen_key_def)
qed

lemma hq_invD:
  assumes "hq_inv sl A s"
  shows "heap_inv (hq_heap s)" and "e \<in> set A \<Longrightarrow> slot_ptr (hq_entries s) sl e \<noteq> None"
    and "slot_ptr (hq_entries s) sl e = Some a \<Longrightarrow> e \<notin> set A \<Longrightarrow> \<exists>k. heap_map (hq_heap s) a = Some (k, e)"
    and "heap_map (hq_heap s) a = Some (k, e) \<Longrightarrow> slot_ptr (hq_entries s) sl e = Some a"
    and "heap_map (hq_heap s) a = Some (k, e) \<Longrightarrow> e \<notin> set A"
    and "heap_map (hq_heap s) a = Some (k, e) \<Longrightarrow> hq_type s = slot_type sl"
    and "A \<noteq> [] \<Longrightarrow> hq_type s = slot_type sl"
  using assms unfolding hq_inv_def by (blast, blast, blast, blast, blast, force, blast)

lemma theHeap_simps [simp]: "heap_inv (theHeap cexp now s) = heap_inv (hq_heap s)" "heap_map (theHeap cexp now s) = heap_map (hq_heap s)"
  "hp_mem (theHeap cexp now s) = hp_mem (hq_heap s)" "hp_last (theHeap cexp now s) = hp_last (hq_heap s)"
  "hp_size (theHeap cexp now s) = hp_size (hq_heap s)" "hp_age (theHeap cexp now s) = hp_age (hq_heap s)"
  by (simp_all add: theHeap_def)

text \<open>The key an entry gets now.\<close>

definition key_now :: "(rat \<Rightarrow> rat) \<Rightarrow> int \<Rightarrow> heap_policy \<Rightarrow> nat \<Rightarrow> rat" where
  "key_now cexp now s e = heap_entry_key (hq_keyfunc s) cexp now (the (hq_entries s e)) (hp_age (hq_heap s))"

lemma theHeap_key: "has_slot (hq_entries s) sl e \<Longrightarrow> heap_gen_key (theHeap cexp now s) e = key_now cexp now s e"
  by (auto simp: heap_gen_key_def theHeap_def key_now_def has_slot_def)

text \<open>How the invariant and the keys change with one node.\<close>

lemma hq_insert_node:
  assumes inv: "hq_inv sl A s" and new: "heap_map (hq_heap s) a = None"
    and e: "slot_ptr (hq_entries s) sl e = None \<and> A' = A \<or> e \<in> set A \<and> A' = remove1 e A"
    and h: "heap_inv h" "heap_map h = (heap_map (hq_heap s))(a \<mapsto> (k, e))" "hp_size h \<le> 1431655765"
      "hp_last h + length A' \<le> hp_size h"
    and es: "slot_ptr es sl = (slot_ptr (hq_entries s) sl)(e := Some a)"
    and s': "hq_heap s' = h" "hq_entries s' = es" "hq_type s' = slot_type sl" "0 \<le> hq_nwalkers s'"
  shows "hq_inv sl A' s'" and "A' = [] \<Longrightarrow> A = [] \<Longrightarrow> heap_keys sl s' = (heap_keys sl s)(e \<mapsto> k)"
proof -
  have A: "distinct A" using inv by (simp add: hq_inv_def)
  have eA: "e \<notin> set A'" "set A' = set A - {e}" using e A hq_invD(2) [OF inv, of e] by auto
  have neq: "slot_ptr (hq_entries s) sl x = Some a \<Longrightarrow> x \<notin> set A \<Longrightarrow> False" for x using hq_invD(3) [OF inv, of x a] new by auto
  have "slot_ptr es sl x = Some b \<and> x \<notin> set A' \<longleftrightarrow> (\<exists>k. heap_map h b = Some (k, x))" for b x
  proof (cases "b = a")
    case True
    then show ?thesis using es h(2) eA neq by auto
  next
    case False
    then have *: "heap_map h b = heap_map (hq_heap s) b" using h(2) by simp
    show ?thesis
    proof (cases "x = e")
      case True
      have "heap_map (hq_heap s) b \<noteq> Some (k', e)" for k'
      proof
        assume "heap_map (hq_heap s) b = Some (k', e)"
        from hq_invD(4,5) [OF inv this] show False using e by auto
      qed
      then show ?thesis using True False * es by auto
    next
      case xe: False
      then show ?thesis using * es eA inv by (auto simp: hq_inv_def)
    qed
  qed
  moreover have "distinct A'" using e A by auto
  moreover have "\<forall>x \<in> set A'. slot_ptr es sl x \<noteq> None" using eA es hq_invD(2) [OF inv] by auto
  ultimately show "hq_inv sl A' s'" using h s' unfolding hq_inv_def by blast
  show "heap_keys sl s' = (heap_keys sl s)(e \<mapsto> k)" if "A' = []" "A = []"
  proof
    fix x
    show "heap_keys sl s' x = ((heap_keys sl s)(e \<mapsto> k)) x"
      using es h(2) s' neq [of x] that by (auto simp: heap_keys_def split: option.splits)
  qed
qed

lemma hq_delete_node:
  assumes inv: "hq_inv sl A s" and a: "heap_map (hq_heap s) a = Some (k, e)"
    and h: "heap_inv h" "heap_map h = (heap_map (hq_heap s))(a := None)" "hp_size h = hp_size (hq_heap s)"
      "hp_last h = hp_last (hq_heap s) - 1"
    and es: "slot_ptr es sl = (slot_ptr (hq_entries s) sl)(e := None) \<and> A' = A \<or>
      slot_ptr es sl = slot_ptr (hq_entries s) sl \<and> A' = A @ [e]"
    and s': "hq_heap s' = h" "hq_entries s' = es" "hq_type s' = slot_type sl" "0 \<le> hq_nwalkers s'"
  shows "hq_inv sl A' s'" and "A' = [] \<Longrightarrow> heap_keys sl s' = (heap_keys sl s)(e := None)"
proof -
  note I = hq_invD [OF inv]
  have "finite (dom (heap_map (hq_heap s)))" "card (dom (heap_map (hq_heap s))) = hp_last (hq_heap s)" "a \<in> dom (heap_map (hq_heap s))"
    using heap_map_card [of "hq_heap s"] I(1) a by (auto simp: heap_inv_def)
  then have "0 < hp_last (hq_heap s)" by (metis card_gt_0_iff empty_iff)
  moreover have "slot_ptr es sl x = Some b \<and> x \<notin> set A' \<longleftrightarrow> (\<exists>k. heap_map h b = Some (k, x))" for b x
  proof -
    have "(\<exists>k. heap_map h b = Some (k, x)) \<longleftrightarrow> b \<noteq> a \<and> slot_ptr (hq_entries s) sl x = Some b \<and> x \<notin> set A"
      using h(2) inv by (auto simp: hq_inv_def)
    moreover have "slot_ptr (hq_entries s) sl x = Some b \<Longrightarrow> x \<notin> set A \<Longrightarrow> b = a \<longleftrightarrow> x = e"
      using I(3) [of x b] I(4) [OF a] a by auto
    ultimately show ?thesis using es by (auto split: if_splits)
  qed
  moreover have "distinct A'" "\<forall>x \<in> set A'. slot_ptr es sl x \<noteq> None" "length A' \<le> length A + 1"
    using inv es I(2) I(4,5) [OF a] by (auto simp: hq_inv_def)
  moreover have "hp_size h \<le> 1431655765" "hp_last (hq_heap s) + length A \<le> hp_size h" using inv h(3) by (simp_all add: hq_inv_def)
  ultimately show "hq_inv sl A' s'"
    using h(1,4) s' unfolding hq_inv_def by auto
  show "heap_keys sl s' = (heap_keys sl s)(e := None)" if "A' = []"
  proof
    fix x
    have "slot_ptr (hq_entries s) sl x = Some a \<Longrightarrow> x = e" using I(3) [of x a] a that es by auto
    then show "heap_keys sl s' x = ((heap_keys sl s)(e := None)) x"
      using es h(2) s' that by (auto simp: heap_keys_def split: option.splits)
  qed
qed

section \<open>The operations\<close>

lemma hq_inv_create: "(\<forall>e. slot_ptr es sl e = None) \<Longrightarrow> hq_inv sl [] (createRemovalPolicy_heap es args)"
  using new_heap_ok [of 1000 "\<lambda>d age. 0" "0 :: rat"]
  by (simp add: hq_inv_def createRemovalPolicy_heap_def Let_def) (auto simp add: new_heap_def)

lemma heap_add_ok:
  assumes inv: "hq_inv sl [] s" and e: "has_slot (hq_entries s) sl e" "slot_ptr (hq_entries s) sl e = None"
    and a: "hp_mem (hq_heap s) a = None" "a \<noteq> 0" and sz: "hp_size (hq_heap s) \<le> 715827882"
  shows "\<exists>s'. heap_add cexp now s e (e, sl) a = Inr s' \<and> hq_inv sl [] s' \<and>
    heap_keys sl s' = (if EBIT_TEST (se_flags (the (hq_entries s e))) ENTRY_SPECIAL then heap_keys sl s
      else (heap_keys sl s)(e \<mapsto> key_now cexp now s e))"
proof -
  obtain en where en: "hq_entries s e = Some en" using e(1) by (auto simp: has_slot_def)
  show ?thesis
  proof (cases "EBIT_TEST (se_flags en) ENTRY_SPECIAL")
    case True
    then show ?thesis using inv e en by (auto simp: heap_add_def node_data_ok entry_at_def)
  next
    case False
    have "heap_inv (theHeap cexp now s)" "hp_mem (theHeap cexp now s) a = None" "hp_size (theHeap cexp now s) \<le> 715827882"
      using hq_invD(1) [OF inv] a sz by simp_all
    from heap_insert_grow [OF this(1,2) a(2) this(3), of e]
    obtain h where h: "heap_insert (theHeap cexp now s) a e = Inr h" "heap_inv h"
        "heap_map h = (heap_map (hq_heap s))(a \<mapsto> (key_now cexp now s e, e))" "hp_last h = hp_last (hq_heap s) + 1"
        "hp_size h \<le> 1431655765"
      using theHeap_key [OF e(1)] by auto
    obtain es where es: "set_node_data (hq_entries s) (e, sl) (Some a) = Inr es"
        "slot_ptr es sl = (slot_ptr (hq_entries s) sl)(e := Some a)" "has_slot es sl = has_slot (hq_entries s) sl"
      using set_node_data_ok [OF e(1)] by blast
    define s' where "s' = s\<lparr>hq_entries := es, hq_heap := h\<lparr>hp_age := dbl (hp_age h + dbl (hp_age h / 100000000))\<rparr>,
              hq_count := hq_count s + 1, hq_type := slot_type sl\<rparr>"
    have t: "(if hq_type s = TYPE_UNKNOWN then repl_guessType es e (e, sl) else Inr (hq_type s)) = Inr (slot_type sl)"
      using inv guessType_ok [of es sl e] es(3) e(1) by (auto simp: hq_inv_def)
    have "heap_add cexp now s e (e, sl) a = Inr s'"
      using e en False h(1) es(1) t by (simp add: heap_add_def node_data_ok entry_at_def s'_def)
    moreover have "heap_map (hq_heap s) a = None" using a(1) by (simp add: heap_map_None)
    note node = hq_insert_node [OF inv this, of e "[]" "hq_heap s'" "key_now cexp now s e" es s']
    have "hp_last h \<le> hp_size h" using h(2) by (simp add: heap_inv_def heap_wf_def)
    then have "hq_inv sl [] s' \<and> heap_keys sl s' = (heap_keys sl s)(e \<mapsto> key_now cexp now s e)"
      using node e(2) h es(2) inv by (simp add: s'_def hq_inv_def)
    ultimately show ?thesis using False en by auto
  qed
qed

lemma heap_remove_ok:
  assumes inv: "hq_inv sl [] s" and e: "has_slot (hq_entries s) sl e"
  shows "\<exists>s'. heap_remove cexp now s e (e, sl) = Inr s' \<and> hq_inv sl [] s' \<and> heap_keys sl s' = (heap_keys sl s)(e := None)"
proof (cases "slot_ptr (hq_entries s) sl e")
  case None
  then have "heap_keys sl s e = None" by (simp add: heap_keys_def)
  then show ?thesis using None inv e by (auto simp: heap_remove_def node_data_ok)
next
  case (Some a)
  obtain k where k: "heap_map (hq_heap s) a = Some (k, e)" using hq_invD(3) [OF inv Some] by auto
  then obtain n where n: "hp_mem (hq_heap s) a = Some n" by (auto simp: heap_map_def)
  have "heap_inv (theHeap cexp now s)" "hp_mem (theHeap cexp now s) a = Some n" using hq_invD(1) [OF inv] n by simp_all
  from heap_delete_ok [OF this] obtain h d where h: "heap_delete (theHeap cexp now s) a = Inr (d, h)" "heap_inv h"
      "heap_map h = (heap_map (hq_heap s))(a := None)" "hp_last h = hp_last (hq_heap s) - 1" "hp_size h = hp_size (hq_heap s)" by auto
  obtain es where es: "set_node_data (hq_entries s) (e, sl) None = Inr es" "slot_ptr es sl = (slot_ptr (hq_entries s) sl)(e := None)"
    using set_node_data_ok [OF e] by blast
  define s' where "s' = s\<lparr>hq_heap := h, hq_entries := es, hq_count := hq_count s - 1\<rparr>"
  have "heap_remove cexp now s e (e, sl) = Inr s'" using Some e h(1) es(1) by (simp add: heap_remove_def node_data_ok s'_def)
  moreover have "hq_inv sl [] s' \<and> heap_keys sl s' = (heap_keys sl s)(e := None)"
    using hq_delete_node [OF inv k h(2,3,5,4), of es "[]" s'] es(2) inv hq_invD(6) [OF inv k] by (simp add: s'_def hq_inv_def)
  ultimately show ?thesis by blast
qed

lemma heap_referenced_ok:
  assumes inv: "hq_inv sl [] s" and e: "has_slot (hq_entries s) sl e"
  shows "\<exists>s'. heap_referenced cexp now s e (e, sl) = Inr s' \<and> hq_inv sl [] s' \<and>
    heap_keys sl s' = (if heap_keys sl s e = None then heap_keys sl s else (heap_keys sl s)(e \<mapsto> key_now cexp now s e))"
proof (cases "slot_ptr (hq_entries s) sl e")
  case None
  then have "heap_keys sl s e = None" by (simp add: heap_keys_def)
  then show ?thesis using None inv e by (auto simp: heap_referenced_def node_data_ok)
next
  case (Some a)
  obtain k where k: "heap_map (hq_heap s) a = Some (k, e)" using hq_invD(3) [OF inv Some] by auto
  then obtain n where n: "hp_mem (hq_heap s) a = Some n" by (auto simp: heap_map_def)
  have "heap_inv (theHeap cexp now s)" "hp_mem (theHeap cexp now s) a = Some n" using hq_invD(1) [OF inv] n by simp_all
  from heap_update_ok [OF this, of e] obtain h d where h: "heap_update (theHeap cexp now s) a e = Inr (d, h)" "heap_inv h"
      "heap_map h = (heap_map (hq_heap s))(a \<mapsto> (key_now cexp now s e, e))" "hp_last h = hp_last (hq_heap s)" "hp_size h = hp_size (hq_heap s)"
    using theHeap_key [OF e] by auto
  let ?s = "s\<lparr>hq_heap := h\<rparr>"
  have "heap_referenced cexp now s e (e, sl) = Inr ?s" using Some e h(1) by (simp add: heap_referenced_def node_data_ok)
  moreover have a: "slot_ptr (hq_entries s) sl x = Some a \<longleftrightarrow> x = e" for x using hq_invD(3) [OF inv, of x a] k Some by auto
  have "(\<exists>k. heap_map h b = Some (k, x)) \<longleftrightarrow> (\<exists>k. heap_map (hq_heap s) b = Some (k, x))" for b x using h(3) k by auto
  then have "hq_inv sl [] ?s" using inv h(2,4,5) hq_invD(6) [OF inv k] by (simp add: hq_inv_def)
  moreover have "heap_keys sl ?s = (heap_keys sl s)(e \<mapsto> key_now cexp now s e)"
  proof
    fix x
    show "heap_keys sl ?s x = ((heap_keys sl s)(e \<mapsto> key_now cexp now s e)) x"
      using h(3) a [of x] Some by (cases "x = e") (auto simp: heap_keys_def split: option.splits)
  qed
  moreover have "heap_keys sl s e \<noteq> None" using Some k by (simp add: heap_keys_def)
  ultimately show ?thesis by auto
qed

section \<open>A purge\<close>

text \<open>
  What a purge relies on: an entry of the policy that counts as locked has users that hold it (so that it is not
  idle when it is unlocked), and those set aside have been locked once more.
\<close>

definition hq_locks :: "node_slot \<Rightarrow> nat list \<Rightarrow> heap_policy \<Rightarrow> bool" where
  "hq_locks sl A s \<longleftrightarrow>
     (\<forall>e \<in> set A. \<exists>en. hq_entries s e = Some en \<and> re_lock_count en \<noteq> 1) \<and>
     (\<forall>e en. slot_ptr (hq_entries s) sl e \<noteq> None \<and> e \<notin> set A \<and> hq_entries s e = Some en \<and> entry_locked en \<longrightarrow> re_lock_count en \<noteq> 0)"

lemma hq_locksI:
  assumes "\<And>y. y \<in> set A \<Longrightarrow> \<exists>x. hq_entries s y = Some x \<and> re_lock_count x \<noteq> 1"
    and "\<And>y x. slot_ptr (hq_entries s) sl y \<noteq> None \<Longrightarrow> y \<notin> set A \<Longrightarrow> hq_entries s y = Some x \<Longrightarrow> entry_locked x \<Longrightarrow> re_lock_count x \<noteq> 0"
  shows "hq_locks sl A s"
  unfolding hq_locks_def using assms by blast

lemma hq_locks_entries: "hq_entries s' = hq_entries s \<Longrightarrow> hq_locks sl A s' = hq_locks sl A s"
  by (simp add: hq_locks_def)

definition hq_members :: "node_slot \<Rightarrow> heap_policy \<Rightarrow> nat set" where
  "hq_members sl s = {e. slot_ptr (hq_entries s) sl e \<noteq> None}"

definition hq_left :: "node_slot \<Rightarrow> heap_policy \<Rightarrow> heap_purge \<Rightarrow> nat set" where
  "hq_left sl s w = {e \<in> hq_members sl s. e \<notin> set (hw_locked_entries w) \<and> \<not> locked_at (hq_entries s) e}"

definition hq_purging :: "node_slot \<Rightarrow> heap_policy \<Rightarrow> heap_purge \<Rightarrow> bool" where
  "hq_purging sl s w \<longleftrightarrow> hq_inv sl (hw_locked_entries w) s \<and> hq_locks sl (hw_locked_entries w) s \<and> 0 < hq_nwalkers s"

definition hq_idle :: "node_slot \<Rightarrow> heap_policy \<Rightarrow> bool" where
  "hq_idle sl s \<longleftrightarrow> hq_inv sl [] s \<and> hq_locks sl [] s"

lemma slot_ptr_upd: "es e = Some en \<Longrightarrow> re_repl en' = re_repl en \<Longrightarrow> re_mem_repl en' = re_mem_repl en \<Longrightarrow>
  slot_ptr (es(e \<mapsto> en')) sl = slot_ptr es sl"
  by (cases sl) (auto simp: slot_ptr_def fun_eq_iff)

lemma hq_extract:
  assumes inv: "hq_inv sl A s" and "0 < hp_last (hq_heap s)"
  obtains a k e h en where "heap_peepminkey (hq_heap s) = Inr k" and "heap_extractmin (hq_heap s) = Inr (Some e, h)"
    and "heap_map (hq_heap s) a = Some (k, e)" and "\<forall>b k' d'. heap_map (hq_heap s) b = Some (k', d') \<longrightarrow> k \<le> k'"
    and "heap_inv h" and "heap_map h = (heap_map (hq_heap s))(a := None)" and "hp_last h = hp_last (hq_heap s) - 1"
    and "hp_size h = hp_size (hq_heap s)" and "hq_entries s e = Some en" and "slot_ptr (hq_entries s) sl e = Some a" and "e \<notin> set A"
proof -
  from heap_extractmin_ok [OF hq_invD(1) [OF inv] assms(2)] obtain a k e h where
    x: "heap_peepminkey (hq_heap s) = Inr k" "heap_extractmin (hq_heap s) = Inr (Some e, h)"
       "heap_map (hq_heap s) a = Some (k, e)" "\<forall>b k' d'. heap_map (hq_heap s) b = Some (k', d') \<longrightarrow> k \<le> k'"
       "heap_inv h" "heap_map h = (heap_map (hq_heap s))(a := None)" "hp_last h = hp_last (hq_heap s) - 1" "hp_size h = hp_size (hq_heap s)"
    by blast
  note i = hq_invD(4,5) [OF inv x(3)]
  then obtain en where "hq_entries s e = Some en" by (auto simp: slot_ptr_def split: option.splits)
  then show thesis using that x i by blast
qed

lemma hq_set_aside:
  fixes now :: int
  assumes p: "hq_purging sl s w" and a: "heap_map (hq_heap s) a = Some (k, e)" and en: "hq_entries s e = Some en" "entry_locked en"
    and h: "heap_inv h" "heap_map h = (heap_map (hq_heap s))(a := None)" "hp_size h = hp_size (hq_heap s)" "hp_last h = hp_last (hq_heap s) - 1"
  defines "s1 \<equiv> s\<lparr>hq_heap := h, hq_entries := (hq_entries s)(e \<mapsto> lock_entry now en)\<rparr>"
    and "w1 \<equiv> w\<lparr>hw_locked_entries := hw_locked_entries w @ [e]\<rparr>"
  shows "hq_purging sl s1 w1" and "hq_left sl s1 w1 = hq_left sl s w" and "hq_members sl s1 = hq_members sl s"
proof -
  have inv: "hq_inv sl (hw_locked_entries w) s" and lk: "hq_locks sl (hw_locked_entries w) s" using p by (simp_all add: hq_purging_def)
  note I = hq_invD [OF inv]
  have sp: "slot_ptr (hq_entries s1) sl = slot_ptr (hq_entries s) sl"
    using en(1) by (simp add: s1_def slot_ptr_upd lock_entry_def)
  have "hq_inv sl (hw_locked_entries w1) s1"
    using hq_delete_node(1) [OF inv a h, of "hq_entries s1" "hw_locked_entries w @ [e]" s1] sp I(6) [OF a] p
    by (simp add: s1_def w1_def hq_purging_def)
  moreover have "re_lock_count en \<noteq> 0" using lk en I(4,5) [OF a] by (auto simp: hq_locks_def)
  then have "hq_locks sl (hw_locked_entries w1) s1"
    using lk unfolding hq_locks_def sp by (auto simp: s1_def w1_def lock_entry_def)
  ultimately show "hq_purging sl s1 w1" using p by (simp add: hq_purging_def s1_def)
  show "hq_members sl s1 = hq_members sl s" by (simp add: hq_members_def sp)
  have "locked_at (hq_entries s) e" using en by (simp add: locked_at_def)
  then show "hq_left sl s1 w1 = hq_left sl s w"
    unfolding hq_left_def hq_members_def sp by (auto simp: s1_def w1_def locked_at_def)
qed

lemma hq_purge_loop_ok:
  assumes "hq_purging sl s w" and "hp_last (hq_heap s) < fuel"
  shows "\<exists>s' w'. hq_purging sl s' w' \<and>
    (if hq_left sl s w = {} then heap_purge_loop fuel now s w = Inr (None, s', w') \<and> hq_members sl s' = hq_members sl s
     else \<exists>e \<in> hq_left sl s w. heap_purge_loop fuel now s w = Inr (Some e, s', w') \<and>
       (\<forall>e' \<in> hq_left sl s w. the (heap_keys sl s e) \<le> the (heap_keys sl s e')) \<and>
       hq_left sl s' w' = hq_left sl s w - {e} \<and> hq_members sl s' = hq_members sl s - {e})"
  using assms
proof (induction fuel arbitrary: s w)
  case 0
  then show ?case by simp
next
  case (Suc fuel)
  have inv: "hq_inv sl (hw_locked_entries w) s" and lk: "hq_locks sl (hw_locked_entries w) s" using Suc.prems(1) by (simp_all add: hq_purging_def)
  show ?case
  proof (cases "hp_last (hq_heap s) = 0")
    case True
    then have "dom (heap_map (hq_heap s)) = {}" using heap_map_card [of "hq_heap s"] hq_invD(1) [OF inv] by (auto simp: heap_inv_def)
    then have "hq_left sl s w = {}" using hq_invD(3) [OF inv] by (fastforce simp: hq_left_def hq_members_def)
    then show ?thesis using True Suc.prems(1) by (auto simp: heap_nodes_def)
  next
    case False
    then obtain a k e h en where x: "heap_peepminkey (hq_heap s) = Inr k" "heap_extractmin (hq_heap s) = Inr (Some e, h)"
        "heap_map (hq_heap s) a = Some (k, e)" "\<forall>b k' d'. heap_map (hq_heap s) b = Some (k', d') \<longrightarrow> k \<le> k'"
      and h: "heap_inv h" "heap_map h = (heap_map (hq_heap s))(a := None)" "hp_size h = hp_size (hq_heap s)" "hp_last h = hp_last (hq_heap s) - 1"
      and en: "hq_entries s e = Some en" and sp: "slot_ptr (hq_entries s) sl e = Some a" "e \<notin> set (hw_locked_entries w)"
      using hq_extract [OF inv] by (metis neq0_conv)
    show ?thesis
    proof (cases "entry_locked en")
      case True
      let ?s = "s\<lparr>hq_heap := h, hq_entries := (hq_entries s)(e \<mapsto> lock_entry now en)\<rparr>"
        and ?w = "w\<lparr>hw_locked_entries := hw_locked_entries w @ [e]\<rparr>"
      note A = hq_set_aside [OF Suc.prems(1) x(3) en True h, of now]
      have step: "heap_purge_loop (Suc fuel) now s w = heap_purge_loop fuel now ?s ?w"
        using False x(1,2) en True by (simp add: heap_nodes_def entry_at_def)
      have keys: "heap_keys sl ?s y = heap_keys sl s y" if "y \<in> hq_left sl s w" for y
      proof -
        have "slot_ptr ((hq_entries s)(e \<mapsto> lock_entry now en)) sl = slot_ptr (hq_entries s) sl"
          using en by (simp add: slot_ptr_upd lock_entry_def)
        moreover have "y \<noteq> e" using that en True by (auto simp: hq_left_def locked_at_def)
        then have "slot_ptr (hq_entries s) sl y \<noteq> Some a" using that hq_invD(3) [OF inv, of y a] x(3) by (auto simp: hq_left_def)
        ultimately show ?thesis using h(2) by (auto simp: heap_keys_def split: option.splits)
      qed
      have "hp_last (hq_heap ?s) < fuel" using Suc.prems(2) False h(4) by simp
      moreover have kb: "(\<exists>e \<in> hq_left sl s w. Q e \<and> (\<forall>e' \<in> hq_left sl s w. the (heap_keys sl ?s e) \<le> the (heap_keys sl ?s e')) \<and> R e) \<longleftrightarrow>
          (\<exists>e \<in> hq_left sl s w. Q e \<and> (\<forall>e' \<in> hq_left sl s w. the (heap_keys sl s e) \<le> the (heap_keys sl s e')) \<and> R e)" for Q R
        by (intro bex_cong refl) (simp add: keys cong: ball_cong)
      ultimately show ?thesis using Suc.IH [OF A(1), unfolded A(2,3) kb] unfolding step by blast
    next
      case unl: False
      obtain es where es: "set_node_data (hq_entries s) (e, sl) None = Inr es" "slot_ptr es sl = (slot_ptr (hq_entries s) sl)(e := None)"
          "locked_at es = locked_at (hq_entries s)" "\<forall>x. x \<noteq> e \<longrightarrow> es x = hq_entries s x"
        using set_node_data_ok [OF slot_ptr_has [OF sp(1)]] by blast
      let ?s = "s\<lparr>hq_heap := h, hq_entries := es\<rparr>" and ?w = "w\<lparr>hw_min_age := k\<rparr>"
      have step: "heap_purge_loop (Suc fuel) now s w = Inr (Some e, ?s, ?w)"
        using False x(1,2) en unl es(1) hq_invD(6) [OF inv x(3)] by (simp add: heap_nodes_def entry_at_def setPolicyNode_slot)
      have inv': "hq_inv sl (hw_locked_entries w) ?s"
        using hq_delete_node(1) [OF inv x(3) h, of es "hw_locked_entries w" ?s] es(2) hq_invD(6) [OF inv x(3)] Suc.prems(1) by (simp add: hq_purging_def)
      have held: "re_lock_count x \<noteq> 0"
        if "slot_ptr es sl y \<noteq> None" "y \<notin> set (hw_locked_entries w)" "es y = Some x" "entry_locked x" for y x
      proof -
        have "slot_ptr (hq_entries s) sl y \<noteq> None" "hq_entries s y = Some x" using that(1,3) es(2,4) by (auto split: if_splits)
        then show ?thesis using lk that(2,4) unfolding hq_locks_def by blast
      qed
      have aside: "\<exists>x. es y = Some x \<and> re_lock_count x \<noteq> 1" if "y \<in> set (hw_locked_entries w)" for y
      proof -
        have "y \<noteq> e" using that sp(2) by auto
        then show ?thesis using lk that es(4) by (auto simp: hq_locks_def)
      qed
      have "hq_locks sl (hw_locked_entries w) ?s"
      proof (rule hq_locksI)
        show "\<exists>x. hq_entries ?s y = Some x \<and> re_lock_count x \<noteq> 1" if "y \<in> set (hw_locked_entries w)" for y using aside [OF that] by simp
        show "re_lock_count x \<noteq> 0"
          if "slot_ptr (hq_entries ?s) sl y \<noteq> None" "y \<notin> set (hw_locked_entries w)" "hq_entries ?s y = Some x" "entry_locked x" for y x
          using held [of y x] that by simp
      qed
      with inv' have "hq_purging sl ?s ?w" using Suc.prems(1) by (simp add: hq_purging_def)
      moreover have el: "e \<in> hq_left sl s w" using sp en unl by (simp add: hq_left_def hq_members_def locked_at_def)
      moreover have "\<forall>e' \<in> hq_left sl s w. the (heap_keys sl s e) \<le> the (heap_keys sl s e')"
      proof
        fix y
        assume y: "y \<in> hq_left sl s w"
        then obtain b where "slot_ptr (hq_entries s) sl y = Some b" by (auto simp: hq_left_def hq_members_def)
        moreover then obtain ky where "heap_map (hq_heap s) b = Some (ky, y)" using hq_invD(3) [OF inv] y by (auto simp: hq_left_def)
        moreover from this have "k \<le> ky" using x(4) by blast
        ultimately show "the (heap_keys sl s e) \<le> the (heap_keys sl s y)" using x(3) sp by (simp add: heap_keys_def)
      qed
      moreover have "hq_left sl ?s ?w = hq_left sl s w - {e}" "hq_members sl ?s = hq_members sl s - {e}"
        using es by (auto simp: hq_left_def hq_members_def split: if_splits)
      ultimately have "hq_purging sl ?s ?w \<and> (\<exists>e \<in> hq_left sl s w. heap_purge_loop (Suc fuel) now s w = Inr (Some e, ?s, ?w) \<and>
         (\<forall>e' \<in> hq_left sl s w. the (heap_keys sl s e) \<le> the (heap_keys sl s e')) \<and>
         hq_left sl ?s ?w = hq_left sl s w - {e} \<and> hq_members sl ?s = hq_members sl s - {e})" using step by blast
      then show ?thesis using el by (intro exI [of _ ?s] exI [of _ ?w]) auto
    qed
  qed
qed

lemma hq_purgeNext_ok:
  assumes "hq_purging sl s w"
  shows "hq_left sl s w = {} \<Longrightarrow> \<exists>s' w'. heap_purgeNext now s w = Inr (None, s', w') \<and> hq_purging sl s' w' \<and> hq_members sl s' = hq_members sl s"
    and "hq_left sl s w \<noteq> {} \<Longrightarrow> \<exists>e s' w'. heap_purgeNext now s w = Inr (Some e, s', w') \<and> hq_purging sl s' w' \<and> e \<in> hq_left sl s w \<and>
       (\<forall>e' \<in> hq_left sl s w. the (heap_keys sl s e) \<le> the (heap_keys sl s e')) \<and>
       hq_left sl s' w' = hq_left sl s w - {e} \<and> hq_members sl s' = hq_members sl s - {e}"
proof -
  have "hp_last (hq_heap s) < heap_nodes (hq_heap s) + 1" by (simp add: heap_nodes_def)
  note loop = hq_purge_loop_ok [OF assms this, of now, folded heap_purgeNext_def]
  show "\<exists>s' w'. heap_purgeNext now s w = Inr (None, s', w') \<and> hq_purging sl s' w' \<and> hq_members sl s' = hq_members sl s"
    if L: "hq_left sl s w = {}"
    using loop unfolding if_P [OF L] by (elim exE conjE) (intro exI conjI)
  show "\<exists>e s' w'. heap_purgeNext now s w = Inr (Some e, s', w') \<and> hq_purging sl s' w' \<and> e \<in> hq_left sl s w \<and>
       (\<forall>e' \<in> hq_left sl s w. the (heap_keys sl s e) \<le> the (heap_keys sl s e')) \<and>
       hq_left sl s' w' = hq_left sl s w - {e} \<and> hq_members sl s' = hq_members sl s - {e}"
    if L: "hq_left sl s w \<noteq> {}"
    using loop unfolding if_not_P [OF L] by (elim exE conjE bexE) (intro exI conjI)
qed

lemma heap_reinsert_ok:
  assumes "fresh_alloc alloc" and "hq_inv sl A s" and "hq_locks sl A s"
  shows "\<exists>s'. heap_reinsert cexp now alloc idle A s = Inr s' \<and> hq_idle sl s' \<and> hq_members sl s' = hq_members sl s"
  using assms(2,3)
proof (induction A arbitrary: s)
  case Nil
  then show ?case by (simp add: hq_idle_def)
next
  case (Cons e A)
  note inv = Cons.prems(1)
  define a where "a = alloc (dom (hp_mem (hq_heap s)))"
  have "finite (dom (heap_map (hq_heap s)))" using heap_map_card [of "hq_heap s"] hq_invD(1) [OF inv] by (auto simp: heap_inv_def)
  moreover have "dom (heap_map (hq_heap s)) = dom (hp_mem (hq_heap s))" by (auto simp: heap_map_def)
  ultimately have a: "hp_mem (hq_heap s) a = None" "a \<noteq> 0" using assms(1) by (auto simp: fresh_alloc_def a_def)
  have sp: "slot_ptr (hq_entries s) sl e \<noteq> None" using hq_invD(2) [OF inv, of e] by simp
  then have hs: "has_slot (hq_entries s) sl e" using slot_ptr_has by fastforce
  have "heap_inv (theHeap cexp now s)" "hp_mem (theHeap cexp now s) a = None" "hp_last (theHeap cexp now s) < hp_size (theHeap cexp now s)"
    using hq_invD(1) [OF inv] a inv by (simp_all add: hq_inv_def)
  from heap_insert_room [OF this(1,2) a(2) this(3), of e]
  obtain h where h: "heap_insert (theHeap cexp now s) a e = Inr h" "heap_inv h" "heap_map h = (heap_map (hq_heap s))(a \<mapsto> (key_now cexp now s e, e))"
      "hp_last h = hp_last (hq_heap s) + 1" "hp_size h = hp_size (hq_heap s)"
    using theHeap_key [OF hs] by auto
  obtain es where es: "set_node_data (hq_entries s) (e, sl) (Some a) = Inr es" "slot_ptr es sl = (slot_ptr (hq_entries s) sl)(e := Some a)"
      "has_slot es sl = has_slot (hq_entries s) sl" "\<forall>x. x \<noteq> e \<longrightarrow> es x = hq_entries s x"
    using set_node_data_ok [OF hs] by blast
  obtain en where en: "hq_entries s e = Some en" "re_lock_count en \<noteq> 1" using Cons.prems(2) by (auto simp: hq_locks_def)
  obtain en' where en': "es e = Some en'" "re_lock_count en' = re_lock_count en"
    using es(1) en(1) by (cases sl) (auto simp: set_node_data_def entry_at_def split: option.splits)
  let ?en = "en'\<lparr>re_lock_count := re_lock_count en' - 1\<rparr>"
  define s' where "s' = s\<lparr>hq_heap := h, hq_entries := es(e \<mapsto> ?en)\<rparr>"
  have l1: "re_lock_count ?en \<noteq> 0" using en(2) en'(2) by simp
  have sp': "slot_ptr (hq_entries s') sl = (slot_ptr (hq_entries s) sl)(e := Some a)"
    using en'(1) es(2) by (simp add: s'_def slot_ptr_upd)
  have step: "heap_reinsert cexp now alloc idle (e # A) s = heap_reinsert cexp now alloc idle A s'"
    using h(1) es(1) en'(1) l1 hq_invD(7) [OF inv]
    by (simp add: a_def [symmetric] setPolicyNode_slot unlock_entry_def entry_at_def s'_def Let_def)
  have "hq_inv sl A s'"
    using hq_insert_node(1) [OF inv, of a e A h "key_now cexp now s e" "hq_entries s'" s'] a(1) h(2,3,4,5) sp' inv hq_invD(7) [OF inv]
    by (simp add: s'_def hq_inv_def heap_map_None)
  moreover have "re_lock_count x \<noteq> 0"
    if "slot_ptr (hq_entries s') sl y \<noteq> None" "y \<notin> set A" "hq_entries s' y = Some x" "entry_locked x" for y x
  proof (cases "y = e")
    case True
    then show ?thesis using that(3) l1 by (auto simp: s'_def)
  next
    case False
    then have "slot_ptr (hq_entries s) sl y \<noteq> None" "y \<notin> set (e # A)" "hq_entries s y = Some x"
      using that(1-3) es(4) unfolding sp' by (auto simp: s'_def)
    then show ?thesis using Cons.prems(2) that(4) unfolding hq_locks_def by blast
  qed
  moreover have "\<exists>x. hq_entries s' y = Some x \<and> re_lock_count x \<noteq> 1" if "y \<in> set A" for y
  proof -
    have "y \<noteq> e" using that inv by (auto simp: hq_inv_def)
    then show ?thesis using Cons.prems(2) that es(4) by (auto simp: hq_locks_def s'_def)
  qed
  ultimately have "hq_inv sl A s'" "hq_locks sl A s'" unfolding hq_locks_def by blast+
  then obtain s'' where "heap_reinsert cexp now alloc idle A s' = Inr s''" "hq_idle sl s''" "hq_members sl s'' = hq_members sl s'"
    using Cons.IH by blast
  moreover have "hq_members sl s' = hq_members sl s" using sp sp' by (auto simp: hq_members_def)
  ultimately show ?case using step by auto
qed

definition heap_purge_mem :: "heap_policy \<Rightarrow> nat \<Rightarrow> heap_policy" where
  "heap_purge_mem s e = s\<lparr>hq_entries := purge_mem_obj (hq_entries s) e\<rparr>"

lemma heap_purge_mem_ok:
  assumes "hq_purging MemRepl s w" and "e \<notin> hq_members MemRepl s"
  shows "hq_purging MemRepl (heap_purge_mem s e) w" and "hq_left MemRepl (heap_purge_mem s e) w = hq_left MemRepl s w"
    and "hq_members MemRepl (heap_purge_mem s e) = hq_members MemRepl s"
proof -
  let ?es = "purge_mem_obj (hq_entries s) e"
  have sp: "slot_ptr (hq_entries s) MemRepl e = None" using assms(2) by (simp add: hq_members_def)
  note m = purge_mem_obj_ok [OF this]
  have other: "?es y = hq_entries s y" if "y \<noteq> e" for y using that by (rule purge_mem_obj_other)
  show "hq_members MemRepl (heap_purge_mem s e) = hq_members MemRepl s" "hq_left MemRepl (heap_purge_mem s e) w = hq_left MemRepl s w"
    by (simp_all add: hq_left_def hq_members_def heap_purge_mem_def m)
  have inv: "hq_inv MemRepl (hw_locked_entries w) s" and lk: "hq_locks MemRepl (hw_locked_entries w) s" using assms(1) by (simp_all add: hq_purging_def)
  have eA: "e \<notin> set (hw_locked_entries w)" using hq_invD(2) [OF inv, of e] sp by blast
  have "hq_inv MemRepl (hw_locked_entries w) (heap_purge_mem s e)" using inv by (simp add: hq_inv_def heap_purge_mem_def m)
  moreover have "hq_locks MemRepl (hw_locked_entries w) (heap_purge_mem s e)"
  proof (rule hq_locksI)
    show "\<exists>x. hq_entries (heap_purge_mem s e) y = Some x \<and> re_lock_count x \<noteq> 1" if "y \<in> set (hw_locked_entries w)" for y
      using lk that other [of y] eA by (cases "y = e") (auto simp: hq_locks_def heap_purge_mem_def)
    show "re_lock_count x \<noteq> 0"
      if "slot_ptr (hq_entries (heap_purge_mem s e)) MemRepl y \<noteq> None" "y \<notin> set (hw_locked_entries w)"
        "hq_entries (heap_purge_mem s e) y = Some x" "entry_locked x" for y x
    proof -
      have "slot_ptr (hq_entries s) MemRepl y \<noteq> None" using that(1) m(1) by (simp add: heap_purge_mem_def)
      moreover have "hq_entries s y = Some x" using that(3) other [of y] calculation sp by (cases "y = e") (simp_all add: heap_purge_mem_def)
      ultimately show ?thesis using lk that(2,4) unfolding hq_locks_def by blast
    qed
  qed
  ultimately show "hq_purging MemRepl (heap_purge_mem s e) w" using assms(1) by (simp add: hq_purging_def heap_purge_mem_def)
qed

lemma hq_members_finite: "hq_inv sl A s \<Longrightarrow> finite (hq_members sl s)"
proof -
  assume inv: "hq_inv sl A s"
  have "e \<in> (\<lambda>a. snd (the (heap_map (hq_heap s) a))) ` dom (heap_map (hq_heap s)) \<union> set A" if e: "e \<in> hq_members sl s" for e
  proof (cases "e \<in> set A")
    case False
    obtain a where "slot_ptr (hq_entries s) sl e = Some a" using e by (auto simp: hq_members_def)
    then obtain k where "heap_map (hq_heap s) a = Some (k, e)" using hq_invD(3) [OF inv _ False] by blast
    then show ?thesis by force
  qed simp
  then have "hq_members sl s \<subseteq> (\<lambda>a. snd (the (heap_map (hq_heap s) a))) ` dom (heap_map (hq_heap s)) \<union> set A" by blast
  moreover have "finite (dom (heap_map (hq_heap s)))" using heap_map_card [of "hq_heap s"] hq_invD(1) [OF inv] by (auto simp: heap_inv_def)
  ultimately show ?thesis by (meson finite_UnI finite_imageI finite_set finite_subset)
qed

text \<open>The policy keeps the contract of a purge, if the allocator returns unused addresses.\<close>

lemma heap_policy_purges:
  assumes "fresh_alloc alloc"
  shows "removal_policy (hq_idle MemRepl) (hq_purging MemRepl) (hq_members MemRepl) (\<lambda>s w. hq_members MemRepl s)
    (hq_left MemRepl) (\<lambda>s w e. \<forall>e' \<in> hq_left MemRepl s w. the (heap_keys MemRepl s e) \<le> the (heap_keys MemRepl s e'))
    heap_purgeInit (heap_purgeNext now) (heap_purgeDone cexp now alloc idle) heap_purge_mem"
proof (unfold_locales, goal_cases)
  case (1 s m)
  then have "hq_locks MemRepl [] (s\<lparr>hq_nwalkers := hq_nwalkers s + 1\<rparr>)"
    using hq_locks_entries [of "s\<lparr>hq_nwalkers := hq_nwalkers s + 1\<rparr>" s] by (simp add: hq_idle_def)
  moreover have "hq_inv MemRepl [] (s\<lparr>hq_nwalkers := hq_nwalkers s + 1\<rparr>)" "0 \<le> hq_nwalkers s" using 1 by (simp_all add: hq_idle_def hq_inv_def)
  ultimately show ?case by (simp add: heap_purgeInit_def hq_purging_def hq_members_def)
next
  case (2 s w)
  then have "finite (hq_members MemRepl s)" using hq_members_finite by (auto simp: hq_purging_def)
  moreover have "hq_left MemRepl s w \<subseteq> hq_members MemRepl s" by (auto simp: hq_left_def)
  ultimately show ?case by (meson finite_subset)
next
  case (3 s w)
  then show ?case by (rule hq_purgeNext_ok(1))
next
  case (4 s w)
  then show ?case by (rule hq_purgeNext_ok(2))
next
  case (5 s w e)
  then show ?case using heap_purge_mem_ok [of s w e] by simp
next
  case (6 s w)
  let ?s1 = "s\<lparr>hq_nwalkers := hq_nwalkers s - 1\<rparr>"
  let ?s2 = "if hw_min_age w > 0 then ?s1\<lparr>hq_heap := (hq_heap ?s1)\<lparr>hp_age := hw_min_age w\<rparr>\<rparr> else ?s1"
  have "hq_inv MemRepl (hw_locked_entries w) ?s2" "hq_locks MemRepl (hw_locked_entries w) ?s2" "hq_members MemRepl ?s2 = hq_members MemRepl s"
    using 6 hq_locks_entries [of ?s2 s] by (simp_all add: hq_purging_def hq_inv_def hq_members_def)
  then obtain s' where "heap_reinsert cexp now alloc idle (hw_locked_entries w) ?s2 = Inr s'" "hq_idle MemRepl s'"
      "hq_members MemRepl s' = hq_members MemRepl s"
    using heap_reinsert_ok [OF assms, of MemRepl "hw_locked_entries w" ?s2 cexp now idle] by auto
  moreover have "0 < hq_nwalkers s" using 6 by (simp add: hq_purging_def)
  ultimately show ?case by (simp add: heap_purgeDone_def Let_def)
qed

section \<open>An example\<close>

definition ex_hentry :: repl_entry where
  "ex_hentry = \<lparr>se_key = (0, 0), se_timestamp = 0, se_lastref = 0, se_expires = 0, se_lastmod = 0, se_swap_file_sz = 0,
     se_refcount = 0, se_flags = 0, re_lock_count = 0, re_swap_status = SWAPOUT_DONE, re_store_status = STORE_OK,
     re_repl = None, re_mem_repl = Some (Some 5)\<rparr>"

definition ex_hq :: heap_policy where
  "ex_hq = \<lparr>hq_entries = [3 \<mapsto> ex_hentry],
     hq_heap = \<lparr>hp_size = 1, hp_last = 1, hp_gen_key = (\<lambda>d age. 0), hp_age = 1, hp_nodes = [5],
       hp_mem = [5 \<mapsto> \<lparr>hn_key = 0, hn_id = 0, hn_data = 3\<rparr>]\<rparr>,
     hq_keyfunc = LRU, hq_count = 1, hq_nwalkers = 0, hq_type = TYPE_STORE_MEM\<rparr>"

lemma ex_hq_idle: "hq_idle MemRepl ex_hq"
proof -
  have "heap_inv (hq_heap ex_hq)" by (auto simp: ex_hq_def heap_inv_def heap_wf_def ordered_def hp_keys_def split: if_splits)
  then have "hq_inv MemRepl [] ex_hq"
    unfolding hq_inv_def by (auto simp: ex_hq_def ex_hentry_def slot_ptr_def heap_map_def split: if_splits option.splits)
  moreover have "hq_locks MemRepl [] ex_hq"
    unfolding hq_locks_def by (auto simp: ex_hq_def ex_hentry_def entry_locked_def EBIT_TEST_def split: if_splits)
  ultimately show ?thesis by (simp add: hq_idle_def)
qed

lemma ex_hq_members: "hq_members MemRepl ex_hq = {3}"
  by (auto simp: hq_members_def ex_hq_def ex_hentry_def slot_ptr_def split: option.splits if_splits)

section \<open>Properties\<close>

text \<open>
  The heap policy keeps a key for every entry it manages: adding an entry (special ones apart) or
  dereferencing it sets its key to what the key function gives then, removing it drops the key, the keys of the
  others stay, and no assertion fails.
\<close>

theorem heap_policy_tracks_keys:
  assumes "hq_inv sl [] s" and "has_slot (hq_entries s) sl e"
  shows "(slot_ptr (hq_entries s) sl e = None \<and> hp_mem (hq_heap s) a = None \<and> a \<noteq> 0 \<and> hp_size (hq_heap s) \<le> 715827882 \<longrightarrow>
      (\<exists>s'. heap_add cexp now s e (e, sl) a = Inr s' \<and> hq_inv sl [] s' \<and>
        heap_keys sl s' = (if EBIT_TEST (se_flags (the (hq_entries s e))) ENTRY_SPECIAL then heap_keys sl s
          else (heap_keys sl s)(e \<mapsto> key_now cexp now s e)))) \<and>
    (\<exists>s'. heap_remove cexp now s e (e, sl) = Inr s' \<and> hq_inv sl [] s' \<and> heap_keys sl s' = (heap_keys sl s)(e := None)) \<and>
    (\<exists>s'. heap_referenced cexp now s e (e, sl) = Inr s' \<and> hq_inv sl [] s' \<and>
      heap_keys sl s' = (if heap_keys sl s e = None then heap_keys sl s else (heap_keys sl s)(e \<mapsto> key_now cexp now s e)))"
  using heap_add_ok [OF assms, of a cexp now] heap_remove_ok [OF assms, of cexp now] heap_referenced_ok [OF assms, of cexp now] by blast

text \<open>
  With a heap policy on the memory cache, making room ends and no assertion fails: afterwards there are few
  enough pages in use, or every entry that is not locked has been released; only such entries are, and the
  policy manages the others as before, the locked ones included, which were taken out of the heap meanwhile.
\<close>

theorem heap_makes_room:
  assumes "fresh_alloc alloc" and "hq_idle MemRepl s" and "card (hq_members MemRepl s) < fuel"
  shows "\<exists>rs u s' t. storeGetMemSpace heap_purgeInit (heap_purgeNext now) (heap_purgeDone cexp now alloc idle) heap_purge_mem
      pages mx fuel now sz lastc in_use s = Inr (rs, u, s', t) \<and> hq_idle MemRepl s' \<and>
    hq_members MemRepl s' = hq_members MemRepl s - set rs \<and> distinct rs \<and>
    set rs \<subseteq> {e \<in> hq_members MemRepl s. \<not> locked_at (hq_entries s) e} \<and>
    (now = lastc \<or> u + (sz + SM_PAGE_SIZE - 1) div SM_PAGE_SIZE < mx \<or>
     set rs = {e \<in> hq_members MemRepl s. \<not> locked_at (hq_entries s) e})"
proof -
  have "hq_left MemRepl (fst (heap_purgeInit s 100000)) (snd (heap_purgeInit s 100000)) = {e \<in> hq_members MemRepl s. \<not> locked_at (hq_entries s) e}"
    by (auto simp: heap_purgeInit_def hq_left_def hq_members_def)
  moreover have "finite (hq_members MemRepl s)" using assms(2) hq_members_finite by (auto simp: hq_idle_def)
  ultimately show ?thesis
    using removal_policy.get_mem_space [OF heap_policy_purges [OF assms(1), of now cexp idle] assms(2) _ assms(3), of pages mx now sz lastc in_use]
    by simp
qed

text \<open>
  The count of a policy is not adapted when a purge gives out an entry, and a policy is freed only while it has
  walkers and entries.
\<close>

lemma heap_purge_keeps_count: "heap_purge_loop fuel now s w = Inr (r, s', w') \<Longrightarrow> hq_count s' = hq_count s"
proof (induction fuel arbitrary: s w)
  case (Suc fuel)
  from Suc.prems consider "s' = s"
    | e en h where "heap_purge_loop fuel now (s\<lparr>hq_heap := h, hq_entries := (hq_entries s)(e \<mapsto> lock_entry now en)\<rparr>)
        (w\<lparr>hw_locked_entries := hw_locked_entries w @ [e]\<rparr>) = Inr (r, s', w')"
    | h es where "s' = s\<lparr>hq_heap := h, hq_entries := es\<rparr>"
    by (auto simp: res_bind_Inr_iff split: if_splits option.splits)
  then show ?case
  proof cases
    case 2
    from Suc.IH [OF this] show ?thesis by simp
  qed simp_all
qed simp

lemma heap_free_unused_asserts: "heap_free (createRemovalPolicy_heap es args) = Inl Assertion"
  by (simp add: heap_free_def createRemovalPolicy_heap_def Let_def)

end
