(* ===== verification/Lib_Splay.thy ===== *)
theory Lib_Splay
  imports Squid_Prelude "HOL-Library.Tree"
begin

text \<open>
  The splay tree template of include/splay.h. A search brings the element it ends at to the top, restructuring the
  tree on its way down. \<^verbatim>\<open>splayLastResult\<close> is returned with the tree. A comparison is a function from an
  element of the tree to the sign of its position relative to the sought value: positive where the
  value lies behind the element, as \<^verbatim>\<open>compare(dataToFind, element)\<close> gives it.
\<close>

section \<open>Nodes\<close>

text \<open>
  The trees to the left and to the right of the path, which \<^verbatim>\<open>splay\<close> builds with its last link open: the
  linked nodes, the last one first, with their closed subtrees.
\<close>

type_synonym 'a left_path = "('a tree \<times> 'a) list"
type_synonym 'a right_path = "('a \<times> 'a tree) list"

definition close_left :: "'a left_path \<Rightarrow> 'a tree \<Rightarrow> 'a tree" where
  "close_left l t = fold (\<lambda>(lt, v) t. Node lt v t) l t"

definition close_right :: "'a right_path \<Rightarrow> 'a tree \<Rightarrow> 'a tree" where
  "close_right r t = fold (\<lambda>(v, rt) t. Node t v rt) r t"

definition assemble :: "'a left_path \<Rightarrow> 'a right_path \<Rightarrow> 'a tree \<Rightarrow> 'a \<Rightarrow> 'a tree \<Rightarrow> 'a tree" where
  "assemble l r a x b = Node (close_left l a) x (close_right r b)"

text \<open>The loop, on a tree that is not empty.\<close>

function splay_loop :: "('a \<Rightarrow> int) \<Rightarrow> 'a left_path \<Rightarrow> 'a right_path \<Rightarrow> 'a tree \<Rightarrow> 'a \<Rightarrow> 'a tree \<Rightarrow> int \<times> 'a tree" where
  "splay_loop c l r a x b =
     (if c x < 0 then
        (case a of
           Leaf \<Rightarrow> (c x, assemble l r a x b)
         | Node a1 y b1 \<Rightarrow>
             if c y < 0 then
               (case a1 of
                  Leaf \<Rightarrow> (c y, assemble l r a1 y (Node b1 x b))
                | Node a2 z b2 \<Rightarrow> splay_loop c l ((y, Node b1 x b) # r) a2 z b2)
             else splay_loop c l ((x, b) # r) a1 y b1)
      else if c x > 0 then
        (case b of
           Leaf \<Rightarrow> (c x, assemble l r a x b)
         | Node a1 y b1 \<Rightarrow>
             if c y > 0 then
               (case b1 of
                  Leaf \<Rightarrow> (c y, assemble l r (Node a x a1) y b1)
                | Node a2 z b2 \<Rightarrow> splay_loop c ((Node a x a1, y) # l) r a2 z b2)
             else splay_loop c ((a, x) # l) r a1 y b1)
      else (c x, assemble l r a x b))"
  by pat_completeness auto
termination by (relation "measure (\<lambda>(c, l, r, a, x, b). size a + size b)") auto

declare splay_loop.simps [simp del]

definition node_splay :: "('a \<Rightarrow> int) \<Rightarrow> 'a tree \<Rightarrow> int \<times> 'a tree" where
  "node_splay c t = (case t of Leaf \<Rightarrow> (- 1, Leaf) | Node a x b \<Rightarrow> splay_loop c [] [] a x b)"

definition node_insert :: "('a \<Rightarrow> int) \<Rightarrow> 'a \<Rightarrow> 'a tree \<Rightarrow> int \<times> 'a tree" where
  "node_insert c v t =
     (case t of
        Leaf \<Rightarrow> (- 1, Node Leaf v Leaf)
      | Node _ _ _ \<Rightarrow>
          (case node_splay c t of
             (k, Leaf) \<Rightarrow> (k, Leaf)
           | (k, Node a x b) \<Rightarrow>
               if k < 0 then (k, Node a v (Node Leaf x b))
               else if k > 0 then (k, Node (Node a x Leaf) v b)
               else (k, Node a x b)))"

definition node_remove :: "('a \<Rightarrow> int) \<Rightarrow> 'a tree \<Rightarrow> 'a tree" where
  "node_remove c t =
     (case node_splay c t of
        (k, Leaf) \<Rightarrow> Leaf
      | (k, Node a x b) \<Rightarrow>
          if k = 0 then
            (case a of
               Leaf \<Rightarrow> b
             | Node _ _ _ \<Rightarrow> (case snd (node_splay c a) of Leaf \<Rightarrow> Leaf | Node a' y _ \<Rightarrow> Node a' y b))
          else Node a x b)"

fun node_start :: "'a tree \<Rightarrow> 'a option" where
  "node_start Leaf = None"
| "node_start (Node a x b) = (case a of Leaf \<Rightarrow> Some x | Node _ _ _ \<Rightarrow> node_start a)"

fun node_finish :: "'a tree \<Rightarrow> 'a option" where
  "node_finish Leaf = None"
| "node_finish (Node a x b) = (case b of Leaf \<Rightarrow> Some x | Node _ _ _ \<Rightarrow> node_finish b)"

fun node_walk :: "('a \<Rightarrow> 's \<Rightarrow> 's) \<Rightarrow> 'a tree \<Rightarrow> 's \<Rightarrow> 's" where
  "node_walk f Leaf s = s"
| "node_walk f (Node a x b) s = node_walk f b (f x (node_walk f a s))"

section \<open>The container\<close>

record 'a splay =
  sp_head :: "'a tree"
  sp_elements :: nat

definition splay_empty :: "'a splay" where
  "splay_empty = \<lparr>sp_head = Leaf, sp_elements = 0\<rparr>"

definition splay_find :: "('a \<Rightarrow> int) \<Rightarrow> 'a splay \<Rightarrow> 'a option \<times> 'a splay" where
  "splay_find c s =
     (case node_splay c (sp_head s) of
        (k, t) \<Rightarrow> (if k \<noteq> 0 then None else (case t of Leaf \<Rightarrow> None | Node a x b \<Rightarrow> Some x), s\<lparr>sp_head := t\<rparr>))"

definition splay_insert :: "('a \<Rightarrow> int) \<Rightarrow> 'a \<Rightarrow> 'a splay \<Rightarrow> 'a splay res" where
  "splay_insert c v s =
     (case splay_find c s of
        (r, s1) \<Rightarrow> res_bind (res_guard (r = None) Assertion) (\<lambda>_.
          Inr (s1\<lparr>sp_head := snd (node_insert c v (sp_head s1)), sp_elements := sp_elements s1 + 1\<rparr>)))"

definition splay_remove :: "('a \<Rightarrow> int) \<Rightarrow> 'a splay \<Rightarrow> 'a splay res" where
  "splay_remove c s =
     (case splay_find c s of
        (r, s1) \<Rightarrow> res_bind (res_guard (r \<noteq> None) Assertion) (\<lambda>_.
          Inr (s1\<lparr>sp_head := node_remove c (sp_head s1), sp_elements := sp_elements s1 - 1\<rparr>)))"

definition splay_start :: "'a splay \<Rightarrow> 'a option" where
  "splay_start s = node_start (sp_head s)"

definition splay_finish :: "'a splay \<Rightarrow> 'a option" where
  "splay_finish s = node_finish (sp_head s)"

definition splay_destroy :: "'a splay \<Rightarrow> 'a splay" where
  "splay_destroy s = s\<lparr>sp_head := Leaf, sp_elements := 0\<rparr>"

section \<open>Searching\<close>

text \<open>A comparison fits a list if it is positive first, then zero, then negative.\<close>

definition cuts :: "('a \<Rightarrow> int) \<Rightarrow> 'a list \<Rightarrow> bool" where
  "cuts c xs \<longleftrightarrow> sorted_wrt (\<lambda>x y. sgn (c y) \<le> sgn (c x)) xs"

lemma cuts_append: "cuts c (xs @ ys) \<longleftrightarrow> cuts c xs \<and> cuts c ys \<and> (\<forall>x \<in> set xs. \<forall>y \<in> set ys. sgn (c y) \<le> sgn (c x))"
  by (simp add: cuts_def sorted_wrt_append)

lemma cuts_before_pos: "cuts c (xs @ y # ys) \<Longrightarrow> 0 < c y \<Longrightarrow> x \<in> set xs \<Longrightarrow> 0 < c x"
proof -
  assume "cuts c (xs @ y # ys)" "0 < c y" "x \<in> set xs"
  then have "sgn (c y) \<le> sgn (c x)" by (auto simp: cuts_def sorted_wrt_append)
  then show ?thesis using \<open>0 < c y\<close> by (auto simp: sgn_if split: if_splits)
qed

lemma cuts_after_neg: "cuts c (xs @ y # ys) \<Longrightarrow> c y < 0 \<Longrightarrow> z \<in> set ys \<Longrightarrow> c z < 0"
proof -
  assume "cuts c (xs @ y # ys)" "c y < 0" "z \<in> set ys"
  then have "sgn (c z) \<le> sgn (c y)" by (auto simp: cuts_def sorted_wrt_append)
  then show ?thesis using \<open>c y < 0\<close> by (auto simp: sgn_if split: if_splits)
qed

definition left_seq :: "'a left_path \<Rightarrow> 'a list" where
  "left_seq l = concat (map (\<lambda>(t, v). inorder t @ [v]) (rev l))"

definition right_seq :: "'a right_path \<Rightarrow> 'a list" where
  "right_seq r = concat (map (\<lambda>(v, t). v # inorder t) r)"

lemma seq_simps [simp]:
  "left_seq [] = []" "left_seq ((t, v) # l) = left_seq l @ inorder t @ [v]"
  "right_seq [] = []" "right_seq ((v, t) # r) = v # inorder t @ right_seq r"
  by (simp_all add: left_seq_def right_seq_def)

lemma inorder_close_left [simp]: "inorder (close_left l t) = left_seq l @ inorder t"
  by (induction l arbitrary: t) (auto simp: close_left_def)

lemma inorder_close_right [simp]: "inorder (close_right r t) = inorder t @ right_seq r"
  by (induction r arbitrary: t) (auto simp: close_right_def)

lemma inorder_assemble [simp]: "inorder (assemble l r a x b) = left_seq l @ inorder a @ x # inorder b @ right_seq r"
  by (simp add: assemble_def)

lemma left_seq_pos:
  assumes "cuts c (left_seq l @ ys)" and "\<forall>(t, v) \<in> set l. 0 < c v"
  shows "\<forall>x \<in> set (left_seq l). 0 < c x"
proof (cases l)
  case (Cons p l')
  obtain t v where p: "p = (t, v)" by (cases p)
  then have "cuts c ((left_seq l' @ inorder t) @ v # ys)" "0 < c v" using assms Cons by auto
  then have "\<forall>x \<in> set (left_seq l' @ inorder t). 0 < c x" using cuts_before_pos [of c "left_seq l' @ inorder t" v ys] by blast
  then show ?thesis using Cons p \<open>0 < c v\<close> by auto
qed simp

lemma right_seq_neg:
  assumes "cuts c (ys @ right_seq r)" and "\<forall>(v, t) \<in> set r. c v < 0"
  shows "\<forall>x \<in> set (right_seq r). c x < 0"
proof (cases r)
  case (Cons p r')
  obtain v t where p: "p = (v, t)" by (cases p)
  then have "cuts c (ys @ v # inorder t @ right_seq r')" "c v < 0" using assms Cons by auto
  then have "\<forall>x \<in> set (inorder t @ right_seq r'). c x < 0" using cuts_after_neg [of c ys v "inorder t @ right_seq r'"] by blast
  then show ?thesis using Cons p \<open>c v < 0\<close> by auto
qed simp

text \<open>What a search leaves: everything before the top where its result is negative, and so on.\<close>

definition splayed :: "('a \<Rightarrow> int) \<Rightarrow> 'a list \<Rightarrow> int \<times> 'a tree \<Rightarrow> bool" where
  "splayed c xs kt \<longleftrightarrow>
     (case kt of (k, t) \<Rightarrow>
        (case t of
           Leaf \<Rightarrow> False
         | Node a x b \<Rightarrow> inorder t = xs \<and> k = c x \<and>
             (k < 0 \<longrightarrow> (\<forall>y \<in> set_tree a. 0 < c y)) \<and> (0 < k \<longrightarrow> (\<forall>y \<in> set_tree b. c y < 0))))"

lemma splayed_assemble:
  assumes "cuts c (left_seq l @ inorder a @ x # inorder b @ right_seq r)"
    and "\<forall>(t, v) \<in> set l. 0 < c v" and "\<forall>(v, t) \<in> set r. c v < 0"
    and "c x < 0 \<Longrightarrow> a = Leaf" and "0 < c x \<Longrightarrow> b = Leaf"
  shows "splayed c (left_seq l @ inorder a @ x # inorder b @ right_seq r) (c x, assemble l r a x b)"
proof -
  have s: "set_tree t = set (inorder t)" for t :: "'a tree" by simp
  have "\<forall>y \<in> set (left_seq l). 0 < c y" using left_seq_pos [OF assms(1,2)] .
  moreover have "\<forall>y \<in> set (right_seq r). c y < 0" using right_seq_neg [of c "left_seq l @ inorder a @ x # inorder b" r] assms(1,3) by simp
  ultimately show ?thesis using assms(4,5) by (auto simp: splayed_def assemble_def s simp del: set_inorder)
qed

lemma splay_loop_splayed:
  assumes "cuts c (left_seq l @ inorder a @ x # inorder b @ right_seq r)"
    and "\<forall>(t, v) \<in> set l. 0 < c v" and "\<forall>(v, t) \<in> set r. c v < 0"
  shows "splayed c (left_seq l @ inorder a @ x # inorder b @ right_seq r) (splay_loop c l r a x b)"
  using assms
proof (induction c l r a x b rule: splay_loop.induct)
  case (1 c l r a x b)
  note P = 1(5-7)
  consider "c x < 0" | "c x = 0" | "0 < c x" by linarith
  then show ?case
  proof cases
    case neg: 1
    show ?thesis
    proof (cases a)
      case Leaf
      then show ?thesis using neg P splayed_assemble [of c l a x b r] by (subst splay_loop.simps) simp
    next
      case a: (Node a1 y b1)
      show ?thesis
      proof (cases "c y < 0")
        case y: True
        show ?thesis
        proof (cases a1)
          case Leaf
          then show ?thesis using neg y a P splayed_assemble [of c l a1 y "Node b1 x b" r] by (subst splay_loop.simps) simp
        next
          case a1: (Node a2 z b2)
          then show ?thesis using neg y a P 1(1) [OF neg a y a1] by (subst splay_loop.simps) simp
        qed
      next
        case False
        then show ?thesis using neg a P 1(2) [OF neg a False] by (subst splay_loop.simps) simp
      qed
    qed
  next
    case 2
    then show ?thesis using P splayed_assemble [of c l a x b r] by (subst splay_loop.simps) simp
  next
    case pos: 3
    then have np: "\<not> c x < 0" by simp
    show ?thesis
    proof (cases b)
      case Leaf
      then show ?thesis using pos P splayed_assemble [of c l a x b r] by (subst splay_loop.simps) simp
    next
      case b: (Node a1 y b1)
      show ?thesis
      proof (cases "c y > 0")
        case y: True
        show ?thesis
        proof (cases b1)
          case Leaf
          then show ?thesis using pos y b P splayed_assemble [of c l "Node a x a1" y b1 r] by (subst splay_loop.simps) simp
        next
          case b1: (Node a2 z b2)
          then show ?thesis using pos y b P 1(3) [OF np pos b y b1] by (subst splay_loop.simps) simp
        qed
      next
        case False
        then show ?thesis using pos b P 1(4) [OF np pos b False] by (subst splay_loop.simps) simp
      qed
    qed
  qed
qed

lemma node_splay_splayed: "cuts c (inorder t) \<Longrightarrow> t \<noteq> Leaf \<Longrightarrow> splayed c (inorder t) (node_splay c t)"
  using splay_loop_splayed [of c "[]" _ _ _ "[]"] by (cases t) (simp_all add: node_splay_def)

lemma node_splay_cases:
  assumes "cuts c (inorder t)" and "t \<noteq> Leaf"
  shows "\<exists>a x b. node_splay c t = (c x, Node a x b) \<and> inorder t = inorder a @ x # inorder b \<and>
    (c x \<noteq> 0 \<longrightarrow> (\<forall>y \<in> set (inorder a). 0 < c y) \<and> (\<forall>y \<in> set (inorder b). c y < 0))"
proof -
  obtain k u where ku: "node_splay c t = (k, u)" by (cases "node_splay c t")
  have sp: "splayed c (inorder t) (k, u)" using node_splay_splayed [OF assms] ku by simp
  then obtain a x b where u: "u = Node a x b" by (cases u) (simp_all add: splayed_def)
  have n: "inorder t = inorder a @ x # inorder b" "k = c x"
      "c x < 0 \<longrightarrow> (\<forall>y \<in> set (inorder a). 0 < c y)" "0 < c x \<longrightarrow> (\<forall>y \<in> set (inorder b). c y < 0)"
    using sp u by (simp_all add: splayed_def)
  have cut: "cuts c (inorder a @ x # inorder b)" using assms(1) n(1) by simp
  have "(\<forall>y \<in> set (inorder a). 0 < c y) \<and> (\<forall>y \<in> set (inorder b). c y < 0)" if "c x \<noteq> 0"
  proof (cases "c x < 0")
    case True
    then show ?thesis using n(3) cuts_after_neg [OF cut True] by simp
  next
    case False
    then have "0 < c x" using that by simp
    then show ?thesis using n(4) cuts_before_pos [OF cut] by simp
  qed
  then show ?thesis using ku u n(1,2) by (intro exI [of _ a] exI [of _ x] exI [of _ b]) simp
qed

section \<open>The container as a sequence\<close>

definition splay_seq :: "'a splay \<Rightarrow> 'a list" where
  "splay_seq s = inorder (sp_head s)"

definition splay_ok :: "'a splay \<Rightarrow> bool" where
  "splay_ok s \<longleftrightarrow> sp_elements s = length (splay_seq s)"

lemma splay_find_law:
  assumes "cuts c (splay_seq s)"
  shows "splay_seq (snd (splay_find c s)) = splay_seq s \<and> sp_elements (snd (splay_find c s)) = sp_elements s \<and>
    (case fst (splay_find c s) of None \<Rightarrow> \<forall>x \<in> set (splay_seq s). c x \<noteq> 0 | Some x \<Rightarrow> x \<in> set (splay_seq s) \<and> c x = 0)"
proof (cases "sp_head s = Leaf")
  case True
  then show ?thesis by (simp add: splay_find_def node_splay_def splay_seq_def)
next
  case False
  then obtain a x b where n: "node_splay c (sp_head s) = (c x, Node a x b)" "inorder (sp_head s) = inorder a @ x # inorder b"
      "c x \<noteq> 0 \<longrightarrow> (\<forall>y \<in> set (inorder a). 0 < c y) \<and> (\<forall>y \<in> set (inorder b). c y < 0)"
    using node_splay_cases [OF assms [unfolded splay_seq_def]] by blast
  have "\<forall>y \<in> set (inorder a @ x # inorder b). c y \<noteq> 0" if "c x \<noteq> 0" using that n(3) by fastforce
  then show ?thesis using n(1,2) by (auto simp: splay_find_def splay_seq_def simp del: set_inorder)
qed

lemma node_insert_law:
  assumes "cuts c (inorder t)" and "\<forall>x \<in> set (inorder t). c x \<noteq> 0"
  shows "inorder (snd (node_insert c v t)) = filter (\<lambda>x. 0 < c x) (inorder t) @ v # filter (\<lambda>x. c x < 0) (inorder t)"
proof (cases "t = Leaf")
  case True
  then show ?thesis by (simp add: node_insert_def)
next
  case False
  then obtain a x b where n: "node_splay c t = (c x, Node a x b)" "inorder t = inorder a @ x # inorder b"
      "c x \<noteq> 0 \<longrightarrow> (\<forall>y \<in> set (inorder a). 0 < c y) \<and> (\<forall>y \<in> set (inorder b). c y < 0)"
    using node_splay_cases [OF assms(1)] by blast
  have x: "c x \<noteq> 0" using assms(2) n(2) by simp
  then have ab: "\<forall>y \<in> set (inorder a). 0 < c y \<and> \<not> c y < 0" "\<forall>y \<in> set (inorder b). c y < 0 \<and> \<not> 0 < c y"
    using n(3) by fastforce+
  then have "filter (\<lambda>x. 0 < c x) (inorder a) = inorder a" "filter (\<lambda>x. c x < 0) (inorder a) = []"
      "filter (\<lambda>x. 0 < c x) (inorder b) = []" "filter (\<lambda>x. c x < 0) (inorder b) = inorder b"
    by (auto simp: filter_id_conv filter_empty_conv simp del: set_inorder)
  then show ?thesis using n(1,2) x False by (cases t) (auto simp: node_insert_def)
qed

lemma node_remove_law:
  assumes "cuts c (inorder t)" and "t \<noteq> Leaf" and "\<exists>x \<in> set (inorder t). c x = 0"
    and "\<And>xs x ys. inorder t = xs @ x # ys \<Longrightarrow> c x = 0 \<Longrightarrow> (\<forall>y \<in> set xs. c y \<noteq> 0) \<and> (\<forall>y \<in> set ys. c y \<noteq> 0)"
  shows "inorder (node_remove c t) = filter (\<lambda>y. c y \<noteq> 0) (inorder t)"
proof -
  obtain a x b where n: "node_splay c t = (c x, Node a x b)" "inorder t = inorder a @ x # inorder b"
      "c x \<noteq> 0 \<longrightarrow> (\<forall>y \<in> set (inorder a). 0 < c y) \<and> (\<forall>y \<in> set (inorder b). c y < 0)"
    using node_splay_cases [OF assms(1,2)] by blast
  have "\<forall>y \<in> set (inorder t). c y \<noteq> 0" if "c x \<noteq> 0" unfolding n(2) using that n(3) by fastforce
  then have x: "c x = 0" using assms(3) by blast
  have ab: "\<forall>y \<in> set (inorder a). c y \<noteq> 0" "\<forall>y \<in> set (inorder b). c y \<noteq> 0" using assms(4) [OF n(2) x] by auto
  then have f: "filter (\<lambda>y. c y \<noteq> 0) (inorder t) = inorder a @ inorder b" using n(2) x by simp
  show ?thesis
  proof (cases "a = Leaf")
    case True
    then show ?thesis using n(1) x f by (simp add: node_remove_def)
  next
    case False
    have ca: "cuts c (inorder a)" "cuts c (inorder a @ x # inorder b)" using assms(1) unfolding n(2) by (simp_all add: cuts_append)
    have pos: "0 < c y" if "y \<in> set (inorder a)" for y
    proof -
      have "sgn (c x) \<le> sgn (c y)" using ca(2) that by (auto simp: cuts_append)
      moreover have "c y \<noteq> 0" using ab(1) that by blast
      ultimately show ?thesis using x by (auto simp: sgn_if split: if_splits)
    qed
    obtain a' y b' where m: "node_splay c a = (c y, Node a' y b')" "inorder a = inorder a' @ y # inorder b'"
        "c y \<noteq> 0 \<longrightarrow> (\<forall>z \<in> set (inorder a'). 0 < c z) \<and> (\<forall>z \<in> set (inorder b'). c z < 0)"
      using node_splay_cases [OF ca(1) False] by blast
    have "0 < c y" using pos m(2) by simp
    then have "\<forall>z \<in> set (inorder b'). c z < 0" using m(3) by simp
    moreover have "\<forall>z \<in> set (inorder b'). 0 < c z" using pos m(2) by simp
    ultimately have "inorder b' = []" by (metis less_asym list.set_intros(1) neq_Nil_conv)
    then have "b' = Leaf" by (cases b') auto
    then show ?thesis using n(1) x f m(1,2) False by (cases a) (simp_all add: node_remove_def)
  qed
qed

lemma splay_insert_law:
  assumes "cuts c (splay_seq s)" and "\<forall>x \<in> set (splay_seq s). c x \<noteq> 0"
  shows "\<exists>s'. splay_insert c v s = Inr s' \<and> sp_elements s' = sp_elements s + 1 \<and>
    splay_seq s' = filter (\<lambda>x. 0 < c x) (splay_seq s) @ v # filter (\<lambda>x. c x < 0) (splay_seq s)"
proof -
  obtain r s1 where f: "splay_find c s = (r, s1)" by (cases "splay_find c s")
  then have s1: "splay_seq s1 = splay_seq s" "sp_elements s1 = sp_elements s" "r = None"
    using splay_find_law [OF assms(1)] assms(2) by (auto split: option.splits)
  then show ?thesis using f node_insert_law [of c "sp_head s1" v] assms by (simp add: splay_insert_def splay_seq_def)
qed

lemma splay_remove_law:
  assumes "cuts c (splay_seq s)" and "x \<in> set (splay_seq s)" and "c x = 0"
    and "\<And>y. y \<in> set (splay_seq s) \<Longrightarrow> c y = 0 \<Longrightarrow> y = x" and "distinct (splay_seq s)"
  shows "\<exists>s'. splay_remove c s = Inr s' \<and> sp_elements s' = sp_elements s - 1 \<and> splay_seq s' = filter (\<lambda>y. y \<noteq> x) (splay_seq s)"
proof -
  obtain r s1 where f: "splay_find c s = (r, s1)" by (cases "splay_find c s")
  have s1: "splay_seq s1 = splay_seq s" "sp_elements s1 = sp_elements s" "r \<noteq> None"
    using splay_find_law [OF assms(1)] assms(2,3) f by (auto split: option.splits)
  have I: "inorder (sp_head s1) = splay_seq s" using s1(1) by (simp add: splay_seq_def)
  have "inorder (node_remove c (sp_head s1)) = filter (\<lambda>y. c y \<noteq> 0) (inorder (sp_head s1))"
  proof (rule node_remove_law)
    show "cuts c (inorder (sp_head s1))" "\<exists>x \<in> set (inorder (sp_head s1)). c x = 0" unfolding I using assms(1,2,3) by blast+
    then show "sp_head s1 \<noteq> Leaf" by auto
    show "(\<forall>y \<in> set xs. c y \<noteq> 0) \<and> (\<forall>y \<in> set ys. c y \<noteq> 0)" if e: "inorder (sp_head s1) = xs @ z # ys" "c z = 0" for xs z ys
    proof -
      have "z = x" by (rule assms(4)) (use e I in \<open>simp_all flip: set_inorder\<close>)
      then have "x \<notin> set xs" "x \<notin> set ys" using assms(5) e(1) I by auto
      moreover have "y = x" if "y \<in> set xs \<union> set ys" "c y = 0" for y
        by (rule assms(4)) (use that e(1) I in auto)
      ultimately show ?thesis by blast
    qed
  qed
  then have "inorder (node_remove c (sp_head s1)) = filter (\<lambda>y. c y \<noteq> 0) (splay_seq s)" using I by simp
  moreover have "filter (\<lambda>y. c y \<noteq> 0) (splay_seq s) = filter (\<lambda>y. y \<noteq> x) (splay_seq s)"
    using assms(3,4) by (intro filter_cong) auto
  ultimately show ?thesis using f s1 by (simp add: splay_remove_def splay_seq_def)
qed

lemma splay_start_law: "splay_start s = (if splay_seq s = [] then None else Some (hd (splay_seq s)))"
proof -
  have "node_start t = (if inorder t = [] then None else Some (hd (inorder t)))" for t :: "'a tree"
    by (induction t rule: node_start.induct) (auto simp: hd_append split: tree.split)
  then show ?thesis by (simp add: splay_start_def splay_seq_def)
qed

lemma splay_finish_law: "splay_finish s = (if splay_seq s = [] then None else Some (last (splay_seq s)))"
proof -
  have "node_finish t = (if inorder t = [] then None else Some (last (inorder t)))" for t :: "'a tree"
    by (induction t rule: node_finish.induct) (auto split: tree.split)
  then show ?thesis by (simp add: splay_finish_def splay_seq_def)
qed

lemma node_walk_law: "node_walk f t s = fold f (inorder t) s"
  by (induction t arbitrary: s) simp_all

section \<open>The contract of a table\<close>

text \<open>A sequence cut by a comparison is the smaller elements followed by the larger ones.\<close>

lemma cuts_split: "cuts c xs \<Longrightarrow> \<forall>x \<in> set xs. c x \<noteq> 0 \<Longrightarrow> filter (\<lambda>x. 0 < c x) xs @ filter (\<lambda>x. c x < 0) xs = xs"
proof (induction xs)
  case (Cons x xs)
  have IH: "filter (\<lambda>x. 0 < c x) xs @ filter (\<lambda>x. c x < 0) xs = xs" using Cons by (simp add: cuts_def)
  show ?case
  proof (cases "0 < c x")
    case True
    then show ?thesis using IH by simp
  next
    case False
    then have neg: "c x < 0" using Cons.prems(2) by auto
    have "c y < 0" if "y \<in> set xs" for y
    proof -
      have "sgn (c y) \<le> sgn (c x)" using Cons.prems(1) that by (simp add: cuts_def)
      then show ?thesis using neg by (auto simp: sgn_if split: if_splits)
    qed
    then have "filter (\<lambda>x. 0 < c x) xs = []" "filter (\<lambda>x. c x < 0) xs = xs"
      by (fastforce simp: filter_empty_conv, simp add: filter_id_conv)
    then show ?thesis using neg False by simp
  qed
qed simp

lemma filter_others: "v \<notin> set xs \<Longrightarrow> v \<notin> set ys \<Longrightarrow> filter (\<lambda>y. y \<noteq> v) (xs @ v # ys) = xs @ ys"
proof -
  assume "v \<notin> set xs" "v \<notin> set ys"
  then have "filter (\<lambda>y. y \<noteq> v) xs = xs" "filter (\<lambda>y. y \<noteq> v) ys = ys" by (auto simp: filter_id_conv)
  then show ?thesis by simp
qed

text \<open>
  What clients rely on: a sequence that comparisons cut into a part before, the hits, and a part behind; searching may
  rearrange the table but not the sequence.
\<close>

locale ordered_table =
  fixes elems :: "'t \<Rightarrow> 'a list"
    and lookup :: "('a \<Rightarrow> int) \<Rightarrow> 't \<Rightarrow> 'a option \<times> 't"
    and insert :: "('a \<Rightarrow> int) \<Rightarrow> 'a \<Rightarrow> 't \<Rightarrow> 't res"
    and remove :: "('a \<Rightarrow> int) \<Rightarrow> 't \<Rightarrow> 't res"
  assumes lookup_law: "cuts c (elems t) \<Longrightarrow> elems (snd (lookup c t)) = elems t \<and>
      (case fst (lookup c t) of None \<Rightarrow> \<forall>x \<in> set (elems t). c x \<noteq> 0 | Some x \<Rightarrow> x \<in> set (elems t) \<and> c x = 0)"
    and insert_law: "cuts c (elems t) \<Longrightarrow> \<forall>x \<in> set (elems t). c x \<noteq> 0 \<Longrightarrow>
      \<exists>t'. insert c v t = Inr t' \<and> elems t' = filter (\<lambda>x. 0 < c x) (elems t) @ v # filter (\<lambda>x. c x < 0) (elems t)"
    and remove_law: "cuts c (elems t) \<Longrightarrow> x \<in> set (elems t) \<Longrightarrow> c x = 0 \<Longrightarrow>
      (\<And>y. y \<in> set (elems t) \<Longrightarrow> c y = 0 \<Longrightarrow> y = x) \<Longrightarrow> distinct (elems t) \<Longrightarrow>
      \<exists>t'. remove c t = Inr t' \<and> elems t' = filter (\<lambda>y. y \<noteq> x) (elems t)"
begin

text \<open>An element that was inserted is found and can be removed again.\<close>

lemma insert_lookup_remove:
  assumes "cuts c (elems t)" and "\<forall>x \<in> set (elems t). c x \<noteq> 0 \<and> sgn (d x) = sgn (c x)" and "d v = 0" and "v \<notin> set (elems t)"
    and "distinct (elems t)"
  shows "\<exists>t' t''. insert c v t = Inr t' \<and> fst (lookup d t') = Some v \<and> remove d t' = Inr t'' \<and> elems t'' = elems t"
proof -
  let ?P = "filter (\<lambda>x. 0 < c x) (elems t)" and ?N = "filter (\<lambda>x. c x < 0) (elems t)"
  obtain t' where i: "insert c v t = Inr t'" "elems t' = ?P @ v # ?N" using insert_law [OF assms(1)] assms(2) by blast
  have sg: "0 < d x \<longleftrightarrow> 0 < c x" "d x < 0 \<longleftrightarrow> c x < 0" "d x \<noteq> 0" if "x \<in> set (elems t)" for x
  proof -
    have "sgn (d x) = sgn (c x)" "c x \<noteq> 0" using assms(2) that by auto
    then show "0 < d x \<longleftrightarrow> 0 < c x" "d x < 0 \<longleftrightarrow> c x < 0" "d x \<noteq> 0" by (auto simp: sgn_if split: if_splits)
  qed
  have P: "0 < d x" if "x \<in> set ?P" for x using that sg(1) by auto
  have N: "d x < 0" if "x \<in> set ?N" for x using that sg(2) by auto
  have le: "sgn (d y) \<le> sgn (d x)" if "x \<in> set ?P" for x y
  proof -
    have "sgn (d x) = 1" using P [OF that] by simp
    then show ?thesis by (simp add: sgn_if)
  qed
  have ge: "sgn (d y) \<le> sgn (d x)" if "y \<in> set ?N" for x y
  proof -
    have "sgn (d y) = - 1" using N [OF that] by simp
    then show ?thesis by (simp add: sgn_if)
  qed
  have "cuts d ?P" unfolding cuts_def by (rule sorted_wrt_mono_rel [of _ "\<lambda>x y. True"]) (use le in \<open>auto simp: sorted_wrt_iff_nth_less\<close>)
  moreover have "cuts d ?N" unfolding cuts_def by (rule sorted_wrt_mono_rel [of _ "\<lambda>x y. True"]) (use ge in \<open>auto simp: sorted_wrt_iff_nth_less\<close>)
  moreover have "\<forall>y \<in> set ?N. sgn (d y) \<le> sgn (d v)" by (intro ballI ge)
  moreover have "\<forall>x \<in> set ?P. \<forall>y \<in> set (v # ?N). sgn (d y) \<le> sgn (d x)" by (intro ballI le)
  ultimately have cut: "cuts d (elems t')" unfolding i(2) cuts_def by (simp only: sorted_wrt_append sorted_wrt.simps simp_thms)
  have zero: "y = v" if "y \<in> set (elems t')" "d y = 0" for y using that i(2) sg(3) by auto
  have v: "v \<in> set (elems t')" using i(2) by simp
  have hit: "fst (lookup d t') = Some v"
  proof (cases "fst (lookup d t')")
    case None
    then show ?thesis using lookup_law [OF cut] v assms(3) by simp
  next
    case (Some y)
    then have "y \<in> set (elems t')" "d y = 0" using lookup_law [OF cut] by simp_all
    then show ?thesis using zero Some by simp
  qed
  have "\<exists>t''. remove d t' = Inr t'' \<and> elems t'' = filter (\<lambda>y. y \<noteq> v) (elems t')"
  proof (rule remove_law [OF cut v assms(3)])
    show "distinct (elems t')" unfolding i(2) using assms(4,5) by (auto simp: distinct_filter)
    show "y = v" if "y \<in> set (elems t')" "d y = 0" for y using that by (rule zero)
  qed
  then obtain t'' where r: "remove d t' = Inr t''" "elems t'' = filter (\<lambda>y. y \<noteq> v) (elems t')" by (elim exE conjE)
  have "filter (\<lambda>y. y \<noteq> v) (?P @ v # ?N) = ?P @ ?N" by (rule filter_others) (use assms(4) in simp_all)
  moreover have "?P @ ?N = elems t" using cuts_split [OF assms(1)] assms(2) by blast
  ultimately have "elems t'' = elems t" unfolding r(2) i(2) by (rule trans)
  then show ?thesis using i(1) r(1) hit by (intro exI conjI)
qed

end

interpretation st: ordered_table splay_seq splay_find splay_insert splay_remove
proof
  fix c :: "'a \<Rightarrow> int" and t :: "'a splay" and v x :: 'a
  show "cuts c (splay_seq t) \<Longrightarrow> splay_seq (snd (splay_find c t)) = splay_seq t \<and>
      (case fst (splay_find c t) of None \<Rightarrow> \<forall>x \<in> set (splay_seq t). c x \<noteq> 0 | Some x \<Rightarrow> x \<in> set (splay_seq t) \<and> c x = 0)"
    using splay_find_law [of c t] by simp
  show "cuts c (splay_seq t) \<Longrightarrow> \<forall>x \<in> set (splay_seq t). c x \<noteq> 0 \<Longrightarrow>
      \<exists>t'. splay_insert c v t = Inr t' \<and> splay_seq t' = filter (\<lambda>x. 0 < c x) (splay_seq t) @ v # filter (\<lambda>x. c x < 0) (splay_seq t)"
    using splay_insert_law [of c t v] by blast
  show "cuts c (splay_seq t) \<Longrightarrow> x \<in> set (splay_seq t) \<Longrightarrow> c x = 0 \<Longrightarrow>
      (\<And>y. y \<in> set (splay_seq t) \<Longrightarrow> c y = 0 \<Longrightarrow> y = x) \<Longrightarrow> distinct (splay_seq t) \<Longrightarrow>
      \<exists>t'. splay_remove c t = Inr t' \<and> splay_seq t' = filter (\<lambda>y. y \<noteq> x) (splay_seq t)"
    using splay_remove_law [of c t x] by blast
qed

section \<open>Properties\<close>

text \<open>
  C35. The splay tree is a table ordered by its comparison \<open>c\<close>, whatever shape earlier searches gave it. Finding keeps the sequence of elements
  and returns one that compares equal, or nothing if there is none; inserting puts a value that compares equal to no element between
  the smaller and the larger ones; removing deletes the element that compares equal and nothing else; and a value inserted is found and removed again by any
  comparison \<open>d\<close> that agrees with \<open>c\<close> on the others, which leaves the sequence there was. The count of elements follows, and no assertion fails.
\<close>

theorem splay_insert_find_remove:
  assumes "cuts c (splay_seq t)" and "distinct (splay_seq t)"
  shows "splay_seq (snd (splay_find c t)) = splay_seq t \<and>
    (case fst (splay_find c t) of None \<Rightarrow> \<forall>x \<in> set (splay_seq t). c x \<noteq> 0 | Some x \<Rightarrow> x \<in> set (splay_seq t) \<and> c x = 0) \<and>
    ((\<forall>x \<in> set (splay_seq t). c x \<noteq> 0) \<longrightarrow>
      (\<exists>t'. splay_insert c v t = Inr t' \<and> splay_seq t' = filter (\<lambda>x. 0 < c x) (splay_seq t) @ v # filter (\<lambda>x. c x < 0) (splay_seq t) \<and> sp_elements t' = sp_elements t + 1)) \<and>
    (\<forall>xs x ys. splay_seq t = xs @ x # ys \<and> c x = 0 \<and> (\<forall>y \<in> set (xs @ ys). c y \<noteq> 0) \<longrightarrow>
      (\<exists>t'. splay_remove c t = Inr t' \<and> splay_seq t' = xs @ ys \<and> sp_elements t' = sp_elements t - 1)) \<and>
    ((\<forall>x \<in> set (splay_seq t). c x \<noteq> 0 \<and> sgn (d x) = sgn (c x)) \<and> d v = 0 \<and> v \<notin> set (splay_seq t) \<longrightarrow>
      (\<exists>t' t''. splay_insert c v t = Inr t' \<and> fst (splay_find d t') = Some v \<and> splay_remove d t' = Inr t'' \<and> splay_seq t'' = splay_seq t))"
proof -
  have "\<exists>t'. splay_remove c t = Inr t' \<and> splay_seq t' = xs @ ys \<and> sp_elements t' = sp_elements t - 1"
    if x: "splay_seq t = xs @ x # ys" "c x = 0" "\<forall>y \<in> set (xs @ ys). c y \<noteq> 0" for xs x ys
  proof -
    have "filter (\<lambda>y. y \<noteq> x) (splay_seq t) = xs @ ys" unfolding x(1) by (rule filter_others) (use assms(2) x(1) in simp_all)
    moreover have "x \<in> set (splay_seq t)" "\<And>y. y \<in> set (splay_seq t) \<Longrightarrow> c y = 0 \<Longrightarrow> y = x" using x by auto
    ultimately show ?thesis using splay_remove_law [OF assms(1) _ x(2) _ assms(2)] by auto
  qed
  then show ?thesis
    using splay_find_law [OF assms(1)] splay_insert_law [OF assms(1), of v] st.insert_lookup_remove [OF assms(1) _ _ _ assms(2), of d v] by blast
qed

definition ex_splay :: "nat splay" where
  "ex_splay = \<lparr>sp_head = Node (Node Leaf 1 Leaf) 2 (Node Leaf 5 Leaf), sp_elements = 3\<rparr>"

theorem splay_insert_find_remove_witness:
  "fst (splay_find (\<lambda>x. 2 - int x) ex_splay) = Some 2 \<and>
   (\<exists>t'. splay_insert (\<lambda>x. 3 - int x) 3 ex_splay = Inr t' \<and> splay_seq t' = [1, 2, 3, 5]) \<and>
   (\<exists>t'. splay_remove (\<lambda>x. 2 - int x) ex_splay = Inr t' \<and> splay_seq t' = [1, 5]) \<and>
   (\<exists>t' t''. splay_insert (\<lambda>x. 3 - int x) 3 ex_splay = Inr t' \<and> fst (splay_find (\<lambda>x. 3 - int x) t') = Some 3 \<and>
     splay_remove (\<lambda>x. 3 - int x) t' = Inr t'' \<and> splay_seq t'' = [1, 2, 5])"
proof -
  have seq: "splay_seq ex_splay = [1, 2, 5]" by (simp add: ex_splay_def splay_seq_def)
  have cut: "cuts (\<lambda>x. 3 - int x) (splay_seq ex_splay)" "cuts (\<lambda>x. 2 - int x) (splay_seq ex_splay)" "distinct (splay_seq ex_splay)" by (simp_all add: seq cuts_def)
  let ?two = "\<lambda>x. 2 - int x" and ?three = "\<lambda>x. 3 - int x"
  note two = splay_insert_find_remove [OF cut(2,3), of undefined undefined, THEN conjunct2]
  have "case fst (splay_find ?two ex_splay) of None \<Rightarrow> \<forall>x \<in> set (splay_seq ex_splay). ?two x \<noteq> 0 | Some x \<Rightarrow> x \<in> set (splay_seq ex_splay) \<and> ?two x = 0"
    by (rule two [THEN conjunct1])
  then have found: "fst (splay_find ?two ex_splay) = Some 2" by (cases "fst (splay_find ?two ex_splay)") (auto simp: seq)
  have "splay_seq ex_splay = [1] @ 2 # [5] \<and> ?two 2 = 0 \<and> (\<forall>y \<in> set ([1] @ [5]). ?two y \<noteq> 0)" by (simp add: seq)
  then have "\<exists>t'. splay_remove ?two ex_splay = Inr t' \<and> splay_seq t' = [1] @ [5] \<and> sp_elements t' = sp_elements ex_splay - 1"
    using two [THEN conjunct2, THEN conjunct2, THEN conjunct1] by blast
  then have removed: "\<exists>t'. splay_remove ?two ex_splay = Inr t' \<and> splay_seq t' = [1, 5]" by auto
  note three = splay_insert_find_remove [OF cut(1,3), of 3 ?three, THEN conjunct2, THEN conjunct2]
  have "\<forall>x \<in> set (splay_seq ex_splay). ?three x \<noteq> 0" by (simp add: seq)
  then have "\<exists>t'. splay_insert ?three 3 ex_splay = Inr t' \<and>
      splay_seq t' = filter (\<lambda>x. 0 < ?three x) (splay_seq ex_splay) @ 3 # filter (\<lambda>x. ?three x < 0) (splay_seq ex_splay) \<and> sp_elements t' = sp_elements ex_splay + 1"
    using three [THEN conjunct1] by blast
  then have inserted: "\<exists>t'. splay_insert ?three 3 ex_splay = Inr t' \<and> splay_seq t' = [1, 2, 3, 5]" by (auto simp: seq)
  have "(\<forall>x \<in> set (splay_seq ex_splay). ?three x \<noteq> 0 \<and> sgn (?three x) = sgn (?three x)) \<and> ?three 3 = 0 \<and> 3 \<notin> set (splay_seq ex_splay)" by (simp add: seq)
  then have "\<exists>t' t''. splay_insert ?three 3 ex_splay = Inr t' \<and> fst (splay_find ?three t') = Some 3 \<and> splay_remove ?three t' = Inr t'' \<and> splay_seq t'' = splay_seq ex_splay"
    using three [THEN conjunct2, THEN conjunct2] by blast
  then show ?thesis using found inserted removed seq by simp
qed

end
