(* ===== verification/Store_Mem.thy ===== *)
theory Store_Mem
  imports Lib_Splay Http_Range Repl_Policy
begin

text \<open>
  The in-memory data of a store object (src/stmem.cc, src/mem_node.cc): pages of at most 4096 bytes at arbitrary
  offsets, found through a splay tree of pointers. The pages live in \<open>mh_mem\<close>; \<open>new\<close> takes the address that the
  argument \<open>alloc\<close> gives for the addresses in use. Offsets are unbounded integers: objects are far smaller
  than \<open>2 ^ 63\<close> bytes. A search rearranges the tree also where the C++ method is \<^verbatim>\<open>const\<close>. The data of a
  page is the list of the bytes it holds.
\<close>

section \<open>Pages\<close>

record mem_node =
  mn_offset :: int
  mn_data :: string
  mn_write_pending :: bool

definition mem_node_new :: "int \<Rightarrow> mem_node" where
  "mem_node_new off = \<lparr>mn_offset = off, mn_data = [], mn_write_pending = False\<rparr>"

definition mn_end :: "mem_node \<Rightarrow> int" where
  "mn_end n = mn_offset n + int (length (mn_data n))"

definition mn_dataRange :: "mem_node \<Rightarrow> http_range" where
  "mn_dataRange n = http_range_of (mn_offset n) (mn_end n)"

definition mn_space :: "mem_node \<Rightarrow> nat" where
  "mn_space n = SM_PAGE_SIZE - length (mn_data n)"

definition mn_contains :: "mem_node \<Rightarrow> int \<Rightarrow> bool" where
  "mn_contains n location \<longleftrightarrow> mn_offset n \<le> location \<and> mn_end n > location"

definition mn_canAccept :: "mem_node \<Rightarrow> int \<Rightarrow> bool" where
  "mn_canAccept n location \<longleftrightarrow> location = mn_end n \<and> mn_space n > 0"

definition NodeCompare :: "mem_node \<Rightarrow> mem_node \<Rightarrow> int" where
  "NodeCompare l r =
     (if range_size (range_intersection (mn_dataRange l) (mn_dataRange r)) > 0 then 0
      else if mn_offset l < mn_offset r then - 1 else 1)"

section \<open>The object\<close>

record mem_hdr =
  mh_inmem_hi :: int
  mh_nodes :: "nat splay"
  mh_mem :: "nat \<Rightarrow> mem_node option"

definition mem_hdr_new :: mem_hdr where
  "mem_hdr_new = \<lparr>mh_inmem_hi = 0, mh_nodes = splay_empty, mh_mem = Map.empty\<rparr>"

text \<open>The page at an address of the tree, which is always live.\<close>

definition node_at :: "mem_hdr \<Rightarrow> nat \<Rightarrow> mem_node" where
  "node_at s a = (case mh_mem s a of None \<Rightarrow> mem_node_new 0 | Some n \<Rightarrow> n)"

definition mh_cmp :: "mem_hdr \<Rightarrow> mem_node \<Rightarrow> nat \<Rightarrow> int" where
  "mh_cmp s target a = NodeCompare target (node_at s a)"

text \<open>Comparing asserts that offsets are not negative.\<close>

definition mh_find :: "mem_hdr \<Rightarrow> mem_node \<Rightarrow> (nat option \<times> mem_hdr) res" where
  "mh_find s target =
     (if sp_head (mh_nodes s) \<noteq> Leaf \<and> mn_offset target < 0 then Inl Assertion
      else (case splay_find (mh_cmp s target) (mh_nodes s) of (r, t) \<Rightarrow> Inr (r, s\<lparr>mh_nodes := t\<rparr>)))"

definition NodeGet :: "mem_hdr \<Rightarrow> nat \<Rightarrow> (string \<times> mem_hdr) res" where
  "NodeGet s a =
     (case mh_mem s a of
        None \<Rightarrow> Inl Dangling
      | Some n \<Rightarrow>
          res_bind (res_guard (\<not> mn_write_pending n) Assertion) (\<lambda>_.
          Inr (mn_data n, s\<lparr>mh_mem := (mh_mem s)(a \<mapsto> n\<lparr>mn_write_pending := True\<rparr>)\<rparr>)))"

definition memNodeWriteComplete :: "mem_hdr \<Rightarrow> nat \<Rightarrow> mem_hdr res" where
  "memNodeWriteComplete s a =
     (case mh_mem s a of
        None \<Rightarrow> Inl Dangling
      | Some n \<Rightarrow>
          res_bind (res_guard (mn_write_pending n) Assertion) (\<lambda>_.
          Inr (s\<lparr>mh_mem := (mh_mem s)(a \<mapsto> n\<lparr>mn_write_pending := False\<rparr>)\<rparr>)))"

definition mh_lowestOffset :: "mem_hdr \<Rightarrow> int" where
  "mh_lowestOffset s = (case splay_start (mh_nodes s) of None \<Rightarrow> 0 | Some a \<Rightarrow> mn_offset (node_at s a))"

definition endOffset :: "mem_hdr \<Rightarrow> int res" where
  "endOffset s =
     (let result = (case splay_finish (mh_nodes s) of None \<Rightarrow> 0 | Some a \<Rightarrow> mn_end (node_at s a))
      in res_bind (res_guard (result = mh_inmem_hi s) Assertion) (\<lambda>_. Inr result))"

definition freeContent :: "mem_hdr \<Rightarrow> mem_hdr" where
  "freeContent s = s\<lparr>mh_mem := fold (\<lambda>a m. m(a := None)) (inorder (sp_head (mh_nodes s))) (mh_mem s),
     mh_nodes := splay_destroy (mh_nodes s), mh_inmem_hi := 0\<rparr>"

definition mh_unlink :: "mem_hdr \<Rightarrow> nat \<Rightarrow> (bool \<times> mem_hdr) res" where
  "mh_unlink s a =
     (if mn_write_pending (node_at s a) then Inr (False, s)
      else res_bind (splay_remove (mh_cmp s (node_at s a)) (mh_nodes s)) (\<lambda>t.
        Inr (True, s\<lparr>mh_nodes := t, mh_mem := (mh_mem s)(a := None)\<rparr>)))"

fun freeDataUpto_loop :: "nat \<Rightarrow> mem_hdr \<Rightarrow> int \<Rightarrow> mem_hdr res" where
  "freeDataUpto_loop 0 s target_offset = Inl OutOfFuel"
| "freeDataUpto_loop (Suc fuel) s target_offset =
     (case splay_start (mh_nodes s) of
        None \<Rightarrow> Inr s
      | Some a \<Rightarrow>
          if Some a = splay_finish (mh_nodes s) then Inr s
          else if mn_end (node_at s a) > target_offset then Inr s
          else res_bind (mh_unlink s a) (\<lambda>(ok, s1). if \<not> ok then Inr s1 else freeDataUpto_loop fuel s1 target_offset))"

definition freeDataUpto :: "mem_hdr \<Rightarrow> int \<Rightarrow> (int \<times> mem_hdr) res" where
  "freeDataUpto s target_offset =
     res_bind (freeDataUpto_loop (sp_elements (mh_nodes s) + 1) s target_offset) (\<lambda>s1.
     res_bind (res_guard (mh_lowestOffset s1 \<le> target_offset) Assertion) (\<lambda>_. Inr (mh_lowestOffset s1, s1)))"

text \<open>The number of bytes written, and the object.\<close>

definition writeAvailable :: "mem_hdr \<Rightarrow> nat \<Rightarrow> int \<Rightarrow> string \<Rightarrow> (nat \<times> mem_hdr) res" where
  "writeAvailable s a location source =
     (case mh_mem s a of
        None \<Rightarrow> Inl Dangling
      | Some n \<Rightarrow>
          res_bind (res_guard (location = mn_end n) Assertion) (\<lambda>_.
          res_bind (res_guard (mn_canAccept n location) Assertion) (\<lambda>_.
          let copyLen = min (length source) (mn_space n)
          in Inr (copyLen,
              s\<lparr>mh_inmem_hi := (if mh_inmem_hi s \<le> location then location + int copyLen else mh_inmem_hi s),
                mh_mem := (mh_mem s)(a \<mapsto> n\<lparr>mn_data := mn_data n @ take copyLen source\<rparr>)\<rparr>))))"

definition appendToNode :: "mem_hdr \<Rightarrow> nat \<Rightarrow> string \<Rightarrow> (nat \<times> mem_hdr) res" where
  "appendToNode s a dat = writeAvailable s a (mn_end (node_at s a)) dat"

text \<open>A new page at an offset, put into the tree.\<close>

definition appendNode :: "(nat set \<Rightarrow> nat) \<Rightarrow> mem_hdr \<Rightarrow> int \<Rightarrow> (nat \<times> mem_hdr) res" where
  "appendNode alloc s off =
     (let a = alloc (dom (mh_mem s)); n = mem_node_new off; s1 = s\<lparr>mh_mem := (mh_mem s)(a \<mapsto> n)\<rparr>
      in if sp_head (mh_nodes s) \<noteq> Leaf \<and> off < 0 then Inl Assertion
         else res_bind (splay_insert (mh_cmp s1 n) a (mh_nodes s1)) (\<lambda>t. Inr (a, s1\<lparr>mh_nodes := t\<rparr>)))"

definition makeAppendSpace :: "(nat set \<Rightarrow> nat) \<Rightarrow> mem_hdr \<Rightarrow> mem_hdr res" where
  "makeAppendSpace alloc s =
     (if sp_elements (mh_nodes s) = 0 then res_bind (appendNode alloc s 0) (\<lambda>(_, s1). Inr s1)
      else res_bind
        (case splay_finish (mh_nodes s) of
           None \<Rightarrow> Inl Dangling
         | Some a \<Rightarrow> if mn_space (node_at s a) = 0
             then res_bind (endOffset s) (\<lambda>e. res_bind (appendNode alloc s e) (\<lambda>(_, s1). Inr s1))
             else Inr s) (\<lambda>s1.
        case splay_finish (mh_nodes s1) of
          None \<Rightarrow> Inl Dangling
        | Some a \<Rightarrow> res_bind (res_guard (mn_space (node_at s1 a) > 0) Assertion) (\<lambda>_. Inr s1)))"

function internalAppend :: "(nat set \<Rightarrow> nat) \<Rightarrow> mem_hdr \<Rightarrow> string \<Rightarrow> mem_hdr res" where
  "internalAppend alloc s dat =
     (if dat = [] then Inr s
      else res_bind (makeAppendSpace alloc s) (\<lambda>s1.
        case splay_finish (mh_nodes s1) of
          None \<Rightarrow> Inl Dangling
        | Some a \<Rightarrow>
            res_bind (appendToNode s1 a dat) (\<lambda>(copied, s2).
            if copied = 0 then Inl Assertion else internalAppend alloc s2 (drop copied dat))))"
  by pat_completeness auto
termination by (relation "measure (\<lambda>(alloc, s, dat). length dat)") auto

text \<open>A page that is only used for searching.\<close>

definition mem_probe :: "int \<Rightarrow> nat \<Rightarrow> mem_node" where
  "mem_probe off len = (mem_node_new off)\<lparr>mn_data := replicate len (CHR 0x00)\<rparr>"

definition getBlockContainingLocation :: "mem_hdr \<Rightarrow> int \<Rightarrow> (nat option \<times> mem_hdr) res" where
  "getBlockContainingLocation s location = mh_find s (mem_probe location 1)"

definition copyAvailable :: "mem_hdr \<Rightarrow> nat \<Rightarrow> int \<Rightarrow> nat \<Rightarrow> string res" where
  "copyAvailable s a location amount =
     (let n = node_at s a
      in if mn_offset n > location then Inr []
         else res_bind (res_guard (mn_end n > location) Assertion) (\<lambda>_.
           let copyOffset = nat (location - mn_offset n); copyLen = min amount (length (mn_data n) - copyOffset)
           in Inr (take copyLen (drop copyOffset (mn_data n)))))"

text \<open>The loop of \<^verbatim>\<open>copy\<close>; the bytes copied are its result.\<close>

function copy_loop :: "mem_hdr \<Rightarrow> nat option \<Rightarrow> int \<Rightarrow> nat \<Rightarrow> (string \<times> mem_hdr) res" where
  "copy_loop s p location bytes_to_go =
     (case p of
        None \<Rightarrow> Inr ([], s)
      | Some a \<Rightarrow>
          if bytes_to_go = 0 then Inr ([], s)
          else res_bind (copyAvailable s a location bytes_to_go) (\<lambda>b.
            if b = [] then Inr ([], s)
            else res_bind (getBlockContainingLocation s (location + int (length b))) (\<lambda>(p', s1).
              res_bind (copy_loop s1 p' (location + int (length b)) (bytes_to_go - length b)) (\<lambda>(bs, s2). Inr (b @ bs, s2)))))"
  by pat_completeness auto
termination by (relation "measure (\<lambda>(s, p, location, bytes_to_go). bytes_to_go)") auto

definition mh_copy :: "mem_hdr \<Rightarrow> int \<Rightarrow> nat \<Rightarrow> (string \<times> mem_hdr) res" where
  "mh_copy s off len =
     res_bind (res_guard (off + int len > off) Assertion) (\<lambda>_.
     if sp_elements (mh_nodes s) = 0 then Inl Assertion
     else res_bind (res_guard (len > 0) Assertion) (\<lambda>_.
       res_bind (getBlockContainingLocation s off) (\<lambda>(p, s1).
       case p of
         None \<Rightarrow> Inl (Thrown ''Squid has attempted to read data from memory that is not present.'')
       | Some a \<Rightarrow> copy_loop s1 (Some a) off len)))"

fun contig_loop :: "nat \<Rightarrow> mem_hdr \<Rightarrow> int \<Rightarrow> int \<Rightarrow> (bool \<times> mem_hdr) res" where
  "contig_loop 0 s currentStart range_end = Inl OutOfFuel"
| "contig_loop (Suc fuel) s currentStart range_end =
     res_bind (getBlockContainingLocation s currentStart) (\<lambda>(p, s1).
     case p of
       None \<Rightarrow> Inr (False, s1)
     | Some a \<Rightarrow>
         let e = mn_end (node_at s1 a) in if e \<ge> range_end then Inr (True, s1) else contig_loop fuel s1 e range_end)"

text \<open>Every turn but the last advances, so the length of the range plus one is enough fuel.\<close>

definition hasContigousContentRange :: "mem_hdr \<Rightarrow> int \<Rightarrow> int \<Rightarrow> (bool \<times> mem_hdr) res" where
  "hasContigousContentRange s range_start range_end = contig_loop (nat (range_end - range_start) + 1) s range_start range_end"

definition unionNotEmpty :: "mem_hdr \<Rightarrow> int \<Rightarrow> nat \<Rightarrow> (bool \<times> mem_hdr) res" where
  "unionNotEmpty s off len =
     res_bind (res_guard (off \<ge> 0) Assertion) (\<lambda>_.
     res_bind (mh_find s (mem_probe off len)) (\<lambda>(r, s1). Inr (r \<noteq> None, s1)))"

definition nodeToRecieve :: "(nat set \<Rightarrow> nat) \<Rightarrow> mem_hdr \<Rightarrow> int \<Rightarrow> (nat \<times> mem_hdr) res" where
  "nodeToRecieve alloc s off =
     (if sp_elements (mh_nodes s) = 0 then
        res_bind (appendNode alloc s off) (\<lambda>(_, s1).
        case splay_start (mh_nodes s1) of None \<Rightarrow> Inl Dangling | Some a \<Rightarrow> Inr (a, s1))
      else
        res_bind (if off > 0 then mh_find s (mem_probe (off - 1) 1) else Inr (None, s)) (\<lambda>(candidate, s1).
        case candidate of
          Some a \<Rightarrow> if mn_canAccept (node_at s1 a) off then Inr (a, s1) else appendNode alloc s1 off
        | None \<Rightarrow> appendNode alloc s1 off))"

function write_loop :: "(nat set \<Rightarrow> nat) \<Rightarrow> mem_hdr \<Rightarrow> int \<Rightarrow> string \<Rightarrow> mem_hdr res" where
  "write_loop alloc s currentOffset source =
     (if source = [] then Inr s
      else res_bind (nodeToRecieve alloc s currentOffset) (\<lambda>(target, s1).
        res_bind (writeAvailable s1 target currentOffset source) (\<lambda>(wrote, s2).
        if wrote = 0 then Inl Assertion
        else write_loop alloc s2 (currentOffset + int wrote) (drop wrote source))))"
  by pat_completeness auto
termination by (relation "measure (\<lambda>(alloc, s, off, source). length source)") auto

declare internalAppend.simps [simp del] copy_loop.simps [simp del] write_loop.simps [simp del]

definition mh_write :: "(nat set \<Rightarrow> nat) \<Rightarrow> mem_hdr \<Rightarrow> int \<Rightarrow> string \<Rightarrow> mem_hdr res" where
  "mh_write alloc s off dat =
     res_bind (unionNotEmpty s off (length dat)) (\<lambda>(overlap, s1).
     if overlap then Inl (Thrown ''Attempt to overwrite already in-memory data.'')
     else write_loop alloc s1 off dat)"

section \<open>Objects and their bytes\<close>

definition mh_seq :: "mem_hdr \<Rightarrow> nat list" where
  "mh_seq s = splay_seq (mh_nodes s)"

definition node_ok :: "mem_node \<Rightarrow> bool" where
  "node_ok n \<longleftrightarrow> 0 \<le> mn_offset n \<and> mn_data n \<noteq> [] \<and> length (mn_data n) \<le> SM_PAGE_SIZE"

text \<open>The pages do not overlap and are in the order of their offsets.\<close>

definition mh_inv :: "mem_hdr \<Rightarrow> bool" where
  "mh_inv s \<longleftrightarrow> sp_elements (mh_nodes s) = length (mh_seq s) \<and> distinct (mh_seq s) \<and> dom (mh_mem s) = set (mh_seq s) \<and>
     (\<forall>a \<in> set (mh_seq s). node_ok (node_at s a)) \<and>
     sorted_wrt (\<lambda>a b. mn_end (node_at s a) \<le> mn_offset (node_at s b)) (mh_seq s) \<and>
     mh_inmem_hi s = (if mh_seq s = [] then 0 else mn_end (node_at s (last (mh_seq s))))"

text \<open>The byte at an offset.\<close>

definition mh_byte :: "mem_hdr \<Rightarrow> int \<Rightarrow> char option" where
  "mh_byte s off =
     (case find (\<lambda>a. mn_contains (node_at s a) off) (mh_seq s) of
        None \<Rightarrow> None
      | Some a \<Rightarrow> Some (mn_data (node_at s a) ! nat (off - mn_offset (node_at s a))))"

lemma node_ok_end: "node_ok n \<Longrightarrow> mn_offset n < mn_end n"
  by (simp add: node_ok_def mn_end_def)

lemma node_ok_end_le: "node_ok n \<Longrightarrow> mn_end n \<le> mn_offset n + 4096"
  by (simp add: node_ok_def mn_end_def SM_PAGE_SIZE_def)

lemma mh_invD:
  assumes "mh_inv s"
  shows "sp_elements (mh_nodes s) = length (mh_seq s)" and "distinct (mh_seq s)" and "dom (mh_mem s) = set (mh_seq s)"
    and "a \<in> set (mh_seq s) \<Longrightarrow> node_ok (node_at s a)" and "a \<in> set (mh_seq s) \<Longrightarrow> mh_mem s a = Some (node_at s a)"
    and "sorted_wrt (\<lambda>a b. mn_end (node_at s a) \<le> mn_offset (node_at s b)) (mh_seq s)"
proof -
  show "a \<in> set (mh_seq s) \<Longrightarrow> mh_mem s a = Some (node_at s a)"
  proof -
    assume "a \<in> set (mh_seq s)"
    then have "a \<in> dom (mh_mem s)" using assms by (simp add: mh_inv_def)
    then show "mh_mem s a = Some (node_at s a)" by (auto simp: node_at_def)
  qed
qed (use assms in \<open>auto simp: mh_inv_def\<close>)

lemma mh_apart:
  assumes "mh_inv s" and "a \<in> set (mh_seq s)" and "b \<in> set (mh_seq s)" and "a \<noteq> b"
  shows "mn_end (node_at s a) \<le> mn_offset (node_at s b) \<or> mn_end (node_at s b) \<le> mn_offset (node_at s a)"
proof -
  obtain i j where ij: "i < length (mh_seq s)" "mh_seq s ! i = a" "j < length (mh_seq s)" "mh_seq s ! j = b"
    using assms(2,3) by (metis in_set_conv_nth)
  then have "i < j \<or> j < i" using assms(4) by (metis linorder_neqE_nat)
  then show ?thesis using mh_invD(6) [OF assms(1)] ij by (auto simp: sorted_wrt_iff_nth_less)
qed

lemma mh_contains_unique:
  assumes "mh_inv s" and "a \<in> set (mh_seq s)" and "b \<in> set (mh_seq s)" and "mn_contains (node_at s a) x" and "mn_contains (node_at s b) x"
  shows "a = b"
  using mh_apart [OF assms(1-3)] assms(4,5) by (auto simp: mn_contains_def)

lemma mh_byte_in:
  assumes "mh_inv s" and "a \<in> set (mh_seq s)" and "mn_contains (node_at s a) x"
  shows "mh_byte s x = Some (mn_data (node_at s a) ! nat (x - mn_offset (node_at s a)))"
proof (cases "find (\<lambda>a. mn_contains (node_at s a) x) (mh_seq s)")
  case None
  then show ?thesis using assms(2,3) by (auto simp: find_None_iff)
next
  case (Some b)
  then have "b \<in> set (mh_seq s)" "mn_contains (node_at s b) x" by (auto simp: find_Some_iff)
  then have "b = a" using mh_contains_unique [OF assms(1)] assms(2,3) by blast
  then show ?thesis using Some by (simp add: mh_byte_def)
qed

lemma mh_byte_None: "mh_byte s x = None \<longleftrightarrow> (\<forall>a \<in> set (mh_seq s). \<not> mn_contains (node_at s a) x)"
proof -
  have "mh_byte s x = None \<longleftrightarrow> find (\<lambda>a. mn_contains (node_at s a) x) (mh_seq s) = None" by (simp add: mh_byte_def split: option.splits)
  then show ?thesis by (auto simp: find_None_iff)
qed

lemma mh_byte_Some: "mh_inv s \<Longrightarrow> mh_byte s x = Some c \<longleftrightarrow>
  (\<exists>a \<in> set (mh_seq s). mn_contains (node_at s a) x \<and> c = mn_data (node_at s a) ! nat (x - mn_offset (node_at s a)))"
  using mh_byte_in [of s _ x] mh_byte_None [of s x] by (metis option.distinct(1) option.inject)

lemma NodeCompare_probe:
  assumes "node_ok n"
  shows "NodeCompare (mem_probe x len) n =
    (if max x (mn_offset n) < min (x + int len) (mn_end n) then 0 else if x < mn_offset n then - 1 else 1)"
proof -
  have "min (x + int len) (mn_end n) - max x (mn_offset n) < 2 ^ 64" using node_ok_end_le [OF assms] by auto
  then have "(min (x + int len) (mn_end n) - max x (mn_offset n)) mod 2 ^ 64 = min (x + int len) (mn_end n) - max x (mn_offset n)"
    if "max x (mn_offset n) < min (x + int len) (mn_end n)" using that by (intro mod_pos_pos_trivial) simp_all
  moreover have "mn_end (mem_probe x len) = x + int len" "mn_offset (mem_probe x len) = x" by (simp_all add: mn_end_def mem_probe_def mem_node_new_def)
  ultimately show ?thesis
    by (simp add: NodeCompare_def range_size_def range_intersection_def http_range_of_def mn_dataRange_def)
qed

lemma mh_cuts:
  assumes "mh_inv s"
  shows "cuts (mh_cmp s (mem_probe x len)) (mh_seq s)"
  unfolding cuts_def
proof (rule sorted_wrt_mono_rel [OF _ mh_invD(6) [OF assms]])
  fix a b
  assume ab: "a \<in> set (mh_seq s)" "b \<in> set (mh_seq s)" "mn_end (node_at s a) \<le> mn_offset (node_at s b)"
  note ok = mh_invD(4) [OF assms ab(1)] mh_invD(4) [OF assms ab(2)]
  show "sgn (mh_cmp s (mem_probe x len) b) \<le> sgn (mh_cmp s (mem_probe x len) a)"
    using ab(3) node_ok_end [OF ok(1)] node_ok_end [OF ok(2)]
    by (auto simp: mh_cmp_def NodeCompare_probe ok)
qed

text \<open>Objects that differ only in the shape of the tree.\<close>

definition mh_same :: "mem_hdr \<Rightarrow> mem_hdr \<Rightarrow> bool" where
  "mh_same s s' \<longleftrightarrow> mh_seq s' = mh_seq s \<and> sp_elements (mh_nodes s') = sp_elements (mh_nodes s) \<and> mh_mem s' = mh_mem s \<and>
     mh_inmem_hi s' = mh_inmem_hi s"

lemma mh_same_refl [simp]: "mh_same s s"
  by (simp add: mh_same_def)

lemma mh_same_trans: "mh_same s s' \<Longrightarrow> mh_same s' s'' \<Longrightarrow> mh_same s s''"
  by (simp add: mh_same_def)

lemma mh_sameD: "mh_same s s' \<Longrightarrow> mh_inv s' = mh_inv s" "mh_same s s' \<Longrightarrow> mh_byte s' = mh_byte s"
  "mh_same s s' \<Longrightarrow> node_at s' = node_at s" "mh_same s s' \<Longrightarrow> mh_seq s' = mh_seq s"
proof -
  assume a: "mh_same s s'"
  then show n: "node_at s' = node_at s" by (auto simp: node_at_def mh_same_def)
  show "mh_seq s' = mh_seq s" using a by (simp add: mh_same_def)
  then show "mh_inv s' = mh_inv s" "mh_byte s' = mh_byte s" using a unfolding mh_inv_def mh_byte_def [abs_def] n by (simp_all add: mh_same_def)
qed

lemma mh_find_ok:
  assumes "mh_inv s" and "0 \<le> x"
  shows "\<exists>r s'. mh_find s (mem_probe x len) = Inr (r, s') \<and> mh_same s s' \<and>
    (case r of
       None \<Rightarrow> \<forall>a \<in> set (mh_seq s). mn_end (node_at s a) \<le> x \<or> x + int len \<le> mn_offset (node_at s a) \<or> len = 0
     | Some a \<Rightarrow> a \<in> set (mh_seq s) \<and> max x (mn_offset (node_at s a)) < min (x + int len) (mn_end (node_at s a)))"
proof -
  let ?c = "mh_cmp s (mem_probe x len)"
  obtain r t where f: "splay_find ?c (mh_nodes s) = (r, t)" by (cases "splay_find ?c (mh_nodes s)")
  have law: "splay_seq t = mh_seq s" "sp_elements t = sp_elements (mh_nodes s)"
      "case r of None \<Rightarrow> \<forall>a \<in> set (mh_seq s). ?c a \<noteq> 0 | Some a \<Rightarrow> a \<in> set (mh_seq s) \<and> ?c a = 0"
    using splay_find_law [of ?c "mh_nodes s", folded mh_seq_def, OF mh_cuts [OF assms(1)]] f by simp_all
  have off: "mn_offset (mem_probe x len) = x" by (simp add: mem_probe_def mem_node_new_def)
  have eq: "?c a = 0 \<longleftrightarrow> max x (mn_offset (node_at s a)) < min (x + int len) (mn_end (node_at s a))" if "a \<in> set (mh_seq s)" for a
    using NodeCompare_probe [OF mh_invD(4) [OF assms(1) that], of x len] by (auto simp: mh_cmp_def split: if_splits)
  have "mh_find s (mem_probe x len) = Inr (r, s\<lparr>mh_nodes := t\<rparr>)" using f assms(2) off by (simp add: mh_find_def)
  moreover have "mh_same s (s\<lparr>mh_nodes := t\<rparr>)" using law by (simp add: mh_same_def mh_seq_def)
  moreover have "case r of
       None \<Rightarrow> \<forall>a \<in> set (mh_seq s). mn_end (node_at s a) \<le> x \<or> x + int len \<le> mn_offset (node_at s a) \<or> len = 0
     | Some a \<Rightarrow> a \<in> set (mh_seq s) \<and> max x (mn_offset (node_at s a)) < min (x + int len) (mn_end (node_at s a))"
  proof (cases r)
    case None
    have "mn_end (node_at s a) \<le> x \<or> x + int len \<le> mn_offset (node_at s a) \<or> len = 0" if a: "a \<in> set (mh_seq s)" for a
    proof -
      have "\<not> max x (mn_offset (node_at s a)) < min (x + int len) (mn_end (node_at s a))" using eq [OF a] law(3) None a by auto
      then show ?thesis using node_ok_end [OF mh_invD(4) [OF assms(1) a]] by linarith
    qed
    then show ?thesis using None by simp
  next
    case (Some a)
    then show ?thesis using law(3) eq [of a] by auto
  qed
  ultimately show ?thesis by blast
qed

lemma getBlock_ok:
  assumes "mh_inv s" and "0 \<le> x"
  shows "\<exists>r s'. getBlockContainingLocation s x = Inr (r, s') \<and> mh_same s s' \<and>
    (case r of None \<Rightarrow> mh_byte s x = None | Some a \<Rightarrow> a \<in> set (mh_seq s) \<and> mn_contains (node_at s a) x)"
proof -
  obtain r s' where f: "mh_find s (mem_probe x 1) = Inr (r, s')" "mh_same s s'"
    "case r of None \<Rightarrow> \<forall>a \<in> set (mh_seq s). mn_end (node_at s a) \<le> x \<or> x + int 1 \<le> mn_offset (node_at s a) \<or> (1 :: nat) = 0
     | Some a \<Rightarrow> a \<in> set (mh_seq s) \<and> max x (mn_offset (node_at s a)) < min (x + int 1) (mn_end (node_at s a))"
    using mh_find_ok [OF assms, of 1] by blast
  have "case r of None \<Rightarrow> mh_byte s x = None | Some a \<Rightarrow> a \<in> set (mh_seq s) \<and> mn_contains (node_at s a) x"
    using f(3) by (cases r) (auto simp: mh_byte_None mn_contains_def)
  then show ?thesis using f(1,2) unfolding getBlockContainingLocation_def by blast
qed

section \<open>Writing\<close>

definition overlay :: "(int \<Rightarrow> char option) \<Rightarrow> int \<Rightarrow> string \<Rightarrow> int \<Rightarrow> char option" where
  "overlay f off d x = (if off \<le> x \<and> x < off + int (length d) then Some (d ! nat (x - off)) else f x)"

definition absent :: "mem_hdr \<Rightarrow> int \<Rightarrow> nat \<Rightarrow> bool" where
  "absent s off len \<longleftrightarrow> (\<forall>x. off \<le> x \<and> x < off + int len \<longrightarrow> mh_byte s x = None)"

lemma overlay_append: "overlay (overlay f off (take n d)) (off + int n) (drop n d) = overlay f off d" if "n \<le> length d"
proof
  fix x
  have "nat (x - off) = n + nat (x - (off + int n))" if "off + int n \<le> x" using that by simp
  then show "overlay (overlay f off (take n d)) (off + int n) (drop n d) x = overlay f off d x"
    using that by (auto simp: overlay_def)
qed

lemma absent_start:
  assumes "mh_inv s" and "absent s off len" and "a \<in> set (mh_seq s)" and "off \<le> mn_offset (node_at s a)"
  shows "off + int len \<le> mn_offset (node_at s a)"
proof -
  have "mn_contains (node_at s a) (mn_offset (node_at s a))" using node_ok_end [OF mh_invD(4) [OF assms(1,3)]] by (simp add: mn_contains_def)
  then have "mh_byte s (mn_offset (node_at s a)) \<noteq> None" using mh_byte_in [OF assms(1,3)] by simp
  then show ?thesis using assms(2,4) by (force simp: absent_def)
qed

text \<open>The bytes of an object in which one page has got new bytes at its end.\<close>

lemma mh_byte_grown:
  assumes inv: "mh_inv s" "mh_inv s'" and a: "a \<in> set (mh_seq s')" and seq: "set (mh_seq s') = insert a (set (mh_seq s))"
    and other: "\<And>b. b \<noteq> a \<Longrightarrow> node_at s' b = node_at s b"
    and old: "a \<in> set (mh_seq s) \<Longrightarrow> node_at s a = n" and new: "a \<notin> set (mh_seq s) \<Longrightarrow> mn_data n = []"
    and n': "node_at s' a = n\<lparr>mn_data := mn_data n @ d\<rparr>" and off: "off = mn_end n"
  shows "mh_byte s' = overlay (mh_byte s) off d"
proof
  fix x
  have n'': "mn_offset (node_at s' a) = mn_offset n" "mn_end (node_at s' a) = off + int (length d)" using n' off by (simp_all add: mn_end_def)
  show "mh_byte s' x = overlay (mh_byte s) off d x"
  proof (cases "off \<le> x \<and> x < off + int (length d)")
    case True
    have "nat (x - mn_offset n) = length (mn_data n) + nat (x - off)" using True unfolding off mn_end_def by arith
    moreover have "mn_contains (node_at s' a) x" using True n'' off by (simp add: mn_contains_def mn_end_def)
    ultimately show ?thesis using mh_byte_in [OF inv(2) a] True n' by (simp add: overlay_def nth_append)
  next
    case out: False
    have same: "mn_contains (node_at s' b) x \<longleftrightarrow> mn_contains (node_at s b) x" if "b \<in> set (mh_seq s)" for b
      using other [of b] old that n'' out off by (cases "b = a") (auto simp: mn_contains_def mn_end_def)
    have na: "\<not> mn_contains (node_at s' a) x" if "a \<notin> set (mh_seq s)" using new [OF that] n'' out off by (auto simp: mn_contains_def mn_end_def)
    show ?thesis
    proof (cases "mh_byte s x")
      case None
      then have "\<forall>b \<in> set (mh_seq s'). \<not> mn_contains (node_at s' b) x" using mh_byte_None [of s x] same na seq by auto
      then have "mh_byte s' x = None" by (simp add: mh_byte_None)
      then show ?thesis using None out by (simp add: overlay_def)
    next
      case (Some c)
      then obtain b where b: "b \<in> set (mh_seq s)" "mn_contains (node_at s b) x" "c = mn_data (node_at s b) ! nat (x - mn_offset (node_at s b))"
        using mh_byte_Some [OF inv(1)] by blast
      have b': "b \<in> set (mh_seq s')" "mn_contains (node_at s' b) x" using b seq same by auto
      have "mn_data (node_at s' b) ! nat (x - mn_offset (node_at s' b)) = c"
      proof (cases "b = a")
        case True
        then have "node_at s b = n" using old b(1) by simp
        moreover have "nat (x - mn_offset n) < length (mn_data n)" using b(2) calculation by (auto simp: mn_contains_def mn_end_def)
        ultimately show ?thesis using b(3) True n' by (simp add: nth_append)
      qed (use b other in simp)
      then show ?thesis using mh_byte_in [OF inv(2) b'] Some out by (auto simp: overlay_def)
    qed
  qed
qed

lemma write_existing:
  assumes inv: "mh_inv s" and a: "a \<in> set (mh_seq s)" and acc: "mn_canAccept (node_at s a) off" and src: "src \<noteq> []"
    and abs: "absent s off (length src)"
  shows "\<exists>n s'. writeAvailable s a off src = Inr (n, s') \<and> 0 < n \<and> n \<le> length src \<and> mh_inv s' \<and>
    mh_byte s' = overlay (mh_byte s) off (take n src)"
proof -
  let ?nd = "node_at s a"
  define n where "n = min (length src) (mn_space ?nd)"
  have ok: "node_ok ?nd" and off: "off = mn_end ?nd" using mh_invD(4) [OF inv a] acc by (simp_all add: mn_canAccept_def)
  have n: "0 < n" "n \<le> length src" "n \<le> mn_space ?nd" using src acc by (auto simp: n_def mn_canAccept_def)
  let ?nd' = "?nd\<lparr>mn_data := mn_data ?nd @ take n src\<rparr>"
  define s' where "s' = s\<lparr>mh_inmem_hi := (if mh_inmem_hi s \<le> off then off + int n else mh_inmem_hi s), mh_mem := (mh_mem s)(a \<mapsto> ?nd')\<rparr>"
  have w: "writeAvailable s a off src = Inr (n, s')"
    using mh_invD(5) [OF inv a] acc off by (simp add: writeAvailable_def s'_def n_def Let_def)
  have nd': "node_at s' = (node_at s)(a := ?nd')" and seq: "mh_seq s' = mh_seq s" by (auto simp: s'_def node_at_def mh_seq_def)
  have e': "mn_end ?nd' = off + int n" "mn_offset ?nd' = mn_offset ?nd" using n(2) off by (simp_all add: mn_end_def)
  have "sorted_wrt (\<lambda>x y. mn_end (node_at s' x) \<le> mn_offset (node_at s' y)) (mh_seq s)"
  proof (rule sorted_wrt_mono_rel [OF _ mh_invD(6) [OF inv]])
    fix x y
    assume xy: "x \<in> set (mh_seq s)" "y \<in> set (mh_seq s)" "mn_end (node_at s x) \<le> mn_offset (node_at s y)"
    have "off + int n \<le> mn_offset (node_at s y)" if "x = a"
      using absent_start [OF inv abs xy(2)] xy(3) that off n(2) by simp
    moreover have "x = a \<Longrightarrow> y \<noteq> a" using xy(3) node_ok_end [OF ok] by auto
    ultimately show "mn_end (node_at s' x) \<le> mn_offset (node_at s' y)" using xy(3) nd' e' by auto
  qed
  moreover have "node_ok ?nd'" using ok n(3) by (auto simp: node_ok_def mn_space_def)
  moreover have "mh_inmem_hi s' = mn_end (node_at s' (last (mh_seq s)))"
  proof (cases "a = last (mh_seq s)")
    case True
    then show ?thesis using inv a nd' e'(1) off by (auto simp: s'_def mh_inv_def)
  next
    case False
    have l: "last (mh_seq s) \<in> set (mh_seq s)" using a by (intro last_in_set) auto
    have "off \<le> mn_offset (node_at s (last (mh_seq s)))"
    proof -
      obtain us ws where sp: "mh_seq s = us @ a # ws" using split_list [OF a] by blast
      then have "ws \<noteq> []" using False by auto
      then show ?thesis using mh_invD(6) [OF inv] off sp by (simp add: sorted_wrt_append)
    qed
    then have "off < mn_end (node_at s (last (mh_seq s)))" using node_ok_end [OF mh_invD(4) [OF inv l]] by simp
    then show ?thesis using inv a nd' False by (auto simp: s'_def mh_inv_def)
  qed
  moreover have "dom (mh_mem s') = set (mh_seq s)" using mh_invD(3) [OF inv] a by (auto simp: s'_def)
  ultimately have inv': "mh_inv s'" using inv a unfolding mh_inv_def seq by (auto simp: nd') (auto simp: s'_def)
  have "mh_byte s' = overlay (mh_byte s) off (take n src)"
    by (rule mh_byte_grown [OF inv inv', of a ?nd]) (use a seq nd' off in auto)
  then show ?thesis using w n inv' by blast
qed

lemma filter_split_sorted:
  "sorted_wrt R xs \<Longrightarrow> (\<And>x y. x \<in> set xs \<Longrightarrow> y \<in> set xs \<Longrightarrow> R x y \<Longrightarrow> p y \<Longrightarrow> p x) \<Longrightarrow> xs = filter p xs @ filter (\<lambda>x. \<not> p x) xs"
proof (induction xs)
  case (Cons x xs)
  have IH: "xs = filter p xs @ filter (\<lambda>x. \<not> p x) xs" using Cons by (metis list.set_intros(2) sorted_wrt.simps(2))
  show ?case
  proof (cases "p x")
    case True
    then show ?thesis using IH by simp
  next
    case False
    then have "\<forall>y \<in> set xs. \<not> p y" using Cons.prems by fastforce
    then show ?thesis using False by simp
  qed
qed simp

lemma appendNode_ok:
  assumes fresh: "fresh_alloc alloc" and inv: "mh_inv s" and off: "0 \<le> off" and none: "mh_byte s off = None"
  shows "\<exists>a s' P N. appendNode alloc s off = Inr (a, s') \<and> a \<notin> set (mh_seq s) \<and> mh_seq s = P @ N \<and> mh_seq s' = P @ a # N \<and>
    (\<forall>b \<in> set P. mn_end (node_at s b) \<le> off) \<and> (\<forall>b \<in> set N. off < mn_offset (node_at s b)) \<and>
    mh_mem s' = (mh_mem s)(a \<mapsto> mem_node_new off) \<and> mh_inmem_hi s' = mh_inmem_hi s \<and>
    sp_elements (mh_nodes s') = sp_elements (mh_nodes s) + 1"
proof -
  define a where "a = alloc (dom (mh_mem s))"
  have fin: "finite (dom (mh_mem s))" using mh_invD(3) [OF inv] by simp
  then have "a \<notin> dom (mh_mem s)" using fresh by (simp add: fresh_alloc_def a_def)
  then have a: "a \<notin> set (mh_seq s)" using mh_invD(3) [OF inv] by simp
  let ?s1 = "s\<lparr>mh_mem := (mh_mem s)(a \<mapsto> mem_node_new off)\<rparr>" and ?p = "\<lambda>b. mn_offset (node_at s b) \<le> off"
  let ?c = "mh_cmp ?s1 (mem_node_new off)"
  have pr: "mem_probe off 0 = mem_node_new off" by (simp add: mem_probe_def mem_node_new_def)
  have nd: "node_at ?s1 b = node_at s b" if "b \<in> set (mh_seq s)" for b using that a by (auto simp: node_at_def)
  have c: "?c b = mh_cmp s (mem_probe off 0) b" "?c b = (if ?p b then 1 else - 1)" if "b \<in> set (mh_seq s)" for b
    using nd [OF that] NodeCompare_probe [OF mh_invD(4) [OF inv that], of off 0] pr by (auto simp: mh_cmp_def)
  have "cuts ?c (mh_seq s)"
    using mh_cuts [OF inv, of off 0] unfolding cuts_def by (rule sorted_wrt_mono_rel [rotated]) (use c(1) in auto)
  obtain t where t: "splay_insert ?c a (mh_nodes s) = Inr t" "sp_elements t = sp_elements (mh_nodes s) + 1"
      "splay_seq t = filter (\<lambda>x. 0 < ?c x) (mh_seq s) @ a # filter (\<lambda>x. ?c x < 0) (mh_seq s)"
  proof -
    have "\<forall>x \<in> set (mh_seq s). ?c x \<noteq> 0" using c(2) by simp
    from splay_insert_law [of ?c "mh_nodes s" a, folded mh_seq_def, OF \<open>cuts ?c (mh_seq s)\<close> this] show thesis using that by (elim exE conjE)
  qed
  have f: "filter (\<lambda>x. 0 < ?c x) (mh_seq s) = filter ?p (mh_seq s)" "filter (\<lambda>x. ?c x < 0) (mh_seq s) = filter (\<lambda>x. \<not> ?p x) (mh_seq s)"
    using c(2) by (auto intro!: filter_cong split: if_splits)
  have ap: "appendNode alloc s off = Inr (a, ?s1\<lparr>mh_nodes := t\<rparr>)"
    using t(1) off by (simp add: appendNode_def a_def [symmetric] Let_def)
  have "mh_seq s = filter ?p (mh_seq s) @ filter (\<lambda>x. \<not> ?p x) (mh_seq s)"
  proof (rule filter_split_sorted [OF mh_invD(6) [OF inv]])
    fix x y
    assume "x \<in> set (mh_seq s)" "mn_end (node_at s x) \<le> mn_offset (node_at s y)" "?p y"
    then show "?p x" using node_ok_end [OF mh_invD(4) [OF inv, of x]] by simp
  qed
  moreover have "mn_end (node_at s b) \<le> off" if "b \<in> set (filter ?p (mh_seq s))" for b
    using that none by (auto simp: mh_byte_None mn_contains_def)
  moreover have "mh_seq (?s1\<lparr>mh_nodes := t\<rparr>) = filter ?p (mh_seq s) @ a # filter (\<lambda>x. \<not> ?p x) (mh_seq s)" using t(3) f by (simp add: mh_seq_def)
  ultimately show ?thesis using ap a t(2)
    by (intro exI [of _ a] exI [of _ "?s1\<lparr>mh_nodes := t\<rparr>"] exI [of _ "filter ?p (mh_seq s)"] exI [of _ "filter (\<lambda>x. \<not> ?p x) (mh_seq s)"]) auto
qed

lemma write_new:
  assumes fresh: "fresh_alloc alloc" and inv: "mh_inv s" and off: "0 \<le> off" and src: "src \<noteq> []" and abs: "absent s off (length src)"
  shows "\<exists>a s1 n s'. appendNode alloc s off = Inr (a, s1) \<and> (mh_seq s = [] \<longrightarrow> mh_seq s1 = [a]) \<and> writeAvailable s1 a off src = Inr (n, s') \<and>
    0 < n \<and> n \<le> length src \<and> mh_inv s' \<and> mh_byte s' = overlay (mh_byte s) off (take n src)"
proof -
  have "mh_byte s off = None" using abs src by (simp add: absent_def)
  then obtain a s1 P N where A: "appendNode alloc s off = Inr (a, s1)" "a \<notin> set (mh_seq s)" "mh_seq s = P @ N" "mh_seq s1 = P @ a # N"
      "\<forall>b \<in> set P. mn_end (node_at s b) \<le> off" "\<forall>b \<in> set N. off < mn_offset (node_at s b)"
      "mh_mem s1 = (mh_mem s)(a \<mapsto> mem_node_new off)" "mh_inmem_hi s1 = mh_inmem_hi s" "sp_elements (mh_nodes s1) = sp_elements (mh_nodes s) + 1"
    using appendNode_ok [OF fresh inv off] by blast
  define n where "n = min (length src) SM_PAGE_SIZE"
  have n: "0 < n" "n \<le> length src" "n \<le> SM_PAGE_SIZE" using src by (auto simp: n_def SM_PAGE_SIZE_def)
  let ?nd = "(mem_node_new off)\<lparr>mn_data := take n src\<rparr>"
  define s' where "s' = s1\<lparr>mh_inmem_hi := (if mh_inmem_hi s1 \<le> off then off + int n else mh_inmem_hi s1), mh_mem := (mh_mem s1)(a \<mapsto> ?nd)\<rparr>"
  have w: "writeAvailable s1 a off src = Inr (n, s')"
    using A(7) n by (simp add: writeAvailable_def s'_def n_def Let_def mem_node_new_def mn_end_def mn_canAccept_def mn_space_def)
  have nd: "node_at s' a = ?nd" "\<And>b. b \<noteq> a \<Longrightarrow> node_at s' b = node_at s b" and seq: "mh_seq s' = P @ a # N"
    using A(4,7) by (auto simp: s'_def node_at_def mh_seq_def)
  have old: "node_at s' b = node_at s b" if "b \<in> set (P @ N)" for b using nd(2) that A(2,3) by metis
  have e: "mn_offset ?nd = off" "mn_end ?nd = off + int n" using n(2) by (simp_all add: mem_node_new_def mn_end_def)
  have N: "off + int n \<le> mn_offset (node_at s b)" if "b \<in> set N" for b
  proof -
    have "b \<in> set (mh_seq s)" "off \<le> mn_offset (node_at s b)" using that A(3,6) by auto
    from absent_start [OF inv abs this] show ?thesis using n(2) by simp
  qed
  have srt: "sorted_wrt (\<lambda>x y. mn_end (node_at s x) \<le> mn_offset (node_at s y)) (P @ N)" using mh_invD(6) [OF inv] A(3) by simp
  have "sorted_wrt (\<lambda>x y. mn_end (node_at s' x) \<le> mn_offset (node_at s' y)) (P @ N)"
    by (rule sorted_wrt_mono_rel [OF _ srt]) (simp add: old)
  moreover have "\<forall>x \<in> set P. mn_end (node_at s' x) \<le> off" "\<forall>y \<in> set N. off + int n \<le> mn_offset (node_at s' y)"
    using A(5) N by (auto simp: old)
  ultimately have "sorted_wrt (\<lambda>x y. mn_end (node_at s' x) \<le> mn_offset (node_at s' y)) (P @ a # N)"
    using e nd(1) by (auto simp: sorted_wrt_append)
  moreover have "node_ok ?nd" using off n src by (auto simp: node_ok_def mem_node_new_def)
  then have "\<forall>b \<in> set (P @ a # N). node_ok (node_at s' b)" using nd(1) old mh_invD(4) [OF inv] A(3) by auto
  moreover have "mh_inmem_hi s' = mn_end (node_at s' (last (P @ a # N)))"
  proof (cases "N = []")
    case True
    then have "mh_inmem_hi s \<le> off" using inv A(3,5) off by (auto simp: mh_inv_def)
    then show ?thesis using True nd(1) e(2) A(8) by (simp add: s'_def)
  next
    case False
    have l: "last N \<in> set (mh_seq s)" "last N \<in> set N" using False A(3) by auto
    have hi: "mh_inmem_hi s = mn_end (node_at s (last N))" using inv A(3) False by (simp add: mh_inv_def)
    moreover have "off < mn_end (node_at s (last N))" using node_ok_end [OF mh_invD(4) [OF inv l(1)]] A(6) l(2) by fastforce
    moreover have "node_at s' (last N) = node_at s (last N)" using old l(2) by simp
    ultimately show ?thesis using False A(8) by (simp add: s'_def)
  qed
  moreover have "sp_elements (mh_nodes s') = length (P @ a # N)" using A(3,9) mh_invD(1) [OF inv] by (simp add: s'_def)
  moreover have "distinct (P @ a # N)" using mh_invD(2) [OF inv] A(2,3) by auto
  moreover have "dom (mh_mem s') = set (P @ a # N)" using mh_invD(3) [OF inv] A(3,7) by (auto simp: s'_def)
  ultimately have inv': "mh_inv s'" unfolding mh_inv_def seq by simp
  have "mh_byte s' = overlay (mh_byte s) off (take n src)"
    by (rule mh_byte_grown [OF inv inv', of a "mem_node_new off"])
      (use A(2,3) seq nd in \<open>auto simp: mem_node_new_def mn_end_def\<close>)
  then show ?thesis using A(1,3,4) w n inv' by (intro exI [of _ a] exI [of _ s1] exI [of _ n] exI [of _ s']) auto
qed

lemma absent_same: "mh_same s s' \<Longrightarrow> absent s' off len = absent s off len"
  by (simp add: absent_def mh_sameD)

lemma write_step:
  assumes fresh: "fresh_alloc alloc" and inv: "mh_inv s" and off: "0 \<le> off" and src: "src \<noteq> []" and abs: "absent s off (length src)"
  shows "\<exists>a s1 n s'. nodeToRecieve alloc s off = Inr (a, s1) \<and> writeAvailable s1 a off src = Inr (n, s') \<and>
    0 < n \<and> n \<le> length src \<and> mh_inv s' \<and> mh_byte s' = overlay (mh_byte s) off (take n src)"
proof (cases "sp_elements (mh_nodes s) = 0")
  case True
  then have e: "mh_seq s = []" using mh_invD(1) [OF inv] by simp
  obtain a s1 n s' where w: "appendNode alloc s off = Inr (a, s1)" "mh_seq s1 = [a]" "writeAvailable s1 a off src = Inr (n, s')"
      "0 < n" "n \<le> length src" "mh_inv s'" "mh_byte s' = overlay (mh_byte s) off (take n src)"
    using write_new [OF fresh inv off src abs] e by auto
  moreover have "splay_start (mh_nodes s1) = Some a" using w(2) by (simp add: splay_start_law mh_seq_def)
  ultimately show ?thesis using True by (simp add: nodeToRecieve_def)
next
  case False
  obtain r s1 where f: "(if off > 0 then mh_find s (mem_probe (off - 1) 1) else Inr (None, s)) = Inr (r, s1)" "mh_same s s1"
      "\<forall>a. r = Some a \<longrightarrow> a \<in> set (mh_seq s)"
  proof (cases "off > 0")
    case True
    then show thesis using that mh_find_ok [OF inv, of "off - 1" 1] by (force split: option.splits)
  next
    case False
    then show thesis using that [of None s] by simp
  qed
  note same = mh_sameD [OF f(2)]
  have inv1: "mh_inv s1" and abs1: "absent s1 off (length src)" using inv abs same absent_same [OF f(2)] by simp_all
  show ?thesis
  proof (cases "\<exists>a. r = Some a \<and> mn_canAccept (node_at s1 a) off")
    case True
    then obtain a where a: "r = Some a" "mn_canAccept (node_at s1 a) off" by blast
    then have "a \<in> set (mh_seq s1)" using f(3) same by simp
    from write_existing [OF inv1 this a(2) src abs1] show ?thesis
      using False f(1) a same by (simp add: nodeToRecieve_def)
  next
    case no: False
    then have "nodeToRecieve alloc s off = appendNode alloc s1 off"
      using False f(1) by (cases r) (auto simp: nodeToRecieve_def)
    then show ?thesis using write_new [OF fresh inv1 off src abs1] same by auto
  qed
qed

lemma write_loop_ok:
  assumes "fresh_alloc alloc" and "mh_inv s" and "0 \<le> off" and "absent s off (length src)"
  shows "\<exists>s'. write_loop alloc s off src = Inr s' \<and> mh_inv s' \<and> mh_byte s' = overlay (mh_byte s) off src"
  using assms(2-4)
proof (induction "length src" arbitrary: s off src rule: less_induct)
  case less
  show ?case
  proof (cases "src = []")
    case True
    have "overlay (mh_byte s) off [] = mh_byte s" by (auto simp: overlay_def fun_eq_iff)
    then show ?thesis using True less.prems by (subst write_loop.simps) simp
  next
    case False
    obtain a s1 n s2 where w: "nodeToRecieve alloc s off = Inr (a, s1)" "writeAvailable s1 a off src = Inr (n, s2)"
        "0 < n" "n \<le> length src" "mh_inv s2" "mh_byte s2 = overlay (mh_byte s) off (take n src)"
      using write_step [OF assms(1) less.prems(1,2) False less.prems(3)] by blast
    have "absent s2 (off + int n) (length (drop n src))"
      using less.prems(3) w(4,6) by (auto simp: absent_def overlay_def)
    then obtain s' where "write_loop alloc s2 (off + int n) (drop n src) = Inr s'" "mh_inv s'"
        "mh_byte s' = overlay (mh_byte s2) (off + int n) (drop n src)"
      using less.hyps [of "drop n src" s2 "off + int n"] w(3,4,5) less.prems(2) False by auto
    then show ?thesis using w(1,2,3) False overlay_append [OF w(4)] w(6) by (subst write_loop.simps) simp
  qed
qed

section \<open>Reading\<close>

text \<open>The bytes from an offset on, as far as they are there, at most \<open>n\<close>.\<close>

fun byte_run :: "(int \<Rightarrow> char option) \<Rightarrow> int \<Rightarrow> nat \<Rightarrow> string" where
  "byte_run f x 0 = []"
| "byte_run f x (Suc n) = (case f x of None \<Rightarrow> [] | Some c \<Rightarrow> c # byte_run f (x + 1) n)"

lemma byte_run_append:
  "(\<forall>i < length d. f (x + int i) = Some (d ! i)) \<Longrightarrow> byte_run f x (length d + n) = d @ byte_run f (x + int (length d)) n"
proof (induction d arbitrary: x)
  case (Cons c d)
  have "f x = Some c" using Cons.prems [rule_format, of 0] by simp
  moreover have "\<forall>i < length d. f (x + 1 + int i) = Some (d ! i)"
  proof (intro allI impI)
    fix i
    assume "i < length d"
    then show "f (x + 1 + int i) = Some (d ! i)" using Cons.prems [rule_format, of "Suc i"] by (simp add: algebra_simps)
  qed
  ultimately show ?case using Cons.IH [of "x + 1"] by (simp add: algebra_simps)
qed simp

lemma node_bytes:
  assumes "mh_inv s" and "a \<in> set (mh_seq s)" and "mn_contains (node_at s a) x" and "len > 0"
  shows "\<exists>b. copyAvailable s a x len = Inr b \<and> b \<noteq> [] \<and> length b \<le> len \<and> (\<forall>i < length b. mh_byte s (x + int i) = Some (b ! i))"
proof -
  let ?n = "node_at s a" and ?o = "nat (x - mn_offset (node_at s a))"
  define b where "b = take (min len (length (mn_data ?n) - ?o)) (drop ?o (mn_data ?n))"
  have c: "mn_offset ?n \<le> x" "x < mn_end ?n" using assms(3) by (simp_all add: mn_contains_def)
  then have o: "?o < length (mn_data ?n)" by (simp add: mn_end_def nat_less_iff)
  have "copyAvailable s a x len = Inr b" using c by (simp add: copyAvailable_def Let_def b_def)
  moreover have "b \<noteq> []" "length b \<le> len" using o assms(4) by (auto simp: b_def)
  moreover have "mh_byte s (x + int i) = Some (b ! i)" if i: "i < length b" for i
  proof -
    have l: "?o + i < length (mn_data ?n)" using i o by (auto simp: b_def)
    then have "mn_contains ?n (x + int i)" using c by (simp add: mn_contains_def mn_end_def)
    moreover have "nat (x + int i - mn_offset ?n) = ?o + i" using c by simp
    moreover have "b ! i = mn_data ?n ! (?o + i)" using i o by (simp add: b_def)
    ultimately show ?thesis using mh_byte_in [OF assms(1,2)] by simp
  qed
  ultimately show ?thesis by blast
qed

lemma copy_loop_ok:
  assumes "mh_inv s" and "0 \<le> x" and "case p of None \<Rightarrow> mh_byte s x = None | Some a \<Rightarrow> a \<in> set (mh_seq s) \<and> mn_contains (node_at s a) x"
  shows "\<exists>s'. copy_loop s p x len = Inr (byte_run (mh_byte s) x len, s') \<and> mh_same s s'"
  using assms
proof (induction len arbitrary: s p x rule: less_induct)
  case (less len)
  show ?case
  proof (cases p)
    case None
    then show ?thesis using less.prems(3) by (subst copy_loop.simps, cases len) auto
  next
    case (Some a)
    show ?thesis
    proof (cases "len = 0")
      case True
      then show ?thesis using Some by (subst copy_loop.simps) simp
    next
      case False
      obtain b where b: "copyAvailable s a x len = Inr b" "b \<noteq> []" "length b \<le> len" "\<forall>i < length b. mh_byte s (x + int i) = Some (b ! i)"
        using node_bytes [OF less.prems(1), of a x len] less.prems(3) Some False by auto
      obtain p' s1 where g: "getBlockContainingLocation s (x + int (length b)) = Inr (p', s1)" "mh_same s s1"
          "case p' of None \<Rightarrow> mh_byte s (x + int (length b)) = None
           | Some a \<Rightarrow> a \<in> set (mh_seq s) \<and> mn_contains (node_at s a) (x + int (length b))"
        using getBlock_ok [OF less.prems(1), of "x + int (length b)"] less.prems(2) by auto
      note same = mh_sameD [OF g(2)]
      have "\<exists>s'. copy_loop s1 p' (x + int (length b)) (len - length b) = Inr (byte_run (mh_byte s1) (x + int (length b)) (len - length b), s') \<and> mh_same s1 s'"
      proof (rule less.IH)
        show "len - length b < len" using b(2) False by simp
        show "mh_inv s1" "0 \<le> x + int (length b)" using less.prems(1,2) same by simp_all
        show "case p' of None \<Rightarrow> mh_byte s1 (x + int (length b)) = None
           | Some a \<Rightarrow> a \<in> set (mh_seq s1) \<and> mn_contains (node_at s1 a) (x + int (length b))" unfolding same by (rule g(3))
      qed
      then obtain s' where "copy_loop s1 p' (x + int (length b)) (len - length b) = Inr (byte_run (mh_byte s1) (x + int (length b)) (len - length b), s')"
          "mh_same s1 s'" by blast
      moreover have "byte_run (mh_byte s) x len = b @ byte_run (mh_byte s) (x + int (length b)) (len - length b)"
        using byte_run_append [OF b(4), of "len - length b"] b(3) by simp
      ultimately show ?thesis using mh_same_trans [OF g(2)] by (subst copy_loop.simps) (simp add: Some False b(1,2) g(1) same)
    qed
  qed
qed

lemma contig_loop_ok:
  assumes "mh_inv s" and "0 \<le> x" and "nat (e - x) < fuel"
  shows "\<exists>s'. contig_loop fuel s x e = Inr ((\<forall>y. x \<le> y \<and> (y < e \<or> y = x) \<longrightarrow> mh_byte s y \<noteq> None), s') \<and> mh_same s s'"
  using assms
proof (induction fuel arbitrary: s x)
  case 0
  then show ?case by simp
next
  case (Suc fuel)
  obtain r s1 where g: "getBlockContainingLocation s x = Inr (r, s1)" "mh_same s s1"
      "case r of None \<Rightarrow> mh_byte s x = None | Some a \<Rightarrow> a \<in> set (mh_seq s) \<and> mn_contains (node_at s a) x"
    using getBlock_ok [OF Suc.prems(1,2)] by blast
  note same = mh_sameD [OF g(2)]
  show ?case
  proof (cases r)
    case None
    then have "\<not> (\<forall>y. x \<le> y \<and> (y < e \<or> y = x) \<longrightarrow> mh_byte s y \<noteq> None)" using g(3) by auto
    then show ?thesis using None g(1,2) by simp
  next
    case (Some a)
    let ?n = "node_at s a"
    have a: "a \<in> set (mh_seq s)" "mn_offset ?n \<le> x" "x < mn_end ?n" using g(3) Some by (simp_all add: mn_contains_def)
    have here: "mh_byte s y \<noteq> None" if "x \<le> y" "y < mn_end ?n" for y
    proof -
      have "mn_contains ?n y" using that a(2) by (simp add: mn_contains_def)
      then show ?thesis using mh_byte_in [OF Suc.prems(1) a(1)] by simp
    qed
    show ?thesis
    proof (cases "mn_end ?n \<ge> e")
      case True
      then have "\<forall>y. x \<le> y \<and> (y < e \<or> y = x) \<longrightarrow> mh_byte s y \<noteq> None" using here a(3) by auto
      then show ?thesis using True Some g(1,2) same by simp
    next
      case False
      have lt: "nat (e - mn_end ?n) < fuel" using Suc.prems(3) a(3) False by linarith
      have ge: "0 \<le> mn_end ?n" using Suc.prems(2) a(3) by simp
      have inv1: "mh_inv s1" using Suc.prems(1) same by simp
      obtain s' where r: "contig_loop fuel s1 (mn_end ?n) e = Inr ((\<forall>y. mn_end ?n \<le> y \<and> (y < e \<or> y = mn_end ?n) \<longrightarrow> mh_byte s1 y \<noteq> None), s')" "mh_same s1 s'"
        using Suc.IH [OF inv1 ge lt] by (elim exE conjE)
      have "(\<forall>y. mn_end ?n \<le> y \<and> (y < e \<or> y = mn_end ?n) \<longrightarrow> mh_byte s y \<noteq> None) \<longleftrightarrow> (\<forall>y. x \<le> y \<and> (y < e \<or> y = x) \<longrightarrow> mh_byte s y \<noteq> None)"
      proof (intro iffI allI impI)
        fix y
        assume "\<forall>y. mn_end ?n \<le> y \<and> (y < e \<or> y = mn_end ?n) \<longrightarrow> mh_byte s y \<noteq> None" and y: "x \<le> y \<and> (y < e \<or> y = x)"
        then show "mh_byte s y \<noteq> None" using here [of y] a(3) by (cases "y < mn_end ?n") auto
      next
        fix y
        assume all: "\<forall>y. x \<le> y \<and> (y < e \<or> y = x) \<longrightarrow> mh_byte s y \<noteq> None" and y: "mn_end ?n \<le> y \<and> (y < e \<or> y = mn_end ?n)"
        have "x \<le> y" "y < e" using y a(3) False by auto
        then show "mh_byte s y \<noteq> None" using all by simp
      qed
      then show ?thesis using r mh_same_trans [OF g(2) r(2)] False Some g(1) same by simp
    qed
  qed
qed

section \<open>Freeing\<close>

lemma mh_lowestOffset_seq: "mh_lowestOffset s = (case mh_seq s of [] \<Rightarrow> 0 | a # _ \<Rightarrow> mn_offset (node_at s a))"
  by (cases "mh_seq s") (simp_all add: mh_lowestOffset_def splay_start_law mh_seq_def)

lemma mh_unlink_first:
  assumes inv: "mh_inv s" and seq: "mh_seq s = a # rest" "rest \<noteq> []" and np: "\<not> mn_write_pending (node_at s a)"
  shows "\<exists>s'. mh_unlink s a = Inr (True, s') \<and> mh_seq s' = rest \<and> mh_inv s' \<and> mh_inmem_hi s' = mh_inmem_hi s \<and>
    (\<forall>b \<in> set rest. node_at s' b = node_at s b) \<and>
    mh_byte s' = (\<lambda>x. if x < mn_end (node_at s a) then None else mh_byte s x)"
proof -
  let ?n = "node_at s a"
  let ?c = "mh_cmp s ?n"
  have ain: "a \<in> set (mh_seq s)" using seq by simp
  have ok: "node_ok ?n" by (rule mh_invD(4) [OF inv ain])
  have pr: "?c = mh_cmp s (mem_probe (mn_offset ?n) (length (mn_data ?n)))"
    by (simp add: fun_eq_iff mh_cmp_def NodeCompare_def mem_probe_def mem_node_new_def mn_dataRange_def mn_end_def)
  have cut: "cuts ?c (mh_seq s)" unfolding pr by (rule mh_cuts [OF inv])
  have pe: "mn_offset ?n + int (length (mn_data ?n)) = mn_end ?n" by (simp add: mn_end_def)
  have c: "?c b = 0 \<longleftrightarrow> max (mn_offset ?n) (mn_offset (node_at s b)) < min (mn_end ?n) (mn_end (node_at s b))" if "b \<in> set (mh_seq s)" for b
    unfolding pr mh_cmp_def NodeCompare_probe [OF mh_invD(4) [OF inv that]] pe by auto
  have ca: "?c a = 0" using c [OF ain] node_ok_end [OF ok] by simp
  have uniq: "b = a" if b: "b \<in> set (mh_seq s)" "?c b = 0" for b
  proof (rule ccontr)
    assume "b \<noteq> a"
    then have "mn_end ?n \<le> mn_offset (node_at s b) \<or> mn_end (node_at s b) \<le> mn_offset ?n" using mh_apart [OF inv ain b(1)] by simp
    then show False using c [OF b(1)] b(2) by simp
  qed
  have law: "\<exists>t. splay_remove ?c (mh_nodes s) = Inr t \<and> sp_elements t = sp_elements (mh_nodes s) - 1 \<and> splay_seq t = filter (\<lambda>y. y \<noteq> a) (mh_seq s)"
    unfolding mh_seq_def
  proof (rule splay_remove_law)
    show "cuts ?c (splay_seq (mh_nodes s))" "a \<in> set (splay_seq (mh_nodes s))" "distinct (splay_seq (mh_nodes s))"
      using cut ain mh_invD(2) [OF inv] by (simp_all add: mh_seq_def)
    show "y = a" if "y \<in> set (splay_seq (mh_nodes s))" "?c y = 0" for y using uniq that by (simp add: mh_seq_def)
  qed (rule ca)
  then obtain t where t: "splay_remove ?c (mh_nodes s) = Inr t" "sp_elements t = sp_elements (mh_nodes s) - 1"
      "splay_seq t = filter (\<lambda>y. y \<noteq> a) (mh_seq s)" by blast
  have nr: "a \<notin> set rest" "distinct rest" using mh_invD(2) [OF inv] seq by simp_all
  then have "filter (\<lambda>y. y \<noteq> a) rest = rest" by (intro filter_True ballI) metis
  then have st: "splay_seq t = rest" using t(3) seq by simp
  define s' where "s' = s\<lparr>mh_nodes := t, mh_mem := (mh_mem s)(a := None)\<rparr>"
  have u: "mh_unlink s a = Inr (True, s')" using np t(1) by (simp add: mh_unlink_def s'_def)
  have seq': "mh_seq s' = rest" using st by (simp add: s'_def mh_seq_def)
  have nd: "node_at s' b = node_at s b" if "b \<in> set rest" for b using that nr by (auto simp: s'_def node_at_def)
  have after: "mn_end ?n \<le> mn_offset (node_at s b)" if "b \<in> set rest" for b using mh_invD(6) [OF inv] seq that by simp
  have "sorted_wrt (\<lambda>x y. mn_end (node_at s' x) \<le> mn_offset (node_at s' y)) rest"
  proof (rule sorted_wrt_mono_rel)
    show "sorted_wrt (\<lambda>x y. mn_end (node_at s x) \<le> mn_offset (node_at s y)) rest" using mh_invD(6) [OF inv] seq by simp
    show "mn_end (node_at s' x) \<le> mn_offset (node_at s' y)" if "x \<in> set rest" "y \<in> set rest" "mn_end (node_at s x) \<le> mn_offset (node_at s y)" for x y
      using that by (simp add: nd)
  qed
  moreover have "\<forall>b \<in> set rest. node_ok (node_at s' b)" using nd mh_invD(4) [OF inv] seq by auto
  moreover have "mh_inmem_hi s' = mn_end (node_at s' (last rest))" using inv seq nd by (simp add: mh_inv_def s'_def)
  moreover have "sp_elements (mh_nodes s') = length rest" using t(2) mh_invD(1) [OF inv] seq by (simp add: s'_def)
  moreover have "dom (mh_mem s') = set rest" using mh_invD(3) [OF inv] seq nr by (auto simp: s'_def)
  ultimately have inv': "mh_inv s'" using nr seq(2) unfolding mh_inv_def seq' by simp
  have "mh_byte s' x = (if x < mn_end ?n then None else mh_byte s x)" for x
  proof -
    have "mh_byte s' x = None" if "x < mn_end ?n"
      unfolding mh_byte_None seq' 
    proof
      fix b
      assume b: "b \<in> set rest"
      show "\<not> mn_contains (node_at s' b) x" using after [OF b] that nd [OF b] by (simp add: mn_contains_def)
    qed
    moreover have f: "find (\<lambda>b. mn_contains (node_at s' b) x) rest = find (\<lambda>b. mn_contains (node_at s b) x) rest" by (rule find_cong) (simp_all add: nd)
    then have "mh_byte s' x = mh_byte s x" if "\<not> x < mn_end ?n"
    proof (cases "find (\<lambda>b. mn_contains (node_at s b) x) rest")
      case (Some b)
      then have "b \<in> set rest" by (auto simp: find_Some_iff)
      then show ?thesis using that Some nd f unfolding mh_byte_def seq' seq(1) by (simp add: mn_contains_def)
    qed (use that f in \<open>simp add: mh_byte_def seq' seq(1) mn_contains_def\<close>)
    ultimately show ?thesis by simp
  qed
  then have "mh_byte s' = (\<lambda>x. if x < mn_end ?n then None else mh_byte s x)" by (rule ext)
  moreover have "mh_inmem_hi s' = mh_inmem_hi s" by (simp add: s'_def)
  ultimately show ?thesis using u seq' inv' nd by (intro exI [of _ s'] conjI ballI)
qed


definition mh_contiguous :: "mem_hdr \<Rightarrow> bool" where
  "mh_contiguous s \<longleftrightarrow> (\<forall>x. mh_lowestOffset s \<le> x \<and> x < mh_inmem_hi s \<longrightarrow> mh_byte s x \<noteq> None)"

lemma mh_hi_gt:
  assumes inv: "mh_inv s" and a: "a \<in> set (mh_seq s)"
  shows "mn_offset (node_at s a) < mh_inmem_hi s"
proof -
  have l: "last (mh_seq s) \<in> set (mh_seq s)" "mh_inmem_hi s = mn_end (node_at s (last (mh_seq s)))"
    using inv a last_in_set [of "mh_seq s"] by (auto simp: mh_inv_def split: if_splits)
  show ?thesis
  proof (cases "a = last (mh_seq s)")
    case True
    then show ?thesis using l node_ok_end [OF mh_invD(4) [OF inv a]] by simp
  next
    case False
    obtain P where P: "mh_seq s = P @ [last (mh_seq s)]" using a by (metis append_butlast_last_id list.set_cases list.discI)
    then have "a \<in> set P" using a False by (metis UnE empty_iff empty_set set_ConsD set_append)
    then have "mn_end (node_at s a) \<le> mn_offset (node_at s (last (mh_seq s)))"
      using mh_invD(6) [OF inv] P by (metis list.set_intros(1) sorted_wrt_append)
    then show ?thesis using l node_ok_end [OF mh_invD(4) [OF inv a]] node_ok_end [OF mh_invD(4) [OF inv l(1)]] by simp
  qed
qed

lemma mh_lowest_None:
  assumes inv: "mh_inv s" and "x < mh_lowestOffset s"
  shows "mh_byte s x = None"
proof (cases "mh_seq s")
  case Nil
  then show ?thesis by (simp add: mh_byte_None)
next
  case (Cons a rest)
  have "mn_offset (node_at s a) \<le> mn_offset (node_at s b)" if "b \<in> set (mh_seq s)" for b
    using that mh_invD(6) [OF inv] Cons node_ok_end [OF mh_invD(4) [OF inv, of a]] by fastforce
  then show ?thesis using assms(2) Cons by (fastforce simp: mh_byte_None mh_lowestOffset_seq mn_contains_def)
qed

text \<open>Where the object has no holes the second page starts where the first one ends.\<close>

lemma contiguous_step:
  assumes inv: "mh_inv s" and con: "mh_contiguous s" and seq: "mh_seq s = a # b # rest"
  shows "mn_offset (node_at s b) = mn_end (node_at s a)"
proof (rule ccontr)
  let ?x = "mn_end (node_at s a)"
  have ok: "mn_offset (node_at s a) < ?x" using node_ok_end [OF mh_invD(4) [OF inv, of a]] seq by simp
  have le: "?x \<le> mn_offset (node_at s c)" if "c \<in> set (b # rest)" for c using mh_invD(6) [OF inv] seq that by auto
  assume "mn_offset (node_at s b) \<noteq> ?x"
  then have lt: "?x < mn_offset (node_at s b)" using le [of b] by simp
  have bok: "mn_offset (node_at s b) < mn_end (node_at s b)" using node_ok_end [OF mh_invD(4) [OF inv, of b]] seq by simp
  have "?x < mn_offset (node_at s c)" if "c \<in> set (b # rest)" for c
    using that lt bok mh_invD(6) [OF inv] seq by fastforce
  then have "mh_byte s ?x = None" using seq by (fastforce simp: mh_byte_None mn_contains_def)
  moreover have "?x < mh_inmem_hi s" using mh_hi_gt [OF inv, of b] lt seq by simp
  moreover have "mh_lowestOffset s \<le> ?x" using ok seq by (simp add: mh_lowestOffset_seq)
  ultimately show False using con by (auto simp: mh_contiguous_def)
qed

text \<open>What stops the loop: one page left, a page that the target does not pass, or a page being written out.\<close>

definition free_stopped :: "mem_hdr \<Rightarrow> int \<Rightarrow> bool" where
  "free_stopped s t \<longleftrightarrow> length (mh_seq s) \<le> 1 \<or> t < mn_end (node_at s (hd (mh_seq s))) \<or> mn_write_pending (node_at s (hd (mh_seq s)))"

lemma freeDataUpto_loop_ok:
  assumes "mh_inv s" and "length (mh_seq s) < fuel"
  shows "\<exists>s'. freeDataUpto_loop fuel s t = Inr s' \<and> mh_inv s' \<and> mh_inmem_hi s' = mh_inmem_hi s \<and> free_stopped s' t \<and>
    (\<forall>x. mh_byte s' x = (if x < mh_lowestOffset s' then None else mh_byte s x)) \<and>
    (mh_contiguous s \<and> mh_lowestOffset s \<le> t \<longrightarrow> mh_lowestOffset s' \<le> t)"
  using assms
proof (induction fuel arbitrary: s)
  case (Suc fuel)
  note inv = Suc.prems(1)
  have stop: ?case if "freeDataUpto_loop (Suc fuel) s t = Inr s" "free_stopped s t"
    using that inv mh_lowest_None [OF inv] by (intro exI [of _ s]) auto
  show ?case
  proof (cases "free_stopped s t")
    case True
    have "freeDataUpto_loop (Suc fuel) s t = Inr s"
      using True by (cases "mh_seq s" rule: remdups_adj.cases)
        (auto simp: splay_start_law splay_finish_law mh_seq_def free_stopped_def mh_unlink_def)
    then show ?thesis using stop True by simp
  next
    case False
    then obtain a b rest where seq: "mh_seq s = a # b # rest"
      by (cases "mh_seq s" rule: remdups_adj.cases) (auto simp: free_stopped_def)
    have go: "mn_end (node_at s a) \<le> t" "\<not> mn_write_pending (node_at s a)" using False seq by (auto simp: free_stopped_def)
    obtain s1 where s1: "mh_unlink s a = Inr (True, s1)" "mh_seq s1 = b # rest" "mh_inv s1" "mh_inmem_hi s1 = mh_inmem_hi s"
        "\<forall>c \<in> set (b # rest). node_at s1 c = node_at s c" "mh_byte s1 = (\<lambda>x. if x < mn_end (node_at s a) then None else mh_byte s x)"
      using mh_unlink_first [OF inv seq _ go(2)] by auto
    have "splay_start (mh_nodes s) = Some a" "splay_finish (mh_nodes s) \<noteq> Some a"
      using seq mh_invD(2) [OF inv] by (auto simp: splay_start_law splay_finish_law mh_seq_def split: if_splits)
    then have u: "freeDataUpto_loop (Suc fuel) s t = freeDataUpto_loop fuel s1 t" using go(1) s1(1) by auto
    obtain s' where s': "freeDataUpto_loop fuel s1 t = Inr s'" "mh_inv s'" "mh_inmem_hi s' = mh_inmem_hi s1" "free_stopped s' t"
        "\<forall>x. mh_byte s' x = (if x < mh_lowestOffset s' then None else mh_byte s1 x)"
        "mh_contiguous s1 \<and> mh_lowestOffset s1 \<le> t \<longrightarrow> mh_lowestOffset s' \<le> t"
      using Suc.IH [OF s1(3)] s1(2) seq Suc.prems(2) by auto
    have low1: "mh_lowestOffset s1 = mn_offset (node_at s b)" using s1(2,5) by (simp add: mh_lowestOffset_seq)
    have "mh_lowestOffset s' \<le> t" if "mh_contiguous s"
    proof -
      have low: "mh_lowestOffset s1 = mn_end (node_at s a)" using contiguous_step [OF inv that seq] low1 by simp
      moreover have "mh_lowestOffset s \<le> mn_end (node_at s a)" using node_ok_end [OF mh_invD(4) [OF inv, of a]] seq by (simp add: mh_lowestOffset_seq)
      ultimately have "mh_contiguous s1" using that s1(4,6) by (auto simp: mh_contiguous_def)
      then show ?thesis using s'(6) low go(1) by simp
    qed
    moreover have "mh_byte s' x = (if x < mh_lowestOffset s' then None else mh_byte s x)" for x
    proof (cases "x < mn_end (node_at s a)")
      case True
      have ne: "mh_seq s' \<noteq> []"
        using s1(2,3) s'(2,3) mh_hi_gt [OF s1(3), of b] mh_invD(4) [OF s1(3), of b] by (auto simp: mh_inv_def node_ok_def)
      have "mh_lowestOffset s1 \<le> mh_lowestOffset s'"
      proof (rule ccontr)
        let ?h = "hd (mh_seq s')"
        assume less: "\<not> mh_lowestOffset s1 \<le> mh_lowestOffset s'"
        have "mn_contains (node_at s' ?h) (mh_lowestOffset s')"
          using ne node_ok_end [OF mh_invD(4) [OF s'(2), of ?h]] by (cases "mh_seq s'") (auto simp: mh_lowestOffset_seq mn_contains_def)
        then have "mh_byte s' (mh_lowestOffset s') \<noteq> None" using ne unfolding mh_byte_None by auto
        then show False using s'(5) [rule_format, of "mh_lowestOffset s'"] mh_lowest_None [OF s1(3), of "mh_lowestOffset s'"] less by auto
      qed
      moreover have "mn_end (node_at s a) \<le> mh_lowestOffset s1" using mh_invD(6) [OF inv] seq low1 by simp
      ultimately show ?thesis using s'(5) True by simp
    qed (use s'(5) s1(6) in auto)
    ultimately show ?thesis using u s'(1-4) s1(4) by auto
  qed
qed simp

text \<open>Dropping the whole object releases every page.\<close>

lemma fold_unset: "fold (\<lambda>a m. m(a := None)) xs m = (\<lambda>a. if a \<in> set xs then None else m a)"
  by (induction xs arbitrary: m) (auto simp: fun_eq_iff)

lemma freeContent_new:
  assumes "mh_inv s"
  shows "freeContent s = mem_hdr_new"
proof -
  have "mh_mem s a = None" if "a \<notin> set (mh_seq s)" for a using mh_invD(3) [OF assms] that by auto
  then show ?thesis
    by (auto simp: freeContent_def mem_hdr_new_def fold_unset mh_seq_def splay_seq_def splay_destroy_def splay_empty_def fun_eq_iff)
qed

text \<open>A page being written out is marked, and marking it does not touch the data.\<close>

lemma NodeGet_marks:
  assumes "mh_inv s" and "a \<in> set (mh_seq s)" and "\<not> mn_write_pending (node_at s a)"
  shows "\<exists>s'. NodeGet s a = Inr (mn_data (node_at s a), s') \<and> mh_unlink s' a = Inr (False, s') \<and> NodeGet s' a = Inl Assertion \<and>
    memNodeWriteComplete s' a = Inr s"
proof -
  let ?s = "s\<lparr>mh_mem := (mh_mem s)(a \<mapsto> (node_at s a)\<lparr>mn_write_pending := True\<rparr>)\<rparr>"
  have m: "mh_mem s a = Some (node_at s a)" by (rule mh_invD(5) [OF assms(1,2)])
  have "NodeGet s a = Inr (mn_data (node_at s a), ?s)" using assms(3) m by (simp add: NodeGet_def)
  moreover have "mh_unlink ?s a = Inr (False, ?s)" by (simp add: mh_unlink_def node_at_def)
  moreover have "NodeGet ?s a = Inl Assertion" by (simp add: NodeGet_def)
  moreover have "memNodeWriteComplete ?s a = Inr s"
  proof -
    have "(mh_mem s)(a \<mapsto> (node_at s a)\<lparr>mn_write_pending := False\<rparr>) = mh_mem s" using assms(3) m by (simp add: fun_eq_iff)
    then show ?thesis by (simp add: memNodeWriteComplete_def)
  qed
  ultimately show ?thesis by (intro exI conjI)
qed

section \<open>Appending\<close>

lemma endOffset_ok: "mh_inv s \<Longrightarrow> endOffset s = Inr (mh_inmem_hi s)"
  by (auto simp: endOffset_def splay_finish_law mh_inv_def mh_seq_def [symmetric])

lemma absent_above:
  assumes inv: "mh_inv s" and "mh_inmem_hi s \<le> off"
  shows "absent s off n"
proof -
  have "mn_end (node_at s a) \<le> mh_inmem_hi s" if a: "a \<in> set (mh_seq s)" for a
  proof -
    obtain P where P: "mh_seq s = P @ [last (mh_seq s)]" using a by (metis append_butlast_last_id list.set_cases list.discI)
    have l: "last (mh_seq s) \<in> set (mh_seq s)" "mh_inmem_hi s = mn_end (node_at s (last (mh_seq s)))"
      using inv a last_in_set [of "mh_seq s"] by (auto simp: mh_inv_def split: if_splits)
    show ?thesis
    proof (cases "a = last (mh_seq s)")
      case False
      then have "a \<in> set P" using a P by (metis UnE empty_iff empty_set set_ConsD set_append)
      then have "mn_end (node_at s a) \<le> mn_offset (node_at s (last (mh_seq s)))"
        using mh_invD(6) [OF inv] P by (metis list.set_intros(1) sorted_wrt_append)
      then show ?thesis using l node_ok_end [OF mh_invD(4) [OF inv l(1)]] by simp
    qed (simp add: l(2))
  qed
  then show ?thesis using assms(2) by (fastforce simp: absent_def mh_byte_None mn_contains_def)
qed

lemma mh_hi_nonneg: "mh_inv s \<Longrightarrow> 0 \<le> mh_inmem_hi s"
  by (auto simp: mh_inv_def node_ok_def mn_end_def)

text \<open>One turn: the space made is in the last page, and starts at the end of the object.\<close>

lemma append_step:
  assumes fresh: "fresh_alloc alloc" and inv: "mh_inv s" and src: "src \<noteq> []"
  shows "\<exists>s1 a n s'. makeAppendSpace alloc s = Inr s1 \<and> splay_finish (mh_nodes s1) = Some a \<and> appendToNode s1 a src = Inr (n, s') \<and>
    0 < n \<and> n \<le> length src \<and> mh_inv s' \<and> mh_byte s' = overlay (mh_byte s) (mh_inmem_hi s) (take n src) \<and>
    mh_inmem_hi s' = mh_inmem_hi s + int n"
proof -
  let ?hi = "mh_inmem_hi s"
  have abs: "absent s ?hi (length src)" by (rule absent_above [OF inv order_refl])
  have hi: "0 \<le> ?hi" by (rule mh_hi_nonneg [OF inv])
  have none: "mh_byte s ?hi = None" using abs src by (simp add: absent_def)
  have wa: "mh_inmem_hi s' = (if mh_inmem_hi s1 \<le> off then off + int n else mh_inmem_hi s1)"
    if "writeAvailable s1 a off src = Inr (n, s')" for s1 s' a n off
    using that by (auto simp: writeAvailable_def Let_def res_guard_def split: option.splits if_splits)
  show ?thesis
  proof (cases "\<exists>a. splay_finish (mh_nodes s) = Some a \<and> mn_space (node_at s a) > 0")
    case True
    then obtain a where a: "splay_finish (mh_nodes s) = Some a" "mn_space (node_at s a) > 0" by blast
    then have la: "mh_seq s \<noteq> []" "a = last (mh_seq s)" by (auto simp: splay_finish_law mh_seq_def split: if_splits)
    then have e: "mn_end (node_at s a) = ?hi" "a \<in> set (mh_seq s)" using inv by (auto simp: mh_inv_def)
    have "mn_canAccept (node_at s a) ?hi" using a(2) e(1) by (simp add: mn_canAccept_def)
    from write_existing [OF inv e(2) this src abs] obtain n s' where w: "writeAvailable s a ?hi src = Inr (n, s')" "0 < n" "n \<le> length src"
      "mh_inv s'" "mh_byte s' = overlay (mh_byte s) ?hi (take n src)" by blast
    have "makeAppendSpace alloc s = Inr s" using a la mh_invD(1) [OF inv] by (simp add: makeAppendSpace_def)
    then show ?thesis using a w e(1) wa [OF w(1)] by (intro exI [of _ s] exI [of _ a] exI [of _ n] exI [of _ s']) (simp add: appendToNode_def)
  next
    case False
    obtain a s1 n s' where w: "appendNode alloc s ?hi = Inr (a, s1)" "writeAvailable s1 a ?hi src = Inr (n, s')" "0 < n" "n \<le> length src"
        "mh_inv s'" "mh_byte s' = overlay (mh_byte s) ?hi (take n src)"
      using write_new [OF fresh inv hi src abs] by blast
    obtain a' s1' P N where A: "appendNode alloc s ?hi = Inr (a', s1')" "mh_seq s = P @ N" "mh_seq s1' = P @ a' # N"
        "\<forall>b \<in> set N. ?hi < mn_offset (node_at s b)" "mh_mem s1' = (mh_mem s)(a' \<mapsto> mem_node_new ?hi)" "mh_inmem_hi s1' = ?hi"
      using appendNode_ok [OF fresh inv hi none] by blast
    have eq: "a' = a" "s1' = s1" using A(1) w(1) by simp_all
    have "N = []" using A(2,4) mh_hi_gt [OF inv, of "hd N"] by (cases N) auto
    then have fin: "splay_finish (mh_nodes s1) = Some a" using A(3) eq by (simp add: splay_finish_law mh_seq_def)
    have nd: "node_at s1 a = mem_node_new ?hi" using A(5) eq by (simp add: node_at_def)
    then have sp: "mn_space (node_at s1 a) > 0" "mn_end (node_at s1 a) = ?hi"
      by (simp_all add: mem_node_new_def mn_space_def mn_end_def SM_PAGE_SIZE_def)
    have "makeAppendSpace alloc s = Inr s1"
    proof (cases "mh_seq s = []")
      case True
      then have "?hi = 0" "sp_elements (mh_nodes s) = 0" using inv by (simp_all add: mh_inv_def)
      then show ?thesis using w(1) by (simp add: makeAppendSpace_def)
    next
      case ne: False
      then obtain c where c: "splay_finish (mh_nodes s) = Some c" by (simp add: splay_finish_law mh_seq_def)
      then show ?thesis using False ne w(1) fin sp mh_invD(1) [OF inv] endOffset_ok [OF inv] by (simp add: makeAppendSpace_def)
    qed
    then show ?thesis using fin sp w wa [OF w(2)] A(6) eq
      by (intro exI [of _ s1] exI [of _ a] exI [of _ n] exI [of _ s']) (simp add: appendToNode_def)
  qed
qed

lemma internalAppend_ok:
  assumes "fresh_alloc alloc" and "mh_inv s"
  shows "\<exists>s'. internalAppend alloc s src = Inr s' \<and> mh_inv s' \<and> mh_byte s' = overlay (mh_byte s) (mh_inmem_hi s) src \<and>
    mh_inmem_hi s' = mh_inmem_hi s + int (length src)"
  using assms(2)
proof (induction "length src" arbitrary: s src rule: less_induct)
  case less
  show ?case
  proof (cases "src = []")
    case True
    have "overlay (mh_byte s) (mh_inmem_hi s) [] = mh_byte s" by (auto simp: overlay_def fun_eq_iff)
    then show ?thesis using True less.prems by (subst internalAppend.simps) simp
  next
    case False
    obtain s1 a n s2 where w: "makeAppendSpace alloc s = Inr s1" "splay_finish (mh_nodes s1) = Some a" "appendToNode s1 a src = Inr (n, s2)"
        "0 < n" "n \<le> length src" "mh_inv s2" "mh_byte s2 = overlay (mh_byte s) (mh_inmem_hi s) (take n src)"
        "mh_inmem_hi s2 = mh_inmem_hi s + int n"
      using append_step [OF assms(1) less.prems False] by (elim exE conjE)
    obtain s' where "internalAppend alloc s2 (drop n src) = Inr s'" "mh_inv s'"
        "mh_byte s' = overlay (mh_byte s2) (mh_inmem_hi s2) (drop n src)" "mh_inmem_hi s' = mh_inmem_hi s2 + int (length (drop n src))"
      using less.hyps [of "drop n src" s2] w(4,5,6) False by auto
    then show ?thesis using w(1-5) False overlay_append [OF w(5)] w(7,8) by (subst internalAppend.simps) simp
  qed
qed

lemma unionNotEmpty_ok:
  assumes "mh_inv s" and "0 \<le> off"
  shows "\<exists>s'. unionNotEmpty s off len = Inr (\<not> absent s off len, s') \<and> mh_same s s'"
proof -
  obtain r s' where f: "mh_find s (mem_probe off len) = Inr (r, s')" "mh_same s s'"
      "case r of
       None \<Rightarrow> \<forall>a \<in> set (mh_seq s). mn_end (node_at s a) \<le> off \<or> off + int len \<le> mn_offset (node_at s a) \<or> len = 0
     | Some a \<Rightarrow> a \<in> set (mh_seq s) \<and> max off (mn_offset (node_at s a)) < min (off + int len) (mn_end (node_at s a))"
    using mh_find_ok [OF assms, of len] by (elim exE conjE)
  have eq: "(r \<noteq> None) = (\<not> absent s off len)"
  proof (cases r)
    case None
    have "\<not> mn_contains (node_at s a) x" if x: "off \<le> x" "x < off + int len" and a: "a \<in> set (mh_seq s)" for x a
    proof -
      have "mn_end (node_at s a) \<le> off \<or> off + int len \<le> mn_offset (node_at s a) \<or> len = 0" using f(3) None a by simp
      then show ?thesis unfolding mn_contains_def using x by linarith
    qed
    then have "absent s off len" unfolding absent_def mh_byte_None by blast
    then show ?thesis using None by simp
  next
    case (Some a)
    define x where "x = max off (mn_offset (node_at s a))"
    have a: "a \<in> set (mh_seq s)" "x < min (off + int len) (mn_end (node_at s a))" using f(3) Some by (simp_all add: x_def)
    then have x: "mn_contains (node_at s a) x" "off \<le> x" "x < off + int len" unfolding mn_contains_def by (simp_all add: x_def)
    then have "mh_byte s x \<noteq> None" unfolding mh_byte_None using a(1) by blast
    then have "\<not> absent s off len" unfolding absent_def using x(2,3) by (intro notI) (drule spec [of _ x], simp)
    then show ?thesis using Some by simp
  qed
  have "unionNotEmpty s off len = Inr (r \<noteq> None, s')" by (simp add: unionNotEmpty_def f(1) assms(2))
  then show ?thesis unfolding eq using f(2) by (intro exI conjI)
qed

lemma mh_write_ok:
  assumes "fresh_alloc alloc" and "mh_inv s" and "0 \<le> off"
  shows "if absent s off (length d) then \<exists>s'. mh_write alloc s off d = Inr s' \<and> mh_inv s' \<and> mh_byte s' = overlay (mh_byte s) off d
    else mh_write alloc s off d = Inl (Thrown ''Attempt to overwrite already in-memory data.'')"
proof -
  obtain s1 where u: "unionNotEmpty s off (length d) = Inr (\<not> absent s off (length d), s1)" "mh_same s s1"
    using unionNotEmpty_ok [OF assms(2,3), of "length d"] by (elim exE conjE)
  note same = mh_sameD [OF u(2)]
  have "\<exists>s'. write_loop alloc s1 off d = Inr s' \<and> mh_inv s' \<and> mh_byte s' = overlay (mh_byte s1) off d" if "absent s off (length d)"
    by (rule write_loop_ok [OF assms(1) _ assms(3)]) (use that assms(2) same absent_same [OF u(2)] in simp_all)
  then show ?thesis using u(1) same by (simp add: mh_write_def)
qed

lemma mh_copy_ok:
  assumes inv: "mh_inv s" and "0 \<le> off" and "0 < len"
  shows "if mh_byte s off = None then \<exists>e. mh_copy s off len = Inl e
    else \<exists>s'. mh_copy s off len = Inr (byte_run (mh_byte s) off len, s') \<and> mh_same s s'"
proof (cases "sp_elements (mh_nodes s) = 0")
  case True
  then have "mh_byte s off = None" using mh_invD(1) [OF inv] by (simp add: mh_byte_None)
  then show ?thesis using True assms(3) by (simp add: mh_copy_def)
next
  case False
  obtain p s1 where g: "getBlockContainingLocation s off = Inr (p, s1)" "mh_same s s1"
      "case p of None \<Rightarrow> mh_byte s off = None | Some a \<Rightarrow> a \<in> set (mh_seq s) \<and> mn_contains (node_at s a) off"
    using getBlock_ok [OF inv assms(2)] by (elim exE conjE)
  note same = mh_sameD [OF g(2)]
  show ?thesis
  proof (cases p)
    case None
    then show ?thesis using False g(1,3) assms(3) by (simp add: mh_copy_def)
  next
    case (Some a)
    then have a: "a \<in> set (mh_seq s)" "mn_contains (node_at s a) off" using g(3) by simp_all
    then have "mh_byte s off \<noteq> None" by (auto simp: mh_byte_None)
    moreover obtain s' where "copy_loop s1 (Some a) off len = Inr (byte_run (mh_byte s1) off len, s')" "mh_same s1 s'"
      using copy_loop_ok [of s1 off "Some a" len] a inv assms(2) same by auto
    ultimately show ?thesis using False g(1) Some assms(3) same mh_same_trans [OF g(2)] by (simp add: mh_copy_def)
  qed
qed

section \<open>Properties\<close>

lemma mem_hdr_new_ok: "mh_inv mem_hdr_new" "mh_byte mem_hdr_new x = None"
  by (simp_all add: mem_hdr_new_def mh_inv_def mh_seq_def mh_byte_def splay_seq_def splay_empty_def)

text \<open>
  C36. A store object in memory is a finite map from offsets to bytes. Writing lays the new bytes over the map when
  none of their offsets is taken, across as many pages as it needs, and is the fatal error otherwise; appending lays
  them after the last byte; copying gives the bytes from an offset on up to the first hole, and fails only where the first one
  is absent; and the contiguity test is exact. The pages stay ordered and disjoint throughout.
\<close>

theorem mem_hdr_refines_bytes:
  assumes "fresh_alloc alloc" and "mh_inv s" and "0 \<le> off"
  shows "(if \<exists>x. off \<le> x \<and> x < off + int (length d) \<and> mh_byte s x \<noteq> None
          then mh_write alloc s off d = Inl (Thrown ''Attempt to overwrite already in-memory data.'')
          else \<exists>s'. mh_write alloc s off d = Inr s' \<and> mh_inv s' \<and> mh_byte s' = overlay (mh_byte s) off d) \<and>
    (\<exists>s'. internalAppend alloc s d = Inr s' \<and> mh_inv s' \<and> mh_byte s' = overlay (mh_byte s) (mh_inmem_hi s) d) \<and>
    (0 < n \<longrightarrow> (if mh_byte s off = None then \<exists>e. mh_copy s off n = Inl e
       else \<exists>s'. mh_copy s off n = Inr (byte_run (mh_byte s) off n, s') \<and> mh_inv s' \<and> mh_byte s' = mh_byte s)) \<and>
    (off < e \<longrightarrow> (\<exists>s'. hasContigousContentRange s off e = Inr ((\<forall>x. off \<le> x \<and> x < e \<longrightarrow> mh_byte s x \<noteq> None), s') \<and>
       mh_inv s' \<and> mh_byte s' = mh_byte s))"
proof (intro conjI impI)
  have "(\<exists>x. off \<le> x \<and> x < off + int (length d) \<and> mh_byte s x \<noteq> None) \<longleftrightarrow> \<not> absent s off (length d)" by (auto simp: absent_def)
  then show "if \<exists>x. off \<le> x \<and> x < off + int (length d) \<and> mh_byte s x \<noteq> None
      then mh_write alloc s off d = Inl (Thrown ''Attempt to overwrite already in-memory data.'')
      else \<exists>s'. mh_write alloc s off d = Inr s' \<and> mh_inv s' \<and> mh_byte s' = overlay (mh_byte s) off d"
    using mh_write_ok [OF assms, of d] by (simp only: split: if_split) simp
  show "\<exists>s'. internalAppend alloc s d = Inr s' \<and> mh_inv s' \<and> mh_byte s' = overlay (mh_byte s) (mh_inmem_hi s) d"
    using internalAppend_ok [OF assms(1,2), of d] by blast
next
  assume "0 < n"
  from mh_copy_ok [OF assms(2,3) this] show "if mh_byte s off = None then \<exists>e. mh_copy s off n = Inl e
       else \<exists>s'. mh_copy s off n = Inr (byte_run (mh_byte s) off n, s') \<and> mh_inv s' \<and> mh_byte s' = mh_byte s"
    using mh_sameD(1,2) assms(2) by (auto split: if_splits)
next
  assume "off < e"
  then have eq: "(\<forall>y. off \<le> y \<and> (y < e \<or> y = off) \<longrightarrow> mh_byte s y \<noteq> None) \<longleftrightarrow> (\<forall>y. off \<le> y \<and> y < e \<longrightarrow> mh_byte s y \<noteq> None)" by auto
  obtain s' where "contig_loop (nat (e - off) + 1) s off e = Inr ((\<forall>y. off \<le> y \<and> (y < e \<or> y = off) \<longrightarrow> mh_byte s y \<noteq> None), s')" "mh_same s s'"
    using contig_loop_ok [OF assms(2,3), of e "nat (e - off) + 1"] by auto
  then show "\<exists>s'. hasContigousContentRange s off e = Inr ((\<forall>x. off \<le> x \<and> x < e \<longrightarrow> mh_byte s x \<noteq> None), s') \<and> mh_inv s' \<and> mh_byte s' = mh_byte s"
    unfolding eq hasContigousContentRange_def using mh_sameD(1,2) assms(2) by (intro exI [of _ s']) simp
qed

theorem mem_hdr_refines_bytes_witness:
  "\<exists>s'. mh_write (\<lambda>D. Max (insert 0 D) + 1) mem_hdr_new 5000 ''HTTP'' = Inr s' \<and> mh_byte s' 5001 = Some CHR ''T''"
proof -
  have "fresh_alloc (\<lambda>D. Max (insert 0 D) + 1)" by (rule fresh_alloc_Max)
  from mem_hdr_refines_bytes [OF this mem_hdr_new_ok(1), of 5000 "''HTTP''" 1 5001] show ?thesis
    by (auto simp: mem_hdr_new_ok(2) overlay_def)
qed

text \<open>
  Freeing the data below an offset, for an object with no holes that starts at or below the offset: whole pages
  are dropped from the front, so the result, the new lowest offset, is not above the target, no byte from it on is lost and none
  before it remains; the freeing stops only at the last page, at a page reaching past the target, or at one being written out.
\<close>

theorem mem_free_upto:
  assumes "mh_inv s" and "mh_contiguous s" and "mh_lowestOffset s \<le> t"
  shows "\<exists>s'. freeDataUpto s t = Inr (mh_lowestOffset s', s') \<and> mh_inv s' \<and> mh_inmem_hi s' = mh_inmem_hi s \<and> mh_lowestOffset s' \<le> t \<and>
    (\<forall>x. mh_byte s' x = (if x < mh_lowestOffset s' then None else mh_byte s x)) \<and> free_stopped s' t"
proof -
  have "length (mh_seq s) < sp_elements (mh_nodes s) + 1" using mh_invD(1) [OF assms(1)] by simp
  from freeDataUpto_loop_ok [OF assms(1) this, of t] obtain s' where
    "freeDataUpto_loop (sp_elements (mh_nodes s) + 1) s t = Inr s'" "mh_inv s'" "mh_inmem_hi s' = mh_inmem_hi s" "free_stopped s' t"
    "\<forall>x. mh_byte s' x = (if x < mh_lowestOffset s' then None else mh_byte s x)" "mh_contiguous s \<and> mh_lowestOffset s \<le> t \<longrightarrow> mh_lowestOffset s' \<le> t"
    by (elim exE conjE)
  then show ?thesis using assms(2,3) by (intro exI [of _ s']) (simp add: freeDataUpto_def)
qed

text \<open>Two pages, at offsets 0 and \<open>off\<close>.\<close>

definition two_pages :: "int \<Rightarrow> mem_hdr" where
  "two_pages off = \<lparr>mh_inmem_hi = off + 2, mh_nodes = \<lparr>sp_head = Node Leaf 2 (Node Leaf 3 Leaf), sp_elements = 2\<rparr>,
     mh_mem = [2 \<mapsto> (mem_node_new 0)\<lparr>mn_data := ''ab''\<rparr>, 3 \<mapsto> (mem_node_new off)\<lparr>mn_data := ''cd''\<rparr>]\<rparr>"

lemma two_pages_ok:
  "mh_seq (two_pages off) = [2, 3]" "node_at (two_pages off) 2 = (mem_node_new 0)\<lparr>mn_data := ''ab''\<rparr>"
  "node_at (two_pages off) 3 = (mem_node_new off)\<lparr>mn_data := ''cd''\<rparr>" "2 \<le> off \<Longrightarrow> mh_inv (two_pages off)"
proof -
  show s: "mh_seq (two_pages off) = [2, 3]" "node_at (two_pages off) 2 = (mem_node_new 0)\<lparr>mn_data := ''ab''\<rparr>"
    "node_at (two_pages off) 3 = (mem_node_new off)\<lparr>mn_data := ''cd''\<rparr>"
    by (simp_all add: two_pages_def mh_seq_def splay_seq_def node_at_def)
  show "mh_inv (two_pages off)" if "2 \<le> off"
    unfolding mh_inv_def s(1)
    using that s by (auto simp: node_ok_def mn_end_def mem_node_new_def SM_PAGE_SIZE_def two_pages_def split: if_splits)
qed

text \<open>
  C37. Freeing asserts on an object with a hole: when the target lies between the end of the first page and the start of the second,
  the first page is dropped, and the lowest offset is then above the target, which the final assertion of
  \<^verbatim>\<open>freeDataUpto\<close> rules out.
\<close>

theorem mem_free_sparse_asserts:
  assumes inv: "mh_inv s" and seq: "mh_seq s = a # b # rest" and hole: "mn_end (node_at s a) \<le> t" "t < mn_offset (node_at s b)"
    and np: "\<not> mn_write_pending (node_at s a)"
  shows "freeDataUpto s t = Inl Assertion"
proof -
  obtain s1 where s1: "mh_unlink s a = Inr (True, s1)" "mh_seq s1 = b # rest" "\<forall>c \<in> set (b # rest). node_at s1 c = node_at s c"
    using mh_unlink_first [OF inv seq _ np] by auto
  have "splay_start (mh_nodes s) = Some a" "splay_finish (mh_nodes s) \<noteq> Some a"
    using seq mh_invD(2) [OF inv] by (auto simp: splay_start_law splay_finish_law mh_seq_def split: if_splits)
  then have u: "freeDataUpto_loop (Suc (Suc n)) s t = freeDataUpto_loop (Suc n) s1 t" for n using hole(1) s1(1) by auto
  have "t < mn_end (node_at s1 b)" using hole(2) s1(3) node_ok_end [OF mh_invD(4) [OF inv, of b]] seq by simp
  then have v: "freeDataUpto_loop (Suc n) s1 t = Inr s1" for n using s1(2) by (simp add: splay_start_law mh_seq_def)
  have low: "mh_lowestOffset s1 = mn_offset (node_at s b)" using s1(2,3) by (simp add: mh_lowestOffset_seq)
  have "sp_elements (mh_nodes s) + 1 = Suc (Suc (length rest + 1))" using mh_invD(1) [OF inv] seq by simp
  then show ?thesis using hole(2) low unfolding freeDataUpto_def by (simp only: u v res_bind_simps) simp
qed

theorem mem_free_sparse_asserts_witness: "freeDataUpto (two_pages 100) 50 = Inl Assertion"
proof (rule mem_free_sparse_asserts)
  show "mh_inv (two_pages 100)" by (rule two_pages_ok) simp
  show "mh_seq (two_pages 100) = 2 # 3 # []" by (rule two_pages_ok(1))
qed (simp_all add: two_pages_ok(2,3) mem_node_new_def mn_end_def)

end
