(* ===== verification/Lib_Rfc1035.thy ===== *)
theory Lib_Rfc1035
  imports C_Strings
begin

text \<open>
  The coding of DNS messages (lib/rfc1035.c, lib/rfc2671.c, lib/rfc3596.c). A buffer is a string; a message read from
  a buffer has a size \<open>sz\<close> of its own, and reading past the end of the buffer is \<open>OutOfBounds\<close>. Packing appends: the
  functions return the bytes they write and take the room left, where writing beyond it is \<open>OutOfBounds\<close>. Offsets do not come near
  \<open>2 ^ 32\<close>. The error return of an unpacking function is \<open>None\<close>.
\<close>

unbundle bit_operations_syntax

section \<open>Words in network byte order\<close>

definition byte_of :: "char \<Rightarrow> nat" where
  "byte_of c = of_char c"

definition be16 :: "16 word \<Rightarrow> string" where
  "be16 w = [char_of (unat w div 256), char_of (unat w mod 256)]"

definition be32 :: "32 word \<Rightarrow> string" where
  "be32 w = map (\<lambda>i. char_of (unat w div 256 ^ i mod 256)) [3, 2, 1, 0]"

definition get_bytes :: "string \<Rightarrow> nat \<Rightarrow> nat \<Rightarrow> string res" where
  "get_bytes buf off n = (if off + n \<le> length buf then Inr (take n (drop off buf)) else Inl OutOfBounds)"

definition be_nat :: "string \<Rightarrow> nat" where
  "be_nat s = foldl (\<lambda>acc c. 256 * acc + byte_of c) 0 s"

definition get16 :: "string \<Rightarrow> nat \<Rightarrow> 16 word res" where
  "get16 buf off = res_bind (get_bytes buf off 2) (\<lambda>s. Inr (word_of_nat (be_nat s)))"

definition get32 :: "string \<Rightarrow> nat \<Rightarrow> 32 word res" where
  "get32 buf off = res_bind (get_bytes buf off 4) (\<lambda>s. Inr (word_of_nat (be_nat s)))"

text \<open>Writing \<open>s\<close> where \<open>room\<close> bytes are left.\<close>

definition put_bytes :: "nat \<Rightarrow> string \<Rightarrow> string res" where
  "put_bytes room s = (if length s \<le> room then Inr s else Inl OutOfBounds)"

section \<open>Records\<close>

definition RFC1035_MAXHOSTNAMESZ :: nat where
  "RFC1035_MAXHOSTNAMESZ = 256"

definition RFC1035_MAXLABELSZ :: nat where
  "RFC1035_MAXLABELSZ = 63"

definition RFC1035_TYPE_A :: "16 word" where
  "RFC1035_TYPE_A = 1"

definition RFC1035_TYPE_PTR :: "16 word" where
  "RFC1035_TYPE_PTR = 12"

definition RFC1035_TYPE_AAAA :: "16 word" where
  "RFC1035_TYPE_AAAA = 28"

definition RFC1035_TYPE_OPT :: "16 word" where
  "RFC1035_TYPE_OPT = 41"

definition RFC1035_CLASS_IN :: "16 word" where
  "RFC1035_CLASS_IN = 1"

definition rfc1035_unpack_error :: int where
  "rfc1035_unpack_error = 15"

text \<open>A name is what its array holds before the zero byte that ends the last write.\<close>

record rfc1035_rr =
  rr_name :: string
  rr_type :: "16 word"
  rr_class :: "16 word"
  rr_ttl :: "32 word"
  rr_rdlength :: nat
  rr_rdata :: string

record rfc1035_query =
  q_name :: string
  q_qtype :: "16 word"
  q_qclass :: "16 word"

record rfc1035_message =
  msg_id :: "16 word"
  msg_qr :: "1 word"
  msg_opcode :: "4 word"
  msg_aa :: "1 word"
  msg_tc :: "1 word"
  msg_rd :: "1 word"
  msg_ra :: "1 word"
  msg_rcode :: "4 word"
  msg_qdcount :: "16 word"
  msg_ancount :: "16 word"
  msg_nscount :: "16 word"
  msg_arcount :: "16 word"
  msg_query :: "rfc1035_query option"
  msg_answer :: "rfc1035_rr list"

definition zero_message :: rfc1035_message where
  "zero_message = \<lparr>msg_id = 0, msg_qr = 0, msg_opcode = 0, msg_aa = 0, msg_tc = 0, msg_rd = 0, msg_ra = 0, msg_rcode = 0,
     msg_qdcount = 0, msg_ancount = 0, msg_nscount = 0, msg_arcount = 0, msg_query = None, msg_answer = []\<rparr>"

section \<open>Packing\<close>

definition header_flags :: "rfc1035_message \<Rightarrow> 16 word" where
  "header_flags hdr =
     push_bit 15 (ucast (msg_qr hdr)) OR push_bit 11 (ucast (msg_opcode hdr)) OR push_bit 10 (ucast (msg_aa hdr)) OR
     push_bit 9 (ucast (msg_tc hdr)) OR push_bit 8 (ucast (msg_rd hdr)) OR push_bit 7 (ucast (msg_ra hdr)) OR ucast (msg_rcode hdr)"

definition rfc1035HeaderPack :: "nat \<Rightarrow> rfc1035_message \<Rightarrow> string res" where
  "rfc1035HeaderPack sz hdr =
     res_bind (res_guard (sz \<ge> 12) Assertion) (\<lambda>_.
     Inr (be16 (msg_id hdr) @ be16 (header_flags hdr) @ be16 (msg_qdcount hdr) @ be16 (msg_ancount hdr) @
          be16 (msg_nscount hdr) @ be16 (msg_arcount hdr)))"

definition rfc1035LabelPack :: "nat \<Rightarrow> string option \<Rightarrow> string res" where
  "rfc1035LabelPack sz label =
     (let l = (case label of None \<Rightarrow> [] | Some l \<Rightarrow> l); len = min (length l) RFC1035_MAXLABELSZ
      in res_bind (res_guard (c_strchr l (CHR ''.'') = None) Assertion) (\<lambda>_.
         res_bind (res_guard (sz \<ge> len + 1) Assertion) (\<lambda>_.
         Inr (char_of len # take len l))))"

text \<open>The tokens \<^verbatim>\<open>strtok\<close> finds between dots.\<close>

function strtok_dots :: "string \<Rightarrow> string list" where
  "strtok_dots s =
     (case dropWhile (\<lambda>c. c = CHR ''.'') s of
        [] \<Rightarrow> []
      | c # r \<Rightarrow> (c # takeWhile (\<lambda>c. c \<noteq> CHR ''.'') r) # strtok_dots (dropWhile (\<lambda>c. c \<noteq> CHR ''.'') r))"
  by pat_completeness auto
termination
proof (relation "measure length")
  fix s c r
  assume a: "dropWhile (\<lambda>c. c = CHR ''.'') s = c # r"
  have "length (dropWhile (\<lambda>c. c \<noteq> CHR ''.'') r) \<le> length r" by (rule length_dropWhile_le)
  also have "length r < length (dropWhile (\<lambda>c. c = CHR ''.'') s)" using a by simp
  also have "\<dots> \<le> length s" by (rule length_dropWhile_le)
  finally show "(dropWhile (\<lambda>c. c \<noteq> CHR ''.'') r, s) \<in> measure length" by simp
qed simp

declare strtok_dots.simps [simp del]

fun pack_labels :: "nat \<Rightarrow> string list \<Rightarrow> string res" where
  "pack_labels sz [] = Inr []"
| "pack_labels sz (t # ts) =
     res_bind (rfc1035LabelPack sz (Some t)) (\<lambda>b. res_bind (pack_labels (sz - length b) ts) (\<lambda>bs. Inr (b @ bs)))"

definition rfc1035NamePack :: "nat \<Rightarrow> string \<Rightarrow> string res" where
  "rfc1035NamePack sz name =
     res_bind (pack_labels sz (strtok_dots name)) (\<lambda>b.
     res_bind (rfc1035LabelPack (sz - length b) None) (\<lambda>z.
     res_bind (res_guard (length (b @ z) \<le> sz) Assertion) (\<lambda>_. Inr (b @ z))))"

definition rfc1035QuestionPack :: "nat \<Rightarrow> string \<Rightarrow> 16 word \<Rightarrow> 16 word \<Rightarrow> string res" where
  "rfc1035QuestionPack sz name type class =
     res_bind (rfc1035NamePack sz name) (\<lambda>n.
     res_bind (put_bytes (sz - length n) (be16 type)) (\<lambda>t.
     res_bind (put_bytes (sz - length n - length t) (be16 class)) (\<lambda>c.
     res_bind (res_guard (length (n @ t @ c) \<le> sz) Assertion) (\<lambda>_. Inr (n @ t @ c)))))"

text \<open>
  The last copy of \<^verbatim>\<open>rfc1035RRPack\<close> starts at the address of the field \<^verbatim>\<open>rdata\<close>, not where it points: \<open>field\<close> is the memory from
  that address on. An error, the result 0, adds nothing.
\<close>

definition rfc1035RRPack :: "string \<Rightarrow> nat \<Rightarrow> rfc1035_rr \<Rightarrow> string res" where
  "rfc1035RRPack field sz RR =
     res_bind (rfc1035NamePack sz (rr_name RR)) (\<lambda>n.
     if length n + 2 * 3 + 4 + rr_rdlength RR > sz then Inr []
     else res_bind (get_bytes field 0 (rr_rdlength RR)) (\<lambda>d.
       let b = n @ be16 (rr_type RR) @ be16 (rr_class RR) @ be32 (rr_ttl RR) @ be16 (word_of_nat (rr_rdlength RR)) @ d
       in res_bind (res_guard (length b \<le> sz) Assertion) (\<lambda>_. Inr b)))"

definition rfc2671RROptPack :: "int \<Rightarrow> nat \<Rightarrow> int \<Rightarrow> string res" where
  "rfc2671RROptPack SQUID_UDP_SO_RCVBUF sz edns_sz =
     rfc1035RRPack [] sz \<lparr>rr_name = ''.'', rr_type = RFC1035_TYPE_OPT, rr_class = word_of_int (min edns_sz (SQUID_UDP_SO_RCVBUF - 1)),
       rr_ttl = 0, rr_rdlength = 0, rr_rdata = []\<rparr>"

text \<open>\<^verbatim>\<open>xstrncpy(dst, src, n)\<close>.\<close>

definition xstrncpy :: "string \<Rightarrow> nat \<Rightarrow> string" where
  "xstrncpy src n = take (n - 1) src"

definition query_header :: "16 word \<Rightarrow> int \<Rightarrow> rfc1035_message" where
  "query_header qid edns_sz = zero_message\<lparr>msg_id := qid, msg_rd := 1, msg_qdcount := 1, msg_arcount := (if edns_sz > 0 then 1 else 0)\<rparr>"

definition rfc3596BuildHostQuery :: "int \<Rightarrow> string \<Rightarrow> nat \<Rightarrow> 16 word \<Rightarrow> 16 word \<Rightarrow> int \<Rightarrow> (string \<times> rfc1035_query) res" where
  "rfc3596BuildHostQuery rcvbuf hostname sz qid qtype edns_sz =
     res_bind (rfc1035HeaderPack sz (query_header qid edns_sz)) (\<lambda>h.
     res_bind (rfc1035QuestionPack (sz - length h) hostname qtype RFC1035_CLASS_IN) (\<lambda>q.
     res_bind (if edns_sz > 0 then rfc2671RROptPack rcvbuf (sz - length h - length q) edns_sz else Inr []) (\<lambda>r.
     res_bind (res_guard (length (h @ q @ r) \<le> sz) Assertion) (\<lambda>_.
     Inr (h @ q @ r, \<lparr>q_name = xstrncpy hostname RFC1035_MAXHOSTNAMESZ, q_qtype = qtype, q_qclass = RFC1035_CLASS_IN\<rparr>)))))"

definition rfc1035BuildAQuery :: "int \<Rightarrow> string \<Rightarrow> nat \<Rightarrow> 16 word \<Rightarrow> int \<Rightarrow> (string \<times> rfc1035_query) res" where
  "rfc1035BuildAQuery rcvbuf hostname sz qid edns_sz =
     res_bind (rfc1035HeaderPack sz (query_header qid edns_sz)) (\<lambda>h.
     res_bind (rfc1035QuestionPack (sz - length h) hostname RFC1035_TYPE_A RFC1035_CLASS_IN) (\<lambda>q.
     res_bind (if edns_sz > 0 then rfc2671RROptPack rcvbuf (sz - length h - length q) edns_sz else Inr []) (\<lambda>r.
     res_bind (res_guard (length (h @ q @ r) \<le> sz) Assertion) (\<lambda>_.
     Inr (h @ q @ r, \<lparr>q_name = xstrncpy hostname RFC1035_MAXHOSTNAMESZ, q_qtype = RFC1035_TYPE_A, q_qclass = RFC1035_CLASS_IN\<rparr>)))))"

text \<open>The reverse name of an address; \<^verbatim>\<open>rev\<close> of \<^verbatim>\<open>rfc1035BuildPTRQuery\<close> has 32 bytes, which is enough.\<close>

definition ptr4_name :: "32 word \<Rightarrow> string" where
  "ptr4_name i =
     show_nat (unat (i AND 255)) @ ''.'' @ show_nat (unat (drop_bit 8 i AND 255)) @ ''.'' @
     show_nat (unat (drop_bit 16 i AND 255)) @ ''.'' @ show_nat (unat (drop_bit 24 i AND 255)) @ ''.in-addr.arpa.''"

definition rfc1035BuildPTRQuery :: "int \<Rightarrow> 32 word \<Rightarrow> nat \<Rightarrow> 16 word \<Rightarrow> int \<Rightarrow> (string \<times> rfc1035_query) res" where
  "rfc1035BuildPTRQuery rcvbuf addr sz qid edns_sz =
     (let rev = take 31 (ptr4_name addr)
      in res_bind (rfc1035HeaderPack sz (query_header qid edns_sz)) (\<lambda>h.
         res_bind (rfc1035QuestionPack (sz - length h) rev RFC1035_TYPE_PTR RFC1035_CLASS_IN) (\<lambda>q.
         res_bind (if edns_sz > 0 then rfc2671RROptPack rcvbuf (sz - length h - length q) edns_sz else Inr []) (\<lambda>r.
         res_bind (res_guard (length (h @ q @ r) \<le> sz) Assertion) (\<lambda>_.
         Inr (h @ q @ r, \<lparr>q_name = xstrncpy rev RFC1035_MAXHOSTNAMESZ, q_qtype = RFC1035_TYPE_PTR, q_qclass = RFC1035_CLASS_IN\<rparr>))))))"

definition rfc3596BuildAQuery :: "int \<Rightarrow> string \<Rightarrow> nat \<Rightarrow> 16 word \<Rightarrow> int \<Rightarrow> (string \<times> rfc1035_query) res" where
  "rfc3596BuildAQuery rcvbuf hostname sz qid edns_sz = rfc3596BuildHostQuery rcvbuf hostname sz qid RFC1035_TYPE_A edns_sz"

definition rfc3596BuildAAAAQuery :: "int \<Rightarrow> string \<Rightarrow> nat \<Rightarrow> 16 word \<Rightarrow> int \<Rightarrow> (string \<times> rfc1035_query) res" where
  "rfc3596BuildAAAAQuery rcvbuf hostname sz qid edns_sz = rfc3596BuildHostQuery rcvbuf hostname sz qid RFC1035_TYPE_AAAA edns_sz"

definition rfc3596BuildPTRQuery4 :: "int \<Rightarrow> 32 word \<Rightarrow> nat \<Rightarrow> 16 word \<Rightarrow> int \<Rightarrow> (string \<times> rfc1035_query) res" where
  "rfc3596BuildPTRQuery4 rcvbuf addr sz qid edns_sz =
     rfc3596BuildHostQuery rcvbuf (take 255 (ptr4_name addr)) sz qid RFC1035_TYPE_PTR edns_sz"

text \<open>The sixteen bytes of the address, the last one first.\<close>

definition ptr6_name :: "8 word list \<Rightarrow> string" where
  "ptr6_name r = concat (map (\<lambda>b. show_hex (unat (b AND 15)) @ ''.'' @ show_hex (unat (drop_bit 4 b AND 15)) @ ''.'') (rev r)) @ ''ip6.arpa.''"

definition rfc3596BuildPTRQuery6 :: "int \<Rightarrow> 8 word list \<Rightarrow> nat \<Rightarrow> 16 word \<Rightarrow> int \<Rightarrow> (string \<times> rfc1035_query) res" where
  "rfc3596BuildPTRQuery6 rcvbuf addr sz qid edns_sz = rfc3596BuildHostQuery rcvbuf (ptr6_name addr) sz qid RFC1035_TYPE_PTR edns_sz"

definition rfc1035SetQueryID :: "string \<Rightarrow> 16 word \<Rightarrow> string res" where
  "rfc1035SetQueryID buf qid = (if 2 \<le> length buf then Inr (be16 qid @ drop 2 buf) else Inl OutOfBounds)"

section \<open>Unpacking\<close>

text \<open>The header, and the offset after it.\<close>

definition rfc1035HeaderUnpack :: "string \<Rightarrow> nat \<Rightarrow> (nat \<times> rfc1035_message) option res" where
  "rfc1035HeaderUnpack buf sz =
     (if sz < 12 then Inr None
      else res_bind (get16 buf 0) (\<lambda>i. res_bind (get16 buf 2) (\<lambda>t. res_bind (get16 buf 4) (\<lambda>qd.
        res_bind (get16 buf 6) (\<lambda>an. res_bind (get16 buf 8) (\<lambda>ns. res_bind (get16 buf 10) (\<lambda>ar.
        Inr (Some (12, zero_message\<lparr>msg_id := i, msg_qr := ucast (drop_bit 15 t AND 0x01), msg_opcode := ucast (drop_bit 11 t AND 0x0F),
          msg_aa := ucast (drop_bit 10 t AND 0x01), msg_tc := ucast (drop_bit 9 t AND 0x01), msg_rd := ucast (drop_bit 8 t AND 0x01),
          msg_ra := ucast (drop_bit 7 t AND 0x01), msg_rcode := ucast (t AND 0x0F), msg_qdcount := qd, msg_ancount := an,
          msg_nscount := ns, msg_arcount := ar\<rparr>)))))))))"

text \<open>
  The loop of \<^verbatim>\<open>rfc1035NameUnpack\<close>: \<open>name\<close> is what this call has written, \<open>ns\<close> the size of its array. The result is the offset behind
  the name, the sum for \<^verbatim>\<open>rdlength\<close> and the name.
\<close>

function NameUnpack_loop :: "string \<Rightarrow> nat \<Rightarrow> nat \<Rightarrow> nat \<Rightarrow> string \<Rightarrow> nat \<Rightarrow> nat \<Rightarrow> (nat \<times> nat \<times> string) option res" where
  "NameUnpack_loop buf sz off rdlength name ns rdepth =
     (if off \<ge> sz then Inr None
      else res_bind (get_bytes buf off 1) (\<lambda>s. let c = be_nat s in
        if c > 191 then
          if rdepth > 64 then Inr None
          else res_bind (get16 buf off) (\<lambda>s.
            if off + 2 > sz then Inr None
            else let ptr = unat (s AND 0x3FFF) in
              if ptr \<ge> sz then Inr None
              else res_bind (res_guard (ns - length name > 0) Assertion) (\<lambda>_.
                res_bind (NameUnpack_loop buf sz ptr rdlength [] (ns - length name) (rdepth + 1)) (\<lambda>r.
                case r of None \<Rightarrow> Inr None | Some (_, rdl, n) \<Rightarrow> Inr (Some (off + 2, rdl, name @ n)))))
        else if c > RFC1035_MAXLABELSZ then Inr None
        else if c = 0 then Inr (Some (off + 1, rdlength, butlast name))
        else if c > ns - length name - 1 then Inr None
        else if off + 1 + c \<ge> sz then Inr None
        else res_bind (get_bytes buf (off + 1) c) (\<lambda>l.
          let name' = name @ l @ ''.''; rdl = (rdlength + c + 1) mod 2 ^ 16 in
          if length name' < ns then NameUnpack_loop buf sz (off + 1 + c) rdl name' ns rdepth
          else res_bind (res_guard (length name' \<le> ns) Assertion) (\<lambda>_. Inr (Some (off + 1 + c, rdl, butlast name'))))))"
  by pat_completeness auto
termination
  by (relation "inv_image (less_than <*lex*> less_than) (\<lambda>(buf, sz, off, rdl, name, ns, rdepth). (65 - rdepth, sz - off))") auto

declare NameUnpack_loop.simps [simp del]

definition rfc1035NameUnpack :: "string \<Rightarrow> nat \<Rightarrow> nat \<Rightarrow> nat \<Rightarrow> nat \<Rightarrow> nat \<Rightarrow> (nat \<times> nat \<times> string) option res" where
  "rfc1035NameUnpack buf sz off rdlength ns rdepth =
     res_bind (res_guard (ns > 0) Assertion) (\<lambda>_. NameUnpack_loop buf sz off rdlength [] ns rdepth)"

text \<open>\<^verbatim>\<open>DNS_CNAME\<close> is nowhere defined: only the data of a PTR record is a name.\<close>

definition rfc1035RRUnpack :: "string \<Rightarrow> nat \<Rightarrow> nat \<Rightarrow> (nat \<times> rfc1035_rr) option res" where
  "rfc1035RRUnpack buf sz off =
     res_bind (rfc1035NameUnpack buf sz off 0 RFC1035_MAXHOSTNAMESZ 0) (\<lambda>r.
     case r of
       None \<Rightarrow> Inr None
     | Some (off1, _, name) \<Rightarrow>
         if off1 + 10 > sz then Inr None
         else res_bind (get16 buf off1) (\<lambda>type. res_bind (get16 buf (off1 + 2)) (\<lambda>class. res_bind (get32 buf (off1 + 4)) (\<lambda>ttl.
           res_bind (get16 buf (off1 + 8)) (\<lambda>l.
           let rdlength = unat l; off2 = off1 + 10; RR = \<lparr>rr_name = name, rr_type = type, rr_class = class, rr_ttl = ttl, rr_rdlength = rdlength, rr_rdata = []\<rparr>
           in if off2 + rdlength > sz then Inr None
              else res_bind
                (if type = RFC1035_TYPE_PTR then
                   res_bind (rfc1035NameUnpack buf sz off2 0 RFC1035_MAXHOSTNAMESZ 0) (\<lambda>p.
                   case p of
                     None \<Rightarrow> Inr None
                   | Some (rdata_off, rdl, d) \<Rightarrow>
                       if rdata_off > off2 + rdlength then Inr None else Inr (Some (RR\<lparr>rr_rdlength := rdl, rr_rdata := d\<rparr>)))
                 else res_bind (get_bytes buf off2 rdlength) (\<lambda>d. Inr (Some (RR\<lparr>rr_rdata := d\<rparr>)))) (\<lambda>x.
              case x of
                None \<Rightarrow> Inr None
              | Some RR \<Rightarrow>
                  res_bind (res_guard (off2 + rdlength \<le> sz) Assertion) (\<lambda>_. Inr (Some (off2 + rdlength, RR)))))))))"

definition rfc1035QueryUnpack :: "string \<Rightarrow> nat \<Rightarrow> nat \<Rightarrow> (nat \<times> rfc1035_query) option res" where
  "rfc1035QueryUnpack buf sz off =
     res_bind (rfc1035NameUnpack buf sz off 0 RFC1035_MAXHOSTNAMESZ 0) (\<lambda>r.
     case r of
       None \<Rightarrow> Inr None
     | Some (off1, _, name) \<Rightarrow>
         if off1 + 4 > sz then Inr None
         else res_bind (get16 buf off1) (\<lambda>t. res_bind (get16 buf (off1 + 2)) (\<lambda>c.
           Inr (Some (off1 + 4, \<lparr>q_name = name, q_qtype = t, q_qclass = c\<rparr>)))))"

text \<open>The bytes of an array up to its first zero byte, and without dots at the end.\<close>

definition c_str :: "string \<Rightarrow> string" where
  "c_str s = takeWhile (\<lambda>c. c \<noteq> CHR 0x00) s"

definition trim_dots :: "string \<Rightarrow> string" where
  "trim_dots s = rev (dropWhile (\<lambda>c. c = CHR ''.'') (rev s))"

text \<open>Whether two queries are equal (the result 0).\<close>

definition rfc1035QueryCompare :: "rfc1035_query \<Rightarrow> rfc1035_query \<Rightarrow> bool" where
  "rfc1035QueryCompare a b \<longleftrightarrow>
     q_qtype a = q_qtype b \<and> q_qclass a = q_qclass b \<and>
     (let na = c_str (q_name a); nb = c_str (q_name b);
          la = (if length na \<noteq> length nb then length (trim_dots na) else length na);
          lb = (if length na \<noteq> length nb then length (trim_dots nb) else length nb)
      in la = lb \<and> c_strncaseeq na nb la)"

fun unpack_answers :: "string \<Rightarrow> nat \<Rightarrow> nat \<Rightarrow> nat \<Rightarrow> rfc1035_rr list res" where
  "unpack_answers buf sz off 0 = Inr []"
| "unpack_answers buf sz off (Suc n) =
     (if off \<ge> sz then Inr []
      else res_bind (rfc1035RRUnpack buf sz off) (\<lambda>r.
        case r of
          None \<Rightarrow> Inr []
        | Some (off1, RR) \<Rightarrow> res_bind (unpack_answers buf sz off1 n) (\<lambda>rs. Inr (RR # rs))))"

text \<open>The result and the message stored for the caller, when one is.\<close>

definition rfc1035MessageUnpack :: "string \<Rightarrow> nat \<Rightarrow> (int \<times> rfc1035_message option) res" where
  "rfc1035MessageUnpack buf sz =
     res_bind (rfc1035HeaderUnpack buf sz) (\<lambda>h.
     case h of
       None \<Rightarrow> Inr (- rfc1035_unpack_error, None)
     | Some (off, msg) \<Rightarrow>
         if msg_qdcount msg \<noteq> 1 then Inr (- rfc1035_unpack_error, None)
         else res_bind (rfc1035QueryUnpack buf sz off) (\<lambda>q.
           case q of
             None \<Rightarrow> Inr (- rfc1035_unpack_error, None)
           | Some (off1, query) \<Rightarrow>
               let msg1 = msg\<lparr>msg_query := Some query\<rparr> in
               if msg_rcode msg \<noteq> 0 then Inr (- uint (msg_rcode msg), Some msg1)
               else if msg_ancount msg = 0 then Inr (0, Some msg1)
               else res_bind (unpack_answers buf sz off1 (unat (msg_ancount msg))) (\<lambda>rs.
                 if rs = [] then Inr (- rfc1035_unpack_error, None)
                 else Inr (int (length rs), Some (msg1\<lparr>msg_answer := rs\<rparr>)))))"

definition rfc1035ErrorMessage :: "int \<Rightarrow> string" where
  "rfc1035ErrorMessage n =
     (let m = \<bar>n\<bar> in
      if m = 0 then ''No error condition''
      else if m = 1 then ''Format Error: The name server was unable to interpret the query.''
      else if m = 2 then ''Server Failure: The name server was unable to process this query.''
      else if m = 3 then ''Name Error: The domain name does not exist.''
      else if m = 4 then ''Not Implemented: The name server does not support the requested kind of query.''
      else if m = 5 then ''Refused: The name server refuses to perform the specified operation.''
      else if m = rfc1035_unpack_error then ''The DNS reply message is corrupt or could not be safely parsed.''
      else ''Unknown Error'')"

section \<open>Words\<close>

lemma byte_of_char [simp]: "byte_of (char_of n) = n mod 256"
  unfolding byte_of_def by (simp add: of_char_of)

lemma byte_of_bound: "byte_of c < 256"
proof -
  have "byte_of c mod 256 = byte_of c" unfolding byte_of_def by (rule of_char_mod_256)
  then show ?thesis by (metis mod_less_divisor zero_less_numeral)
qed

lemma length_be [simp]: "length (be16 w) = 2" "length (be32 i) = 4"
  by (simp_all add: be16_def be32_def)

lemma be_nat_be16: "be_nat (be16 w) = unat w"
proof -
  have "unat w < 65536" using unsigned_less [of w, where ?'a = nat] by simp
  then have "unat w div 256 mod 256 = unat w div 256" by (simp add: less_mult_imp_div_less)
  then show ?thesis by (simp add: be_nat_def be16_def)
qed

lemma get_bytes_append [simp]: "get_bytes (a @ s @ b) (length a) (length s) = Inr s"
  by (simp add: get_bytes_def)

lemma get_bytes_len: "get_bytes buf off n = Inr s \<Longrightarrow> length s = n"
  by (auto simp: get_bytes_def split: if_splits)

lemma get16_append: "off = length a \<Longrightarrow> get16 (a @ be16 w @ b) off = Inr w"
proof -
  assume "off = length a"
  then have "get_bytes (a @ be16 w @ b) off 2 = Inr (be16 w)" using get_bytes_append [of a "be16 w" b] by simp
  then show ?thesis by (simp add: get16_def be_nat_be16)
qed

lemma get_ok: "off + n \<le> length buf \<Longrightarrow> \<exists>s. get_bytes buf off n = Inr s \<and> length s = n"
  by (auto simp: get_bytes_def)

lemma get16_ok: "off + 2 \<le> length buf \<Longrightarrow> \<exists>w. get16 buf off = Inr w"
  by (auto simp: get16_def get_bytes_def)

lemma get32_ok: "off + 4 \<le> length buf \<Longrightarrow> \<exists>w. get32 buf off = Inr w"
  by (auto simp: get32_def get_bytes_def)

lemma bit_narrow: "1 \<le> n \<Longrightarrow> \<not> bit (x :: 1 word) n" "4 \<le> n \<Longrightarrow> \<not> bit (y :: 4 word) n"
  using bit_imp_le_length [of x n] bit_imp_le_length [of y n] by auto

lemma header_flags_fields:
  "ucast (drop_bit 15 (header_flags h) AND 0x01) = msg_qr h" "ucast (drop_bit 11 (header_flags h) AND 0x0F) = msg_opcode h"
  "ucast (drop_bit 10 (header_flags h) AND 0x01) = msg_aa h" "ucast (drop_bit 9 (header_flags h) AND 0x01) = msg_tc h"
  "ucast (drop_bit 8 (header_flags h) AND 0x01) = msg_rd h" "ucast (drop_bit 7 (header_flags h) AND 0x01) = msg_ra h"
  "ucast (header_flags h AND 0x0F) = msg_rcode h"
proof -
  have n4: "n = 0 \<or> n = 1 \<or> n = 2 \<or> n = 3" if "n < 4" for n :: nat using that by linarith
  show "ucast (drop_bit 15 (header_flags h) AND 0x01) = msg_qr h" "ucast (drop_bit 10 (header_flags h) AND 0x01) = msg_aa h"
      "ucast (drop_bit 9 (header_flags h) AND 0x01) = msg_tc h" "ucast (drop_bit 8 (header_flags h) AND 0x01) = msg_rd h"
      "ucast (drop_bit 7 (header_flags h) AND 0x01) = msg_ra h"
    by (rule bit_word_eqI; simp add: header_flags_def bit_simps bit_narrow)+
  show "ucast (drop_bit 11 (header_flags h) AND 0x0F) = msg_opcode h"
  proof (rule bit_word_eqI)
    fix n
    assume "n < LENGTH(4)"
    then have "n < 4" by simp
    from n4 [OF this] show "bit (ucast (drop_bit 11 (header_flags h) AND 0x0F) :: 4 word) n = bit (msg_opcode h) n"
      by (elim disjE; simp add: header_flags_def bit_simps bit_narrow)
  qed
  show "ucast (header_flags h AND 0x0F) = msg_rcode h"
  proof (rule bit_word_eqI)
    fix n
    assume "n < LENGTH(4)"
    then have "n < 4" by simp
    from n4 [OF this] show "bit (ucast (header_flags h AND 0x0F) :: 4 word) n = bit (msg_rcode h) n"
      by (elim disjE; simp add: header_flags_def bit_simps bit_narrow)
  qed
qed


lemma header_roundtrip:
  assumes "12 \<le> room"
  shows "\<exists>b. rfc1035HeaderPack room h = Inr b \<and> length b = 12 \<and>
    (\<forall>rest sz. 12 \<le> sz \<longrightarrow> rfc1035HeaderUnpack (b @ rest) sz = Inr (Some (12, h\<lparr>msg_query := None, msg_answer := []\<rparr>)))"
proof -
  let ?b = "be16 (msg_id h) @ be16 (header_flags h) @ be16 (msg_qdcount h) @ be16 (msg_ancount h) @ be16 (msg_nscount h) @ be16 (msg_arcount h)"
  have "rfc1035HeaderPack room h = Inr ?b" using assms by (simp add: rfc1035HeaderPack_def)
  moreover have "rfc1035HeaderUnpack (?b @ rest) sz = Inr (Some (12, h\<lparr>msg_query := None, msg_answer := []\<rparr>))" if "12 \<le> sz" for rest sz
  proof -
    have g: "get16 (?b @ rest) 0 = Inr (msg_id h)" "get16 (?b @ rest) 2 = Inr (header_flags h)" "get16 (?b @ rest) 4 = Inr (msg_qdcount h)"
        "get16 (?b @ rest) 6 = Inr (msg_ancount h)" "get16 (?b @ rest) 8 = Inr (msg_nscount h)" "get16 (?b @ rest) 10 = Inr (msg_arcount h)"
      using get16_append [of 0 "[]"] get16_append [of 2 "be16 (msg_id h)"] get16_append [of 4 "be16 (msg_id h) @ be16 (header_flags h)"]
        get16_append [of 6 "be16 (msg_id h) @ be16 (header_flags h) @ be16 (msg_qdcount h)"]
        get16_append [of 8 "be16 (msg_id h) @ be16 (header_flags h) @ be16 (msg_qdcount h) @ be16 (msg_ancount h)"]
        get16_append [of 10 "be16 (msg_id h) @ be16 (header_flags h) @ be16 (msg_qdcount h) @ be16 (msg_ancount h) @ be16 (msg_nscount h)"]
      by simp_all
    show ?thesis unfolding rfc1035HeaderUnpack_def using that by (simp only: g res_bind_simps header_flags_fields) (simp add: zero_message_def)
  qed
  ultimately show ?thesis by (intro exI [of _ ?b]) simp
qed

section \<open>Names on the wire\<close>

definition byte_at :: "string \<Rightarrow> nat \<Rightarrow> nat" where
  "byte_at buf off = byte_of (buf ! off)"

text \<open>
  \<open>dns_name buf sz off e d ls t\<close>: at \<open>off\<close> there is a name with the labels \<open>ls\<close>; it ends before \<open>e\<close>, goes through \<open>d\<close>
  compression pointers, and \<open>t\<close> says whether the last of them leads straight to the root.
\<close>

inductive dns_name :: "string \<Rightarrow> nat \<Rightarrow> nat \<Rightarrow> nat \<Rightarrow> nat \<Rightarrow> string list \<Rightarrow> bool \<Rightarrow> bool" for buf sz where
  root: "off < sz \<Longrightarrow> byte_at buf off = 0 \<Longrightarrow> dns_name buf sz off (off + 1) 0 [] False"
| label: "dns_name buf sz (off + 1 + c) e d ls t \<Longrightarrow> off + 1 + c < sz \<Longrightarrow> byte_at buf off = c \<Longrightarrow> 0 < c \<Longrightarrow> c \<le> 63 \<Longrightarrow>
    l = take c (drop (off + 1) buf) \<Longrightarrow> dns_name buf sz off e d (l # ls) t"
| pointer: "dns_name buf sz ptr e d ls t \<Longrightarrow> off + 2 \<le> sz \<Longrightarrow> 191 < byte_at buf off \<Longrightarrow>
    ptr = (256 * byte_at buf off + byte_at buf (off + 1)) mod 2 ^ 14 \<Longrightarrow> ptr < sz \<Longrightarrow> dns_name buf sz off (off + 2) (Suc d) ls (t \<or> ls = [])"

text \<open>
  \<open>dns_labels buf sz off e d ls\<close>: the labels \<open>ls\<close> can be read from \<open>off\<close> on, whatever comes after the last of them. A name that points back into itself
  has such labels without end, but no root.
\<close>

inductive dns_labels :: "string \<Rightarrow> nat \<Rightarrow> nat \<Rightarrow> nat \<Rightarrow> nat \<Rightarrow> string list \<Rightarrow> bool" for buf sz where
  last: "off + 1 + c < sz \<Longrightarrow> byte_at buf off = c \<Longrightarrow> 0 < c \<Longrightarrow> c \<le> 63 \<Longrightarrow>
    l = take c (drop (off + 1) buf) \<Longrightarrow> dns_labels buf sz off (off + 1 + c) 0 [l]"
| label: "dns_labels buf sz (off + 1 + c) e d ls \<Longrightarrow> off + 1 + c < sz \<Longrightarrow> byte_at buf off = c \<Longrightarrow> 0 < c \<Longrightarrow> c \<le> 63 \<Longrightarrow>
    l = take c (drop (off + 1) buf) \<Longrightarrow> dns_labels buf sz off e d (l # ls)"
| pointer: "dns_labels buf sz ptr e d ls \<Longrightarrow> off + 2 \<le> sz \<Longrightarrow> 191 < byte_at buf off \<Longrightarrow>
    ptr = (256 * byte_at buf off + byte_at buf (off + 1)) mod 2 ^ 14 \<Longrightarrow> ptr < sz \<Longrightarrow> dns_labels buf sz off (off + 2) (Suc d) ls"

lemma dns_labels_nonempty: "dns_labels buf sz off e d ls \<Longrightarrow> ls \<noteq> []"
  by (induction rule: dns_labels.induct) simp_all

definition labels_size :: "string list \<Rightarrow> nat" where
  "labels_size ls = sum_list (map (\<lambda>l. length l + 1) ls)"

definition dotted :: "string list \<Rightarrow> string" where
  "dotted ls = concat (map (\<lambda>l. l @ ''.'') ls)"

definition name_text :: "string list \<Rightarrow> bool \<Rightarrow> string" where
  "name_text ls t = (if t then dotted ls else butlast (dotted ls))"

lemma labels_size_simps [simp]: "labels_size [] = 0" "labels_size (l # ls) = length l + 1 + labels_size ls"
  by (simp_all add: labels_size_def)

lemma dotted_simps [simp]: "dotted [] = []" "dotted (l # ls) = l @ ''.'' @ dotted ls"
  by (simp_all add: dotted_def)

lemma length_dotted [simp]: "length (dotted ls) = labels_size ls"
  by (induction ls) simp_all

lemma dotted_Nil [simp]: "dotted ls = [] \<longleftrightarrow> ls = []"
  by (cases ls) simp_all

lemma get_byte: "off < length buf \<Longrightarrow> get_bytes buf off (Suc 0) = Inr [buf ! off]"
  by (simp add: get_bytes_def take_Suc_conv_app_nth hd_drop_conv_nth take_Suc)

lemma be_nat_at: "be_nat [buf ! off] = byte_at buf off"
  by (simp add: be_nat_def byte_at_def)

lemma unat_and_mask14: "v < 65536 \<Longrightarrow> unat ((word_of_nat v :: 16 word) AND 0x3FFF) = v mod 2 ^ 14"
proof -
  assume v: "v < 65536"
  have "(word_of_nat v :: 16 word) AND 0x3FFF = take_bit 14 (word_of_nat v)" by (simp add: take_bit_eq_mask mask_eq_exp_minus_1)
  then have "unat ((word_of_nat v :: 16 word) AND 0x3FFF) = take_bit 14 (unat (word_of_nat v :: 16 word))" by (simp only: unsigned_take_bit_eq)
  also have "unat (word_of_nat v :: 16 word) = v" using v by (simp add: unsigned_of_nat take_bit_eq_mod)
  finally show ?thesis by (simp only: take_bit_eq_mod)
qed

lemma get_pointer:
  assumes "off + 2 \<le> length buf"
  shows "\<exists>s. get16 buf off = Inr s \<and> unat (s AND 0x3FFF) = (256 * byte_at buf off + byte_at buf (off + 1)) mod 2 ^ 14"
proof -
  let ?v = "256 * byte_at buf off + byte_at buf (off + 1)"
  have "take 2 (drop off buf) = [buf ! off, buf ! (off + 1)]"
    using assms by (simp add: take_Suc_conv_app_nth numeral_2_eq_2 nth_drop)
  then have "get_bytes buf off 2 = Inr [buf ! off, buf ! (off + 1)]" using assms by (simp add: get_bytes_def)
  then have g: "get16 buf off = Inr (word_of_nat ?v)" by (simp add: get16_def be_nat_def byte_at_def)
  have "?v < 65536" using byte_of_bound [of "buf ! off"] byte_of_bound [of "buf ! (off + 1)"] by (simp add: byte_at_def)
  then have "unat ((word_of_nat ?v :: 16 word) AND 0x3FFF) = ?v mod 2 ^ 14" by (rule unat_and_mask14)
  then show ?thesis using g by blast
qed


text \<open>One turn of the loop, by the byte it reads.\<close>

lemma name_root:
  assumes "off < sz" and "sz \<le> length buf" and "byte_at buf off = 0"
  shows "NameUnpack_loop buf sz off rdl name ns rd = Inr (Some (off + 1, rdl, butlast name))"
  using assms by (subst NameUnpack_loop.simps) (simp add: get_byte be_nat_at RFC1035_MAXLABELSZ_def)

lemma name_label:
  assumes "off < sz" and "sz \<le> length buf" and "0 < byte_at buf off" and "byte_at buf off \<le> 63"
    and "off + 1 + byte_at buf off < sz" and "byte_at buf off \<le> ns - length name - 1"
  defines "l \<equiv> take (byte_at buf off) (drop (off + 1) buf)"
  shows "NameUnpack_loop buf sz off rdl name ns rd =
    (if length name + byte_at buf off + 1 < ns
     then NameUnpack_loop buf sz (off + 1 + byte_at buf off) ((rdl + byte_at buf off + 1) mod 2 ^ 16) (name @ l @ ''.'') ns rd
     else res_bind (res_guard (length name + byte_at buf off + 1 \<le> ns) Assertion) (\<lambda>_.
       Inr (Some (off + 1 + byte_at buf off, (rdl + byte_at buf off + 1) mod 2 ^ 16, name @ l))))"
proof -
  let ?c = "byte_at buf off"
  have g: "get_bytes buf (off + 1) ?c = Inr l" using assms(2,5) by (simp add: get_bytes_def l_def)
  have len: "length l = ?c" using g by (rule get_bytes_len)
  have "off < length buf" using assms(1,2) by simp
  then show ?thesis
    using assms(1-6) g len by (subst NameUnpack_loop.simps) (simp add: get_byte be_nat_at RFC1035_MAXLABELSZ_def Let_def butlast_append)
qed

lemma name_pointer:
  assumes "off < sz" and "sz \<le> length buf" and "191 < byte_at buf off" and "off + 2 \<le> sz" and "rd \<le> 64" and "length name < ns"
  defines "ptr \<equiv> (256 * byte_at buf off + byte_at buf (off + 1)) mod 2 ^ 14"
  shows "NameUnpack_loop buf sz off rdl name ns rd =
    (if sz \<le> ptr then Inr None
     else res_bind (NameUnpack_loop buf sz ptr rdl [] (ns - length name) (rd + 1)) (\<lambda>r.
       case r of None \<Rightarrow> Inr None | Some (_, rdl, n) \<Rightarrow> Inr (Some (off + 2, rdl, name @ n))))"
proof -
  obtain s where "get16 buf off = Inr s" "unat (s AND 0x3FFF) = ptr" using get_pointer [of off buf] assms(2,4) unfolding ptr_def by auto
  then show ?thesis
    using assms(1-6) by (subst NameUnpack_loop.simps) (simp add: get_byte be_nat_at Let_def)
qed

lemma name_refused:
  assumes "off < sz" and "sz < length buf"
  shows "191 < byte_at buf off \<Longrightarrow> 64 < rd \<or> sz < off + 2 \<Longrightarrow> NameUnpack_loop buf sz off rdl name ns rd = Inr None"
    and "63 < byte_at buf off \<Longrightarrow> byte_at buf off \<le> 191 \<Longrightarrow> NameUnpack_loop buf sz off rdl name ns rd = Inr None"
    and "0 < byte_at buf off \<Longrightarrow> byte_at buf off \<le> 63 \<Longrightarrow> ns - length name - 1 < byte_at buf off \<or> sz \<le> off + 1 + byte_at buf off \<Longrightarrow>
      NameUnpack_loop buf sz off rdl name ns rd = Inr None"
proof -
  have lt: "off < length buf" "off + 2 \<le> length buf" using assms by simp_all
  obtain s where s: "get16 buf off = Inr s" using get16_ok [OF lt(2)] by blast
  show "191 < byte_at buf off \<Longrightarrow> 64 < rd \<or> sz < off + 2 \<Longrightarrow> NameUnpack_loop buf sz off rdl name ns rd = Inr None"
    using assms lt s by (subst NameUnpack_loop.simps) (auto simp: get_byte be_nat_at)
  show "63 < byte_at buf off \<Longrightarrow> byte_at buf off \<le> 191 \<Longrightarrow> NameUnpack_loop buf sz off rdl name ns rd = Inr None"
    using assms lt by (subst NameUnpack_loop.simps) (simp add: get_byte be_nat_at RFC1035_MAXLABELSZ_def)
  show "0 < byte_at buf off \<Longrightarrow> byte_at buf off \<le> 63 \<Longrightarrow> ns - length name - 1 < byte_at buf off \<or> sz \<le> off + 1 + byte_at buf off \<Longrightarrow>
      NameUnpack_loop buf sz off rdl name ns rd = Inr None"
    using assms lt by (subst NameUnpack_loop.simps) (auto simp: get_byte be_nat_at RFC1035_MAXLABELSZ_def Let_def)
qed

lemma name_complete:
  assumes "dns_name buf sz off e d ls t" and "sz \<le> length buf"
  shows "d + rd \<le> 65 \<longrightarrow> length name + labels_size ls < ns \<longrightarrow> rdl + labels_size ls < 2 ^ 16 \<longrightarrow>
    NameUnpack_loop buf sz off rdl name ns rd =
      Inr (Some (e, rdl + labels_size ls, if t then name @ dotted ls else butlast (name @ dotted ls)))"
  using assms
proof (induction arbitrary: rd name ns rdl rule: dns_name.induct)
  case (root off)
  then show ?case by (simp add: name_root)
next
  case (label off c e d ls t l)
  show ?case
  proof (intro impI)
    assume a: "d + rd \<le> 65" "length name + labels_size (l # ls) < ns" "rdl + labels_size (l # ls) < 2 ^ 16"
    have len: "length l = c" using label.hyps(2,6) label.prems by simp
    have off: "off < sz" using label.hyps(2) by simp
    have "NameUnpack_loop buf sz off rdl name ns rd = NameUnpack_loop buf sz (off + 1 + c) (rdl + c + 1) (name @ l @ ''.'') ns rd"
      using name_label [OF off label.prems, of ns name rdl rd] label.hyps(2-6) a(2,3) len by simp
    then show "NameUnpack_loop buf sz off rdl name ns rd =
        Inr (Some (e, rdl + labels_size (l # ls), if t then name @ dotted (l # ls) else butlast (name @ dotted (l # ls))))"
      using label.IH [OF label.prems, of rd "name @ l @ ''.''" ns "rdl + c + 1"] a len by (simp add: algebra_simps)
  qed
next
  case (pointer ptr e d ls t off)
  show ?case
  proof (intro impI)
    assume a: "Suc d + rd \<le> 65" "length name + labels_size ls < ns" "rdl + labels_size ls < 2 ^ 16"
    have n: "NameUnpack_loop buf sz ptr rdl [] (ns - length name) (rd + 1) =
        Inr (Some (e, rdl + labels_size ls, if t then dotted ls else butlast (dotted ls)))"
      using pointer.IH [OF pointer.prems, of "rd + 1" "[]" "ns - length name" rdl] a by auto
    have "off < sz" "rd \<le> 64" "length name < ns" using pointer.hyps(2) a by simp_all
    from name_pointer [OF this(1) pointer.prems pointer.hyps(3,2) this(2,3), of rdl]
    show "NameUnpack_loop buf sz off rdl name ns rd =
        Inr (Some (off + 2, rdl + labels_size ls, if t \<or> ls = [] then name @ dotted ls else butlast (name @ dotted ls)))"
      using pointer.hyps(4,5) n by (simp add: butlast_append)
  qed
qed

text \<open>Labels that fill the array exactly end the loop, without a look at what follows them.\<close>

lemma labels_complete:
  assumes "dns_labels buf sz off e d ls" and "sz \<le> length buf"
  shows "d + rd \<le> 65 \<longrightarrow> length name + labels_size ls = ns \<longrightarrow> rdl + labels_size ls < 2 ^ 16 \<longrightarrow>
    NameUnpack_loop buf sz off rdl name ns rd = Inr (Some (e, rdl + labels_size ls, butlast (name @ dotted ls)))"
  using assms
proof (induction arbitrary: rd name ns rdl rule: dns_labels.induct)
  case (last off c l)
  then have "length l = c" "off < sz" by simp_all
  then show ?case using name_label [of off sz buf ns name rdl rd] last by (simp add: butlast_append)
next
  case (label off c e d ls l)
  show ?case
  proof (intro impI)
    assume a: "d + rd \<le> 65" "length name + labels_size (l # ls) = ns" "rdl + labels_size (l # ls) < 2 ^ 16"
    have len: "length l = c" using label.hyps(2,6) label.prems by simp
    have off: "off < sz" using label.hyps(2) by simp
    have "0 < labels_size ls" using dns_labels_nonempty [OF label.hyps(1)] by (cases ls) simp_all
    then have "NameUnpack_loop buf sz off rdl name ns rd = NameUnpack_loop buf sz (off + 1 + c) (rdl + c + 1) (name @ l @ ''.'') ns rd"
      using name_label [OF off label.prems, of ns name rdl rd] label.hyps(2-6) a(2,3) len by simp
    then show "NameUnpack_loop buf sz off rdl name ns rd = Inr (Some (e, rdl + labels_size (l # ls), butlast (name @ dotted (l # ls))))"
      using label.IH [OF label.prems, of rd "name @ l @ ''.''" ns "rdl + c + 1"] a len by (simp add: algebra_simps)
  qed
next
  case (pointer ptr e d ls off)
  show ?case
  proof (intro impI)
    assume a: "Suc d + rd \<le> 65" "length name + labels_size ls = ns" "rdl + labels_size ls < 2 ^ 16"
    have ls: "ls \<noteq> []" by (rule dns_labels_nonempty [OF pointer.hyps(1)])
    then have "0 < labels_size ls" by (cases ls) simp_all
    then have "off < sz" "rd \<le> 64" "length name < ns" using pointer.hyps(2) a by simp_all
    note step = name_pointer [OF this(1) pointer.prems pointer.hyps(3,2) this(2,3), of rdl]
    have "NameUnpack_loop buf sz ptr rdl [] (ns - length name) (rd + 1) = Inr (Some (e, rdl + labels_size ls, butlast (dotted ls)))"
      using pointer.IH [OF pointer.prems, of "rd + 1" "[]" "ns - length name" rdl] a by auto
    then show "NameUnpack_loop buf sz off rdl name ns rd = Inr (Some (off + 2, rdl + labels_size ls, butlast (name @ dotted ls)))"
      using step pointer.hyps(4,5) ls by (simp add: butlast_append)
  qed
qed

text \<open>The four ways a turn can go, for a buffer with a byte behind the message.\<close>

lemma name_cases:
  assumes "off < sz" and "sz < length buf" and "length name < ns"
  obtains (refuse) "NameUnpack_loop buf sz off rdl name ns rd = Inr None"
  | (root) "byte_at buf off = 0"
  | (label) "0 < byte_at buf off" "byte_at buf off \<le> 63" "off + 1 + byte_at buf off < sz" "length name + byte_at buf off + 1 \<le> ns"
  | (pointer) "191 < byte_at buf off" "off + 2 \<le> sz" "rd \<le> 64" "(256 * byte_at buf off + byte_at buf (off + 1)) mod 2 ^ 14 < sz"
proof -
  note r = name_refused [OF assms(1,2), where rd = rd and rdl = rdl and name = name and ns = ns]
  show thesis
  proof (cases "byte_at buf off > 191")
    case True
    have le: "sz \<le> length buf" using assms(2) by simp
    show thesis
    proof (cases "64 < rd \<or> sz < off + 2")
      case False
      then have f: "off + 2 \<le> sz" "rd \<le> 64" by simp_all
      from name_pointer [OF assms(1) le True f assms(3), of rdl] show thesis using refuse pointer [OF True f] by (cases "sz \<le> (256 * byte_at buf off + byte_at buf (off + 1)) mod 2 ^ 14") auto
    qed (use r(1) [OF True] refuse in blast)
  next
    case small: False
    show thesis
    proof (cases "byte_at buf off > 63")
      case False
      show thesis
      proof (cases "byte_at buf off = 0")
        case nz: False
        show thesis
        proof (cases "ns - length name - 1 < byte_at buf off \<or> sz \<le> off + 1 + byte_at buf off")
          case True
          then show thesis using r(3) False nz refuse by simp
        next
          case ok: False
          then have "length name + byte_at buf off + 1 \<le> ns" using assms(3) by linarith
          then show thesis using label ok False nz by simp
        qed
      qed (rule root)
    qed (use r(2) small refuse in simp)
  qed
qed

text \<open>The measure that both recursive calls decrease.\<close>

definition name_measure :: "nat \<Rightarrow> nat \<Rightarrow> nat \<Rightarrow> nat" where
  "name_measure sz rd off = (65 - rd) * (sz + 1) + (sz - off)"

lemma name_measure_label: "off < sz \<Longrightarrow> name_measure sz rd (off + 1 + c) < name_measure sz rd off"
  by (simp add: name_measure_def)

lemma name_measure_pointer: "rd \<le> 64 \<Longrightarrow> name_measure sz (rd + 1) ptr < name_measure sz rd off"
proof -
  assume "rd \<le> 64"
  then have "65 - rd = Suc (65 - (rd + 1))" by simp
  then show ?thesis by (simp add: name_measure_def)
qed

text \<open>What a call can have read: a name that leaves room in its array, or labels that fill it.\<close>

definition name_read :: "string \<Rightarrow> nat \<Rightarrow> nat \<Rightarrow> nat \<Rightarrow> nat \<Rightarrow> nat \<Rightarrow> bool" where
  "name_read buf sz off e room deep \<longleftrightarrow>
     (\<exists>d ls t. dns_name buf sz off e d ls t \<and> d \<le> deep \<and> labels_size ls < room) \<or>
     (\<exists>d ls. dns_labels buf sz off e d ls \<and> d \<le> deep \<and> labels_size ls = room)"

lemma name_read_label:
  assumes "name_read buf sz (off + 1 + c) e room deep" and "off + 1 + c < sz" and "sz \<le> length buf" and "byte_at buf off = c" and "0 < c" and "c \<le> 63"
  shows "name_read buf sz off e (c + 1 + room) deep"
proof -
  let ?l = "take c (drop (off + 1) buf)"
  have len: "length ?l = c" using assms(2,3) by simp
  from assms(1) show ?thesis unfolding name_read_def
  proof (elim disjE exE conjE)
    fix d ls t
    assume "dns_name buf sz (off + 1 + c) e d ls t" "d \<le> deep" "labels_size ls < room"
    then show "(\<exists>d ls t. dns_name buf sz off e d ls t \<and> d \<le> deep \<and> labels_size ls < c + 1 + room) \<or>
        (\<exists>d ls. dns_labels buf sz off e d ls \<and> d \<le> deep \<and> labels_size ls = c + 1 + room)"
      using dns_name.label [of buf sz off c e d ls t ?l] assms(2,4,5,6) len
      by (intro disjI1 exI [of _ d] exI [of _ "?l # ls"] exI [of _ t]) simp
  next
    fix d ls
    assume "dns_labels buf sz (off + 1 + c) e d ls" "d \<le> deep" "labels_size ls = room"
    then show "(\<exists>d ls t. dns_name buf sz off e d ls t \<and> d \<le> deep \<and> labels_size ls < c + 1 + room) \<or>
        (\<exists>d ls. dns_labels buf sz off e d ls \<and> d \<le> deep \<and> labels_size ls = c + 1 + room)"
      using dns_labels.label [of buf sz off c e d ls ?l] assms(2,4,5,6) len
      by (intro disjI2 exI [of _ d] exI [of _ "?l # ls"]) simp
  qed
qed

lemma name_read_pointer:
  assumes "name_read buf sz ptr e room deep" and "off + 2 \<le> sz" and "191 < byte_at buf off"
    and "ptr = (256 * byte_at buf off + byte_at buf (off + 1)) mod 2 ^ 14" and "ptr < sz"
  shows "name_read buf sz off (off + 2) room (Suc deep)"
  using assms(1) unfolding name_read_def
proof (elim disjE exE conjE)
  fix d ls t
  assume "dns_name buf sz ptr e d ls t" "d \<le> deep" "labels_size ls < room"
  then show "(\<exists>d ls t. dns_name buf sz off (off + 2) d ls t \<and> d \<le> Suc deep \<and> labels_size ls < room) \<or>
      (\<exists>d ls. dns_labels buf sz off (off + 2) d ls \<and> d \<le> Suc deep \<and> labels_size ls = room)"
    using dns_name.pointer [OF _ assms(2-5), of e d ls t] by (intro disjI1 exI [of _ "Suc d"] exI [of _ ls] exI [of _ "t \<or> ls = []"]) simp
next
  fix d ls
  assume "dns_labels buf sz ptr e d ls" "d \<le> deep" "labels_size ls = room"
  then show "(\<exists>d ls t. dns_name buf sz off (off + 2) d ls t \<and> d \<le> Suc deep \<and> labels_size ls < room) \<or>
      (\<exists>d ls. dns_labels buf sz off (off + 2) d ls \<and> d \<le> Suc deep \<and> labels_size ls = room)"
    using dns_labels.pointer [OF _ assms(2-5), of e d ls] by (intro disjI2 exI [of _ "Suc d"] exI [of _ ls]) simp
qed

lemma name_sound:
  assumes "sz < length buf"
  shows "length name < ns \<longrightarrow> NameUnpack_loop buf sz off rdl name ns rd = Inr (Some (e, rdl', n)) \<longrightarrow>
    name_read buf sz off e (ns - length name) (65 - rd)"
proof (induction "name_measure sz rd off" arbitrary: off rdl name ns rd e rdl' n rule: less_induct)
  case less
  show ?case
  proof (intro impI)
    assume ns: "length name < ns" and r: "NameUnpack_loop buf sz off rdl name ns rd = Inr (Some (e, rdl', n))"
    have off: "off < sz" using r by (subst (asm) NameUnpack_loop.simps) (auto split: if_splits)
    have le: "sz \<le> length buf" using assms by simp
    show "name_read buf sz off e (ns - length name) (65 - rd)"
    proof (cases rule: name_cases [OF off assms ns, of rdl rd])
      case 1
      then show ?thesis using r by simp
    next
      case 2
      then have "dns_name buf sz off e 0 [] False" using name_root [OF off le 2, of rdl name ns rd] r dns_name.root [OF off 2] by simp
      then show ?thesis unfolding name_read_def using ns by (intro disjI1 exI [of _ 0] exI [of _ "[]"] exI [of _ False]) simp
    next
      case 3
      let ?c = "byte_at buf off" and ?l = "take (byte_at buf off) (drop (off + 1) buf)"
      have len: "length ?l = ?c" using 3(3) le by simp
      have "?c \<le> ns - length name - 1" using 3(4) by simp
      note step = name_label [OF off le 3(1,2,3) this, of rdl rd]
      show ?thesis
      proof (cases "length name + ?c + 1 < ns")
        case False
        then have "ns - length name = ?c + 1" "e = off + 1 + ?c" using step r 3(4) by auto
        moreover have "dns_labels buf sz off (off + 1 + ?c) 0 [?l]" by (rule dns_labels.last) (use 3 in auto)
        ultimately show ?thesis unfolding name_read_def using len by (intro disjI2 exI [of _ 0] exI [of _ "[?l]"]) simp
      next
        case True
        have "name_read buf sz (off + 1 + ?c) e (ns - length (name @ ?l @ ''.'')) (65 - rd)"
        proof (rule less [rule_format])
          show "name_measure sz rd (off + 1 + ?c) < name_measure sz rd off" by (rule name_measure_label [OF off])
          show "NameUnpack_loop buf sz (off + 1 + ?c) ((rdl + ?c + 1) mod 2 ^ 16) (name @ ?l @ ''.'') ns rd = Inr (Some (e, rdl', n))"
            using step True r by simp
        qed (use True len in simp)
        from name_read_label [OF this 3(3) le refl 3(1,2)] have "name_read buf sz off e (?c + 1 + (ns - length (name @ ?l @ ''.''))) (65 - rd)" .
        moreover have "?c + 1 + (ns - length (name @ ?l @ ''.'')) = ns - length name" unfolding length_append len using True by simp
        ultimately show ?thesis by (simp only:)
      qed
    next
      case 4
      let ?p = "(256 * byte_at buf off + byte_at buf (off + 1)) mod 2 ^ 14"
      note step = name_pointer [OF off le 4(1,2,3) ns, of rdl]
      obtain e' n' where c: "NameUnpack_loop buf sz ?p rdl [] (ns - length name) (rd + 1) = Inr (Some (e', rdl', n'))" "e = off + 2"
        using step [symmetric] 4(4) unfolding r by (auto simp: res_bind_Inr_iff split: option.splits)
      have "name_read buf sz ?p e' (ns - length name - length ([] :: string)) (65 - (rd + 1))"
      proof (rule less [rule_format])
        show "name_measure sz (rd + 1) ?p < name_measure sz rd off" by (rule name_measure_pointer [OF 4(3)])
        show "NameUnpack_loop buf sz ?p rdl [] (ns - length name) (rd + 1) = Inr (Some (e', rdl', n'))" by (rule c(1))
      qed (use ns in simp)
      from name_read_pointer [OF this 4(2,1) refl 4(4)] have "name_read buf sz off e (ns - length name) (Suc (65 - (rd + 1)))" using c(2) by simp
      moreover have "Suc (65 - (rd + 1)) = 65 - rd" using 4(3) by simp
      ultimately show ?thesis by (simp only:)
    qed
  qed
qed


text \<open>Whatever the bytes are, unpacking a name ends within the message and within its array.\<close>

lemma name_safe:
  assumes "sz < length buf"
  shows "length name < ns \<longrightarrow> (\<exists>r. NameUnpack_loop buf sz off rdl name ns rd = Inr r \<and>
    (\<forall>e rdl' n. r = Some (e, rdl', n) \<longrightarrow> off < e \<and> e \<le> sz \<and> length n < ns))"
proof (induction "name_measure sz rd off" arbitrary: off rdl name ns rd rule: less_induct)
  case less
  show ?case
  proof (intro impI)
    assume ns: "length name < ns"
    have le: "sz \<le> length buf" using assms by simp
    let ?goal = "\<exists>r. NameUnpack_loop buf sz off rdl name ns rd = Inr r \<and> (\<forall>e rdl' n. r = Some (e, rdl', n) \<longrightarrow> off < e \<and> e \<le> sz \<and> length n < ns)"
    show ?goal
    proof (cases "off < sz")
      case False
      then show ?goal by (subst NameUnpack_loop.simps) simp
    next
      case off: True
      show ?goal
      proof (cases rule: name_cases [OF off assms ns, of rdl rd])
        case 1
        then show ?thesis by simp
      next
        case 2
        then show ?thesis using name_root [OF off le 2, of rdl name ns rd] off ns by simp
      next
        case 3
        let ?c = "byte_at buf off" and ?l = "take (byte_at buf off) (drop (off + 1) buf)"
        have len: "length ?l = ?c" using 3(3) le by simp
        have "?c \<le> ns - length name - 1" using 3(4) by simp
        note step = name_label [OF off le 3(1,2,3) this, of rdl rd]
        show ?thesis
        proof (cases "length name + ?c + 1 < ns")
          case True
          have "\<exists>r. NameUnpack_loop buf sz (off + 1 + ?c) ((rdl + ?c + 1) mod 2 ^ 16) (name @ ?l @ ''.'') ns rd = Inr r \<and>
              (\<forall>e rdl' n. r = Some (e, rdl', n) \<longrightarrow> off + 1 + ?c < e \<and> e \<le> sz \<and> length n < ns)"
            by (rule less [rule_format, OF name_measure_label [OF off]]) (use True len in simp)
          then show ?thesis unfolding step using True by fastforce
        next
          case False
          then show ?thesis using step 3(3,4) len by simp
        qed
      next
        case 4
        let ?p = "(256 * byte_at buf off + byte_at buf (off + 1)) mod 2 ^ 14"
        have "\<exists>r. NameUnpack_loop buf sz ?p rdl [] (ns - length name) (rd + 1) = Inr r \<and>
            (\<forall>e rdl' n. r = Some (e, rdl', n) \<longrightarrow> ?p < e \<and> e \<le> sz \<and> length n < ns - length name)"
          by (rule less [rule_format, OF name_measure_pointer [OF 4(3)]]) (use ns in simp)
        then obtain r where r: "NameUnpack_loop buf sz ?p rdl [] (ns - length name) (rd + 1) = Inr r"
            "\<forall>e rdl' n. r = Some (e, rdl', n) \<longrightarrow> length n < ns - length name" by blast
        have "NameUnpack_loop buf sz off rdl name ns rd = (case r of None \<Rightarrow> Inr None | Some (_, rdl, n) \<Rightarrow> Inr (Some (off + 2, rdl, name @ n)))"
          unfolding name_pointer [OF off le 4(1,2,3) ns, of rdl] r(1) using 4(4) by (simp only: res_bind_simps not_le [symmetric] if_False)
        then show ?thesis using r(2) 4(2) by (cases r) fastforce+
      qed
    qed
  qed
qed


section \<open>Whole messages\<close>

lemma name_safe256:
  assumes "sz < length buf"
  shows "\<exists>r. rfc1035NameUnpack buf sz off rdl RFC1035_MAXHOSTNAMESZ 0 = Inr r \<and>
    (\<forall>e rdl' n. r = Some (e, rdl', n) \<longrightarrow> off < e \<and> e \<le> sz \<and> length n < 256)"
  using name_safe [OF assms, of "[]" RFC1035_MAXHOSTNAMESZ off rdl 0] by (simp add: rfc1035NameUnpack_def RFC1035_MAXHOSTNAMESZ_def)

text \<open>What an unpacked record is: its name fits, and its data are bytes of the message or, for a PTR record, a name that fits.\<close>

definition rr_in :: "string \<Rightarrow> nat \<Rightarrow> rfc1035_rr \<Rightarrow> bool" where
  "rr_in buf sz RR \<longleftrightarrow> length (rr_name RR) < 256 \<and>
     (if rr_type RR = RFC1035_TYPE_PTR then length (rr_rdata RR) < 256
      else rr_rdlength RR = length (rr_rdata RR) \<and> (\<exists>off. off + rr_rdlength RR \<le> sz \<and> rr_rdata RR = take (rr_rdlength RR) (drop off buf)))"

lemma rr_safe:
  assumes "sz < length buf"
  shows "\<exists>r. rfc1035RRUnpack buf sz off = Inr r \<and> (\<forall>e RR. r = Some (e, RR) \<longrightarrow> off < e \<and> e \<le> sz \<and> rr_in buf sz RR)"
proof -
  obtain r where r: "rfc1035NameUnpack buf sz off 0 RFC1035_MAXHOSTNAMESZ 0 = Inr r"
      "\<forall>e rdl' n. r = Some (e, rdl', n) \<longrightarrow> off < e \<and> e \<le> sz \<and> length n < 256"
    using name_safe256 [OF assms] by blast
  show ?thesis
  proof (cases r)
    case None
    then show ?thesis using r(1) by (simp add: rfc1035RRUnpack_def)
  next
    case (Some x)
    obtain e rdl n where x: "x = (e, rdl, n)" by (cases x)
    have e: "off < e" "e \<le> sz" "length n < 256" using r(2) Some x by simp_all
    show ?thesis
    proof (cases "e + 10 > sz")
      case True
      then show ?thesis using r(1) Some x by (simp add: rfc1035RRUnpack_def)
    next
      case False
      then have fits: "e + 2 \<le> length buf" "e + 2 + 2 \<le> length buf" "e + 4 + 4 \<le> length buf" "e + 8 + 2 \<le> length buf" using assms by simp_all
      obtain t c i l where g: "get16 buf e = Inr t" "get16 buf (e + 2) = Inr c" "get32 buf (e + 4) = Inr i" "get16 buf (e + 8) = Inr l"
        using get16_ok [OF fits(1)] get16_ok [OF fits(2)] get32_ok [OF fits(3)] get16_ok [OF fits(4)] by blast
      obtain p where p: "rfc1035NameUnpack buf sz (e + 10) 0 RFC1035_MAXHOSTNAMESZ 0 = Inr p" "\<forall>e rdl' n. p = Some (e, rdl', n) \<longrightarrow> length n < 256"
        using name_safe256 [OF assms] by blast
      show ?thesis
      proof (cases "e + 10 + unat l > sz")
        case True
        then show ?thesis using False r(1) Some x g by (simp add: rfc1035RRUnpack_def Let_def)
      next
        case fit: False
        have d: "get_bytes buf (e + 10) (unat l) = Inr (take (unat l) (drop (e + 10) buf))" using fit assms by (simp add: get_bytes_def)
        have "\<exists>off. off + unat l \<le> sz \<and> take (unat l) (drop (e + 10) buf) = take (unat l) (drop off buf)"
          using fit by (intro exI [of _ "e + 10"]) simp
        then show ?thesis
          using False fit r(1) Some x g d p e assms
          by (cases p) (auto simp: rfc1035RRUnpack_def Let_def rr_in_def)
      qed
    qed
  qed
qed

lemma answers_safe:
  assumes "sz < length buf"
  shows "\<exists>rs. unpack_answers buf sz off n = Inr rs \<and> length rs \<le> n \<and> (\<forall>RR \<in> set rs. rr_in buf sz RR)"
proof (induction n arbitrary: off)
  case (Suc n)
  obtain r where r: "rfc1035RRUnpack buf sz off = Inr r" "\<forall>e RR. r = Some (e, RR) \<longrightarrow> rr_in buf sz RR" using rr_safe [OF assms] by blast
  show ?case
  proof (cases r)
    case (Some x)
    obtain e RR where x: "x = (e, RR)" by (cases x)
    obtain rs where "unpack_answers buf sz e n = Inr rs" "length rs \<le> n" "\<forall>RR \<in> set rs. rr_in buf sz RR" using Suc.IH by blast
    then show ?thesis using r Some x by simp
  qed (use r in simp)
qed simp

lemma query_safe:
  assumes "sz < length buf"
  shows "\<exists>r. rfc1035QueryUnpack buf sz off = Inr r \<and> (\<forall>e q. r = Some (e, q) \<longrightarrow> e \<le> sz \<and> length (q_name q) < 256)"
proof -
  obtain r where r: "rfc1035NameUnpack buf sz off 0 RFC1035_MAXHOSTNAMESZ 0 = Inr r"
      "\<forall>e rdl' n. r = Some (e, rdl', n) \<longrightarrow> off < e \<and> e \<le> sz \<and> length n < 256"
    using name_safe256 [OF assms] by blast
  show ?thesis
  proof (cases r)
    case None
    then show ?thesis using r(1) by (simp add: rfc1035QueryUnpack_def)
  next
    case (Some x)
    obtain e rdl n where x: "x = (e, rdl, n)" by (cases x)
    show ?thesis
    proof (cases "e + 4 > sz")
      case True
      then show ?thesis using r(1) Some x by (simp add: rfc1035QueryUnpack_def)
    next
      case False
      then have "e + 2 \<le> length buf" "e + 2 + 2 \<le> length buf" using assms by simp_all
      then obtain t c where "get16 buf e = Inr t" "get16 buf (e + 2) = Inr c" using get16_ok by blast
      then show ?thesis using False r Some x by (simp add: rfc1035QueryUnpack_def)
    qed
  qed
qed

lemma header_safe:
  assumes "sz < length buf"
  shows "\<exists>h. rfc1035HeaderUnpack buf sz = Inr h"
proof (cases "sz < 12")
  case False
  then have "0 + 2 \<le> length buf" "2 + 2 \<le> length buf" "4 + 2 \<le> length buf" "6 + 2 \<le> length buf" "8 + 2 \<le> length buf" "10 + 2 \<le> length buf"
    using assms by simp_all
  then obtain a b c d e f where "get16 buf 0 = Inr a" "get16 buf 2 = Inr b" "get16 buf 4 = Inr c" "get16 buf 6 = Inr d" "get16 buf 8 = Inr e" "get16 buf 10 = Inr f"
    using get16_ok by metis
  then show ?thesis using False by (simp add: rfc1035HeaderUnpack_def)
qed (simp add: rfc1035HeaderUnpack_def)


section \<open>Packed names\<close>

definition wire :: "string list \<Rightarrow> string" where
  "wire ls = concat (map (\<lambda>l. char_of (length l) # l) ls)"

lemma wire_simps [simp]: "wire [] = []" "wire (l # ls) = char_of (length l) # l @ wire ls"
  by (simp_all add: wire_def)

lemma length_wire [simp]: "length (wire ls) = labels_size ls"
  by (induction ls) simp_all

definition label_ok :: "string \<Rightarrow> bool" where
  "label_ok l \<longleftrightarrow> l \<noteq> [] \<and> CHR ''.'' \<notin> set l \<and> length l \<le> 63"

lemma strtok_tokens: "t \<in> set (strtok_dots s) \<Longrightarrow> t \<noteq> [] \<and> CHR ''.'' \<notin> set t"
proof (induction s rule: strtok_dots.induct)
  case (1 s)
  show ?case
  proof (cases "dropWhile (\<lambda>c. c = CHR ''.'') s")
    case Nil
    then have "strtok_dots s = []" by (subst strtok_dots.simps) (simp only: list.case)
    then show ?thesis using "1.prems" by simp
  next
    case (Cons c r)
    then have c: "c \<noteq> CHR ''.''" using hd_dropWhile [of "\<lambda>c. c = CHR ''.''" s] by simp
    have "strtok_dots s = (c # takeWhile (\<lambda>c. c \<noteq> CHR ''.'') r) # strtok_dots (dropWhile (\<lambda>c. c \<noteq> CHR ''.'') r)"
      by (subst strtok_dots.simps) (simp only: Cons list.case)
    then consider "t = c # takeWhile (\<lambda>c. c \<noteq> CHR ''.'') r" | "t \<in> set (strtok_dots (dropWhile (\<lambda>c. c \<noteq> CHR ''.'') r))"
      using "1.prems" by (metis set_ConsD)
    then show ?thesis
    proof cases
      case 1
      then show ?thesis using c by (auto dest: set_takeWhileD)
    next
      case 2
      then show ?thesis by (rule "1.IH" [OF Cons])
    qed
  qed
qed

lemma label_pack:
  assumes "label_ok l" and "length l + 1 \<le> sz"
  shows "rfc1035LabelPack sz (Some l) = Inr (char_of (length l) # l)"
proof -
  have "takeWhile (\<lambda>d. d \<noteq> CHR ''.'') l = l" using assms(1) by (auto simp: label_ok_def takeWhile_eq_all_conv)
  then have "c_strchr l (CHR ''.'') = None" by (simp only: c_strchr_def Let_def) simp
  then show ?thesis using assms by (simp add: rfc1035LabelPack_def label_ok_def RFC1035_MAXLABELSZ_def Let_def)
qed

lemma labels_pack: "\<forall>l \<in> set ls. label_ok l \<Longrightarrow> labels_size ls \<le> sz \<Longrightarrow> pack_labels sz ls = Inr (wire ls)"
  by (induction ls arbitrary: sz) (simp_all add: label_pack)

lemma name_pack:
  assumes "\<forall>l \<in> set (strtok_dots name). label_ok l" and "labels_size (strtok_dots name) + 1 \<le> sz"
  shows "rfc1035NamePack sz name = Inr (wire (strtok_dots name) @ [char_of (0 :: nat)])"
proof -
  have "Suc 0 \<le> sz - labels_size (strtok_dots name)" using assms(2) by simp
  then show ?thesis
    using labels_pack [OF assms(1), of sz] assms(2) by (simp add: rfc1035NamePack_def rfc1035LabelPack_def c_strchr_def Let_def)
qed

lemma question_pack:
  assumes "\<forall>l \<in> set (strtok_dots name). label_ok l" and "labels_size (strtok_dots name) + 5 \<le> sz"
  shows "rfc1035QuestionPack sz name t c = Inr (wire (strtok_dots name) @ char_of (0 :: nat) # be16 t @ be16 c)"
proof -
  have "2 \<le> sz - Suc (labels_size (strtok_dots name))" "2 \<le> sz - Suc (Suc (Suc (labels_size (strtok_dots name))))" using assms(2) by linarith+
  then show ?thesis using name_pack [OF assms(1), of sz] assms(2) by (simp add: rfc1035QuestionPack_def put_bytes_def)
qed

lemma opt_pack:
  assumes "11 \<le> sz"
  shows "\<exists>b. rfc2671RROptPack rcvbuf sz edns = Inr b \<and> length b = 11"
proof -
  have "strtok_dots ''.'' = []" by (simp add: strtok_dots.simps)
  then have "rfc1035NamePack sz ''.'' = Inr [char_of (0 :: nat)]" using name_pack [of "''.''" sz] assms by simp
  then show ?thesis using assms by (simp add: rfc2671RROptPack_def rfc1035RRPack_def get_bytes_def)
qed

lemma wire_dns_name:
  assumes "\<forall>l \<in> set ls. label_ok l" and "length pre + labels_size ls + 1 \<le> sz"
  shows "dns_name (pre @ wire ls @ char_of (0 :: nat) # post) sz (length pre) (length pre + labels_size ls + 1) 0 ls False"
  using assms
proof (induction ls arbitrary: pre)
  case Nil
  then show ?case using dns_name.root [of "length pre" sz "pre @ char_of (0 :: nat) # post"] by (simp add: byte_at_def)
next
  case (Cons l ls)
  let ?buf = "pre @ wire (l # ls) @ char_of (0 :: nat) # post" and ?pre = "pre @ char_of (length l) # l"
  have "dns_name (?pre @ wire ls @ char_of (0 :: nat) # post) sz (length ?pre) (length ?pre + labels_size ls + 1) 0 ls False"
    by (rule Cons.IH) (use Cons.prems in auto)
  then have "dns_name ?buf sz (length pre + 1 + length l) (length pre + labels_size (l # ls) + 1) 0 ls False" by (simp add: algebra_simps)
  then show ?case
  proof (rule dns_name.label)
    show "byte_at ?buf (length pre) = length l" using Cons.prems(1) by (simp add: byte_at_def label_ok_def nth_append)
  qed (use Cons.prems in \<open>auto simp: label_ok_def\<close>)
qed

section \<open>Comparing names\<close>

lemma dotted_snoc: "dotted (ls @ [l]) = dotted ls @ l @ ''.''"
  by (simp add: dotted_def)

lemma trim_joined:
  assumes "\<forall>l \<in> set ls. label_ok l"
  shows "trim_dots (butlast (dotted ls) @ replicate k (CHR ''.'')) = butlast (dotted ls)"
proof (cases ls rule: rev_cases)
  case (snoc ls' l)
  then have l: "label_ok l" using assms by simp
  then obtain c r where c: "rev l = c # r" by (cases "rev l") (auto simp: label_ok_def)
  moreover have "c \<in> set l" using c by (metis list.set_intros(1) set_rev)
  then have "c \<noteq> CHR ''.''" using l by (auto simp: label_ok_def)
  moreover have "butlast (dotted ls) = dotted ls' @ l" using snoc by (simp add: dotted_snoc butlast_append)
  moreover have "dropWhile (\<lambda>c. c = CHR ''.'') (replicate k (CHR ''.'') @ c # x) = c # x" for x using \<open>c \<noteq> CHR ''.''\<close> by (induction k) simp_all
  ultimately have "trim_dots (butlast (dotted ls) @ replicate k (CHR ''.'')) = rev (c # r @ rev (dotted ls'))"
    by (simp only: trim_dots_def rev_append rev_replicate append_Cons append_assoc)
  then show ?thesis using c \<open>butlast (dotted ls) = _\<close> by (metis append_Cons rev_append rev_rev_ident)
qed (simp add: trim_dots_def)

lemma strncaseeq_prefix: "c_strncaseeq (s @ t) s (length s)"
  by (induction s) simp_all


lemma query_compare_joined:
  assumes "\<forall>l \<in> set ls. label_ok l" and "labels_size ls \<le> 255" and "CHR 0x00 \<notin> set (butlast (dotted ls))"
  shows "rfc1035QueryCompare \<lparr>q_name = xstrncpy (butlast (dotted ls) @ replicate k (CHR ''.'')) RFC1035_MAXHOSTNAMESZ, q_qtype = t, q_qclass = c\<rparr>
    \<lparr>q_name = butlast (dotted ls), q_qtype = t, q_qclass = c\<rparr>"
proof -
  let ?J = "butlast (dotted ls)"
  have c_str_id: "c_str x = x" if "CHR 0x00 \<notin> set x" for x
    using that unfolding c_str_def by (subst takeWhile_eq_all_conv) auto
  have "length ?J \<le> 254" using assms(2) by simp
  then obtain k' where k': "xstrncpy (?J @ replicate k (CHR ''.'')) RFC1035_MAXHOSTNAMESZ = ?J @ replicate k' (CHR ''.'')"
    by (simp add: xstrncpy_def RFC1035_MAXHOSTNAMESZ_def take_replicate)
  have "c_str (?J @ replicate k' (CHR ''.'')) = ?J @ replicate k' (CHR ''.'')" "c_str ?J = ?J"
    using assms(3) by (auto intro!: c_str_id)
  moreover have "trim_dots ?J = ?J" using trim_joined [OF assms(1), of 0] by simp
  moreover have "length (?J @ replicate k' (CHR ''.'')) \<noteq> length ?J \<or> ?J @ replicate k' (CHR ''.'') = ?J" by (cases k') simp_all
  ultimately show ?thesis
    unfolding rfc1035QueryCompare_def k' rfc1035_query.simps Let_def
    using trim_joined [OF assms(1), of k'] strncaseeq_prefix [of ?J "replicate k' (CHR ''.'')"] strncaseeq_prefix [of ?J "[]"]
    by (cases k') simp_all
qed

section \<open>Properties\<close>

text \<open>
  C38. A query built for a host name, packed with or without the EDNS record, unpacks again: with its header flags and identity, and with a
  question that the comparison guarding replies accepts as the one that was asked. The name has labels of at most 63 bytes, 255 bytes
  with the length bytes, and dots only between labels and at the end.
\<close>

theorem dns_query_echo:
  assumes host: "host = butlast (dotted (strtok_dots host)) @ replicate k (CHR ''.'')" and nul: "CHR 0x00 \<notin> set host"
    and labels: "\<forall>l \<in> set (strtok_dots host). length l \<le> 63" and len: "labels_size (strtok_dots host) \<le> 255"
    and room: "labels_size (strtok_dots host) + 28 \<le> sz"
  shows "\<exists>b q m u. rfc3596BuildHostQuery rcvbuf host sz qid qtype edns = Inr (b, q) \<and> length b \<le> sz \<and>
    (\<forall>rest. rfc1035MessageUnpack (b @ rest) (length b) = Inr (0, Some m)) \<and>
    msg_id m = qid \<and> msg_qr m = 0 \<and> msg_rd m = 1 \<and> msg_arcount m = (if edns > 0 then 1 else 0) \<and>
    msg_query m = Some u \<and> q_name u = butlast (dotted (strtok_dots host)) \<and> rfc1035QueryCompare q u"
proof -
  let ?ls = "strtok_dots host" and ?h = "query_header qid edns"
  have ok: "\<forall>l \<in> set ?ls. label_ok l" using strtok_tokens labels by (auto simp: label_ok_def)
  obtain hb where hb: "rfc1035HeaderPack sz ?h = Inr hb" "length hb = 12"
      "\<forall>rest n. 12 \<le> n \<longrightarrow> rfc1035HeaderUnpack (hb @ rest) n = Inr (Some (12, ?h\<lparr>msg_query := None, msg_answer := []\<rparr>))"
    using header_roundtrip [of sz ?h] room by auto
  define qb where "qb = wire ?ls @ char_of (0 :: nat) # be16 qtype @ be16 RFC1035_CLASS_IN"
  have qb: "rfc1035QuestionPack (sz - length hb) host qtype RFC1035_CLASS_IN = Inr qb" "length qb = labels_size ?ls + 5"
    using question_pack [OF ok, of "sz - length hb"] room hb(2) by (simp_all add: qb_def)
  have "11 \<le> sz - length hb - length qb" using room hb(2) qb(2) by simp
  from opt_pack [OF this, of rcvbuf edns] obtain ob where
    ob: "(if edns > 0 then rfc2671RROptPack rcvbuf (sz - length hb - length qb) edns else Inr []) = Inr ob" "length ob \<le> 11"
    by (cases "edns > 0") auto
  define b where "b = hb @ qb @ ob"
  have build: "rfc3596BuildHostQuery rcvbuf host sz qid qtype edns =
      Inr (b, \<lparr>q_name = xstrncpy host RFC1035_MAXHOSTNAMESZ, q_qtype = qtype, q_qclass = RFC1035_CLASS_IN\<rparr>)"
    using hb(1,2) qb ob room by (simp add: rfc3596BuildHostQuery_def b_def)
  define u where "u = \<lparr>q_name = butlast (dotted ?ls), q_qtype = qtype, q_qclass = RFC1035_CLASS_IN\<rparr>"
  have "rfc1035QueryUnpack (b @ rest) (length b) 12 = Inr (Some (12 + labels_size ?ls + 5, u))" for rest
  proof -
    let ?buf = "b @ rest" and ?e = "12 + labels_size ?ls + 1"
    have split: "?buf = hb @ wire ?ls @ char_of (0 :: nat) # be16 qtype @ be16 RFC1035_CLASS_IN @ ob @ rest" by (simp add: b_def qb_def)
    have lb: "12 + labels_size ?ls + 5 \<le> length b" using hb(2) qb(2) by (simp add: b_def)
    have "dns_name ?buf (length b) 12 ?e 0 ?ls False"
      using wire_dns_name [OF ok, of hb "length b"] hb(2) lb unfolding split by simp
    from name_complete [OF this, where rd = 0 and name = "[]" and ns = 256 and rdl = 0] len
    have n: "rfc1035NameUnpack ?buf (length b) 12 0 RFC1035_MAXHOSTNAMESZ 0 = Inr (Some (?e, labels_size ?ls, butlast (dotted ?ls)))"
      by (simp add: rfc1035NameUnpack_def RFC1035_MAXHOSTNAMESZ_def)
    have "get16 ?buf ?e = Inr qtype" "get16 ?buf (?e + 2) = Inr RFC1035_CLASS_IN"
      using get16_append [of ?e "hb @ wire ?ls @ [char_of (0 :: nat)]" qtype] hb(2)
        get16_append [of "?e + 2" "hb @ wire ?ls @ [char_of (0 :: nat)] @ be16 qtype" RFC1035_CLASS_IN] unfolding split by simp_all
    then show ?thesis using n lb by (simp add: rfc1035QueryUnpack_def u_def)
  qed
  then have "rfc1035MessageUnpack (b @ rest) (length b) = Inr (0, Some (?h\<lparr>msg_query := Some u, msg_answer := []\<rparr>))" for rest
    using hb(3) [rule_format, of "length b" "qb @ ob @ rest"] hb(2) by (simp add: rfc1035MessageUnpack_def b_def query_header_def zero_message_def Let_def)
  moreover have "rfc1035QueryCompare \<lparr>q_name = xstrncpy host RFC1035_MAXHOSTNAMESZ, q_qtype = qtype, q_qclass = RFC1035_CLASS_IN\<rparr> u"
    using query_compare_joined [OF ok len, of k qtype RFC1035_CLASS_IN] host nul unfolding u_def by (metis UnCI set_append)
  moreover have "length b \<le> sz" using hb(2) qb(2) ob(2) room by (simp add: b_def)
  ultimately show ?thesis using build
    by (intro exI [of _ b] exI [of _ "\<lparr>q_name = xstrncpy host RFC1035_MAXHOSTNAMESZ, q_qtype = qtype, q_qclass = RFC1035_CLASS_IN\<rparr>"]
        exI [of _ "?h\<lparr>msg_query := Some u, msg_answer := []\<rparr>"] exI [of _ u]) (simp add: u_def query_header_def zero_message_def)
qed

theorem dns_query_echo_witness:
  "\<exists>b q m. rfc3596BuildHostQuery 16384 ''www.squid-cache.org.'' 512 7 RFC1035_TYPE_A 1200 = Inr (b, q) \<and>
    rfc1035MessageUnpack (b @ ''x'') (length b) = Inr (0, Some m) \<and> msg_id m = 7"
proof -
  have t: "strtok_dots ''www.squid-cache.org.'' = [''www'', ''squid-cache'', ''org'']" by (simp add: strtok_dots.simps)
  have "''www.squid-cache.org.'' = butlast (dotted (strtok_dots ''www.squid-cache.org.'')) @ replicate 1 (CHR ''.'')" unfolding t by simp
  from dns_query_echo [OF this, of 512 16384 7 RFC1035_TYPE_A 1200] show ?thesis unfolding t by (fastforce simp: labels_size_def)
qed


text \<open>
  C39. Unpacking a name, from a message with a byte behind it in its buffer, implements the compressed names of DNS, with the limits of the code. It returns
  exactly the names whose labels, with their lengths, take at most 255 bytes and which go through at most 65 pointers: their text, the offset behind the
  name and the length of the labels; a dot stays at the end of the text if a pointer leads straight to the root. Beside those it
  returns, whatever follows them, labels that fill the array of 256 bytes exactly, as a name of 255 characters that ends at the last of these labels. So a
  name that points back into itself is refused if it has no labels, but with labels it may be returned.
\<close>

theorem dns_name_unpack_exact:
  assumes "sz < length buf"
  shows "rfc1035NameUnpack buf sz off 0 RFC1035_MAXHOSTNAMESZ 0 = Inr (Some (e, l, n)) \<longleftrightarrow>
    (\<exists>d ls t. dns_name buf sz off e d ls t \<and> d \<le> 65 \<and> labels_size ls \<le> 255 \<and> l = labels_size ls \<and> n = name_text ls t) \<or>
    (\<exists>d ls. dns_labels buf sz off e d ls \<and> d \<le> 65 \<and> labels_size ls = 256 \<and> l = 256 \<and> n = butlast (dotted ls))"
proof -
  have le: "sz \<le> length buf" using assms by simp
  have run: "rfc1035NameUnpack buf sz off 0 RFC1035_MAXHOSTNAMESZ 0 = NameUnpack_loop buf sz off 0 [] 256 0"
    by (simp add: rfc1035NameUnpack_def RFC1035_MAXHOSTNAMESZ_def)
  have at_name: "NameUnpack_loop buf sz off 0 [] 256 0 = Inr (Some (e, labels_size ls, name_text ls t))"
    if "dns_name buf sz off e d ls t" "d \<le> 65" "labels_size ls \<le> 255" for e d ls t
    using name_complete [OF that(1) le, of 0 "[]" 256 0] that(2,3) by (simp add: name_text_def)
  have at_filled: "NameUnpack_loop buf sz off 0 [] 256 0 = Inr (Some (e, 256, butlast (dotted ls)))"
    if "dns_labels buf sz off e d ls" "d \<le> 65" "labels_size ls = 256" for e d ls
    using labels_complete [OF that(1) le, of 0 "[]" 256 0] that(2,3) by simp
  show ?thesis
  proof
    assume r: "rfc1035NameUnpack buf sz off 0 RFC1035_MAXHOSTNAMESZ 0 = Inr (Some (e, l, n))"
    then consider (name) d ls t where "dns_name buf sz off e d ls t" "d \<le> 65" "labels_size ls \<le> 255"
      | (filled) d ls where "dns_labels buf sz off e d ls" "d \<le> 65" "labels_size ls = 256"
      using name_sound [OF assms, of "[]" 256 off 0 0 e l n] unfolding run name_read_def by auto
    then show "(\<exists>d ls t. dns_name buf sz off e d ls t \<and> d \<le> 65 \<and> labels_size ls \<le> 255 \<and> l = labels_size ls \<and> n = name_text ls t) \<or>
        (\<exists>d ls. dns_labels buf sz off e d ls \<and> d \<le> 65 \<and> labels_size ls = 256 \<and> l = 256 \<and> n = butlast (dotted ls))"
    proof cases
      case (name d ls t)
      then have "l = labels_size ls" "n = name_text ls t" using r run at_name [OF name] by simp_all
      then show ?thesis using name by blast
    next
      case (filled d ls)
      then show ?thesis using r run at_filled [OF filled] by auto
    qed
  qed (use at_name at_filled run in auto)
qed

text \<open>A name that points to itself with a label before, one without, and a name of two labels, the second behind a pointer.\<close>

theorem dns_name_unpack_exact_witness:
  "(\<exists>n. rfc1035NameUnpack [CHR 0x03, CHR ''a'', CHR ''b'', CHR ''c'', CHR 0xC0, CHR 0x00, CHR ''x''] 6 0 0 RFC1035_MAXHOSTNAMESZ 0 = Inr (Some (6, 256, n)) \<and> length n = 255) \<and>
   (\<forall>e l n. rfc1035NameUnpack [CHR 0xC0, CHR 0x00, CHR ''x''] 2 0 0 RFC1035_MAXHOSTNAMESZ 0 \<noteq> Inr (Some (e, l, n))) \<and>
   rfc1035NameUnpack [CHR 0x01, CHR ''b'', CHR 0x00, CHR 0x01, CHR ''a'', CHR 0xC0, CHR 0x00, CHR ''x''] 7 3 0 RFC1035_MAXHOSTNAMESZ 0 = Inr (Some (7, 4, ''a.b''))"
proof (intro conjI allI)
  let ?self = "[CHR 0x03, CHR ''a'', CHR ''b'', CHR ''c'', CHR 0xC0, CHR 0x00, CHR ''x'']"
  have bytes: "byte_at ?self 0 = 3" "byte_at ?self 4 = 192" "byte_at ?self (4 + 1) = 0" "take 3 (drop (0 + 1) ?self) = ''abc''"
    by (simp_all add: byte_at_def byte_of_def)
  have "dns_labels ?self 6 0 (if k = 0 then 4 else 6) k (replicate (Suc k) ''abc'')" for k
  proof (induction k)
    case 0
    show ?case using dns_labels.last [OF _ bytes(1) _ _ bytes(4) [symmetric], of 6] by simp
  next
    case (Suc k)
    have "dns_labels ?self 6 4 6 (Suc k) (replicate (Suc k) ''abc'')"
      using dns_labels.pointer [OF Suc.IH, of 4] unfolding bytes by simp
    then show ?case using dns_labels.label [OF _ _ bytes(1) _ _ bytes(4) [symmetric], of 6 6 "Suc k" "replicate (Suc k) ''abc''"] by simp
  qed
  from this [of 63] have "dns_labels ?self 6 0 6 63 (replicate 64 ''abc'')" by simp
  moreover have size: "labels_size (replicate 64 ''abc'') = 256" by (simp add: labels_size_def sum_list_replicate)
  ultimately have "rfc1035NameUnpack ?self 6 0 0 RFC1035_MAXHOSTNAMESZ 0 = Inr (Some (6, 256, butlast (dotted (replicate 64 ''abc''))))"
    using dns_name_unpack_exact [of 6 ?self 0 6 256 "butlast (dotted (replicate 64 ''abc''))"] by fastforce
  then show "\<exists>n. rfc1035NameUnpack ?self 6 0 0 RFC1035_MAXHOSTNAMESZ 0 = Inr (Some (6, 256, n)) \<and> length n = 255" using size by auto
next
  fix e l n
  let ?loop = "[CHR 0xC0, CHR 0x00, CHR ''x'']"
  have "\<not> dns_name ?loop 2 off e d ls t" if "off = 0" for off d ls t
  proof
    assume "dns_name ?loop 2 off e d ls t"
    then show False using that by (induction rule: dns_name.induct) (simp_all add: byte_at_def byte_of_def)
  qed
  moreover have "\<not> dns_labels ?loop 2 off e d ls" if "off = 0" for off d ls
  proof
    assume "dns_labels ?loop 2 off e d ls"
    then show False using that by (induction rule: dns_labels.induct) (simp_all add: byte_at_def byte_of_def)
  qed
  ultimately show "rfc1035NameUnpack ?loop 2 0 0 RFC1035_MAXHOSTNAMESZ 0 \<noteq> Inr (Some (e, l, n))"
    using dns_name_unpack_exact [of 2 ?loop 0 e l n] by simp
next
  let ?two = "[CHR 0x01, CHR ''b'', CHR 0x00, CHR 0x01, CHR ''a'', CHR 0xC0, CHR 0x00, CHR ''x'']"
  have bytes: "byte_at ?two 0 = 1" "byte_at ?two 2 = 0" "byte_at ?two 3 = 1" "byte_at ?two 5 = 192" "byte_at ?two (5 + 1) = 0"
    "take 1 (drop (0 + 1) ?two) = ''b''" "take 1 (drop (3 + 1) ?two) = ''a''" by (simp_all add: byte_at_def byte_of_def)
  have "dns_name ?two 7 2 3 0 [] False" using dns_name.root [OF _ bytes(2), of 7] by simp
  then have "dns_name ?two 7 0 3 0 [''b''] False" using dns_name.label [OF _ _ bytes(1) _ _ bytes(6) [symmetric], of 7 3 0 "[]" False] by (simp add: numeral_2_eq_2)
  then have "dns_name ?two 7 5 7 1 [''b''] False" using dns_name.pointer [of ?two 7 0 3 0 "[''b'']" False 5] unfolding bytes by simp
  then have "dns_name ?two 7 3 7 1 [''a'', ''b''] False" using dns_name.label [OF _ _ bytes(3) _ _ bytes(7) [symmetric], of 7 7 1 "[''b'']" False] by simp
  then show "rfc1035NameUnpack ?two 7 3 0 RFC1035_MAXHOSTNAMESZ 0 = Inr (Some (7, 4, ''a.b''))"
    using dns_name_unpack_exact [of 7 ?two 3 7 4 "''a.b''"] by (fastforce simp: name_text_def)
qed

lemma unpack_safe:
  assumes "sz < length buf"
  shows "\<exists>n m. rfc1035MessageUnpack buf sz = Inr (n, m) \<and> - 15 \<le> n \<and> n < 2 ^ 16 \<and>
    (case m of None \<Rightarrow> n = - 15
     | Some msg \<Rightarrow> (\<exists>q. msg_query msg = Some q \<and> length (q_name q) < 256) \<and> n \<le> uint (msg_ancount msg) \<and>
         (0 \<le> n \<longrightarrow> n = int (length (msg_answer msg))) \<and> (\<forall>RR \<in> set (msg_answer msg). rr_in buf sz RR) \<and> (n < 0 \<longrightarrow> msg_answer msg = []))"
proof -
  obtain h where h: "rfc1035HeaderUnpack buf sz = Inr h" using header_safe [OF assms] by blast
  show ?thesis
  proof (cases h)
    case None
    then show ?thesis using h by (simp add: rfc1035MessageUnpack_def rfc1035_unpack_error_def)
  next
    case (Some x)
    obtain off msg where x: "x = (off, msg)" by (cases x)
    have noans: "msg_answer msg = []" using h Some x
      by (auto simp: rfc1035HeaderUnpack_def zero_message_def res_bind_Inr_iff split: if_splits)
    obtain q where q: "rfc1035QueryUnpack buf sz off = Inr q" "\<forall>e u. q = Some (e, u) \<longrightarrow> length (q_name u) < 256"
      using query_safe [OF assms, of off] by blast
    show ?thesis
    proof (cases "msg_qdcount msg \<noteq> 1 \<or> q = None")
      case True
      then show ?thesis using h Some x q by (auto simp: rfc1035MessageUnpack_def rfc1035_unpack_error_def)
    next
      case False
      then obtain e u where u: "q = Some (e, u)" by auto
      have rc: "uint (msg_rcode msg) < 16" "0 \<le> uint (msg_ancount msg)" "uint (msg_ancount msg) < 65536"
        using uint_bounded [of "msg_rcode msg"] uint_bounded [of "msg_ancount msg"] by simp_all
      obtain rs where rs: "unpack_answers buf sz e (unat (msg_ancount msg)) = Inr rs" "length rs \<le> unat (msg_ancount msg)" "\<forall>RR \<in> set rs. rr_in buf sz RR"
        using answers_safe [OF assms] by blast
      have rl: "int (length rs) \<le> uint (msg_ancount msg)" using rs(2) by (simp only: uint_nat of_nat_le_iff)
      have base: "rfc1035MessageUnpack buf sz = (let msg1 = msg\<lparr>msg_query := Some u\<rparr> in
          if msg_rcode msg \<noteq> 0 then Inr (- uint (msg_rcode msg), Some msg1) else if msg_ancount msg = 0 then Inr (0, Some msg1)
          else if rs = [] then Inr (- 15, None) else Inr (int (length rs), Some (msg1\<lparr>msg_answer := rs\<rparr>)))"
        using h Some x q(1) u False rs(1) by (simp add: rfc1035MessageUnpack_def rfc1035_unpack_error_def Let_def)
      show ?thesis
      proof (cases "msg_rcode msg = 0")
        case rcode: False
        then have "uint (msg_rcode msg) \<noteq> 0" by (simp add: uint_0_iff)
        then have "0 < uint (msg_rcode msg)" by (simp add: less_le)
        then have neg: "- uint (msg_rcode msg) \<le> uint (msg_ancount msg)" "\<not> 0 \<le> - uint (msg_rcode msg)" "- 15 \<le> - uint (msg_rcode msg)" "- uint (msg_rcode msg) < 65536"
          using rc by linarith+
        have "rfc1035MessageUnpack buf sz = Inr (- uint (msg_rcode msg), Some (msg\<lparr>msg_query := Some u\<rparr>))" using base rcode by (simp add: Let_def)
        moreover have "length (q_name u) < 256" using q(2) u by simp
        ultimately show ?thesis using neg noans
          by (intro exI [of _ "- uint (msg_rcode msg)"] exI [of _ "Some (msg\<lparr>msg_query := Some u\<rparr>)"]) (simp only: option.case, simp)
      next
        case True
        then show ?thesis using base rc rl rs(3) u q(2) noans by (simp add: Let_def)
      qed
    qed
  qed
qed

text \<open>
  C40. No DNS reply fails an assertion or makes the unpacking run on or read outside its buffer, provided one byte follows the message there: the result
  is an error number or the number of records unpacked, at most the number announced; all names have less than
  256 bytes, and the data of a record lie in the message.
\<close>

theorem dns_unpack_safe:
  assumes "sz < length buf"
  shows "\<exists>n m. rfc1035MessageUnpack buf sz = Inr (n, m) \<and> - 15 \<le> n \<and> n < 2 ^ 16 \<and>
    (case m of None \<Rightarrow> n = - 15
     | Some msg \<Rightarrow> (\<exists>q. msg_query msg = Some q \<and> length (q_name q) < 256) \<and> n \<le> uint (msg_ancount msg) \<and>
         (0 \<le> n \<longrightarrow> n = int (length (msg_answer msg))) \<and> (\<forall>RR \<in> set (msg_answer msg). rr_in buf sz RR))"
proof -
  obtain n m where u: "rfc1035MessageUnpack buf sz = Inr (n, m)" "- 15 \<le> n" "n < 2 ^ 16" and
    m: "case m of None \<Rightarrow> n = - 15
     | Some msg \<Rightarrow> (\<exists>q. msg_query msg = Some q \<and> length (q_name q) < 256) \<and> n \<le> uint (msg_ancount msg) \<and>
         (0 \<le> n \<longrightarrow> n = int (length (msg_answer msg))) \<and> (\<forall>RR \<in> set (msg_answer msg). rr_in buf sz RR) \<and> (n < 0 \<longrightarrow> msg_answer msg = [])"
    using unpack_safe [OF assms] by (elim exE conjE)
  show ?thesis by (intro exI [of _ n] exI [of _ m] conjI u) (use m in \<open>simp split: option.splits\<close>)
qed

theorem dns_unpack_safe_witness: "\<exists>n m. rfc1035MessageUnpack (replicate 13 (CHR 0xC0)) 12 = Inr (n, m) \<and> n < 2 ^ 16"
  using dns_unpack_safe [of 12 "replicate 13 (CHR 0xC0)"] by auto

text \<open>
  The byte behind the message is needed: a pointer is copied before its second byte is known to be there.
\<close>

lemma dns_pointer_overread:
  assumes "off + 1 = sz" and "sz = length buf" and "191 < byte_at buf off" and "rd \<le> 64"
  shows "NameUnpack_loop buf sz off rdl name ns rd = Inl OutOfBounds"
proof -
  have "get16 buf off = Inl OutOfBounds" using assms(1,2) by (simp add: get16_def get_bytes_def)
  then show ?thesis using assms by (subst NameUnpack_loop.simps) (simp add: get_byte be_nat_at Let_def)
qed

text \<open>
  Packing a record with data copies the memory at the field that holds the pointer, not the data.
\<close>

lemma rr_pack_copies_field:
  assumes "\<forall>l \<in> set (strtok_dots (rr_name RR)). label_ok l" and "rr_rdlength RR \<le> length field"
    and "labels_size (strtok_dots (rr_name RR)) + 11 + rr_rdlength RR \<le> sz"
  shows "\<exists>b. rfc1035RRPack field sz RR = Inr (b @ take (rr_rdlength RR) field)"
  using name_pack [OF assms(1), of sz] assms(2,3) by (simp add: rfc1035RRPack_def get_bytes_def)

end
