(* ===== verification/Dns_Internal.thy ===== *)
theory Dns_Internal
  imports Lib_Rfc1035 Mem_Buf
begin

text \<open>
  The DNS client (src/dns_internal.cc) on top of the message coding of \<open>Lib_Rfc1035\<close>. Queries are objects in \<open>id_mem\<close>; the list
  of pending ones, newest first, stands for \<^verbatim>\<open>lru_list\<close>, and the singly linked lists \<^verbatim>\<open>slave\<close> and \<^verbatim>\<open>queue\<close> of a query are lists: of
  addresses, and of the callback data of lookups that wait for the same name. Times are in milliseconds. What is sent, read,
  scheduled and called back is recorded in \<open>id_out\<close>; a callback may not start lookups itself. The arguments \<open>udp\<close>, \<open>valid\<close>, \<open>rnd\<close> and
  \<open>alloc\<close> stand for whether a datagram can be sent to a server, whether callback data is still valid, \<^verbatim>\<open>squid_random\<close>
  and the allocator. The branches for a negative size of a query just built are left out: the
  builders return the length of what they wrote or fail an assertion. The message fields are never negative and nothing is counted up to \<open>2 ^ 31\<close>.
\<close>

section \<open>State\<close>

definition NS_MAXDNAME :: nat where
  "NS_MAXDNAME = 1025"

definition RESOLV_BUFSZ :: nat where
  "RESOLV_BUFSZ = NS_MAXDNAME * 6 + 8 + 1"

definition MAX_ATTEMPT :: nat where
  "MAX_ATTEMPT = 3"

record idns_query =
  iq_query :: rfc1035_query
  iq_buf :: string
  iq_name :: string
  iq_orig :: string
  iq_query_id :: "16 word"
  iq_nsends :: nat
  iq_need_vc :: bool
  iq_pending :: bool
  iq_start_t :: int
  iq_sent_t :: int
  iq_queue_t :: int
  iq_callback :: "nat option"
  iq_attempt :: nat
  iq_rcode :: int
  iq_queue :: "nat list"
  iq_slaves :: "nat list"
  iq_master :: "nat option"
  iq_domain :: nat
  iq_do_searchpath :: bool
  iq_message :: "rfc1035_message option"
  iq_ancount :: int
  iq_error :: "string option"
  iq_key :: "string option"

text \<open>A connection to a name server. \<open>vc_closing\<close>: it is being closed, and its close handler has yet to be called.\<close>

record nsvc =
  vc_conn :: bool
  vc_closing :: bool
  vc_msglen :: nat
  vc_header :: string
  vc_msg :: mem_buf
  vc_queue :: mem_buf
  vc_busy :: bool

record idns_ns =
  ns_addr :: nat
  ns_port :: nat
  ns_nqueries :: nat
  ns_nreplies :: nat
  ns_vc :: "nsvc option"

datatype idns_out =
    UdpSend nat string
  | TcpConnect nat
  | TcpWrite nat string
  | TcpRead nat nat
  | TcpClose nat
  | Callback nat "rfc1035_rr list option" int "string option" bool
  | EventAdd int

record idns_config =
  cf_retransmit :: int
  cf_query_timeout :: int
  cf_packet_max :: int
  cf_v4_first :: bool
  cf_res_defnames :: bool
  cf_ignore_unknown :: bool
  cf_ipv6 :: bool
  cf_rcvbuf :: nat

record idns =
  id_sockets :: bool
  id_servers :: "idns_ns list"
  id_searchpath :: "string list"
  id_ndots :: nat
  id_lru :: "nat list"
  id_event_queued :: bool
  id_hash :: "(string \<times> nat) list"
  id_mem :: "nat \<Rightarrow> idns_query option"
  id_now :: int
  id_nrand :: nat
  id_out :: "idns_out list"

definition id_emit :: "idns \<Rightarrow> idns_out \<Rightarrow> idns" where
  "id_emit s e = s\<lparr>id_out := id_out s @ [e]\<rparr>"

definition id_put :: "idns \<Rightarrow> nat \<Rightarrow> idns_query \<Rightarrow> idns" where
  "id_put s a q = s\<lparr>id_mem := (id_mem s)(a \<mapsto> q)\<rparr>"

definition id_get :: "idns \<Rightarrow> nat \<Rightarrow> idns_query res" where
  "id_get s a = (case id_mem s a of None \<Rightarrow> Inl Dangling | Some q \<Rightarrow> Inr q)"

definition put_vc :: "idns \<Rightarrow> nat \<Rightarrow> nsvc option \<Rightarrow> idns" where
  "put_vc s n vc = s\<lparr>id_servers := (id_servers s)[n := (id_servers s ! n)\<lparr>ns_vc := vc\<rparr>]\<rparr>"

definition get_vc :: "idns \<Rightarrow> nat \<Rightarrow> nsvc res" where
  "get_vc s n =
     (if n < length (id_servers s) then case ns_vc (id_servers s ! n) of None \<Rightarrow> Inl Dangling | Some vc \<Rightarrow> Inr vc else Inl OutOfBounds)"

section \<open>Sending\<close>

definition idnsTickleQueue :: "idns_config \<Rightarrow> idns \<Rightarrow> idns" where
  "idnsTickleQueue cf s =
     (if id_event_queued s then s
      else if id_lru s = [] then s
      else (id_emit s (EventAdd (min (cf_query_timeout cf) (cf_retransmit cf))))\<lparr>id_event_queued := True\<rparr>)"

definition idnsDoSendQueryVC :: "idns \<Rightarrow> nat \<Rightarrow> idns res" where
  "idnsDoSendQueryVC s n =
     res_bind (get_vc s n) (\<lambda>vc.
     if vc_busy vc then Inr s
     else if mb_size (vc_queue vc) = 0 then Inr s
     else if vc_closing vc then Inr s
     else Inr (id_emit (put_vc s n (Some (vc\<lparr>vc_queue := MemBuf, vc_busy := True\<rparr>))) (TcpWrite n (mb_content (vc_queue vc)))))"

definition idnsSentQueryVC :: "idns \<Rightarrow> nat \<Rightarrow> bool \<Rightarrow> idns res" where
  "idnsSentQueryVC s n ok =
     res_bind (get_vc s n) (\<lambda>vc.
     if \<not> vc_conn vc \<or> vc_closing vc then Inr s
     else if \<not> ok then Inr (id_emit (put_vc s n (Some (vc\<lparr>vc_closing := True\<rparr>))) (TcpClose n))
     else idnsDoSendQueryVC (put_vc s n (Some (vc\<lparr>vc_busy := False\<rparr>))) n)"

definition idnsInitVCConnected :: "idns \<Rightarrow> nat \<Rightarrow> bool \<Rightarrow> idns res" where
  "idnsInitVCConnected s n ok =
     (if \<not> ok then Inr s
      else res_bind (get_vc s n) (\<lambda>vc.
        idnsDoSendQueryVC (id_emit (put_vc s n (Some (vc\<lparr>vc_conn := True, vc_busy := False\<rparr>))) (TcpRead n 2)) n))"

definition idnsVCClosed :: "idns \<Rightarrow> nat \<Rightarrow> idns" where
  "idnsVCClosed s n = (if n < length (id_servers s) then put_vc s n None else s)"

definition idnsInitVC :: "idns \<Rightarrow> nat \<Rightarrow> idns res" where
  "idnsInitVC s n =
     res_bind (res_guard (n < length (id_servers s)) Assertion) (\<lambda>_.
     Inr (id_emit (put_vc s n (Some \<lparr>vc_conn = False, vc_closing = False, vc_msglen = 0, vc_header = [], vc_msg = MemBuf, vc_queue = MemBuf, vc_busy = True\<rparr>))
       (TcpConnect n)))"

definition idnsSendQueryVC :: "idns \<Rightarrow> idns_query \<Rightarrow> nat \<Rightarrow> idns res" where
  "idnsSendQueryVC s q n =
     res_bind (res_guard (n < length (id_servers s)) Assertion) (\<lambda>_.
     res_bind (if ns_vc (id_servers s ! n) = None then idnsInitVC s n else Inr s) (\<lambda>s1.
     res_bind (get_vc s1 n) (\<lambda>vc.
     res_bind (mb_reset (vc_queue vc)) (\<lambda>b.
     res_bind (mb_append b (be16 (word_of_nat (length (iq_buf q))))) (\<lambda>b1.
     res_bind (mb_append b1 (iq_buf q)) (\<lambda>b2.
     idnsDoSendQueryVC (put_vc s1 n (Some (vc\<lparr>vc_queue := b2\<rparr>))) n))))))"

text \<open>The servers tried, one after the other until a datagram is sent or the round is complete, and the count of sends.\<close>

function udp_loop :: "(nat \<Rightarrow> bool) \<Rightarrow> nat \<Rightarrow> nat \<Rightarrow> nat list \<times> nat" where
  "udp_loop udp nns nsends =
     (if nns = 0 then ([], nsends)
      else let ns = nsends mod nns in
        if udp ns \<or> Suc nsends mod nns = 0 then ([ns], Suc nsends)
        else case udp_loop udp nns (Suc nsends) of (l, n) \<Rightarrow> (ns # l, n))"
  by pat_completeness auto
termination
proof (relation "measure (\<lambda>(udp, nns, nsends). nns - nsends mod nns)")
  fix udp :: "nat \<Rightarrow> bool" and nns nsends ns :: nat
  assume "nns \<noteq> 0" and "ns = nsends mod nns" and *: "\<not> (udp ns \<or> Suc nsends mod nns = 0)"
  then have "Suc nsends mod nns = Suc (nsends mod nns)" "nsends mod nns < nns" by (simp_all add: mod_Suc split: if_splits)
  then show "((udp, nns, Suc nsends), udp, nns, nsends) \<in> measure (\<lambda>(udp, nns, nsends). nns - nsends mod nns)" by simp
qed simp

declare udp_loop.simps [simp del]

definition idnsSendQuery :: "idns_config \<Rightarrow> (nat \<Rightarrow> bool) \<Rightarrow> idns \<Rightarrow> nat \<Rightarrow> idns res" where
  "idnsSendQuery cf udp s a =
     (if \<not> id_sockets s then Inr s
      else if id_servers s = [] then Inr s
      else res_bind (id_get s a) (\<lambda>q.
        res_bind (res_guard (a \<in> set (id_lru s) \<longrightarrow> id_lru s = [a]) Assertion) (\<lambda>_.
        let nns = length (id_servers s) in
        res_bind
          (if iq_need_vc q then res_bind (idnsSendQueryVC s q (iq_nsends q mod nns)) (\<lambda>s1. Inr ([iq_nsends q mod nns], Suc (iq_nsends q), s1))
           else case udp_loop udp nns (iq_nsends q) of (l, n) \<Rightarrow>
             Inr (l, n, s\<lparr>id_out := id_out s @ map (\<lambda>i. UdpSend i (iq_buf q)) l\<rparr>)) (\<lambda>(l, n, s1).
        let i = last l;
            s2 = s1\<lparr>id_servers := (id_servers s1)[i := (id_servers s1 ! i)\<lparr>ns_nqueries := ns_nqueries (id_servers s1 ! i) + 1\<rparr>]\<rparr>;
            s3 = id_put s2 a (q\<lparr>iq_nsends := n, iq_sent_t := id_now s, iq_queue_t := id_now s, iq_pending := True\<rparr>)
        in Inr (idnsTickleQueue cf (s3\<lparr>id_lru := a # id_lru s3\<rparr>))))))"

section \<open>Identifiers\<close>

definition idnsFindQuery :: "idns \<Rightarrow> 16 word \<Rightarrow> nat option" where
  "idnsFindQuery s i = find (\<lambda>a. case id_mem s a of None \<Rightarrow> False | Some q \<Rightarrow> iq_query_id q = i) (rev (id_lru s))"

fun query_id_loop :: "nat \<Rightarrow> idns \<Rightarrow> 16 word \<Rightarrow> 16 word \<Rightarrow> 16 word" where
  "query_id_loop 0 s i first_id = i"
| "query_id_loop (Suc fuel) s i first_id =
     (if idnsFindQuery s i = None then i else if i + 1 = first_id then i + 1 else query_id_loop fuel s (i + 1) first_id)"

text \<open>The loop comes back to its first identifier after \<open>2 ^ 16\<close> turns.\<close>

definition idnsQueryID :: "(nat \<Rightarrow> 16 word) \<Rightarrow> idns \<Rightarrow> 16 word \<times> idns" where
  "idnsQueryID rnd s = (let i = rnd (id_nrand s) in (query_id_loop (2 ^ 16) s i i, s\<lparr>id_nrand := id_nrand s + 1\<rparr>))"

section \<open>Callbacks\<close>

text \<open>Adding the results of a slave to message, number and error.\<close>

definition merge_slave :: "idns_config \<Rightarrow> idns_query \<Rightarrow> rfc1035_message option \<times> int \<times> string option \<Rightarrow> (rfc1035_message option \<times> int \<times> string option) res" where
  "merge_slave cf q2 = (\<lambda>(message, n, error).
     if iq_error q2 \<noteq> None then Inr (message, n, error)
     else if n > 0 then
       (case (message, iq_message q2) of
          (Some m1, Some m2) \<Rightarrow>
            let r1 = take (nat n) (msg_answer m1); r2 = take (nat (iq_ancount q2)) (msg_answer m2)
            in Inr (Some (m1\<lparr>msg_answer := (if cf_v4_first cf then r1 @ r2 else r2 @ r1), msg_ancount := msg_ancount m1 + msg_ancount m2\<rparr>),
                 n + iq_ancount q2, error)
        | _ \<Rightarrow> Inl Dangling)
     else Inr (iq_message q2, iq_ancount q2, None))"

fun merge_slaves :: "idns_config \<Rightarrow> idns \<Rightarrow> nat list \<Rightarrow> rfc1035_message option \<times> int \<times> string option \<Rightarrow> (rfc1035_message option \<times> int \<times> string option) res" where
  "merge_slaves cf s [] r = Inr r"
| "merge_slaves cf s (b # bs) r = res_bind (id_get s b) (\<lambda>q2. res_bind (merge_slave cf q2 r) (\<lambda>r1. merge_slaves cf s bs r1))"

definition is_pending :: "idns \<Rightarrow> nat \<Rightarrow> bool" where
  "is_pending s a = (case id_mem s a of None \<Rightarrow> False | Some q \<Rightarrow> iq_pending q)"

definition id_unset :: "nat list \<Rightarrow> idns \<Rightarrow> idns" where
  "id_unset as s = s\<lparr>id_mem := (\<lambda>a. if a \<in> set as then None else id_mem s a)\<rparr>"

definition idnsCallback :: "idns_config \<Rightarrow> (nat \<Rightarrow> bool) \<Rightarrow> idns \<Rightarrow> nat \<Rightarrow> string option \<Rightarrow> idns res" where
  "idnsCallback cf valid s a err =
     res_bind (id_get s a) (\<lambda>q0.
     let s1 = (if err = None then s else id_put s a (q0\<lparr>iq_error := err\<rparr>));
         m = (case iq_master q0 of None \<Rightarrow> a | Some m \<Rightarrow> m)
     in res_bind (id_get s1 m) (\<lambda>q.
       if (\<exists>b \<in> set (m # iq_slaves q). is_pending s1 b) then Inr s1
       else res_bind (merge_slaves cf s1 (iq_slaves q) (iq_message q, iq_ancount q, iq_error q)) (\<lambda>(message, n, error).
         let answers = map_option msg_answer message; call = (\<lambda>d. Callback d answers n error (valid d))
         in case iq_callback q of
              None \<Rightarrow> Inl Dangling
            | Some d \<Rightarrow>
                Inr (id_unset (m # iq_slaves q)
                  (s1\<lparr>id_out := id_out s1 @ map call (d # iq_queue q),
                      id_hash := (if iq_key q = None then id_hash s1 else filter (\<lambda>(k, b). b \<noteq> m) (id_hash s1))\<rparr>)))))"

section \<open>Lookups\<close>

definition new_query :: idns_query where
  "new_query = \<lparr>iq_query = \<lparr>q_name = [], q_qtype = 0, q_qclass = 0\<rparr>, iq_buf = [], iq_name = [], iq_orig = [], iq_query_id = 0, iq_nsends = 0,
     iq_need_vc = False, iq_pending = False, iq_start_t = 0, iq_sent_t = 0, iq_queue_t = 0, iq_callback = None, iq_attempt = 0, iq_rcode = 0,
     iq_queue = [], iq_slaves = [], iq_master = None, iq_domain = 0, iq_do_searchpath = False, iq_message = None, iq_ancount = 0,
     iq_error = None, iq_key = None\<rparr>"

text \<open>\<^verbatim>\<open>strcat\<close> with a dot to the array of a name.\<close>

definition append_domain :: "string \<Rightarrow> string \<Rightarrow> string res" where
  "append_domain name domain = (if length name + 1 + length domain \<le> NS_MAXDNAME then Inr (name @ ''.'' @ domain) else Inl OutOfBounds)"

definition idnsCachedLookup :: "idns \<Rightarrow> string \<Rightarrow> nat \<Rightarrow> (bool \<times> idns) res" where
  "idnsCachedLookup s key d =
     (case map_of (id_hash s) key of
        None \<Rightarrow> Inr (False, s)
      | Some old \<Rightarrow> res_bind (id_get s old) (\<lambda>q. Inr (True, id_put s old (q\<lparr>iq_queue := d # iq_queue q\<rparr>))))"

definition idnsStartQuery :: "idns_config \<Rightarrow> (nat \<Rightarrow> bool) \<Rightarrow> idns \<Rightarrow> nat \<Rightarrow> idns_query \<Rightarrow> nat \<Rightarrow> idns res" where
  "idnsStartQuery cf udp s a q d =
     idnsSendQuery cf udp
       (id_put (s\<lparr>id_hash := (iq_orig q, a) # id_hash s\<rparr>) a
          (q\<lparr>iq_start_t := id_now s, iq_callback := Some d, iq_key := Some (iq_orig q)\<rparr>)) a"

definition idnsSendSlaveAAAAQuery ::
    "idns_config \<Rightarrow> (nat \<Rightarrow> bool) \<Rightarrow> (nat set \<Rightarrow> nat) \<Rightarrow> (nat \<Rightarrow> 16 word) \<Rightarrow> idns \<Rightarrow> nat \<Rightarrow> idns res" where
  "idnsSendSlaveAAAAQuery cf udp alloc rnd s master =
     res_bind (id_get s master) (\<lambda>mq.
     let a = alloc (dom (id_mem s)); (i, s1) = idnsQueryID rnd s in
     res_bind (rfc3596BuildAAAAQuery (int (cf_rcvbuf cf)) (iq_name mq) RESOLV_BUFSZ i (cf_packet_max cf)) (\<lambda>(buf, query).
     let q = new_query\<lparr>iq_name := iq_name mq, iq_orig := iq_orig mq, iq_master := Some master, iq_query_id := i, iq_buf := buf,
               iq_query := query, iq_start_t := iq_start_t mq\<rparr>
     in if buf = [] then Inr s1
        else idnsSendQuery cf udp (id_put (id_put s1 a q) master (mq\<lparr>iq_slaves := a # iq_slaves mq\<rparr>)) a))"

definition idnsALookup ::
    "idns_config \<Rightarrow> (nat \<Rightarrow> bool) \<Rightarrow> (nat set \<Rightarrow> nat) \<Rightarrow> (nat \<Rightarrow> 16 word) \<Rightarrow> idns \<Rightarrow> string \<Rightarrow> nat \<Rightarrow> idns res" where
  "idnsALookup cf udp alloc rnd s name d =
     (if length name > NS_MAXDNAME then Inr (id_emit s (Callback d None 0 (Some ''Internal error'') True))
      else res_bind (idnsCachedLookup s name d) (\<lambda>(found, s1).
        if found then Inr s1
        else
          let a = alloc (dom (id_mem s1)); (i, s2) = idnsQueryID rnd s1; nd = length (filter (\<lambda>c. c = CHR ''.'') name) in
          res_bind (if cf_res_defnames cf \<and> id_searchpath s \<noteq> []
                    then res_bind (res_guard (name \<noteq> []) OutOfBounds) (\<lambda>_. Inr (last name \<noteq> CHR ''.''))
                    else Inr False) (\<lambda>do_searchpath.
          res_bind (if do_searchpath \<and> nd < id_ndots s then append_domain name (id_searchpath s ! 0) else Inr name) (\<lambda>name1.
          res_bind (rfc3596BuildAQuery (int (cf_rcvbuf cf)) name1 RESOLV_BUFSZ i 0) (\<lambda>(buf, query).
          res_bind (idnsStartQuery cf udp s2 a
              (new_query\<lparr>iq_query_id := i, iq_do_searchpath := do_searchpath, iq_orig := name, iq_name := name1, iq_buf := buf, iq_query := query\<rparr>) d) (\<lambda>s3.
          if cf_ipv6 cf then idnsSendSlaveAAAAQuery cf udp alloc rnd s3 a else Inr s3))))))"

datatype ip_address = IPv4 "32 word" | IPv6 "8 word list"

definition idnsPTRLookup ::
    "idns_config \<Rightarrow> (nat \<Rightarrow> bool) \<Rightarrow> (nat set \<Rightarrow> nat) \<Rightarrow> (nat \<Rightarrow> 16 word) \<Rightarrow> idns \<Rightarrow> ip_address \<Rightarrow> nat \<Rightarrow> idns res" where
  "idnsPTRLookup cf udp alloc rnd s addr d =
     (let a = alloc (dom (id_mem s)); (i, s1) = idnsQueryID rnd s in
      res_bind (case addr of
                  IPv6 r \<Rightarrow> rfc3596BuildPTRQuery6 (int (cf_rcvbuf cf)) r RESOLV_BUFSZ i (cf_packet_max cf)
                | IPv4 w \<Rightarrow> rfc3596BuildPTRQuery4 (int (cf_rcvbuf cf)) w RESOLV_BUFSZ i 0) (\<lambda>(buf, query).
      res_bind (idnsCachedLookup s1 (q_name query) d) (\<lambda>(found, s2).
      if found then Inr s2
      else idnsStartQuery cf udp s2 a (new_query\<lparr>iq_query_id := i, iq_buf := buf, iq_query := query\<rparr>) d)))"

section \<open>Replies\<close>

definition drop_slaves :: "idns \<Rightarrow> idns_query \<Rightarrow> idns" where
  "drop_slaves s q = (id_unset (iq_slaves q) s)\<lparr>id_lru := filter (\<lambda>b. b \<notin> set (iq_slaves q)) (id_lru s)\<rparr>"

text \<open>The next name of the search path, for a master query whose name does not exist.\<close>

definition grok_searchpath ::
    "idns_config \<Rightarrow> (nat \<Rightarrow> bool) \<Rightarrow> (nat set \<Rightarrow> nat) \<Rightarrow> (nat \<Rightarrow> 16 word) \<Rightarrow> idns \<Rightarrow> nat \<Rightarrow> idns_query \<Rightarrow> rfc1035_message \<Rightarrow> idns res" where
  "grok_searchpath cf udp alloc rnd s a q message =
     res_bind (res_guard (msg_answer message = []) Assertion) (\<lambda>_.
     res_bind (if iq_domain q < length (id_searchpath s)
               then res_bind (append_domain (iq_orig q) (id_searchpath s ! iq_domain q)) (\<lambda>name. Inr (q\<lparr>iq_name := name, iq_domain := iq_domain q + 1\<rparr>))
               else Inr (q\<lparr>iq_name := iq_orig q, iq_attempt := iq_attempt q + 1\<rparr>)) (\<lambda>q1.
     let (i, s1) = idnsQueryID rnd (drop_slaves s q1) in
     res_bind (rfc3596BuildAQuery (int (cf_rcvbuf cf)) (iq_name q1) RESOLV_BUFSZ i 0) (\<lambda>(buf, query).
     res_bind (idnsSendQuery cf udp (id_put s1 a (q1\<lparr>iq_slaves := [], iq_query_id := i, iq_buf := buf, iq_query := query, iq_nsends := 0\<rparr>)) a) (\<lambda>s2.
     if cf_ipv6 cf then idnsSendSlaveAAAAQuery cf udp alloc rnd s2 a else Inr s2))))"

text \<open>A reply to the query \<open>q\<close> at \<open>a\<close>, which is taken from the list of pending ones.\<close>

definition grok_matched ::
    "idns_config \<Rightarrow> (nat \<Rightarrow> bool) \<Rightarrow> (nat \<Rightarrow> bool) \<Rightarrow> (nat set \<Rightarrow> nat) \<Rightarrow> (nat \<Rightarrow> 16 word) \<Rightarrow> idns \<Rightarrow> nat \<Rightarrow> idns_query \<Rightarrow> int \<Rightarrow> rfc1035_message \<Rightarrow> idns res" where
  "grok_matched cf udp valid alloc rnd s a q n message =
     (let q0 = q\<lparr>iq_pending := False\<rparr>; put = (\<lambda>q. (id_put s a q)\<lparr>id_lru := remove1 a (id_lru s)\<rparr>) in
      if msg_tc message \<noteq> 0 then
        if \<not> iq_need_vc q0 then idnsSendQuery cf udp (put (q0\<lparr>iq_need_vc := True, iq_nsends := iq_nsends q0 - 1\<rparr>)) a
        else idnsCallback cf valid (put q0) a (Some ''Truncated TCP DNS response'')
      else
        let q1 = (if n < 0 then q0\<lparr>iq_rcode := - n\<rparr> else q0);
            servfail = (n < 0 \<and> iq_rcode q1 = 2);
            q2 = (if servfail then q1\<lparr>iq_attempt := iq_attempt q1 + 1\<rparr> else q1) in
        if servfail \<and> iq_attempt q2 < MAX_ATTEMPT then idnsSendQuery cf udp (put q2) a
        else if n < 0 \<and> iq_rcode q2 = 3 \<and> iq_master q2 = None \<and> iq_do_searchpath q2 \<and> iq_attempt q2 < MAX_ATTEMPT then
          grok_searchpath cf udp alloc rnd (put q2) a q2 message
        else
          idnsCallback cf valid (put (q2\<lparr>iq_message := Some message, iq_ancount := n\<rparr>)) a
            (if n \<ge> 0 then None else Some (rfc1035ErrorMessage (iq_rcode q2))))"

definition idnsGrokReply ::
    "idns_config \<Rightarrow> (nat \<Rightarrow> bool) \<Rightarrow> (nat \<Rightarrow> bool) \<Rightarrow> (nat set \<Rightarrow> nat) \<Rightarrow> (nat \<Rightarrow> 16 word) \<Rightarrow> idns \<Rightarrow> string \<Rightarrow> nat \<Rightarrow> idns res" where
  "idnsGrokReply cf udp valid alloc rnd s buf sz =
     res_bind (rfc1035MessageUnpack buf sz) (\<lambda>(n, message).
     case message of
       None \<Rightarrow> Inr s
     | Some message \<Rightarrow>
         (case idnsFindQuery s (msg_id message) of
            None \<Rightarrow> Inr s
          | Some a \<Rightarrow> res_bind (id_get s a) (\<lambda>q.
              if \<not> (case msg_query message of None \<Rightarrow> False | Some mq \<Rightarrow> rfc1035QueryCompare (iq_query q) mq) then Inr s
              else grok_matched cf udp valid alloc rnd s a q n message)))"

definition idnsFromKnownNameserver :: "idns \<Rightarrow> nat \<Rightarrow> nat \<Rightarrow> nat option" where
  "idnsFromKnownNameserver s addr port =
     find (\<lambda>i. ns_addr (id_servers s ! i) = addr \<and> ns_port (id_servers s ! i) = port) [0..<length (id_servers s)]"

text \<open>The bytes of a buffer of a given capacity that starts with the bytes read. What is behind them is not looked at.\<close>

definition in_buffer :: "nat \<Rightarrow> string \<Rightarrow> string" where
  "in_buffer cap bytes = bytes @ replicate (cap - length bytes) (CHR 0x00)"

text \<open>One turn of the loop of \<^verbatim>\<open>idnsRead\<close>, with the datagram received.\<close>

definition idnsRead_turn ::
    "idns_config \<Rightarrow> (nat \<Rightarrow> bool) \<Rightarrow> (nat \<Rightarrow> bool) \<Rightarrow> (nat set \<Rightarrow> nat) \<Rightarrow> (nat \<Rightarrow> 16 word) \<Rightarrow> idns \<Rightarrow> nat \<Rightarrow> nat \<Rightarrow> string \<Rightarrow> idns res" where
  "idnsRead_turn cf udp valid alloc rnd s addr port data =
     (let ns = idnsFromKnownNameserver s addr port;
          s1 = (case ns of None \<Rightarrow> s | Some i \<Rightarrow>
            s\<lparr>id_servers := (id_servers s)[i := (id_servers s ! i)\<lparr>ns_nreplies := ns_nreplies (id_servers s ! i) + 1\<rparr>]\<rparr>)
      in if id_lru s1 = [] then Inr s1
         else if ns = None \<and> cf_ignore_unknown cf then Inr s1
         else idnsGrokReply cf udp valid alloc rnd s1 (in_buffer (cf_rcvbuf cf) data) (length data))"

text \<open>A read from a connection ends with the bytes read, or with none for an error.\<close>

definition idnsReadVCHeader :: "idns \<Rightarrow> nat \<Rightarrow> string \<Rightarrow> idns res" where
  "idnsReadVCHeader s n bytes =
     res_bind (get_vc s n) (\<lambda>vc.
     if bytes = [] then Inr (if vc_conn vc \<and> \<not> vc_closing vc then id_emit (put_vc s n (Some (vc\<lparr>vc_closing := True\<rparr>))) (TcpClose n) else s)
     else
       let h = vc_header vc @ bytes in
       res_bind (res_guard (length h \<le> 2) Assertion) (\<lambda>_.
       if length h < 2 then Inr (id_emit (put_vc s n (Some (vc\<lparr>vc_header := h\<rparr>))) (TcpRead n (2 - length h)))
       else res_bind (mb_init (int (be_nat h)) (int (be_nat h))) (\<lambda>b.
         Inr (id_emit (put_vc s n (Some (vc\<lparr>vc_header := [], vc_msglen := be_nat h, vc_msg := b\<rparr>))) (TcpRead n (be_nat h))))))"

definition idnsReadVC ::
    "idns_config \<Rightarrow> (nat \<Rightarrow> bool) \<Rightarrow> (nat \<Rightarrow> bool) \<Rightarrow> (nat set \<Rightarrow> nat) \<Rightarrow> (nat \<Rightarrow> 16 word) \<Rightarrow> idns \<Rightarrow> nat \<Rightarrow> string \<Rightarrow> idns res" where
  "idnsReadVC cf udp valid alloc rnd s n bytes =
     res_bind (get_vc s n) (\<lambda>vc.
     if bytes = [] then Inr (if vc_conn vc \<and> \<not> vc_closing vc then id_emit (put_vc s n (Some (vc\<lparr>vc_closing := True\<rparr>))) (TcpClose n) else s)
     else
       let b = (vc_msg vc)\<lparr>mb_content := mb_content (vc_msg vc) @ bytes\<rparr>; s1 = put_vc s n (Some (vc\<lparr>vc_msg := b\<rparr>)) in
       if length (mb_content b) < vc_msglen vc then Inr (id_emit s1 (TcpRead n (vc_msglen vc - length (mb_content b))))
       else res_bind (idnsGrokReply cf udp valid alloc rnd s1 (in_buffer (nat (mb_capacity b)) (mb_content b)) (length (mb_content b))) (\<lambda>s2.
         res_bind (get_vc s2 n) (\<lambda>vc2.
         res_bind (mb_clean (vc_msg vc2)) (\<lambda>b2.
         Inr (id_emit (put_vc s2 n (Some (vc2\<lparr>vc_msg := b2\<rparr>))) (TcpRead n 2))))))"

section \<open>Timers\<close>

text \<open>The element before \<open>a\<close>, where the loop goes next.\<close>

fun list_prev :: "'a \<Rightarrow> 'a list \<Rightarrow> 'a option" where
  "list_prev a (x # y # xs) = (if a = y then Some x else list_prev a (y # xs))"
| "list_prev a _ = None"

fun check_loop :: "nat \<Rightarrow> idns_config \<Rightarrow> (nat \<Rightarrow> bool) \<Rightarrow> (nat \<Rightarrow> bool) \<Rightarrow> idns \<Rightarrow> nat option \<Rightarrow> idns res" where
  "check_loop fuel cf udp valid s None = Inr s"
| "check_loop 0 cf udp valid s (Some a) = Inl OutOfFuel"
| "check_loop (Suc fuel) cf udp valid s (Some a) =
     (let p = list_prev a (id_lru s) in
      res_bind (id_get s a) (\<lambda>q.
      if id_now s - iq_queue_t q < cf_retransmit cf then Inr s
      else if id_now s - iq_sent_t q < cf_retransmit cf * 2 ^ ((iq_nsends q - 1) div length (id_servers s)) then
        check_loop fuel cf udp valid ((id_put s a (q\<lparr>iq_queue_t := id_now s\<rparr>))\<lparr>id_lru := a # remove1 a (id_lru s)\<rparr>) p
      else
        let s1 = (id_put s a (q\<lparr>iq_pending := False\<rparr>))\<lparr>id_lru := remove1 a (id_lru s)\<rparr> in
        res_bind
          (if id_now s - iq_start_t q < cf_query_timeout cf then idnsSendQuery cf udp s1 a
           else idnsCallback cf valid s1 a (Some (if iq_rcode q \<noteq> 0 then rfc1035ErrorMessage (iq_rcode q) else ''Timeout''))) (\<lambda>s2.
        check_loop fuel cf udp valid s2 p)))"

definition idnsCheckQueue :: "idns_config \<Rightarrow> (nat \<Rightarrow> bool) \<Rightarrow> (nat \<Rightarrow> bool) \<Rightarrow> idns \<Rightarrow> idns res" where
  "idnsCheckQueue cf udp valid s =
     (let s1 = s\<lparr>id_event_queued := False\<rparr> in
      if id_servers s1 = [] then Inr s1
      else res_bind (check_loop (length (id_lru s1) + 1) cf udp valid s1 (if id_lru s1 = [] then None else Some (last (id_lru s1)))) (\<lambda>s2.
        Inr (idnsTickleQueue cf s2)))"

definition dnsShutdown :: "idns \<Rightarrow> idns" where
  "dnsShutdown s =
     (if \<not> id_sockets s then s
      else s\<lparr>id_sockets := False,
             id_out := id_out s @ map TcpClose (filter (\<lambda>i. case ns_vc (id_servers s ! i) of None \<Rightarrow> False | Some vc \<Rightarrow> vc_conn vc \<and> \<not> vc_closing vc) [0..<length (id_servers s)]),
             id_servers := [], id_searchpath := []\<rparr>)"

end
