(* ===== verification/Dns_Wellformed.thy ===== *)
theory Dns_Wellformed
  imports Dns_Internal "HOL-Library.Multiset"
begin

text \<open>
  What the handlers of \<open>Dns_Internal\<close> rely on: the buffers of connections, sending as a step that changes one query only, and well-formed queries,
  that is the links of masters and slaves, the results they have and the list of pending ones, under every change the handlers make to them.
  Last the lookups that wait for queries, counted as a multiset.
\<close>

section \<open>Queues of connections\<close>

definition vc_buf_ok :: "mem_buf \<Rightarrow> bool" where
  "vc_buf_ok b \<longleftrightarrow> b = MemBuf \<or> mb_ok b \<and> mb_max_capacity b = 2097152000"

text \<open>The message of a connection is cleared, or it is being read into a buffer of its size.\<close>

definition vc_msg_ok :: "nat \<Rightarrow> mem_buf \<Rightarrow> bool" where
  "vc_msg_ok l b \<longleftrightarrow> b = MemBuf \<or> mb_buf b \<and> \<not> mb_stolen b \<and> mb_max_capacity b \<noteq> 0 \<and> 0 < mb_capacity b \<and> length (mb_content b) \<le> l \<and> int l \<le> mb_capacity b"

definition vc_ok :: "nsvc \<Rightarrow> bool" where
  "vc_ok vc \<longleftrightarrow> vc_buf_ok (vc_queue vc) \<and> vc_msg_ok (vc_msglen vc) (vc_msg vc) \<and> length (vc_header vc) < 2"

definition vcs_ok :: "idns \<Rightarrow> bool" where
  "vcs_ok s \<longleftrightarrow> (\<forall>n \<in> set (id_servers s). case ns_vc n of None \<Rightarrow> True | Some vc \<Rightarrow> vc_ok vc)"

text \<open>Connections in use stay so.\<close>

definition servers_kept :: "idns_ns list \<Rightarrow> idns_ns list \<Rightarrow> bool" where
  "servers_kept ns ns' \<longleftrightarrow> length ns' = length ns \<and> (\<forall>i < length ns. ns_vc (ns ! i) \<noteq> None \<longrightarrow> ns_vc (ns' ! i) \<noteq> None)"

lemma servers_kept_refl [simp]: "servers_kept ns ns"
  by (simp add: servers_kept_def)

lemma servers_kept_trans: "servers_kept ns ns' \<Longrightarrow> servers_kept ns' ns'' \<Longrightarrow> servers_kept ns ns''"
  by (simp add: servers_kept_def)

lemma servers_kept_update: "(i < length ns \<Longrightarrow> ns_vc (ns ! i) \<noteq> None \<Longrightarrow> ns_vc x \<noteq> None) \<Longrightarrow> servers_kept ns (ns[i := x])"
  by (cases "i < length ns") (auto simp: servers_kept_def nth_list_update)

lemma mb_reset_ok:
  assumes "vc_buf_ok b"
  shows "\<exists>b'. mb_reset b = Inr b' \<and> mb_ok b' \<and> mb_max_capacity b' = 2097152000 \<and> mb_content b' = []"
proof (cases "b = MemBuf")
  case True
  obtain c where "mb_grow (MemBuf\<lparr>mb_max_capacity := 2097152000\<rparr>) 2048 = Inr (MemBuf\<lparr>mb_max_capacity := 2097152000, mb_buf := True, mb_capacity := c\<rparr>)" "2048 \<le> c"
    using mb_grow_ok [of "MemBuf\<lparr>mb_max_capacity := 2097152000\<rparr>" 2048] by (auto simp: MemBuf_def)
  then show ?thesis using True by (auto simp: mb_reset_def mb_isNull_def mb_init_def MemBuf_def mb_size_def mb_ok_def)
next
  case False
  then have "mb_ok b" "mb_max_capacity b = 2097152000" using assms by (auto simp: vc_buf_ok_def)
  then show ?thesis by (auto simp: mb_reset_def mb_isNull_def mb_ok_def mb_size_def)
qed

text \<open>What the data of a lookup is, as far as it was called back.\<close>

definition out_data :: "idns_out list \<Rightarrow> nat list" where
  "out_data es = concat (map (\<lambda>e. case e of Callback d _ _ _ _ \<Rightarrow> [d] | _ \<Rightarrow> []) es)"

lemma out_data_simps [simp]: "out_data [] = []" "out_data (xs @ ys) = out_data xs @ out_data ys"
  "out_data (Callback d r n e v # es) = d # out_data es" "out_data (UdpSend i b # es) = out_data es" "out_data (TcpConnect i # es) = out_data es"
  "out_data (TcpWrite i b # es) = out_data es" "out_data (TcpRead i k # es) = out_data es" "out_data (TcpClose i # es) = out_data es"
  "out_data (EventAdd t # es) = out_data es"
  by (simp_all add: out_data_def)

lemma out_data_udp [simp]: "out_data (map (\<lambda>i. UdpSend i b) l) = []"
  by (induction l) simp_all

lemma out_data_calls [simp]: "out_data (map (\<lambda>d. Callback d r n e (v d)) ds) = ds"
  by (induction ds) simp_all

text \<open>The steps that only talk to servers leave the queries alone.\<close>

definition same_queries :: "idns \<Rightarrow> idns \<Rightarrow> bool" where
  "same_queries s s' \<longleftrightarrow> id_mem s' = id_mem s \<and> id_lru s' = id_lru s \<and> id_hash s' = id_hash s \<and> id_now s' = id_now s \<and>
     id_searchpath s' = id_searchpath s \<and> id_ndots s' = id_ndots s \<and> id_sockets s' = id_sockets s \<and>
     servers_kept (id_servers s) (id_servers s') \<and> out_data (id_out s') = out_data (id_out s) \<and> (vcs_ok s \<longrightarrow> vcs_ok s')"

lemma same_queries_refl [simp]: "same_queries s s"
  by (simp add: same_queries_def)

lemma same_queries_trans: "same_queries s s' \<Longrightarrow> same_queries s' s'' \<Longrightarrow> same_queries s s''"
  by (auto simp: same_queries_def intro: servers_kept_trans)

lemma vcs_ok_put:
  assumes "vcs_ok s" and "case vc of None \<Rightarrow> True | Some vc \<Rightarrow> vc_ok vc"
  shows "vcs_ok (put_vc s n vc)"
  using assms set_update_subset_insert [of "id_servers s" n] by (fastforce simp: vcs_ok_def put_vc_def)

lemma same_queries_emit: "case e of Callback _ _ _ _ _ \<Rightarrow> False | _ \<Rightarrow> True \<Longrightarrow> same_queries s (id_emit s e)"
  by (cases e) (simp_all add: same_queries_def id_emit_def vcs_ok_def)

lemma same_queries_put_vc:
  "(vcs_ok s \<Longrightarrow> vc_ok vc) \<Longrightarrow> same_queries s (put_vc s n (Some vc))"
  using vcs_ok_put [of s "Some vc" n] by (simp add: same_queries_def put_vc_def servers_kept_update)

lemma get_vc_ok: "get_vc s n = Inr vc \<Longrightarrow> vcs_ok s \<Longrightarrow> vc_ok vc"
  by (fastforce simp: get_vc_def vcs_ok_def split: if_splits option.splits)

lemma get_put_vc [simp]: "n < length (id_servers s) \<Longrightarrow> get_vc (put_vc s n (Some vc)) n = Inr vc"
  "get_vc (id_emit s e) n = get_vc s n" "length (id_servers (put_vc s n v)) = length (id_servers s)" "id_servers (id_emit s e) = id_servers s"
  by (simp_all add: get_vc_def put_vc_def id_emit_def)

lemma get_vc_less: "get_vc s n = Inr vc \<Longrightarrow> n < length (id_servers s)"
  by (simp add: get_vc_def split: if_splits)

lemma do_send_ok:
  assumes "get_vc s n = Inr vc"
  shows "\<exists>s'. idnsDoSendQueryVC s n = Inr s' \<and> same_queries s s'"
proof -
  let ?s = "put_vc s n (Some (vc\<lparr>vc_queue := MemBuf, vc_busy := True\<rparr>))"
  have "same_queries s ?s" by (rule same_queries_put_vc) (use get_vc_ok [OF assms] in \<open>simp add: vc_ok_def vc_buf_ok_def\<close>)
  then have "same_queries s (id_emit ?s (TcpWrite n (mb_content (vc_queue vc))))"
    using same_queries_emit [of "TcpWrite n (mb_content (vc_queue vc))" ?s] same_queries_trans by auto
  then show ?thesis using assms by (auto simp: idnsDoSendQueryVC_def)
qed

lemma init_vc_ok:
  assumes "n < length (id_servers s)"
  shows "\<exists>s' vc. idnsInitVC s n = Inr s' \<and> same_queries s s' \<and> get_vc s' n = Inr vc"
proof -
  let ?vc = "\<lparr>vc_conn = False, vc_closing = False, vc_msglen = 0, vc_header = [], vc_msg = MemBuf, vc_queue = MemBuf, vc_busy = True\<rparr>"
  have "same_queries s (put_vc s n (Some ?vc))" by (rule same_queries_put_vc) (simp add: vc_ok_def vc_buf_ok_def vc_msg_ok_def)
  then have "same_queries s (id_emit (put_vc s n (Some ?vc)) (TcpConnect n))" using same_queries_emit [of "TcpConnect n"] same_queries_trans by auto
  then show ?thesis using assms by (auto simp: idnsInitVC_def)
qed

lemma send_vc_ok:
  assumes "vcs_ok s" and "n < length (id_servers s)" and "length (iq_buf q) \<le> RESOLV_BUFSZ"
  shows "\<exists>s'. idnsSendQueryVC s q n = Inr s' \<and> same_queries s s'"
proof -
  obtain s1 vc where s1: "(if ns_vc (id_servers s ! n) = None then idnsInitVC s n else Inr s) = Inr s1" "same_queries s s1" "get_vc s1 n = Inr vc"
  proof (cases "ns_vc (id_servers s ! n) = None")
    case True
    then show thesis using init_vc_ok [OF assms(2)] that by auto
  next
    case False
    then show thesis using that [of s] assms(2) by (auto simp: get_vc_def)
  qed
  have ok: "vcs_ok s1" "n < length (id_servers s1)" using s1(2) assms(1,2) by (auto simp: same_queries_def servers_kept_def)
  note vc = get_vc_ok [OF s1(3) ok(1), unfolded vc_ok_def]
  obtain b where b: "mb_reset (vc_queue vc) = Inr b" "mb_ok b" "mb_max_capacity b = 2097152000" "mb_content b = []"
    using mb_reset_ok [OF vc [THEN conjunct1]] by blast
  let ?h = "be16 (word_of_nat (length (iq_buf q)))"
  obtain c where c: "mb_append b ?h = Inr (b\<lparr>mb_content := ?h, mb_capacity := c\<rparr>)" "mb_ok (b\<lparr>mb_content := ?h, mb_capacity := c\<rparr>)"
    using mb_append_ok [OF b(2), of ?h] b(3,4) by (auto simp: mb_size_def)
  obtain c2 where d: "mb_append (b\<lparr>mb_content := ?h, mb_capacity := c\<rparr>) (iq_buf q) = Inr (b\<lparr>mb_content := ?h @ iq_buf q, mb_capacity := c2\<rparr>)"
      "mb_ok (b\<lparr>mb_content := ?h @ iq_buf q, mb_capacity := c2\<rparr>)"
    using mb_append_ok [OF c(2), of "iq_buf q"] b(3) assms(3) by (auto simp: mb_size_def RESOLV_BUFSZ_def NS_MAXDNAME_def)
  let ?s2 = "put_vc s1 n (Some (vc\<lparr>vc_queue := b\<lparr>mb_content := ?h @ iq_buf q, mb_capacity := c2\<rparr>\<rparr>))"
  have "same_queries s1 ?s2" by (rule same_queries_put_vc) (use d(2) b(3) vc in \<open>simp add: vc_ok_def vc_buf_ok_def\<close>)
  moreover obtain s3 where s3: "idnsDoSendQueryVC ?s2 n = Inr s3" "same_queries ?s2 s3" using do_send_ok [OF get_put_vc(1) [OF ok(2)]] by blast
  ultimately have "same_queries s s3" using s1(2) same_queries_trans by blast
  moreover have "idnsSendQueryVC s q n = Inr s3"
    unfolding idnsSendQueryVC_def s1(1) using assms(2) by (simp add: s1(3) b(1) c(1) d(1) s3(1))
  ultimately show ?thesis by blast
qed


section \<open>Sending a query\<close>

definition can_send :: "idns \<Rightarrow> bool" where
  "can_send s \<longleftrightarrow> id_sockets s \<and> id_servers s \<noteq> [] \<and> vcs_ok s"

text \<open>The environment of the queries: all that sending and calling back do not change.\<close>

definition same_env :: "idns \<Rightarrow> idns \<Rightarrow> bool" where
  "same_env s s' \<longleftrightarrow> id_now s' = id_now s \<and> id_searchpath s' = id_searchpath s \<and> id_ndots s' = id_ndots s \<and> id_sockets s' = id_sockets s \<and>
     servers_kept (id_servers s) (id_servers s') \<and> (vcs_ok s \<longrightarrow> vcs_ok s')"

lemma same_env_length: "same_env s s' \<Longrightarrow> length (id_servers s') = length (id_servers s)"
  by (simp add: same_env_def servers_kept_def)

lemma same_env_refl [simp]: "same_env s s"
  by (simp add: same_env_def)

lemma same_env_trans: "same_env s s' \<Longrightarrow> same_env s' s'' \<Longrightarrow> same_env s s''"
  by (auto simp: same_env_def intro: servers_kept_trans)

lemma same_env_can_send: "same_env s s' \<Longrightarrow> can_send s \<Longrightarrow> can_send s'"
  by (auto simp: same_env_def can_send_def servers_kept_def)

lemma same_env_upd [simp]:
  "same_env s (id_put s' a q) = same_env s s'" "same_env s (s'\<lparr>id_lru := l\<rparr>) = same_env s s'" "same_env s (s'\<lparr>id_hash := h\<rparr>) = same_env s s'"
  "same_env s (s'\<lparr>id_out := os\<rparr>) = same_env s s'" "same_env s (s'\<lparr>id_nrand := k\<rparr>) = same_env s s'" "same_env s (id_unset as s') = same_env s s'"
  "same_env s (s'\<lparr>id_event_queued := ev\<rparr>) = same_env s s'"
  by (simp_all add: same_env_def id_put_def id_unset_def vcs_ok_def)

lemma udp_loop_ok:
  assumes "0 < nns"
  shows "fst (udp_loop udp nns k) \<noteq> [] \<and> (\<forall>i \<in> set (fst (udp_loop udp nns k)). i < nns) \<and> k < snd (udp_loop udp nns k)"
  using assms
proof (induction udp nns k rule: udp_loop.induct)
  case (1 udp nns k)
  show ?case
  proof (cases "udp (k mod nns) \<or> Suc k mod nns = 0")
    case True
    then have "udp_loop udp nns k = ([k mod nns], Suc k)" using "1.prems" by (subst udp_loop.simps) (simp add: Let_def)
    then show ?thesis using "1.prems" by simp
  next
    case False
    obtain l n where ln: "udp_loop udp nns (Suc k) = (l, n)" by (cases "udp_loop udp nns (Suc k)")
    have nz: "nns \<noteq> 0" using "1.prems" by simp
    have eq: "udp_loop udp nns k = (k mod nns # l, n)"
      by (subst udp_loop.simps) (simp only: nz if_False Let_def False ln prod.case)
    have "l \<noteq> []" "\<forall>i \<in> set l. i < nns" "Suc k < n" using "1.IH" [OF nz refl False "1.prems"] unfolding ln by simp_all
    then show ?thesis unfolding eq using "1.prems" by simp
  qed
qed

lemma tickle_same: "same_env s (idnsTickleQueue cf s)" "id_mem (idnsTickleQueue cf s) = id_mem s" "id_lru (idnsTickleQueue cf s) = id_lru s"
  "id_hash (idnsTickleQueue cf s) = id_hash s" "out_data (id_out (idnsTickleQueue cf s)) = out_data (id_out s)"
  by (simp_all add: idnsTickleQueue_def same_env_def id_emit_def vcs_ok_def)

lemma send_ok:
  assumes can: "can_send s" and q: "id_mem s a = Some q" and a: "a \<notin> set (id_lru s)" and buf: "length (iq_buf q) \<le> RESOLV_BUFSZ"
  shows "\<exists>s' n. idnsSendQuery cf udp s a = Inr s' \<and> 0 < n \<and> same_env s s' \<and> id_lru s' = a # id_lru s \<and> id_hash s' = id_hash s \<and>
    id_mem s' = (id_mem s)(a \<mapsto> q\<lparr>iq_nsends := n, iq_sent_t := id_now s, iq_queue_t := id_now s, iq_pending := True\<rparr>) \<and>
    out_data (id_out s') = out_data (id_out s)"
proof -
  let ?nns = "length (id_servers s)"
  have ns: "id_sockets s" "id_servers s \<noteq> []" "vcs_ok s" using can by (auto simp: can_send_def)
  obtain l n s1 where t: "(if iq_need_vc q then res_bind (idnsSendQueryVC s q (iq_nsends q mod ?nns)) (\<lambda>s1. Inr ([iq_nsends q mod ?nns], Suc (iq_nsends q), s1))
           else case udp_loop udp ?nns (iq_nsends q) of (l, n) \<Rightarrow>
             Inr (l, n, s\<lparr>id_out := id_out s @ map (\<lambda>i. UdpSend i (iq_buf q)) l\<rparr>)) = Inr (l, n, s1)"
      "same_queries s s1" "0 < n" "l \<noteq> []"
  proof (cases "iq_need_vc q")
    case True
    have "iq_nsends q mod ?nns < ?nns" using ns(2) by simp
    from send_vc_ok [OF ns(3) this buf] show thesis using True that by auto
  next
    case False
    obtain l n where ln: "udp_loop udp ?nns (iq_nsends q) = (l, n)" by (cases "udp_loop udp ?nns (iq_nsends q)")
    have "same_queries s (s\<lparr>id_out := id_out s @ map (\<lambda>i. UdpSend i (iq_buf q)) l\<rparr>)" by (simp add: same_queries_def vcs_ok_def)
    then show thesis using udp_loop_ok [of ?nns udp "iq_nsends q"] ns(2) ln False that by auto
  qed
  let ?i = "last l"
  define s2 where "s2 = s1\<lparr>id_servers := (id_servers s1)[?i := (id_servers s1 ! ?i)\<lparr>ns_nqueries := ns_nqueries (id_servers s1 ! ?i) + 1\<rparr>]\<rparr>"
  have vc2: "vcs_ok s2"
  proof -
    have v1: "vcs_ok s1" using t(2) ns(3) by (simp add: same_queries_def)
    show ?thesis
    proof (cases "?i < length (id_servers s1)")
      case True
      then have "set (id_servers s2) \<subseteq> insert ((id_servers s1 ! ?i)\<lparr>ns_nqueries := ns_nqueries (id_servers s1 ! ?i) + 1\<rparr>) (set (id_servers s1))"
        by (simp add: s2_def set_update_subset_insert)
      then show ?thesis using v1 nth_mem [OF True] by (fastforce simp: vcs_ok_def)
    next
      case False
      then show ?thesis using v1 by (simp add: s2_def vcs_ok_def list_update_beyond)
    qed
  qed
  let ?q = "q\<lparr>iq_nsends := n, iq_sent_t := id_now s, iq_queue_t := id_now s, iq_pending := True\<rparr>"
  let ?s3 = "(id_put s2 a ?q)\<lparr>id_lru := a # id_lru (id_put s2 a ?q)\<rparr>"
  have "idnsSendQuery cf udp s a = Inr (idnsTickleQueue cf ?s3)"
    unfolding idnsSendQuery_def using ns(1,2) q a by (simp add: id_get_def t(1) Let_def s2_def)
  moreover have "servers_kept (id_servers s) (id_servers s2)"
    unfolding s2_def by (rule servers_kept_trans [of _ "id_servers s1"]) (use t(2) in \<open>simp_all add: same_queries_def servers_kept_update\<close>)
  then have "same_env s s2" using t(2) vc2 unfolding same_env_def same_queries_def by (simp add: s2_def)
  then have "same_env s ?s3" by simp
  then have "same_env s (idnsTickleQueue cf ?s3)" by (rule same_env_trans) (rule tickle_same)
  moreover have "id_lru (idnsTickleQueue cf ?s3) = a # id_lru s" "id_hash (idnsTickleQueue cf ?s3) = id_hash s" "id_mem (idnsTickleQueue cf ?s3) = (id_mem s)(a \<mapsto> ?q)"
      "out_data (id_out (idnsTickleQueue cf ?s3)) = out_data (id_out s)"
    using t(2) by (simp_all add: tickle_same s2_def id_put_def same_queries_def)
  ultimately show ?thesis using t(3) by blast
qed


section \<open>Well-formed queries\<close>

type_synonym dns_mem = "nat \<Rightarrow> idns_query option"

definition pend :: "dns_mem \<Rightarrow> nat \<Rightarrow> bool" where
  "pend mem a = (case mem a of None \<Rightarrow> False | Some q \<Rightarrow> iq_pending q)"

definition no_result :: "idns_query \<Rightarrow> bool" where
  "no_result q \<longleftrightarrow> iq_message q = None \<and> iq_ancount q = 0 \<and> iq_error q = None"

definition has_result :: "idns_query \<Rightarrow> bool" where
  "has_result q \<longleftrightarrow> (iq_error q \<noteq> None \<or> iq_message q \<noteq> None \<and> 0 \<le> iq_ancount q) \<and> (0 < iq_ancount q \<longrightarrow> iq_message q \<noteq> None)"

definition query_master :: "nat \<Rightarrow> idns_query \<Rightarrow> nat" where
  "query_master a q = (case iq_master q of None \<Rightarrow> a | Some m \<Rightarrow> m)"

text \<open>
  A slave belongs to its master and has no callback; a master has a callback, and one query of its group is pending. The queries in \<open>D\<close> are
  out of the list while they are handled, and the masters in \<open>P\<close> may lack a pending query.
\<close>

definition links_wf :: "nat set \<Rightarrow> dns_mem \<Rightarrow> nat \<Rightarrow> idns_query \<Rightarrow> bool" where
  "links_wf P mem a q \<longleftrightarrow>
     (case iq_master q of
        Some m \<Rightarrow> iq_callback q = None \<and> iq_queue q = [] \<and> iq_slaves q = [] \<and> iq_key q = None \<and>
          (\<exists>mq. mem m = Some mq \<and> iq_master mq = None \<and> a \<in> set (iq_slaves mq))
      | None \<Rightarrow> iq_callback q \<noteq> None \<and> iq_key q \<noteq> None \<and> distinct (iq_slaves q) \<and>
          (\<forall>b \<in> set (iq_slaves q). \<exists>bq. mem b = Some bq \<and> iq_master bq = Some a) \<and> (a \<in> P \<or> (\<exists>b \<in> set (a # iq_slaves q). pend mem b)))"

definition result_wf :: "nat set \<Rightarrow> nat \<Rightarrow> idns_query \<Rightarrow> bool" where
  "result_wf D a q \<longleftrightarrow> (if a \<in> D \<or> iq_pending q then no_result q else has_result q) \<and> (a \<in> D \<longrightarrow> \<not> iq_pending q)"

definition wfq :: "nat set \<Rightarrow> nat set \<Rightarrow> dns_mem \<Rightarrow> nat list \<Rightarrow> (string \<times> nat) list \<Rightarrow> bool" where
  "wfq D P mem lru hash \<longleftrightarrow> finite (dom mem) \<and> distinct lru \<and> (\<forall>a. a \<in> set lru \<longleftrightarrow> pend mem a) \<and>
     (\<forall>a q. mem a = Some q \<longrightarrow> result_wf D a q \<and> links_wf P mem a q) \<and>
     distinct (map snd hash) \<and> (\<forall>a. a \<in> snd ` set hash \<longleftrightarrow> (\<exists>q. mem a = Some q \<and> iq_master q = None))"

abbreviation dns_wf :: "nat set \<Rightarrow> nat set \<Rightarrow> idns \<Rightarrow> bool" where
  "dns_wf D P s \<equiv> wfq D P (id_mem s) (id_lru s) (id_hash s)"

lemma wfqD:
  assumes "wfq D P mem lru hash"
  shows "finite (dom mem)" and "distinct lru" and "a \<in> set lru \<longleftrightarrow> pend mem a" and "mem a = Some q \<Longrightarrow> result_wf D a q"
    and "mem a = Some q \<Longrightarrow> links_wf P mem a q" and "distinct (map snd hash)"
    and "a \<in> snd ` set hash \<longleftrightarrow> (\<exists>q. mem a = Some q \<and> iq_master q = None)"
  using assms unfolding wfq_def by blast+

lemma links_slave:
  assumes "links_wf P mem a q" and "iq_master q = Some m"
  shows "iq_callback q = None" and "iq_queue q = []" and "iq_slaves q = []" and "\<exists>mq. mem m = Some mq \<and> iq_master mq = None \<and> a \<in> set (iq_slaves mq)"
  using assms by (simp_all add: links_wf_def)

lemma links_master:
  assumes "links_wf P mem a q" and "iq_master q = None"
  shows "iq_callback q \<noteq> None" and "iq_key q \<noteq> None" and "distinct (iq_slaves q)" and "b \<in> set (iq_slaves q) \<Longrightarrow> \<exists>bq. mem b = Some bq \<and> iq_master bq = Some a"
    and "a \<in> P \<or> (\<exists>b \<in> set (a # iq_slaves q). pend mem b)"
  using assms by (simp_all add: links_wf_def)

text \<open>The master of a query of a well-formed system, and the group it leads.\<close>

lemma master_ok:
  assumes "wfq D P mem lru hash" and "mem a = Some q"
  shows "\<exists>mq. mem (query_master a q) = Some mq \<and> iq_master mq = None \<and> a \<in> set (query_master a q # iq_slaves mq)"
proof (cases "iq_master q")
  case None
  then show ?thesis using assms(2) by (simp add: query_master_def)
next
  case (Some m)
  then show ?thesis using links_slave(4) [OF wfqD(5) [OF assms] Some] by (auto simp: query_master_def)
qed

lemma group_master:
  assumes "wfq D P mem lru hash" and "mem m = Some mq" and "iq_master mq = None" and "b \<in> set (m # iq_slaves mq)"
  shows "\<exists>bq. mem b = Some bq \<and> query_master b bq = m"
proof (cases "b = m")
  case False
  then obtain bq where "mem b = Some bq" "iq_master bq = Some m" using links_master(4) [OF wfqD(5) [OF assms(1,2)] assms(3)] assms(4) by auto
  then show ?thesis by (simp add: query_master_def)
qed (use assms(2,3) in \<open>simp add: query_master_def\<close>)

text \<open>Rewriting one query without touching its links.\<close>

definition same_links :: "idns_query \<Rightarrow> idns_query \<Rightarrow> bool" where
  "same_links q q' \<longleftrightarrow> iq_master q' = iq_master q \<and> iq_callback q' = iq_callback q \<and> (iq_master q \<noteq> None \<longrightarrow> iq_queue q' = iq_queue q) \<and> iq_slaves q' = iq_slaves q \<and> iq_key q' = iq_key q"

lemma links_wf_update:
  assumes "links_wf P mem b r" and q: "mem a = Some q" "same_links q q'" and r': "r' = (if b = a then q' else r)" "b = a \<longrightarrow> r = q"
    and prog: "iq_master r = None \<Longrightarrow> b \<in> P \<or> (\<exists>c \<in> set (b # iq_slaves r). pend mem c) \<Longrightarrow> b \<in> P' \<or> (\<exists>c \<in> set (b # iq_slaves r). pend (mem(a \<mapsto> q')) c)"
  shows "links_wf P' (mem(a \<mapsto> q')) b r'"
proof -
  have l: "iq_master r' = iq_master r" "iq_callback r' = iq_callback r" "iq_master r \<noteq> None \<Longrightarrow> iq_queue r' = iq_queue r" "iq_slaves r' = iq_slaves r" "iq_key r' = iq_key r"
    using q(2) r' by (auto simp: same_links_def)
  show ?thesis
  proof (cases "iq_master r")
    case None
    note m = links_master [OF assms(1) None]
    have "\<exists>cq. (mem(a \<mapsto> q')) c = Some cq \<and> iq_master cq = Some b" if "c \<in> set (iq_slaves r)" for c
      using m(4) [OF that] q by (auto simp: same_links_def)
    then show ?thesis using None m(1-3) prog [OF None m(5)] l unfolding links_wf_def by simp
  next
    case (Some m)
    note sl = links_slave [OF assms(1) Some]
    have "\<exists>mq. (mem(a \<mapsto> q')) m = Some mq \<and> iq_master mq = None \<and> b \<in> set (iq_slaves mq)" using sl(4) q by (auto simp: same_links_def)
    then show ?thesis using Some sl(1-3) l assms(1) unfolding links_wf_def by simp
  qed
qed

lemma wfq_update:
  assumes wf: "wfq D P mem lru hash" and q: "mem a = Some q" "same_links q q'"
    and res: "result_wf D' a q'" "\<And>b. b \<noteq> a \<Longrightarrow> b \<in> D' \<longleftrightarrow> b \<in> D"
    and lru: "distinct lru'" "\<And>b. b \<in> set lru' \<longleftrightarrow> pend (mem(a \<mapsto> q')) b"
    and prog: "\<And>b r. mem b = Some r \<Longrightarrow> iq_master r = None \<Longrightarrow> b \<in> P \<or> (\<exists>c \<in> set (b # iq_slaves r). pend mem c) \<Longrightarrow>
      b \<in> P' \<or> (\<exists>c \<in> set (b # iq_slaves r). pend (mem(a \<mapsto> q')) c)"
  shows "wfq D' P' (mem(a \<mapsto> q')) lru' hash"
proof -
  have "result_wf D' b r' \<and> links_wf P' (mem(a \<mapsto> q')) b r'" if b: "(mem(a \<mapsto> q')) b = Some r'" for b r'
  proof -
    obtain r where r: "mem b = Some r" "r' = (if b = a then q' else r)" "b = a \<longrightarrow> r = q" using b q(1) by (cases "b = a") auto
    have "links_wf P' (mem(a \<mapsto> q')) b r'" by (rule links_wf_update [OF wfqD(5) [OF wf r(1)] q r(2,3)]) (rule prog [OF r(1)])
    moreover have "result_wf D' b r'" using res(1) res(2) [of b] wfqD(4) [OF wf r(1)] r(2) by (cases "b = a") (auto simp: result_wf_def)
    ultimately show ?thesis by simp
  qed
  moreover have "b \<in> snd ` set hash \<longleftrightarrow> (\<exists>r. (mem(a \<mapsto> q')) b = Some r \<and> iq_master r = None)" for b
    using wfqD(7) [OF wf, of b] q by (auto simp: same_links_def)
  ultimately show ?thesis using wfqD(1,6) [OF wf] lru unfolding wfq_def by simp
qed

lemma pend_update: "pend (mem(a \<mapsto> q)) b = (if b = a then iq_pending q else pend mem b)"
  by (simp add: pend_def)


lemma wf_attach:
  assumes wf: "wfq (insert a D) P mem lru hash" and q: "mem a = Some q" "same_links q q'" "iq_pending q'" "no_result q'" "a \<notin> D"
  shows "wfq D (P - {query_master a q}) (mem(a \<mapsto> q')) (a # lru) hash"
proof (rule wfq_update [OF wf q(1,2)])
  have np: "\<not> iq_pending q" using wfqD(4) [OF wf q(1)] by (simp add: result_wf_def)
  then have "a \<notin> set lru" using wfqD(3) [OF wf, of a] q(1) by (simp add: pend_def)
  then show "distinct (a # lru)" "b \<in> set (a # lru) \<longleftrightarrow> pend (mem(a \<mapsto> q')) b" for b
    using wfqD(2,3) [OF wf] q(3) by (simp_all add: pend_update)
  show "result_wf D a q'" using q(3,4,5) by (simp add: result_wf_def)
  show "b \<noteq> a \<Longrightarrow> b \<in> D \<longleftrightarrow> b \<in> insert a D" for b by simp
  fix b r
  assume b: "mem b = Some r" "iq_master r = None" and pr: "b \<in> P \<or> (\<exists>c \<in> set (b # iq_slaves r). pend mem c)"
  show "b \<in> P - {query_master a q} \<or> (\<exists>c \<in> set (b # iq_slaves r). pend (mem(a \<mapsto> q')) c)"
  proof (cases "b = query_master a q")
    case True
    then have "a \<in> set (b # iq_slaves r)" using master_ok [OF wf q(1)] b(1) by auto
    then show ?thesis using q(3) by (auto simp: pend_update)
  next
    case False
    then show ?thesis using pr q(3) by (auto simp: pend_update)
  qed
qed

lemma wf_detach:
  assumes wf: "wfq D P mem lru hash" and q: "mem a = Some q" "same_links q q'" "\<not> iq_pending q'" "no_result q'"
  shows "wfq (insert a D) (insert (query_master a q) P) (mem(a \<mapsto> q')) (remove1 a lru) hash"
proof (rule wfq_update [OF wf q(1,2)])
  show "distinct (remove1 a lru)" using wfqD(2) [OF wf] by simp
  show "b \<in> set (remove1 a lru) \<longleftrightarrow> pend (mem(a \<mapsto> q')) b" for b
    using wfqD(2,3) [OF wf] q(3) by (simp add: pend_update)
  show "result_wf (insert a D) a q'" using q(3,4) by (simp add: result_wf_def)
  show "b \<noteq> a \<Longrightarrow> b \<in> insert a D \<longleftrightarrow> b \<in> D" for b by simp
  fix b r
  assume b: "mem b = Some r" "iq_master r = None" and pr: "b \<in> P \<or> (\<exists>c \<in> set (b # iq_slaves r). pend mem c)"
  show "b \<in> insert (query_master a q) P \<or> (\<exists>c \<in> set (b # iq_slaves r). pend (mem(a \<mapsto> q')) c)"
  proof (cases "b = query_master a q")
    case False
    have "c \<noteq> a" if "c \<in> set (b # iq_slaves r)" for c using group_master [OF wf b that] q(1) False by auto
    then show ?thesis using pr by (auto simp: pend_update)
  qed simp
qed

lemma wf_result:
  assumes wf: "wfq D P mem lru hash" and q: "mem a = Some q" "same_links q q'" "\<not> iq_pending q'" "has_result q'" and np: "\<not> iq_pending q"
  shows "wfq (D - {a}) P (mem(a \<mapsto> q')) lru hash"
proof (rule wfq_update [OF wf q(1,2)])
  have eq: "pend (mem(a \<mapsto> q')) b = pend mem b" for b using q(1,3) np by (simp add: pend_def)
  show "distinct lru" "b \<in> set lru \<longleftrightarrow> pend (mem(a \<mapsto> q')) b" for b using wfqD(2,3) [OF wf] eq by simp_all
  show "result_wf (D - {a}) a q'" using q(3,4) by (simp add: result_wf_def)
  show "b \<noteq> a \<Longrightarrow> b \<in> D - {a} \<longleftrightarrow> b \<in> D" for b by simp
  show "b \<in> P \<or> (\<exists>c \<in> set (b # iq_slaves r). pend mem c) \<Longrightarrow> b \<in> P \<or> (\<exists>c \<in> set (b # iq_slaves r). pend (mem(a \<mapsto> q')) c)" for b r
    using eq by simp
qed

lemma wf_rewrite:
  assumes wf: "wfq D P mem lru hash" and q: "mem a = Some q" "same_links q q'" "iq_pending q' = iq_pending q" "no_result q' = no_result q" "has_result q' = has_result q"
    and lru: "distinct lru'" "set lru' = set lru"
  shows "wfq D P (mem(a \<mapsto> q')) lru' hash"
proof (rule wfq_update [OF wf q(1,2)])
  have eq: "pend (mem(a \<mapsto> q')) b = pend mem b" for b using q(1,3) by (simp add: pend_def)
  show "distinct lru'" "b \<in> set lru' \<longleftrightarrow> pend (mem(a \<mapsto> q')) b" for b using wfqD(3) [OF wf] lru eq by simp_all
  show "result_wf D a q'" using wfqD(4) [OF wf q(1)] q(3-5) by (simp add: result_wf_def)
  show "b \<in> P \<or> (\<exists>c \<in> set (b # iq_slaves r). pend mem c) \<Longrightarrow> b \<in> P \<or> (\<exists>c \<in> set (b # iq_slaves r). pend (mem(a \<mapsto> q')) c)" for b r
    using eq by simp
qed simp

text \<open>A master whose group has a pending query needs no exemption.\<close>

lemma wf_settled:
  assumes wf: "wfq D P mem lru hash" and "mem m = Some mq" and "b \<in> set (m # iq_slaves mq)" and "pend mem b"
  shows "wfq D (P - {m}) mem lru hash"
proof -
  have "links_wf (P - {m}) mem c r" if "mem c = Some r" for c r
  proof (cases "iq_master r")
    case None
    have "c \<in> P - {m} \<or> (\<exists>b \<in> set (c # iq_slaves r). pend mem b)"
      using links_master(5) [OF wfqD(5) [OF wf that] None] assms(2-4) that by (cases "c = m") auto
    then show ?thesis using wfqD(5) [OF wf that] None by (simp add: links_wf_def)
  next
    case (Some k)
    then show ?thesis using wfqD(5) [OF wf that] by (simp add: links_wf_def)
  qed
  then show ?thesis using wf unfolding wfq_def by blast
qed


text \<open>Releasing a group, none of which is pending.\<close>

lemma wf_remove_group:
  assumes wf: "wfq D P mem lru hash" and m: "mem m = Some mq" "iq_master mq = None" and np: "\<forall>b \<in> set (m # iq_slaves mq). \<not> pend mem b"
  defines "mem' \<equiv> \<lambda>a. if a \<in> set (m # iq_slaves mq) then None else mem a"
  shows "wfq (D - set (m # iq_slaves mq)) (P - {m}) mem' lru (filter (\<lambda>(k, b). b \<noteq> m) hash)"
proof -
  let ?G = "set (m # iq_slaves mq)"
  have sl: "\<exists>bq. mem b = Some bq \<and> iq_master bq = Some m" if "b \<in> set (iq_slaves mq)" for b using links_master(4) [OF wfqD(5) [OF wf m(1)] m(2) that] .
  have pe: "pend mem' b = pend mem b" for b using np by (auto simp: mem'_def pend_def)
  have other: "c \<notin> ?G" if r: "mem b = Some r" "iq_master r = None" "b \<noteq> m" "c \<in> set (b # iq_slaves r)" for b r c
  proof
    assume "c \<in> ?G"
    then obtain cq where "mem c = Some cq" "query_master c cq = m" using group_master [OF wf m] by blast
    moreover obtain cq' where "mem c = Some cq'" "query_master c cq' = b" using group_master [OF wf r(1,2,4)] by blast
    ultimately show False using r(3) by simp
  qed
  have "result_wf (D - ?G) b r \<and> links_wf (P - {m}) mem' b r" if b: "mem' b = Some r" for b r
  proof -
    have r: "mem b = Some r" "b \<notin> ?G" using b by (auto simp: mem'_def split: if_splits)
    have res: "result_wf (D - ?G) b r" using wfqD(4) [OF wf r(1)] r(2) by (simp add: result_wf_def)
    show ?thesis
    proof (cases "iq_master r")
      case None
      note l = links_master [OF wfqD(5) [OF wf r(1)] None]
      have nm: "b \<noteq> m" using r(2) by auto
      have "\<exists>cq. mem' c = Some cq \<and> iq_master cq = Some b" if "c \<in> set (iq_slaves r)" for c
        using l(4) [OF that] other [OF r(1) None nm, of c] that by (auto simp: mem'_def)
      then show ?thesis using res None l(1-3,5) nm pe unfolding links_wf_def by simp
    next
      case (Some k)
      note l = links_slave [OF wfqD(5) [OF wf r(1)] Some]
      obtain kq where k: "mem k = Some kq" "iq_master kq = None" "b \<in> set (iq_slaves kq)" using l(4) by blast
      have "k \<noteq> m" using k m(1) r(2) by auto
      moreover have "k \<notin> set (iq_slaves mq)" using sl [of k] k by auto
      ultimately have "mem' k = Some kq" using k(1) by (simp add: mem'_def)
      then show ?thesis using res Some l(1-3) k(2,3) wfqD(5) [OF wf r(1)] unfolding links_wf_def by auto
    qed
  qed
  moreover have "finite (dom mem')" by (rule finite_subset [OF _ wfqD(1) [OF wf]]) (auto simp: mem'_def split: if_splits)
  moreover have "distinct (map snd (filter (\<lambda>(k, b). b \<noteq> m) hash))" using wfqD(6) [OF wf] by (simp add: distinct_map_filter)
  moreover have "a \<in> snd ` set (filter (\<lambda>(k, b). b \<noteq> m) hash) \<longleftrightarrow> (\<exists>q. mem' a = Some q \<and> iq_master q = None)" for a
  proof -
    have "a \<in> snd ` set (filter (\<lambda>(k, b). b \<noteq> m) hash) \<longleftrightarrow> a \<in> snd ` set hash \<and> a \<noteq> m" by force
    also have "\<dots> \<longleftrightarrow> (\<exists>q. mem a = Some q \<and> iq_master q = None) \<and> a \<noteq> m" using wfqD(7) [OF wf] by simp
    also have "\<dots> \<longleftrightarrow> (\<exists>q. mem' a = Some q \<and> iq_master q = None)" using sl [of a] by (auto simp: mem'_def)
    finally show ?thesis .
  qed
  ultimately show ?thesis using wfqD(2,3) [OF wf] pe unfolding wfq_def by simp
qed

text \<open>Releasing the slaves of a master that is being handled.\<close>

lemma wf_drop_slaves:
  assumes wf: "wfq D P mem lru hash" and m: "mem m = Some mq" "iq_master mq = None" "m \<in> P"
    and q': "iq_master q' = None" "iq_callback q' = iq_callback mq" "iq_key q' = iq_key mq" "iq_slaves q' = []" "iq_pending q' = iq_pending mq" "result_wf (D - set (iq_slaves mq)) m q'"
  defines "mem' \<equiv> \<lambda>a. if a \<in> set (iq_slaves mq) then None else (mem(m \<mapsto> q')) a"
  shows "wfq (D - set (iq_slaves mq)) P mem' (filter (\<lambda>b. b \<notin> set (iq_slaves mq)) lru) hash"
proof -
  let ?S = "set (iq_slaves mq)"
  have sl: "\<exists>bq. mem b = Some bq \<and> iq_master bq = Some m" if "b \<in> ?S" for b using links_master(4) [OF wfqD(5) [OF wf m(1)] m(2) that] .
  have ms: "m \<notin> ?S" using sl [of m] m(1,2) by auto
  have pe: "pend mem' b = (b \<notin> ?S \<and> pend mem b)" for b using m(1) q'(5) ms by (auto simp: mem'_def pend_def)
  have "result_wf (D - ?S) b r \<and> links_wf P mem' b r" if b: "mem' b = Some r" for b r
  proof (cases "b = m")
    case True
    then have "r = q'" using b ms by (simp add: mem'_def)
    then show ?thesis using True q' m links_master(1,2) [OF wfqD(5) [OF wf m(1)] m(2)] by (simp add: links_wf_def)
  next
    case False
    then have r: "mem b = Some r" "b \<notin> ?S" using b by (auto simp: mem'_def split: if_splits)
    have res: "result_wf (D - ?S) b r" using wfqD(4) [OF wf r(1)] r(2) by (simp add: result_wf_def)
    show ?thesis
    proof (cases "iq_master r")
      case None
      note l = links_master [OF wfqD(5) [OF wf r(1)] None]
      have ns: "c \<notin> ?S" if "c \<in> set (b # iq_slaves r)" for c
      proof
        assume "c \<in> ?S"
        then show False using sl [of c] l(4) [of c] that False r(1) None by auto
      qed
      have nm: "c \<noteq> m" if "c \<in> set (iq_slaves r)" for c using l(4) [OF that] m(1,2) by auto
      have "\<exists>cq. mem' c = Some cq \<and> iq_master cq = Some b" if "c \<in> set (iq_slaves r)" for c
        using l(4) [OF that] ns [of c] nm [OF that] that by (auto simp: mem'_def)
      moreover have "b \<in> P \<or> (\<exists>c \<in> set (b # iq_slaves r). pend mem' c)" using l(5) ns pe by auto
      ultimately show ?thesis using res None l(1-3) unfolding links_wf_def by simp
    next
      case (Some k)
      note l = links_slave [OF wfqD(5) [OF wf r(1)] Some]
      obtain kq where k: "mem k = Some kq" "iq_master kq = None" "b \<in> set (iq_slaves kq)" using l(4) by blast
      have "k \<noteq> m" using k m(1) r(2) by auto
      moreover have "k \<notin> ?S" using sl [of k] k by auto
      ultimately have "mem' k = Some kq" using k(1) by (simp add: mem'_def)
      then show ?thesis using res Some l(1-3) k(2,3) wfqD(5) [OF wf r(1)] unfolding links_wf_def by auto
    qed
  qed
  moreover have "finite (dom mem')" by (rule finite_subset [of _ "insert m (dom mem)"]) (use wfqD(1) [OF wf] in \<open>auto simp: mem'_def split: if_splits\<close>)
  moreover have "a \<in> snd ` set hash \<longleftrightarrow> (\<exists>q. mem' a = Some q \<and> iq_master q = None)" for a
    using wfqD(7) [OF wf, of a] m(1,2) q'(1) ms sl [of a] by (auto simp: mem'_def)
  ultimately show ?thesis using wfqD(2,3,6) [OF wf] pe unfolding wfq_def by auto
qed

lemma wf_new_master:
  assumes wf: "wfq D P mem lru hash" and a: "a \<notin> dom mem"
    and q: "iq_master q = None" "iq_callback q \<noteq> None" "iq_key q \<noteq> None" "iq_slaves q = []" "\<not> iq_pending q" "no_result q"
  shows "wfq (insert a D) (insert a P) (mem(a \<mapsto> q)) lru ((k, a) # hash)"
proof -
  have an: "mem a = None" using a by auto
  have pe: "pend (mem(a \<mapsto> q)) b = pend mem b" for b using q(5) an by (simp add: pend_def)
  have "result_wf (insert a D) b r \<and> links_wf (insert a P) (mem(a \<mapsto> q)) b r" if b: "(mem(a \<mapsto> q)) b = Some r" for b r
  proof (cases "b = a")
    case True
    then show ?thesis using b q by (simp add: result_wf_def links_wf_def)
  next
    case False
    then have r: "mem b = Some r" using b by simp
    have ex: "(\<exists>cq. (mem(a \<mapsto> q)) c = Some cq \<and> Q cq)" if "\<exists>cq. mem c = Some cq \<and> Q cq" for c Q using that an by auto
    have "links_wf (insert a P) (mem(a \<mapsto> q)) b r"
    proof (cases "iq_master r")
      case None
      then show ?thesis using links_master [OF wfqD(5) [OF wf r] None] ex pe unfolding links_wf_def by simp
    next
      case (Some k)
      then show ?thesis using wfqD(5) [OF wf r] ex [OF links_slave(4) [OF wfqD(5) [OF wf r] Some]] unfolding links_wf_def by simp
    qed
    then show ?thesis using wfqD(4) [OF wf r] False by (simp add: result_wf_def)
  qed
  moreover have "a \<notin> snd ` set hash" using wfqD(7) [OF wf, of a] an by simp
  moreover have "b \<in> snd ` set ((k, a) # hash) \<longleftrightarrow> (\<exists>r. (mem(a \<mapsto> q)) b = Some r \<and> iq_master r = None)" for b
    using wfqD(7) [OF wf, of b] q(1) by auto
  ultimately show ?thesis using wfqD(1,2,3,6) [OF wf] pe unfolding wfq_def by auto
qed

lemma wf_new_slave:
  assumes wf: "wfq D P mem lru hash" and a: "a \<notin> dom mem" and m: "mem m = Some mq" "iq_master mq = None"
    and q: "iq_master q = Some m" "iq_callback q = None" "iq_queue q = []" "iq_slaves q = []" "iq_key q = None" "\<not> iq_pending q" "no_result q"
  shows "wfq (insert a D) P (mem(a \<mapsto> q, m \<mapsto> mq\<lparr>iq_slaves := a # iq_slaves mq\<rparr>)) lru hash"
proof -
  let ?mq = "mq\<lparr>iq_slaves := a # iq_slaves mq\<rparr>" and ?mem = "mem(a \<mapsto> q, m \<mapsto> mq\<lparr>iq_slaves := a # iq_slaves mq\<rparr>)"
  have an: "mem a = None" "a \<noteq> m" using a m(1) by auto
  have pe: "pend ?mem b = pend mem b" for b using q(6) an m(1) by (simp add: pend_def)
  note lm = links_master [OF wfqD(5) [OF wf m(1)] m(2)]
  have "result_wf (insert a D) b r \<and> links_wf P ?mem b r" if b: "?mem b = Some r" for b r
  proof -
    consider "b = a" | "b = m" | "b \<noteq> a" "b \<noteq> m" by blast
    then show ?thesis
    proof cases
      case 1
      then have "r = q" using b an by simp
      then show ?thesis using 1 q m an by (simp add: result_wf_def links_wf_def)
    next
      case 2
      then have r: "r = ?mq" using b by simp
      have "distinct (a # iq_slaves mq)" using lm(3) lm(4) [of a] an(1) by auto
      moreover have "m \<notin> set (iq_slaves mq)" using lm(4) [of m] m by auto
      then have "\<forall>c \<in> set (a # iq_slaves mq). \<exists>cq. ?mem c = Some cq \<and> iq_master cq = Some m" using q(1) an lm(4) by auto
      moreover have "no_result r = no_result mq" "has_result r = has_result mq" "iq_pending r = iq_pending mq" using r by (simp_all add: no_result_def has_result_def)
      then have "result_wf (insert a D) m r" using wfqD(4) [OF wf m(1)] an(2) by (simp add: result_wf_def)
      moreover have "m \<in> P \<or> (\<exists>c \<in> set (m # a # iq_slaves mq). pend ?mem c)" using lm(5) pe by auto
      ultimately show ?thesis using 2 r lm(1,2) m(2) unfolding links_wf_def by simp
    next
      case 3
      then have r: "mem b = Some r" using b by simp
      have "links_wf P ?mem b r"
      proof (cases "iq_master r")
        case None
        note l = links_master [OF wfqD(5) [OF wf r] None]
        have "\<exists>cq. ?mem c = Some cq \<and> iq_master cq = Some b" if "c \<in> set (iq_slaves r)" for c using l(4) [OF that] an m by auto
        then show ?thesis using None l(1-3,5) pe unfolding links_wf_def by simp
      next
        case (Some k)
        then have "\<exists>kq. ?mem k = Some kq \<and> iq_master kq = None \<and> b \<in> set (iq_slaves kq)"
          using links_slave(4) [OF wfqD(5) [OF wf r] Some] an m by auto
        then show ?thesis using Some wfqD(5) [OF wf r] unfolding links_wf_def by simp
      qed
      then show ?thesis using wfqD(4) [OF wf r] 3 by (simp add: result_wf_def)
    qed
  qed
  moreover have "b \<in> snd ` set hash \<longleftrightarrow> (\<exists>r. ?mem b = Some r \<and> iq_master r = None)" for b
    using wfqD(7) [OF wf, of b] q(1) m an by auto
  ultimately show ?thesis using wfqD(1,2,3,6) [OF wf] pe unfolding wfq_def by simp
qed


section \<open>Queries that fit\<close>

lemma strtok_size: "labels_size (strtok_dots s) \<le> length s + (if s \<noteq> [] \<and> hd s \<noteq> CHR ''.'' then 1 else 0)"
proof (induction s rule: strtok_dots.induct)
  case (1 s)
  let ?d = "dropWhile (\<lambda>c. c = CHR ''.'') s"
  show ?case
  proof (cases ?d)
    case Nil
    then have "strtok_dots s = []" by (subst strtok_dots.simps) (simp only: list.case)
    then show ?thesis by simp
  next
    case (Cons c r)
    let ?t = "takeWhile (\<lambda>c. c \<noteq> CHR ''.'') r" and ?r = "dropWhile (\<lambda>c. c \<noteq> CHR ''.'') r"
    have eq: "strtok_dots s = (c # ?t) # strtok_dots ?r" by (subst strtok_dots.simps) (simp only: Cons list.case)
    have "?r \<noteq> [] \<Longrightarrow> hd ?r = CHR ''.''" using hd_dropWhile [of "\<lambda>c. c \<noteq> CHR ''.''" r] by simp
    then have "labels_size (strtok_dots ?r) \<le> length ?r" using "1.IH" [OF Cons] by (auto split: if_splits)
    moreover have "length ?t + length ?r = length r" by (metis length_append takeWhile_dropWhile_id)
    moreover have "Suc (length r) \<le> length s" using Cons length_dropWhile_le [of "\<lambda>c. c = CHR ''.''" s] by simp
    moreover have "Suc (Suc (length r)) \<le> length s" if "hd s = CHR ''.''" "s \<noteq> []"
      using that Cons length_dropWhile_le [of "\<lambda>c. c = CHR ''.''" "List.tl s"] by (cases s) auto
    ultimately show ?thesis unfolding eq by (cases s) (auto split: if_splits)
  qed
qed

lemma labels_pack_le:
  "\<forall>t \<in> set ts. CHR ''.'' \<notin> set t \<Longrightarrow> labels_size ts \<le> sz \<Longrightarrow> \<exists>b. pack_labels sz ts = Inr b \<and> length b \<le> labels_size ts"
proof (induction ts arbitrary: sz)
  case (Cons t ts)
  define n where "n = min (length t) RFC1035_MAXLABELSZ"
  have "takeWhile (\<lambda>d. d \<noteq> CHR ''.'') t = t" using Cons.prems(1) by (auto simp: takeWhile_eq_all_conv)
  then have "c_strchr t (CHR ''.'') = None" by (simp only: c_strchr_def Let_def) simp
  moreover have n: "n \<le> length t" "n + 1 \<le> sz" using Cons.prems(2) by (auto simp: n_def)
  ultimately have b: "rfc1035LabelPack sz (Some t) = Inr (char_of n # take n t)" by (simp add: rfc1035LabelPack_def n_def Let_def)
  obtain bs where "pack_labels (sz - (n + 1)) ts = Inr bs" "length bs \<le> labels_size ts"
  proof -
    have "labels_size ts \<le> sz - (n + 1)" using Cons.prems(2) n(1) by simp
    from Cons.IH [OF _ this] show thesis using that Cons.prems(1) by auto
  qed
  then show ?case using b n by auto
qed simp

lemma build_ok:
  assumes "length name + 30 \<le> sz"
  shows "\<exists>b q. rfc3596BuildHostQuery rcvbuf name sz qid qtype edns = Inr (b, q) \<and> b \<noteq> [] \<and> length b \<le> sz"
proof -
  have sz: "labels_size (strtok_dots name) \<le> length name + 1" using strtok_size [of name] by (auto split: if_splits)
  obtain hb where hb: "rfc1035HeaderPack sz (query_header qid edns) = Inr hb" "length hb = 12"
    using header_roundtrip [of sz "query_header qid edns"] assms by auto
  let ?room = "sz - 12"
  obtain b where b: "pack_labels ?room (strtok_dots name) = Inr b" "length b \<le> length name + 1"
    using labels_pack_le [of "strtok_dots name" ?room] strtok_tokens sz assms by fastforce
  have "1 \<le> ?room - length b" "Suc (length b) \<le> ?room" using b(2) assms by linarith+
  then have n: "rfc1035NamePack ?room name = Inr (b @ [char_of (0 :: nat)])"
    using b by (simp add: rfc1035NamePack_def rfc1035LabelPack_def c_strchr_def Let_def)
  have "2 \<le> ?room - Suc (length b)" "2 \<le> ?room - Suc (length b) - 2" "length b + 5 \<le> ?room" using b(2) assms by linarith+
  then have q: "rfc1035QuestionPack ?room name qtype RFC1035_CLASS_IN = Inr ((b @ [char_of (0 :: nat)]) @ be16 qtype @ be16 RFC1035_CLASS_IN)"
    using n by (simp add: rfc1035QuestionPack_def put_bytes_def)
  have "11 \<le> ?room - (length b + 5)" using b(2) assms by linarith
  from opt_pack [OF this, of rcvbuf edns] obtain ob where
    ob: "(if edns > 0 then rfc2671RROptPack rcvbuf (?room - (length b + 5)) edns else Inr []) = Inr ob" "length ob \<le> 11" by (cases "edns > 0") auto
  have "12 + (length b + 5) + length ob \<le> sz" using b(2) ob(2) assms by linarith
  then show ?thesis using hb q ob(1) by (auto simp: rfc3596BuildHostQuery_def)
qed

definition names_fit :: "idns \<Rightarrow> bool" where
  "names_fit s \<longleftrightarrow> (\<forall>d \<in> set (id_searchpath s). length d < NS_MAXDNAME) \<and> (\<forall>a q. id_mem s a = Some q \<longrightarrow> length (iq_buf q) \<le> RESOLV_BUFSZ \<and> length (iq_name q) \<le> NS_MAXDNAME \<and> length (iq_orig q) \<le> NS_MAXDNAME \<and>
     (\<forall>d \<in> set (id_searchpath s). length (iq_orig q) + 1 + length d \<le> NS_MAXDNAME))"

lemma names_fit_mem:
  assumes "names_fit s" and "id_searchpath s' = id_searchpath s"
    and "\<And>a q. id_mem s' a = Some q \<Longrightarrow> (\<exists>q0. id_mem s a = Some q0 \<and> iq_buf q = iq_buf q0 \<and> iq_name q = iq_name q0 \<and> iq_orig q = iq_orig q0) \<or>
      length (iq_buf q) \<le> RESOLV_BUFSZ \<and> length (iq_name q) \<le> NS_MAXDNAME \<and> length (iq_orig q) \<le> NS_MAXDNAME \<and>
      (\<forall>d \<in> set (id_searchpath s). length (iq_orig q) + 1 + length d \<le> NS_MAXDNAME)"
  shows "names_fit s'"
  using assms unfolding names_fit_def by metis


section \<open>Lookups kept and answered\<close>

text \<open>The data of the lookups that wait for a query.\<close>

definition waiting :: "dns_mem \<Rightarrow> nat \<Rightarrow> nat list" where
  "waiting mem a = (case mem a of None \<Rightarrow> [] | Some q \<Rightarrow> (case iq_callback q of None \<Rightarrow> [] | Some d \<Rightarrow> [d]) @ iq_queue q)"

definition outstanding :: "dns_mem \<Rightarrow> (string \<times> nat) list \<Rightarrow> nat multiset" where
  "outstanding mem hash = mset (concat (map (\<lambda>(k, a). waiting mem a) hash))"

text \<open>All lookups made: the outstanding ones and those called back.\<close>

definition lookups :: "idns \<Rightarrow> nat multiset" where
  "lookups s = outstanding (id_mem s) (id_hash s) + mset (out_data (id_out s))"

lemma outstanding_cong:
  assumes "\<And>k a. (k, a) \<in> set hash \<Longrightarrow> waiting mem' a = waiting mem a"
  shows "outstanding mem' hash = outstanding mem hash"
proof -
  have "map (\<lambda>(k, a). waiting mem' a) hash = map (\<lambda>(k, a). waiting mem a) hash" using assms by auto
  then show ?thesis by (simp only: outstanding_def)
qed

lemma waiting_update: "mem a = Some q \<Longrightarrow> iq_callback q' = iq_callback q \<Longrightarrow> iq_queue q' = iq_queue q \<Longrightarrow> waiting (mem(a \<mapsto> q')) b = waiting mem b"
  by (simp add: waiting_def)

lemma outstanding_update:
  "mem a = Some q \<Longrightarrow> iq_callback q' = iq_callback q \<Longrightarrow> iq_queue q' = iq_queue q \<Longrightarrow> outstanding (mem(a \<mapsto> q')) hash = outstanding mem hash"
  by (rule outstanding_cong) (rule waiting_update)

lemma outstanding_split:
  assumes "distinct (map snd hash)" and "m \<in> snd ` set hash"
  shows "outstanding mem hash = mset (waiting mem m) + outstanding mem (filter (\<lambda>(k, b). b \<noteq> m) hash)"
  using assms
proof (induction hash)
  case (Cons x hash)
  obtain k a where x: "x = (k, a)" by (cases x)
  show ?case
  proof (cases "a = m")
    case True
    then have "filter (\<lambda>(k, b). b \<noteq> m) hash = hash" using Cons.prems(1) x by (auto simp: filter_id_conv rev_image_eqI)
    then show ?thesis using True x by (simp add: outstanding_def)
  next
    case False
    then have "outstanding mem hash = mset (waiting mem m) + outstanding mem (filter (\<lambda>(k, b). b \<noteq> m) hash)"
      using Cons x by auto
    then show ?thesis using False x by (simp add: outstanding_def)
  qed
qed simp

end
