(* ===== verification/Dns_Handlers.thy ===== *)
theory Dns_Handlers
  imports Dns_Wellformed
begin

text \<open>
  Each handler of lookups and replies of \<open>Dns_Internal\<close> keeps the invariant \<open>dns_inv\<close> of the client and the lookups made.
\<close>

section \<open>The invariant of the client\<close>

definition dns_inv :: "idns \<Rightarrow> bool" where
  "dns_inv s \<longleftrightarrow> dns_wf {} {} s \<and> names_fit s \<and> can_send s"

text \<open>Sending a query that is being handled puts it back among the pending ones.\<close>

lemma send_wf:
  assumes wf: "dns_wf (insert a D) P s" and fit: "names_fit s" and can: "can_send s" and q: "id_mem s a = Some q" and a: "a \<notin> D"
  shows "\<exists>s'. idnsSendQuery cf udp s a = Inr s' \<and> dns_wf D (P - {query_master a q}) s' \<and> names_fit s' \<and> same_env s s' \<and> lookups s' = lookups s \<and>
    (\<exists>q'. id_mem s' = (id_mem s)(a \<mapsto> q') \<and> same_links q q' \<and> iq_orig q' = iq_orig q \<and> iq_name q' = iq_name q \<and> iq_queue_t q' = id_now s \<and> iq_pending q') \<and>
    id_hash s' = id_hash s \<and> id_lru s' = a # id_lru s"
proof -
  have r: "\<not> iq_pending q" "no_result q" using wfqD(4) [OF wf q] by (simp_all add: result_wf_def)
  have nl: "a \<notin> set (id_lru s)" using wfqD(3) [OF wf, of a] q r(1) by (simp add: pend_def)
  have buf: "length (iq_buf q) \<le> RESOLV_BUFSZ" using fit q by (simp add: names_fit_def)
  obtain s' n where s': "idnsSendQuery cf udp s a = Inr s'" "same_env s s'" "id_lru s' = a # id_lru s" "id_hash s' = id_hash s"
      "id_mem s' = (id_mem s)(a \<mapsto> q\<lparr>iq_nsends := n, iq_sent_t := id_now s, iq_queue_t := id_now s, iq_pending := True\<rparr>)" "out_data (id_out s') = out_data (id_out s)"
    using send_ok [OF can q nl buf, of cf udp] by blast
  let ?q = "q\<lparr>iq_nsends := n, iq_sent_t := id_now s, iq_queue_t := id_now s, iq_pending := True\<rparr>"
  have same: "same_links q ?q" by (simp add: same_links_def)
  have "wfq D (P - {query_master a q}) ((id_mem s)(a \<mapsto> ?q)) (a # id_lru s) (id_hash s)"
    by (rule wf_attach [OF wf q same _ _ a]) (use r in \<open>simp_all add: no_result_def\<close>)
  moreover have "names_fit s'" by (rule names_fit_mem [OF fit]) (use s'(2,5) q in \<open>auto simp: same_env_def split: if_splits\<close>)
  moreover have "lookups s' = lookups s" using s'(4,5,6) outstanding_update [of "id_mem s" a q ?q] q by (simp add: lookups_def)
  ultimately show ?thesis using s' same by (intro exI [of _ s']) (auto intro!: exI [of _ ?q])
qed


section \<open>Calling back\<close>

lemma merge_slaves_ok:
  assumes "\<forall>b \<in> set bs. \<exists>bq. id_mem s b = Some bq \<and> has_result bq" and "0 < n \<longrightarrow> message \<noteq> None"
  shows "\<exists>r. merge_slaves cf s bs (message, n, err) = Inr r"
  using assms
proof (induction bs arbitrary: message n err)
  case (Cons b bs)
  obtain bq where bq: "id_mem s b = Some bq" "has_result bq" using Cons.prems(1) by auto
  obtain m' n' e' where "merge_slave cf bq (message, n, err) = Inr (m', n', e')" "0 < n' \<longrightarrow> m' \<noteq> None"
  proof (cases "iq_error bq \<noteq> None")
    case True
    then show thesis using that Cons.prems(2) by (simp add: merge_slave_def)
  next
    case False
    then have "iq_message bq \<noteq> None" using bq(2) by (auto simp: has_result_def)
    then show thesis using that False Cons.prems(2) by (cases "0 < n") (auto simp: merge_slave_def Let_def)
  qed
  then show ?case using Cons.IH [of n' m' e'] Cons.prems(1) bq(1) by (auto simp: id_get_def)
qed simp

lemma lookups_put: "id_mem s a = Some q \<Longrightarrow> iq_callback q' = iq_callback q \<Longrightarrow> iq_queue q' = iq_queue q \<Longrightarrow> lookups (id_put s a q') = lookups s"
  using outstanding_update [of "id_mem s" a q q'] by (simp add: lookups_def id_put_def)

lemma callback_wf:
  assumes q0: "id_mem s a = Some q0" and s1: "s1 = (if err = None then s else id_put s a (q0\<lparr>iq_error := err\<rparr>))"
    and wf: "dns_wf {} {query_master a q0} s1" and fit: "names_fit s"
  shows "\<exists>s'. idnsCallback cf valid s a err = Inr s' \<and> dns_wf {} {} s' \<and> names_fit s' \<and> same_env s s' \<and> lookups s' = lookups s \<and> id_lru s' = id_lru s \<and>
    (\<forall>b q. id_mem s' b = Some q \<longrightarrow> id_mem s1 b = Some q)"
proof -
  let ?m = "query_master a q0"
  have sp: "id_lru s1 = id_lru s" "id_hash s1 = id_hash s" "id_out s1 = id_out s" "id_searchpath s1 = id_searchpath s" using s1 by (simp_all add: id_put_def)
  obtain q1 where q1: "id_mem s1 a = Some q1" "iq_master q1 = iq_master q0" using s1 q0 by (cases "err = None") (auto simp: id_put_def)
  then have qm: "query_master a q1 = ?m" by (simp add: query_master_def)
  obtain mq where mq: "id_mem s1 ?m = Some mq" "iq_master mq = None" using master_ok [OF wf q1(1)] qm by auto
  have fit1: "names_fit s1" by (rule names_fit_mem [OF fit sp(4)]) (use s1 q0 in \<open>auto simp: id_put_def split: if_splits\<close>)
  have lk1: "lookups s1 = lookups s" using s1 lookups_put [OF q0, of "q0\<lparr>iq_error := err\<rparr>"] by simp
  have env1: "same_env s s1" using s1 by simp
  have unf: "idnsCallback cf valid s a err =
       (if (\<exists>b \<in> set (?m # iq_slaves mq). is_pending s1 b) then Inr s1
       else res_bind (merge_slaves cf s1 (iq_slaves mq) (iq_message mq, iq_ancount mq, iq_error mq)) (\<lambda>(message, n, error).
         let answers = map_option msg_answer message; call = (\<lambda>d. Callback d answers n error (valid d))
         in case iq_callback mq of
              None \<Rightarrow> Inl Dangling
            | Some d \<Rightarrow>
                Inr (id_unset (?m # iq_slaves mq)
                  (s1\<lparr>id_out := id_out s1 @ map call (d # iq_queue mq),
                      id_hash := (if iq_key mq = None then id_hash s1 else filter (\<lambda>(k, b). b \<noteq> ?m) (id_hash s1))\<rparr>))))"
    unfolding idnsCallback_def using mq(1)
    by (simp only: id_get_def q0 option.case res_bind_simps Let_def s1 [symmetric] query_master_def [symmetric])
  have pe: "is_pending s1 b = pend (id_mem s1) b" for b by (simp add: is_pending_def pend_def)
  show ?thesis
  proof (cases "\<exists>b \<in> set (?m # iq_slaves mq). is_pending s1 b")
    case True
    then obtain b where "b \<in> set (?m # iq_slaves mq)" "pend (id_mem s1) b" using pe by blast
    from wf_settled [OF wf mq(1) this] have "dns_wf {} {} s1" by simp
    then show ?thesis using unf True fit1 lk1 env1 sp by (intro exI [of _ s1]) simp
  next
    case False
    note lm = links_master [OF wfqD(5) [OF wf mq(1)] mq(2)]
    have np: "\<forall>b \<in> set (?m # iq_slaves mq). \<not> pend (id_mem s1) b" using False pe by blast
    have "\<exists>bq. id_mem s1 b = Some bq \<and> has_result bq" if bs: "b \<in> set (iq_slaves mq)" for b
    proof -
      obtain bq where b: "id_mem s1 b = Some bq" using lm(4) [OF bs] by blast
      moreover have "\<not> iq_pending bq" using np bs b by (auto simp: pend_def)
      ultimately show ?thesis using wfqD(4) [OF wf b] by (simp add: result_wf_def)
    qed
    moreover have "0 < iq_ancount mq \<longrightarrow> iq_message mq \<noteq> None"
      using wfqD(4) [OF wf mq(1)] np mq(1) by (auto simp: result_wf_def has_result_def pend_def)
    ultimately obtain message n error where r: "merge_slaves cf s1 (iq_slaves mq) (iq_message mq, iq_ancount mq, iq_error mq) = Inr (message, n, error)"
      using merge_slaves_ok [of "iq_slaves mq" s1 "iq_ancount mq" "iq_message mq" cf "iq_error mq"] by auto
    obtain d where d: "iq_callback mq = Some d" using lm(1) by auto
    let ?call = "\<lambda>d. Callback d (map_option msg_answer message) n error (valid d)"
    define s' where "s' = id_unset (?m # iq_slaves mq) (s1\<lparr>id_out := id_out s1 @ map ?call (d # iq_queue mq), id_hash := filter (\<lambda>(k, b). b \<noteq> ?m) (id_hash s1)\<rparr>)"
    have res: "idnsCallback cf valid s a err = Inr s'" unfolding unf using False r d lm(2) by (auto simp: s'_def Let_def)
    have mem': "id_mem s' = (\<lambda>a. if a \<in> set (?m # iq_slaves mq) then None else id_mem s1 a)" "id_lru s' = id_lru s1" "id_hash s' = filter (\<lambda>(k, b). b \<noteq> ?m) (id_hash s1)"
        "out_data (id_out s') = out_data (id_out s1) @ d # iq_queue mq" "id_searchpath s' = id_searchpath s1"
      by (simp_all add: s'_def id_unset_def fun_eq_iff)
    have "dns_wf {} {} s'" using wf_remove_group [OF wf mq np] unfolding mem' by simp
    moreover have "names_fit s'" by (rule names_fit_mem [OF fit1 mem'(5)]) (auto simp: mem'(1) split: if_splits)
    moreover have "lookups s' = lookups s1"
    proof -
      have "?m \<in> snd ` set (id_hash s1)" using wfqD(7) [OF wf] mq by blast
      from outstanding_split [OF wfqD(6) [OF wf] this, of "id_mem s1"]
      have "outstanding (id_mem s1) (id_hash s1) = mset (d # iq_queue mq) + outstanding (id_mem s1) (id_hash s')" using mq(1) d by (simp add: waiting_def mem')
      moreover have "outstanding (id_mem s') (id_hash s') = outstanding (id_mem s1) (id_hash s')"
      proof (rule outstanding_cong)
        fix k b
        assume "(k, b) \<in> set (id_hash s')"
        then have b: "b \<in> snd ` set (id_hash s1)" "b \<noteq> ?m" by (force simp: mem')+
        then obtain bq where "id_mem s1 b = Some bq" "iq_master bq = None" using wfqD(7) [OF wf, of b] by blast
        then have "b \<notin> set (iq_slaves mq)" using lm(4) [of b] by auto
        then show "waiting (id_mem s') b = waiting (id_mem s1) b" using b(2) by (simp add: waiting_def mem')
      qed
      ultimately show ?thesis by (simp add: lookups_def mem')
    qed
    moreover have "same_env s s'" using env1 by (simp add: s'_def)
    ultimately show ?thesis using res lk1 sp mem'(1,2) by (intro exI [of _ s']) (auto split: if_splits)
  qed
qed


section \<open>Handlers keep the invariant\<close>

lemma dns_invI: "dns_wf {} {} s \<Longrightarrow> names_fit s \<Longrightarrow> can_send s \<Longrightarrow> dns_inv s"
  by (simp add: dns_inv_def)

lemma dns_invD: "dns_inv s \<Longrightarrow> dns_wf {} {} s" "dns_inv s \<Longrightarrow> names_fit s" "dns_inv s \<Longrightarrow> can_send s"
  by (simp_all add: dns_inv_def)

lemma query_id_state: "idnsQueryID rnd s = (i, s1) \<Longrightarrow> s1 = s\<lparr>id_nrand := id_nrand s + 1\<rparr>"
  by (auto simp: idnsQueryID_def Let_def)

lemma names_bound: "names_fit s \<Longrightarrow> id_mem s a = Some q \<Longrightarrow> length (iq_name q) + 30 \<le> RESOLV_BUFSZ"
proof -
  assume "names_fit s" "id_mem s a = Some q"
  then have "length (iq_name q) \<le> NS_MAXDNAME" unfolding names_fit_def by blast
  then show ?thesis by (simp add: RESOLV_BUFSZ_def NS_MAXDNAME_def)
qed

text \<open>Sending a query that is handled, as a whole step.\<close>

lemma send_inv:
  assumes wf: "dns_wf {a} {query_master a q} s" and fit: "names_fit s" and can: "can_send s" and q: "id_mem s a = Some q"
  shows "\<exists>s'. idnsSendQuery cf udp s a = Inr s' \<and> dns_inv s' \<and> same_env s s' \<and> lookups s' = lookups s \<and>
    (\<exists>q'. id_mem s' = (id_mem s)(a \<mapsto> q') \<and> same_links q q' \<and> iq_orig q' = iq_orig q \<and> iq_name q' = iq_name q \<and> iq_queue_t q' = id_now s) \<and> id_lru s' = a # id_lru s"
proof -
  obtain s' where s': "idnsSendQuery cf udp s a = Inr s'" "dns_wf {} ({query_master a q} - {query_master a q}) s'" "names_fit s'" "same_env s s'" "lookups s' = lookups s"
      "\<exists>q'. id_mem s' = (id_mem s)(a \<mapsto> q') \<and> same_links q q' \<and> iq_orig q' = iq_orig q \<and> iq_name q' = iq_name q \<and> iq_queue_t q' = id_now s \<and> iq_pending q'" "id_lru s' = a # id_lru s"
    using send_wf [OF wf fit can q, of cf udp] by blast
  have "dns_inv s'" by (rule dns_invI) (use s' same_env_can_send [OF _ can] in auto)
  then show ?thesis using s' by blast
qed

lemma slave_inv:
  assumes inv: "dns_inv s" and m: "id_mem s m = Some mq" "iq_master mq = None" and fresh: "fresh_alloc alloc"
  shows "\<exists>s'. idnsSendSlaveAAAAQuery cf udp alloc rnd s m = Inr s' \<and> dns_inv s' \<and> same_env s s' \<and> lookups s' = lookups s"
proof -
  note wf = dns_invD(1) [OF inv] and fit = dns_invD(2) [OF inv] and can = dns_invD(3) [OF inv]
  define a where "a = alloc (dom (id_mem s))"
  have a: "a \<notin> dom (id_mem s)" using fresh wfqD(1) [OF wf] by (simp add: fresh_alloc_def a_def)
  obtain i s1 where i: "idnsQueryID rnd s = (i, s1)" by (cases "idnsQueryID rnd s")
  note s1 = query_id_state [OF i]
  obtain b query where b: "rfc3596BuildAAAAQuery (int (cf_rcvbuf cf)) (iq_name mq) RESOLV_BUFSZ i (cf_packet_max cf) = Inr (b, query)" "b \<noteq> []" "length b \<le> RESOLV_BUFSZ"
    using build_ok [OF names_bound [OF fit m(1)], of "int (cf_rcvbuf cf)" i RFC1035_TYPE_AAAA "cf_packet_max cf"] by (auto simp: rfc3596BuildAAAAQuery_def)
  define q where "q = new_query\<lparr>iq_name := iq_name mq, iq_orig := iq_orig mq, iq_master := Some m, iq_query_id := i, iq_buf := b, iq_query := query, iq_start_t := iq_start_t mq\<rparr>"
  define s2 where "s2 = id_put (id_put s1 a q) m (mq\<lparr>iq_slaves := a # iq_slaves mq\<rparr>)"
  have run: "idnsSendSlaveAAAAQuery cf udp alloc rnd s m = idnsSendQuery cf udp s2 a"
    using m(1) b(1,2) i by (simp add: idnsSendSlaveAAAAQuery_def id_get_def a_def [symmetric] q_def [symmetric] s2_def [symmetric] Let_def)
  have am: "a \<noteq> m" using a m(1) by auto
  have mem2: "id_mem s2 = (id_mem s)(a \<mapsto> q, m \<mapsto> mq\<lparr>iq_slaves := a # iq_slaves mq\<rparr>)" "id_lru s2 = id_lru s" "id_hash s2 = id_hash s" "id_out s2 = id_out s" "id_searchpath s2 = id_searchpath s"
    by (simp_all add: s2_def id_put_def s1)
  have "wfq {a} {} (id_mem s2) (id_lru s2) (id_hash s2)"
    unfolding mem2 by (rule wf_new_slave [OF wf a m]) (simp_all add: q_def new_query_def no_result_def)
  moreover have env: "same_env s s2" by (simp add: s2_def s1)
  moreover have "names_fit s2"
    by (rule names_fit_mem [OF fit mem2(5)]) (use fit m(1) b(3) in \<open>auto simp: mem2(1) q_def new_query_def names_fit_def split: if_splits\<close>)
  moreover have q2: "id_mem s2 a = Some q" using am by (simp add: mem2)
  moreover have lk: "lookups s2 = lookups s"
  proof -
    have "outstanding (id_mem s2) (id_hash s) = outstanding (id_mem s) (id_hash s)"
    proof (rule outstanding_cong)
      fix k b
      assume "(k, b) \<in> set (id_hash s)"
      then have "b \<in> dom (id_mem s)" using wfqD(7) [OF wf, of b] by force
      then show "waiting (id_mem s2) b = waiting (id_mem s) b" using a m(1) by (auto simp: waiting_def mem2)
    qed
    then show ?thesis by (simp add: lookups_def mem2)
  qed
  ultimately obtain s' where "idnsSendQuery cf udp s2 a = Inr s'" "dns_wf {} {} s'" "names_fit s'" "same_env s2 s'" "lookups s' = lookups s2"
    using send_wf [of a "{}" "{}" s2 q cf udp] same_env_can_send [OF env can] by auto
  then show ?thesis using run lk env same_env_trans same_env_can_send [OF _ can] by (intro exI [of _ s'] conjI dns_invI) (auto intro: same_env_trans)
qed

lemma start_inv:
  assumes inv: "dns_inv s" and a: "a \<notin> dom (id_mem s)" and s1: "s1 = s\<lparr>id_nrand := k\<rparr>"
    and q: "iq_master q = None" "iq_slaves q = []" "iq_queue q = []" "\<not> iq_pending q" "no_result q" "length (iq_buf q) \<le> RESOLV_BUFSZ"
      "length (iq_name q) \<le> NS_MAXDNAME" "length (iq_orig q) \<le> NS_MAXDNAME" "\<forall>d \<in> set (id_searchpath s). length (iq_orig q) + 1 + length d \<le> NS_MAXDNAME"
  shows "\<exists>s'. idnsStartQuery cf udp s1 a q d = Inr s' \<and> dns_inv s' \<and> same_env s s' \<and> lookups s' = add_mset d (lookups s) \<and>
    (\<exists>q'. id_mem s' a = Some q' \<and> iq_master q' = None)"
proof -
  note wf = dns_invD(1) [OF inv] and fit = dns_invD(2) [OF inv] and can = dns_invD(3) [OF inv]
  let ?q = "q\<lparr>iq_start_t := id_now s1, iq_callback := Some d, iq_key := Some (iq_orig q)\<rparr>"
  define s2 where "s2 = id_put (s1\<lparr>id_hash := (iq_orig q, a) # id_hash s1\<rparr>) a ?q"
  have mem2: "id_mem s2 = (id_mem s)(a \<mapsto> ?q)" "id_lru s2 = id_lru s" "id_hash s2 = (iq_orig q, a) # id_hash s" "id_out s2 = id_out s" "id_searchpath s2 = id_searchpath s"
    by (simp_all add: s2_def id_put_def s1)
  have wf2: "dns_wf {a} {query_master a ?q} s2"
    using wf_new_master [OF wf a, of ?q "iq_orig q"] q unfolding mem2 by (simp add: query_master_def no_result_def)
  have env: "same_env s s2" by (simp add: s2_def s1)
  have fit2: "names_fit s2" by (rule names_fit_mem [OF fit mem2(5)]) (use q in \<open>auto simp: mem2(1) split: if_splits\<close>)
  have "waiting (id_mem s2) b = waiting (id_mem s) b" if "(k, b) \<in> set (id_hash s)" for k b
  proof -
    have "b \<in> snd ` set (id_hash s)" using that by force
    then have "b \<noteq> a" using wfqD(7) [OF wf, of b] a by auto
    then show ?thesis by (simp add: waiting_def mem2)
  qed
  then have "outstanding (id_mem s2) (id_hash s) = outstanding (id_mem s) (id_hash s)" by (rule outstanding_cong)
  then have lk: "lookups s2 = add_mset d (lookups s)" using q(3) by (simp add: lookups_def mem2 outstanding_def waiting_def)
  obtain s' where "idnsSendQuery cf udp s2 a = Inr s'" "dns_inv s'" "same_env s2 s'" "lookups s' = lookups s2"
      "\<exists>q'. id_mem s' = (id_mem s2)(a \<mapsto> q') \<and> same_links ?q q'"
    using send_inv [OF wf2 fit2 same_env_can_send [OF env can], of cf udp] mem2(1) by auto
  then show ?thesis using lk env same_env_trans q(1)
    by (intro exI [of _ s']) (auto simp: idnsStartQuery_def s2_def [symmetric] same_links_def)
qed

lemma cached_inv:
  assumes inv: "dns_inv s"
  shows "\<exists>found s'. idnsCachedLookup s key d = Inr (found, s') \<and>
    (if found then dns_inv s' \<and> same_env s s' \<and> lookups s' = add_mset d (lookups s) else s' = s)"
proof (cases "map_of (id_hash s) key")
  case None
  then show ?thesis by (intro exI [of _ False] exI [of _ s]) (simp add: idnsCachedLookup_def)
next
  case (Some old)
  note wf = dns_invD(1) [OF inv] and fit = dns_invD(2) [OF inv] and can = dns_invD(3) [OF inv]
  have "(key, old) \<in> set (id_hash s)" using Some by (rule map_of_SomeD)
  then have old: "old \<in> snd ` set (id_hash s)" by force
  then obtain q where q: "id_mem s old = Some q" "iq_master q = None" using wfqD(7) [OF wf, of old] by blast
  obtain c where c: "iq_callback q = Some c" using links_master(1) [OF wfqD(5) [OF wf q(1)] q(2)] by auto
  let ?q = "q\<lparr>iq_queue := d # iq_queue q\<rparr>" and ?s = "id_put s old (q\<lparr>iq_queue := d # iq_queue q\<rparr>)"
  have mem: "id_mem ?s = (id_mem s)(old \<mapsto> ?q)" "id_lru ?s = id_lru s" "id_hash ?s = id_hash s" "id_out ?s = id_out s" "id_searchpath ?s = id_searchpath s" by (simp_all add: id_put_def)
  have "wfq {} {} ((id_mem s)(old \<mapsto> ?q)) (id_lru s) (id_hash s)"
    by (rule wf_rewrite [OF wf q(1)]) (use q(2) wfqD(2) [OF wf] in \<open>simp_all add: same_links_def no_result_def has_result_def\<close>)
  moreover have "names_fit ?s" by (rule names_fit_mem [OF fit mem(5)]) (use q(1) in \<open>auto simp: mem(1) split: if_splits\<close>)
  moreover have env: "same_env s ?s" by simp
  ultimately have inv': "dns_inv ?s" using same_env_can_send [OF env can] by (intro dns_invI) (simp_all add: mem)
  have "outstanding (id_mem ?s) (filter (\<lambda>(k, b). b \<noteq> old) (id_hash s)) = outstanding (id_mem s) (filter (\<lambda>(k, b). b \<noteq> old) (id_hash s))"
    by (rule outstanding_cong) (auto simp: mem(1) waiting_def)
  then have "lookups ?s = add_mset d (lookups s)"
    using outstanding_split [OF wfqD(6) [OF wf] old, of "id_mem s"] outstanding_split [OF wfqD(6) [OF wf] old, of "id_mem ?s"] q(1) c
    by (simp add: lookups_def mem waiting_def)
  then show ?thesis using Some q(1) inv' env by (intro exI [of _ True] exI [of _ ?s]) (simp add: idnsCachedLookup_def id_get_def)
qed


text \<open>The names a lookup may be for: with any domain of the search path they fit into the array of a query.\<close>

definition name_ok :: "idns \<Rightarrow> string \<Rightarrow> bool" where
  "name_ok s name \<longleftrightarrow> name \<noteq> [] \<and> length name \<le> NS_MAXDNAME \<and> (\<forall>d \<in> set (id_searchpath s). length name + 1 + length d \<le> NS_MAXDNAME)"

lemma alookup_inv:
  assumes inv: "dns_inv s" and fresh: "fresh_alloc alloc" and name: "name_ok s name"
  shows "\<exists>s'. idnsALookup cf udp alloc rnd s name d = Inr s' \<and> dns_inv s' \<and> same_env s s' \<and> lookups s' = add_mset d (lookups s)"
proof -
  have nl: "\<not> length name > NS_MAXDNAME" "name \<noteq> []" using name by (auto simp: name_ok_def)
  obtain found s1 where c: "idnsCachedLookup s name d = Inr (found, s1)"
      "if found then dns_inv s1 \<and> same_env s s1 \<and> lookups s1 = add_mset d (lookups s) else s1 = s"
    using cached_inv [OF inv, of name d] by blast
  show ?thesis
  proof (cases found)
    case True
    then show ?thesis using c nl by (simp add: idnsALookup_def)
  next
    case False
    then have s1: "s1 = s" using c(2) by simp
    define a where "a = alloc (dom (id_mem s))"
    have a: "a \<notin> dom (id_mem s)" using fresh wfqD(1) [OF dns_invD(1) [OF inv]] by (simp add: fresh_alloc_def a_def)
    obtain i s2 where i: "idnsQueryID rnd s = (i, s2)" by (cases "idnsQueryID rnd s")
    note s2 = query_id_state [OF i]
    define sp where "sp = (cf_res_defnames cf \<and> id_searchpath s \<noteq> [] \<and> last name \<noteq> CHR ''.'')"
    define nd where "nd = length (filter (\<lambda>c. c = CHR ''.'') name)"
    have e1: "(if cf_res_defnames cf \<and> id_searchpath s \<noteq> [] then res_bind (res_guard (name \<noteq> []) OutOfBounds) (\<lambda>_. Inr (last name \<noteq> CHR ''.'')) else Inr False) = Inr sp"
      using nl(2) by (auto simp: sp_def)
    obtain name1 where n1: "(if sp \<and> nd < id_ndots s then append_domain name (id_searchpath s ! 0) else Inr name) = Inr name1" "length name1 \<le> NS_MAXDNAME"
    proof (cases "sp \<and> nd < id_ndots s")
      case True
      then have "id_searchpath s ! 0 \<in> set (id_searchpath s)" by (auto simp: sp_def)
      then show thesis using that True name by (auto simp: append_domain_def name_ok_def)
    next
      case False
      then show thesis using that nl by auto
    qed
    have "length name1 + 30 \<le> RESOLV_BUFSZ" using n1(2) by (simp add: RESOLV_BUFSZ_def NS_MAXDNAME_def)
    from build_ok [OF this, of "int (cf_rcvbuf cf)" i RFC1035_TYPE_A 0] obtain b query where
      b: "rfc3596BuildAQuery (int (cf_rcvbuf cf)) name1 RESOLV_BUFSZ i 0 = Inr (b, query)" "length b \<le> RESOLV_BUFSZ" by (auto simp: rfc3596BuildAQuery_def)
    define q where "q = new_query\<lparr>iq_query_id := i, iq_do_searchpath := sp, iq_orig := name, iq_name := name1, iq_buf := b, iq_query := query\<rparr>"
    obtain s3 where s3: "idnsStartQuery cf udp s2 a q d = Inr s3" "dns_inv s3" "same_env s s3" "lookups s3 = add_mset d (lookups s)"
        "\<exists>q'. id_mem s3 a = Some q' \<and> iq_master q' = None"
      using start_inv [OF inv a s2, of q cf udp d] name n1(2) b(2) by (auto simp: q_def new_query_def no_result_def name_ok_def)
    have run: "idnsALookup cf udp alloc rnd s name d = (if cf_ipv6 cf then idnsSendSlaveAAAAQuery cf udp alloc rnd s3 a else Inr s3)"
      unfolding idnsALookup_def using nl(1) c(1) False s1
      by (simp only: if_False res_bind_simps prod.case Let_def a_def [symmetric] i e1 nd_def [symmetric] n1(1) b(1) q_def [symmetric] s3(1))
    show ?thesis
    proof (cases "cf_ipv6 cf")
      case True
      obtain q' where "id_mem s3 a = Some q'" "iq_master q' = None" using s3(5) by blast
      from slave_inv [OF s3(2) this fresh, of cf udp rnd] show ?thesis using run True s3(3,4) same_env_trans by auto
    next
      case False
      then show ?thesis using run s3 by simp
    qed
  qed
qed

lemma show_hex_length: "n < 16 \<Longrightarrow> length (show_hex n) = 1"
  by (subst show_hex.simps) simp

lemma ptr6_name_length:
  assumes "length r = 16"
  shows "length (ptr6_name r) = 73"
proof -
  have n: "unat (b AND 15) < 16" for b :: "8 word"
  proof -
    have "b AND 15 = take_bit 4 b" by (simp add: take_bit_eq_mask mask_eq_exp_minus_1)
    then have "unat (b AND 15) = take_bit 4 (unat b)" by (simp only: unsigned_take_bit_eq)
    then show ?thesis by (simp add: take_bit_eq_mod)
  qed
  have "length (concat (map (\<lambda>b. show_hex (unat (b AND 15)) @ ''.'' @ show_hex (unat (drop_bit 4 b AND 15)) @ ''.'') xs)) = 4 * length xs" for xs :: "8 word list"
    by (induction xs) (simp_all add: show_hex_length n)
  then show ?thesis using assms by (simp add: ptr6_name_def)
qed

lemma ptrlookup_inv:
  assumes inv: "dns_inv s" and fresh: "fresh_alloc alloc" and addr: "case addr of IPv6 r \<Rightarrow> length r = 16 | IPv4 w \<Rightarrow> True"
  shows "\<exists>s'. idnsPTRLookup cf udp alloc rnd s addr d = Inr s' \<and> dns_inv s' \<and> same_env s s' \<and> lookups s' = add_mset d (lookups s)"
proof -
  note wf = dns_invD(1) [OF inv] and fit = dns_invD(2) [OF inv] and can = dns_invD(3) [OF inv]
  define a where "a = alloc (dom (id_mem s))"
  have a: "a \<notin> dom (id_mem s)" using fresh wfqD(1) [OF wf] by (simp add: fresh_alloc_def a_def)
  obtain i s1 where i: "idnsQueryID rnd s = (i, s1)" by (cases "idnsQueryID rnd s")
  note s1 = query_id_state [OF i]
  obtain b query where b: "(case addr of IPv6 r \<Rightarrow> rfc3596BuildPTRQuery6 (int (cf_rcvbuf cf)) r RESOLV_BUFSZ i (cf_packet_max cf)
      | IPv4 w \<Rightarrow> rfc3596BuildPTRQuery4 (int (cf_rcvbuf cf)) w RESOLV_BUFSZ i 0) = Inr (b, query)" "length b \<le> RESOLV_BUFSZ"
  proof (cases addr)
    case (IPv4 w)
    have "length (take 255 (ptr4_name w)) + 30 \<le> RESOLV_BUFSZ" by (simp add: RESOLV_BUFSZ_def NS_MAXDNAME_def)
    from build_ok [OF this, of "int (cf_rcvbuf cf)" i RFC1035_TYPE_PTR 0] show thesis using that IPv4 by (auto simp: rfc3596BuildPTRQuery4_def)
  next
    case (IPv6 r)
    then have "length (ptr6_name r) + 30 \<le> RESOLV_BUFSZ" using addr by (simp add: ptr6_name_length RESOLV_BUFSZ_def NS_MAXDNAME_def)
    from build_ok [OF this, of "int (cf_rcvbuf cf)" i RFC1035_TYPE_PTR "cf_packet_max cf"] show thesis using that IPv6 by (auto simp: rfc3596BuildPTRQuery6_def)
  qed
  have inv1: "dns_inv s1" using inv unfolding dns_inv_def names_fit_def can_send_def vcs_ok_def s1 by simp
  have lk1: "lookups s1 = lookups s" by (simp add: lookups_def s1)
  obtain found s2 where c: "idnsCachedLookup s1 (q_name query) d = Inr (found, s2)"
      "if found then dns_inv s2 \<and> same_env s1 s2 \<and> lookups s2 = add_mset d (lookups s1) else s2 = s1"
    using cached_inv [OF inv1, of "q_name query" d] by blast
  let ?q = "new_query\<lparr>iq_query_id := i, iq_buf := b, iq_query := query\<rparr>"
  have run: "idnsPTRLookup cf udp alloc rnd s addr d = (if found then Inr s2 else idnsStartQuery cf udp s2 a ?q d)"
    unfolding idnsPTRLookup_def by (simp only: Let_def a_def [symmetric] i prod.case b(1) res_bind_simps c(1))
  show ?thesis
  proof (cases found)
    case True
    then show ?thesis using run c(2) lk1 by (simp add: same_env_def s1 vcs_ok_def)
  next
    case False
    then have s2: "s2 = s\<lparr>id_nrand := id_nrand s + 1\<rparr>" using c(2) s1 by simp
    have "\<exists>s'. idnsStartQuery cf udp s2 a ?q d = Inr s' \<and> dns_inv s' \<and> same_env s s' \<and> lookups s' = add_mset d (lookups s) \<and> (\<exists>q'. id_mem s' a = Some q' \<and> iq_master q' = None)"
      by (rule start_inv [OF inv a s2]) (use fit b(2) in \<open>auto simp: new_query_def no_result_def names_fit_def NS_MAXDNAME_def\<close>)
    then show ?thesis using run False by auto
  qed
qed


section \<open>Replies keep the invariant\<close>

text \<open>Taking a query from the list of pending ones.\<close>

definition taken :: "idns \<Rightarrow> nat \<Rightarrow> idns_query \<Rightarrow> idns" where
  "taken s a q = (id_put s a q)\<lparr>id_lru := remove1 a (id_lru s)\<rparr>"

lemma taken_simps [simp]: "id_mem (taken s a q) = (id_mem s)(a \<mapsto> q)" "id_lru (taken s a q) = remove1 a (id_lru s)" "id_hash (taken s a q) = id_hash s"
  "id_out (taken s a q) = id_out s" "id_searchpath (taken s a q) = id_searchpath s" "id_now (taken s a q) = id_now s" "same_env s (taken s a q)"
  "id_servers (taken s a q) = id_servers s"
  by (simp_all add: taken_def id_put_def same_env_def vcs_ok_def)

lemma put_taken [simp]: "id_put (taken s a q) a q' = taken s a q'"
  by (simp add: taken_def id_put_def)

definition same_text :: "idns_query \<Rightarrow> idns_query \<Rightarrow> bool" where
  "same_text q q' \<longleftrightarrow> iq_buf q' = iq_buf q \<and> iq_name q' = iq_name q \<and> iq_orig q' = iq_orig q \<and> iq_queue q' = iq_queue q"

lemma taken_fit: "names_fit s \<Longrightarrow> id_mem s a = Some q \<Longrightarrow> same_text q q' \<Longrightarrow> names_fit (taken s a q')"
  by (rule names_fit_mem [of s]) (auto simp: same_text_def split: if_splits)

lemma taken_lookups: "id_mem s a = Some q \<Longrightarrow> iq_callback q' = iq_callback q \<Longrightarrow> same_text q q' \<Longrightarrow> lookups (taken s a q') = lookups s"
  using outstanding_update [of "id_mem s" a q q'] by (simp add: lookups_def same_text_def)

lemma pending_no_result: "dns_inv s \<Longrightarrow> id_mem s a = Some q \<Longrightarrow> iq_pending q \<Longrightarrow> no_result q"
  using wfqD(4) [OF dns_invD(1), of s a q] by (simp add: result_wf_def)

lemma resend_inv:
  assumes inv: "dns_inv s" and q: "id_mem s a = Some q" "iq_pending q" and q': "same_links q q'" "same_text q q'" "\<not> iq_pending q'" "no_result q'"
  shows "\<exists>s'. idnsSendQuery cf udp (taken s a q') a = Inr s' \<and> dns_inv s' \<and> same_env s s' \<and> lookups s' = lookups s \<and>
    (\<exists>q2. id_mem s' = (id_mem s)(a \<mapsto> q2) \<and> iq_queue_t q2 = id_now s) \<and> id_lru s' = a # remove1 a (id_lru s)"
proof -
  have "wfq {a} {query_master a q} (id_mem (taken s a q')) (id_lru (taken s a q')) (id_hash (taken s a q'))"
    using wf_detach [OF dns_invD(1) [OF inv] q(1) q'(1,3,4)] by simp
  moreover have "query_master a q' = query_master a q" using q'(1) by (simp add: query_master_def same_links_def)
  ultimately have "dns_wf {a} {query_master a q'} (taken s a q')" by simp
  from send_inv [OF this taken_fit [OF dns_invD(2) [OF inv] q(1) q'(2)] same_env_can_send [OF taken_simps(7) dns_invD(3) [OF inv]], of cf udp]
  obtain s' q2 where "idnsSendQuery cf udp (taken s a q') a = Inr s'" "dns_inv s'" "same_env (taken s a q') s'" "lookups s' = lookups (taken s a q')"
      "id_mem s' = (id_mem (taken s a q'))(a \<mapsto> q2)" "iq_queue_t q2 = id_now (taken s a q')" "id_lru s' = a # id_lru (taken s a q')"
    by auto
  moreover have "iq_callback q' = iq_callback q" using q'(1) by (simp add: same_links_def)
  ultimately show ?thesis using taken_lookups [OF q(1) _ q'(2)] same_env_trans [OF taken_simps(7)] by (intro exI [of _ s']) auto
qed

lemma finish_inv:
  assumes inv: "dns_inv s" and q: "id_mem s a = Some q" "iq_pending q" and q': "same_links q q'" "same_text q q'" "\<not> iq_pending q'"
    and res: "has_result (if err = None then q' else q'\<lparr>iq_error := err\<rparr>)"
  shows "\<exists>s'. idnsCallback cf valid (taken s a q') a err = Inr s' \<and> dns_inv s' \<and> same_env s s' \<and> lookups s' = lookups s \<and> id_lru s' = remove1 a (id_lru s) \<and>
    (\<forall>b q. b \<noteq> a \<longrightarrow> id_mem s' b = Some q \<longrightarrow> id_mem s b = Some q)"
proof -
  define q2 where "q2 = (if err = None then q' else q'\<lparr>iq_error := err\<rparr>)"
  let ?q = "q\<lparr>iq_pending := False\<rparr>" and ?s1 = "if err = None then taken s a q' else id_put (taken s a q') a (q'\<lparr>iq_error := err\<rparr>)"
  have s1: "?s1 = taken s a q2" by (simp add: q2_def)
  have l2: "same_links ?q q2" "same_links q q2" using q'(1) by (auto simp: q2_def same_links_def)
  have "wfq {a} {query_master a q} ((id_mem s)(a \<mapsto> ?q)) (remove1 a (id_lru s)) (id_hash s)"
    using wf_detach [OF dns_invD(1) [OF inv] q(1), of ?q] pending_no_result [OF inv q] by (simp add: same_links_def no_result_def)
  from wf_result [OF this _ l2(1), of a] have "wfq ({a} - {a}) {query_master a q} ((id_mem s)(a \<mapsto> q2)) (remove1 a (id_lru s)) (id_hash s)"
    using q'(3) res by (simp add: q2_def)
  moreover have "query_master a q' = query_master a q" using q'(1) by (simp add: query_master_def same_links_def)
  ultimately have wf: "dns_wf {} {query_master a q'} ?s1" unfolding s1 by simp
  have "id_mem (taken s a q') a = Some q'" by simp
  from callback_wf [OF this refl wf taken_fit [OF dns_invD(2) [OF inv] q(1) q'(2)], of cf valid]
  obtain s' where s': "idnsCallback cf valid (taken s a q') a err = Inr s'" "dns_wf {} {} s'" "names_fit s'" "same_env (taken s a q') s'" "lookups s' = lookups (taken s a q')"
      "id_lru s' = id_lru (taken s a q')" "\<forall>b q. id_mem s' b = Some q \<longrightarrow> id_mem ?s1 b = Some q" by blast
  have env: "same_env s s'" using same_env_trans [OF taken_simps(7) s'(4)] .
  then have "dns_inv s'" using s'(2,3) same_env_can_send [OF env dns_invD(3) [OF inv]] by (intro dns_invI)
  moreover have "lookups s' = lookups s" using s'(5) taken_lookups [OF q(1) _ q'(2)] q'(1) by (simp add: same_links_def)
  moreover have "\<forall>b q. b \<noteq> a \<longrightarrow> id_mem s' b = Some q \<longrightarrow> id_mem s b = Some q"
  proof (intro allI impI)
    fix b r assume b: "b \<noteq> a" "id_mem s' b = Some r"
    have "id_mem (taken s a q2) b = Some r" using s'(7) b(2) unfolding s1 by blast
    then show "id_mem s b = Some r" using b(1) by simp
  qed
  ultimately show ?thesis using s'(1,6) env by (intro exI [of _ s']) simp
qed

lemma searchpath_name:
  assumes "names_fit s" and "\<forall>d \<in> set (id_searchpath s). length (iq_orig q) + 1 + length d \<le> NS_MAXDNAME" and "length (iq_orig q) \<le> NS_MAXDNAME"
  shows "\<exists>q1. (if iq_domain q < length (id_searchpath s)
               then res_bind (append_domain (iq_orig q) (id_searchpath s ! iq_domain q)) (\<lambda>name. Inr (q\<lparr>iq_name := name, iq_domain := iq_domain q + 1\<rparr>))
               else Inr (q\<lparr>iq_name := iq_orig q, iq_attempt := iq_attempt q + 1\<rparr>)) = Inr q1 \<and>
    same_links q q1 \<and> length (iq_name q1) \<le> NS_MAXDNAME \<and> iq_orig q1 = iq_orig q \<and> iq_queue q1 = iq_queue q \<and>
    iq_pending q1 = iq_pending q \<and> no_result q1 = no_result q"
  using assms(2,3) nth_mem [of "iq_domain q" "id_searchpath s"]
  by (auto simp: append_domain_def same_links_def no_result_def)

lemma searchpath_inv:
  assumes inv: "dns_inv s" and q: "id_mem s a = Some q" "iq_pending q" "iq_master q = None" and fresh: "fresh_alloc alloc"
    and q2: "same_links q q2" "same_text q q2" "\<not> iq_pending q2" "no_result q2" and msg: "msg_answer message = []"
  shows "\<exists>s'. grok_searchpath cf udp alloc rnd (taken s a q2) a q2 message = Inr s' \<and> dns_inv s' \<and> same_env s s' \<and> lookups s' = lookups s"
proof -
  note wf = dns_invD(1) [OF inv] and fit = dns_invD(2) [OF inv] and can = dns_invD(3) [OF inv]
  let ?S = "set (iq_slaves q)"
  have l2: "iq_master q2 = None" "iq_slaves q2 = iq_slaves q" "iq_callback q2 = iq_callback q" "iq_key q2 = iq_key q" "iq_orig q2 = iq_orig q" "iq_queue q2 = iq_queue q"
    using q2(1,2) q(3) by (simp_all add: same_links_def same_text_def)
  have wf1: "wfq {a} {a} ((id_mem s)(a \<mapsto> q2)) (remove1 a (id_lru s)) (id_hash s)"
    using wf_detach [OF wf q(1) q2(1,3,4)] q(3) by (simp add: query_master_def)
  have sl: "\<exists>bq. id_mem s b = Some bq \<and> iq_master bq = Some a" if "b \<in> ?S" for b using links_master(4) [OF wfqD(5) [OF wf q(1)] q(3) that] .
  have aS: "a \<notin> ?S" using sl [of a] q by auto
  have fq: "length (iq_orig q2) \<le> NS_MAXDNAME" "\<forall>d \<in> set (id_searchpath s). length (iq_orig q2) + 1 + length d \<le> NS_MAXDNAME"
    using fit q(1) l2(5) by (auto simp: names_fit_def)
  obtain q1 where q1: "(if iq_domain q2 < length (id_searchpath s)
               then res_bind (append_domain (iq_orig q2) (id_searchpath s ! iq_domain q2)) (\<lambda>name. Inr (q2\<lparr>iq_name := name, iq_domain := iq_domain q2 + 1\<rparr>))
               else Inr (q2\<lparr>iq_name := iq_orig q2, iq_attempt := iq_attempt q2 + 1\<rparr>)) = Inr q1"
    "same_links q2 q1" "length (iq_name q1) \<le> NS_MAXDNAME" "iq_orig q1 = iq_orig q2" "iq_queue q1 = iq_queue q2" "iq_pending q1 = iq_pending q2" "no_result q1 = no_result q2"
    using searchpath_name [OF fit fq(2,1)] by blast
  obtain i s1 where i: "idnsQueryID rnd (drop_slaves (taken s a q2) q1) = (i, s1)" by (cases "idnsQueryID rnd (drop_slaves (taken s a q2) q1)")
  note s1 = query_id_state [OF i]
  have "length (iq_name q1) + 30 \<le> RESOLV_BUFSZ" using q1(3) by (simp add: RESOLV_BUFSZ_def NS_MAXDNAME_def)
  from build_ok [OF this, of "int (cf_rcvbuf cf)" i RFC1035_TYPE_A 0] obtain b query where
    b: "rfc3596BuildAQuery (int (cf_rcvbuf cf)) (iq_name q1) RESOLV_BUFSZ i 0 = Inr (b, query)" "length b \<le> RESOLV_BUFSZ" by (auto simp: rfc3596BuildAQuery_def)
  define q3 where "q3 = q1\<lparr>iq_slaves := [], iq_query_id := i, iq_buf := b, iq_query := query, iq_nsends := 0\<rparr>"
  have l3: "iq_master q3 = None" "iq_callback q3 = iq_callback q2" "iq_key q3 = iq_key q2" "iq_slaves q3 = []" "iq_pending q3 = iq_pending q2" "no_result q3"
      "iq_queue q3 = iq_queue q" "iq_orig q3 = iq_orig q" "iq_name q3 = iq_name q1" "iq_buf q3 = b"
    using q1 l2 q2(4) by (simp_all add: q3_def same_links_def no_result_def)
  define s2 where "s2 = id_put s1 a q3"
  have q1s: "iq_slaves q1 = iq_slaves q" using q1(2) l2(2) by (simp add: same_links_def)
  have mem2: "id_mem s2 = (\<lambda>x. if x \<in> ?S then None else ((id_mem s)(a \<mapsto> q2, a \<mapsto> q3)) x)" "id_lru s2 = filter (\<lambda>b. b \<notin> ?S) (remove1 a (id_lru s))"
      "id_hash s2 = id_hash s" "id_out s2 = id_out s" "id_searchpath s2 = id_searchpath s"
    using aS by (simp_all add: s2_def s1 drop_slaves_def id_unset_def id_put_def q1s fun_eq_iff taken_def)
  have "wfq ({a} - set (iq_slaves q2)) {a} (\<lambda>x. if x \<in> set (iq_slaves q2) then None else ((id_mem s)(a \<mapsto> q2, a \<mapsto> q3)) x) (filter (\<lambda>b. b \<notin> set (iq_slaves q2)) (remove1 a (id_lru s))) (id_hash s)"
    by (rule wf_drop_slaves [OF wf1]) (use l2 l3 q2(3) aS in \<open>simp_all add: result_wf_def\<close>)
  moreover have "{a} - ?S = {a}" using aS by auto
  ultimately have wf2: "dns_wf {a} {query_master a q3} s2" unfolding mem2 l2(2) using l3(1) by (simp add: query_master_def)
  have env: "same_env s s2" using taken_simps(7) [of s a q2] by (simp add: s2_def s1 drop_slaves_def)
  have fit2: "names_fit s2" by (rule names_fit_mem [OF fit mem2(5)]) (use fq l2 l3 b(2) q1(3) in \<open>auto simp: mem2(1) split: if_splits\<close>)
  have lk: "lookups s2 = lookups s"
  proof -
    have "outstanding (id_mem s2) (id_hash s) = outstanding (id_mem s) (id_hash s)"
    proof (rule outstanding_cong)
      fix k b
      assume "(k, b) \<in> set (id_hash s)"
      then have "b \<in> snd ` set (id_hash s)" by force
      then obtain bq where bq: "id_mem s b = Some bq" "iq_master bq = None" using wfqD(7) [OF wf, of b] by blast
      then have "b \<notin> ?S" using sl [of b] by auto
      then show "waiting (id_mem s2) b = waiting (id_mem s) b" using q(1) l2(3) l3(2,7) by (simp add: waiting_def mem2)
    qed
    then show ?thesis by (simp add: lookups_def mem2)
  qed
  have "id_mem s2 a = Some q3" using aS by (simp add: mem2)
  from send_inv [OF wf2 fit2 same_env_can_send [OF env can] this, of cf udp] obtain s3 q4 where
    s3: "idnsSendQuery cf udp s2 a = Inr s3" "dns_inv s3" "same_env s2 s3" "lookups s3 = lookups s2" "id_mem s3 = (id_mem s2)(a \<mapsto> q4)" "same_links q3 q4" by blast
  have run: "grok_searchpath cf udp alloc rnd (taken s a q2) a q2 message = (if cf_ipv6 cf then idnsSendSlaveAAAAQuery cf udp alloc rnd s3 a else Inr s3)"
    unfolding grok_searchpath_def using msg
    by (simp only: taken_simps q1(1) res_bind_simps res_guard_simps simp_thms Let_def i prod.case b(1) q3_def [symmetric] s2_def [symmetric] s3(1))
  have m4: "id_mem s3 a = Some q4" "iq_master q4 = None" using s3(5,6) l3(1) by (simp_all add: same_links_def)
  show ?thesis
  proof (cases "cf_ipv6 cf")
    case True
    from slave_inv [OF s3(2) m4 fresh, of cf udp rnd] show ?thesis using run True s3(3,4) lk env same_env_trans by (metis (no_types, lifting))
  next
    case False
    then show ?thesis using run s3(2,3,4) lk same_env_trans [OF env] by simp
  qed
qed

lemma find_query:
  assumes "dns_inv s" and "idnsFindQuery s i = Some a"
  shows "a \<in> set (id_lru s) \<and> (\<exists>q. id_mem s a = Some q \<and> iq_pending q \<and> iq_query_id q = i)"
proof -
  have a: "a \<in> set (id_lru s)" "case id_mem s a of None \<Rightarrow> False | Some q \<Rightarrow> iq_query_id q = i"
    using assms(2) nth_mem [of _ "rev (id_lru s)"] by (auto simp: idnsFindQuery_def find_Some_iff simp del: rev_nth)
  then show ?thesis using wfqD(3) [OF dns_invD(1) [OF assms(1)], of a] by (auto simp: pend_def split: option.splits)
qed

lemma matched_inv:
  assumes inv: "dns_inv s" and q: "id_mem s a = Some q" "iq_pending q" and fresh: "fresh_alloc alloc" and msg: "n < 0 \<Longrightarrow> msg_answer message = []"
  shows "\<exists>s'. grok_matched cf udp valid alloc rnd s a q n message = Inr s' \<and> dns_inv s' \<and> same_env s s' \<and> lookups s' = lookups s"
proof -
  note nr = pending_no_result [OF inv q]
  define q1 where "q1 = (if n < 0 then q\<lparr>iq_pending := False, iq_rcode := - n\<rparr> else q\<lparr>iq_pending := False\<rparr>)"
  define servfail where "servfail = (n < 0 \<and> iq_rcode q1 = 2)"
  define q2 where "q2 = (if servfail then q1\<lparr>iq_attempt := iq_attempt q1 + 1\<rparr> else q1)"
  have l2: "same_links q q2" "same_text q q2" "\<not> iq_pending q2" "no_result q2" "iq_master q2 = iq_master q"
    using nr by (simp_all add: q2_def q1_def same_links_def same_text_def no_result_def)
  let ?q0 = "q\<lparr>iq_pending := False\<rparr>"
  have run: "grok_matched cf udp valid alloc rnd s a q n message =
      (if msg_tc message \<noteq> 0 then
        if \<not> iq_need_vc q then idnsSendQuery cf udp (taken s a (?q0\<lparr>iq_need_vc := True, iq_nsends := iq_nsends q - 1\<rparr>)) a
        else idnsCallback cf valid (taken s a ?q0) a (Some ''Truncated TCP DNS response'')
      else if servfail \<and> iq_attempt q2 < MAX_ATTEMPT then idnsSendQuery cf udp (taken s a q2) a
      else if n < 0 \<and> iq_rcode q2 = 3 \<and> iq_master q2 = None \<and> iq_do_searchpath q2 \<and> iq_attempt q2 < MAX_ATTEMPT then
        grok_searchpath cf udp alloc rnd (taken s a q2) a q2 message
      else idnsCallback cf valid (taken s a (q2\<lparr>iq_message := Some message, iq_ancount := n\<rparr>)) a
            (if n \<ge> 0 then None else Some (rfc1035ErrorMessage (iq_rcode q2))))"
    unfolding grok_matched_def Let_def taken_def q2_def servfail_def q1_def by simp
  consider "msg_tc message \<noteq> 0" "\<not> iq_need_vc q" | "msg_tc message \<noteq> 0" "iq_need_vc q" | "msg_tc message = 0" "servfail \<and> iq_attempt q2 < MAX_ATTEMPT"
    | "msg_tc message = 0" "\<not> (servfail \<and> iq_attempt q2 < MAX_ATTEMPT)" "n < 0 \<and> iq_rcode q2 = 3 \<and> iq_master q2 = None \<and> iq_do_searchpath q2 \<and> iq_attempt q2 < MAX_ATTEMPT"
    | "msg_tc message = 0" "\<not> (servfail \<and> iq_attempt q2 < MAX_ATTEMPT)" "\<not> (n < 0 \<and> iq_rcode q2 = 3 \<and> iq_master q2 = None \<and> iq_do_searchpath q2 \<and> iq_attempt q2 < MAX_ATTEMPT)"
    by blast
  then show ?thesis
  proof cases
    case 1
    then have "grok_matched cf udp valid alloc rnd s a q n message = idnsSendQuery cf udp (taken s a (?q0\<lparr>iq_need_vc := True, iq_nsends := iq_nsends q - 1\<rparr>)) a"
      using run by simp
    then show ?thesis using resend_inv [OF inv q, of "?q0\<lparr>iq_need_vc := True, iq_nsends := iq_nsends q - 1\<rparr>" cf udp] nr
      by (auto simp: same_links_def same_text_def no_result_def)
  next
    case 2
    then have "grok_matched cf udp valid alloc rnd s a q n message = idnsCallback cf valid (taken s a ?q0) a (Some ''Truncated TCP DNS response'')"
      using run by simp
    then show ?thesis using finish_inv [OF inv q, of ?q0 "Some ''Truncated TCP DNS response''" cf valid] nr
      by (auto simp: same_links_def same_text_def no_result_def has_result_def)
  next
    case 3
    then have "grok_matched cf udp valid alloc rnd s a q n message = idnsSendQuery cf udp (taken s a q2) a" using run by simp
    then show ?thesis using resend_inv [OF inv q l2(1-4), of cf udp] by auto
  next
    case 4
    then have "grok_matched cf udp valid alloc rnd s a q n message = grok_searchpath cf udp alloc rnd (taken s a q2) a q2 message" unfolding run by simp
    then show ?thesis using searchpath_inv [OF inv q _ fresh l2(1-4) msg, of cf udp rnd] 4(3) l2(5) by simp
  next
    case 5
    let ?q = "q2\<lparr>iq_message := Some message, iq_ancount := n\<rparr>" and ?e = "if n \<ge> 0 then None else Some (rfc1035ErrorMessage (iq_rcode q2))"
    have "grok_matched cf udp valid alloc rnd s a q n message = idnsCallback cf valid (taken s a ?q) a ?e"
      unfolding run using 5(1) by (simp only: 5(2,3) simp_thms if_False)
    moreover have "same_links q ?q" "same_text q ?q" "\<not> iq_pending ?q" "has_result (if ?e = None then ?q else ?q\<lparr>iq_error := ?e\<rparr>)"
      using l2 by (simp_all add: same_links_def same_text_def has_result_def)
    ultimately show ?thesis using finish_inv [OF inv q, of ?q ?e cf valid] by auto
  qed
qed

text \<open>A reply is acted on if it carries the identifier and the question of a pending query.\<close>

lemma grok_cases:
  assumes inv: "dns_inv s" and sz: "sz < length buf"
  shows "idnsGrokReply cf udp valid alloc rnd s buf sz = Inr s \<or>
    (\<exists>n message mq a q. rfc1035MessageUnpack buf sz = Inr (n, Some message) \<and> msg_query message = Some mq \<and> a \<in> set (id_lru s) \<and> id_mem s a = Some q \<and> iq_pending q \<and>
       iq_query_id q = msg_id message \<and> rfc1035QueryCompare (iq_query q) mq \<and> (n < 0 \<longrightarrow> msg_answer message = []) \<and>
       idnsGrokReply cf udp valid alloc rnd s buf sz = grok_matched cf udp valid alloc rnd s a q n message)"
proof -
  obtain n m where u: "rfc1035MessageUnpack buf sz = Inr (n, m)" "\<forall>msg. m = Some msg \<longrightarrow> n < 0 \<longrightarrow> msg_answer msg = []"
    using unpack_safe [OF sz] by (auto split: option.splits)
  show ?thesis
  proof (cases m)
    case None
    then show ?thesis using u by (simp add: idnsGrokReply_def)
  next
    case (Some message)
    show ?thesis
    proof (cases "idnsFindQuery s (msg_id message)")
      case None
      then show ?thesis using u Some by (simp add: idnsGrokReply_def)
    next
      case (Some a)
      then obtain q where a: "a \<in> set (id_lru s)" "id_mem s a = Some q" "iq_pending q" "iq_query_id q = msg_id message" using find_query [OF inv] by blast
      show ?thesis
      proof (cases "case msg_query message of None \<Rightarrow> False | Some mq \<Rightarrow> rfc1035QueryCompare (iq_query q) mq")
        case False
        then show ?thesis using u \<open>m = _\<close> Some a(2) by (simp add: idnsGrokReply_def id_get_def)
      next
        case True
        then obtain mq where "msg_query message = Some mq" "rfc1035QueryCompare (iq_query q) mq" by (auto split: option.splits)
        then show ?thesis using u \<open>m = _\<close> Some a True by (auto simp: idnsGrokReply_def id_get_def)
      qed
    qed
  qed
qed

lemma grok_inv:
  assumes inv: "dns_inv s" and fresh: "fresh_alloc alloc" and sz: "sz < length buf"
  shows "\<exists>s'. idnsGrokReply cf udp valid alloc rnd s buf sz = Inr s' \<and> dns_inv s' \<and> same_env s s' \<and> lookups s' = lookups s"
proof (cases "idnsGrokReply cf udp valid alloc rnd s buf sz = Inr s")
  case True
  then show ?thesis using inv by simp
next
  case False
  then obtain n message a q where "id_mem s a = Some q" "iq_pending q" "n < 0 \<longrightarrow> msg_answer message = []"
      and run: "idnsGrokReply cf udp valid alloc rnd s buf sz = grok_matched cf udp valid alloc rnd s a q n message"
    using grok_cases [OF inv sz, of cf udp valid alloc rnd] by blast
  then show ?thesis unfolding run using matched_inv [OF inv _ _ fresh] by blast
qed

end
