(* ===== verification/Dns_Client.thy ===== *)
theory Dns_Client
  imports Dns_Handlers
begin

text \<open>
  The timer of the DNS client, its handlers of TCP events, and runs of the client over any sequence of events.
\<close>

section \<open>The timer\<close>





lemma list_prev_last: "distinct l \<Longrightarrow> l \<noteq> [] \<Longrightarrow> list_prev (last l) l = (if butlast l = [] then None else Some (last (butlast l)))"
proof (induction l rule: induct_list012)
  case (3 x y zs)
  then show ?case by (cases zs) auto
qed simp_all

definition due :: "idns_config \<Rightarrow> idns \<Rightarrow> idns_query \<Rightarrow> bool" where
  "due cf s q \<longleftrightarrow> cf_retransmit cf * 2 ^ ((iq_nsends q - 1) div length (id_servers s)) \<le> id_now s - iq_sent_t q"

text \<open>What a turn of the loop does to a query that has been in the list for long enough.\<close>

lemma check_turn:
  assumes inv: "dns_inv s" and a: "a \<in> set (id_lru s)" "id_mem s a = Some q" and r: "cf_retransmit cf \<le> id_now s - iq_queue_t q"
  shows "\<exists>s2. check_loop (Suc fuel) cf udp valid s (Some a) = check_loop fuel cf udp valid s2 (list_prev a (id_lru s)) \<and> dns_inv s2 \<and> same_env s s2 \<and> lookups s2 = lookups s \<and>
    (if due cf s q \<and> cf_query_timeout cf \<le> id_now s - iq_start_t q then id_lru s2 = remove1 a (id_lru s)
     else id_lru s2 = a # remove1 a (id_lru s) \<and> (\<exists>q'. id_mem s2 a = Some q' \<and> iq_queue_t q' = id_now s)) \<and>
    (\<forall>b q. b \<noteq> a \<longrightarrow> id_mem s2 b = Some q \<longrightarrow> id_mem s b = Some q)"
proof -
  note wf = dns_invD(1) [OF inv]
  have pn: "iq_pending q" using wfqD(3) [OF wf, of a] a by (simp add: pend_def)
  note nr = pending_no_result [OF inv a(2) pn]
  let ?q0 = "q\<lparr>iq_pending := False\<rparr>"
  have l0: "same_links q ?q0" "same_text q ?q0" "\<not> iq_pending ?q0" "no_result ?q0" using nr by (simp_all add: same_links_def same_text_def no_result_def)
  have unf: "check_loop (Suc fuel) cf udp valid s (Some a) =
     (if \<not> due cf s q then
        check_loop fuel cf udp valid ((id_put s a (q\<lparr>iq_queue_t := id_now s\<rparr>))\<lparr>id_lru := a # remove1 a (id_lru s)\<rparr>) (list_prev a (id_lru s))
      else res_bind
          (if id_now s - iq_start_t q < cf_query_timeout cf then idnsSendQuery cf udp (taken s a ?q0) a
           else idnsCallback cf valid (taken s a ?q0) a (Some (if iq_rcode q \<noteq> 0 then rfc1035ErrorMessage (iq_rcode q) else ''Timeout''))) (\<lambda>s2.
        check_loop fuel cf udp valid s2 (list_prev a (id_lru s))))"
    using a(2) r by (simp add: id_get_def Let_def due_def taken_def not_less)
  consider "\<not> due cf s q" | "due cf s q" "id_now s - iq_start_t q < cf_query_timeout cf" | "due cf s q" "cf_query_timeout cf \<le> id_now s - iq_start_t q" by linarith
  then show ?thesis
  proof cases
    case 1
    let ?s2 = "(id_put s a (q\<lparr>iq_queue_t := id_now s\<rparr>))\<lparr>id_lru := a # remove1 a (id_lru s)\<rparr>"
    have mem: "id_mem ?s2 = (id_mem s)(a \<mapsto> q\<lparr>iq_queue_t := id_now s\<rparr>)" "id_hash ?s2 = id_hash s" "id_searchpath ?s2 = id_searchpath s" "id_out ?s2 = id_out s"
      by (simp_all add: id_put_def)
    have "wfq {} {} ((id_mem s)(a \<mapsto> q\<lparr>iq_queue_t := id_now s\<rparr>)) (a # remove1 a (id_lru s)) (id_hash s)"
      by (rule wf_rewrite [OF wf a(2)]) (use wfqD(2) [OF wf] a(1) in \<open>auto simp: same_links_def no_result_def has_result_def\<close>)
    moreover have "names_fit ?s2" by (rule names_fit_mem [OF dns_invD(2) [OF inv] mem(3)]) (use a(2) in \<open>auto simp: mem(1) split: if_splits\<close>)
    moreover have env: "same_env s ?s2" by simp
    ultimately have "dns_inv ?s2" using same_env_can_send [OF env dns_invD(3) [OF inv]] by (intro dns_invI) (simp_all add: mem)
    moreover have "lookups ?s2 = lookups s" using outstanding_update [of "id_mem s" a q "q\<lparr>iq_queue_t := id_now s\<rparr>"] a(2) by (simp add: lookups_def mem)
    ultimately show ?thesis using unf 1 env by (intro exI [of _ ?s2]) (simp add: mem(1))
  next
    case 2
    obtain s2 q2 where "idnsSendQuery cf udp (taken s a ?q0) a = Inr s2" "dns_inv s2" "same_env s s2" "lookups s2 = lookups s"
        "id_mem s2 = (id_mem s)(a \<mapsto> q2)" "iq_queue_t q2 = id_now s" "id_lru s2 = a # remove1 a (id_lru s)"
      using resend_inv [OF inv a(2) pn l0, of cf udp] by blast
    then show ?thesis using unf 2 by (intro exI [of _ s2]) simp
  next
    case 3
    let ?e = "Some (if iq_rcode q \<noteq> 0 then rfc1035ErrorMessage (iq_rcode q) else ''Timeout'')"
    have "has_result (if ?e = None then ?q0 else ?q0\<lparr>iq_error := ?e\<rparr>)" using nr by (simp add: has_result_def no_result_def)
    from finish_inv [OF inv a(2) pn l0(1-3) this, of cf valid]
    obtain s2 where "idnsCallback cf valid (taken s a ?q0) a ?e = Inr s2" "dns_inv s2" "same_env s s2" "lookups s2 = lookups s" "id_lru s2 = remove1 a (id_lru s)"
        "\<forall>b q. b \<noteq> a \<longrightarrow> id_mem s2 b = Some q \<longrightarrow> id_mem s b = Some q" by blast
    then show ?thesis using unf 3 by (intro exI [of _ s2]) simp
  qed
qed


lemma check_queue_of_loop:
  assumes inv: "dns_inv s" and s2: "check_loop (length (id_lru s) + 1) cf udp valid (s\<lparr>id_event_queued := False\<rparr>) (if id_lru s = [] then None else Some (last (id_lru s))) = Inr s2"
    "dns_inv s2" "same_env (s\<lparr>id_event_queued := False\<rparr>) s2" "lookups s2 = lookups (s\<lparr>id_event_queued := False\<rparr>)"
  shows "\<exists>s'. idnsCheckQueue cf udp valid s = Inr s' \<and> dns_inv s' \<and> same_env s s' \<and> lookups s' = lookups s \<and> id_lru s' = id_lru s2"
proof -
  have "id_servers s \<noteq> []" using dns_invD(3) [OF inv] by (simp add: can_send_def)
  then have "idnsCheckQueue cf udp valid s = Inr (idnsTickleQueue cf s2)" using s2(1) by (cases "id_lru s = []") (simp_all add: idnsCheckQueue_def Let_def del: check_loop.simps)
  moreover have "same_env s (s\<lparr>id_event_queued := False\<rparr>)" by simp
  then have "same_env s (idnsTickleQueue cf s2)" using same_env_trans same_env_trans [OF s2(3) tickle_same(1)] by blast
  moreover have "dns_inv (idnsTickleQueue cf s2)"
    using s2(2) tickle_same(1) [of s2 cf] same_env_can_send [OF tickle_same(1), of s2 cf] unfolding dns_inv_def names_fit_def by (simp add: tickle_same(2-4) same_env_def)
  moreover have "lookups (idnsTickleQueue cf s2) = lookups s" using s2(4) by (simp add: lookups_def tickle_same)
  ultimately show ?thesis using tickle_same(3) by blast
qed

lemma event_flag_inv: "dns_inv s \<Longrightarrow> dns_inv (s\<lparr>id_event_queued := b\<rparr>)"
  by (simp add: dns_inv_def names_fit_def can_send_def vcs_ok_def)


text \<open>A client without pending queries has no queries, and no lookup waits.\<close>

lemma idle_no_lookups:
  assumes "dns_inv s" and "id_lru s = []"
  shows "id_mem s = Map.empty \<and> outstanding (id_mem s) (id_hash s) = {#}"
proof -
  note wf = dns_invD(1) [OF assms(1)]
  have np: "\<not> pend (id_mem s) b" for b using wfqD(3) [OF wf, of b] assms(2) by simp
  have "id_mem s a = None" for a
  proof (rule ccontr)
    assume "id_mem s a \<noteq> None"
    then obtain q where "id_mem s a = Some q" by auto
    then obtain m mq where m: "id_mem s m = Some mq" "iq_master mq = None" using master_ok [OF wf] by blast
    then show False using links_master(5) [OF wfqD(5) [OF wf m(1)] m(2)] np by simp
  qed
  then have mem: "id_mem s = Map.empty" by auto
  then have "set (id_hash s) = {}" using wfqD(7) [OF wf] by force
  then show ?thesis using mem by (simp add: outstanding_def)
qed

definition overdue :: "idns_config \<Rightarrow> idns \<Rightarrow> idns_query \<Rightarrow> bool" where
  "overdue cf s q \<longleftrightarrow> cf_retransmit cf \<le> id_now s - iq_queue_t q \<and> due cf s q \<and> cf_query_timeout cf \<le> id_now s - iq_start_t q"

lemma check_loop_all:
  assumes "dns_inv s" and "\<And>a q. id_mem s a = Some q \<Longrightarrow> iq_pending q \<Longrightarrow> overdue cf s q" and "length (id_lru s) < fuel"
  shows "\<exists>s'. check_loop fuel cf udp valid s (if id_lru s = [] then None else Some (last (id_lru s))) = Inr s' \<and> dns_inv s' \<and> same_env s s' \<and> lookups s' = lookups s \<and> id_lru s' = []"
  using assms
proof (induction fuel arbitrary: s)
  case (Suc fuel)
  note wf = dns_invD(1) [OF Suc.prems(1)]
  show ?case
  proof (cases "id_lru s = []")
    case True
    then show ?thesis using Suc.prems(1) by simp
  next
    case False
    let ?a = "last (id_lru s)"
    have a: "?a \<in> set (id_lru s)" using False by simp
    then obtain q where q: "id_mem s ?a = Some q" "iq_pending q" using wfqD(3) [OF wf, of ?a] by (auto simp: pend_def split: option.splits)
    have o: "cf_retransmit cf \<le> id_now s - iq_queue_t q" "due cf s q \<and> cf_query_timeout cf \<le> id_now s - iq_start_t q"
      using Suc.prems(2) [OF q] by (simp_all add: overdue_def)
    obtain s2 where s2: "check_loop (Suc fuel) cf udp valid s (Some ?a) = check_loop fuel cf udp valid s2 (list_prev ?a (id_lru s))" "dns_inv s2" "same_env s s2" "lookups s2 = lookups s"
        "id_lru s2 = remove1 ?a (id_lru s)" "\<forall>b q. b \<noteq> ?a \<longrightarrow> id_mem s2 b = Some q \<longrightarrow> id_mem s b = Some q"
      using check_turn [OF Suc.prems(1) a q(1) o(1), of fuel udp valid] o(2) by auto
    have d: "distinct (id_lru s)" using wfqD(2) [OF wf] .
    have "id_lru s = butlast (id_lru s) @ [?a]" using False by simp
    then have "remove1 ?a (id_lru s) = butlast (id_lru s)" using d by (metis distinct_append disjoint_iff list.set_intros(1) remove1_append remove1.simps(2) append_Nil2)
    then have l2: "id_lru s2 = butlast (id_lru s)" using s2(5) by simp
    have "overdue cf s2 r" if r: "id_mem s2 b = Some r" "iq_pending r" for b r
    proof -
      have "b \<in> set (id_lru s2)" using wfqD(3) [OF dns_invD(1) [OF s2(2)], of b] r by (simp add: pend_def)
      then have "b \<noteq> ?a" using s2(5) d by auto
      then have "overdue cf s r" using s2(6) r Suc.prems(2) by blast
      then show ?thesis using s2(3) same_env_length [OF s2(3)] by (simp add: overdue_def due_def same_env_def)
    qed
    moreover have "length (id_lru s2) < fuel" using l2 Suc.prems(3) False by (cases "id_lru s") auto
    ultimately obtain s3 where "check_loop fuel cf udp valid s2 (if id_lru s2 = [] then None else Some (last (id_lru s2))) = Inr s3" "dns_inv s3" "same_env s2 s3" "lookups s3 = lookups s2" "id_lru s3 = []"
      using Suc.IH [OF s2(2)] by blast
    then show ?thesis using False s2(1,3,4) list_prev_last [OF d False] l2 same_env_trans by auto
  qed
qed simp

lemma check_all:
  assumes inv: "dns_inv s" and "\<And>a q. id_mem s a = Some q \<Longrightarrow> iq_pending q \<Longrightarrow> overdue cf s q"
  shows "\<exists>s'. idnsCheckQueue cf udp valid s = Inr s' \<and> dns_inv s' \<and> lookups s' = lookups s \<and> id_lru s' = []"
proof -
  let ?s1 = "s\<lparr>id_event_queued := False\<rparr>"
  have o: "overdue cf ?s1 q" if "id_mem ?s1 a = Some q" "iq_pending q" for a q using assms(2) that by (simp add: overdue_def due_def)
  have "\<exists>s2. check_loop (length (id_lru s) + 1) cf udp valid ?s1 (if id_lru ?s1 = [] then None else Some (last (id_lru ?s1))) = Inr s2 \<and> dns_inv s2 \<and> same_env ?s1 s2 \<and> lookups s2 = lookups ?s1 \<and> id_lru s2 = []"
    by (rule check_loop_all [OF event_flag_inv [OF inv]], rule o) simp_all
  moreover have eq: "id_lru ?s1 = id_lru s" by simp
  ultimately obtain s2 where "check_loop (length (id_lru s) + 1) cf udp valid ?s1 (if id_lru s = [] then None else Some (last (id_lru s))) = Inr s2" "dns_inv s2" "same_env ?s1 s2" "lookups s2 = lookups ?s1" "id_lru s2 = []"
    unfolding eq by blast
  then show ?thesis using check_queue_of_loop [OF inv, of cf udp valid s2] by auto
qed


section \<open>Runs of the client\<close>























text \<open>A client just started, with one server.\<close>

definition dns_fresh :: "string list \<Rightarrow> idns" where
  "dns_fresh path = \<lparr>id_sockets = True, id_servers = [\<lparr>ns_addr = 1, ns_port = 53, ns_nqueries = 0, ns_nreplies = 0, ns_vc = None\<rparr>], id_searchpath = path,
     id_ndots = 1, id_lru = [], id_event_queued = False, id_hash = [], id_mem = Map.empty, id_now = 0, id_nrand = 0, id_out = []\<rparr>"

definition dns_conf :: idns_config where
  "dns_conf = \<lparr>cf_retransmit = 5000, cf_query_timeout = 30000, cf_packet_max = 0, cf_v4_first = False, cf_res_defnames = True,
     cf_ignore_unknown = True, cf_ipv6 = True, cf_rcvbuf = 16384\<rparr>"




text \<open>
  C21. A DNS reply is without effect unless it carries the identifier of a pending query and repeats its question: a forged reply has to guess both.
\<close>

theorem dns_reply_needs_match:
  assumes "dns_inv s" and "sz < length buf"
    and "\<forall>n message mq a q. rfc1035MessageUnpack buf sz = Inr (n, Some message) \<and> msg_query message = Some mq \<and> a \<in> set (id_lru s) \<and> id_mem s a = Some q \<longrightarrow>
      iq_query_id q \<noteq> msg_id message \<or> \<not> rfc1035QueryCompare (iq_query q) mq"
  shows "idnsGrokReply cf udp valid alloc rnd s buf sz = Inr s"
  using grok_cases [OF assms(1,2), of cf udp valid alloc rnd] assms(3) by blast

text \<open>The client with one query pending.\<close>

definition dns_asked :: idns where
  "dns_asked = (dns_fresh [])\<lparr>id_lru := [1], id_hash := [(''w'', 1)], id_now := 40000,
     id_mem := [1 \<mapsto> new_query\<lparr>iq_query := \<lparr>q_name = ''w'', q_qtype = 1, q_qclass = 1\<rparr>, iq_name := ''w'', iq_orig := ''w'', iq_query_id := 7, iq_nsends := 1,
       iq_pending := True, iq_callback := Some 9, iq_key := Some ''w''\<rparr>]\<rparr>"

lemma asked_inv: "dns_inv dns_asked"
  by (auto simp: dns_inv_def dns_asked_def dns_fresh_def wfq_def pend_def names_fit_def can_send_def vcs_ok_def new_query_def NS_MAXDNAME_def
      result_wf_def links_wf_def no_result_def RESOLV_BUFSZ_def)

lemma unpack_id:
  assumes "rfc1035MessageUnpack buf sz = Inr (n, Some m)"
  shows "get16 buf 0 = Inr (msg_id m)"
proof -
  obtain h where h: "rfc1035HeaderUnpack buf sz = Inr h" using assms by (auto simp: rfc1035MessageUnpack_def res_bind_Inr_iff)
  obtain off msg where hs: "h = Some (off, msg)" using assms h by (cases h) (auto simp: rfc1035MessageUnpack_def)
  have qd: "msg_qdcount msg = 1" using assms h hs by (cases "msg_qdcount msg = 1") (simp_all add: rfc1035MessageUnpack_def)
  obtain x where x: "rfc1035QueryUnpack buf sz off = Inr x" using assms h hs qd by (auto simp: rfc1035MessageUnpack_def res_bind_Inr_iff)
  obtain off1 query where xs: "x = Some (off1, query)" using assms h hs qd x by (cases x) (auto simp: rfc1035MessageUnpack_def)
  have "msg_id m = msg_id msg" using assms h hs qd x xs by (auto simp: rfc1035MessageUnpack_def Let_def res_bind_Inr_iff split: if_splits)
  then have "rfc1035HeaderUnpack buf sz = Inr (Some (off, msg))" "msg_id m = msg_id msg" using h hs by simp_all
  then show ?thesis by (auto simp: rfc1035HeaderUnpack_def res_bind_Inr_iff Let_def split: if_splits)
qed

theorem dns_reply_needs_match_witness:
  "idnsGrokReply dns_conf (\<lambda>n. True) (\<lambda>d. True) (\<lambda>A. Max (insert 0 A) + 1) of_nat dns_asked
     (map char_of [0 :: nat, 8, 128, 0, 0, 1, 0, 0, 0, 0, 0, 0, 1, 119, 0, 0, 1, 0, 1, 0]) 19 = Inr dns_asked"
proof -
  let ?buf = "map char_of [0 :: nat, 8, 128, 0, 0, 1, 0, 0, 0, 0, 0, 0, 1, 119, 0, 0, 1, 0, 1, 0]"
  have "get16 ?buf 0 = Inr 8" by (simp add: get16_def get_bytes_def be_nat_def)
  then have "msg_id m = 8" if "rfc1035MessageUnpack ?buf 19 = Inr (n, Some m)" for n m using unpack_id [OF that] by simp
  then have "\<forall>n message mq a q. rfc1035MessageUnpack ?buf 19 = Inr (n, Some message) \<and> msg_query message = Some mq \<and> a \<in> set (id_lru dns_asked) \<and> id_mem dns_asked a = Some q \<longrightarrow>
      iq_query_id q \<noteq> msg_id message \<or> \<not> rfc1035QueryCompare (iq_query q) mq"
    by (auto simp: dns_asked_def)
  then show ?thesis by (intro dns_reply_needs_match [OF asked_inv]) simp_all
qed

text \<open>
  C22. No lookup waits for ever: when all pending queries are past their time, one run of the timer calls back every lookup that still waits and
  leaves no query behind.
\<close>

theorem dns_overdue_answered:
  assumes "dns_inv s" and "\<forall>a q. id_mem s a = Some q \<and> iq_pending q \<longrightarrow> overdue cf s q"
  shows "\<exists>s'. idnsCheckQueue cf udp valid s = Inr s' \<and> id_lru s' = [] \<and> id_mem s' = Map.empty \<and>
    mset (out_data (id_out s')) = outstanding (id_mem s) (id_hash s) + mset (out_data (id_out s))"
proof -
  obtain s' where s': "idnsCheckQueue cf udp valid s = Inr s'" "dns_inv s'" "lookups s' = lookups s" "id_lru s' = []"
    using check_all [OF assms(1), of cf udp valid] assms(2) by blast
  note idle = idle_no_lookups [OF s'(2,4)]
  have "mset (out_data (id_out s')) = outstanding (id_mem s) (id_hash s) + mset (out_data (id_out s))"
    using s'(3) unfolding lookups_def idle [THEN conjunct2] by simp
  then show ?thesis using s'(1,4) idle by blast
qed

theorem dns_overdue_answered_witness:
  "\<exists>s'. idnsCheckQueue dns_conf (\<lambda>n. True) (\<lambda>d. True) dns_asked = Inr s' \<and> id_lru s' = [] \<and> id_mem s' = Map.empty \<and> mset (out_data (id_out s')) = {#9#}"
proof -
  have "\<exists>s'. idnsCheckQueue dns_conf (\<lambda>n. True) (\<lambda>d. True) dns_asked = Inr s' \<and> id_lru s' = [] \<and> id_mem s' = Map.empty \<and>
      mset (out_data (id_out s')) = outstanding (id_mem dns_asked) (id_hash dns_asked) + mset (out_data (id_out dns_asked))"
    by (rule dns_overdue_answered [OF asked_inv]) (simp add: dns_asked_def dns_fresh_def new_query_def overdue_def due_def dns_conf_def)
  moreover have "outstanding (id_mem dns_asked) (id_hash dns_asked) + mset (out_data (id_out dns_asked)) = {#9#}"
    by (simp add: dns_asked_def dns_fresh_def new_query_def outstanding_def waiting_def)
  ultimately show ?thesis by simp
qed

text \<open>
  C23. A name server can stop the process: the header of a TCP message that announces a length of zero fails an assertion.
\<close>

theorem dns_empty_message_asserts:
  assumes "get_vc s n = Inr vc" and "bytes \<noteq> []" and "vc_header vc @ bytes = [CHR 0x00, CHR 0x00]"
  shows "idnsReadVCHeader s n bytes = Inl Assertion"
proof -
  have "be_nat [CHR 0x00, CHR 0x00] = 0" by (simp add: be_nat_def byte_of_def)
  moreover have "length (vc_header vc) + length bytes = 2" using arg_cong [OF assms(3), of length] by simp
  ultimately show ?thesis using assms by (simp add: idnsReadVCHeader_def mb_init_def Let_def)
qed

theorem dns_empty_message_asserts_witness:
  "idnsReadVCHeader (put_vc (dns_fresh []) 0 (Some \<lparr>vc_conn = True, vc_closing = False, vc_msglen = 0, vc_header = [], vc_msg = MemBuf, vc_queue = MemBuf, vc_busy = False\<rparr>)) 0
     [CHR 0x00, CHR 0x00] = Inl Assertion"
  by (rule dns_empty_message_asserts [OF get_put_vc(1)]) (simp_all add: dns_fresh_def)

end
