(* ===== verification/Spec2Isabelle.thy ===== *)
theory Spec2Isabelle
  imports Ipc_StoreMap_Steps Ipc_FewToFew Ipc_Mem_Pages Http_Range Http_Chunked Lib_Heap Event_Scheduler Store_FileMap Cache_Digest Http_Cacheable Lib_Base64 Lib_Rfc1738 Repl_Lru Repl_Heap Store_Mem Lib_Rfc1035 Dns_Client
begin

text \<open>
  \<^bold>\<open>Squid 3.3, a caching proxy: core components and their correctness.\<close>

  Squid is a single-threaded, event-driven program; with several workers, the processes share
  memory. This development models the parts that carry its own logic and that other parts rely
  on, as HOL functions translated from the source, and proves what makes them correct.

  \<^bold>\<open>Parts and theories.\<close>

  \<^item> Shared memory between workers and disk processes.
    \<open>Ipc_ReadWriteLock\<close> models src/ipc/ReadWriteLock.cc twice: each method as a function on the two
    counters, and every atomic operation as a step of an interleaved system; locking and
    failing to lock are shown to be runs of the latter. \<open>Ipc_StoreMap\<close> is the shared cache index
    (src/ipc/StoreMap.cc) with its slots guarded by that lock, each method a function, as for calls that do
    not overlap; \<open>Ipc_StoreMap_Steps\<close> takes the same methods apart into single accesses to shared memory, which processes
    interleave. \<open>Store_Entry\<close> has the fields of \<^verbatim>\<open>StoreEntry\<close> the index copies. \<open>Ipc_Queue\<close> is the queue of fixed-size items of src/ipc/Queue.cc
    between one writer and one reader, with 32-bit wrap-around counters; \<open>Ipc_FewToFew\<close> the matrix
    of such queues between two groups of processes and the readers' round robin.
    \<open>Ipc_Mem_Pages\<close> is the lock-free stack of free pages, the pool and the limits by purpose
    (src/ipc/mem).

  \<^item> HTTP. \<open>C_Strings\<close> models the functions of the C library the parsers use, \<open>Str_List\<close> the
    list-valued header fields (src/StrList.cc), \<open>Http_Range\<close> byte ranges (src/HttpHdrRange.cc) with
    \<^verbatim>\<open>int64_t\<close> arithmetic. \<open>Mem_Buf\<close> is the growing buffer (src/MemBuf.cc), \<open>Http_Chunked\<close> the
    incremental parser of the chunked coding (src/ChunkedCodingParser.cc) that moves bytes from
    one buffer to another. \<open>Squid_String\<close> is the string class with its length limit (src/String.cc),
    \<open>Http_CacheControl\<close> the parser and printer of the Cache-Control field (src/HttpHdrCc.cc) and the
    quoted strings and numbers of its directives (src/HttpHeaderTools.cc).

  \<^item> Freshness. \<open>Refresh\<close> decides whether a stored response may be used without validation
    (src/refresh.cc), with the products of \<^verbatim>\<open>double\<close> values rounded by \<open>C_Double\<close>. \<open>Http_Cacheable\<close>
    decides whether a reply may be stored (\<^verbatim>\<open>cacheableReply\<close> of src/http.cc) and computes its times
    (src/HttpReply.cc, src/store.cc).

  \<^item> Codings. \<open>Lib_Base64\<close> is lib/base64.c, \<open>Lib_Rfc1738\<close> the escaping of URLs of lib/rfc1738.c.

  \<^item> Callbacks and time. \<open>Cbdata\<close> is the reference counting of callback data (src/cbdata.cc),
    \<open>Event_Scheduler\<close> the time-based event queue (src/event.cc) whose events and calls hold such
    references.

  \<^item> Cache replacement. \<open>Lib_Heap\<close> is the binary heap (lib/heap.c), an array of pointers to nodes
    that know their index, over an explicit memory; \<open>Lib_Dlink\<close> the doubly linked list (src/dlink.cc). \<open>Repl_Policy\<close> is what the
    removal policies share and their client, which makes room in the memory cache (\<^verbatim>\<open>storeGetMemSpace\<close> of src/store.cc);
    \<open>Repl_Lru\<close> and \<open>Repl_Heap\<close> are the policies of src/repl, on the list and on the heap. \<open>Lib_Splay\<close> is the splay
    tree (include/splay.h).

  \<^item> DNS. \<open>Lib_Rfc1035\<close> packs and unpacks messages (lib/rfc1035.c, rfc2671.c, rfc3596.c). \<open>Dns_Internal\<close> is the client
    (src/dns_internal.cc): queries, their retransmission, the search path, lookups that wait for the same name, and TCP connections to name servers.
    \<open>Dns_Wellformed\<close> and \<open>Dns_Handlers\<close> hold its invariant and that each handler keeps it, \<open>Dns_Client\<close> runs of events.

  \<^item> What is stored where. \<open>Store_FileMap\<close> is the bitmap of used file numbers of a disk store
    (src/filemap.cc), \<open>Cache_Digest\<close> the Bloom filter that summarises the contents of a cache for its
    peers (src/CacheDigest.cc, and the rebuilding part of src/store_digest.cc). Both keep a set of
    bits in an array of words, which is \<open>Bit_Arrays\<close>. \<open>Store_Mem\<close> is the content of an object in memory, pages in
    a tree (src/stmem.cc, src/mem_node.cc).

  \<open>Squid_Prelude\<close> holds what they share: failures as values, narrowing conversions, counting, and
  the locale \<open>inductive_invariant\<close> that lifts a one-step proof to every reachable state.

  \<^bold>\<open>How the code is modelled.\<close> A class or struct is a record with the fields of the source; an
  operation that changes it returns the changed record. A failed \<^verbatim>\<open>assert\<close>, a thrown exception,
  an access out of bounds or through a stale pointer is a value \<open>Inl e\<close>, so a theorem that an
  operation returns \<open>Inr\<close> excludes them. Shared objects live in explicit memories (maps from
  addresses). Concurrency is an inductive step relation that interleaves the accesses of the processes to shared memory one by
  one: in \<open>Ipc_ReadWriteLock\<close>, \<open>Ipc_StoreMap_Steps\<close>, \<open>Ipc_Queue\<close> and \<open>Ipc_Mem_Pages\<close>. The functions of \<open>Ipc_StoreMap\<close> are whole calls.
  Time, keys of heap nodes and the results of the allocator, of \<^verbatim>\<open>drand48\<close> and of library code
  that is not part of the repository are arguments or type parameters.

  \<^bold>\<open>Interfaces.\<close> Contracts are locales, each interpreted on the model: \<open>shared_exclusive_lock\<close>
  (the lock the cache index relies on), \<open>bounded_fifo\<close> (the queue), \<open>addressed_queue\<close> (the heap as
  a map from node addresses to keys and data), \<open>reference_counts\<close> (callback data, used by the
  event queue), \<open>bit_array\<close> (a set of bits, used by the file map and the digest), \<open>removal_policy\<close> (the contract of a purge, which the
  list policy and, for an allocator that returns unused addresses, the heap policies keep), \<open>ordered_table\<close> (the splay tree) and
  \<open>inductive_invariant\<close> (all interleaved systems).

  \<^bold>\<open>What is shown.\<close> The lock excludes writers from readers and other writers under every
  interleaving, its counters count those who hold or try it, and the index built on it keeps locks and slot states
  in agreement under every interleaving and finds what was stored; it counts its entries as long as no slot that is
  empty already is emptied once more, and a race that does so is shown to lose a count. The queue refines a bounded list, also when writer and reader interleave; the
  lost wake-up and the effect of a capacity that does not divide \<open>2 ^ 32\<close> are proved as they
  are. Pages are conserved by the page stack, and limits respected. Ranges are printed and, behind
  the unit, which is not printed, parsed back, and canonized exactly. The chunked parser decodes every message however it is cut into
  reads. The heap refines a queue addressed by nodes, drains in order, and its update is a deletion
  and an insertion. A callback object lives exactly as long as it is valid or referenced; the event
  queue keeps that accounting, stays sorted, is stable, and fires due events in order.
  The file map is a set of numbers of which allocation finds a free one, growing when there is none;
  a digest answers exactly whether all bits of a key are on, hence never denies a stored key.
  Cache-Control fields are printed and parsed back, and parsing them ends without a failed assertion
  for fields up to 43689 bytes. The freshness decision equals a specification that does not depend
  on the order of the tests, and a reply with an explicit lifetime is fresh for exactly that long; what
  no-store or private forbid is not stored. Base64 and URL escaping are undone by their inverses and
  stay inside their buffers. The list policy refines a list ordered by recency and purges from it the oldest entries that are not locked; room is made in memory as far as
  unlocked entries allow. The splay tree is an ordered table. The content of an object refines a partial map from offsets to bytes. A name in a DNS message is
  unpacked exactly as its labels and pointers say, up to the limits of the code, and a query sent is recognised in its echo; the DNS client answers each lookup once, takes only replies that match
  a query, and gives up those that are overdue.
  The theorems whose names speak of asserting, skipping or depending, and that of authenticated
  replies, record defects of the code.

  \<^bold>\<open>Bounds and fuel.\<close> The recursive functions are total. The sift loops of the heap carry fuel,
  the number of nodes plus one; \<open>heap_ify_up_ok\<close> and \<open>heap_ify_down_ok\<close> show that it is enough.
  The loop of the chunked parser and that of its trailer terminate by the measure \<open>cp_measure\<close>.
  The heap's array has less than \<open>2 ^ 31\<close> elements, as its \<^verbatim>\<open>int\<close> size demands, and an object has
  less than \<open>2 ^ 31 - 2\<close> references; both appear as hypotheses. The file map's \<^verbatim>\<open>allocate\<close> calls itself
  after growing: fuel 2 is enough (\<open>fm_allocate_ok\<close>), and \<open>fm_grow_to\<close> ends by a measure, the room
  left below \<open>2 ^ 24\<close>. The loop over quoted strings ends by the measure of the bytes left, and the
  unescaper by the length of the rest. Making room in memory has fuel for the entries the policy
  manages plus one (\<open>removal_policy.get_mem_space\<close>), a purge of the heap policies for the nodes of the heap plus one; the test for
  contiguous content has fuel for the length of the range plus one, freeing content for the number of pages plus one; the DNS timer for
  the pending queries plus one, and the choice of a query id tries the \<open>2 ^ 16\<close> there are. Unpacking a name ends by the limit on pointers. \<open>lru_purgeNext\<close> ends by a measure.
  Times are unbounded integers; where the code stores a difference
  of times in an \<^verbatim>\<open>int\<close>, it is narrowed. The size of a digest, \<open>cap * bpe + 7\<close>, stays below \<open>2 ^ 31\<close> as a hypothesis.

  \<^bold>\<open>Not modelled.\<close> Everything whose substance is input/output or configuration: the sockets and
  the communication layer, the client and server sides of HTTP, FTP, Gopher and ICP, the reading of resolv.conf and hosts
  files and the address caches on top of the DNS client, SSL,
  the configuration parser, ESI, WCCP, SNMP, authentication and the helpers, the disk stores; the
  vendored regular expressions and libltdl; debugging output and cache manager reports. Of the
  modelled files, the functions left out are named in the theories.
\<close>

end
